(* ===== verification/Prelude.thy ===== *)
theory Prelude
  imports Main "HOL-Library.Word" "HOL-Library.Log_Nat" "HOL-Library.Monad_Syntax"
begin

text \<open>
  Shared vocabulary of the development: the machine integer types of the C++ and C sources,
  the little-endian byte images the code reads and writes through pointer casts, the failure
  values, and generic lemmas on lists, words and association lists that several components use.
  The collection \<open>bytes_simps\<close> holds the facts about byte images.
\<close>

unbundle bit_operations_syntax

named_theorems bytes_simps \<open>byte images of machine integers\<close>

type_synonym u8 = "8 word"
type_synonym u16 = "16 word"
type_synonym u32 = "32 word"
type_synonym u64 = "64 word"
type_synonym bytes = "u8 list"

section \<open>Failures\<close>

text \<open>
  The ways an operation of the program can stop: a fatal log line (\<open>LOG(FATAL)\<close> aborts the
  process), an exception of the standard library, and the memory errors that C++ leaves
  undefined (a read or write outside an object, a null dereference).
\<close>

datatype cpp_error =
    LogFatal
  | BadVariantAccess
  | BadOptionalAccess
  | OutOfRange
  | OutOfBounds
  | IntOverflow
  | NullDeref

section \<open>Reads of a buffer\<close>

definition fetch :: "'a list \<Rightarrow> nat \<Rightarrow> 'a option" where
  "fetch xs i = (if i < length xs then Some (xs ! i) else None)"

lemma fetch_in [simp]: "i < length xs \<Longrightarrow> fetch xs i = Some (xs ! i)"
  by (simp add: fetch_def)

lemma fetch_out [simp]: "length xs \<le> i \<Longrightarrow> fetch xs i = None"
  by (simp add: fetch_def)

lemma fetch_eq_Some: "fetch xs i = Some x \<longleftrightarrow> i < length xs \<and> x = xs ! i"
  by (auto simp: fetch_def)

section \<open>C integer conversions\<close>

text \<open>\<open>u64_of_int\<close> is the conversion of an \<open>int\<close> to \<open>uint64_t\<close>, \<open>s32_of_nat\<close> that of an unsigned
  64-bit value to \<open>int\<close> (the low 32 bits read as two's complement).\<close>

definition u64_of_int :: "int \<Rightarrow> nat" where
  "u64_of_int i = nat (i mod 2 ^ 64)"

definition s32_of_nat :: "nat \<Rightarrow> int" where
  "s32_of_nat n = (int n + 2 ^ 31) mod 2 ^ 32 - 2 ^ 31"

lemma u64_of_int_nonneg [simp]: "0 \<le> i \<Longrightarrow> i < 2 ^ 64 \<Longrightarrow> u64_of_int i = nat i"
  by (simp add: u64_of_int_def)

lemma s32_of_nat_small [simp]: "n < 2 ^ 31 \<Longrightarrow> s32_of_nat n = int n"
  by (simp add: s32_of_nat_def)

section \<open>Little-endian byte images\<close>

primrec nat_le :: "bytes \<Rightarrow> nat" where
  "nat_le [] = 0"
| "nat_le (b # bs) = unat b + 256 * nat_le bs"

primrec le_nat :: "nat \<Rightarrow> nat \<Rightarrow> bytes" where
  "le_nat 0 x = []"
| "le_nat (Suc n) x = of_nat x # le_nat n (x div 256)"

lemma length_le_nat [simp, bytes_simps]: "length (le_nat n x) = n"
  by (induction n arbitrary: x) auto

lemma unat_u8_less [simp]: "unat (b :: u8) < 256"
  using unsigned_less [of b] by simp

lemma unat_of_nat_u8 [simp, bytes_simps]: "unat (of_nat x :: u8) = x mod 256"
  by (simp add: unat_of_nat)

lemma nat_le_le_nat [bytes_simps]: "nat_le (le_nat n x) = x mod 256 ^ n"
proof (induction n arbitrary: x)
  case 0
  then show ?case by simp
next
  case (Suc n)
  have "x mod 256 + 256 * (x div 256 mod 256 ^ n) = x mod (256 * 256 ^ n)"
    by (simp add: mod_mult2_eq)
  with Suc show ?case by simp
qed

lemma nat_le_less: "nat_le bs < 256 ^ length bs"
proof (induction bs)
  case Nil
  then show ?case by simp
next
  case (Cons b bs)
  have "unat b + 256 * nat_le bs < 256 * (nat_le bs + 1)"
    using unat_u8_less [of b] by simp
  also have "\<dots> \<le> 256 * 256 ^ length bs"
    using Cons by (intro mult_left_mono) auto
  finally show ?case by simp
qed

lemma le_nat_nat_le [bytes_simps]: "le_nat (length bs) (nat_le bs) = bs"
proof (induction bs)
  case Nil
  then show ?case by simp
next
  case (Cons b bs)
  have "(unat b + 256 * nat_le bs) div 256 = nat_le bs"
    using unat_u8_less [of b] by simp
  moreover have "of_nat (unat b + 256 * nat_le bs) = b"
  proof -
    have "(of_nat (256 * nat_le bs) :: u8) = 0"
      by (metis mod_mult_self1_is_0 of_nat_0 unat_of_nat_u8 word_unat_eq_iff unsigned_0)
    then show ?thesis by simp
  qed
  ultimately show ?case using Cons by simp
qed

text \<open>The image of a word of \<open>n\<close> bytes in memory, and the read of one.\<close>

definition word_image :: "nat \<Rightarrow> 'a::len word \<Rightarrow> bytes" where
  "word_image n w = le_nat n (unat w)"

definition image_word :: "bytes \<Rightarrow> 'a::len word" where
  "image_word bs = of_nat (nat_le bs)"

lemma length_word_image [simp, bytes_simps]: "length (word_image n w) = n"
  by (simp add: word_image_def)

lemma image_word_word_image [simp, bytes_simps]:
  fixes w :: "'a::len word"
  assumes "LENGTH('a) \<le> 8 * n"
  shows "image_word (word_image n w) = w"
proof -
  have "unat w < 256 ^ n"
  proof -
    have "unat w < 2 ^ LENGTH('a)" by simp
    also have "\<dots> \<le> 2 ^ (8 * n)" using assms by (intro power_increasing) auto
    also have "\<dots> = 256 ^ n" by (simp add: power_mult)
    finally show ?thesis .
  qed
  then show ?thesis
    by (simp add: image_word_def word_image_def nat_le_le_nat)
qed

section \<open>Low bits of sums\<close>

lemma int_take_bit_add_min:
  fixes x y :: int
  shows "take_bit (min k n) (x + y) = take_bit (min k n) (take_bit k x + take_bit k y)"
proof -
  have m: "take_bit (min k n) (take_bit k z) = take_bit (min k n) z" for z :: int
    by (simp add: take_bit_take_bit ac_simps)
  have "take_bit (min k n) (take_bit k x + take_bit k y) =
      take_bit (min k n) (take_bit (min k n) (take_bit k x) + take_bit (min k n) (take_bit k y))"
    by (simp only: take_bit_add)
  then show ?thesis by (simp only: m take_bit_add)
qed

lemma word_take_bit_add:
  fixes a b :: "'a::len word"
  shows "take_bit k (a + b) = take_bit k (take_bit k a + take_bit k b)"
proof -
  have u: "uint (x + y) = take_bit LENGTH('a) (uint x + uint y)" for x y :: "'a word"
    by (simp add: uint_word_arith_bintrs(1))
  have "uint (take_bit k (a + b)) = take_bit (min k LENGTH('a)) (uint a + uint b)"
    by (simp only: unsigned_take_bit_eq u take_bit_take_bit)
  also have "\<dots> = take_bit (min k LENGTH('a)) (take_bit k (uint a) + take_bit k (uint b))"
    by (rule int_take_bit_add_min)
  also have "\<dots> = uint (take_bit k (take_bit k a + take_bit k b))"
    by (simp only: unsigned_take_bit_eq u take_bit_take_bit)
  finally show ?thesis by (simp only: word_uint_eq_iff)
qed

section \<open>Lists cut into an initial segment and the rest\<close>

lemma take_drop_split: "i \<le> j \<Longrightarrow> take i (drop p xs) @ take (j - i) (drop (p + i) xs) = take j (drop p xs)"
  by (metis add.commute append_take_drop_id drop_drop le_add_diff_inverse take_add)

lemma foldl_snoc: "foldl f a (xs @ [x]) = f (foldl f a xs) x"
  by simp

end
