(* ===== verification/MappedFile.thy ===== *)
theory MappedFile
  imports Prelude
begin

text \<open>
  The read-only file mappings of \<open>utils/mapped_file.h\<close>. The operating system is a record:
  the files by name, the live mappings by address, the next free address and the number of
  open descriptors. A pointer into a mapping is an address and an offset, so that a read
  through a pointer whose mapping is gone is a failure of the model and not a value.
  Whether \<open>mmap\<close> succeeds for a length is the parameter \<open>can_map\<close>.
\<close>

record os_state =
  os_files :: "string \<rightharpoonup> bytes"
  os_maps :: "nat \<rightharpoonup> bytes"
  os_next :: nat
  os_fds :: nat

type_synonym ptr = "nat \<times> nat"

definition os_at :: "os_state \<Rightarrow> ptr \<Rightarrow> u8 option" where
  "os_at w p = (case os_maps w (fst p) of None \<Rightarrow> None | Some bs \<Rightarrow> fetch bs (snd p))"

definition os_region :: "os_state \<Rightarrow> ptr \<Rightarrow> nat \<Rightarrow> bytes option" where
  "os_region w p n = (case os_maps w (fst p) of None \<Rightarrow> None
     | Some bs \<Rightarrow> (if snd p + n \<le> length bs then Some (take n (drop (snd p) bs)) else None))"

definition ptr_incr :: "ptr \<Rightarrow> ptr" where
  "ptr_incr p = (fst p, Suc (snd p))"

lemma ptr_incr_simps [simp]: "fst (ptr_incr p) = fst p" "snd (ptr_incr p) = Suc (snd p)"
  by (simp_all add: ptr_incr_def)

section \<open>The class\<close>

record mapped_file =
  mf_addr :: "nat option"
  mf_len :: nat
  mf_name :: string

definition mapped_file_default :: mapped_file where
  "mapped_file_default = \<lparr>mf_addr = None, mf_len = 0, mf_name = ''''\<rparr>"

definition os_munmap :: "nat option \<Rightarrow> os_state \<Rightarrow> os_state" where
  "os_munmap a w = (case a of None \<Rightarrow> w | Some x \<Rightarrow> w\<lparr>os_maps := (os_maps w)(x := None)\<rparr>)"

text \<open>The constructor from a file name: \<open>open\<close>, \<open>lseek\<close> for the length, \<open>mmap\<close>, \<open>close\<close>.\<close>

definition mapped_file_open ::
  "(nat \<Rightarrow> bool) \<Rightarrow> string \<Rightarrow> os_state \<Rightarrow> mapped_file \<times> os_state" where
  "mapped_file_open can_map file_name w =
     (case os_files w file_name of
        None \<Rightarrow> (mapped_file_default, w)
      | Some content \<Rightarrow>
          let w1 = w\<lparr>os_fds := Suc (os_fds w)\<rparr>;
              len = length content
          in if \<not> can_map len then (mapped_file_default, w1\<lparr>os_fds := os_fds w1 - 1\<rparr>)
             else (\<lparr>mf_addr = Some (os_next w1), mf_len = len, mf_name = file_name\<rparr>,
                   w1\<lparr>os_maps := (os_maps w1)(os_next w1 \<mapsto> content),
                      os_next := Suc (os_next w1),
                      os_fds := os_fds w1 - 1\<rparr>))"

text \<open>The move constructor, the move assignment and the destructor; the moved-from object is
  part of the result.\<close>

definition mapped_file_move_assign ::
  "mapped_file \<Rightarrow> mapped_file \<Rightarrow> os_state \<Rightarrow> mapped_file \<times> mapped_file \<times> os_state" where
  "mapped_file_move_assign this other w =
     (let w1 = os_munmap (mf_addr this) w;
          this' = this\<lparr>mf_addr := mf_addr other, mf_len := mf_len other, mf_name := mf_name other\<rparr>
      in (this', other\<lparr>mf_addr := None, mf_len := 0, mf_name := ''''\<rparr>, w1))"

definition mapped_file_move_ctor ::
  "mapped_file \<Rightarrow> os_state \<Rightarrow> mapped_file \<times> mapped_file \<times> os_state" where
  "mapped_file_move_ctor other w = mapped_file_move_assign mapped_file_default other w"

definition mapped_file_dtor :: "mapped_file \<Rightarrow> os_state \<Rightarrow> os_state" where
  "mapped_file_dtor this w = os_munmap (mf_addr this) w"

definition map_success :: "mapped_file \<Rightarrow> bool" where
  "map_success f \<longleftrightarrow> mf_len f \<noteq> 0"

text \<open>\<open>this->file = std::move(mapped_file(file_name))\<close>, as both chunkers' \<open>ReinitWithFile\<close> do it:
  a temporary is built, moved from, and destroyed at the end of the statement.\<close>

definition mapped_file_reopen ::
  "(nat \<Rightarrow> bool) \<Rightarrow> mapped_file \<Rightarrow> string \<Rightarrow> os_state \<Rightarrow> mapped_file \<times> os_state" where
  "mapped_file_reopen can_map this file_name w =
     (let (tmp, w1) = mapped_file_open can_map file_name w;
          (this', tmp', w2) = mapped_file_move_assign this tmp w1
      in (this', mapped_file_dtor tmp' w2))"

section \<open>One owner per mapping\<close>

text \<open>
  \<open>owns\<close> says that the object is the only owner of a live mapping: the live mappings are
  exactly its own, and addresses not yet handed out are free.
\<close>

definition owns :: "mapped_file \<Rightarrow> os_state \<Rightarrow> bool" where
  "owns f w \<longleftrightarrow> dom (os_maps w) = set_option (mf_addr f) \<and>
     (\<forall>a. mf_addr f = Some a \<longrightarrow> a < os_next w \<and>
        (\<exists>bs. os_maps w a = Some bs \<and> mf_len f = length bs \<and> os_files w (mf_name f) = Some bs)) \<and>
     (mf_addr f = None \<longrightarrow> mf_len f = 0)"

lemma owns_default: "os_maps w = Map.empty \<Longrightarrow> owns mapped_file_default w"
  by (simp add: owns_def mapped_file_default_def)

lemma reopen_missing:
  assumes "os_files w name = None"
  shows "mapped_file_reopen can_map f name w =
    (\<lparr>mf_addr = None, mf_len = 0, mf_name = ''''\<rparr>, os_munmap (mf_addr f) w)"
  using assms
  by (cases f) (simp add: mapped_file_reopen_def mapped_file_open_def mapped_file_move_assign_def
      mapped_file_dtor_def mapped_file_default_def os_munmap_def)

lemma reopen_unmappable:
  assumes "os_files w name = Some bs" "\<not> can_map (length bs)"
  shows "mapped_file_reopen can_map f name w =
    (\<lparr>mf_addr = None, mf_len = 0, mf_name = ''''\<rparr>, os_munmap (mf_addr f) w)"
  using assms
  by (cases f) (simp add: mapped_file_reopen_def mapped_file_open_def mapped_file_move_assign_def
      mapped_file_dtor_def mapped_file_default_def os_munmap_def Let_def)

lemma reopen_ok:
  assumes "os_files w name = Some bs" "can_map (length bs)" "\<forall>a \<in> set_option (mf_addr f). a < os_next w"
  shows "mapped_file_reopen can_map f name w =
    (\<lparr>mf_addr = Some (os_next w), mf_len = length bs, mf_name = name\<rparr>,
     (os_munmap (mf_addr f) w)\<lparr>os_maps := (os_maps (os_munmap (mf_addr f) w))(os_next w \<mapsto> bs),
        os_next := Suc (os_next w)\<rparr>)"
  using assms
  by (cases f) (auto simp: mapped_file_reopen_def mapped_file_open_def mapped_file_move_assign_def
      mapped_file_dtor_def os_munmap_def Let_def fun_upd_twist split: option.splits)

lemma owns_munmap: "owns f w \<Longrightarrow> os_maps (os_munmap (mf_addr f) w) = Map.empty"
proof (cases "mf_addr f")
  case None
  assume "owns f w"
  with None show ?thesis by (simp add: owns_def os_munmap_def)
next
  case (Some a)
  assume "owns f w"
  with Some have "dom (os_maps w) = {a}" by (simp add: owns_def)
  then have "dom ((os_maps w)(a := None)) = {}" by simp
  then have "(os_maps w)(a := None) = Map.empty" by (simp only: dom_eq_empty_conv)
  with Some show ?thesis by (simp add: os_munmap_def)
qed

lemma os_munmap_frame [simp]:
  "os_files (os_munmap a w) = os_files w" "os_fds (os_munmap a w) = os_fds w"
  "os_next (os_munmap a w) = os_next w"
  by (cases a; simp add: os_munmap_def)+

lemma reopen_owns:
  assumes "owns f w"
  shows "case mapped_file_reopen can_map f name w of (f', w') \<Rightarrow>
    owns f' w' \<and> os_fds w' = os_fds w \<and> os_files w' = os_files w \<and>
    (map_success f' \<longrightarrow> (\<exists>bs a. os_files w name = Some bs \<and> mf_addr f' = Some a \<and>
       os_maps w' a = Some bs \<and> mf_len f' = length bs))"
proof -
  have lt: "\<forall>a \<in> set_option (mf_addr f). a < os_next w"
    using assms by (auto simp: owns_def)
  consider "os_files w name = None"
    | bs where "os_files w name = Some bs" "\<not> can_map (length bs)"
    | bs where "os_files w name = Some bs" "can_map (length bs)"
    by (cases "os_files w name") auto
  then show ?thesis
  proof cases
    case 1
    with owns_munmap [OF assms] show ?thesis
      by (auto simp: reopen_missing owns_def map_success_def)
  next
    case 2
    with owns_munmap [OF assms] show ?thesis
      by (auto simp: reopen_unmappable owns_def map_success_def)
  next
    case 3
    with owns_munmap [OF assms] show ?thesis
      by (auto simp: reopen_ok [OF 3(1), where can_map = can_map, OF 3(2) lt] owns_def map_success_def)
  qed
qed

text \<open>Reopening any number of files and then destroying the object.\<close>

fun reopen_all ::
  "(nat \<Rightarrow> bool) \<Rightarrow> mapped_file \<Rightarrow> string list \<Rightarrow> os_state \<Rightarrow> mapped_file \<times> os_state" where
  "reopen_all can_map f [] w = (f, w)"
| "reopen_all can_map f (n # ns) w =
     (case mapped_file_reopen can_map f n w of (f', w') \<Rightarrow> reopen_all can_map f' ns w')"

lemma reopen_all_owns:
  "owns f w \<Longrightarrow> case reopen_all can_map f ns w of (f', w') \<Rightarrow> owns f' w' \<and> os_fds w' = os_fds w"
proof (induction ns arbitrary: f w)
  case Nil
  then show ?case by simp
next
  case (Cons n ns)
  obtain f' w' where r: "mapped_file_reopen can_map f n w = (f', w')" by fastforce
  with reopen_owns [OF Cons.prems, of n can_map] have "owns f' w'" and "os_fds w' = os_fds w"
    by auto
  with Cons.IH [of f' w'] r show ?case by auto
qed

lemma owns_dtor: "owns f w \<Longrightarrow> os_maps (mapped_file_dtor f w) = Map.empty"
  by (simp add: mapped_file_dtor_def owns_munmap)

text \<open>C10: no mapping and no descriptor of the chunker's file object leaks: whatever files are opened
  one after another (missing, empty or mappable), the object is always the only owner of a live
  mapping, and its destructor leaves no mapping behind.\<close>

theorem mapped_file_no_leak:
  assumes "os_maps w = Map.empty"
    and "reopen_all can_map mapped_file_default names w = (f, w')"
  shows "os_maps (mapped_file_dtor f w') = Map.empty \<and> os_fds w' = os_fds w"
  using reopen_all_owns [OF owns_default [OF assms(1)], where can_map = can_map and ns = names] assms(2) owns_dtor
  by auto

theorem mapped_file_no_leak_witness:
  "let w = \<lparr>os_files = [''a'' \<mapsto> [1, 2], ''b'' \<mapsto> []], os_maps = Map.empty, os_next = 0, os_fds = 0\<rparr>;
       r = reopen_all (\<lambda>n. n \<noteq> 0) mapped_file_default [''a'', ''b'', ''a''] w
   in os_maps (mapped_file_dtor (fst r) (snd r)) = Map.empty \<and> os_fds (snd r) = 0"
proof -
  let ?w = "\<lparr>os_files = [''a'' \<mapsto> [1, 2], ''b'' \<mapsto> []], os_maps = Map.empty, os_next = 0, os_fds = 0\<rparr>"
  obtain f w' where r: "reopen_all (\<lambda>n. n \<noteq> 0) mapped_file_default [''a'', ''b'', ''a''] ?w = (f, w')"
    by fastforce
  show ?thesis using mapped_file_no_leak [OF _ r] r by simp
qed

end
