(* ===== verification/Chunk.thy ===== *)
theory Chunk
  imports MappedFile
begin

text \<open>
  Chunks (\<open>chunk/chunk.h\<close>) and the chunker interface (\<open>chunk/chunker.h\<close>). A chunk carries the bytes
  its buffer holds, its length as the C++ \<open>int\<close> and its id. A chunk that only refers to memory
  (\<open>FromMemoryRef\<close>) carries the bytes it refers to; a reference into an unmapped or too short
  region is a failure, since every caller reads the buffer at once.

  The locale \<open>chunk_source\<close> is what the compression drivers rely on in a chunker: each call
  returns the next non-empty piece of the file under the next id. \<open>complete_source\<close> adds that
  a source stops only at the end of the file.
\<close>

record chunk =
  ck_buf :: bytes
  ck_needs_free :: bool
  ck_len :: int
  ck_id :: u32

definition make_chunk :: "bytes \<Rightarrow> bool \<Rightarrow> nat \<Rightarrow> u32 \<Rightarrow> chunk" where
  "make_chunk buf needs_to_free sz i =
     \<lparr>ck_buf = buf, ck_needs_free = needs_to_free, ck_len = s32_of_nat sz, ck_id = i\<rparr>"

lemma make_chunk_sel [simp]:
  "ck_buf (make_chunk b f n i) = b" "ck_needs_free (make_chunk b f n i) = f"
  "ck_len (make_chunk b f n i) = s32_of_nat n" "ck_id (make_chunk b f n i) = i"
  by (simp_all add: make_chunk_def)

definition from_memory :: "bytes \<Rightarrow> nat \<Rightarrow> u32 \<Rightarrow> chunk option" where
  "from_memory start sz i =
     (if sz \<le> length start then Some (make_chunk (take sz start) True sz i) else None)"

definition deep_copy :: "chunk \<Rightarrow> chunk option" where
  "deep_copy c = from_memory (ck_buf c) (u64_of_int (ck_len c)) (ck_id c)"

definition from_memory_ref :: "os_state \<Rightarrow> ptr option \<Rightarrow> nat \<Rightarrow> u32 \<Rightarrow> chunk option" where
  "from_memory_ref w start sz i =
     (case start of None \<Rightarrow> None
      | Some p \<Rightarrow> map_option (\<lambda>bs. make_chunk bs False sz i) (os_region w p sz))"

text \<open>A chunk whose length field is the number of its bytes.\<close>

definition ck_wf :: "chunk \<Rightarrow> bool" where
  "ck_wf c \<longleftrightarrow> ck_len c = int (length (ck_buf c)) \<and> length (ck_buf c) < 2 ^ 31"

text \<open>The bytes a chunk's buffer and length field give to a reader: a read past the buffer fails.\<close>

definition chunk_data :: "chunk \<Rightarrow> bytes option" where
  "chunk_data c =
     (let n = u64_of_int (ck_len c) in if n \<le> length (ck_buf c) then Some (take n (ck_buf c)) else None)"

lemma chunk_data_wf [simp]: "ck_wf c \<Longrightarrow> chunk_data c = Some (ck_buf c)"
  by (auto simp: chunk_data_def ck_wf_def)

lemma deep_copy_same:
  assumes "ck_wf c"
  shows "deep_copy c = Some (c\<lparr>ck_needs_free := True\<rparr>)"
  using assms by (cases c) (auto simp: deep_copy_def from_memory_def ck_wf_def make_chunk_def)

section \<open>The chunker interface\<close>

text \<open>\<open>get_next_chunk_id\<close> returns the counter and increments it (\<open>uint32_t\<close>, so it wraps).\<close>

definition get_next_chunk_id :: "u32 \<Rightarrow> u32 \<times> u32" where
  "get_next_chunk_id next_chunk_id = (next_chunk_id, next_chunk_id + 1)"

text \<open>The loop of the drivers: take chunks until the chunker returns a null pointer. \<open>None\<close> is a
  memory failure or exhausted fuel.\<close>

fun drain :: "('s \<Rightarrow> (chunk option \<times> 's) option) \<Rightarrow> nat \<Rightarrow> 's \<Rightarrow> (chunk list \<times> 's) option" where
  "drain nxt 0 s = None"
| "drain nxt (Suc fuel) s =
     (case nxt s of
        None \<Rightarrow> None
      | Some (None, s') \<Rightarrow> Some ([], s')
      | Some (Some c, s') \<Rightarrow>
          (case drain nxt fuel s' of None \<Rightarrow> None | Some (cs, s'') \<Rightarrow> Some (c # cs, s'')))"

text \<open>Ids handed out one after another from \<open>i\<close> on.\<close>

definition ids_from :: "u32 \<Rightarrow> nat \<Rightarrow> u32 list" where
  "ids_from i n = map (\<lambda>k. i + of_nat k) [0..<n]"

lemma ids_from_0 [simp]: "ids_from i 0 = []"
  by (simp add: ids_from_def)

lemma ids_from_Suc: "ids_from i (Suc n) = i # ids_from (i + 1) n"
  by (rule nth_equalityI) (auto simp: ids_from_def nth_Cons' simp del: upt_Suc)

lemma length_ids_from [simp]: "length (ids_from i n) = n"
  by (simp add: ids_from_def)

locale chunk_source =
  fixes nxt :: "'s \<Rightarrow> (chunk option \<times> 's) option"
    and rest :: "'s \<Rightarrow> bytes"
    and cid :: "'s \<Rightarrow> u32"
    and inv :: "'s \<Rightarrow> bool"
  assumes no_fault: "inv s \<Longrightarrow> nxt s \<noteq> None"
    and inv_next: "inv s \<Longrightarrow> nxt s = Some (Some c, s') \<Longrightarrow> inv s'"
    and next_piece: "inv s \<Longrightarrow> nxt s = Some (Some c, s') \<Longrightarrow>
      rest s = ck_buf c @ rest s' \<and> ck_buf c \<noteq> []"
    and next_wf: "inv s \<Longrightarrow> nxt s = Some (Some c, s') \<Longrightarrow> ck_wf c"
    and next_id: "inv s \<Longrightarrow> nxt s = Some (Some c, s') \<Longrightarrow> ck_id c = cid s \<and> cid s' = cid s + 1"
begin

lemma drain_pieces:
  assumes "inv s" "length (rest s) < fuel"
  shows "\<exists>cs s' s1. drain nxt fuel s = Some (cs, s') \<and> inv s1 \<and> nxt s1 = Some (None, s')
    \<and> concat (map ck_buf cs) @ rest s1 = rest s \<and> map ck_id cs = ids_from (cid s) (length cs)
    \<and> (\<forall>c \<in> set cs. ck_wf c \<and> ck_buf c \<noteq> [])"
  using assms
proof (induction fuel arbitrary: s)
  case 0
  then show ?case by simp
next
  case (Suc fuel)
  from no_fault [OF Suc.prems(1)] obtain x s1 where nx: "nxt s = Some (x, s1)" by auto
  show ?case
  proof (cases x)
    case None
    with nx Suc.prems(1) show ?thesis by (intro exI [of _ "[]"] exI [of _ s1] exI [of _ s]) simp
  next
    case (Some c)
    have i1: "inv s1" using inv_next [OF Suc.prems(1) nx [unfolded Some]] .
    note pc = next_piece [OF Suc.prems(1) nx [unfolded Some]]
      next_wf [OF Suc.prems(1) nx [unfolded Some]] next_id [OF Suc.prems(1) nx [unfolded Some]]
    then have "length (rest s1) < fuel" using Suc.prems(2) by (cases "ck_buf c") auto
    from Suc.IH [OF i1 this] obtain cs s' s2 where d: "drain nxt fuel s1 = Some (cs, s')"
      and r: "inv s2" "nxt s2 = Some (None, s')" "concat (map ck_buf cs) @ rest s2 = rest s1"
        "map ck_id cs = ids_from (cid s1) (length cs)" "\<forall>c \<in> set cs. ck_wf c \<and> ck_buf c \<noteq> []"
      by blast
    have "drain nxt (Suc fuel) s = Some (c # cs, s')" using nx Some d by simp
    moreover have "concat (map ck_buf (c # cs)) @ rest s2 = rest s" using pc r by simp
    moreover have "map ck_id (c # cs) = ids_from (cid s) (length (c # cs))"
      using pc r by (simp add: ids_from_Suc)
    ultimately show ?thesis using r pc by (intro exI [of _ "c # cs"] exI [of _ s'] exI [of _ s2]) simp
  qed
qed

end

locale complete_source = chunk_source +
  assumes at_end: "inv s \<Longrightarrow> nxt s = Some (None, s') \<Longrightarrow> rest s = [] \<and> s' = s"
begin

lemma drain_all:
  assumes "inv s" "length (rest s) < fuel"
  shows "\<exists>cs s'. drain nxt fuel s = Some (cs, s') \<and> inv s' \<and> rest s' = []
    \<and> concat (map ck_buf cs) = rest s \<and> map ck_id cs = ids_from (cid s) (length cs)
    \<and> (\<forall>c \<in> set cs. ck_wf c \<and> ck_buf c \<noteq> [])"
proof -
  from drain_pieces [OF assms] obtain cs s' s1 where d: "drain nxt fuel s = Some (cs, s')"
    and "inv s1" "nxt s1 = Some (None, s')" "concat (map ck_buf cs) @ rest s1 = rest s"
    and "map ck_id cs = ids_from (cid s) (length cs)" "\<forall>c \<in> set cs. ck_wf c \<and> ck_buf c \<noteq> []"
    by blast
  with at_end [of s1 s'] show ?thesis
    by (intro exI [of _ cs] exI [of _ s']) simp
qed

end

end
