(* ===== verification/FastCDC.thy ===== *)
theory FastCDC
  imports Gear Chunk
begin

text \<open>
  The FastCDC chunker (\<open>chunk/fast_cdc.h\<close>, \<open>chunk/fast_cdc.cpp\<close>). The two loops of
  \<open>GetNextChunk\<close> are \<open>fc_warm\<close> (the first \<open>min_chunk_size\<close> bytes, which never end a chunk) and
  \<open>fc_scan\<close> (bytes up to the maximum, ending at the first fingerprint whose masked bits are zero).
  \<open>chunk_size\<close> is the C++ \<open>int\<close> of the source; the sizes of the configuration and of the file keep
  its increments in range (\<open>fc_inv\<close>). \<open>fast_cut\<close> is the specification of the cut on a byte list, and
  the interpretation \<open>fc\<close> shows that the class is a complete source of chunks.
\<close>

record fast_cdc =
  fc_min :: int
  fc_max :: int
  fc_mask :: u64
  fc_file :: mapped_file
  fc_ptr :: "ptr option"
  fc_remaining :: nat
  fc_next_id :: u32

definition fast_cdc_new :: "int \<Rightarrow> int \<Rightarrow> u64 \<Rightarrow> fast_cdc" where
  "fast_cdc_new min_ck_sz max_ck_sz stop_mask =
     \<lparr>fc_min = min_ck_sz, fc_max = max_ck_sz, fc_mask = stop_mask, fc_file = mapped_file_default,
      fc_ptr = None, fc_remaining = 0, fc_next_id = 0\<rparr>"

definition fast_cdc_reinit ::
  "(nat \<Rightarrow> bool) \<Rightarrow> string \<Rightarrow> fast_cdc \<Rightarrow> os_state \<Rightarrow> bool \<times> fast_cdc \<times> os_state" where
  "fast_cdc_reinit can_map file_name s w =
     (case mapped_file_reopen can_map (fc_file s) file_name w of (file', w') \<Rightarrow>
        if \<not> map_success file' then (False, s\<lparr>fc_file := file'\<rparr>, w')
        else (True, s\<lparr>fc_file := file', fc_ptr := map_option (\<lambda>a. (a, 0)) (mf_addr file'),
                fc_remaining := mf_len file'\<rparr>, w'))"

section \<open>The two loops\<close>

function fc_warm :: "os_state \<Rightarrow> int \<Rightarrow> int \<Rightarrow> ptr \<Rightarrow> u64 \<Rightarrow> (int \<times> ptr \<times> u64) option" where
  "fc_warm w min_sz chunk_size p fp =
     (if chunk_size \<le> min_sz
      then (case os_at w p of
              None \<Rightarrow> None
            | Some byte \<Rightarrow> fc_warm w min_sz (chunk_size + 1) (ptr_incr p) (gear_step fp byte))
      else Some (chunk_size, p, fp))"
  by pat_completeness auto
termination
  by (relation "measure (\<lambda>(w, m, c, p, fp). nat (m + 1 - c))") auto

declare fc_warm.simps [simp del]

text \<open>\<open>lmt\<close> is \<open>min((uint64_t) remaining_file_len, (uint64_t) max_chunk_size)\<close>; the result says
  whether the loop returned from its body.\<close>

function fc_scan ::
  "os_state \<Rightarrow> nat \<Rightarrow> u64 \<Rightarrow> int \<Rightarrow> ptr \<Rightarrow> u64 \<Rightarrow> (bool \<times> int \<times> ptr) option" where
  "fc_scan w lmt msk chunk_size p fp =
     (if nat chunk_size \<le> lmt
      then (case os_at w p of
              None \<Rightarrow> None
            | Some byte \<Rightarrow>
                let fp' = gear_step fp byte
                in if fp' AND msk = 0 then Some (True, chunk_size, ptr_incr p)
                   else fc_scan w lmt msk (chunk_size + 1) (ptr_incr p) fp')
      else Some (False, chunk_size, p))"
  by pat_completeness auto
termination
  by (relation "measure (\<lambda>(w, l, m, c, p, fp). nat (int l + 1 - c))") auto

declare fc_scan.simps [simp del]

definition fast_cdc_next :: "os_state \<Rightarrow> fast_cdc \<Rightarrow> (chunk option \<times> fast_cdc) option" where
  "fast_cdc_next w s =
     (if fc_remaining s = 0 then Some (None, s)
      else if fc_remaining s \<le> u64_of_int (fc_min s) then
        (let chunk_size = fc_remaining s;
             (i, next') = get_next_chunk_id (fc_next_id s)
         in do {
           c \<leftarrow> from_memory_ref w (fc_ptr s) chunk_size i;
           Some (Some c, s\<lparr>fc_remaining := 0, fc_next_id := next'\<rparr>)
         })
      else do {
        read_start \<leftarrow> fc_ptr s;
        (chunk_size, p, fp) \<leftarrow> fc_warm w (fc_min s) 1 read_start 0;
        (found, chunk_size', p') \<leftarrow>
          fc_scan w (min (fc_remaining s) (u64_of_int (fc_max s))) (fc_mask s) chunk_size p fp;
        let sz = (if found then chunk_size' else chunk_size' - 1);
        let (i, next') = get_next_chunk_id (fc_next_id s);
        c \<leftarrow> from_memory_ref w (Some read_start) (u64_of_int sz) i;
        Some (Some c, s\<lparr>fc_ptr := Some p',
          fc_remaining := nat ((int (fc_remaining s) - sz) mod 2 ^ 64), fc_next_id := next'\<rparr>)
      })"

section \<open>The cut, on byte lists\<close>

text \<open>\<open>gear_cut\<close> is the position after the first byte whose fingerprint has no masked bit.\<close>

fun gear_cut :: "u64 \<Rightarrow> u64 \<Rightarrow> bytes \<Rightarrow> nat option" where
  "gear_cut msk fp [] = None"
| "gear_cut msk fp (b # bs) =
     (if gear_step fp b AND msk = 0 then Some 1 else map_option Suc (gear_cut msk (gear_step fp b) bs))"

lemma gear_cut_Some:
  "gear_cut msk fp bs = Some k \<longleftrightarrow> 1 \<le> k \<and> k \<le> length bs \<and> gear_hash fp (take k bs) AND msk = 0 \<and>
     (\<forall>j. 1 \<le> j \<and> j < k \<longrightarrow> gear_hash fp (take j bs) AND msk \<noteq> 0)"
proof (induction bs arbitrary: fp k)
  case Nil
  then show ?case by simp
next
  case (Cons b bs)
  show ?case
  proof (cases "gear_step fp b AND msk = 0")
    case True
    have "1 = k" if "1 \<le> k" "\<forall>j. 1 \<le> j \<and> j < k \<longrightarrow> gear_hash fp (take j (b # bs)) AND msk \<noteq> 0"
      using that(1) that(2)[rule_format, of 1] True by (cases "k = 1") auto
    with True show ?thesis by auto
  next
    case False
    have all: "(\<forall>j. 1 \<le> j \<and> j < Suc n \<longrightarrow> gear_hash fp (take j (b # bs)) AND msk \<noteq> 0) \<longleftrightarrow>
        (\<forall>j. 1 \<le> j \<and> j < n \<longrightarrow> gear_hash (gear_step fp b) (take j bs) AND msk \<noteq> 0)"
      if "1 \<le> n" for n
    proof (intro iffI allI impI)
      fix j assume h: "\<forall>j. 1 \<le> j \<and> j < Suc n \<longrightarrow> gear_hash fp (take j (b # bs)) AND msk \<noteq> 0"
        and j: "1 \<le> j \<and> j < n"
      from h[rule_format, of "Suc j"] j show "gear_hash (gear_step fp b) (take j bs) AND msk \<noteq> 0"
        by simp
    next
      fix j assume h: "\<forall>j. 1 \<le> j \<and> j < n \<longrightarrow> gear_hash (gear_step fp b) (take j bs) AND msk \<noteq> 0"
        and j: "1 \<le> j \<and> j < Suc n"
      then obtain i where i: "j = Suc i" "i < n" by (cases j) auto
      with h[rule_format, of i] False show "gear_hash fp (take j (b # bs)) AND msk \<noteq> 0"
        by (cases i) auto
    qed
    show ?thesis
    proof (cases k)
      case 0
      with False show ?thesis by (auto simp: Cons.IH)
    next
      case (Suc n)
      show ?thesis
      proof (cases "1 \<le> n")
        case True
        with False Suc all [OF True] show ?thesis by (simp add: Cons.IH)
      next
        case n0: False
        then have "n = 0" by simp
        with False Suc Cons.IH [of "gear_step fp b" 0] show ?thesis by auto
      qed
    qed
  qed
qed

lemma gear_cut_None:
  "gear_cut msk fp bs = None \<longleftrightarrow>
     (\<forall>j. 1 \<le> j \<and> j \<le> length bs \<longrightarrow> gear_hash fp (take j bs) AND msk \<noteq> 0)"
proof (induction bs arbitrary: fp)
  case Nil
  then show ?case by auto
next
  case (Cons b bs)
  have "(\<forall>j. 1 \<le> j \<and> j \<le> length (b # bs) \<longrightarrow> gear_hash fp (take j (b # bs)) AND msk \<noteq> 0) \<longleftrightarrow>
      gear_step fp b AND msk \<noteq> 0 \<and>
      (\<forall>j. 1 \<le> j \<and> j \<le> length bs \<longrightarrow> gear_hash (gear_step fp b) (take j bs) AND msk \<noteq> 0)"
    (is "?l \<longleftrightarrow> ?r")
  proof
    assume l: ?l
    show ?r
    proof (intro conjI allI impI)
      show "gear_step fp b AND msk \<noteq> 0" using l[rule_format, of 1] by simp
    next
      fix j assume "1 \<le> j \<and> j \<le> length bs"
      then show "gear_hash (gear_step fp b) (take j bs) AND msk \<noteq> 0"
        using l[rule_format, of "Suc j"] by simp
    qed
  next
    assume r: ?r
    show ?l
    proof (intro allI impI)
      fix j assume j: "1 \<le> j \<and> j \<le> length (b # bs)"
      then obtain n where n: "j = Suc n" by (cases j) auto
      with j r show "gear_hash fp (take j (b # bs)) AND msk \<noteq> 0" by (cases n) auto
    qed
  qed
  with Cons.IH show ?case by simp
qed

definition fast_cut :: "nat \<Rightarrow> nat \<Rightarrow> u64 \<Rightarrow> bytes \<Rightarrow> nat" where
  "fast_cut mn mx msk r =
     (if length r \<le> mn then length r
      else let lmt = min (length r) mx
           in if lmt \<le> mn then mn
              else (case gear_cut msk (gear_hash 0 (take mn r)) (take (lmt - mn) (drop mn r)) of
                      Some k \<Rightarrow> mn + k
                    | None \<Rightarrow> lmt))"

lemma fast_cut_le: "fast_cut mn mx msk r \<le> length r"
  using gear_cut_Some [of msk "gear_hash 0 (take mn r)" "take (min (length r) mx - mn) (drop mn r)"]
  by (auto simp: fast_cut_def Let_def split: option.splits)

lemma fast_cut_le_max: "fast_cut mn mx msk r \<le> max mn mx"
  using gear_cut_Some [of msk "gear_hash 0 (take mn r)" "take (min (length r) mx - mn) (drop mn r)"]
  by (auto simp: fast_cut_def Let_def split: option.splits)

lemma fast_cut_ge_min: "mn < length r \<Longrightarrow> mn \<le> fast_cut mn mx msk r"
  by (auto simp: fast_cut_def Let_def split: option.splits)

lemma fast_cut_pos: "r \<noteq> [] \<Longrightarrow> 0 < max mn mx \<Longrightarrow> 0 < fast_cut mn mx msk r"
  using gear_cut_Some [of msk "gear_hash 0 (take mn r)" "take (min (length r) mx - mn) (drop mn r)"]
  by (cases r) (auto simp: fast_cut_def Let_def split: option.splits)

lemma fast_cut_fixed: "mx \<le> mn \<Longrightarrow> fast_cut mn mx msk r = min (length r) mn"
  by (auto simp: fast_cut_def Let_def)

lemma fast_cut_first:
  assumes "mn < length r" and n_def: "n = fast_cut mn mx msk r"
  shows "mn \<le> n \<and> n \<le> max mn (min (length r) mx) \<and> (mn < min (length r) mx \<longrightarrow> mn < n) \<and>
    (\<forall>j. mn < j \<and> j < n \<longrightarrow> gear_hash 0 (take j r) AND msk \<noteq> 0) \<and>
    (n < max mn (min (length r) mx) \<longrightarrow> gear_hash 0 (take n r) AND msk = 0)"
proof (cases "min (length r) mx \<le> mn")
  case True
  then have "n = mn" using assms(1) by (simp add: n_def fast_cut_def Let_def)
  with True show ?thesis by auto
next
  case False
  let ?l = "min (length r) mx"
  let ?bs = "take (?l - mn) (drop mn r)"
  have hash: "gear_hash (gear_hash 0 (take mn r)) (take i ?bs) = gear_hash 0 (take (mn + i) r)"
    if "i \<le> ?l - mn" for i
    using that by (simp add: take_add)
  have len: "length ?bs = ?l - mn" by auto
  show ?thesis
  proof (cases "gear_cut msk (gear_hash 0 (take mn r)) ?bs")
    case None
    then have n: "n = ?l" using assms(1) False by (simp add: n_def fast_cut_def Let_def)
    have "gear_hash 0 (take j r) AND msk \<noteq> 0" if "mn < j" "j < n" for j
    proof -
      from that n have r: "1 \<le> j - mn" "j - mn \<le> ?l - mn" by auto
      have "gear_hash (gear_hash 0 (take mn r)) (take (j - mn) ?bs) AND msk \<noteq> 0"
        using None [unfolded gear_cut_None len] r by blast
      with hash [OF r(2)] that show ?thesis by simp
    qed
    with n False show ?thesis by auto
  next
    case (Some k)
    then have n: "n = mn + k" using assms(1) False by (simp add: n_def fast_cut_def Let_def)
    from Some have k: "1 \<le> k" "k \<le> ?l - mn" "gear_hash 0 (take (mn + k) r) AND msk = 0"
      using hash [of k] by (auto simp: gear_cut_Some len)
    have "gear_hash 0 (take j r) AND msk \<noteq> 0" if "mn < j" "j < n" for j
    proof -
      from that n have "1 \<le> j - mn" "j - mn < k" by auto
      with Some have "gear_hash (gear_hash 0 (take mn r)) (take (j - mn) ?bs) AND msk \<noteq> 0"
        by (auto simp: gear_cut_Some)
      with hash [of "j - mn"] that n k show ?thesis by simp
    qed
    with n k False show ?thesis by auto
  qed
qed

lemma fast_cut_least:
  fixes mn mx :: nat and msk :: u64
  assumes "mn < length r"
  defines "stop \<equiv> \<lambda>k. mn < k \<and> k \<le> min (length r) mx \<and> gear_hash 0 (take k r) AND msk = 0"
  shows "fast_cut mn mx msk r = (if \<exists>k. stop k then LEAST k. stop k else max mn (min (length r) mx))"
proof -
  define n where "n = fast_cut mn mx msk r"
  from fast_cut_first [OF assms(1) n_def] have n: "mn \<le> n" "n \<le> max mn (min (length r) mx)"
    "mn < min (length r) mx \<longrightarrow> mn < n" "\<And>j. mn < j \<and> j < n \<Longrightarrow> gear_hash 0 (take j r) AND msk \<noteq> 0"
    "n < max mn (min (length r) mx) \<longrightarrow> gear_hash 0 (take n r) AND msk = 0" by auto
  show ?thesis
  proof (cases "\<exists>k. stop k")
    case True
    define k0 where "k0 = (LEAST k. stop k)"
    have k0: "stop k0" unfolding k0_def using True by (rule LeastI_ex)
    then have b: "mn < k0" "k0 \<le> min (length r) mx" "gear_hash 0 (take k0 r) AND msk = 0" unfolding stop_def by blast+
    have "\<not> n < k0"
    proof
      assume lt: "n < k0"
      have "mn < n" using n(3) b(1,2) by simp
      moreover have "gear_hash 0 (take n r) AND msk = 0" using n(5) lt b(1,2) by simp
      ultimately have "stop n" using lt b(2) by (simp add: stop_def)
      then show False using lt not_less_Least unfolding k0_def by blast
    qed
    moreover have "\<not> k0 < n" using b n(4) by blast
    ultimately show ?thesis using True by (simp add: n_def [symmetric] k0_def [symmetric])
  next
    case False
    have "\<not> n < max mn (min (length r) mx)"
    proof
      assume lt: "n < max mn (min (length r) mx)"
      then have "mn < min (length r) mx" using n(1) by (simp only: max_def split: if_splits)
      then have "stop n" using lt n(3,5) by (simp add: stop_def)
      with False show False by blast
    qed
    with False n(2) show ?thesis by (simp add: n_def [symmetric])
  qed
qed

section \<open>The loops compute the cut\<close>

lemma take_Suc_drop: "k < length xs \<Longrightarrow> take (Suc n) (drop k xs) = xs ! k # take n (drop (Suc k) xs)"
  by (simp flip: Cons_nth_drop_Suc)

lemma os_at_map: "os_maps w a = Some bs \<Longrightarrow> os_at w (a, k) = fetch bs k"
  by (simp add: os_at_def)

lemma fc_warm_eq:
  assumes "os_maps w a = Some bs" "k + nat (mn + 1 - cs) \<le> length bs"
  shows "fc_warm w mn cs (a, k) fp =
    Some (max cs (mn + 1), (a, k + nat (mn + 1 - cs)), gear_hash fp (take (nat (mn + 1 - cs)) (drop k bs)))"
  using assms
proof (induction "nat (mn + 1 - cs)" arbitrary: cs k fp)
  case 0
  then show ?case by (subst fc_warm.simps) (simp add: max_def)
next
  case (Suc n)
  then have c: "cs \<le> mn" "n = nat (mn + 1 - (cs + 1))" and k: "k < length bs" by linarith+
  have "fc_warm w mn cs (a, k) fp = fc_warm w mn (cs + 1) (a, Suc k) (gear_step fp (bs ! k))"
    using c k Suc.prems by (subst fc_warm.simps) (simp add: os_at_map ptr_incr_def)
  also have "\<dots> = Some (max (cs + 1) (mn + 1), (a, Suc k + n),
      gear_hash (gear_step fp (bs ! k)) (take n (drop (Suc k) bs)))"
    using Suc.hyps(1) [OF c(2), of "Suc k" "gear_step fp (bs ! k)"] Suc.prems Suc.hyps(2) c(2)
    by simp
  also have "\<dots> = Some (max cs (mn + 1), (a, k + Suc n), gear_hash fp (take (Suc n) (drop k bs)))"
    using c k by (simp add: take_Suc_drop max_def)
  finally show ?case using Suc.hyps(2) by simp
qed

lemma fc_scan_eq:
  assumes "os_maps w a = Some bs" "k + (Suc l - nat cs) \<le> length bs" "1 \<le> cs"
  shows "fc_scan w l msk cs (a, k) fp =
    (case gear_cut msk fp (take (Suc l - nat cs) (drop k bs)) of
       Some j \<Rightarrow> Some (True, cs + int j - 1, (a, k + j))
     | None \<Rightarrow> Some (False, max cs (int l + 1), (a, k + (Suc l - nat cs))))"
  using assms
proof (induction "Suc l - nat cs" arbitrary: cs k fp)
  case 0
  then have "\<not> nat cs \<le> l" "max cs (int l + 1) = cs" by (auto simp: max_def)
  with 0 show ?case by (subst fc_scan.simps) simp
next
  case (Suc n)
  then have c: "nat cs \<le> l" "n = Suc l - nat (cs + 1)" and k: "k < length bs" by linarith+
  have st: "fc_scan w l msk cs (a, k) fp =
      (if gear_step fp (bs ! k) AND msk = 0 then Some (True, cs, (a, Suc k))
       else fc_scan w l msk (cs + 1) (a, Suc k) (gear_step fp (bs ! k)))"
    using c k Suc.prems by (subst fc_scan.simps) (simp add: os_at_map ptr_incr_def Let_def)
  have tk: "take (Suc l - nat cs) (drop k bs) = bs ! k # take n (drop (Suc k) bs)"
    using k Suc.hyps(2) by (metis take_Suc_drop)
  have m: "max (cs + 1) (int l + 1) = max cs (int l + 1)" using c Suc.prems(3) by simp
  show ?case
  proof (cases "gear_step fp (bs ! k) AND msk = 0")
    case True
    with st tk show ?thesis by simp
  next
    case False
    have len: "Suc k + (Suc l - nat (cs + 1)) \<le> length bs"
      using Suc.prems(2) Suc.hyps(2) c by linarith
    have "fc_scan w l msk (cs + 1) (a, Suc k) (gear_step fp (bs ! k)) =
        (case gear_cut msk (gear_step fp (bs ! k)) (take n (drop (Suc k) bs)) of
           Some j \<Rightarrow> Some (True, (cs + 1) + int j - 1, (a, Suc k + j))
         | None \<Rightarrow> Some (False, max (cs + 1) (int l + 1), (a, Suc k + n)))"
      using Suc.hyps(1) [OF c(2) Suc.prems(1) len] Suc.prems(3) by (simp only: c(2))
    with False st tk m Suc.hyps(2) show ?thesis
      by (simp split: option.splits)
  qed
qed

section \<open>The class as a source of chunks\<close>

definition fc_rest :: "os_state \<Rightarrow> fast_cdc \<Rightarrow> bytes" where
  "fc_rest w s = (if fc_remaining s = 0 then []
     else (case fc_ptr s of None \<Rightarrow> []
       | Some p \<Rightarrow> (case os_maps w (fst p) of None \<Rightarrow> [] | Some bs \<Rightarrow> drop (snd p) bs)))"

definition fc_config_ok :: "fast_cdc \<Rightarrow> bool" where
  "fc_config_ok s \<longleftrightarrow> 0 \<le> fc_min s \<and> fc_min s < 2 ^ 31 - 1 \<and> 0 \<le> fc_max s \<and> fc_max s < 2 ^ 31 - 1 \<and>
     0 < max (fc_min s) (fc_max s)"

definition fc_inv :: "os_state \<Rightarrow> fast_cdc \<Rightarrow> bool" where
  "fc_inv w s \<longleftrightarrow> fc_config_ok s \<and>
     (fc_remaining s = 0 \<or>
      (\<exists>a k bs. fc_ptr s = Some (a, k) \<and> os_maps w a = Some bs \<and> k + fc_remaining s = length bs \<and>
         length bs < 2 ^ 63))"

lemma fc_length_rest: "fc_inv w s \<Longrightarrow> length (fc_rest w s) = fc_remaining s"
  by (auto simp: fc_inv_def fc_rest_def)

lemma fc_next_empty: "fc_inv w s \<Longrightarrow> fc_rest w s = [] \<Longrightarrow> fast_cdc_next w s = Some (None, s)"
  using fc_length_rest [of w s] by (simp add: fast_cdc_next_def)

lemma fc_next_loops:
  assumes "fc_remaining s \<noteq> 0" "\<not> fc_remaining s \<le> u64_of_int (fc_min s)" "fc_ptr s = Some p"
    and "fc_warm w (fc_min s) 1 p 0 = Some (cs, p1, fp)"
    and "fc_scan w (min (fc_remaining s) (u64_of_int (fc_max s))) (fc_mask s) cs p1 fp = Some (found, cs', p')"
    and "(if found then cs' else cs' - 1) = int n" "n \<le> fc_remaining s" "fc_remaining s < 2 ^ 64"
    and "from_memory_ref w (Some p) n (fc_next_id s) = Some c"
  shows "fast_cdc_next w s = Some (Some c, s\<lparr>fc_ptr := Some p', fc_remaining := fc_remaining s - n,
    fc_next_id := fc_next_id s + 1\<rparr>)"
proof -
  have "nat ((int (fc_remaining s) - int n) mod 2 ^ 64) = fc_remaining s - n"
    using assms(7,8) by (simp flip: of_nat_diff)
  moreover have "u64_of_int (int n) = n" using assms(7,8) by (simp add: u64_of_int_def)
  ultimately show ?thesis
    using assms by (simp add: fast_cdc_next_def get_next_chunk_id_def Let_def)
qed

lemma fc_next_chunk:
  assumes inv: "fc_inv w s" and ne: "fc_rest w s \<noteq> []"
  defines "n \<equiv> fast_cut (nat (fc_min s)) (nat (fc_max s)) (fc_mask s) (fc_rest w s)"
  shows "\<exists>p'. fast_cdc_next w s = Some (Some (make_chunk (take n (fc_rest w s)) False n (fc_next_id s)),
      s\<lparr>fc_ptr := Some p', fc_remaining := fc_remaining s - n, fc_next_id := fc_next_id s + 1\<rparr>) \<and>
    (n < fc_remaining s \<longrightarrow> (\<exists>a k bs. fc_ptr s = Some (a, k) \<and> os_maps w a = Some bs \<and>
       p' = (a, k + n) \<and> k + fc_remaining s = length bs))"
proof -
  let ?mn = "nat (fc_min s)" and ?mx = "nat (fc_max s)" and ?rem = "fc_remaining s"
  have lenr: "length (fc_rest w s) = ?rem"
    by (rule fc_length_rest [OF inv])
  with ne have rem: "?rem \<noteq> 0" by (metis length_0_conv)
  from inv rem obtain a k bs where p: "fc_ptr s = Some (a, k)" and m: "os_maps w a = Some bs"
    and len: "k + ?rem = length bs" "length bs < 2 ^ 63"
    by (auto simp: fc_inv_def)
  have r: "fc_rest w s = drop k bs" using p m rem by (simp add: fc_rest_def)
  have cfg: "0 \<le> fc_min s" "fc_min s < 2 ^ 31 - 1" "0 \<le> fc_max s" "fc_max s < 2 ^ 31 - 1"
      "0 < max (fc_min s) (fc_max s)"
    using inv by (auto simp: fc_inv_def fc_config_ok_def)
  then have u: "u64_of_int (fc_min s) = ?mn" "u64_of_int (fc_max s) = ?mx" by auto
  show ?thesis
  proof (cases "?rem \<le> ?mn")
    case True
    then have n: "n = ?rem" using lenr by (simp add: n_def fast_cut_def)
    have "fast_cdc_next w s = Some (Some (make_chunk (drop k bs) False ?rem (fc_next_id s)),
        s\<lparr>fc_remaining := 0, fc_next_id := fc_next_id s + 1\<rparr>)"
      using True rem p m len by (simp add: fast_cdc_next_def u get_next_chunk_id_def
          from_memory_ref_def os_region_def)
    moreover have "s\<lparr>fc_remaining := 0, fc_next_id := fc_next_id s + 1\<rparr> =
        s\<lparr>fc_ptr := Some (a, k), fc_remaining := 0, fc_next_id := fc_next_id s + 1\<rparr>"
      using p by (cases s) simp
    ultimately show ?thesis
      using n lenr r by (intro exI [of _ "(a, k)"]) simp
  next
    case False
    let ?l = "min ?rem ?mx"
    let ?fp = "gear_hash 0 (take ?mn (drop k bs))"
    let ?cut = "gear_cut (fc_mask s) ?fp (take (?l - ?mn) (drop (k + ?mn) bs))"
    have warm: "fc_warm w (fc_min s) 1 (a, k) 0 = Some (fc_min s + 1, (a, k + ?mn), ?fp)"
      using fc_warm_eq [OF m, of k "fc_min s" 1 0] False len cfg by simp
    have scan: "fc_scan w ?l (fc_mask s) (fc_min s + 1) (a, k + ?mn) ?fp =
        (case ?cut of Some j \<Rightarrow> Some (True, fc_min s + 1 + int j - 1, (a, k + ?mn + j))
         | None \<Rightarrow> Some (False, max (fc_min s + 1) (int ?l + 1), (a, k + ?mn + (?l - ?mn))))"
    proof -
      have e: "Suc ?l - nat (fc_min s + 1) = ?l - ?mn" using cfg by linarith
      have "k + ?mn + (Suc ?l - nat (fc_min s + 1)) \<le> length bs" using e False len by linarith
      from fc_scan_eq [OF m this] cfg show ?thesis by (simp only: e)
    qed
    have nle: "n \<le> ?rem" using fast_cut_le lenr unfolding n_def by metis
    have nmx: "n \<le> max ?mn ?mx" unfolding n_def by (rule fast_cut_le_max)
    have n_cut: "n = (case ?cut of Some j \<Rightarrow> ?mn + j | None \<Rightarrow> max ?mn ?l)"
      using False lenr r by (auto simp: n_def fast_cut_def Let_def add.commute max_def split: option.splits)
    have ref: "from_memory_ref w (Some (a, k)) n (fc_next_id s) =
        Some (make_chunk (take n (drop k bs)) False n (fc_next_id s))"
      using m nle len by (simp add: from_memory_ref_def os_region_def)
    have sc: "fc_scan w (min ?rem (u64_of_int (fc_max s))) (fc_mask s) (fc_min s + 1) (a, k + ?mn) ?fp =
        Some (?cut \<noteq> None, if ?cut \<noteq> None then int n else int n + 1, (a, k + n))"
    proof (cases ?cut)
      case None
      then have nn: "n = max ?mn ?l" using n_cut by simp
      have "max (fc_min s + 1) (int ?l + 1) = int n + 1" "?mn + (?l - ?mn) = n"
        unfolding nn using cfg by linarith+
      then show ?thesis using None scan u by (simp only: add.assoc) simp
    next
      case (Some j)
      then have "fc_min s + 1 + int j - 1 = int n" "?mn + j = n" using n_cut cfg by auto
      then show ?thesis using Some scan u by (simp only: add.assoc) simp
    qed
    have "fast_cdc_next w s = Some (Some (make_chunk (take n (drop k bs)) False n (fc_next_id s)),
        s\<lparr>fc_ptr := Some (a, k + n), fc_remaining := ?rem - n, fc_next_id := fc_next_id s + 1\<rparr>)"
      by (rule fc_next_loops [OF rem _ p warm sc _ nle _ ref]) (use False u len in auto)
    with p m len r show ?thesis by (intro exI [of _ "(a, k + n)"]) simp
  qed
qed

lemma fc_next_cases [consumes 2, case_names stop piece]:
  assumes "fc_inv w s" "fast_cdc_next w s = Some (x, s')"
  obtains (stop) "x = None" "s' = s" "fc_rest w s = []"
  | (piece) n where "fc_rest w s \<noteq> []"
      "n = fast_cut (nat (fc_min s)) (nat (fc_max s)) (fc_mask s) (fc_rest w s)"
      "x = Some (make_chunk (take n (fc_rest w s)) False n (fc_next_id s))"
      "fc_rest w s' = drop n (fc_rest w s)" "fc_inv w s'"
      "fc_next_id s' = fc_next_id s + 1"
      "fc_min s' = fc_min s" "fc_max s' = fc_max s" "fc_mask s' = fc_mask s"
proof (cases "fc_rest w s = []")
  case True
  with assms fc_next_empty [OF assms(1)] show ?thesis by (intro stop) auto
next
  case False
  let ?n = "fast_cut (nat (fc_min s)) (nat (fc_max s)) (fc_mask s) (fc_rest w s)"
  from fc_next_chunk [OF assms(1) False] assms(2) obtain p' where
    x: "x = Some (make_chunk (take ?n (fc_rest w s)) False ?n (fc_next_id s))" and
    s': "s' = s\<lparr>fc_ptr := Some p', fc_remaining := fc_remaining s - ?n, fc_next_id := fc_next_id s + 1\<rparr>" and
    p': "?n < fc_remaining s \<longrightarrow> (\<exists>a k bs. fc_ptr s = Some (a, k) \<and> os_maps w a = Some bs \<and>
       p' = (a, k + ?n) \<and> k + fc_remaining s = length bs)"
    by auto
  have inv': "fc_inv w s'" and rest': "fc_rest w s' = drop ?n (fc_rest w s)"
  proof -
    have le: "?n \<le> length (fc_rest w s)" by (rule fast_cut_le)
    have cfg: "fc_config_ok s'" using assms(1) s' by (simp add: fc_inv_def fc_config_ok_def)
    show "fc_inv w s'" and "fc_rest w s' = drop ?n (fc_rest w s)"
      using assms(1) p' le cfg fc_length_rest [OF assms(1)] s'
      by (auto simp: fc_inv_def fc_rest_def add.commute split: if_splits)
  qed
  show ?thesis using x s' inv' rest' False by (intro piece [of ?n]) simp_all
qed

lemma fc_complete_source: "complete_source (fast_cdc_next w) (fc_rest w) fc_next_id (fc_inv w)"
proof (unfold_locales, goal_cases)
  case (1 s)
  then show ?case using fc_next_empty [OF 1] fc_next_chunk [OF 1] by (cases "fc_rest w s = []") auto
next
  case (2 s x s')
  from 2 show ?case by (cases rule: fc_next_cases) (use 2 in auto)
next
  case (3 s c s')
  then show ?case
  proof (cases rule: fc_next_cases)
    case (piece n)
    from 3(1) have "0 < max (nat (fc_min s)) (nat (fc_max s))"
      by (auto simp: fc_inv_def fc_config_ok_def)
    with fast_cut_pos [OF piece(1)] piece show ?thesis by auto
  qed simp
next
  case (4 s c s')
  then show ?case
  proof (cases rule: fc_next_cases)
    case (piece n)
    have "n \<le> max (nat (fc_min s)) (nat (fc_max s))" "n \<le> length (fc_rest w s)"
      using piece(2) fast_cut_le_max fast_cut_le by auto
    moreover have "max (nat (fc_min s)) (nat (fc_max s)) < 2 ^ 31"
      using 4(1) by (auto simp: fc_inv_def fc_config_ok_def)
    ultimately have "n < 2 ^ 31" "n \<le> length (fc_rest w s)" by linarith+
    moreover have "c = make_chunk (take n (fc_rest w s)) False n (fc_next_id s)"
      using piece(3) by simp
    ultimately show ?thesis by (simp add: ck_wf_def)
  qed simp
next
  case (5 s c s')
  then show ?case by (cases rule: fc_next_cases) auto
next
  case (6 s s')
  then show ?case by (cases rule: fc_next_cases) auto
qed

interpretation fc: complete_source "fast_cdc_next w" "fc_rest w" fc_next_id "fc_inv w" for w
  by (rule fc_complete_source)

lemma fc_reinit_inv:
  assumes "fast_cdc_reinit can_map name s w = (True, s', w')" "owns (fc_file s) w" "fc_config_ok s"
    "os_files w name = Some bs" "length bs < 2 ^ 63"
  shows "fc_inv w' s' \<and> fc_rest w' s' = bs \<and> fc_next_id s' = fc_next_id s \<and> fc_config_ok s'
    \<and> fc_min s' = fc_min s \<and> fc_max s' = fc_max s \<and> fc_mask s' = fc_mask s"
proof -
  obtain f' w1 where r: "mapped_file_reopen can_map (fc_file s) name w = (f', w1)" by fastforce
  with reopen_owns [OF assms(2), where can_map = can_map and name = name] assms(1,4) obtain a where
    "mf_addr f' = Some a" "os_maps w1 a = Some bs" "mf_len f' = length bs" "map_success f'"
    by (auto simp: fast_cdc_reinit_def split: if_splits)
  with r assms(1,3,5) show ?thesis
    by (auto simp: fast_cdc_reinit_def fc_inv_def fc_rest_def fc_config_ok_def map_success_def)
qed

section \<open>Properties\<close>

text \<open>The drain of one file by the driver's loop, from a chunker that was just opened on it.\<close>

definition fast_cdc_chunks :: "os_state \<Rightarrow> fast_cdc \<Rightarrow> (chunk list \<times> fast_cdc) option" where
  "fast_cdc_chunks w s = drain (fast_cdc_next w) (Suc (fc_remaining s)) s"

lemma fc_chunks_drain:
  assumes "fc_inv w s"
  shows "\<exists>cs s'. fast_cdc_chunks w s = Some (cs, s') \<and> fc_inv w s' \<and> fc_rest w s' = []
    \<and> concat (map ck_buf cs) = fc_rest w s \<and> map ck_id cs = ids_from (fc_next_id s) (length cs)
    \<and> (\<forall>c \<in> set cs. ck_wf c \<and> ck_buf c \<noteq> [])"
  using fc.drain_all [OF assms, of "Suc (fc_remaining s)"] fc_length_rest [OF assms]
  by (simp add: fast_cdc_chunks_def)

text \<open>C1: FastCDC splits a file without loss, overlap or fault: after \<open>ReinitWithFile\<close> succeeds, the
  driver's loop returns, every buffer read is inside the mapping, the chunks are non-empty, they
  concatenate to the file, and their ids are consecutive from the chunker's counter.\<close>

theorem fast_cdc_partition:
  assumes "owns (fc_file s) w" "fc_config_ok s" "os_files w name = Some content"
    and "length content < 2 ^ 63" "fast_cdc_reinit can_map name s w = (True, s1, w1)"
  shows "\<exists>cs s2. fast_cdc_chunks w1 s1 = Some (cs, s2)
    \<and> concat (map ck_buf cs) = content \<and> (\<forall>c \<in> set cs. ck_buf c \<noteq> [])
    \<and> map ck_id cs = ids_from (fc_next_id s) (length cs)"
proof -
  from fc_reinit_inv [OF assms(5,1-4)]
  have "fc_inv w1 s1" "fc_rest w1 s1 = content" "fc_next_id s1 = fc_next_id s" by auto
  with fc_chunks_drain show ?thesis by metis
qed

definition demo_os :: os_state where
  "demo_os = \<lparr>os_files = [''f'' \<mapsto> [1, 2, 3, 4, 5]], os_maps = Map.empty, os_next = 0, os_fds = 0\<rparr>"

definition demo_fast :: "fast_cdc" where
  "demo_fast = fast_cdc_new 2 3 1"

lemma demo_fast_reinit:
  "fst (fast_cdc_reinit (\<lambda>n. 0 < n) ''f'' demo_fast demo_os) = True"
  "owns (fc_file demo_fast) demo_os" "fc_config_ok demo_fast"
  by (simp_all add: fast_cdc_reinit_def mapped_file_reopen_def mapped_file_open_def demo_os_def
      demo_fast_def fast_cdc_new_def mapped_file_default_def mapped_file_move_assign_def os_munmap_def
      mapped_file_dtor_def map_success_def owns_def fc_config_ok_def Let_def)

theorem fast_cdc_partition_witness:
  "let (ok, s1, w1) = fast_cdc_reinit (\<lambda>n. 0 < n) ''f'' demo_fast demo_os in ok \<and>
     (\<exists>cs s2. fast_cdc_chunks w1 s1 = Some (cs, s2) \<and> concat (map ck_buf cs) = [1, 2, 3, 4, 5])"
proof -
  obtain s1 w1 where r: "fast_cdc_reinit (\<lambda>n. 0 < n) ''f'' demo_fast demo_os = (True, s1, w1)"
    using demo_fast_reinit(1) by (metis prod.collapse)
  have f: "os_files demo_os ''f'' = Some [1, 2, 3, 4, 5]" by (simp add: demo_os_def)
  from fast_cdc_partition [OF demo_fast_reinit(2,3) f _ r] show ?thesis by (auto simp: r)
qed

text \<open>C2: the cut is content defined: while bytes remain, the call answers a chunk and takes it off the
  rest. The chunk is the whole rest if that is at most the minimum. Otherwise its length is the least
  position behind the minimum, within the maximum and the file, at which the Gear fingerprint of the
  chunk has no bit in common with the mask, and the largest permitted length where there is no such
  position: the loop over the first bytes never ends a chunk, and no cut is missed or added.\<close>

theorem fast_cdc_boundary:
  assumes "fc_inv w s" "fc_rest w s \<noteq> []"
  shows "\<exists>c s' n. fast_cdc_next w s = Some (Some c, s') \<and> n \<le> length (fc_rest w s) \<and>
    ck_buf c = take n (fc_rest w s) \<and> ck_len c = int n \<and> fc_rest w s' = drop n (fc_rest w s) \<and>
    n = (let r = fc_rest w s; mn = nat (fc_min s); lmt = min (length r) (nat (fc_max s));
             stop = (\<lambda>k. mn < k \<and> k \<le> lmt \<and> gear_hash 0 (take k r) AND fc_mask s = 0) in
         if length r \<le> mn then length r else if \<exists>k. stop k then LEAST k. stop k else max mn lmt)"
proof -
  let ?r = "fc_rest w s"
  obtain x s' where nx: "fast_cdc_next w s = Some (x, s')" using fc.no_fault [OF assms(1)] by auto
  show ?thesis
    using assms(1) nx
  proof (cases rule: fc_next_cases)
    case stop
    with assms(2) show ?thesis by simp
  next
    case (piece n)
    then have x: "x = Some (make_chunk (take n ?r) False n (fc_next_id s))" by blast
    have n: "n \<le> length ?r" using piece(2) fast_cut_le by simp
    have "ck_wf (make_chunk (take n ?r) False n (fc_next_id s))" using fc.next_wf [OF assms(1)] nx x by blast
    then have len: "ck_len (make_chunk (take n ?r) False n (fc_next_id s)) = int n" using n by (simp add: ck_wf_def)
    have "fast_cut (nat (fc_min s)) (nat (fc_max s)) (fc_mask s) ?r = length ?r" if "length ?r \<le> nat (fc_min s)"
      using that by (simp add: fast_cut_def)
    then show ?thesis
      using nx n x len piece(2,4) fast_cut_least [of "nat (fc_min s)" ?r "nat (fc_max s)" "fc_mask s"]
      by (intro exI [of _ "make_chunk (take n ?r) False n (fc_next_id s)"] exI [of _ s'] exI [of _ n]) (auto simp: Let_def)
  qed
qed

definition demo_fast_open :: "fast_cdc \<times> os_state" where
  "demo_fast_open =
    (demo_fast\<lparr>fc_ptr := Some (0, 0), fc_remaining := 5\<rparr>, demo_os\<lparr>os_maps := [0 \<mapsto> [1, 2, 3, 4, 5]]\<rparr>)"

lemma demo_fast_open_inv: "fc_inv (snd demo_fast_open) (fst demo_fast_open)"
  by (simp add: demo_fast_open_def demo_fast_def fast_cdc_new_def fc_inv_def fc_config_ok_def)

theorem fast_cdc_boundary_witness:
  "\<exists>c s'. fast_cdc_next (snd demo_fast_open) (fst demo_fast_open) = Some (Some c, s') \<and> ck_buf c = [1, 2, 3]"
proof -
  let ?w = "snd demo_fast_open" and ?s = "fst demo_fast_open"
  have r: "fc_rest ?w ?s = [1, 2, 3, 4, 5]" by (simp add: demo_fast_open_def fc_rest_def)
  have m: "nat (fc_min ?s) = 2" "nat (fc_max ?s) = 3"
    by (simp_all add: demo_fast_open_def demo_fast_def fast_cdc_new_def)
  have ne: "fc_rest ?w ?s \<noteq> []" by (simp add: r)
  have l: "min (length [1, 2, 3, 4, 5 :: u8]) 3 = 3" "\<not> length [1, 2, 3, 4, 5 :: u8] \<le> 2" "max 2 3 = (3 :: nat)" by simp_all
  have cut: "(if \<exists>k. 2 < k \<and> k \<le> 3 \<and> P k then LEAST k. 2 < k \<and> k \<le> 3 \<and> P k else 3) = (3 :: nat)" for P
  proof -
    have eq: "2 < k \<and> k \<le> 3 \<and> P k \<longleftrightarrow> k = 3 \<and> P 3" for k by (cases "k = 3") auto
    show ?thesis unfolding eq by (cases "P 3") (auto simp: Least_equality)
  qed
  obtain c s' where n: "fast_cdc_next ?w ?s = Some (Some c, s')" "ck_buf c = take 3 [1, 2, 3, 4, 5]"
    using fast_cdc_boundary [OF demo_fast_open_inv ne] unfolding r m Let_def l if_not_P [OF l(2)] cut by blast
  then show ?thesis by (simp add: numeral_3_eq_3)
qed

lemma fc_drain_fixed:
  assumes "fc_inv w s" "fc_max s \<le> fc_min s" "drain (fast_cdc_next w) fuel s = Some (cs, s')"
    and "k < length cs"
  shows "ck_buf (cs ! k) = take (nat (fc_min s)) (drop (k * nat (fc_min s)) (fc_rest w s))"
  using assms
proof (induction fuel arbitrary: s cs k)
  case 0
  then show ?case by simp
next
  case (Suc fuel)
  obtain x s1 where nx: "fast_cdc_next w s = Some (x, s1)"
    using Suc.prems(3) by (auto split: option.splits)
  from Suc.prems(1) nx show ?case
  proof (cases rule: fc_next_cases)
    case stop
    with nx Suc.prems(3,4) show ?thesis by simp
  next
    case (piece n)
    let ?m = "nat (fc_min s)"
    from piece(2) Suc.prems(2) have n: "n = min (length (fc_rest w s)) ?m"
      by (simp add: fast_cut_fixed nat_mono)
    obtain cs' where d: "drain (fast_cdc_next w) fuel s1 = Some (cs', s')"
      and cs: "cs = make_chunk (take n (fc_rest w s)) False n (fc_next_id s) # cs'"
      using Suc.prems(3) nx piece(3) by (auto split: option.splits prod.splits)
    show ?thesis
    proof (cases k)
      case 0
      with cs n show ?thesis by (cases "length (fc_rest w s) \<le> ?m") (simp_all add: min_def)
    next
      case (Suc i)
      with cs Suc.prems(4) have i: "i < length cs'" by simp
      have "ck_buf (cs' ! i) = take ?m (drop (i * ?m) (drop n (fc_rest w s)))"
        using Suc.IH [OF piece(5) _ d i] piece Suc.prems(2) by simp
      also have "\<dots> = take ?m (drop (Suc i * ?m) (fc_rest w s))"
        using n by (cases "length (fc_rest w s) \<le> ?m") (simp_all add: min_def add.commute)
      finally show ?thesis using Suc cs by simp
    qed
  qed
qed

text \<open>Pieces of at most \<open>m\<close> bytes, each the next one of the list, are the blocks of the list.\<close>

lemma pieces_blocks:
  assumes m: "0 < m" and c: "concat ps = r" "\<forall>p \<in> set ps. p \<noteq> []"
    and k: "\<And>k. k < length ps \<Longrightarrow> ps ! k = take m (drop (k * m) r)"
  shows "ps = map (\<lambda>k. take m (drop (k * m) r)) [0..<(length r + m - 1) div m]"
proof -
  have "length (concat qs) \<le> length qs * m" if "\<forall>q \<in> set qs. length q \<le> m" for qs :: "'a list list"
    using that by (induction qs) auto
  moreover have "\<forall>p \<in> set ps. length p \<le> m"
  proof
    fix p assume "p \<in> set ps"
    then obtain i where "i < length ps" "p = ps ! i" by (metis in_set_conv_nth)
    then show "length p \<le> m" using k by simp
  qed
  ultimately have up: "length r \<le> length ps * m" using c(1) by blast
  have low: "(length ps - 1) * m < length r" if "ps \<noteq> []"
  proof -
    from that have "length ps - 1 < length ps" by (cases ps) auto
    then have "take m (drop ((length ps - 1) * m) r) \<in> set ps" using k [of "length ps - 1"] nth_mem by metis
    then have "take m (drop ((length ps - 1) * m) r) \<noteq> []" using c(2) by blast
    then show ?thesis by simp
  qed
  have "length ps = (length r + m - 1) div m"
  proof (cases "ps = []")
    case True
    then show ?thesis using c(1) m by auto
  next
    case False
    then obtain n where n: "length ps = Suc n" by (cases ps) auto
    have "m * Suc n \<le> length r + m - 1" using low [OF False] n by (simp add: mult.commute)
    moreover have "length r + m - 1 < m * Suc (Suc n)" using up n m by (simp add: mult.commute)
    ultimately have "(length r + m - 1) div m = Suc n" by (rule div_nat_eqI)
    then show ?thesis using n by simp
  qed
  then show ?thesis using k by (intro nth_equalityI) simp_all
qed

text \<open>C3: with the shipped configuration (minimum and maximum both \<open>m = 8192\<close>), as with any maximum not
  above the minimum, FastCDC degenerates to fixed-size blocks: the driver's loop returns, and the
  chunks are exactly the blocks of \<open>m\<close> bytes the file divides into, the shorter last one included.
  The offset arithmetic of the storage rests on this.\<close>

theorem fast_cdc_fixed_blocks:
  assumes "fc_inv w s" "fc_max s \<le> fc_min s"
  shows "\<exists>cs s'. fast_cdc_chunks w s = Some (cs, s') \<and>
    map ck_buf cs = (let m = nat (fc_min s); r = fc_rest w s in
      map (\<lambda>k. take m (drop (k * m) r)) [0..<(length r + m - 1) div m])"
proof -
  obtain cs s' where d: "fast_cdc_chunks w s = Some (cs, s')" "concat (map ck_buf cs) = fc_rest w s"
      "\<forall>c \<in> set cs. ck_buf c \<noteq> []" using fc_chunks_drain [OF assms(1)] by blast
  have "0 < nat (fc_min s)" using assms by (auto simp: fc_inv_def fc_config_ok_def)
  then have "map ck_buf cs = map (\<lambda>k. take (nat (fc_min s)) (drop (k * nat (fc_min s)) (fc_rest w s)))
      [0..<(length (fc_rest w s) + nat (fc_min s) - 1) div nat (fc_min s)]"
    using d(2,3) fc_drain_fixed [OF assms d(1) [unfolded fast_cdc_chunks_def]]
    by (intro pieces_blocks) auto
  with d(1) show ?thesis by (auto simp: Let_def)
qed

theorem fast_cdc_fixed_blocks_witness:
  "let s = (fst demo_fast_open)\<lparr>fc_max := 2\<rparr>; w = snd demo_fast_open in
     \<exists>cs s'. fast_cdc_chunks w s = Some (cs, s') \<and> map ck_buf cs = [[1, 2], [3, 4], [5]]"
proof -
  let ?s = "(fst demo_fast_open)\<lparr>fc_max := 2\<rparr>" and ?w = "snd demo_fast_open"
  have i: "fc_inv ?w ?s" and le: "fc_max ?s \<le> fc_min ?s" and r: "fc_rest ?w ?s = [1, 2, 3, 4, 5]"
    and m: "nat (fc_min ?s) = 2"
    by (simp_all add: demo_fast_open_def demo_fast_def fast_cdc_new_def fc_inv_def fc_config_ok_def
        fc_rest_def)
  have "[0..<(length [1, 2, 3, 4, 5 :: u8] + 2 - 1) div 2] = [0, 1, 2]" by (simp add: upt_rec)
  then show ?thesis using fast_cdc_fixed_blocks [OF i le] unfolding r m Let_def by simp
qed

end
