(* ===== verification/RabinPoly.thy ===== *)
theory RabinPoly
  imports Prelude
begin

text \<open>
  The arithmetic of polynomials over GF(2), packed into 64-bit words, under both Rabin fingerprints
  (\<open>utils/rabin.cpp\<close>; \<open>chunk/rabin_cdc.cpp\<close> repeats the same three functions): the degree, the
  reduction modulo a polynomial, and the append of a byte. The reduction loop does not return for
  the zero polynomial when the argument is zero, so \<open>gf_mod\<close> is an option; \<open>gf_mod_returns\<close> shows
  that it returns for every other polynomial. The lemmas make it the linear map onto the unique
  remainder, which is all that the table-driven rolling hash needs.
\<close>

named_theorems gf_simps \<open>facts about reduction modulo a polynomial over GF(2)\<close>

section \<open>Degree and reduction\<close>

function deg_from :: "u64 \<Rightarrow> u64 \<Rightarrow> nat \<Rightarrow> int" where
  "deg_from p msk i =
     (if i < 64 then (if 0 < (msk AND p) then 63 - int i else deg_from p (drop_bit 1 msk) (Suc i))
      else - 1)"
  by pat_completeness auto
termination
  by (relation "measure (\<lambda>(p, m, i). 64 - i)") auto

declare deg_from.simps [simp del]

definition deg :: "u64 \<Rightarrow> int" where
  "deg p = deg_from p 0x8000000000000000 0"

partial_function (option) gf_mod :: "u64 \<Rightarrow> u64 \<Rightarrow> u64 option" where
  "gf_mod x p =
     (if deg p \<le> deg x
      then (let shift = nat (deg x - deg p) in gf_mod (x XOR push_bit shift p) p)
      else Some x)"

definition append_byte :: "u64 \<Rightarrow> u8 \<Rightarrow> u64 \<Rightarrow> u64 option" where
  "append_byte hash b pol = gf_mod (push_bit 8 hash OR ucast b) pol"

section \<open>The degree is the top bit\<close>

lemma drop_bit_exp: "m < 64 \<Longrightarrow> drop_bit i (2 ^ m :: u64) = (if i \<le> m then 2 ^ (m - i) else 0)"
  by (rule bit_word_eqI) (auto simp: bit_simps)

lemma single_bit_and: "0 < ((2 :: u64) ^ i AND p) \<longleftrightarrow> bit p i"
proof -
  have "(2 :: u64) ^ i AND p = (if bit p i then 2 ^ i else 0)"
    by (rule bit_word_eqI) (auto simp: bit_simps)
  moreover have "(2 :: u64) ^ i \<noteq> 0" if "bit p i"
  proof
    assume z: "(2 :: u64) ^ i = 0"
    have "bit ((2 :: u64) ^ i) i" using bit_imp_le_length [OF that] by (simp add: bit_exp_iff)
    then show False by (simp only: z) simp
  qed
  ultimately show ?thesis by (metis word_gt_0 less_irrefl)
qed

lemma top_mask_and: "i < 64 \<Longrightarrow> 0 < (drop_bit i 0x8000000000000000 AND p) \<longleftrightarrow> bit (p :: u64) (63 - i)"
proof -
  assume i: "i < 64"
  have "(0x8000000000000000 :: u64) = 2 ^ 63" by simp
  then have "drop_bit i (0x8000000000000000 :: u64) = 2 ^ (63 - i)"
    using i drop_bit_exp [of 63 i] by (simp only:) simp
  then show ?thesis by (simp only: single_bit_and)
qed

lemma deg_from_eq:
  assumes "i \<le> 64"
  shows "deg_from p (drop_bit i 0x8000000000000000) i =
    (if \<exists>j < 64 - i. bit p j then int (Max {j. j < 64 - i \<and> bit p j}) else - 1)"
  using assms
proof (induction "64 - i" arbitrary: i)
  case 0
  then show ?case by (simp add: deg_from.simps)
next
  case (Suc n)
  then have i: "i < 64" by simp
  have st: "deg_from p (drop_bit i 0x8000000000000000) i =
      (if bit p (63 - i) then 63 - int i else deg_from p (drop_bit (Suc i) 0x8000000000000000) (Suc i))"
    using i by (subst deg_from.simps) (simp only: top_mask_and drop_bit_drop_bit if_True plus_1_eq_Suc add.commute)
  show ?case
  proof (cases "bit p (63 - i)")
    case True
    have "Max {j. j < 64 - i \<and> bit p j} = 63 - i"
      using True i by (intro Max_eqI) auto
    moreover have "\<exists>j < 64 - i. bit p j" using True i by (intro exI [of _ "63 - i"]) simp
    ultimately show ?thesis using True st i by simp
  next
    case False
    have "j < 64 - i \<and> bit p j \<longleftrightarrow> j < 64 - Suc i \<and> bit p j" for j
      using False i by (cases "j = 63 - i") auto
    with False st Suc.hyps(1) [of "Suc i"] Suc.hyps(2) Suc.prems show ?thesis by simp
  qed
qed

lemma deg_Max: "deg p = (if p = 0 then - 1 else int (Max {j. bit p j}))"
proof -
  have set: "{j. j < 64 \<and> bit p j} = {j. bit p j}" using bit_imp_le_length [of p] by auto
  have z: "(\<exists>j < 64. bit p j) \<longleftrightarrow> p \<noteq> 0" by (auto simp: bit_eq_iff dest: bit_imp_le_length)
  have "deg p = (if \<exists>j < 64. bit p j then int (Max {j. j < 64 \<and> bit p j}) else - 1)"
    using deg_from_eq [of 0 p] by (simp add: deg_def)
  then show ?thesis by (simp add: set z)
qed

lemma finite_bits [simp]: "finite {j. bit (p :: u64) j}"
  by (rule finite_subset [of _ "{..<64}"]) (auto dest: bit_imp_le_length)

lemma deg_0 [simp]: "deg 0 = - 1"
  by (simp add: deg_Max)

lemma deg_top: "p \<noteq> 0 \<Longrightarrow> bit p (nat (deg p)) \<and> 0 \<le> deg p \<and> deg p < 64"
proof -
  assume p: "p \<noteq> 0"
  then have "{j. bit p j} \<noteq> {}" by (auto simp: bit_eq_iff)
  then have "Max {j. bit p j} \<in> {j. bit p j}" by (intro Max_in) auto
  with p show ?thesis by (auto simp: deg_Max dest: bit_imp_le_length)
qed

lemma deg_ge: "bit p j \<Longrightarrow> int j \<le> deg p"
  by (auto simp: deg_Max)

lemma deg_less_iff: "deg p < int n \<longleftrightarrow> (\<forall>j. n \<le> j \<longrightarrow> \<not> bit p j)"
proof
  assume "deg p < int n"
  then show "\<forall>j. n \<le> j \<longrightarrow> \<not> bit p j" using deg_ge [of p] by fastforce
next
  assume h: "\<forall>j. n \<le> j \<longrightarrow> \<not> bit p j"
  show "deg p < int n"
  proof (cases "p = 0")
    case False
    with deg_top [OF False] h show ?thesis by (metis not_le nat_le_iff zero_less_iff_neq_zero
        int_nat_eq le_nat_iff not_le_imp_less)
  qed simp
qed

lemma deg_eqI: "bit p n \<Longrightarrow> (\<And>j. n < j \<Longrightarrow> \<not> bit p j) \<Longrightarrow> deg p = int n"
  using deg_less_iff [of p "Suc n"] deg_ge [of p n] by fastforce

lemma deg_xor_less:
  assumes "p \<noteq> 0" "deg p \<le> deg x"
  shows "deg (x XOR push_bit (nat (deg x - deg p)) p) < deg x"
proof -
  let ?s = "nat (deg x - deg p)" and ?n = "nat (deg x)"
  have x: "x \<noteq> 0" using assms deg_top [of p] by auto
  note tx = deg_top [OF x] and tp = deg_top [OF assms(1)]
  have hi: "\<not> bit x j" if "?n < j" for j using deg_ge [of x j] that by auto
  have hp: "\<not> bit p j" if "nat (deg p) < j" for j using deg_ge [of p j] that by auto
  have "\<not> bit (x XOR push_bit ?s p) j" if j: "?n \<le> j" for j
  proof (cases "j = ?n")
    case True
    have "?n - ?s = nat (deg p)" "?s \<le> ?n" using tp tx assms(2) by linarith+
    with True tx tp show ?thesis by (simp add: bit_simps nat_less_iff)
  next
    case False
    with j have "?n < j" by simp
    moreover have "nat (deg p) < j - ?s" using False j tp tx assms(2) by linarith
    ultimately show ?thesis using hi hp by (simp add: bit_simps)
  qed
  then have "deg (x XOR push_bit ?s p) < int ?n" by (simp only: deg_less_iff) blast
  with tx show ?thesis by simp
qed

section \<open>Multiples of the polynomial\<close>

text \<open>\<open>gf_comb p f n\<close> is the sum of the shifts \<open>p << i\<close> over the \<open>i < n\<close> with \<open>f i\<close>.\<close>

primrec gf_comb :: "u64 \<Rightarrow> (nat \<Rightarrow> bool) \<Rightarrow> nat \<Rightarrow> u64" where
  "gf_comb p f 0 = 0"
| "gf_comb p f (Suc n) = gf_comb p f n XOR (if f n then push_bit n p else 0)"

definition gf_span :: "u64 \<Rightarrow> u64 set" where
  "gf_span p = {gf_comb p f (nat (64 - deg p)) | f. True}"

lemma gf_comb_False [simp]: "gf_comb p (\<lambda>_. False) n = 0"
  by (induction n) auto

lemma gf_comb_xor: "gf_comb p f n XOR gf_comb p g n = gf_comb p (\<lambda>i. f i \<noteq> g i) n"
  by (induction n) (auto simp: ac_simps)

lemma gf_comb_single: "i < n \<Longrightarrow> gf_comb p (\<lambda>j. j = i) n = push_bit i p"
proof (induction n)
  case (Suc n)
  have "gf_comb p (\<lambda>j. j = n) m = 0" if "m \<le> n" for m
    using that by (induction m) auto
  with Suc show ?case by (cases "i = n") auto
qed simp

lemma gf_comb_above:
  assumes "p \<noteq> 0" "deg p + int n \<le> int j"
  shows "\<not> bit (gf_comb p f n) j"
  using assms(2)
proof (induction n)
  case (Suc n)
  have "\<not> bit p (j - n)" using Suc.prems deg_ge [of p "j - n"] by auto
  with Suc show ?case by (auto simp: bit_simps)
qed simp

lemma gf_comb_deg:
  assumes "p \<noteq> 0" "n \<le> nat (64 - deg p)" "\<exists>i < n. f i"
  shows "deg p \<le> deg (gf_comb p f n)"
  using assms(2,3)
proof (induction n)
  case (Suc n)
  note tp = deg_top [OF assms(1)]
  show ?case
  proof (cases "f n")
    case True
    let ?j = "nat (deg p) + n"
    have "?j < 64" using Suc.prems(1) tp by linarith
    then have "bit (gf_comb p f (Suc n)) ?j"
      using True tp gf_comb_above [OF assms(1), of n ?j f] by (simp add: bit_simps)
    then show ?thesis using deg_ge tp by fastforce
  next
    case False
    with Suc show ?thesis by (auto simp: less_Suc_eq)
  qed
qed simp

lemma gf_span_0: "0 \<in> gf_span p"
  unfolding gf_span_def by (intro CollectI exI [of _ "\<lambda>_. False"] conjI TrueI) simp

lemma gf_span_xor: "x \<in> gf_span p \<Longrightarrow> y \<in> gf_span p \<Longrightarrow> x XOR y \<in> gf_span p"
  by (auto simp: gf_span_def gf_comb_xor)

lemma gf_span_shift:
  assumes "deg p + int i < 64"
  shows "push_bit i p \<in> gf_span p"
proof -
  have "i < nat (64 - deg p)" using assms by simp
  from gf_comb_single [OF this, of p] show ?thesis
    unfolding gf_span_def by (intro CollectI exI [of _ "\<lambda>j. j = i"]) simp
qed

lemma gf_span_small:
  assumes "p \<noteq> 0" "x \<in> gf_span p" "deg x < deg p"
  shows "x = 0"
proof -
  let ?n = "nat (64 - deg p)"
  obtain f where x: "x = gf_comb p f ?n" using assms(2) by (auto simp: gf_span_def)
  then have none: "\<forall>i < ?n. \<not> f i" using gf_comb_deg [OF assms(1), of ?n f] assms(3) by auto
  have "gf_comb p f m = 0" if "\<forall>i < m. \<not> f i" for m
    using that by (induction m) auto
  with none x show ?thesis by blast
qed

text \<open>The loop returns, with a remainder of smaller degree that differs by a multiple of \<open>p\<close>.\<close>

lemma gf_mod_total:
  assumes "p \<noteq> 0"
  shows "\<exists>r. gf_mod x p = Some r \<and> x XOR r \<in> gf_span p \<and> deg r < deg p"
proof (induction "nat (deg x + 1)" arbitrary: x rule: less_induct)
  case less
  show ?case
  proof (cases "deg p \<le> deg x")
    case True
    let ?s = "nat (deg x - deg p)"
    let ?x = "x XOR push_bit ?s p"
    have "deg ?x < deg x" by (rule deg_xor_less [OF assms True])
    moreover have "0 \<le> deg x" using True deg_top [OF assms] by simp
    ultimately have "nat (deg ?x + 1) < nat (deg x + 1)" by simp
    then obtain r where r: "gf_mod ?x p = Some r" "?x XOR r \<in> gf_span p" "deg r < deg p"
      using less by blast
    have "deg x < 64" using deg_top [of x] by (cases "x = 0") auto
    then have "push_bit ?s p \<in> gf_span p"
      using True deg_top [OF assms] by (intro gf_span_shift) simp
    from gf_span_xor [OF r(2) this] have "x XOR r \<in> gf_span p" by (simp add: ac_simps)
    moreover have "gf_mod x p = Some r" using True r(1) by (subst gf_mod.simps) simp
    ultimately show ?thesis using r(3) by blast
  next
    case False
    then show ?thesis by (simp add: gf_mod.simps [of x] gf_span_0)
  qed
qed

lemma gf_mod_returns: "p \<noteq> 0 \<Longrightarrow> \<exists>r. gf_mod x p = Some r"
  using gf_mod_total by blast

lemma gf_mod_span: "p \<noteq> 0 \<Longrightarrow> gf_mod x p = Some r \<Longrightarrow> x XOR r \<in> gf_span p \<and> deg r < deg p"
  using gf_mod_total [of p x] by auto

text \<open>The remainder as a total function, for nonzero polynomials.\<close>

definition gf_rem :: "u64 \<Rightarrow> u64 \<Rightarrow> u64" where
  "gf_rem p x = the (gf_mod x p)"

lemma gf_mod_rem [gf_simps]: "p \<noteq> 0 \<Longrightarrow> gf_mod x p = Some (gf_rem p x)"
  using gf_mod_returns [of p x] by (auto simp: gf_rem_def)

lemma gf_rem_unique:
  assumes "p \<noteq> 0" "x XOR r \<in> gf_span p" "deg r < deg p"
  shows "gf_rem p x = r"
proof -
  have 1: "x XOR gf_rem p x \<in> gf_span p" "deg (gf_rem p x) < deg p"
    using gf_mod_span [OF assms(1) gf_mod_rem [OF assms(1)]] by auto
  have "(x XOR gf_rem p x) XOR (x XOR r) \<in> gf_span p"
    by (rule gf_span_xor [OF 1(1) assms(2)])
  then have s: "gf_rem p x XOR r \<in> gf_span p" by (simp add: ac_simps)
  have "deg (gf_rem p x XOR r) < int (nat (deg p))"
    using 1(2) assms(3) deg_less_iff [of "gf_rem p x" "nat (deg p)"] deg_less_iff [of r "nat (deg p)"]
      deg_top [OF assms(1)] by (subst deg_less_iff) (simp add: bit_simps)
  then have "deg (gf_rem p x XOR r) < deg p" using deg_top [OF assms(1)] by simp
  from gf_span_small [OF assms(1) s this] have "gf_rem p x XOR r = 0" .
  then have "(gf_rem p x XOR r) XOR r = r" by simp
  then show ?thesis by (simp only: xor.assoc xor_self_eq xor.right_neutral)
qed

lemma gf_rem_deg [gf_simps]: "p \<noteq> 0 \<Longrightarrow> deg (gf_rem p x) < deg p"
  using gf_mod_span [OF _ gf_mod_rem] by blast

lemma gf_rem_small [gf_simps]: "p \<noteq> 0 \<Longrightarrow> deg x < deg p \<Longrightarrow> gf_rem p x = x"
  by (rule gf_rem_unique) (auto simp: gf_span_0)

lemma gf_rem_xor [gf_simps]:
  assumes "p \<noteq> 0"
  shows "gf_rem p (x XOR y) = gf_rem p x XOR gf_rem p y"
proof (rule gf_rem_unique [OF assms])
  have s: "z XOR gf_rem p z \<in> gf_span p" for z
    using gf_mod_span [OF assms gf_mod_rem [OF assms]] by blast
  have "(x XOR y) XOR (gf_rem p x XOR gf_rem p y) = (x XOR gf_rem p x) XOR (y XOR gf_rem p y)"
    by (simp add: ac_simps)
  then show "(x XOR y) XOR (gf_rem p x XOR gf_rem p y) \<in> gf_span p"
    using gf_span_xor [OF s s] by simp
  have "deg (gf_rem p x XOR gf_rem p y) < int (nat (deg p))"
    using gf_rem_deg [OF assms, of x] gf_rem_deg [OF assms, of y] deg_top [OF assms]
      deg_less_iff [of "gf_rem p x" "nat (deg p)"] deg_less_iff [of "gf_rem p y" "nat (deg p)"]
    by (subst deg_less_iff) (simp add: bit_simps)
  then show "deg (gf_rem p x XOR gf_rem p y) < deg p" using deg_top [OF assms] by simp
qed

lemma gf_rem_0 [simp]: "p \<noteq> 0 \<Longrightarrow> gf_rem p 0 = 0"
  using gf_rem_small [of p 0] deg_top [of p] by simp

end
