(* ===== verification/RabinRoll.thy ===== *)
theory RabinRoll
  imports RabinPoly
begin

text \<open>
  The rolling Rabin fingerprint of \<open>utils/rabin.h\<close> and \<open>utils/rabin.cpp\<close>: the two 256-entry tables,
  the append of a byte by table look-up and the slide of a 48-byte window. \<open>rabin_win\<close> is the part
  of the state that \<open>struct rabin_t\<close> and the class \<open>RabinCDC\<close> (\<open>chunk/rabin_cdc.cpp\<close>) share, and the
  operations on it take the tables as arguments. \<open>poly_hash\<close> is the specification: the reduction of
  the bytes read as one long polynomial. \<open>roll_inv\<close> says that the digest is the specification's hash
  of the bytes now in the window.
\<close>

section \<open>The tables\<close>

primrec append_zeros :: "nat \<Rightarrow> u64 \<Rightarrow> u64 \<Rightarrow> u64 option" where
  "append_zeros 0 hash pol = Some hash"
| "append_zeros (Suc n) hash pol = do { hash' \<leftarrow> append_byte hash 0 pol; append_zeros n hash' pol }"

definition WINSIZE :: nat where
  "WINSIZE = 48"

definition out_entry :: "u64 \<Rightarrow> nat \<Rightarrow> u64 option" where
  "out_entry pol b = do {
     hash \<leftarrow> append_byte 0 (of_nat b) pol;
     append_zeros (WINSIZE - 1) hash pol
   }"

definition mod_entry :: "u64 \<Rightarrow> nat \<Rightarrow> u64 option" where
  "mod_entry pol b = do {
     let k = nat (deg pol);
     m \<leftarrow> gf_mod (push_bit k (of_nat b)) pol;
     Some (m OR push_bit k (of_nat b))
   }"

text \<open>The pair of \<open>mod_table\<close> and \<open>out_table\<close>.\<close>

definition calc_tables :: "u64 \<Rightarrow> (u64 list \<times> u64 list) option" where
  "calc_tables pol = do {
     out_table \<leftarrow> those (map (out_entry pol) [0..<256]);
     mod_table \<leftarrow> those (map (mod_entry pol) [0..<256]);
     Some (mod_table, out_table)
   }"

section \<open>The window\<close>

record rabin_win =
  rw_window :: "u8 list"
  rw_wpos :: nat
  rw_digest :: u64

definition rw_append :: "u64 list \<Rightarrow> nat \<Rightarrow> u8 \<Rightarrow> 'a rabin_win_scheme \<Rightarrow> 'a rabin_win_scheme" where
  "rw_append mod_table polynomial_shift b h =
     (let index = (ucast (drop_bit polynomial_shift (rw_digest h)) :: u8);
          d1 = push_bit 8 (rw_digest h);
          d2 = d1 OR ucast b
      in h\<lparr>rw_digest := d2 XOR mod_table ! unat index\<rparr>)"

definition rw_slide ::
  "u64 list \<times> u64 list \<Rightarrow> nat \<Rightarrow> u8 \<Rightarrow> 'a rabin_win_scheme \<Rightarrow> 'a rabin_win_scheme" where
  "rw_slide tables polynomial_shift b h =
     (let out = rw_window h ! rw_wpos h;
          h1 = h\<lparr>rw_window := (rw_window h)[rw_wpos h := b],
                 rw_digest := rw_digest h XOR snd tables ! unat out,
                 rw_wpos := (rw_wpos h + 1) mod WINSIZE\<rparr>
      in rw_append (fst tables) polynomial_shift b h1)"

definition rw_reset ::
  "u64 list \<times> u64 list \<Rightarrow> nat \<Rightarrow> 'a rabin_win_scheme \<Rightarrow> 'a rabin_win_scheme" where
  "rw_reset tables polynomial_shift h =
     rw_slide tables polynomial_shift 1
       (h\<lparr>rw_window := replicate WINSIZE 0, rw_digest := 0, rw_wpos := 0\<rparr>)"

section \<open>\<open>struct rabin_t\<close>\<close>

record rabin_t = rabin_win +
  rb_polynomial :: u64
  rb_degree :: u64
  rb_shift :: nat
  rb_mask :: u64

definition rabin_t_new :: "u8 list \<Rightarrow> nat \<Rightarrow> u64 \<Rightarrow> rabin_t" where
  "rabin_t_new window wpos digest =
     \<lparr>rw_window = window, rw_wpos = wpos, rw_digest = digest, rb_polynomial = 0x3DA3358B4DC173,
      rb_degree = 53, rb_shift = 53 - 8, rb_mask = 2 ^ 14 - 1\<rparr>"

text \<open>The file-level tables with their initialisation flag.\<close>

record rabin_globals =
  tables_initialized :: bool
  g_tables :: "u64 list \<times> u64 list"

definition rabin_globals_start :: rabin_globals where
  "rabin_globals_start =
     \<lparr>tables_initialized = False, g_tables = (replicate 256 0, replicate 256 0)\<rparr>"

definition rabin_append :: "rabin_globals \<Rightarrow> u8 \<Rightarrow> rabin_t \<Rightarrow> rabin_t" where
  "rabin_append g b h = rw_append (fst (g_tables g)) (rb_shift h) b h"

definition rabin_slide :: "rabin_globals \<Rightarrow> u8 \<Rightarrow> rabin_t \<Rightarrow> rabin_t" where
  "rabin_slide g b h = rw_slide (g_tables g) (rb_shift h) b h"

definition rabin_reset :: "rabin_globals \<Rightarrow> rabin_t \<Rightarrow> rabin_t" where
  "rabin_reset g h = rw_reset (g_tables g) (rb_shift h) h"

definition rabin_init :: "rabin_globals \<Rightarrow> rabin_t \<Rightarrow> (rabin_globals \<times> rabin_t) option" where
  "rabin_init g h = do {
     g' \<leftarrow> (if \<not> tables_initialized g
           then map_option (\<lambda>t. \<lparr>tables_initialized = True, g_tables = t\<rparr>) (calc_tables (rb_polynomial h))
           else Some g);
     Some (g', rabin_reset g' h)
   }"

section \<open>The specification: one long polynomial\<close>

definition poly_step :: "u64 \<Rightarrow> u64 \<Rightarrow> u8 \<Rightarrow> u64" where
  "poly_step p h b = gf_rem p (push_bit 8 h OR ucast b)"

abbreviation poly_hash :: "u64 \<Rightarrow> bytes \<Rightarrow> u64" where
  "poly_hash p \<equiv> foldl (poly_step p) 0"

text \<open>The polynomials for which the tables work: degree from 8 to 56, so that the degree leaves room
  for one more byte.\<close>

definition table_poly :: "u64 \<Rightarrow> bool" where
  "table_poly p \<longleftrightarrow> p \<noteq> 0 \<and> 8 \<le> deg p \<and> deg p \<le> 56"

lemma push_or_xor: "push_bit 8 (h :: u64) OR ucast (b :: u8) = push_bit 8 h XOR ucast b"
  by (rule bit_word_eqI) (auto simp: bit_simps dest: bit_imp_le_length)

lemma ucast_xor8: "(ucast (a XOR b :: u8) :: u64) = ucast a XOR ucast b"
  by (rule bit_word_eqI) (auto simp: bit_simps)

lemma poly_step_xor:
  "table_poly p \<Longrightarrow> poly_step p (h XOR h') (b XOR b') = poly_step p h b XOR poly_step p h' b'"
proof -
  assume "table_poly p"
  then have p: "p \<noteq> 0" by (simp add: table_poly_def)
  have "poly_step p (h XOR h') (b XOR b') = gf_rem p (push_bit 8 (h XOR h') XOR ucast (b XOR b'))"
    by (simp only: poly_step_def push_or_xor)
  also have "\<dots> = gf_rem p ((push_bit 8 h XOR ucast b) XOR (push_bit 8 h' XOR ucast b'))"
    by (simp only: push_bit_xor ucast_xor8) (simp only: ac_simps)
  finally show ?thesis by (simp only: gf_rem_xor [OF p] poly_step_def push_or_xor)
qed

lemma poly_step_0 [simp]: "table_poly p \<Longrightarrow> poly_step p 0 0 = 0"
  by (simp add: poly_step_def table_poly_def)

lemma poly_step_deg: "table_poly p \<Longrightarrow> deg (poly_step p h b) < deg p"
  by (simp add: poly_step_def table_poly_def gf_rem_deg)

lemma poly_hash_deg: "table_poly p \<Longrightarrow> deg (poly_hash p bs) < deg p"
  by (cases bs rule: rev_cases) (auto simp: poly_step_deg, simp add: table_poly_def)

lemma poly_fold_xor:
  "table_poly p \<Longrightarrow> length xs = length ys \<Longrightarrow>
     foldl (poly_step p) (h XOR h') (map2 (XOR) xs ys) = foldl (poly_step p) h xs XOR foldl (poly_step p) h' ys"
proof (induction xs ys arbitrary: h h' rule: list_induct2')
  case (4 x xs y ys)
  then show ?case by (simp add: poly_step_xor)
qed auto

lemma poly_hash_leading_0: "table_poly p \<Longrightarrow> poly_hash p (0 # bs) = poly_hash p bs"
  by simp

lemma poly_hash_leading_zeros: "table_poly p \<Longrightarrow> poly_hash p (replicate n 0 @ bs) = poly_hash p bs"
  by (induction n) auto

text \<open>Removing the first byte of a string is adding the hash of that byte followed by zeros.\<close>

lemma poly_hash_drop_first:
  assumes "table_poly p"
  shows "poly_hash p (b # bs) XOR poly_hash p (b # replicate (length bs) 0) = poly_hash p bs"
proof -
  have z: "map2 (XOR) bs (replicate (length bs) 0) = bs"
    by (rule nth_equalityI) auto
  have "poly_hash p (b # bs) XOR poly_hash p (b # replicate (length bs) 0) =
      foldl (poly_step p) (0 XOR 0) (map2 (XOR) (b # bs) (b # replicate (length bs) 0))"
    by (rule poly_fold_xor [symmetric]) (use assms in auto)
  also have "\<dots> = poly_hash p bs" using assms by (simp add: z)
  finally show ?thesis .
qed

section \<open>The tables are right\<close>

lemma append_byte_rem: "p \<noteq> 0 \<Longrightarrow> append_byte h b p = Some (poly_step p h b)"
  by (simp add: append_byte_def poly_step_def gf_mod_rem)

lemma append_zeros_rem:
  "p \<noteq> 0 \<Longrightarrow> append_zeros n h p = Some (foldl (poly_step p) h (replicate n 0))"
  by (induction n arbitrary: h) (auto simp: append_byte_rem)

lemma out_entry_eq:
  "p \<noteq> 0 \<Longrightarrow> out_entry p b = Some (poly_hash p (of_nat b # replicate (WINSIZE - 1) 0))"
  by (simp add: out_entry_def append_byte_rem append_zeros_rem)

definition mod_value :: "u64 \<Rightarrow> nat \<Rightarrow> u64" where
  "mod_value p b = (let hi = push_bit (nat (deg p)) (of_nat b) in gf_rem p hi OR hi)"

lemma mod_entry_eq: "p \<noteq> 0 \<Longrightarrow> mod_entry p b = Some (mod_value p b)"
  by (simp add: mod_entry_def mod_value_def gf_mod_rem Let_def)

lemma those_Some: "those (map (\<lambda>x. Some (f x)) xs) = Some (map f xs)"
  by (induction xs) auto

lemma calc_tables_eq:
  assumes "p \<noteq> 0"
  shows "calc_tables p = Some (map (mod_value p) [0..<256],
    map (\<lambda>b. poly_hash p (of_nat b # replicate (WINSIZE - 1) 0)) [0..<256])"
  unfolding calc_tables_def out_entry_eq [OF assms] mod_entry_eq [OF assms] those_Some by simp

text \<open>\<open>good_tables\<close>: the pair is the one that \<open>calc_tables\<close> builds.\<close>

definition good_tables :: "u64 \<Rightarrow> u64 list \<times> u64 list \<Rightarrow> bool" where
  "good_tables p t \<longleftrightarrow> calc_tables p = Some t"

lemma good_tables_mod: "p \<noteq> 0 \<Longrightarrow> good_tables p t \<Longrightarrow> fst t ! unat (i :: u8) = mod_value p (unat i)"
  by (auto simp: good_tables_def calc_tables_eq)

lemma good_tables_out:
  "p \<noteq> 0 \<Longrightarrow> good_tables p t \<Longrightarrow> snd t ! unat (b :: u8) = poly_hash p (b # replicate (WINSIZE - 1) 0)"
  by (auto simp: good_tables_def calc_tables_eq)

lemma deg_less_bits: "deg x < deg p \<Longrightarrow> p \<noteq> 0 \<Longrightarrow> nat (deg p) \<le> j \<Longrightarrow> \<not> bit x j"
  using deg_less_iff [of x "nat (deg p)"] deg_top [of p] by auto

text \<open>One exclusive or with the table entry reduces an appended byte.\<close>

lemma table_append:
  assumes "table_poly p" "good_tables p t" "deg h < deg p"
  shows "(push_bit 8 h OR ucast (b :: u8)) XOR
    fst t ! unat (ucast (drop_bit (nat (deg p) - 8) h) :: u8) = poly_step p h b"
proof -
  let ?d = "nat (deg p)" and ?x = "push_bit 8 h OR ucast b :: u64"
  let ?i = "ucast (drop_bit (?d - 8) h) :: u8"
  let ?hi = "push_bit ?d (ucast ?i) :: u64"
  have p: "p \<noteq> 0" "8 \<le> ?d" "?d \<le> 56" using assms(1) by (auto simp: table_poly_def)
  have hb: "\<not> bit h j" if "?d \<le> j" for j using deg_less_bits [OF assms(3) p(1) that] .
  have hi: "bit ?hi j \<longleftrightarrow> ?d \<le> j \<and> j < 64 \<and> bit h (j - 8)" for j
  proof -
    have "j - ?d < 8" if "?d \<le> j" "bit h (j - 8)"
      using hb [of "j - 8"] that by (cases "j - 8 < ?d") auto
    then show ?thesis using p by (auto simp: bit_simps)
  qed
  have lowbits: "?x XOR ?hi = take_bit ?d ?x"
  proof (rule bit_word_eqI)
    fix j assume j: "j < LENGTH(64)"
    have "\<not> bit b j" if "?d \<le> j" using that p(2) bit_imp_le_length [of b j] by auto
    then show "bit (?x XOR ?hi) j = bit (take_bit ?d ?x) j"
      using j p hi [of j] by (auto simp: bit_simps)
  qed
  have "deg (take_bit ?d ?x) < int ?d" by (simp only: deg_less_iff) (simp add: bit_simps)
  then have low: "gf_rem p (take_bit ?d ?x) = take_bit ?d ?x"
    using deg_top [OF p(1)] by (intro gf_rem_small [OF p(1)]) (simp only: int_nat_eq if_True)
  have entry: "fst t ! unat ?i = gf_rem p ?hi XOR ?hi"
  proof -
    have "fst t ! unat ?i = gf_rem p ?hi OR ?hi"
      using good_tables_mod [OF p(1) assms(2), of ?i] by (simp add: mod_value_def Let_def)
    also have "\<dots> = gf_rem p ?hi XOR ?hi"
      using deg_less_bits [OF gf_rem_deg [OF p(1)] p(1)] hi
      by (intro bit_word_eqI) (auto simp only: bit_or_iff bit_xor_iff)
    finally show ?thesis .
  qed
  have "?x XOR fst t ! unat ?i = (?x XOR ?hi) XOR gf_rem p ?hi"
    by (simp only: entry) (simp only: ac_simps)
  also have "\<dots> = gf_rem p (take_bit ?d ?x) XOR gf_rem p ?hi" by (simp only: lowbits low)
  also have "\<dots> = gf_rem p (?x XOR ?hi) XOR gf_rem p ?hi" by (simp only: lowbits)
  also have "\<dots> = gf_rem p ((?x XOR ?hi) XOR ?hi)" by (simp only: gf_rem_xor [OF p(1)])
  also have "(?x XOR ?hi) XOR ?hi = ?x" by (simp only: xor.assoc xor_self_eq xor.right_neutral)
  also have "gf_rem p ?x = poly_step p h b" by (simp only: poly_step_def)
  finally show ?thesis .
qed

section \<open>The rolling hash\<close>

text \<open>The bytes of the window from the oldest to the newest.\<close>

definition roll_content :: "'a rabin_win_scheme \<Rightarrow> bytes" where
  "roll_content h = rotate (rw_wpos h) (rw_window h)"

definition roll_inv :: "u64 \<Rightarrow> 'a rabin_win_scheme \<Rightarrow> bool" where
  "roll_inv p h \<longleftrightarrow> length (rw_window h) = WINSIZE \<and> rw_wpos h < WINSIZE \<and>
     rw_digest h = poly_hash p (roll_content h)"

lemma rotate_slot:
  assumes "k < length xs"
  shows "rotate (Suc k mod length xs) (xs[k := b]) = tl (rotate k xs) @ [b] \<and> hd (rotate k xs) = xs ! k"
proof -
  have split: "xs = take k xs @ xs ! k # drop (Suc k) xs" using assms by (rule id_take_nth_drop)
  have upd: "xs[k := b] = take k xs @ b # drop (Suc k) xs" using assms by (rule upd_conv_take_nth_drop)
  have rot: "rotate k xs = xs ! k # drop (Suc k) xs @ take k xs"
    using assms by (simp add: rotate_drop_take Cons_nth_drop_Suc [symmetric])
  show ?thesis
  proof (cases "Suc k = length xs")
    case True
    with assms have "drop (Suc k) xs = []" by simp
    with rot upd True show ?thesis by simp
  next
    case False
    with assms have "Suc k < length xs" by simp
    then have "rotate (Suc k mod length xs) (xs[k := b]) = drop (Suc k) xs @ take (Suc k) (xs[k := b])"
      by (simp add: rotate_drop_take)
    also have "take (Suc k) (xs[k := b]) = take k xs @ [b]"
      using assms by (simp add: upd min_def)
    finally show ?thesis using rot by simp
  qed
qed

lemma rw_append_digest:
  assumes "table_poly p" "good_tables p t" "deg (rw_digest h) < deg p"
  shows "rw_append (fst t) (nat (deg p) - 8) b h = h\<lparr>rw_digest := poly_step p (rw_digest h) b\<rparr>"
  using table_append [OF assms(1,2,3), of b] by (simp add: rw_append_def Let_def)

text \<open>A slide drops the oldest byte of the window, adds the new one, and keeps the invariant.\<close>

lemma rw_slide_roll:
  assumes "table_poly p" "good_tables p t" "roll_inv p h"
  shows "roll_inv p (rw_slide t (nat (deg p) - 8) b h) \<and>
    roll_content (rw_slide t (nat (deg p) - 8) b h) = tl (roll_content h) @ [b]"
proof -
  let ?w = "rw_window h" and ?k = "rw_wpos h"
  have inv: "length ?w = WINSIZE" "?k < length ?w" "rw_digest h = poly_hash p (roll_content h)"
    using assms(3) by (auto simp: roll_inv_def)
  have p: "p \<noteq> 0" using assms(1) by (simp add: table_poly_def)
  let ?c = "roll_content h"
  have len: "length ?c = WINSIZE" by (simp add: roll_content_def inv)
  then have c: "?c = hd ?c # tl ?c" by (cases ?c) (auto simp: WINSIZE_def)
  have hd: "hd ?c = ?w ! ?k" and tl: "rotate (Suc ?k mod WINSIZE) (?w[?k := b]) = tl ?c @ [b]"
    using rotate_slot [OF inv(2), of b] by (auto simp: roll_content_def inv(1))
  have out: "snd t ! unat (?w ! ?k) = poly_hash p (hd ?c # replicate (length (tl ?c)) 0)"
    using good_tables_out [OF p assms(2), of "?w ! ?k"] hd len by simp
  have "rw_digest h XOR snd t ! unat (?w ! ?k) = poly_hash p (tl ?c)"
    using poly_hash_drop_first [OF assms(1), of "hd ?c" "tl ?c"] inv(3) c out by simp
  then have s: "rw_slide t (nat (deg p) - 8) b h =
      h\<lparr>rw_window := ?w[?k := b], rw_wpos := Suc ?k mod WINSIZE,
        rw_digest := poly_step p (poly_hash p (tl ?c)) b\<rparr>"
    using poly_hash_deg [OF assms(1), of "tl ?c"]
    by (simp add: rw_slide_def Let_def rw_append_digest [OF assms(1,2)])
  have "Suc ?k mod WINSIZE < WINSIZE" by (simp add: WINSIZE_def)
  with s tl inv(1) show ?thesis by (simp add: roll_inv_def roll_content_def)
qed

lemma rw_reset_roll:
  assumes "table_poly p" "good_tables p t"
  shows "roll_inv p (rw_reset t (nat (deg p) - 8) h) \<and>
    roll_content (rw_reset t (nat (deg p) - 8) h) = replicate (WINSIZE - 1) 0 @ [1]"
proof -
  let ?h = "h\<lparr>rw_window := replicate WINSIZE 0, rw_digest := 0, rw_wpos := 0\<rparr>"
  have c: "roll_content ?h = replicate WINSIZE 0" by (simp add: roll_content_def)
  have "roll_inv p ?h"
    using poly_hash_leading_zeros [OF assms(1), of WINSIZE "[]"] c
    by (simp add: roll_inv_def) (simp add: WINSIZE_def)
  from rw_slide_roll [OF assms this, of 1] c show ?thesis
    by (simp add: rw_reset_def WINSIZE_def)
qed

lemma tl_drop_snoc: "n < length ys \<Longrightarrow> tl (drop n ys) @ [b] = drop (Suc n) (ys @ [b])"
  by (simp add: drop_Suc tl_drop)

lemma rw_slides_roll:
  assumes "table_poly p" "good_tables p t" "roll_inv p h"
  shows "roll_inv p (foldl (\<lambda>h b. rw_slide t (nat (deg p) - 8) b h) h bs) \<and>
    roll_content (foldl (\<lambda>h b. rw_slide t (nat (deg p) - 8) b h) h bs) =
      drop (length bs) (roll_content h @ bs)"
proof (induction bs rule: rev_induct)
  case Nil
  then show ?case using assms(3) by simp
next
  case (snoc b bs)
  let ?h = "foldl (\<lambda>h b. rw_slide t (nat (deg p) - 8) b h) h bs"
  have l: "length (roll_content h) = WINSIZE" using assms(3) by (simp add: roll_inv_def roll_content_def)
  have "length bs < length (roll_content h @ bs)" by (simp add: l WINSIZE_def)
  from tl_drop_snoc [OF this, of b] snoc rw_slide_roll [OF assms(1,2), of ?h b] show ?case
    by (simp only: foldl_append foldl.simps length_append_singleton append_assoc)
qed

text \<open>The polynomial of the source.\<close>

definition rabin_pol :: u64 where
  "rabin_pol = 0x3DA3358B4DC173"

lemma rabin_pol_deg: "deg rabin_pol = 53"
proof -
  have "bit rabin_pol 53" by (simp add: rabin_pol_def)
  moreover have "take_bit 54 rabin_pol = rabin_pol" by (simp add: rabin_pol_def)
  then have "\<not> bit rabin_pol j" if "53 < j" for j
    using that bit_take_bit_iff [of 54 rabin_pol j] by simp
  ultimately show ?thesis using deg_eqI [of rabin_pol 53] by simp
qed

lemma rabin_pol_ok: "table_poly rabin_pol"
  by (simp add: table_poly_def rabin_pol_deg) (simp add: rabin_pol_def)

section \<open>Properties\<close>

definition rabin_ctx_ok :: "rabin_globals \<Rightarrow> rabin_t \<Rightarrow> bool" where
  "rabin_ctx_ok g h \<longleftrightarrow> rb_polynomial h = rabin_pol \<and> rb_shift h = 45 \<and>
     (tables_initialized g \<longrightarrow> good_tables rabin_pol (g_tables g))"

lemma rabin_init_ok:
  assumes "rabin_ctx_ok g h"
  shows "\<exists>g' h'. rabin_init g h = Some (g', h') \<and> tables_initialized g' \<and>
    good_tables rabin_pol (g_tables g') \<and> h' = rw_reset (g_tables g') 45 h"
proof -
  have p: "rabin_pol \<noteq> 0" using rabin_pol_ok by (simp add: table_poly_def)
  obtain t where t: "calc_tables rabin_pol = Some t" using calc_tables_eq [OF p] by blast
  with assms show ?thesis
    by (cases "tables_initialized g")
      (auto simp: rabin_init_def rabin_ctx_ok_def rabin_reset_def good_tables_def)
qed

lemma rw_frame [simp]:
  "rb_shift (rw_append m k b h) = rb_shift h" "rb_shift (rw_slide t k b h) = rb_shift h"
  "rb_shift (rw_reset t k h) = rb_shift h"
  by (simp_all add: rw_append_def rw_slide_def rw_reset_def Let_def)

lemma rabin_slides_rw:
  "foldl (\<lambda>h b. rabin_slide g b h) h bs = foldl (\<lambda>h b. rw_slide (g_tables g) (rb_shift h) b h) h bs"
  by (simp add: rabin_slide_def)

lemma rw_slides_shift:
  "foldl (\<lambda>h b. rw_slide t (rb_shift h) b h) h bs = foldl (\<lambda>h b. rw_slide t (rb_shift h0) b h) h bs"
  if "rb_shift h = rb_shift h0"
  using that by (induction bs arbitrary: h) auto

text \<open>C4: the fingerprint rolls: after \<open>rabin_init\<close> and any number of \<open>rabin_slide\<close>s, the table-driven
  digest is the reduction modulo the polynomial of the 48 bytes now in the window (the initial window is
  47 zeros and a one), so once 48 bytes have passed it depends on the last 48 bytes alone.\<close>

theorem rabin_rolling_window:
  assumes "rabin_ctx_ok g h"
  shows "\<exists>g' h'. rabin_init g h = Some (g', h') \<and>
    (\<forall>bs. rw_digest (foldl (\<lambda>h b. rabin_slide g' b h) h' bs) =
       poly_hash rabin_pol (drop (length bs) (replicate 47 0 @ [1] @ bs)))"
proof -
  from rabin_init_ok [OF assms] obtain g' h' where i: "rabin_init g h = Some (g', h')"
    and t: "good_tables rabin_pol (g_tables g')" and h': "h' = rw_reset (g_tables g') 45 h" by blast
  have sh: "rb_shift h' = 45" using h' assms by (simp add: rabin_ctx_ok_def)
  have d: "nat (deg rabin_pol) - 8 = 45" by (simp add: rabin_pol_deg)
  note r = rw_reset_roll [OF rabin_pol_ok t, of h, unfolded d]
  have "rw_digest (foldl (\<lambda>h b. rabin_slide g' b h) h' bs) =
      poly_hash rabin_pol (drop (length bs) (replicate 47 0 @ [1] @ bs))" for bs
  proof -
    have "foldl (\<lambda>h b. rabin_slide g' b h) h' bs = foldl (\<lambda>h b. rw_slide (g_tables g') 45 b h) h' bs"
      using rw_slides_shift [of h' h'] by (simp only: rabin_slides_rw sh)
    moreover have "roll_inv rabin_pol (foldl (\<lambda>h b. rw_slide (g_tables g') 45 b h) h' bs) \<and>
        roll_content (foldl (\<lambda>h b. rw_slide (g_tables g') 45 b h) h' bs) =
        drop (length bs) (replicate 47 0 @ [1] @ bs)"
      using rw_slides_roll [OF rabin_pol_ok t, of h', unfolded d, of bs] r h' by (simp add: WINSIZE_def)
    ultimately show ?thesis by (simp only: roll_inv_def)
  qed
  with i show ?thesis by blast
qed

theorem rabin_rolling_window_witness:
  "\<exists>g' h'. rabin_init rabin_globals_start (rabin_t_new [] 0 0) = Some (g', h') \<and>
    rw_digest (rabin_slide g' 2 h') = poly_hash rabin_pol (replicate 46 0 @ [1, 2])"
proof -
  have "rabin_ctx_ok rabin_globals_start (rabin_t_new [] 0 0)"
    by (simp add: rabin_ctx_ok_def rabin_globals_start_def rabin_t_new_def rabin_pol_def)
  from rabin_rolling_window [OF this] obtain g' h' where
    i: "rabin_init rabin_globals_start (rabin_t_new [] 0 0) = Some (g', h')" and
    d: "\<forall>bs. rw_digest (foldl (\<lambda>h b. rabin_slide g' b h) h' bs) =
       poly_hash rabin_pol (drop (length bs) (replicate 47 0 @ [1] @ bs))"
    by blast
  from d[rule_format, of "[2]"] i show ?thesis by (auto simp: eval_nat_numeral)
qed

text \<open>Bytes appended without a window (as the Finesse feature does): the digest is the remainder of
  the whole string after the initial one.\<close>

lemma rabin_appends_digest:
  assumes "good_tables rabin_pol (g_tables g)" "rb_shift h = 45" "deg (rw_digest h) < 53"
  shows "rw_digest (foldl (\<lambda>h b. rabin_append g b h) h bs) = foldl (poly_step rabin_pol) (rw_digest h) bs
    \<and> rb_shift (foldl (\<lambda>h b. rabin_append g b h) h bs) = 45
    \<and> deg (foldl (poly_step rabin_pol) (rw_digest h) bs) < 53"
  using assms
proof (induction bs rule: rev_induct)
  case (snoc b bs)
  let ?h = "foldl (\<lambda>h b. rabin_append g b h) h bs"
  have "deg (rw_digest ?h) < deg rabin_pol" using snoc by (simp add: rabin_pol_deg)
  from rw_append_digest [OF rabin_pol_ok assms(1) this, of b] snoc show ?case
    using poly_step_deg [OF rabin_pol_ok] by (simp add: rabin_append_def rabin_pol_deg)
qed simp

end
