(* ===== verification/RabinCDC.thy ===== *)
theory RabinCDC
  imports RabinRoll Chunk
begin

text \<open>
  The Rabin chunker (\<open>chunk/rabin_cdc.h\<close>, \<open>chunk/rabin_cdc.cpp\<close>). The class carries its own tables,
  built by its constructor with the same functions as \<open>utils/rabin.cpp\<close>, and its window (\<open>rabin_win\<close>).
  \<open>rc_scan\<close> is the loop of \<open>GetNextChunk\<close>; \<open>rc_cut\<close> is the specification of the cut on a byte list.
  The interpretation \<open>rc\<close> shows the class to be a source of chunks, but not a complete one: where the
  loop reaches the end of the file without a boundary the code returns a null pointer and the driver
  stops, so the rest of the file is lost (\<open>rabin_cdc_lost_tail\<close>).
\<close>

record rabin_cdc = rabin_win +
  rc_tables :: "u64 list \<times> u64 list"
  rc_file :: mapped_file
  rc_ptr :: "ptr option"
  rc_remaining :: nat
  rc_min :: nat
  rc_max :: nat
  rc_mask :: u64
  rc_next_id :: u32

text \<open>The constructor; the arrays and counters it leaves unset are its first arguments.\<close>

definition rabin_cdc_new ::
  "u8 list \<Rightarrow> nat \<Rightarrow> u64 \<Rightarrow> nat \<Rightarrow> nat \<Rightarrow> u64 \<Rightarrow> rabin_cdc option" where
  "rabin_cdc_new window0 wpos0 digest0 min_ck_sz max_ck_sz msk = do {
     tables \<leftarrow> calc_tables rabin_pol;
     Some \<lparr>rw_window = window0, rw_wpos = wpos0, rw_digest = digest0, rc_tables = tables,
       rc_file = mapped_file_default, rc_ptr = None, rc_remaining = 0, rc_min = min_ck_sz,
       rc_max = max_ck_sz, rc_mask = msk, rc_next_id = 0\<rparr>
   }"

definition cdc_append :: "u8 \<Rightarrow> rabin_cdc \<Rightarrow> rabin_cdc" where
  "cdc_append b s = rw_append (fst (rc_tables s)) 45 b s"

definition cdc_slide :: "u8 \<Rightarrow> rabin_cdc \<Rightarrow> rabin_cdc" where
  "cdc_slide b s = rw_slide (rc_tables s) 45 b s"

definition cdc_reset :: "rabin_cdc \<Rightarrow> rabin_cdc" where
  "cdc_reset s = rw_reset (rc_tables s) 45 s"

lemma cdc_frame [simp]:
  "rc_tables (cdc_slide b s) = rc_tables s" "rc_file (cdc_slide b s) = rc_file s"
  "rc_ptr (cdc_slide b s) = rc_ptr s" "rc_remaining (cdc_slide b s) = rc_remaining s"
  "rc_min (cdc_slide b s) = rc_min s" "rc_max (cdc_slide b s) = rc_max s"
  "rc_mask (cdc_slide b s) = rc_mask s" "rc_next_id (cdc_slide b s) = rc_next_id s"
  "rc_tables (cdc_reset s) = rc_tables s" "rc_file (cdc_reset s) = rc_file s"
  "rc_ptr (cdc_reset s) = rc_ptr s" "rc_remaining (cdc_reset s) = rc_remaining s"
  "rc_min (cdc_reset s) = rc_min s" "rc_max (cdc_reset s) = rc_max s"
  "rc_mask (cdc_reset s) = rc_mask s" "rc_next_id (cdc_reset s) = rc_next_id s"
  by (simp_all add: cdc_slide_def cdc_reset_def rw_slide_def rw_reset_def rw_append_def Let_def)

definition rabin_cdc_reinit ::
  "(nat \<Rightarrow> bool) \<Rightarrow> string \<Rightarrow> rabin_cdc \<Rightarrow> os_state \<Rightarrow> bool \<times> rabin_cdc \<times> os_state" where
  "rabin_cdc_reinit can_map file_name s0 w =
     (let s = cdc_reset s0 in
      case mapped_file_reopen can_map (rc_file s) file_name w of (file', w') \<Rightarrow>
        if \<not> map_success file' then (False, s\<lparr>rc_file := file'\<rparr>, w')
        else (True, s\<lparr>rc_file := file', rc_ptr := map_option (\<lambda>a. (a, 0)) (mf_addr file'),
                rc_remaining := mf_len file'\<rparr>, w'))"

function rc_scan :: "os_state \<Rightarrow> nat \<Rightarrow> rabin_cdc \<Rightarrow> (nat option \<times> rabin_cdc) option" where
  "rc_scan w chunk_size s =
     (if chunk_size \<le> rc_remaining s
      then (case rc_ptr s of
              None \<Rightarrow> None
            | Some p \<Rightarrow> (case os_at w p of
                None \<Rightarrow> None
              | Some b \<Rightarrow>
                  (let s1 = cdc_slide b (s\<lparr>rc_ptr := Some (ptr_incr p)\<rparr>)
                   in if (rc_min s1 \<le> chunk_size \<and> rw_digest s1 AND rc_mask s1 = 0)
                         \<or> rc_max s1 \<le> chunk_size
                      then Some (Some chunk_size, s1)
                      else rc_scan w (Suc chunk_size) s1)))
      else Some (None, s))"
  by pat_completeness auto
termination
  by (relation "measure (\<lambda>(w, c, s). Suc (rc_remaining s) - c)") auto

declare rc_scan.simps [simp del]

definition rabin_cdc_next :: "os_state \<Rightarrow> rabin_cdc \<Rightarrow> (chunk option \<times> rabin_cdc) option" where
  "rabin_cdc_next w s =
     (if rc_remaining s = 0 then Some (None, s)
      else if rc_remaining s \<le> rc_min s then
        (let chunk_size = rc_remaining s;
             (i, next') = get_next_chunk_id (rc_next_id s)
         in do {
           c \<leftarrow> from_memory_ref w (rc_ptr s) chunk_size i;
           Some (Some c, s\<lparr>rc_remaining := 0, rc_next_id := next'\<rparr>)
         })
      else do {
        read_start \<leftarrow> rc_ptr s;
        (found, s1) \<leftarrow> rc_scan w 1 s;
        (case found of
           None \<Rightarrow> Some (None, s1)
         | Some chunk_size \<Rightarrow>
             let s2 = cdc_reset s1;
                 (i, next') = get_next_chunk_id (rc_next_id s2)
             in do {
               c \<leftarrow> from_memory_ref w (Some read_start) chunk_size i;
               Some (Some c, s2\<lparr>rc_remaining := rc_remaining s2 - chunk_size, rc_next_id := next'\<rparr>)
             })
      })"

section \<open>The cut, on byte lists\<close>

text \<open>The fingerprint after the bytes \<open>bs\<close> of a chunk: of its last 48 bytes, behind the start
  window of 47 zeros and a one.\<close>

definition rc_hash :: "bytes \<Rightarrow> u64" where
  "rc_hash bs = poly_hash rabin_pol (drop (length bs) (replicate 47 0 @ [1] @ bs))"

definition rc_stops :: "nat \<Rightarrow> nat \<Rightarrow> u64 \<Rightarrow> bytes \<Rightarrow> nat \<Rightarrow> bool" where
  "rc_stops mn mx msk r k \<longleftrightarrow> (mn \<le> k \<and> rc_hash (take k r) AND msk = 0) \<or> mx \<le> k"

definition rc_cut :: "nat \<Rightarrow> nat \<Rightarrow> u64 \<Rightarrow> bytes \<Rightarrow> nat option" where
  "rc_cut mn mx msk r = (if length r \<le> mn then Some (length r)
     else find (rc_stops mn mx msk r) [1..<Suc (length r)])"

lemma find_upt_Some:
  "find P [m..<n] = Some k \<longleftrightarrow> m \<le> k \<and> k < n \<and> P k \<and> (\<forall>j. m \<le> j \<and> j < k \<longrightarrow> \<not> P j)"
  unfolding find_Some_iff
proof (intro iffI; elim exE conjE)
  fix i assume i: "i < length [m..<n]" "P ([m..<n] ! i)" "k = [m..<n] ! i"
    and first: "\<forall>j<i. \<not> P ([m..<n] ! j)"
  have "\<not> P j" if "m \<le> j" "j < k" for j
    using first[rule_format, of "j - m"] i that by (auto simp: nth_upt)
  with i show "m \<le> k \<and> k < n \<and> P k \<and> (\<forall>j. m \<le> j \<and> j < k \<longrightarrow> \<not> P j)" by auto
next
  assume "m \<le> k" "k < n" "P k" "\<forall>j. m \<le> j \<and> j < k \<longrightarrow> \<not> P j"
  then show "\<exists>i<length [m..<n]. P ([m..<n] ! i) \<and> k = [m..<n] ! i \<and> (\<forall>j<i. \<not> P ([m..<n] ! j))"
    by (intro exI [of _ "k - m"]) auto
qed

lemma rc_cut_bounds:
  assumes "rc_cut mn mx msk r = Some k" "r \<noteq> []"
  shows "0 < k" "k \<le> length r"
  using assms by (auto simp: rc_cut_def find_upt_Some simp del: upt_Suc split: if_splits)

text \<open>The pieces of a file, and the rest in which no position is a cut.\<close>

function rc_split :: "nat \<Rightarrow> nat \<Rightarrow> u64 \<Rightarrow> bytes \<Rightarrow> bytes list \<times> bytes" where
  "rc_split mn mx msk r =
     (if r = [] then ([], [])
      else case rc_cut mn mx msk r of
             None \<Rightarrow> ([], r)
           | Some n \<Rightarrow> (case rc_split mn mx msk (drop n r) of (ps, tail) \<Rightarrow> (take n r # ps, tail)))"
  by pat_completeness auto
termination
  by (relation "measure (\<lambda>(mn, mx, msk, r). length r)") (auto dest: rc_cut_bounds)

declare rc_split.simps [simp del]

lemma rc_cut_first:
  assumes "mn < length r" "rc_cut mn mx msk r = Some k"
  shows "1 \<le> k \<and> k \<le> length r \<and> rc_stops mn mx msk r k \<and> (\<forall>j. 1 \<le> j \<and> j < k \<longrightarrow> \<not> rc_stops mn mx msk r j)"
  using assms by (auto simp: rc_cut_def find_upt_Some simp del: upt_Suc split: if_splits)

lemma rc_split_cuts:
  assumes "rc_split mn mx msk r = (ps, tail)" "i < length ps"
  shows "let r' = drop (length (concat (take i ps))) r; n = length (ps ! i) in ps ! i = take n r' \<and> 1 \<le> n \<and>
    (if length r' \<le> mn then n = length r' else rc_stops mn mx msk r' n \<and> (\<forall>j. 1 \<le> j \<and> j < n \<longrightarrow> \<not> rc_stops mn mx msk r' j))"
  using assms
proof (induction mn mx msk r arbitrary: ps i rule: rc_split.induct)
  case (1 mn mx msk r)
  from "1.prems" obtain n qs where r: "r \<noteq> []" and n: "rc_cut mn mx msk r = Some n"
      and qs: "rc_split mn mx msk (drop n r) = (qs, tail)" "ps = take n r # qs"
    using rc_split.simps [of mn mx msk r] by (auto split: if_splits option.splits prod.splits)
  have b: "0 < n" "n \<le> length r" using rc_cut_bounds [OF n r] by auto
  show ?case
  proof (cases i)
    case 0
    have "n = length r" if "length r \<le> mn" using n that by (simp add: rc_cut_def)
    then show ?thesis using 0 qs(2) b rc_cut_first [OF _ n] by (auto simp: Let_def)
  next
    case (Suc k)
    have "drop (length (concat (take k qs))) (drop n r) = drop (length (concat (take i ps))) r"
      using Suc qs(2) b(2) by (simp add: add.commute)
    then show ?thesis using "1.IH" [OF r n qs(1), of k] "1.prems"(2) Suc qs(2) by simp
  qed
qed

section \<open>The loop computes the cut\<close>

definition rc_same :: "rabin_cdc \<Rightarrow> rabin_cdc \<Rightarrow> bool" where
  "rc_same s s' \<longleftrightarrow> rc_tables s' = rc_tables s \<and> rc_file s' = rc_file s \<and>
     rc_remaining s' = rc_remaining s \<and> rc_min s' = rc_min s \<and> rc_max s' = rc_max s \<and>
     rc_mask s' = rc_mask s \<and> rc_next_id s' = rc_next_id s"

lemma rabin_shift: "nat (deg rabin_pol) - 8 = 45"
  by (simp add: rabin_pol_deg)

lemma cdc_slide_roll:
  assumes "good_tables rabin_pol (rc_tables s)" "roll_inv rabin_pol s"
  shows "roll_inv rabin_pol (cdc_slide b s)" "roll_content (cdc_slide b s) = tl (roll_content s) @ [b]"
  using rw_slide_roll [OF rabin_pol_ok assms, of b] by (simp_all add: cdc_slide_def rabin_shift)

lemma cdc_reset_roll:
  assumes "good_tables rabin_pol (rc_tables s)"
  shows "roll_inv rabin_pol (cdc_reset s)" "roll_content (cdc_reset s) = replicate 47 0 @ [1]"
  using rw_reset_roll [OF rabin_pol_ok assms, of s]
  by (simp_all add: cdc_reset_def rabin_shift WINSIZE_def)

definition rc_reading :: "os_state \<Rightarrow> nat \<Rightarrow> nat \<Rightarrow> bytes \<Rightarrow> nat \<Rightarrow> rabin_cdc \<Rightarrow> bool" where
  "rc_reading w a k r n s \<longleftrightarrow> good_tables rabin_pol (rc_tables s) \<and> roll_inv rabin_pol s \<and>
     roll_content s = drop n (replicate 47 0 @ [1] @ take n r) \<and> rc_ptr s = Some (a, k + n) \<and>
     (\<exists>bs. os_maps w a = Some bs \<and> r = drop k bs) \<and> length r = rc_remaining s \<and> n \<le> length r"

lemma rc_reading_hash: "rc_reading w a k r n s \<Longrightarrow> rw_digest s = rc_hash (take n r)"
  by (auto simp: rc_reading_def roll_inv_def rc_hash_def min_def)

lemma rc_reading_step:
  assumes "rc_reading w a k r n s" "n < length r"
  defines "s1 \<equiv> cdc_slide (r ! n) (s\<lparr>rc_ptr := Some (a, k + Suc n)\<rparr>)"
  shows "rc_reading w a k r (Suc n) s1 \<and> rc_same s s1 \<and> os_at w (a, k + n) = Some (r ! n)"
proof -
  let ?s = "s\<lparr>rc_ptr := Some (a, k + Suc n)\<rparr>"
  have h: "good_tables rabin_pol (rc_tables ?s)" "roll_inv rabin_pol ?s"
    and c: "roll_content ?s = drop n (replicate 47 0 @ [1] @ take n r)"
    using assms(1) by (auto simp: rc_reading_def roll_inv_def roll_content_def)
  have "tl (drop n (replicate 47 0 @ [1] @ take n r)) @ [r ! n] =
      drop (Suc n) ((replicate 47 0 @ [1] @ take n r) @ [r ! n])"
    using assms(2) by (intro tl_drop_snoc) simp
  then have "roll_content s1 = drop (Suc n) (replicate 47 0 @ [1] @ take (Suc n) r)"
    using cdc_slide_roll(2) [OF h] c assms(2) by (simp only: s1_def take_Suc_conv_app_nth append_assoc)
  moreover have "os_at w (a, k + n) = Some (r ! n)"
    using assms(1,2) by (auto simp: rc_reading_def os_at_def)
  ultimately show ?thesis
    using assms(1,2) cdc_slide_roll(1) [OF h, of "r ! n"]
    by (auto simp: rc_reading_def rc_same_def s1_def)
qed

lemma rc_same_trans: "rc_same s s1 \<Longrightarrow> rc_same s1 s2 \<Longrightarrow> rc_same s s2"
  by (simp add: rc_same_def)

lemma rc_scan_eq:
  assumes "rc_reading w a k r n s"
  shows "\<exists>s'. rc_scan w (Suc n) s =
      Some (find (rc_stops (rc_min s) (rc_max s) (rc_mask s) r) [Suc n..<Suc (length r)], s') \<and>
    rc_same s s' \<and> rc_reading w a k r
      (case find (rc_stops (rc_min s) (rc_max s) (rc_mask s) r) [Suc n..<Suc (length r)] of
         None \<Rightarrow> length r | Some j \<Rightarrow> j) s'"
  using assms
proof (induction "length r - n" arbitrary: n s)
  case 0
  then have n: "n = length r" by (simp add: rc_reading_def)
  with 0 have "rc_scan w (Suc n) s = Some (None, s)"
    by (subst rc_scan.simps) (simp add: rc_reading_def)
  with 0 n show ?case by (intro exI [of _ s]) (simp add: rc_same_def)
next
  case (Suc m)
  let ?P = "rc_stops (rc_min s) (rc_max s) (rc_mask s) r"
  have n: "n < length r" using Suc.hyps(2) by simp
  define s1 where "s1 = cdc_slide (r ! n) (s\<lparr>rc_ptr := Some (a, k + Suc n)\<rparr>)"
  from rc_reading_step [OF Suc.prems n] have st: "rc_reading w a k r (Suc n) s1" "rc_same s s1"
    "os_at w (a, k + n) = Some (r ! n)" by (auto simp: s1_def)
  have len: "length r = rc_remaining s" "rc_ptr s = Some (a, k + n)"
    using Suc.prems by (auto simp: rc_reading_def)
  have stop: "(rc_min s1 \<le> Suc n \<and> rw_digest s1 AND rc_mask s1 = 0) \<or> rc_max s1 \<le> Suc n \<longleftrightarrow> ?P (Suc n)"
    using rc_reading_hash [OF st(1)] st(2) by (auto simp: rc_stops_def rc_same_def)
  have unf: "rc_scan w (Suc n) s = (if ?P (Suc n) then Some (Some (Suc n), s1) else rc_scan w (Suc (Suc n)) s1)"
  proof -
    have "rc_scan w (Suc n) s =
        (if (rc_min s1 \<le> Suc n \<and> rw_digest s1 AND rc_mask s1 = 0) \<or> rc_max s1 \<le> Suc n
         then Some (Some (Suc n), s1) else rc_scan w (Suc (Suc n)) s1)"
      using n len st(3) by (subst rc_scan.simps) (simp add: s1_def ptr_incr_def Let_def)
    then show ?thesis by (simp only: stop)
  qed
  have ups: "[Suc n..<Suc (length r)] = Suc n # [Suc (Suc n)..<Suc (length r)]"
    using n by (simp add: upt_conv_Cons del: upt_Suc)
  show ?case
  proof (cases "?P (Suc n)")
    case True
    with unf st ups show ?thesis by (intro exI [of _ s1]) simp
  next
    case False
    have P: "rc_stops (rc_min s1) (rc_max s1) (rc_mask s1) r = ?P"
      using st(2) by (simp add: rc_same_def)
    have "m = length r - Suc n" using Suc.hyps(2) by simp
    from Suc.hyps(1) [OF this st(1)] obtain s' where
      "rc_scan w (Suc (Suc n)) s1 = Some (find ?P [Suc (Suc n)..<Suc (length r)], s')" "rc_same s1 s'"
      "rc_reading w a k r (case find ?P [Suc (Suc n)..<Suc (length r)] of None \<Rightarrow> length r | Some j \<Rightarrow> j) s'"
      by (auto simp: P simp del: upt_Suc)
    with False unf ups rc_same_trans [OF st(2)] show ?thesis
      by (intro exI [of _ s']) (simp del: upt_Suc)
  qed
qed

section \<open>The class as a source of chunks\<close>

definition rc_rest :: "os_state \<Rightarrow> rabin_cdc \<Rightarrow> bytes" where
  "rc_rest w s = (if rc_remaining s = 0 then []
     else (case rc_ptr s of None \<Rightarrow> []
       | Some p \<Rightarrow> (case os_maps w (fst p) of None \<Rightarrow> [] | Some bs \<Rightarrow> drop (snd p) bs)))"

text \<open>The invariant at the start of a chunk: the window is freshly reset and the read pointer is
  inside a live mapping whose end is \<open>remaining_file_len\<close> bytes away.\<close>

definition rc_inv :: "os_state \<Rightarrow> rabin_cdc \<Rightarrow> bool" where
  "rc_inv w s \<longleftrightarrow> good_tables rabin_pol (rc_tables s) \<and> roll_inv rabin_pol s \<and>
     roll_content s = replicate 47 0 @ [1] \<and>
     (rc_remaining s = 0 \<or>
      (\<exists>a k bs. rc_ptr s = Some (a, k) \<and> os_maps w a = Some bs \<and> k + rc_remaining s = length bs \<and>
         length bs < 2 ^ 31))"

lemma rc_length_rest: "rc_inv w s \<Longrightarrow> length (rc_rest w s) = rc_remaining s"
  by (auto simp: rc_inv_def rc_rest_def)

lemma rc_inv_update:
  assumes "rc_inv w s"
  shows "rc_inv w (s\<lparr>rc_remaining := 0, rc_next_id := i\<rparr>)"
  using assms by (simp add: rc_inv_def roll_inv_def roll_content_def)

lemma rc_next_some:
  assumes inv: "rc_inv w s" and ne: "rc_rest w s \<noteq> []"
    and cut: "rc_cut (rc_min s) (rc_max s) (rc_mask s) (rc_rest w s) = Some n"
  shows "\<exists>s'. rabin_cdc_next w s = Some (Some (make_chunk (take n (rc_rest w s)) False n (rc_next_id s)), s')
    \<and> rc_inv w s' \<and> rc_rest w s' = drop n (rc_rest w s) \<and> rc_next_id s' = rc_next_id s + 1
    \<and> rc_min s' = rc_min s \<and> rc_max s' = rc_max s \<and> rc_mask s' = rc_mask s \<and> rc_file s' = rc_file s"
proof -
  let ?r = "rc_rest w s" and ?rem = "rc_remaining s"
  have lenr: "length ?r = ?rem" by (rule rc_length_rest [OF inv])
  with ne have rem: "?rem \<noteq> 0" by (metis length_0_conv)
  from inv rem obtain a k bs where p: "rc_ptr s = Some (a, k)" and m: "os_maps w a = Some bs"
    and len: "k + ?rem = length bs" "length bs < 2 ^ 31"
    by (auto simp: rc_inv_def)
  have r: "?r = drop k bs" using p m rem by (simp add: rc_rest_def)
  show ?thesis
  proof (cases "?rem \<le> rc_min s")
    case True
    then have n: "n = ?rem" using cut lenr by (simp add: rc_cut_def)
    have "rabin_cdc_next w s = Some (Some (make_chunk (drop k bs) False ?rem (rc_next_id s)),
        s\<lparr>rc_remaining := 0, rc_next_id := rc_next_id s + 1\<rparr>)"
      using True rem p m len
      by (simp add: rabin_cdc_next_def get_next_chunk_id_def from_memory_ref_def os_region_def)
    with n r lenr rc_inv_update [OF inv] show ?thesis by (simp add: rc_rest_def)
  next
    case False
    let ?find = "find (rc_stops (rc_min s) (rc_max s) (rc_mask s) ?r) [Suc 0..<Suc (length ?r)]"
    have fnd: "?find = Some n" using cut False lenr by (simp add: rc_cut_def del: upt_Suc)
    have n: "0 < n" "n \<le> ?rem" using rc_cut_bounds [OF cut ne] lenr by auto
    have "rc_reading w a k ?r 0 s"
      using inv p m r lenr by (auto simp: rc_reading_def rc_inv_def)
    from rc_scan_eq [OF this] obtain s1 where
      sc: "rc_scan w (Suc 0) s = Some (Some n, s1)" and same: "rc_same s s1"
      and rd: "rc_reading w a k ?r n s1"
      unfolding fnd by auto
    let ?s' = "(cdc_reset s1)\<lparr>rc_remaining := ?rem - n, rc_next_id := rc_next_id s + 1\<rparr>"
    have ref: "from_memory_ref w (Some (a, k)) n (rc_next_id s) =
        Some (make_chunk (take n ?r) False n (rc_next_id s))"
      using m n len r by (simp add: from_memory_ref_def os_region_def)
    have nx: "rabin_cdc_next w s = Some (Some (make_chunk (take n ?r) False n (rc_next_id s)), ?s')"
      using False rem p sc same ref
      by (simp add: rabin_cdc_next_def get_next_chunk_id_def Let_def rc_same_def)
    have t: "good_tables rabin_pol (rc_tables s1)" using rd by (simp add: rc_reading_def)
    have "rc_inv w ?s'"
      using cdc_reset_roll [OF t] t rd m len n
      by (auto simp: rc_inv_def roll_inv_def roll_content_def rc_reading_def)
    moreover have "rc_rest w ?s' = drop n ?r"
      using rd m n len r by (auto simp: rc_rest_def rc_reading_def add.commute)
    ultimately show ?thesis using nx same by (simp add: rc_same_def)
  qed
qed

lemma rc_next_none:
  assumes inv: "rc_inv w s" and ne: "rc_rest w s \<noteq> []"
    and cut: "rc_cut (rc_min s) (rc_max s) (rc_mask s) (rc_rest w s) = None"
  shows "\<exists>s' a bs. rabin_cdc_next w s = Some (None, s') \<and> rc_same s s' \<and>
    rc_ptr s' = Some (a, length bs) \<and> os_maps w a = Some bs \<and> fst (the (rc_ptr s)) = a \<and>
    good_tables rabin_pol (rc_tables s')"
proof -
  let ?r = "rc_rest w s" and ?rem = "rc_remaining s"
  have lenr: "length ?r = ?rem" by (rule rc_length_rest [OF inv])
  with ne have rem: "?rem \<noteq> 0" by (metis length_0_conv)
  from inv rem obtain a k bs where p: "rc_ptr s = Some (a, k)" and m: "os_maps w a = Some bs"
    and len: "k + ?rem = length bs" "length bs < 2 ^ 31"
    by (auto simp: rc_inv_def)
  have r: "?r = drop k bs" using p m rem by (simp add: rc_rest_def)
  have big: "\<not> ?rem \<le> rc_min s" using cut lenr by (auto simp: rc_cut_def split: if_splits)
  have fnd: "find (rc_stops (rc_min s) (rc_max s) (rc_mask s) ?r) [Suc 0..<Suc (length ?r)] = None"
    using cut big lenr by (simp add: rc_cut_def del: upt_Suc)
  have "rc_reading w a k ?r 0 s"
    using inv p m r lenr by (auto simp: rc_reading_def rc_inv_def)
  from rc_scan_eq [OF this] obtain s1 where
    sc: "rc_scan w (Suc 0) s = Some (None, s1)" and same: "rc_same s s1"
    and rd: "rc_reading w a k ?r (length ?r) s1"
    unfolding fnd by auto
  have "rabin_cdc_next w s = Some (None, s1)"
    using big rem p sc by (simp add: rabin_cdc_next_def)
  moreover have "rc_ptr s1 = Some (a, length bs)" using rd lenr len by (simp add: rc_reading_def)
  moreover have "good_tables rabin_pol (rc_tables s1)" using rd by (simp add: rc_reading_def)
  ultimately show ?thesis using same m p
    by (intro exI [of _ s1] exI [of _ a] exI [of _ bs]) simp
qed

lemma rc_next_cases [consumes 2, case_names stop lost piece]:
  assumes "rc_inv w s" "rabin_cdc_next w s = Some (x, s')"
  obtains "x = None" "s' = s" "rc_rest w s = []"
  | "x = None" "rc_rest w s \<noteq> []" "rc_cut (rc_min s) (rc_max s) (rc_mask s) (rc_rest w s) = None"
  | n where "rc_rest w s \<noteq> []" "rc_cut (rc_min s) (rc_max s) (rc_mask s) (rc_rest w s) = Some n"
      "x = Some (make_chunk (take n (rc_rest w s)) False n (rc_next_id s))"
      "rc_rest w s' = drop n (rc_rest w s)" "rc_inv w s'" "rc_next_id s' = rc_next_id s + 1"
      "rc_min s' = rc_min s" "rc_max s' = rc_max s" "rc_mask s' = rc_mask s"
proof (cases "rc_rest w s = []")
  case True
  then have "rc_remaining s = 0" using rc_length_rest [OF assms(1)] by simp
  with assms(2) True that(1) show ?thesis by (simp add: rabin_cdc_next_def)
next
  case False
  show ?thesis
  proof (cases "rc_cut (rc_min s) (rc_max s) (rc_mask s) (rc_rest w s)")
    case None
    with rc_next_none [OF assms(1) False None] assms(2) that(2) False show ?thesis by auto
  next
    case (Some n)
    from rc_next_some [OF assms(1) False Some] assms(2) that(3) [OF False Some] show ?thesis by auto
  qed
qed

lemma rc_chunk_source: "chunk_source (rabin_cdc_next w) (rc_rest w) rc_next_id (rc_inv w)"
proof (unfold_locales, goal_cases)
  case (1 s)
  show ?case
  proof (cases "rc_rest w s = []")
    case True
    then have "rc_remaining s = 0" using rc_length_rest [OF 1] by simp
    then show ?thesis by (simp add: rabin_cdc_next_def)
  next
    case False
    then show ?thesis
      using rc_next_none [OF 1 False] rc_next_some [OF 1 False]
      by (cases "rc_cut (rc_min s) (rc_max s) (rc_mask s) (rc_rest w s)") auto
  qed
next
  case (2 s c s')
  then show ?case by (cases rule: rc_next_cases) auto
next
  case (3 s c s')
  then show ?case by (cases rule: rc_next_cases) (auto dest: rc_cut_bounds)
next
  case (4 s c s')
  then show ?case
  proof (cases rule: rc_next_cases)
    case (piece n)
    have "length (rc_rest w s) < 2 ^ 31"
      using 4(1) rc_length_rest [OF 4(1)] by (auto simp: rc_inv_def)
    with rc_cut_bounds [OF piece(2,1)] piece(3) show ?thesis by (simp add: ck_wf_def)
  qed auto
next
  case (5 s c s')
  then show ?case by (cases rule: rc_next_cases) auto
qed

interpretation rc: chunk_source "rabin_cdc_next w" "rc_rest w" rc_next_id "rc_inv w" for w
  by (rule rc_chunk_source)

lemma rabin_cdc_new_tables:
  "rabin_cdc_new win0 wpos0 d0 mn mx msk = Some s \<Longrightarrow>
     good_tables rabin_pol (rc_tables s) \<and> rc_file s = mapped_file_default \<and> rc_remaining s = 0 \<and>
     rc_min s = mn \<and> rc_max s = mx \<and> rc_mask s = msk \<and> rc_next_id s = 0"
  by (auto simp: rabin_cdc_new_def good_tables_def split: Option.bind_splits)

lemma rabin_cdc_new_returns: "\<exists>s. rabin_cdc_new win0 wpos0 d0 mn mx msk = Some s"
  using calc_tables_eq [of rabin_pol] rabin_pol_ok by (simp add: rabin_cdc_new_def table_poly_def)

lemma rc_reinit_inv:
  assumes "rabin_cdc_reinit can_map name s w = (True, s', w')" "owns (rc_file s) w"
    "good_tables rabin_pol (rc_tables s)" "os_files w name = Some bs" "length bs < 2 ^ 31"
  shows "rc_inv w' s' \<and> rc_rest w' s' = bs \<and> rc_next_id s' = rc_next_id s \<and> owns (rc_file s') w'
    \<and> rc_min s' = rc_min s \<and> rc_max s' = rc_max s \<and> rc_mask s' = rc_mask s \<and> os_files w' = os_files w"
proof -
  obtain f' w1 where r: "mapped_file_reopen can_map (rc_file s) name w = (f', w1)" by fastforce
  with reopen_owns [OF assms(2), where can_map = can_map and name = name] assms(1,4) obtain a where
    f: "mf_addr f' = Some a" "os_maps w1 a = Some bs" "mf_len f' = length bs" "map_success f'"
    "owns f' w1" "os_files w1 = os_files w"
    by (auto simp: rabin_cdc_reinit_def Let_def split: if_splits)
  let ?s = "(cdc_reset s)\<lparr>rc_file := f', rc_ptr := Some (a, 0), rc_remaining := length bs\<rparr>"
  have s': "s' = ?s" "w' = w1" using r f assms(1) by (auto simp: rabin_cdc_reinit_def Let_def)
  have "rc_inv w1 ?s"
    using cdc_reset_roll [OF assms(3)] assms(3,5) f
    by (simp add: rc_inv_def roll_inv_def roll_content_def)
  moreover have "bs \<noteq> []" using f by (auto simp: map_success_def)
  ultimately show ?thesis using s' f by (simp add: rc_rest_def)
qed

section \<open>Properties\<close>

definition rabin_cdc_chunks :: "os_state \<Rightarrow> rabin_cdc \<Rightarrow> (chunk list \<times> rabin_cdc) option" where
  "rabin_cdc_chunks w s = drain (rabin_cdc_next w) (Suc (rc_remaining s)) s"

lemma rc_drain_tail:
  assumes "rc_inv w s" "length (rc_rest w s) < fuel"
  shows "\<exists>cs s' tail. drain (rabin_cdc_next w) fuel s = Some (cs, s') \<and>
    rc_split (rc_min s) (rc_max s) (rc_mask s) (rc_rest w s) = (map ck_buf cs, tail) \<and>
    concat (map ck_buf cs) @ tail = rc_rest w s \<and> map ck_id cs = ids_from (rc_next_id s) (length cs) \<and>
    (tail \<noteq> [] \<longrightarrow> rc_cut (rc_min s) (rc_max s) (rc_mask s) tail = None)"
  using assms
proof (induction fuel arbitrary: s)
  case (Suc fuel)
  obtain x s1 where nx: "rabin_cdc_next w s = Some (x, s1)" using rc.no_fault [OF Suc.prems(1)] by auto
  from Suc.prems(1) nx show ?case
  proof (cases rule: rc_next_cases)
    case stop
    with nx show ?thesis by (intro exI [of _ "[]"] exI [of _ s1] exI [of _ "[]"]) (simp add: rc_split.simps [of _ _ _ "[]"])
  next
    case lost
    with nx show ?thesis
      by (intro exI [of _ "[]"] exI [of _ s1] exI [of _ "rc_rest w s"]) (simp add: rc_split.simps [of _ _ _ "rc_rest w s"])
  next
    case (piece n)
    have "length (rc_rest w s1) < fuel"
      using rc_cut_bounds [OF piece(2,1)] piece(4) Suc.prems(2) by simp
    from Suc.IH [OF piece(5) this] obtain cs s' tail where
      d: "drain (rabin_cdc_next w) fuel s1 = Some (cs, s')" "concat (map ck_buf cs) @ tail = rc_rest w s1"
        "rc_split (rc_min s) (rc_max s) (rc_mask s) (drop n (rc_rest w s)) = (map ck_buf cs, tail)"
        "map ck_id cs = ids_from (rc_next_id s1) (length cs)"
        "tail \<noteq> [] \<longrightarrow> rc_cut (rc_min s) (rc_max s) (rc_mask s) tail = None"
      using piece by auto
    let ?c = "make_chunk (take n (rc_rest w s)) False n (rc_next_id s)"
    have "drain (rabin_cdc_next w) (Suc fuel) s = Some (?c # cs, s')" using nx piece d by simp
    moreover have "concat (map ck_buf (?c # cs)) @ tail = rc_rest w s" using d piece(4) by simp
    moreover have "map ck_id (?c # cs) = ids_from (rc_next_id s) (length (?c # cs))"
      using d piece by (simp add: ids_from_Suc)
    moreover have "rc_split (rc_min s) (rc_max s) (rc_mask s) (rc_rest w s) = (map ck_buf (?c # cs), tail)"
      by (subst rc_split.simps) (simp add: piece(1,2) d(3))
    ultimately show ?thesis using d(5) by blast
  qed
qed simp

lemma rc_cut_None_bounds:
  assumes "rc_cut mn mx msk r = None" "r \<noteq> []"
  shows "mn < length r \<and> length r < mx \<and> (\<forall>k. 1 \<le> k \<and> k \<le> length r \<and> mn \<le> k \<longrightarrow> rc_hash (take k r) AND msk \<noteq> 0)"
proof -
  have mn: "mn < length r" using assms(1) by (auto simp: rc_cut_def split: if_splits)
  have "\<forall>x \<in> set [1..<Suc (length r)]. \<not> rc_stops mn mx msk r x"
    using assms(1) mn by (simp add: rc_cut_def find_None_iff del: upt_Suc)
  then have st: "\<not> rc_stops mn mx msk r k" if "1 \<le> k" "k \<le> length r" for k
    using that by auto
  have "1 \<le> length r" using assms(2) by (cases r) auto
  with st [of "length r"] have "length r < mx" by (auto simp: rc_stops_def)
  with mn st show ?thesis by (auto simp: rc_stops_def)
qed

text \<open>C5: the Rabin chunker cuts where the hash of the window says: the driver's loop returns, and for
  the \<open>i\<close>-th chunk, with \<open>r\<close> the bytes of the file from it on, the chunk is \<open>r\<close> if \<open>r\<close> is not longer than
  the minimum; otherwise its length is the first position at which either the minimum is reached and the
  polynomial residue of the last 48 bytes has no masked bit, or the maximum is reached. The ids are
  consecutive, and the chunks cover the file except a tail longer than the minimum that has no such
  position.\<close>

theorem rabin_cdc_pieces:
  assumes "owns (rc_file s) w" "good_tables rabin_pol (rc_tables s)" "os_files w name = Some content"
    and "length content < 2 ^ 31" "rabin_cdc_reinit can_map name s w = (True, s1, w1)"
  shows "\<exists>cs s2 tail. rabin_cdc_chunks w1 s1 = Some (cs, s2) \<and> concat (map ck_buf cs) @ tail = content
    \<and> map ck_id cs = ids_from (rc_next_id s) (length cs)
    \<and> (\<forall>i < length cs. let r = drop (length (concat (map ck_buf (take i cs)))) content; n = length (ck_buf (cs ! i));
          stop = (\<lambda>k. rc_min s \<le> k \<and> rc_hash (take k r) AND rc_mask s = 0 \<or> rc_max s \<le> k) in
        ck_buf (cs ! i) = take n r \<and> 1 \<le> n \<and>
        (if length r \<le> rc_min s then n = length r else stop n \<and> (\<forall>j. 1 \<le> j \<and> j < n \<longrightarrow> \<not> stop j)))
    \<and> (tail = [] \<or> rc_min s < length tail \<and> length tail < rc_max s \<and>
        (\<forall>k. 1 \<le> k \<and> k \<le> length tail \<and> rc_min s \<le> k \<longrightarrow> rc_hash (take k tail) AND rc_mask s \<noteq> 0))"
proof -
  note i = rc_reinit_inv [OF assms(5,1-4)]
  then have "length (rc_rest w1 s1) < Suc (rc_remaining s1)" using rc_length_rest [of w1 s1] by simp
  from rc_drain_tail [OF conjunct1 [OF i] this] obtain cs s2 tail where
    cs: "rabin_cdc_chunks w1 s1 = Some (cs, s2)" "concat (map ck_buf cs) @ tail = content"
    "map ck_id cs = ids_from (rc_next_id s) (length cs)" "rc_split (rc_min s) (rc_max s) (rc_mask s) content = (map ck_buf cs, tail)"
    "tail \<noteq> [] \<longrightarrow> rc_cut (rc_min s) (rc_max s) (rc_mask s) tail = None"
    using i by (auto simp: rabin_cdc_chunks_def)
  moreover have "\<forall>i < length cs. let r = drop (length (concat (map ck_buf (take i cs)))) content; n = length (ck_buf (cs ! i));
          stop = (\<lambda>k. rc_min s \<le> k \<and> rc_hash (take k r) AND rc_mask s = 0 \<or> rc_max s \<le> k) in
        ck_buf (cs ! i) = take n r \<and> 1 \<le> n \<and>
        (if length r \<le> rc_min s then n = length r else stop n \<and> (\<forall>j. 1 \<le> j \<and> j < n \<longrightarrow> \<not> stop j))"
    (is "\<forall>i < length cs. ?P i")
  proof (intro allI impI)
    fix i assume "i < length cs"
    then have "i < length (map ck_buf cs)" "map ck_buf cs ! i = ck_buf (cs ! i)" by simp_all
    then show "?P i" using rc_split_cuts [OF cs(4), of i] unfolding take_map Let_def rc_stops_def by metis
  qed
  moreover have "tail = [] \<or> rc_min s < length tail \<and> length tail < rc_max s \<and>
        (\<forall>k. 1 \<le> k \<and> k \<le> length tail \<and> rc_min s \<le> k \<longrightarrow> rc_hash (take k tail) AND rc_mask s \<noteq> 0)"
    using cs(5) rc_cut_None_bounds by blast
  ultimately show ?thesis by blast
qed

text \<open>C6: the Rabin chunker silently loses data: where the rest of the file is longer than the minimum
  and has no boundary up to its end, \<open>GetNextChunk\<close> returns the null pointer that means end of file
  although bytes remain; none of them is emitted.\<close>

theorem rabin_cdc_lost_tail:
  assumes "rc_inv w s" "rc_min s < length (rc_rest w s)" "length (rc_rest w s) < rc_max s"
    and "\<forall>k. 1 \<le> k \<and> k \<le> length (rc_rest w s) \<and> rc_min s \<le> k \<longrightarrow>
      rc_hash (take k (rc_rest w s)) AND rc_mask s \<noteq> 0"
  shows "\<exists>s'. rabin_cdc_next w s = Some (None, s') \<and> rc_remaining s' = length (rc_rest w s) \<and>
    rabin_cdc_chunks w s = Some ([], s')"
proof -
  have ne: "rc_rest w s \<noteq> []" using assms(2) by auto
  have "\<forall>x \<in> set [1..<Suc (length (rc_rest w s))].
      \<not> rc_stops (rc_min s) (rc_max s) (rc_mask s) (rc_rest w s) x"
    using assms(3,4) by (auto simp: rc_stops_def simp del: upt_Suc)
  then have "rc_cut (rc_min s) (rc_max s) (rc_mask s) (rc_rest w s) = None"
    using assms(2) by (simp add: rc_cut_def find_None_iff del: upt_Suc)
  from rc_next_none [OF assms(1) ne this] rc_length_rest [OF assms(1)] show ?thesis
    by (auto simp: rc_same_def rabin_cdc_chunks_def)
qed

text \<open>C7: after a chunker was left inside a file, opening a file that cannot be opened makes it read memory
  that is no longer mapped. From any state in which bytes remain and the read pointer is in the mapping
  \<open>a\<close> the object owns (C6 gives such a state: the driver stops there), \<open>ReinitWithFile\<close> returns false,
  which the driver ignores; the old read pointer and length are still in place, the mapping they point to
  is gone, and the next \<open>GetNextChunk\<close> faults. Where the pointer was at a byte of the file, the call
  returned before the mapping was removed.\<close>

theorem rabin_cdc_use_after_unmap:
  assumes "owns (rc_file s) w" "rc_ptr s = Some (a, k)" "os_maps w a = Some bs" "0 < rc_remaining s"
    and "os_files w name = None"
  shows "\<exists>s2 w2. rabin_cdc_reinit can_map name s w = (False, s2, w2) \<and> rc_ptr s2 = Some (a, k) \<and>
    rc_remaining s2 = rc_remaining s \<and> os_maps w2 a = None \<and> os_at w2 (a, k) = None \<and>
    rabin_cdc_next w2 s2 = None \<and> (rc_inv w s \<longrightarrow> rabin_cdc_next w s \<noteq> None \<and> os_at w (a, k) \<noteq> None)"
proof -
  let ?f = "\<lparr>mf_addr = None, mf_len = 0, mf_name = ''''\<rparr>"
  let ?w = "os_munmap (mf_addr (rc_file s)) w" and ?s = "(cdc_reset s)\<lparr>rc_file := ?f\<rparr>"
  have r: "rabin_cdc_reinit can_map name s w = (False, ?s, ?w)"
    using reopen_missing [OF assms(5)] by (simp add: rabin_cdc_reinit_def Let_def map_success_def)
  have maps: "os_maps ?w = Map.empty" by (rule owns_munmap [OF assms(1)])
  have "rc_scan ?w 1 ?s = None"
    using assms(2,4) maps by (subst rc_scan.simps) (simp add: os_at_def)
  then have "rabin_cdc_next ?w ?s = None"
    using assms(2,4) maps by (simp add: rabin_cdc_next_def Let_def get_next_chunk_id_def from_memory_ref_def os_region_def)
  moreover have "rabin_cdc_next w s \<noteq> None \<and> os_at w (a, k) \<noteq> None" if "rc_inv w s"
    using rc.no_fault [OF that] that assms(2-4) by (auto simp: rc_inv_def os_at_def fetch_def)
  ultimately show ?thesis using r maps assms(2) by (intro exI [of _ ?s] exI [of _ ?w]) (simp add: os_at_def)
qed

section \<open>Witnesses\<close>

text \<open>A file of two bytes with minimum 1, maximum 3 and mask 1: its fingerprints are odd, so no
  position is a boundary.\<close>

lemma deg_take_bit: "take_bit n x = x \<Longrightarrow> deg x < int n"
  by (subst deg_less_iff) (metis bit_take_bit_iff not_le)

lemma poly_step_small:
  assumes "take_bit 53 (push_bit 8 h OR ucast b) = (push_bit 8 h OR ucast b :: u64)"
  shows "poly_step rabin_pol h b = push_bit 8 h OR ucast b"
  using deg_take_bit [OF assms] rabin_pol_ok
  by (simp add: poly_step_def gf_rem_small rabin_pol_deg table_poly_def)

lemma demo_hash: "rc_hash [1] = 257" "rc_hash [1, 1] = 65793"
proof -
  have 1: "poly_step rabin_pol 0 1 = 1" "poly_step rabin_pol 1 1 = 257" "poly_step rabin_pol 257 1 = 65793"
    by (subst poly_step_small; simp)+
  have d: "drop (Suc 0) (replicate 47 0 @ [1, 1]) = replicate 46 0 @ [1, 1 :: u8]"
    "drop (Suc (Suc 0)) (replicate 47 0 @ [1, 1, 1]) = replicate 45 0 @ [1, 1, 1 :: u8]"
    by (simp_all add: eval_nat_numeral)
  show "rc_hash [1] = 257" "rc_hash [1, 1] = 65793"
    using poly_hash_leading_zeros [OF rabin_pol_ok, of 46 "[1, 1]"]
      poly_hash_leading_zeros [OF rabin_pol_ok, of 45 "[1, 1, 1]"]
    by (simp_all add: rc_hash_def d 1 del: foldl_append drop_append)
qed

definition demo_rabin_os :: os_state where
  "demo_rabin_os = \<lparr>os_files = [''f'' \<mapsto> [1, 1]], os_maps = Map.empty, os_next = 0, os_fds = 0\<rparr>"

lemma demo_rabin_open:
  obtains s s1 w1 where "rabin_cdc_new [] 0 0 1 3 1 = Some s" "good_tables rabin_pol (rc_tables s)"
    "owns (rc_file s) demo_rabin_os" "rc_next_id s = 0"
    "rabin_cdc_reinit (\<lambda>n. 0 < n) ''f'' s demo_rabin_os = (True, s1, w1)"
    "rc_inv w1 s1" "rc_rest w1 s1 = [1, 1]" "owns (rc_file s1) w1" "rc_min s1 = 1" "rc_max s1 = 3"
    "rc_mask s1 = 1" "os_files w1 ''g'' = None"
proof -
  obtain s where s: "rabin_cdc_new [] 0 0 1 3 1 = Some s" using rabin_cdc_new_returns by blast
  note n = rabin_cdc_new_tables [OF s]
  have o: "owns (rc_file s) demo_rabin_os" using n by (simp add: owns_default demo_rabin_os_def)
  obtain s1 w1 where r: "rabin_cdc_reinit (\<lambda>n. 0 < n) ''f'' s demo_rabin_os = (True, s1, w1)"
    using n by (auto simp: rabin_cdc_reinit_def mapped_file_reopen_def mapped_file_open_def
        demo_rabin_os_def mapped_file_default_def mapped_file_move_assign_def os_munmap_def
        mapped_file_dtor_def map_success_def Let_def)
  have t: "good_tables rabin_pol (rc_tables s)" using n by blast
  have f: "os_files demo_rabin_os ''f'' = Some [1, 1]" by (simp add: demo_rabin_os_def)
  from rc_reinit_inv [OF r o t f] n that [OF s t o _ r] show ?thesis
    by (simp add: demo_rabin_os_def)
qed

lemma demo_rabin_cut: "rc_cut 1 3 1 [1, 1] = None"
  by (simp add: rc_cut_def find_None_iff rc_stops_def demo_hash take_Cons' upt_rec)

theorem rabin_cdc_pieces_witness:
  "\<exists>s s1 w1 cs s2 tail. rabin_cdc_new [] 0 0 1 3 1 = Some s \<and>
    rabin_cdc_reinit (\<lambda>n. 0 < n) ''f'' s demo_rabin_os = (True, s1, w1) \<and>
    rabin_cdc_chunks w1 s1 = Some (cs, s2) \<and> concat (map ck_buf cs) @ tail = [1, 1]"
proof -
  obtain s s1 w1 where s: "rabin_cdc_new [] 0 0 1 3 1 = Some s" "good_tables rabin_pol (rc_tables s)"
    "owns (rc_file s) demo_rabin_os"
    "rabin_cdc_reinit (\<lambda>n. 0 < n) ''f'' s demo_rabin_os = (True, s1, w1)"
    using demo_rabin_open by metis
  have f: "os_files demo_rabin_os ''f'' = Some [1, 1]" by (simp add: demo_rabin_os_def)
  have l: "length [1, 1 :: u8] < 2 ^ 31" by simp
  obtain cs s2 tail where "rabin_cdc_chunks w1 s1 = Some (cs, s2)" "concat (map ck_buf cs) @ tail = [1, 1]"
    using rabin_cdc_pieces [OF s(3,2) f l s(4)] by blast
  with s(1,4) show ?thesis by blast
qed

theorem rabin_cdc_lost_tail_witness:
  "\<exists>w s s'. rc_rest w s = [1, 1] \<and> rabin_cdc_chunks w s = Some ([], s') \<and> rc_remaining s' = 2"
proof -
  obtain s w where s: "rc_inv w s" "rc_rest w s = [1, 1]" "rc_min s = 1" "rc_max s = 3" "rc_mask s = 1"
    using demo_rabin_open by metis
  have "\<forall>k. 1 \<le> k \<and> k \<le> length (rc_rest w s) \<and> rc_min s \<le> k \<longrightarrow>
      rc_hash (take k (rc_rest w s)) AND rc_mask s \<noteq> 0"
    using rc_cut_None_bounds [OF demo_rabin_cut] by (simp add: s)
  from rabin_cdc_lost_tail [OF s(1) _ _ this] s obtain s' where
    "rabin_cdc_chunks w s = Some ([], s')" "rc_remaining s' = 2" by auto
  with s(2) show ?thesis by blast
qed

theorem rabin_cdc_use_after_unmap_witness:
  "\<exists>w s s1 s2 w2. rc_rest w s = [1, 1] \<and> rabin_cdc_next w s = Some (None, s1) \<and>
     rabin_cdc_reinit (\<lambda>n. 0 < n) ''g'' s1 w = (False, s2, w2) \<and> os_maps w2 (fst (the (rc_ptr s2))) = None \<and>
     rabin_cdc_next w2 s2 = None"
proof -
  obtain s w where s: "rc_inv w s" "rc_rest w s = [1, 1]" "owns (rc_file s) w"
    "rc_min s = 1" "rc_max s = 3" "rc_mask s = 1" "os_files w ''g'' = None"
    using demo_rabin_open by metis
  have c: "rc_cut (rc_min s) (rc_max s) (rc_mask s) (rc_rest w s) = None"
    by (simp only: s demo_rabin_cut)
  have ne: "rc_rest w s \<noteq> []" by (simp add: s)
  from rc_next_none [OF s(1) ne c] obtain s1 a and bs :: bytes where n: "rabin_cdc_next w s = Some (None, s1)"
    and p: "rc_same s s1" "rc_ptr s1 = Some (a, length bs)" "os_maps w a = Some bs" by blast
  have "0 < rc_remaining s1" using p(1) rc_length_rest [OF s(1)] s(2) by (simp add: rc_same_def)
  moreover have "owns (rc_file s1) w" using p(1) s(3) by (simp add: rc_same_def)
  ultimately obtain s2 w2 where "rabin_cdc_reinit (\<lambda>n. 0 < n) ''g'' s1 w = (False, s2, w2)" "rc_ptr s2 = Some (a, length bs)"
      "os_maps w2 a = None" "rabin_cdc_next w2 s2 = None"
    using rabin_cdc_use_after_unmap [OF _ p(2,3) _ s(7)] by blast
  with n s(2) show ?thesis by (metis fst_conv option.sel)
qed

end
