(* ===== verification/UMap.thy ===== *)
theory UMap
  imports Prelude "HOL-Library.Multiset"
begin

text \<open>
  \<open>std::unordered_map\<close> as the list of its entries in iteration order. The standard leaves the order
  open, so the place where a new entry lands, and any reordering by a rehash, is the parameter
  \<open>place\<close>: it must keep the entries and add the new one (\<open>placement\<close>). An assignment to a key that
  is present changes the value in its place. Keys are compared with \<open>eq\<close>: \<open>(=)\<close> for integers, the
  float comparison for floats.
\<close>

type_synonym ('k, 'v) umap = "('k \<times> 'v) list"
type_synonym ('k, 'v) placer = "'k \<times> 'v \<Rightarrow> ('k, 'v) umap \<Rightarrow> ('k, 'v) umap"

definition placement :: "('k, 'v) placer \<Rightarrow> bool" where
  "placement place \<longleftrightarrow> (\<forall>kv m. mset (place kv m) = add_mset kv (mset m))"

definition um_get :: "('k \<Rightarrow> 'k \<Rightarrow> bool) \<Rightarrow> ('k, 'v) umap \<Rightarrow> 'k \<Rightarrow> 'v option" where
  "um_get eq m k = map_option snd (find (\<lambda>(k', v). eq k' k) m)"

definition um_set :: "('k \<Rightarrow> 'k \<Rightarrow> bool) \<Rightarrow> ('k, 'v) placer \<Rightarrow> 'k \<Rightarrow> 'v \<Rightarrow> ('k, 'v) umap \<Rightarrow> ('k, 'v) umap" where
  "um_set eq place k v m =
     (if list_ex (\<lambda>(k', v'). eq k' k) m
      then map (\<lambda>(k', v'). if eq k' k then (k', v) else (k', v')) m
      else place (k, v) m)"

lemma placement_set: "placement place \<Longrightarrow> set (place kv m) = insert kv (set m)"
  unfolding placement_def by (metis set_mset_add_mset_insert set_mset_mset)

lemma placement_cons: "placement (#)"
  by (simp add: placement_def)

lemma placement_snoc: "placement (\<lambda>kv m. m @ [kv])"
  by (simp add: placement_def)

lemma um_get_map_of: "um_get (=) m k = map_of m k"
  by (induction m) (auto simp: um_get_def)

lemma um_set_fst:
  assumes "placement place"
  shows "mset (map fst (um_set eq place k v m)) =
    (if list_ex (\<lambda>(k', v'). eq k' k) m then mset (map fst m) else add_mset k (mset (map fst m)))"
proof -
  have "map fst (map (\<lambda>(k', v'). if eq k' k then (k', v) else (k', v')) m) = map fst m"
    by (induction m) auto
  moreover have "mset (map fst (place (k, v) m)) = add_mset k (mset (map fst m))"
    using assms by (simp add: placement_def)
  ultimately show ?thesis by (simp add: um_set_def del: map_map mset_map)
qed

lemma um_set_distinct:
  assumes "placement place" "distinct (map fst m)"
  shows "distinct (map fst (um_set (=) place k v m))"
proof (cases "list_ex (\<lambda>(k', v'). k' = k) m")
  case True
  with um_set_fst [OF assms(1), of "(=)" k v m] assms(2) show ?thesis
    by (simp del: mset_map) (metis mset_eq_imp_distinct_iff)
next
  case False
  then have "k \<notin> set (map fst m)" by (auto simp: list_ex_iff)
  then have "distinct (k # map fst m)" using assms(2) by simp
  moreover have "mset (map fst (um_set (=) place k v m)) = mset (k # map fst m)"
    using um_set_fst [OF assms(1), of "(=)" k v m] False by (simp del: mset_map)
  ultimately show ?thesis by (metis mset_eq_imp_distinct_iff)
qed

lemma um_set_map_of:
  assumes "placement place" "distinct (map fst m)"
  shows "map_of (um_set (=) place k v m) = (map_of m)(k \<mapsto> v)"
proof (cases "list_ex (\<lambda>(k', v'). k' = k) m")
  case True
  then have "k \<in> fst ` set m" by (auto simp: list_ex_iff image_iff Bex_def)
  then have "map_of (map (\<lambda>(k', v'). if k' = k then (k', v) else (k', v')) m) = (map_of m)(k \<mapsto> v)"
  proof (induction m)
    case (Cons p m)
    show ?case
    proof (cases "k \<in> fst ` set m")
      case True
      with Cons show ?thesis by (auto simp: fun_eq_iff split: prod.splits)
    next
      case False
      have "map (\<lambda>(k', v'). if k' = k then (k', v) else (k', v')) m = m"
        using False by (intro map_idI) (auto simp: image_iff)
      with False Cons.prems show ?thesis by (auto simp: fun_eq_iff split: prod.splits)
    qed
  qed simp
  with True show ?thesis by (simp add: um_set_def)
next
  case False
  have d: "distinct (map fst (um_set (=) place k v m))" by (rule um_set_distinct [OF assms])
  have n: "distinct (map fst ((k, v) # m))" using False assms(2) by (auto simp: list_ex_iff)
  have "set (um_set (=) place k v m) = set ((k, v) # m)"
    using False placement_set [OF assms(1)] by (simp add: um_set_def)
  then have "map_of (um_set (=) place k v m) = map_of ((k, v) # m)"
    using map_of_inject_set [OF d n] by simp
  then show ?thesis by simp
qed

lemma um_set_values: "placement place \<Longrightarrow> snd ` set (um_set eq place k v m) \<subseteq> insert v (snd ` set m)"
  using placement_set [of place "(k, v)" m] by (auto simp: um_set_def split: if_splits)

lemma um_get_value: "um_get eq m k = Some v \<Longrightarrow> v \<in> snd ` set m"
  by (auto simp: um_get_def find_Some_iff image_iff) (metis nth_mem prod.collapse snd_conv)

end
