(* ===== verification/Index.thy ===== *)
theory Index
  imports UMap
begin

text \<open>
  The interface \<open>index/index.h\<close> between the drivers and the similarity indexes, and what the drivers
  do with it: look a chunk's feature up, and when nothing matches add the feature under the chunk's
  id (\<open>match_step\<close>; \<open>match_all\<close> for a run). The locale \<open>similarity_index\<close> states what they rely on:
  on features of the expected shape neither operation fails, a match is the id of a feature added
  before, and a feature just added is matched. The lemma proved inside says that every chunk of a
  run that is matched is matched to an earlier chunk that was not, so a delta never refers to
  another delta, and that repeating a chunk's feature at once always finds a base.
\<close>

definition match_step ::
  "('i \<Rightarrow> 'f \<Rightarrow> cpp_error + u32 option) \<Rightarrow> ('i \<Rightarrow> 'f \<Rightarrow> u32 \<Rightarrow> cpp_error + 'i) \<Rightarrow> 'i \<Rightarrow> 'f \<Rightarrow> u32
    \<Rightarrow> cpp_error + u32 option \<times> 'i" where
  "match_step get add idx f cid =
     (case get idx f of
        Inl e \<Rightarrow> Inl e
      | Inr (Some b) \<Rightarrow> Inr (Some b, idx)
      | Inr None \<Rightarrow> (case add idx f cid of Inl e \<Rightarrow> Inl e | Inr idx' \<Rightarrow> Inr (None, idx')))"

fun match_all ::
  "('i \<Rightarrow> 'f \<Rightarrow> cpp_error + u32 option) \<Rightarrow> ('i \<Rightarrow> 'f \<Rightarrow> u32 \<Rightarrow> cpp_error + 'i) \<Rightarrow> 'i \<Rightarrow> ('f \<times> u32) list
    \<Rightarrow> cpp_error + u32 option list \<times> 'i" where
  "match_all get add idx [] = Inr ([], idx)"
| "match_all get add idx ((f, cid) # fs) =
     (case match_step get add idx f cid of
        Inl e \<Rightarrow> Inl e
      | Inr (b, idx') \<Rightarrow>
          (case match_all get add idx' fs of Inl e \<Rightarrow> Inl e | Inr (bs, idx'') \<Rightarrow> Inr (b # bs, idx'')))"

text \<open>The ids of the chunks of a run that became bases.\<close>

definition base_ids :: "('f \<times> u32) list \<Rightarrow> u32 option list \<Rightarrow> u32 list" where
  "base_ids fs bs = map (\<lambda>(fc, b). snd fc) (filter (\<lambda>(fc, b). b = None) (zip fs bs))"

locale similarity_index =
  fixes get :: "'i \<Rightarrow> 'f \<Rightarrow> cpp_error + u32 option"
    and add :: "'i \<Rightarrow> 'f \<Rightarrow> u32 \<Rightarrow> cpp_error + 'i"
    and inv :: "'i \<Rightarrow> bool"
    and shape :: "'f \<Rightarrow> bool"
    and ids :: "'i \<Rightarrow> u32 set"
  assumes get_total: "inv i \<Longrightarrow> shape f \<Longrightarrow> \<exists>r. get i f = Inr r"
    and add_total: "inv i \<Longrightarrow> shape f \<Longrightarrow> \<exists>i'. add i f c = Inr i' \<and> inv i' \<and> ids i' \<subseteq> insert c (ids i)"
    and get_sound: "inv i \<Longrightarrow> shape f \<Longrightarrow> get i f = Inr (Some b) \<Longrightarrow> b \<in> ids i"
    and get_added: "inv i \<Longrightarrow> shape f \<Longrightarrow> add i f c = Inr i' \<Longrightarrow> get i f = Inr None \<Longrightarrow> get i' f \<noteq> Inr None"
begin

lemma step_cases:
  assumes "inv i" "shape f"
  obtains b where "match_step get add i f c = Inr (Some b, i)" "b \<in> ids i"
  | i' where "match_step get add i f c = Inr (None, i')" "inv i'" "ids i' \<subseteq> insert c (ids i)"
      "get i' f \<noteq> Inr None"
proof -
  obtain r where r: "get i f = Inr r" using get_total [OF assms] by blast
  show thesis
  proof (cases r)
    case None
    obtain i' where a: "add i f c = Inr i'" "inv i'" "ids i' \<subseteq> insert c (ids i)"
      using add_total [OF assms] by blast
    from get_added [OF assms a(1)] r None have "get i' f \<noteq> Inr None" by simp
    then show thesis using that(2) a r None by (simp add: match_step_def)
  next
    case (Some b)
    then show thesis using that(1) [of b] r get_sound [OF assms, of b] by (simp add: match_step_def)
  qed
qed

lemma match_all_bases:
  assumes "inv i" "\<forall>(f, c) \<in> set fs. shape f"
  shows "\<exists>bs i'. match_all get add i fs = Inr (bs, i') \<and> length bs = length fs \<and> inv i' \<and>
    ids i' \<subseteq> ids i \<union> set (base_ids fs bs) \<and>
    (\<forall>n b. n < length fs \<longrightarrow> bs ! n = Some b \<longrightarrow>
       b \<in> ids i \<or> (\<exists>k < n. snd (fs ! k) = b \<and> bs ! k = None))"
  using assms
proof (induction fs arbitrary: i)
  case Nil
  then show ?case by simp
next
  case (Cons fc fs)
  obtain f c where fc: "fc = (f, c)" by (cases fc)
  have sh: "shape f" and rest: "\<forall>(f, c) \<in> set fs. shape f" using Cons.prems(2) fc by auto
  have lift: ?case
    if st: "match_step get add i f c = Inr (b0, i1)" and i1: "inv i1"
      and idl: "ids i1 \<subseteq> ids i \<union> (if b0 = None then {c} else {})"
      and b0: "\<And>b. b0 = Some b \<Longrightarrow> b \<in> ids i" for b0 i1
  proof -
    from Cons.IH [OF i1 rest] obtain bs i' where r: "match_all get add i1 fs = Inr (bs, i')"
      and l: "length bs = length fs" "inv i'" and idm: "ids i' \<subseteq> ids i1 \<union> set (base_ids fs bs)"
      and b: "\<And>n b. n < length fs \<Longrightarrow> bs ! n = Some b \<Longrightarrow>
        b \<in> ids i1 \<or> (\<exists>k < n. snd (fs ! k) = b \<and> bs ! k = None)" by blast
    have "ids i' \<subseteq> ids i \<union> set (base_ids (fc # fs) (b0 # bs))"
      using idm idl by (auto simp: base_ids_def fc split: if_splits)
    moreover have "b \<in> ids i \<or> (\<exists>k < n. snd ((fc # fs) ! k) = b \<and> (b0 # bs) ! k = None)"
      if n: "n < length (fc # fs)" "(b0 # bs) ! n = Some b" for n b
    proof (cases n)
      case 0
      then show ?thesis using n b0 by simp
    next
      case (Suc m)
      then consider "b \<in> ids i1" | k where "k < m" "snd (fs ! k) = b" "bs ! k = None"
        using n b [of m b] by auto
      then show ?thesis
      proof cases
        case 1
        then consider "b \<in> ids i" | "b0 = None" "b = c" using idl by (auto split: if_splits)
        then show ?thesis
        proof cases
          case 2
          then show ?thesis using Suc fc by (intro disjI2 exI [of _ 0]) simp
        qed simp
      next
        case 2
        then show ?thesis using Suc by (intro disjI2 exI [of _ "Suc k"]) simp
      qed
    qed
    ultimately show ?thesis using r l st fc by (intro exI [of _ "b0 # bs"] exI [of _ i']) simp
  qed
  from Cons.prems(1) sh show ?case
  proof (cases rule: step_cases [of i f c])
    case (1 b)
    then show ?thesis using lift [of "Some b" i] Cons.prems(1) by auto
  next
    case (2 i')
    then show ?thesis using lift [of None i'] by auto
  qed
qed

lemma repeat_matched:
  assumes "inv i" "shape f" "match_step get add i f c = Inr (None, i')"
  shows "\<exists>b. match_step get add i' f c' = Inr (Some b, i')"
  using assms(1,2)
proof (cases rule: step_cases [of i f c])
  case (2 j)
  then have j: "inv i'" "get i' f \<noteq> Inr None" using assms(3) by auto
  obtain r where "get i' f = Inr r" using get_total [OF j(1) assms(2)] by blast
  then show ?thesis using j by (cases r) (auto simp: match_step_def)
qed (use assms(3) in simp)

end

end
