(* ===== verification/Sha1.thy ===== *)
theory Sha1
  imports Prelude
begin

text \<open>
  SHA-1 as \<open>utils/sha1.h\<close> and \<open>utils/sha1.cpp\<close> compute it. The code keeps the message schedule in a
  block of sixteen words that it updates in place (\<open>sha_blk0\<close>, \<open>sha_blk\<close>), reads words in the machine's
  little-endian order and swaps them, streams the data through a 64-byte buffer (\<open>SHA1Update\<close>) and
  pads with a loop (\<open>SHA1Final\<close>). The specification is the standard: \<open>fips_compress\<close> with an 80-word
  schedule over big-endian words, and \<open>fips_sha1\<close> over the padded message cut into blocks.
  \<open>SHA1Update\<close> is modelled for \<open>len < 2^32 - 64\<close>, where the \<open>uint32_t\<close> index of its loop does not wrap;
  the program calls it with one byte and with eight.
\<close>

type_synonym chain5 = "u32 \<times> u32 \<times> u32 \<times> u32 \<times> u32"

section \<open>The block transform\<close>

definition sha_rol :: "u32 \<Rightarrow> nat \<Rightarrow> u32" where
  "sha_rol v n = push_bit n v OR drop_bit (32 - n) v"

definition sha_blk0 :: "nat \<Rightarrow> u32 list \<Rightarrow> u32 \<times> u32 list" where
  "sha_blk0 i l =
     (let v = (sha_rol (l ! i) 24 AND 0xFF00FF00) OR (sha_rol (l ! i) 8 AND 0x00FF00FF)
      in (v, l[i := v]))"

definition sha_blk :: "nat \<Rightarrow> u32 list \<Rightarrow> u32 \<times> u32 list" where
  "sha_blk i l =
     (let v = sha_rol (l ! ((i + 13) mod 16) XOR l ! ((i + 8) mod 16)
                       XOR l ! ((i + 2) mod 16) XOR l ! (i mod 16)) 1
      in (v, l[i mod 16 := v]))"

definition sha_f :: "nat \<Rightarrow> u32 \<Rightarrow> u32 \<Rightarrow> u32 \<Rightarrow> u32" where
  "sha_f i w x y =
     (if i < 20 then (w AND (x XOR y)) XOR y
      else if i < 40 then w XOR x XOR y
      else if i < 60 then ((w OR x) AND y) OR (w AND x)
      else w XOR x XOR y)"

definition sha_k :: "nat \<Rightarrow> u32" where
  "sha_k i = (if i < 20 then 0x5A827999 else if i < 40 then 0x6ED9EBA1
     else if i < 60 then 0x8F1BBCDC else 0xCA62C1D6)"

text \<open>One of the macros \<open>R0\<close> to \<open>R4\<close>; the five variables are passed in the rotated order of the
  unrolled code.\<close>

fun sha_round :: "chain5 \<times> u32 list \<Rightarrow> nat \<Rightarrow> chain5 \<times> u32 list" where
  "sha_round ((v, w, x, y, z), l) i =
     (let (b, l') = (if i < 16 then sha_blk0 i l else sha_blk i l);
          z' = z + (sha_f i w x y + b + sha_k i + sha_rol v 5)
      in ((z', v, sha_rol w 30, x, y), l'))"

fun chain_add :: "chain5 \<Rightarrow> chain5 \<Rightarrow> chain5" where
  "chain_add (a, b, c, d, e) (a', b', c', d', e') = (a + a', b + b', c + c', d + d', e + e')"

definition block_words :: "bytes \<Rightarrow> u32 list" where
  "block_words buf = map (\<lambda>i. image_word (take 4 (drop (4 * i) buf))) [0..<16]"

definition SHA1Transform :: "chain5 \<Rightarrow> bytes \<Rightarrow> chain5" where
  "SHA1Transform state buf =
     chain_add state (fst (foldl sha_round (state, block_words buf) [0..<80]))"

section \<open>The context\<close>

record sha1_ctx =
  sc_state :: chain5
  sc_count :: "u32 \<times> u32"
  sc_buffer :: bytes

definition SHA1Init :: "bytes \<Rightarrow> sha1_ctx" where
  "SHA1Init buf = \<lparr>sc_state = (0x67452301, 0xEFCDAB89, 0x98BADCFE, 0x10325476, 0xC3D2E1F0),
     sc_count = (0, 0), sc_buffer = buf\<rparr>"

definition splice :: "bytes \<Rightarrow> nat \<Rightarrow> bytes \<Rightarrow> bytes" where
  "splice buf j d = take j buf @ d @ drop (j + length d) buf"

function sha_loop :: "chain5 \<Rightarrow> bytes \<Rightarrow> nat \<Rightarrow> chain5 \<times> nat" where
  "sha_loop st data i =
     (if i + 63 < length data then sha_loop (SHA1Transform st (take 64 (drop i data))) data (i + 64)
      else (st, i))"
  by pat_completeness auto
termination
  by (relation "measure (\<lambda>(st, data, i). length data - i)") auto

declare sha_loop.simps [simp del]

definition SHA1Update :: "bytes \<Rightarrow> sha1_ctx \<Rightarrow> sha1_ctx" where
  "SHA1Update data c =
     (let len = (of_nat (length data) :: u32);
          j0 = fst (sc_count c);
          c0 = j0 + push_bit 3 len;
          c1 = (if c0 < j0 then snd (sc_count c) + 1 else snd (sc_count c)) + drop_bit 29 len;
          j = unat (drop_bit 3 j0 AND 63);
          (st, buf, jj, i) =
            (if 63 < j + length data
             then (let i = 64 - j;
                       buf = splice (sc_buffer c) j (take i data);
                       st = SHA1Transform (sc_state c) buf;
                       (st', i') = sha_loop st data i
                   in (st', buf, 0, i'))
             else (sc_state c, sc_buffer c, j, 0))
      in \<lparr>sc_state = st, sc_count = (c0, c1), sc_buffer = splice buf jj (drop i data)\<rparr>)"

definition be_bytes32 :: "u32 \<Rightarrow> bytes" where
  "be_bytes32 v = map (\<lambda>i. ucast (drop_bit ((3 - i) * 8) v AND 255)) [0..<4]"

lemma push_bit_3: "push_bit 3 (x :: u32) = 8 * x"
  by (simp add: push_bit_eq_mult)

lemma count_step: "fst (sc_count (SHA1Update [b] c)) = fst (sc_count c) + 8"
  by (simp add: SHA1Update_def Let_def push_bit_3 split: prod.splits)

text \<open>The padding loop of \<open>SHA1Final\<close>: zero bytes until the bit count is 448 modulo 512.\<close>

function sha_pad :: "sha1_ctx \<Rightarrow> sha1_ctx" where
  "sha_pad c = (if fst (sc_count c) AND 504 \<noteq> 448 then sha_pad (SHA1Update [0] c) else c)"
  by pat_completeness auto

lemma and_504: "unat (c AND 504 :: u32) = 8 * (unat c div 8 mod 64)"
proof -
  have m: "(504 :: u32) = push_bit 3 (mask 6)" by (simp add: mask_eq_exp_minus_1)
  have t: "take_bit 32 (unat c) = unat c"
    using unsigned_less [of c] by (simp add: take_bit_nat_eq_self_iff)
  have e: "c AND 504 = push_bit 3 (take_bit 6 (drop_bit 3 c))"
    unfolding m by (rule bit_word_eqI) (auto simp: bit_simps)
  have "unat (c AND 504) = take_bit 32 (push_bit 3 (take_bit 6 (drop_bit 3 (unat c))))"
    unfolding e by (simp add: unsigned_push_bit_eq unsigned_take_bit_eq unsigned_drop_bit_eq t)
  also have "\<dots> = 8 * (unat c div 8 mod 64) mod 2 ^ 32"
    by (simp add: take_bit_eq_mod push_bit_eq_mult drop_bit_eq_div mult.commute)
  also have "\<dots> = 8 * (unat c div 8 mod 64)"
  proof (rule mod_less)
    have "8 * (unat c div 8 mod 64) < 8 * 64" by (rule mult_strict_left_mono) simp_all
    then show "8 * (unat c div 8 mod 64) < (2 :: nat) ^ 32" by (rule less_trans) simp
  qed
  finally show ?thesis .
qed

lemma byte_index_step: "unat (c + 8 :: u32) div 8 mod 64 = (unat c div 8 mod 64 + 1) mod 64"
proof -
  have "unat (c + 8) = (unat c + 8) mod (8 * 2 ^ 29)" by (simp add: unat_word_ariths)
  then have "unat (c + 8) div 8 = (unat c + 8) div 8 mod 2 ^ 29"
    by (simp only: mod_mult2_eq)
  also have "\<dots> mod 64 = (unat c + 8) div 8 mod 64"
    by (rule mod_mod_cancel) (simp add: dvd_def)
  also have "\<dots> = (unat c div 8 + 1) mod 64" by simp
  finally show ?thesis by (simp add: mod_Suc_eq)
qed

definition pad_left :: "nat \<Rightarrow> nat" where
  "pad_left q = (if q \<le> 56 then 56 - q else 120 - q)"

lemma pad_left_step: "q \<noteq> 56 \<Longrightarrow> q < 64 \<Longrightarrow> pad_left q = Suc (pad_left ((q + 1) mod 64))"
  by (cases "q = 63") (auto simp: pad_left_def)

lemma and_504_neq: "c AND 504 \<noteq> (448 :: u32) \<longleftrightarrow> unat c div 8 mod 64 \<noteq> 56"
proof -
  have "unat (448 :: u32) = 8 * 56" by simp
  then have "c AND 504 = 448 \<longleftrightarrow> 8 * (unat c div 8 mod 64) = 8 * 56"
    unfolding word_unat_eq_iff and_504 by simp
  then show ?thesis by simp
qed

termination sha_pad
proof (relation "measure (\<lambda>c. pad_left (unat (fst (sc_count c)) div 8 mod 64))", simp)
  fix c :: sha1_ctx
  assume h: "fst (sc_count c) AND 504 \<noteq> 448"
  then show "(SHA1Update [0] c, c) \<in> measure (\<lambda>c. pad_left (unat (fst (sc_count c)) div 8 mod 64))"
    using pad_left_step [of "unat (fst (sc_count c)) div 8 mod 64"]
    by (simp add: count_step byte_index_step and_504_neq)
qed

declare sha_pad.simps [simp del]

definition SHA1Final :: "sha1_ctx \<Rightarrow> bytes" where
  "SHA1Final c =
     (let finalcount = be_bytes32 (snd (sc_count c)) @ be_bytes32 (fst (sc_count c));
          c1 = SHA1Update [0x80] c;
          c2 = sha_pad c1;
          c3 = SHA1Update finalcount c2
      in (case sc_state c3 of (s0, s1, s2, s3, s4) \<Rightarrow> concat (map be_bytes32 [s0, s1, s2, s3, s4])))"

text \<open>\<open>sha1_hash\<close> feeds the bytes one at a time; \<open>buf\<close> is the uninitialised buffer of the context on
  the stack. Its index is an \<open>unsigned int\<close> compared with a \<open>uint64_t\<close> length: from \<open>2^32\<close> bytes on the
  index wraps and the loop never ends, which is \<open>None\<close>.\<close>

definition sha1_hash :: "bytes \<Rightarrow> bytes \<Rightarrow> bytes option" where
  "sha1_hash buf data =
     (if length data < 2 ^ 32
      then Some (SHA1Final (foldl (\<lambda>c b. SHA1Update [b] c) (SHA1Init buf) data)) else None)"

section \<open>The standard\<close>

definition be_word :: "bytes \<Rightarrow> u32" where
  "be_word bs = image_word (rev bs)"

fun fips_W :: "u32 list \<Rightarrow> nat \<Rightarrow> u32" where
  "fips_W m t = (if t < 16 then m ! t
     else word_rotl 1 (fips_W m (t - 3) XOR fips_W m (t - 8) XOR fips_W m (t - 14) XOR fips_W m (t - 16)))"

declare fips_W.simps [simp del]

definition fips_f :: "nat \<Rightarrow> u32 \<Rightarrow> u32 \<Rightarrow> u32 \<Rightarrow> u32" where
  "fips_f t x y z =
     (if t < 20 then (x AND y) XOR (NOT x AND z)
      else if t < 40 then x XOR y XOR z
      else if t < 60 then (x AND y) XOR (x AND z) XOR (y AND z)
      else x XOR y XOR z)"

fun fips_round :: "u32 list \<Rightarrow> chain5 \<Rightarrow> nat \<Rightarrow> chain5" where
  "fips_round m (a, b, c, d, e) t =
     (word_rotl 5 a + fips_f t b c d + e + sha_k t + fips_W m t, a, word_rotl 30 b, c, d)"

definition fips_compress :: "chain5 \<Rightarrow> bytes \<Rightarrow> chain5" where
  "fips_compress h blk =
     (let m = map (\<lambda>i. be_word (take 4 (drop (4 * i) blk))) [0..<16]
      in chain_add h (foldl (fips_round m) h [0..<80]))"

fun sha_blocks :: "bytes \<Rightarrow> bytes list" where
  "sha_blocks xs = (if length xs < 64 then [] else take 64 xs # sha_blocks (drop 64 xs))"

declare sha_blocks.simps [simp del]

definition fips_pad :: "bytes \<Rightarrow> bytes" where
  "fips_pad msg = msg @ [0x80] @ replicate ((119 - length msg mod 64) mod 64) 0 @ rev (le_nat 8 (8 * length msg))"

definition fips_iv :: chain5 where
  "fips_iv = (0x67452301, 0xEFCDAB89, 0x98BADCFE, 0x10325476, 0xC3D2E1F0)"

definition fips_sha1 :: "bytes \<Rightarrow> bytes" where
  "fips_sha1 msg =
     (case foldl fips_compress fips_iv (sha_blocks (fips_pad msg)) of
        (a, b, c, d, e) \<Rightarrow> concat (map (\<lambda>v. rev (word_image 4 v)) [a, b, c, d, e]))"

section \<open>Bytes and rotations\<close>

lemma bit_nat_le: "bit (nat_le bs) n \<longleftrightarrow> n div 8 < length bs \<and> bit (bs ! (n div 8)) (n mod 8)"
proof (induction bs arbitrary: n)
  case Nil
  then show ?case by simp
next
  case (Cons b bs)
  have d: "nat_le (b # bs) = unat b OR push_bit 8 (nat_le bs)"
  proof -
    have "unat b AND push_bit 8 (nat_le bs) = 0"
    proof (rule bit_eqI)
      fix k
      have "bit (unat b) k \<Longrightarrow> k < 8"
        using bit_imp_le_length [of b k] by (simp add: bit_unsigned_iff)
      then show "bit (unat b AND push_bit 8 (nat_le bs)) k = bit (0 :: nat) k"
        by (auto simp: bit_simps)
    qed
    then have "unat b + push_bit 8 (nat_le bs) = unat b OR push_bit 8 (nat_le bs)"
      by (rule disjunctive_add_eq_or)
    then show ?thesis by (simp add: push_bit_eq_mult mult.commute)
  qed
  show ?case
  proof (cases "n < 8")
    case True
    then show ?thesis unfolding d by (auto simp: bit_simps)
  next
    case False
    then obtain m where n: "n = m + 8" by (metis add.commute le_Suc_ex not_less)
    have "\<not> bit b n" using False bit_imp_le_length [of b n] by auto
    then show ?thesis unfolding d n using Cons [of m] by (auto simp: bit_simps n)
  qed
qed

lemma bit_image_word:
  "bit (image_word bs :: u32) n \<longleftrightarrow> n < 32 \<and> n div 8 < length bs \<and> bit (bs ! (n div 8)) (n mod 8)"
  by (auto simp: image_word_def bit_simps bit_nat_le)

lemma sha_rol_rotl:
  assumes "0 < n" "n < 32"
  shows "sha_rol v n = word_rotl n v"
proof (rule bit_word_eqI)
  fix k
  assume k: "k < LENGTH(32)"
  show "bit (sha_rol v n) k = bit (word_rotl n v) k"
  proof (cases "n \<le> k")
    case True
    then have "(k + 32 - n) mod 32 = k - n" using k by (simp add: mod_if)
    moreover have "\<not> bit v (32 + k - n)" using True bit_imp_le_length [of v "32 + k - n"] by auto
    ultimately show ?thesis using True k assms
      by (auto simp: sha_rol_def bit_simps bit_word_rotl_iff dest: bit_imp_le_length)
  next
    case False
    then have "(k + 32 - n) mod 32 = 32 + k - n" using k assms by simp
    then show ?thesis using False k assms
      by (simp add: sha_rol_def bit_simps bit_word_rotl_iff diff_diff_right)
  qed
qed

lemma swap_masks:
  "0xFF00FF00 = (push_bit 8 (mask 8) OR push_bit 24 (mask 8) :: u32)"
  "0x00FF00FF = (mask 8 OR push_bit 16 (mask 8) :: u32)"
  by (simp_all add: mask_eq_exp_minus_1 push_bit_eq_mult)

lemma byte_swap:
  fixes w :: u32
  assumes w': "\<And>n. n < 32 \<Longrightarrow> bit w' n \<longleftrightarrow> bit w (8 * (3 - n div 8) + n mod 8)"
  shows "(sha_rol w 24 AND 0xFF00FF00) OR (sha_rol w 8 AND 0x00FF00FF) = w'"
proof (rule bit_word_eqI)
  fix n :: nat
  assume "n < LENGTH(32)"
  then have n: "n < 32" by simp
  have h: "\<not> bit w m" if "32 \<le> m" for m using that bit_imp_le_length [of w m] by auto
  define r where "r = n mod 8"
  have r: "r < 8" by (simp add: r_def)
  have "n = r \<or> n = 8 + r \<or> n = 16 + r \<or> n = 24 + r"
    using n unfolding r_def by presburger
  then consider "n = r" | "n = 8 + r" | "n = 16 + r" | "n = 24 + r" by blast
  then show "bit ((sha_rol w 24 AND 0xFF00FF00) OR (sha_rol w 8 AND 0x00FF00FF)) n = bit w' n"
  proof cases
    case 1
    then show ?thesis using r n h by (auto simp: w' swap_masks sha_rol_def bit_simps)
  next
    case 2
    then show ?thesis using r n h by (auto simp: w' swap_masks sha_rol_def bit_simps)
  next
    case 3
    then have "n div 8 = 2" "n mod 8 = r" using r by presburger+
    then show ?thesis using 3 r n h by (auto simp: w' swap_masks sha_rol_def bit_simps)
  next
    case 4
    then have "n div 8 = 3" "n mod 8 = r" using r by presburger+
    then show ?thesis using 4 r n h by (auto simp: w' swap_masks sha_rol_def bit_simps)
  qed
qed

lemma sha_blk0_be:
  assumes "length bs = 4" "i < length l" "l ! i = image_word bs"
  shows "sha_blk0 i l = (be_word bs, l[i := be_word bs])"
proof -
  have "bit (be_word bs) n \<longleftrightarrow> bit (image_word bs :: u32) (8 * (3 - n div 8) + n mod 8)" if "n < 32" for n
  proof -
    have "8 * (3 - n div 8) + n mod 8 < 32" "(8 * (3 - n div 8) + n mod 8) div 8 = 3 - n div 8"
      "(8 * (3 - n div 8) + n mod 8) mod 8 = n mod 8" "n div 8 < 4"
      using that by auto
    then show ?thesis using that assms(1) by (simp add: be_word_def bit_image_word rev_nth)
  qed
  from byte_swap [OF this] show ?thesis
    by (simp add: sha_blk0_def Let_def assms)
qed

section \<open>The schedule in place is the schedule of the standard\<close>

lemma sha_f_fips: "sha_f i w x y = fips_f i w x y"
  by (rule bit_word_eqI) (auto simp: sha_f_def fips_f_def bit_simps)

text \<open>After \<open>i\<close> rounds the block holds the words of the schedule that later rounds still read.\<close>

definition sched_inv :: "bytes \<Rightarrow> u32 list \<Rightarrow> nat \<Rightarrow> u32 list \<Rightarrow> bool" where
  "sched_inv blk m i l \<longleftrightarrow> length l = 16 \<and>
     (\<forall>j < 16. i \<le> j \<longrightarrow> l ! j = image_word (take 4 (drop (4 * j) blk))) \<and>
     (\<forall>t < i. i \<le> t + 16 \<longrightarrow> l ! (t mod 16) = fips_W m t)"

lemma sched_round:
  assumes "sched_inv blk m i l" "length blk = 64"
    and m: "m = map (\<lambda>i. be_word (take 4 (drop (4 * i) blk))) [0..<16]"
  obtains l' where "sha_round (c, l) i = (fips_round m c i, l')" "sched_inv blk m (Suc i) l'"
proof -
  have len: "length l = 16" and raw: "\<And>j. j < 16 \<Longrightarrow> i \<le> j \<Longrightarrow> l ! j = image_word (take 4 (drop (4 * j) blk))"
    and old: "\<And>t. t < i \<Longrightarrow> i \<le> t + 16 \<Longrightarrow> l ! (t mod 16) = fips_W m t"
    using assms(1) by (auto simp: sched_inv_def)
  have b: "(if i < 16 then sha_blk0 i l else sha_blk i l) = (fips_W m i, l[i mod 16 := fips_W m i])"
  proof (cases "i < 16")
    case True
    have "length (take 4 (drop (4 * i) blk)) = 4" using True assms(2) by simp
    from sha_blk0_be [OF this, of i l] have "sha_blk0 i l =
        (be_word (take 4 (drop (4 * i) blk)), l[i := be_word (take 4 (drop (4 * i) blk))])"
      using True raw [of i] len by simp
    moreover have "fips_W m i = be_word (take 4 (drop (4 * i) blk))"
      using True by (subst fips_W.simps) (simp add: m)
    ultimately show ?thesis using True by simp
  next
    case False
    then have "i + 13 = (i - 3) + 16" "i + 8 = (i - 8) + 16" "i + 2 = (i - 14) + 16" "i = (i - 16) + 16"
      by simp_all
    then have k: "(i + 13) mod 16 = (i - 3) mod 16" "(i + 8) mod 16 = (i - 8) mod 16"
      "(i + 2) mod 16 = (i - 14) mod 16" "i mod 16 = (i - 16) mod 16"
      by (metis mod_add_self2)+
    have "l ! ((i + 13) mod 16) = fips_W m (i - 3)" "l ! ((i + 8) mod 16) = fips_W m (i - 8)"
      "l ! ((i + 2) mod 16) = fips_W m (i - 14)" "l ! (i mod 16) = fips_W m (i - 16)"
      unfolding k using False by (auto intro!: old)
    then show ?thesis using False
      by (simp add: sha_blk_def Let_def fips_W.simps [of m i] sha_rol_rotl)
  qed
  have "sched_inv blk m (Suc i) (l[i mod 16 := fips_W m i])"
    unfolding sched_inv_def
  proof (intro conjI allI impI)
    fix j :: nat
    assume j: "j < 16" "Suc i \<le> j"
    then show "l[i mod 16 := fips_W m i] ! j = image_word (take 4 (drop (4 * j) blk))"
      using raw by simp
  next
    fix t
    assume t: "t < Suc i" "Suc i \<le> t + 16"
    show "l[i mod 16 := fips_W m i] ! (t mod 16) = fips_W m t"
    proof (cases "t = i")
      case True
      then show ?thesis using len by simp
    next
      case False
      have "t mod 16 \<noteq> i mod 16"
      proof
        assume "t mod 16 = i mod 16"
        then have "16 dvd i - t" using t mod_eq_dvd_iff_nat [of t i 16] by simp
        then show False using t False by (auto dest: dvd_imp_le)
      qed
      then show ?thesis using old [of t] t False by simp
    qed
  qed (simp add: len)
  moreover have "sha_round (c, l) i = (fips_round m c i, l[i mod 16 := fips_W m i])"
  proof -
    obtain v w x y z where c: "c = (v, w, x, y, z)" by (cases c) auto
    have "z + (fips_f i w x y + fips_W m i + sha_k i + word_rotl 5 v) =
        word_rotl 5 v + fips_f i w x y + z + sha_k i + fips_W m i"
      by (simp only: ac_simps)
    then show ?thesis
      unfolding c sha_round.simps b Let_def prod.case fips_round.simps sha_f_fips
      by (simp add: sha_rol_rotl)
  qed
  ultimately show thesis by (rule that [rotated])
qed

lemma sched_rounds:
  assumes "length blk = 64" "m = map (\<lambda>i. be_word (take 4 (drop (4 * i) blk))) [0..<16]"
  shows "\<exists>l. foldl sha_round (c, block_words blk) [0..<n] = (foldl (fips_round m) c [0..<n], l)
    \<and> sched_inv blk m n l"
proof (induction n)
  case 0
  show ?case by (auto simp: sched_inv_def block_words_def)
next
  case (Suc n)
  then obtain l where l: "foldl sha_round (c, block_words blk) [0..<n] = (foldl (fips_round m) c [0..<n], l)"
    "sched_inv blk m n l" by blast
  obtain l' where l': "sha_round (foldl (fips_round m) c [0..<n], l) n =
      (fips_round m (foldl (fips_round m) c [0..<n]) n, l')" "sched_inv blk m (Suc n) l'"
    by (rule sched_round [OF l(2) assms])
  have u: "[0..<Suc n] = [0..<n] @ [n]" by simp
  show ?case unfolding u foldl_snoc l(1) l'(1) using l'(2) by blast
qed

lemma SHA1Transform_fips:
  assumes "length blk = 64"
  shows "SHA1Transform c blk = fips_compress c blk"
proof -
  define m where "m = map (\<lambda>i. be_word (take 4 (drop (4 * i) blk))) [0..<16]"
  define ts where "ts = [0..<(80 :: nat)]"
  have "\<exists>l. foldl sha_round (c, block_words blk) ts = (foldl (fips_round m) c ts, l)"
    using sched_rounds [OF assms m_def, of c 80] unfolding ts_def by (elim exE conjE) (rule exI)
  then have "fst (foldl sha_round (c, block_words blk) ts) = foldl (fips_round m) c ts"
    by (elim exE) (simp only: fst_conv)
  then show ?thesis
    unfolding SHA1Transform_def fips_compress_def Let_def m_def [symmetric] ts_def [symmetric]
    by simp
qed
section \<open>The stream\<close>

lemma sha_blocks_short [simp]: "length xs < 64 \<Longrightarrow> sha_blocks xs = []"
  by (simp add: sha_blocks.simps)

lemma sha_blocks_cons: "length b = 64 \<Longrightarrow> sha_blocks (b @ xs) = b # sha_blocks xs"
  by (subst sha_blocks.simps) simp

lemma sha_blocks_append: "64 dvd length a \<Longrightarrow> sha_blocks (a @ b) = sha_blocks a @ sha_blocks b"
proof (induction a rule: sha_blocks.induct)
  case (1 a)
  show ?case
  proof (cases "length a < 64")
    case True
    then have "a = []" using 1(2) by (auto dest: dvd_imp_le)
    then show ?thesis by simp
  next
    case False
    have a: "a = take 64 a @ drop 64 a" "length (take 64 a) = 64" using False by simp_all
    have "64 dvd length (drop 64 a)" using 1(2) False by (simp add: dvd_minus_self)
    from 1(1) [OF False this] show ?thesis
      by (subst (1 2) a(1)) (simp only: append.assoc sha_blocks_cons [OF a(2)] append_Cons)
  qed
qed

lemma sha_loop_blocks:
  "sha_loop st data i =
     (foldl fips_compress st (sha_blocks (drop i data)), i + 64 * ((length data - i) div 64))"
proof (induction st data i rule: sha_loop.induct)
  case (1 st data i)
  show ?case
  proof (cases "i + 63 < length data")
    case True
    have "drop i data = take 64 (drop i data) @ drop (i + 64) data"
      by (metis append_take_drop_id drop_drop add.commute)
    then have "sha_blocks (drop i data) = take 64 (drop i data) # sha_blocks (drop (i + 64) data)"
      using sha_blocks_cons [of "take 64 (drop i data)" "drop (i + 64) data"] True by simp
    moreover have "(length data - i) div 64 = Suc ((length data - (i + 64)) div 64)"
      using True by (subst le_div_geq) auto
    ultimately show ?thesis using 1 True
      by (subst sha_loop.simps) (simp add: SHA1Transform_fips)
  next
    case False
    then show ?thesis by (subst sha_loop.simps) simp
  qed
qed

text \<open>The context \<open>c\<close> represents the message \<open>msg\<close>: its chaining value is that of the full blocks, its
  buffer starts with the rest, and its two counters are the number of bits.\<close>

definition sha_rep :: "sha1_ctx \<Rightarrow> bytes \<Rightarrow> bool" where
  "sha_rep c msg \<longleftrightarrow> sc_state c = foldl fips_compress fips_iv (sha_blocks msg)
     \<and> length (sc_buffer c) = 64
     \<and> take (length msg mod 64) (sc_buffer c) = drop (64 * (length msg div 64)) msg
     \<and> unat (fst (sc_count c)) = 8 * length msg mod 2 ^ 32
     \<and> unat (snd (sc_count c)) = 8 * length msg div 2 ^ 32 mod 2 ^ 32"

lemma sha_rep_init: "length buf = 64 \<Longrightarrow> sha_rep (SHA1Init buf) []"
  by (simp add: sha_rep_def SHA1Init_def fips_iv_def)

lemma buffer_index: "unat c0 = 8 * n mod 2 ^ 32 \<Longrightarrow> unat (drop_bit 3 c0 AND 63 :: u32) = n mod 64"
proof -
  assume c: "unat c0 = 8 * n mod 2 ^ 32"
  have m: "(63 :: u32) = mask 6" by (simp add: mask_eq_exp_minus_1)
  have "unat (drop_bit 3 c0 AND 63) = unat c0 div 8 mod 64"
    unfolding m take_bit_eq_mask [symmetric]
    by (simp only: unsigned_take_bit_eq unat_drop_bit_eq) (simp add: take_bit_eq_mod drop_bit_eq_div)
  also have "\<dots> = 8 * n mod (8 * 2 ^ 29) div 8 mod 64" using c by simp
  also have "\<dots> = n mod 2 ^ 29 mod 64" by (simp only: mod_mult_mult1) simp
  also have "\<dots> = n mod 64" by (rule mod_mod_cancel) (simp add: dvd_def)
  finally show ?thesis .
qed

lemma div_carry:
  fixes a b m :: nat
  assumes "0 < m"
  shows "(a + b) div m = a div m + b div m + (if m \<le> a mod m + b mod m then 1 else 0)"
proof -
  have "a mod m + b mod m < m + m" using assms by (intro add_strict_mono) auto
  then have "(a mod m + b mod m) div m = (if m \<le> a mod m + b mod m then 1 else 0)"
    using assms by (auto simp: le_div_geq)
  then show ?thesis by (simp only: div_add1_eq [of a b m])
qed

lemma wrap_less:
  fixes a b m :: nat
  assumes "a < m" "b < m"
  shows "(a + b) mod m < a \<longleftrightarrow> m \<le> a + b"
  using assms by (cases "a + b < m") (auto simp: le_mod_geq)

lemma unat_add_carry:
  fixes c e :: u32
  assumes "unat c = x mod 2 ^ 32" "unat e = h"
  shows "unat ((if b then c + 1 else c) + e) = (x + h + (if b then 1 else 0)) mod 2 ^ 32"
proof (cases b)
  case True
  have "unat (c + 1 + e) = ((unat c + 1) mod 2 ^ 32 + h) mod 2 ^ 32"
    by (simp add: unat_word_ariths assms)
  also have "\<dots> = (x + 1 + h) mod 2 ^ 32"
    unfolding assms(1) by (simp only: mod_add_left_eq)
  finally show ?thesis using True by (simp add: add.commute add.left_commute)
next
  case False
  have "unat (c + e) = (x mod 2 ^ 32 + h) mod 2 ^ 32" by (simp add: unat_word_ariths assms)
  then show ?thesis using False by (simp add: mod_add_left_eq)
qed

lemma count_words:
  fixes c0 c1 :: u32
  assumes c0: "unat c0 = 8 * n mod 2 ^ 32" and c1: "unat c1 = 8 * n div 2 ^ 32 mod 2 ^ 32"
    and k: "k < 2 ^ 32"
  defines "d0 \<equiv> c0 + push_bit 3 (of_nat k)"
  shows "unat d0 = 8 * (n + k) mod 2 ^ 32"
    "unat ((if d0 < c0 then c1 + 1 else c1) + drop_bit 29 (of_nat k)) = 8 * (n + k) div 2 ^ 32 mod 2 ^ 32"
proof -
  let ?lo = "8 * k mod 2 ^ 32" and ?hi = "8 * k div 2 ^ 32"
  have p: "unat (push_bit 3 (of_nat k) :: u32) = ?lo"
    by (simp add: push_bit_eq_mult unat_word_ariths mult.commute unat_of_nat mod_mult_right_eq)
  have ki: "unat (of_nat k :: u32) = k" using k by (simp add: unat_of_nat)
  have q: "unat (drop_bit 29 (of_nat k) :: u32) = ?hi"
  proof -
    have "unat (drop_bit 29 (of_nat k) :: u32) = k div 2 ^ 29"
      by (simp only: unat_drop_bit_eq ki) (simp add: drop_bit_eq_div)
    also have "\<dots> = ?hi" using div_mult_mult1 [of 8 k "2 ^ 29"] by simp
    finally show ?thesis .
  qed
  have d0: "unat d0 = (unat c0 + ?lo) mod 2 ^ 32"
    unfolding d0_def by (simp add: unat_word_ariths p)
  show "unat d0 = 8 * (n + k) mod 2 ^ 32"
    unfolding d0 c0 by (simp add: mod_add_eq distrib_left)
  have less: "d0 < c0 \<longleftrightarrow> 2 ^ 32 \<le> unat c0 + ?lo"
    unfolding word_less_nat_alt d0 by (rule wrap_less) (simp_all add: c0)
  have carry: "8 * (n + k) div 2 ^ 32 = 8 * n div 2 ^ 32 + ?hi + (if d0 < c0 then 1 else 0)"
    unfolding less c0 distrib_left by (rule div_carry) simp
  show "unat ((if d0 < c0 then c1 + 1 else c1) + drop_bit 29 (of_nat k)) = 8 * (n + k) div 2 ^ 32 mod 2 ^ 32"
    unfolding carry by (rule unat_add_carry [OF c1 q])
qed

lemma update_count: "sc_count (SHA1Update data c) =
    (fst (sc_count c) + push_bit 3 (of_nat (length data)),
     (if fst (sc_count c) + push_bit 3 (of_nat (length data)) < fst (sc_count c)
      then snd (sc_count c) + 1 else snd (sc_count c)) + drop_bit 29 (of_nat (length data)))"
  by (simp add: SHA1Update_def Let_def split: prod.splits)

lemma sha_rep_update:
  assumes r: "sha_rep c msg" and k: "length data < 2 ^ 32"
  shows "sha_rep (SHA1Update data c) (msg @ data)"
proof -
  let ?n = "length msg" and ?k = "length data"
  define j where "j = ?n mod 64"
  define tail where "tail = drop (64 * (?n div 64)) msg"
  define full where "full = take (64 * (?n div 64)) msg"
  have msg: "msg = full @ tail" by (simp add: full_def tail_def)
  have nj: "?n = 64 * (?n div 64) + j" by (simp add: j_def)
  have lt: "length tail = j" using nj by (simp add: tail_def)
  have lf: "64 dvd length full" by (simp add: full_def)
  have j: "j < 64" by (simp add: j_def)
  have st: "sc_state c = foldl fips_compress fips_iv (sha_blocks full)"
    and lb: "length (sc_buffer c) = 64" and tb: "take j (sc_buffer c) = tail"
    and c0: "unat (fst (sc_count c)) = 8 * ?n mod 2 ^ 32"
    and c1: "unat (snd (sc_count c)) = 8 * ?n div 2 ^ 32 mod 2 ^ 32"
    using r sha_blocks_append [OF lf, of tail] lt j
    by (auto simp: sha_rep_def j_def tail_def [symmetric] msg [symmetric])
  have jw: "unat (drop_bit 3 (fst (sc_count c)) AND 63) = j"
    unfolding j_def by (rule buffer_index [OF c0])
  have cnt: "unat (fst (sc_count (SHA1Update data c))) = 8 * (?n + ?k) mod 2 ^ 32"
    "unat (snd (sc_count (SHA1Update data c))) = 8 * (?n + ?k) div 2 ^ 32 mod 2 ^ 32"
    unfolding update_count fst_conv snd_conv by (rule count_words [OF c0 c1 k])+
  have blocks: "sha_blocks (msg @ data) = sha_blocks full @ sha_blocks (tail @ data)"
    by (simp only: msg append.assoc sha_blocks_append [OF lf])
  have rest: "drop (64 * ((?n + ?k) div 64)) (msg @ data) = drop (64 * ((j + ?k) div 64)) (tail @ data)"
  proof -
    have "64 * ((?n + ?k) div 64) = length full + 64 * ((j + ?k) div 64)"
      by (subst nj) (simp add: full_def add.assoc)
    then show ?thesis by (simp add: msg)
  qed
  have md: "(?n + ?k) mod 64 = (j + ?k) mod 64" by (simp add: j_def mod_add_left_eq)
  show ?thesis
  proof (cases "63 < j + ?k")
    case False
    then have s: "SHA1Update data c = \<lparr>sc_state = sc_state c, sc_count = sc_count (SHA1Update data c),
        sc_buffer = splice (sc_buffer c) j data\<rparr>"
      by (simp add: SHA1Update_def Let_def jw)
    have m: "(j + ?k) mod 64 = j + ?k" "(j + ?k) div 64 = 0" using False by auto
    show ?thesis
      unfolding sha_rep_def length_append blocks rest md m
    proof (intro conjI)
      show "sc_state (SHA1Update data c) =
          foldl fips_compress fips_iv (sha_blocks full @ sha_blocks (tail @ data))"
        using False lt by (subst s) (simp add: st)
      show "length (sc_buffer (SHA1Update data c)) = 64"
        using False lb by (subst s) (simp add: splice_def)
      show "take (j + ?k) (sc_buffer (SHA1Update data c)) = drop (64 * 0) (tail @ data)"
        using lb j by (subst s) (simp add: splice_def tb lt)
    qed (fact cnt)+
  next
    case True
    define i where "i = 64 - j"
    define d where "d = drop i data"
    have i: "i \<le> ?k" using True by (simp add: i_def)
    define b1 where "b1 = splice (sc_buffer c) j (take i data)"
    have b1: "b1 = tail @ take i data" using i lb j by (simp add: b1_def splice_def tb i_def)
    have l1: "length b1 = 64" using b1 i lt j by (simp add: i_def)
    define i' where "i' = i + 64 * ((?k - i) div 64)"
    have lp: "sha_loop (SHA1Transform (sc_state c) b1) data i =
        (foldl fips_compress (fips_compress (sc_state c) b1) (sha_blocks d), i')"
      by (simp add: sha_loop_blocks SHA1Transform_fips l1 d_def i'_def)
    have s: "SHA1Update data c =
        \<lparr>sc_state = foldl fips_compress (fips_compress (sc_state c) b1) (sha_blocks d),
         sc_count = sc_count (SHA1Update data c), sc_buffer = splice b1 0 (drop i' data)\<rparr>"
      using True lp by (simp add: SHA1Update_def Let_def jw b1_def [symmetric] i_def [symmetric])
    have td: "tail @ data = b1 @ d" by (simp add: b1 d_def)
    have ld: "length d = ?k - i" by (simp add: d_def)
    have jk: "j + ?k = 64 + (?k - i)" using i j by (simp add: i_def)
    have m: "(j + ?k) mod 64 = length d mod 64" "(j + ?k) div 64 = Suc (length d div 64)"
      unfolding jk ld by simp_all
    have left: "drop i' data = drop (64 * (length d div 64)) d"
      by (simp add: i'_def d_def add.commute)
    have ll: "length (drop i' data) = length d mod 64"
      unfolding left by (simp add: minus_mult_div_eq_mod)
    show ?thesis
      unfolding sha_rep_def length_append blocks rest md m td sha_blocks_cons [OF l1]
    proof (intro conjI)
      show "sc_state (SHA1Update data c) =
          foldl fips_compress fips_iv (sha_blocks full @ b1 # sha_blocks d)"
        by (subst s) (simp add: st)
      show "length (sc_buffer (SHA1Update data c)) = 64"
        using ll by (subst s) (simp add: splice_def l1)
      show "take (length d mod 64) (sc_buffer (SHA1Update data c)) =
          drop (64 * Suc (length d div 64)) (b1 @ d)"
        using ll l1 by (subst s) (simp add: splice_def left)
    qed (fact cnt)+
  qed
qed

section \<open>The digest is the standard's\<close>

lemma sha_rep_bytes: "sha_rep c msg \<Longrightarrow> sha_rep (foldl (\<lambda>c b. SHA1Update [b] c) c data) (msg @ data)"
proof (induction data arbitrary: c msg)
  case Nil
  then show ?case by simp
next
  case (Cons b data)
  have "sha_rep (SHA1Update [b] c) (msg @ [b])" by (rule sha_rep_update [OF Cons.prems]) simp
  from Cons.IH [OF this] show ?case by simp
qed

lemma byte_count: "sha_rep c msg \<Longrightarrow> unat (fst (sc_count c)) div 8 mod 64 = length msg mod 64"
proof -
  assume "sha_rep c msg"
  then have "unat (fst (sc_count c)) = 8 * length msg mod (8 * 2 ^ 29)" by (simp add: sha_rep_def)
  then have "unat (fst (sc_count c)) div 8 mod 64 = length msg mod 2 ^ 29 mod 64"
    by (simp only: mod_mult_mult1) simp
  also have "\<dots> = length msg mod 64" by (rule mod_mod_cancel) (simp add: dvd_def)
  finally show ?thesis .
qed

lemma pad_left_56: "pad_left (n mod 64) = 0 \<longleftrightarrow> n mod 64 = 56"
  using mod_less_divisor [of 64 n] by (auto simp: pad_left_def)

lemma sha_rep_pad: "sha_rep c msg \<Longrightarrow> sha_rep (sha_pad c) (msg @ replicate (pad_left (length msg mod 64)) 0)"
proof (induction c arbitrary: msg rule: sha_pad.induct)
  case (1 c)
  show ?case
  proof (cases "length msg mod 64 = 56")
    case True
    then have "sha_pad c = c"
      using byte_count [OF 1(2)] and_504_neq [of "fst (sc_count c)"] by (subst sha_pad.simps) simp
    then show ?thesis using 1(2) True by (simp add: pad_left_def)
  next
    case False
    then have g: "fst (sc_count c) AND 504 \<noteq> 448"
      using byte_count [OF 1(2)] and_504_neq [of "fst (sc_count c)"] by simp
    have u: "sha_rep (SHA1Update [0] c) (msg @ [0])" by (rule sha_rep_update [OF 1(2)]) simp
    have p: "pad_left (length msg mod 64) = Suc (pad_left (length (msg @ [0 :: u8]) mod 64))"
      using pad_left_step [of "length msg mod 64"] False by (simp add: mod_Suc_eq)
    from 1(1) [OF g u] g show ?thesis unfolding p by (subst sha_pad.simps) simp
  qed
qed

lemma fips_pad_count: "pad_left (Suc n mod 64) = (119 - n mod 64) mod 64"
proof -
  have "n mod 64 < 64" by simp
  moreover have "Suc n mod 64 = (if n mod 64 = 63 then 0 else Suc (n mod 64))" by (simp add: mod_Suc)
  ultimately show ?thesis by (auto simp: pad_left_def le_mod_geq)
qed

lemma be_bytes32_rev: "be_bytes32 v = rev (le_nat 4 (unat v))"
proof -
  have "ucast (drop_bit k v AND 255) = (of_nat (unat v div 2 ^ k) :: u8)" for k
  proof -
    have m: "(255 :: u32) = mask 8" by (simp add: mask_eq_exp_minus_1)
    have "(of_nat (unat v div 2 ^ k) :: u8) = of_nat (unat (drop_bit k v))"
      by (simp only: unat_drop_bit_eq drop_bit_eq_div [of k "unat v"])
    also have "\<dots> = ucast (drop_bit k v)" by simp
    also have "\<dots> = ucast (drop_bit k v AND 255)"
      unfolding m take_bit_eq_mask [symmetric] by (rule bit_word_eqI) (auto simp: bit_simps)
    finally show ?thesis by simp
  qed
  then have "be_bytes32 v = [of_nat (unat v div 2 ^ 24), of_nat (unat v div 2 ^ 16),
      of_nat (unat v div 2 ^ 8), of_nat (unat v div 2 ^ 0)]"
    by (simp only: be_bytes32_def) (simp add: upt_rec)
  moreover have "le_nat 4 n = [of_nat n, of_nat (n div 2 ^ 8), of_nat (n div 2 ^ 16), of_nat (n div 2 ^ 24)]" for n
  proof -
    have four: "4 = Suc (Suc (Suc (Suc 0)))" by simp
    have "n div 256 div 256 = n div 2 ^ 16" "n div 256 div 256 div 256 = n div 2 ^ 24"
      by (simp_all add: div_mult2_eq [symmetric])
    then show ?thesis unfolding four by simp
  qed
  ultimately show ?thesis by simp
qed

lemma nat_le_split: "m \<le> n \<Longrightarrow> le_nat n x = le_nat m x @ le_nat (n - m) (x div 256 ^ m)"
proof (induction m arbitrary: n x)
  case 0
  then show ?case by simp
next
  case (Suc m)
  then obtain k where n: "n = Suc k" by (cases n) auto
  with Suc.IH [of k "x div 256"] Suc.prems show ?case
    by (simp add: div_mult2_eq [symmetric])
qed

lemma le_nat_mod: "le_nat n (x mod 256 ^ n) = le_nat n x"
proof (induction n arbitrary: x)
  case 0
  show ?case by simp
next
  case (Suc n)
  have "x mod (256 * 256 ^ n) div 256 = x div 256 mod 256 ^ n"
    by (simp add: mod_mult2_eq)
  moreover have "(of_nat (x mod (256 * 256 ^ n)) :: u8) = of_nat x"
    by (rule unsigned_word_eqI, rule trans [OF unat_of_nat_u8], simp add: mod_mod_cancel)
  ultimately show ?case using Suc [of "x div 256"] by simp
qed

lemma finalcount_bytes:
  assumes "sha_rep c msg"
  shows "be_bytes32 (snd (sc_count c)) @ be_bytes32 (fst (sc_count c)) = rev (le_nat 8 (8 * length msg))"
proof -
  let ?b = "8 * length msg"
  have p: "(256 :: nat) ^ 4 = 2 ^ 32" by simp
  have "le_nat 4 (?b mod 2 ^ 32) = le_nat 4 ?b" "le_nat 4 (?b div 2 ^ 32 mod 2 ^ 32) = le_nat 4 (?b div 2 ^ 32)"
    unfolding p [symmetric] by (rule le_nat_mod)+
  moreover have "le_nat 8 ?b = le_nat 4 ?b @ le_nat 4 (?b div 2 ^ 32)"
    using nat_le_split [of 4 8 ?b] by (simp add: p)
  ultimately show ?thesis using assms by (simp only: be_bytes32_rev sha_rep_def rev_append)
qed

lemma SHA1Final_fips:
  assumes "sha_rep c msg"
  shows "SHA1Final c = fips_sha1 msg"
proof -
  define c1 where "c1 = SHA1Update [0x80] c"
  define n where "n = pad_left (Suc (length msg) mod 64)"
  define fc where "fc = be_bytes32 (snd (sc_count c)) @ be_bytes32 (fst (sc_count c))"
  have "sha_rep c1 (msg @ [0x80])" unfolding c1_def by (rule sha_rep_update [OF assms]) simp
  from sha_rep_pad [OF this] have "sha_rep (sha_pad c1) ((msg @ [0x80]) @ replicate n 0)"
    by (simp add: n_def)
  moreover have "length fc < 2 ^ 32" by (simp add: fc_def be_bytes32_def)
  ultimately have "sha_rep (SHA1Update fc (sha_pad c1)) (((msg @ [0x80]) @ replicate n 0) @ fc)"
    by (rule sha_rep_update)
  then have "sha_rep (SHA1Update fc (sha_pad c1)) (fips_pad msg)"
    by (simp add: fips_pad_def fc_def finalcount_bytes [OF assms] n_def fips_pad_count)
  then have "sc_state (SHA1Update fc (sha_pad c1)) = foldl fips_compress fips_iv (sha_blocks (fips_pad msg))"
    by (simp add: sha_rep_def)
  moreover have "SHA1Final c = (case sc_state (SHA1Update fc (sha_pad c1)) of
      (s0, s1, s2, s3, s4) \<Rightarrow> concat (map be_bytes32 [s0, s1, s2, s3, s4]))"
    by (simp only: SHA1Final_def Let_def fc_def c1_def)
  ultimately show ?thesis
    by (simp add: fips_sha1_def be_bytes32_rev word_image_def split: prod.splits)
qed

text \<open>C8: for every message and every content of the uninitialised context buffer, the digest that
  \<open>sha1_hash\<close> computes byte by byte, with its in-place schedule, its streaming buffer and its padding
  loop, is the digest the SHA-1 standard defines.\<close>

theorem sha1_hash_standard:
  assumes "length buf = 64" "length data < 2 ^ 32"
  shows "sha1_hash buf data = Some (fips_sha1 data)"
  using SHA1Final_fips [OF sha_rep_bytes [OF sha_rep_init [OF assms(1)], of data]] assms(2)
  by (simp add: sha1_hash_def)

theorem sha1_hash_standard_witness:
  "sha1_hash (replicate 64 7) [97, 98, 99] = Some (fips_sha1 [97, 98, 99])"
  by (rule sha1_hash_standard) simp_all

end
