(* ===== verification/Dedup.thy ===== *)
theory Dedup
  imports Sha1 Chunk
begin

text \<open>
  Exact deduplication, \<open>dedup/dedup.h\<close>: a map from the SHA-1 digest of a chunk to the id of the first
  chunk that had it. \<open>ProcessChunk\<close> answers the id under which a chunk's content was first seen.
  \<open>Dump\<close> and \<open>Recover\<close> are empty in the source. The hashing loop may not return
  (\<open>sha1_hash\<close>), so the operation is partial. The specification \<open>first_with\<close> looks the digest up in
  the list of the chunks seen, in their order.
\<close>

record dedup =
  dd_map :: "bytes \<Rightarrow> u32 option"
  dd_file_path :: string

definition dedup_new :: "string \<Rightarrow> dedup" where
  "dedup_new path = \<lparr>dd_map = Map.empty, dd_file_path = path\<rparr>"

definition ProcessChunk :: "bytes \<Rightarrow> chunk \<Rightarrow> dedup \<Rightarrow> (u32 \<times> dedup) option" where
  "ProcessChunk buf c d =
     do {
       data \<leftarrow> chunk_data c;
       digest \<leftarrow> sha1_hash buf data;
       Some (case dd_map d digest of
               Some i \<Rightarrow> (i, d)
             | None \<Rightarrow> (ck_id c, d\<lparr>dd_map := (dd_map d)(digest \<mapsto> ck_id c)\<rparr>))
     }"

fun process_all :: "bytes \<Rightarrow> chunk list \<Rightarrow> dedup \<Rightarrow> (u32 list \<times> dedup) option" where
  "process_all buf [] d = Some ([], d)"
| "process_all buf (c # cs) d =
     do {
       (i, d') \<leftarrow> ProcessChunk buf c d;
       (rs, d'') \<leftarrow> process_all buf cs d';
       Some (i # rs, d'')
     }"

definition chunk_digest :: "chunk \<Rightarrow> bytes" where
  "chunk_digest c = fips_sha1 (ck_buf c)"

definition first_with :: "chunk list \<Rightarrow> bytes \<Rightarrow> u32 option" where
  "first_with cs dg = map_option ck_id (find (\<lambda>c. chunk_digest c = dg) cs)"

lemma find_append: "find P (xs @ ys) = (case find P xs of None \<Rightarrow> find P ys | Some x \<Rightarrow> Some x)"
  by (induction xs) auto

lemma first_with_snoc:
  "first_with (cs @ [c]) dg = (case first_with cs dg of
     Some i \<Rightarrow> Some i | None \<Rightarrow> if chunk_digest c = dg then Some (ck_id c) else None)"
  by (simp add: first_with_def find_append split: option.splits)

lemma first_with_mono: "first_with cs dg = Some i \<Longrightarrow> first_with (cs @ ds) dg = Some i"
  by (auto simp: first_with_def find_append split: option.splits)

lemma ProcessChunk_digest:
  assumes "length buf = 64" "ck_wf c"
  shows "ProcessChunk buf c d = Some (case dd_map d (chunk_digest c) of
      Some i \<Rightarrow> (i, d)
    | None \<Rightarrow> (ck_id c, d\<lparr>dd_map := (dd_map d)(chunk_digest c \<mapsto> ck_id c)\<rparr>))"
proof -
  have "length (ck_buf c) < 2 ^ 32" using assms(2) by (simp add: ck_wf_def)
  then have "sha1_hash buf (ck_buf c) = Some (chunk_digest c)"
    using SHA1Final_fips [OF sha_rep_bytes [OF sha_rep_init [OF assms(1)], of "ck_buf c"]]
    by (simp add: sha1_hash_def chunk_digest_def)
  then show ?thesis by (simp add: ProcessChunk_def assms(2))
qed

lemma ProcessChunk_first:
  assumes "length buf = 64" "ck_wf c" "dd_map d = first_with seen"
  obtains d' i where "ProcessChunk buf c d = Some (i, d')" "dd_map d' = first_with (seen @ [c])"
    "first_with (seen @ [c]) (chunk_digest c) = Some i"
proof (cases "first_with seen (chunk_digest c)")
  case None
  have "(first_with seen)(chunk_digest c \<mapsto> ck_id c) = first_with (seen @ [c])"
    by (rule ext) (auto simp: first_with_snoc None split: option.splits)
  with None that show thesis
    by (simp add: ProcessChunk_digest [OF assms(1,2)] assms(3) first_with_snoc)
next
  case (Some i)
  have "first_with (seen @ [c]) = first_with seen"
    by (rule ext) (auto simp: first_with_snoc Some split: option.splits)
  with Some that show thesis
    by (simp add: ProcessChunk_digest [OF assms(1,2)] assms(3))
qed

lemma process_all_first:
  assumes "length buf = 64" "\<forall>c \<in> set cs. ck_wf c" "dd_map d = first_with seen"
  shows "\<exists>rs d'. process_all buf cs d = Some (rs, d') \<and> dd_map d' = first_with (seen @ cs)
    \<and> map Some rs = map (\<lambda>c. first_with (seen @ cs) (chunk_digest c)) cs"
  using assms(2,3)
proof (induction cs arbitrary: d seen)
  case Nil
  then show ?case by simp
next
  case (Cons c cs)
  from Cons.prems have "ck_wf c" by simp
  from ProcessChunk_first [OF assms(1) this Cons.prems(2)]
  obtain d' i where s: "ProcessChunk buf c d = Some (i, d')" "dd_map d' = first_with (seen @ [c])"
    and i: "first_with (seen @ [c]) (chunk_digest c) = Some i" by blast
  from Cons.IH [OF _ s(2)] Cons.prems(1) obtain rs d'' where r: "process_all buf cs d' = Some (rs, d'')"
    "dd_map d'' = first_with ((seen @ [c]) @ cs)"
    "map Some rs = map (\<lambda>c'. first_with ((seen @ [c]) @ cs) (chunk_digest c')) cs" by auto
  have "first_with ((seen @ [c]) @ cs) (chunk_digest c) = Some i" by (rule first_with_mono [OF i])
  with s r show ?case by simp
qed

lemma first_withD:
  assumes "first_with cs dg = Some i"
  obtains k where "k < length cs" "ck_id (cs ! k) = i" "chunk_digest (cs ! k) = dg"
    "\<forall>j < k. chunk_digest (cs ! j) \<noteq> dg"
  using assms by (auto simp: first_with_def find_Some_iff)

text \<open>C9: deduplicating a run of chunks from the empty index returns, for each chunk, the id of the
  first chunk of the run that has the same SHA-1 digest; the chunk itself counts, so no lookup fails.\<close>

theorem dedup_first_occurrence:
  assumes "length buf = 64" "\<forall>c \<in> set cs. ck_wf c"
  shows "\<exists>rs d'. process_all buf cs (dedup_new path) = Some (rs, d') \<and> length rs = length cs \<and>
    (\<forall>n < length cs. \<exists>k \<le> n. rs ! n = ck_id (cs ! k) \<and> chunk_digest (cs ! k) = chunk_digest (cs ! n)
       \<and> (\<forall>j < k. chunk_digest (cs ! j) \<noteq> chunk_digest (cs ! n)))"
proof -
  have "dd_map (dedup_new path) = first_with []" by (auto simp: dedup_new_def first_with_def)
  from process_all_first [OF assms this] obtain rs d' where r: "process_all buf cs (dedup_new path) = Some (rs, d')"
    and m: "map Some rs = map (\<lambda>c. first_with cs (chunk_digest c)) cs" by auto
  have l: "length rs = length cs" using arg_cong [OF m, of length] by simp
  have "\<exists>k \<le> n. rs ! n = ck_id (cs ! k) \<and> chunk_digest (cs ! k) = chunk_digest (cs ! n)
      \<and> (\<forall>j < k. chunk_digest (cs ! j) \<noteq> chunk_digest (cs ! n))" if n: "n < length cs" for n
  proof -
    have "first_with cs (chunk_digest (cs ! n)) = Some (rs ! n)"
      using arg_cong [OF m, of "\<lambda>l. l ! n"] n l by simp
    then obtain k where k: "ck_id (cs ! k) = rs ! n" "chunk_digest (cs ! k) = chunk_digest (cs ! n)"
      "\<forall>j < k. chunk_digest (cs ! j) \<noteq> chunk_digest (cs ! n)" by (rule first_withD) metis
    have "k \<le> n" using k(3) by (cases "n < k") auto
    with k show ?thesis by metis
  qed
  with r l show ?thesis by blast
qed

theorem dedup_first_occurrence_witness:
  "\<exists>rs d'. process_all (replicate 64 0) [make_chunk [1] True 1 0, make_chunk [1] True 1 1]
      (dedup_new ''d'') = Some (rs, d') \<and> length rs = 2 \<and> rs ! 1 = 0"
proof -
  let ?cs = "[make_chunk [1] True 1 0, make_chunk [1] True 1 1]"
  have "length (replicate 64 (0 :: u8)) = 64" "\<forall>c \<in> set ?cs. ck_wf c" by (simp_all add: ck_wf_def)
  from dedup_first_occurrence [OF this, of "''d''"] obtain rs d' where
    r: "process_all (replicate 64 0) ?cs (dedup_new ''d'') = Some (rs, d')" "length rs = 2"
    and s: "\<forall>n < length ?cs. \<exists>k \<le> n. rs ! n = ck_id (?cs ! k) \<and> chunk_digest (?cs ! k) = chunk_digest (?cs ! n)
       \<and> (\<forall>j < k. chunk_digest (?cs ! j) \<noteq> chunk_digest (?cs ! n))" by auto
  have "(1 :: nat) < length ?cs" by simp
  with s obtain k where k: "k \<le> 1" "rs ! 1 = ck_id (?cs ! k)"
    "\<forall>j < k. chunk_digest (?cs ! j) \<noteq> chunk_digest (?cs ! 1)" by metis
  have "chunk_digest (?cs ! 0) = chunk_digest (?cs ! 1)" by (simp add: chunk_digest_def)
  then have "k = 0" using k(3) by (cases k) auto
  with k r show ?thesis by (intro exI conjI) simp_all
qed

end
