(* ===== verification/Float32.thy ===== *)
theory Float32
  imports Complex_Main "HOL-Library.Log_Nat"
begin

text \<open>
  The C++ type \<open>float\<close> (IEEE binary32) as far as the sources use it: the finite values are rationals,
  \<open>None\<close> is the NaN that \<open>0 / 0\<close> gives, and each operation is the exact one rounded to nearest, ties
  to even (\<open>round32\<close>). Infinities do not occur: every value of the sources is a byte statistic, far
  below \<open>2^128\<close>. The section closes with the facts the clients use: a multiple of a power of two
  with at most 24 bits is not changed by rounding, and rounding keeps the interval from 0 to 1.
\<close>

type_synonym f32 = "rat option"

section \<open>Rounding\<close>

text \<open>The binary exponent of a positive rational: \<open>2 powi e \<le> x < 2 powi (e + 1)\<close>.\<close>

definition rat_exp :: "rat \<Rightarrow> int" where
  "rat_exp x =
     (let (a, b) = quotient_of x; k = int (floorlog 2 (nat a)) - int (floorlog 2 (nat b))
      in if 2 powi k \<le> x then k else k - 1)"

definition round_even :: "rat \<Rightarrow> int" where
  "round_even y =
     (let f = \<lfloor>y\<rfloor>; d = y - of_int f
      in if d < 1 / 2 then f else if 1 / 2 < d then f + 1 else if even f then f else f + 1)"

definition quantum32 :: "rat \<Rightarrow> rat" where
  "quantum32 x = 2 powi (max (rat_exp x - 23) (- 149))"

definition round32 :: "rat \<Rightarrow> rat" where
  "round32 x =
     (if x = 0 then 0 else sgn x * of_int (round_even (\<bar>x\<bar> / quantum32 \<bar>x\<bar>)) * quantum32 \<bar>x\<bar>)"

lemma round_even_int [simp]: "round_even (of_int n) = n"
  by (simp add: round_even_def)

lemma round_even_mono: "x \<le> y \<Longrightarrow> round_even x \<le> round_even y"
proof -
  assume le: "x \<le> y"
  then have f: "\<lfloor>x\<rfloor> \<le> \<lfloor>y\<rfloor>" by (rule floor_mono)
  show ?thesis
  proof (cases "\<lfloor>x\<rfloor> = \<lfloor>y\<rfloor>")
    case True
    then show ?thesis using le by (auto simp: round_even_def Let_def)
  next
    case False
    then have "\<lfloor>x\<rfloor> + 1 \<le> \<lfloor>y\<rfloor>" using f by simp
    moreover have "round_even x \<le> \<lfloor>x\<rfloor> + 1" "\<lfloor>y\<rfloor> \<le> round_even y"
      by (auto simp: round_even_def Let_def)
    ultimately show ?thesis by simp
  qed
qed

lemma floorlog2_bounds:
  assumes "0 < (n :: nat)"
  shows "2 ^ (floorlog 2 n - 1) \<le> n" "n < 2 ^ floorlog 2 n" "0 < floorlog 2 n"
  using floorlog_bounds [of n 2] assms by (auto simp: floorlog_eq_zero_iff intro: gr0I)

lemma rat_exp_bounds:
  assumes x: "0 < x"
  shows "2 powi rat_exp x \<le> x" "x < 2 powi (rat_exp x + 1)"
proof -
  obtain a b where q: "quotient_of x = (a, b)" by (cases "quotient_of x")
  have b: "0 < b" using quotient_of_denom_pos [OF q] .
  have xe: "x = of_int a / of_int b" using quotient_of_div [OF q] .
  have a: "0 < a" using x b by (simp add: xe zero_less_divide_iff)
  define m n where "m = floorlog 2 (nat a)" and "n = floorlog 2 (nat b)"
  have A: "2 ^ (m - 1) \<le> nat a" "nat a < 2 ^ m" "0 < m"
    unfolding m_def using a floorlog2_bounds [of "nat a"] by auto
  have B: "2 ^ (n - 1) \<le> nat b" "nat b < 2 ^ n" "0 < n"
    unfolding n_def using b floorlog2_bounds [of "nat b"] by auto
  have A': "(2 :: rat) powi (int m - 1) \<le> of_int a" "of_int a < (2 :: rat) powi int m"
  proof -
    have "(2 :: rat) powi (int m - 1) = of_nat (2 ^ (m - 1))"
      using A(3) by (simp add: power_int_def nat_diff_distrib)
    also have "\<dots> \<le> of_nat (nat a)" using A(1) by (simp only: of_nat_le_iff)
    finally show "(2 :: rat) powi (int m - 1) \<le> of_int a" using a by simp
    have "(of_nat (nat a) :: rat) < of_nat (2 ^ m)" using A(2) by (simp only: of_nat_less_iff)
    then show "of_int a < (2 :: rat) powi int m" using a by simp
  qed
  have B': "(2 :: rat) powi (int n - 1) \<le> of_int b" "of_int b < (2 :: rat) powi int n"
  proof -
    have "(2 :: rat) powi (int n - 1) = of_nat (2 ^ (n - 1))"
      using B(3) by (simp add: power_int_def nat_diff_distrib)
    also have "\<dots> \<le> of_nat (nat b)" using B(1) by (simp only: of_nat_le_iff)
    finally show "(2 :: rat) powi (int n - 1) \<le> of_int b" using b by simp
    have "(of_nat (nat b) :: rat) < of_nat (2 ^ n)" using B(2) by (simp only: of_nat_less_iff)
    then show "of_int b < (2 :: rat) powi int n" using b by simp
  qed
  define k where "k = int m - int n"
  have up: "x < 2 powi (k + 1)"
  proof -
    have "(2 :: rat) powi (k + 1) * 2 powi (int n - 1) = 2 powi int m"
      by (simp add: k_def power_int_add [symmetric])
    moreover have "of_int a = x * of_int b" using b by (simp add: xe)
    moreover have "x * 2 powi (int n - 1) \<le> x * of_int b" using B'(1) x by simp
    ultimately have "x * 2 powi (int n - 1) < 2 powi (k + 1) * 2 powi (int n - 1)"
      using A'(2) by simp
    then show ?thesis by simp
  qed
  have lo: "2 powi (k - 1) \<le> x"
  proof -
    have "(2 :: rat) powi (k - 1) * 2 powi int n = 2 powi (int m - 1)"
      by (simp only: k_def power_int_add [symmetric]) (simp add: power_int_add [symmetric] del: power_int_of_nat)
    moreover have "(2 :: rat) powi (k - 1) * of_int b \<le> 2 powi (k - 1) * 2 powi int n"
      using B'(2) by simp
    ultimately have "(2 :: rat) powi (k - 1) * of_int b \<le> of_int a" using A'(1) by simp
    then show ?thesis using b by (simp add: xe pos_le_divide_eq)
  qed
  have e: "rat_exp x = (if 2 powi k \<le> x then k else k - 1)"
    by (simp add: rat_exp_def q m_def [symmetric] n_def [symmetric] k_def)
  show "2 powi rat_exp x \<le> x" "x < 2 powi (rat_exp x + 1)"
    using up lo unfolding e by auto
qed

lemma quantum32_pos [simp]: "0 < quantum32 x"
  by (simp add: quantum32_def)

lemma powi_less_iff2: "(2 :: rat) powi i < 2 powi j \<longleftrightarrow> i < j"
  by (meson linorder_not_less one_less_numeral_iff power_int_increasing power_int_strict_increasing
      semiring_norm(76) one_le_numeral)

text \<open>Values with at most 24 significant bits are representable.\<close>

lemma round32_exact:
  fixes n :: nat
  assumes "n < 2 ^ 24" "- 149 \<le> k"
  shows "round32 (of_nat n * 2 powi k) = of_nat n * 2 powi k"
proof (cases "n = 0")
  case True
  then show ?thesis by (simp add: round32_def)
next
  case False
  let ?x = "of_nat n * 2 powi k :: rat"
  have x: "0 < ?x" using False by simp
  have "?x < 2 powi 24 * 2 powi k"
  proof (rule mult_strict_right_mono)
    have "(of_nat n :: rat) < of_nat (2 ^ 24)" using assms(1) by (simp only: of_nat_less_iff)
    then show "(of_nat n :: rat) < 2 powi 24" by simp
  qed simp
  then have "2 powi rat_exp ?x < (2 :: rat) powi (24 + k)"
    using rat_exp_bounds(1) [OF x] power_int_add [of "2 :: rat" 24 k] by (metis le_less_trans zero_neq_numeral)
  then have e: "max (rat_exp ?x - 23) (- 149) \<le> k"
    using assms(2) by (simp add: powi_less_iff2)
  define d where "d = nat (k - max (rat_exp ?x - 23) (- 149))"
  have k: "k = int d + max (rat_exp ?x - 23) (- 149)" using e by (simp add: d_def)
  have "?x / quantum32 ?x = of_nat n * 2 ^ d"
    unfolding quantum32_def by (subst (1) k) (simp add: power_int_add)
  also have "\<dots> = of_int (int n * 2 ^ d)" by simp
  finally have "round_even (?x / quantum32 ?x) = int n * 2 ^ d" by (metis round_even_int)
  moreover have "\<bar>?x\<bar> = ?x" using x by simp
  ultimately have "round32 ?x = of_int (int n * 2 ^ d) * quantum32 ?x"
    using x by (simp add: round32_def)
  also have "\<dots> = ?x" unfolding quantum32_def by (subst (2) k) (simp add: power_int_add)
  finally show ?thesis .
qed

lemma round32_nat: "n < 2 ^ 24 \<Longrightarrow> round32 (of_nat n) = of_nat n"
  using round32_exact [of n 0] by simp

lemma round32_0 [simp]: "round32 0 = 0"
  by (simp add: round32_def)

lemma round32_nonneg: "0 \<le> x \<Longrightarrow> 0 \<le> round32 x"
proof (cases "x = 0")
  case False
  assume "0 \<le> x"
  then have x: "0 < x" using False by simp
  then have "round_even 0 \<le> round_even (\<bar>x\<bar> / quantum32 \<bar>x\<bar>)"
    by (intro round_even_mono) (simp add: less_imp_le)
  then have "0 \<le> round_even (\<bar>x\<bar> / quantum32 \<bar>x\<bar>)" using round_even_int [of 0] by simp
  then show ?thesis using x quantum32_pos [of x] by (simp add: round32_def less_imp_le)
qed simp

lemma round32_le_1: "0 \<le> x \<Longrightarrow> x \<le> 1 \<Longrightarrow> round32 x \<le> 1"
proof (cases "x = 0")
  case False
  assume x: "0 \<le> x" "x \<le> 1"
  then have p: "0 < x" using False by simp
  let ?m = "max (rat_exp x - 23) (- 149)"
  have "2 powi rat_exp x \<le> (2 :: rat) powi 0" using rat_exp_bounds(1) [OF p] x(2) by simp
  then have "rat_exp x \<le> 0" by (meson linorder_not_less powi_less_iff2)
  then have m: "?m \<le> 0" by simp
  have one: "1 / quantum32 x = of_int (2 ^ nat (- ?m))"
    using m by (simp add: quantum32_def power_int_def power_one_over field_simps)
  have "x / quantum32 x \<le> 1 / quantum32 x" using x(2) by (intro divide_right_mono) (auto intro: less_imp_le)
  then have "round_even (x / quantum32 x) \<le> round_even (of_int (2 ^ nat (- ?m)))"
    unfolding one by (rule round_even_mono)
  then have "round_even (x / quantum32 x) \<le> 2 ^ nat (- ?m)" by (simp only: round_even_int)
  then have "(of_int (round_even (x / quantum32 x)) :: rat) \<le> 1 / quantum32 x"
    unfolding one by (simp only: of_int_le_iff)
  then show ?thesis using p by (simp add: round32_def pos_le_divide_eq)
qed simp

section \<open>Arithmetic\<close>

definition f32_lift2 :: "(rat \<Rightarrow> rat \<Rightarrow> rat) \<Rightarrow> f32 \<Rightarrow> f32 \<Rightarrow> f32" where
  "f32_lift2 f x y = (case (x, y) of (Some a, Some b) \<Rightarrow> Some (round32 (f a b)) | _ \<Rightarrow> None)"

definition f32_of_nat :: "nat \<Rightarrow> f32" where
  "f32_of_nat n = Some (round32 (of_nat n))"

abbreviation f32_add :: "f32 \<Rightarrow> f32 \<Rightarrow> f32" where "f32_add \<equiv> f32_lift2 (+)"
abbreviation f32_sub :: "f32 \<Rightarrow> f32 \<Rightarrow> f32" where "f32_sub \<equiv> f32_lift2 (-)"
abbreviation f32_mul :: "f32 \<Rightarrow> f32 \<Rightarrow> f32" where "f32_mul \<equiv> f32_lift2 (*)"

text \<open>Division of a finite value by zero is an infinity unless the value is zero; the sources divide
  by an element count, and a sum over no elements is zero: NaN.\<close>

definition f32_div :: "f32 \<Rightarrow> f32 \<Rightarrow> f32" where
  "f32_div x y = (if y = Some 0 then None else f32_lift2 (/) x y)"

definition f32_less :: "f32 \<Rightarrow> f32 \<Rightarrow> bool" where
  "f32_less x y = (case (x, y) of (Some a, Some b) \<Rightarrow> a < b | _ \<Rightarrow> False)"

definition f32_abs :: "f32 \<Rightarrow> f32" where
  "f32_abs x = map_option abs x"

definition f32_eq :: "f32 \<Rightarrow> f32 \<Rightarrow> bool" where
  "f32_eq x y = (case (x, y) of (Some a, Some b) \<Rightarrow> a = b | _ \<Rightarrow> False)"

definition f32_to_int :: "f32 \<Rightarrow> int" where
  "f32_to_int x = (case x of Some a \<Rightarrow> (if 0 \<le> a then \<lfloor>a\<rfloor> else \<lceil>a\<rceil>) | None \<Rightarrow> - (2 ^ 31))"

lemma f32_ops [simp]:
  "f32_lift2 f (Some a) (Some b) = Some (round32 (f a b))"
  "b \<noteq> 0 \<Longrightarrow> f32_div (Some a) (Some b) = Some (round32 (a / b))"
  "f32_div x (Some 0) = None"
  "f32_less (Some a) (Some b) \<longleftrightarrow> a < b"
  "f32_abs (Some a) = Some \<bar>a\<bar>"
  "f32_eq (Some a) (Some b) \<longleftrightarrow> a = b"
  by (simp_all add: f32_lift2_def f32_div_def f32_less_def f32_abs_def f32_eq_def)

lemma f32_of_nat_exact: "n < 2 ^ 24 \<Longrightarrow> f32_of_nat n = Some (of_nat n)"
  by (simp add: f32_of_nat_def round32_nat)

lemma f32_div_pow2:
  assumes "n < 2 ^ 24" "k \<le> 23"
  shows "f32_div (f32_of_nat n) (f32_of_nat (2 ^ k)) = Some (of_nat n / 2 ^ k)"
proof -
  have p: "(2 :: nat) ^ k < 2 ^ 24" using assms(2) by (intro power_strict_increasing) auto
  have "round32 (of_nat n / 2 ^ k) = of_nat n / 2 ^ k"
    using round32_exact [OF assms(1), of "- int k"] assms(2) by (simp add: power_int_minus divide_inverse)
  moreover have "f32_of_nat (2 ^ k) = Some (2 ^ k)" using f32_of_nat_exact [OF p] by simp
  ultimately show ?thesis by (simp add: f32_of_nat_exact [OF assms(1)])
qed

end
