(* ===== verification/ByteStats.thy ===== *)
theory ByteStats
  imports Prelude Float32
begin

text \<open>
  The byte statistics of \<open>our_feature.h\<close> and \<open>storage/our_feature.cpp\<close>: one function per routine
  and the dispatcher \<open>cal\<close>. Sums and quotients are \<open>float\<close> operations with their rounding. The GNU
  Scientific Library's skewness and kurtosis and the C library's \<open>log2\<close> are parameters. \<open>None\<close> of
  the outer option is a read outside the vector. The lemmas show that the zero ratio of a block
  whose size is a power of two is exact, that \<open>Max\<close> and \<open>region_sample_max\<close> compute maxima, and
  that \<open>downsample\<close> picks every \<open>factor\<close>-th byte.
\<close>

datatype cal_mode = M_AVERAGE | M_FANGCHA | M_MAX | M_MIN | M_TOP_K | M_ENTROPY | M_SKEWNESS
  | M_KURTOSIS | M_DOWN_SAMPLE | M_ZERO_CAL

definition FILE_SIZE :: nat where
  "FILE_SIZE = 8192"

abbreviation f32_byte :: "u8 \<Rightarrow> f32" where
  "f32_byte c \<equiv> f32_of_nat (unat c)"

definition Average :: "bytes \<Rightarrow> f32" where
  "Average content =
     f32_div (foldl (\<lambda>s c. f32_add s (f32_byte c)) (Some 0) content) (f32_of_nat (length content))"

definition Fangcha :: "bytes \<Rightarrow> f32" where
  "Fangcha content =
     (let average = Average content
      in f32_div (foldl (\<lambda>s c. let d = f32_sub (f32_byte c) average in f32_add s (f32_mul d d)) (Some 0) content)
           (f32_of_nat (length content)))"

definition byte_Max :: "bytes \<Rightarrow> int" where
  "byte_Max content =
     f32_to_int (foldl (\<lambda>m c. if f32_less m (f32_byte c) then f32_byte c else m) (Some 0) content)"

definition byte_Min :: "bytes \<Rightarrow> int option" where
  "byte_Min content =
     map_option (\<lambda>c0. f32_to_int (foldl (\<lambda>m c. if f32_less (f32_byte c) m then f32_byte c else m) (f32_byte c0) content))
       (fetch content 0)"

text \<open>The ordered map from byte to count, iterated in key order.\<close>

definition byte_frequency :: "bytes \<Rightarrow> (u8 \<times> nat) list" where
  "byte_frequency content =
     map (\<lambda>k. (of_nat k, count_list content (of_nat k)))
       (filter (\<lambda>k. of_nat k \<in> set content) [0..<256])"

definition Shannon_entropy :: "(f32 \<Rightarrow> f32) \<Rightarrow> bytes \<Rightarrow> f32" where
  "Shannon_entropy flog2 content =
     foldl (\<lambda>entropy (k, n). let p = f32_div (f32_of_nat n) (f32_of_nat (length content))
         in f32_sub entropy (f32_mul p (flog2 p)))
       (Some 0) (byte_frequency content)"

text \<open>The loop over \<open>i += factor\<close>; with \<open>factor = 0\<close> the source does not return, and no caller
  passes that.\<close>

function downsample_from :: "bytes \<Rightarrow> nat \<Rightarrow> nat \<Rightarrow> bytes" where
  "downsample_from content factor i =
     (if 0 < factor \<and> i < length content then content ! i # downsample_from content factor (i + factor) else [])"
  by pat_completeness auto
termination
  by (relation "measure (\<lambda>(content, factor, i). length content - i)") auto

declare downsample_from.simps [simp del]

definition downsample :: "bytes \<Rightarrow> nat \<Rightarrow> bytes option" where
  "downsample content factor = (if factor = 0 \<and> content \<noteq> [] then None else Some (downsample_from content factor 0))"

function region_max_from :: "bytes \<Rightarrow> nat \<Rightarrow> nat \<Rightarrow> bytes" where
  "region_max_from content region_size i =
     (if 0 < region_size \<and> i < length content
      then (let stop = min (i + region_size) (length content)
            in word_of_int (f32_to_int (f32_of_nat (nat (byte_Max (take (stop - i) (drop i content))))))
               # region_max_from content region_size (i + region_size))
      else [])"
  by pat_completeness auto
termination
  by (relation "measure (\<lambda>(content, n, i). length content - i)") auto

declare region_max_from.simps [simp del]

definition region_sample_max :: "bytes \<Rightarrow> nat \<Rightarrow> bytes option" where
  "region_sample_max content region_size =
     (if region_size = 0 \<and> content \<noteq> [] then None else Some (region_max_from content region_size 0))"

definition zero_cal :: "bytes \<Rightarrow> f32" where
  "zero_cal content =
     f32_div (f32_of_nat (foldl (\<lambda>n c. if c = 0 then n + 1 else n) 0 content)) (f32_of_nat (length content))"

definition cal :: "(f32 \<Rightarrow> f32) \<Rightarrow> (bytes \<Rightarrow> f32) \<Rightarrow> (bytes \<Rightarrow> f32) \<Rightarrow> cal_mode \<Rightarrow> bytes \<Rightarrow> f32 option" where
  "cal flog2 gsl_skew gsl_kurtosis mode content =
     (case mode of
        M_AVERAGE \<Rightarrow> Some (Average content)
      | M_FANGCHA \<Rightarrow> Some (Fangcha content)
      | M_MAX \<Rightarrow> Some (f32_of_nat (nat (byte_Max content)))
      | M_MIN \<Rightarrow> map_option (\<lambda>m. f32_of_nat (nat m)) (byte_Min content)
      | M_TOP_K \<Rightarrow> (if FILE_SIZE \<le> length content then Some (Some 0) else None)
      | M_ENTROPY \<Rightarrow> Some (Shannon_entropy flog2 content)
      | M_SKEWNESS \<Rightarrow> (if FILE_SIZE \<le> length content then Some (gsl_skew (take FILE_SIZE content)) else None)
      | M_KURTOSIS \<Rightarrow> (if FILE_SIZE \<le> length content then Some (gsl_kurtosis (take FILE_SIZE content)) else None)
      | M_DOWN_SAMPLE \<Rightarrow> map_option (\<lambda>_. Some 0) (downsample content 8)
      | M_ZERO_CAL \<Rightarrow> Some (zero_cal content))"

section \<open>The zero ratio\<close>

definition zeros :: "bytes \<Rightarrow> nat" where
  "zeros content = length (filter (\<lambda>c. c = 0) content)"

lemma zero_count: "foldl (\<lambda>n c. if c = 0 then n + 1 else n) k content = k + zeros content"
  by (induction content arbitrary: k) (auto simp: zeros_def)

lemma zeros_le: "zeros content \<le> length content"
  by (simp add: zeros_def)

lemma zero_cal_pow2:
  assumes "length content = 2 ^ k" "k \<le> 23"
  shows "zero_cal content = Some (of_nat (zeros content) / 2 ^ k)"
proof -
  have "zeros content \<le> 2 ^ k" using zeros_le [of content] assms by simp
  also have "(2 :: nat) ^ k < 2 ^ 24" using assms(2) by (intro power_strict_increasing) auto
  finally have "zeros content < 2 ^ 24" .
  from f32_div_pow2 [OF this assms(2)] show ?thesis
    by (simp add: zero_cal_def zero_count assms(1) del: of_nat_power)
qed

section \<open>Maxima\<close>

lemma f32_byte_exact: "f32_byte c = Some (of_nat (unat c))"
proof -
  have "unat c < 2 ^ 24" by (rule less_trans [OF unat_u8_less]) simp
  then show ?thesis by (rule f32_of_nat_exact)
qed

lemma max_step: "(if f32_less (Some (of_nat n)) (f32_byte c) then f32_byte c else Some (of_nat n))
    = Some (of_nat (max n (unat c)))"
  unfolding f32_byte_exact f32_ops of_nat_less_iff by (simp only: max_def if_distrib [of Some] if_distrib [of of_nat]) auto

lemma max_fold:
  "foldl (\<lambda>m c. if f32_less m (f32_byte c) then f32_byte c else m) (Some (of_nat n)) content
    = Some (of_nat (foldl max n (map unat content)))"
  by (induction content arbitrary: n) (simp_all only: foldl_Nil foldl_Cons list.map max_step)

lemma foldl_max: "foldl max n xs = Max (insert n (set xs))" for n :: nat
proof (induction xs arbitrary: n)
  case (Cons x xs)
  have "Max (insert (max n x) (set xs)) = Max (insert n (insert x (set xs)))"
    by (cases "xs = []") (auto simp: max.assoc)
  then show ?case using Cons [of "max n x"] by simp
qed simp

lemma byte_Max_fold: "byte_Max content = int (foldl max 0 (map unat content))"
  using max_fold [of 0 content] by (simp add: byte_Max_def f32_to_int_def)

text \<open>the maximum of a vector is computed in \<open>float\<close> without error: \<open>Max\<close> answers the largest
  byte, and zero for an empty vector.\<close>

theorem byte_Max_correct: "byte_Max content = int (Max (insert 0 (unat ` set content)))"
  by (simp add: byte_Max_fold foldl_max)

lemma byte_Max_u8: "byte_Max content < 256"
proof -
  have "foldl max 0 (map unat content) < 256"
    unfolding foldl_max by (subst Max_less_iff) auto
  then show ?thesis unfolding byte_Max_fold by linarith
qed

section \<open>Sampling\<close>

lemma downsample_from_nth:
  assumes "0 < factor"
  shows "length (downsample_from content factor i) = (length content - i + factor - 1) div factor
    \<and> (\<forall>k < length (downsample_from content factor i). downsample_from content factor i ! k = content ! (i + k * factor))"
  using assms
proof (induction content factor i rule: downsample_from.induct)
  case (1 content factor i)
  show ?case
  proof (cases "i < length content")
    case True
    have d: "downsample_from content factor i = content ! i # downsample_from content factor (i + factor)"
      using True 1(2) by (subst downsample_from.simps) simp
    have "(length content - i + factor - 1) div factor = Suc ((length content - i - 1) div factor)"
    proof -
      have "length content - i + factor - 1 = (length content - i - 1) + factor" using True by simp
      then show ?thesis using 1(2) by (simp only: div_add_self2)
    qed
    moreover have "(length content - i - 1) div factor = (length content - (i + factor) + factor - 1) div factor"
    proof (cases "i + factor \<le> length content")
      case True
      then show ?thesis using 1(2) by simp
    next
      case False
      then show ?thesis using 1(2) True by simp
    qed
    ultimately show ?thesis
      using 1 True by (auto simp: d nth_Cons' algebra_simps less_Suc_eq_0_disj)
  next
    case False
    have "downsample_from content factor i = []" using False by (subst downsample_from.simps) simp
    then show ?thesis using False 1(2) by simp
  qed
qed

lemma region_max_from_nth:
  assumes "0 < n"
  shows "map unat (region_max_from content n i) =
    map (\<lambda>k. foldl max 0 (map unat (take n (drop (i + k * n) content)))) [0..<(length content - i + n - 1) div n]"
  using assms
proof (induction content n i rule: region_max_from.induct)
  case (1 content n i)
  show ?case
  proof (cases "i < length content")
    case True
    let ?r = "take n (drop i content)"
    have r: "take (min (i + n) (length content) - i) (drop i content) = ?r"
      by (simp add: min_def)
    have b: "foldl max 0 (map unat ?r) < 256"
      using byte_Max_u8 [of ?r] by (simp add: byte_Max_fold)
    then have "f32_to_int (f32_of_nat (foldl max 0 (map unat ?r))) = int (foldl max 0 (map unat ?r))"
      by (simp add: f32_of_nat_exact f32_to_int_def)
    then have d: "region_max_from content n i =
        of_nat (foldl max 0 (map unat ?r)) # region_max_from content n (i + n)"
      using True 1(2) by (subst region_max_from.simps) (simp add: r byte_Max_fold Let_def)
    have m: "(length content - i + n - 1) div n = Suc ((length content - (i + n) + n - 1) div n)"
    proof -
      have "length content - i + n - 1 = (length content - i - 1) + n" using True by simp
      then have "(length content - i + n - 1) div n = Suc ((length content - i - 1) div n)"
        using 1(2) by (simp only: div_add_self2)
      moreover have "(length content - i - 1) div n = (length content - (i + n) + n - 1) div n"
        using 1(2) True by (cases "i + n \<le> length content") auto
      ultimately show ?thesis by simp
    qed
    have u: "[0..<Suc k] = 0 # map Suc [0..<k]" for k by (simp add: upt_conv_Cons map_Suc_upt)
    show ?thesis
      unfolding d m u using 1 True b by (simp add: o_def algebra_simps)
  next
    case False
    have "region_max_from content n i = []" using False by (subst region_max_from.simps) simp
    then show ?thesis using False 1(2) by simp
  qed
qed

text \<open>C15: \<open>region_sample_max\<close> answers one byte for every \<open>n\<close> bytes of the input, the last region
  possibly shorter, and each is the largest byte of its region.\<close>

theorem region_sample_max_correct:
  assumes "0 < n"
  shows "\<exists>out. region_sample_max content n = Some out \<and> length out = (length content + n - 1) div n \<and>
    (\<forall>k < length out. unat (out ! k) = Max (insert 0 (unat ` set (take n (drop (k * n) content)))))"
proof -
  let ?out = "region_max_from content n 0"
  have m: "map unat ?out =
      map (\<lambda>k. foldl max 0 (map unat (take n (drop (k * n) content)))) [0..<(length content + n - 1) div n]"
    using region_max_from_nth [OF assms, of content 0] by simp
  from arg_cong [OF m, of length] have l: "length ?out = (length content + n - 1) div n" by simp
  have "unat (?out ! k) = Max (insert 0 (unat ` set (take n (drop (k * n) content))))" if "k < length ?out" for k
    using arg_cong [OF m, of "\<lambda>xs. xs ! k"] that l by (simp add: foldl_max)
  then show ?thesis using assms l by (simp add: region_sample_max_def)
qed

theorem region_sample_max_correct_witness:
  "\<exists>out. region_sample_max [3, 9, 1, 4, 7] 2 = Some out \<and> length out = 3 \<and> unat (out ! 1) = 4"
  using region_sample_max_correct [of 2 "[3, 9, 1, 4, 7]"] by auto

end
