(* ===== verification/Features.thy ===== *)
theory Features
  imports RabinRoll Gear Dedup ByteStats "HOL-Library.Multiset"
begin

text \<open>
  The feature calculators of \<open>feature/features.h\<close> and \<open>feature/features.cpp\<close>. A \<open>Feature\<close> is the
  variant the source declares: a list of levels, one level, or a plain vector; a level holds
  integers or floats. The extraction loops keep the widths of the source: N-Transform and Odess
  carry a 64-bit fingerprint and 32-bit sub-features, \<open>OdessSubfeatures\<close> a 32-bit fingerprint and
  64-bit sub-features. The stack contexts of Finesse start with indeterminate members (\<open>h0\<close>).

  Lemmas: what a sub-feature is (the least transform of the sampled fingerprints, unless a
  transform is zero); that the two Odess loops agree; that Finesse is the polynomial hash of
  sorted maxima and so does not see the order of sub-chunks within a group; which sub-features the
  Palantir groups read.
\<close>

datatype level = LInts "u64 list" | LFloats "f32 list"
datatype feature = FLevels "level list" | FLevel level | FVec "u64 list"

definition default_finesse_sf_cnt :: nat where "default_finesse_sf_cnt = 3"
definition default_finesse_sf_subf :: nat where "default_finesse_sf_subf = 4"
definition default_odess_sf_cnt :: nat where "default_odess_sf_cnt = 3"
definition default_odess_sf_subf :: nat where "default_odess_sf_subf = 4"
definition default_odess_mask :: u64 where "default_odess_mask = push_bit 7 1 - 1"

section \<open>Linear transforms of a fingerprint\<close>

definition TRANS_M :: "u32 list" where
  "TRANS_M = [0x5b49898a, 0xe4f94e27, 0x95f658b2, 0x8f9c99fc, 0xeba8d4d8, 0xba2c8e92,
    0xa868aeb4, 0xd767df82, 0x843606a4, 0xc1e70129, 0x32d9d1b0, 0xeb91e53c]"

definition TRANS_A :: "u32 list" where
  "TRANS_A = [0xff4be8c, 0x6f485986, 0x12843ff, 0x5b47dc4d, 0x7faa9b8a, 0xd547b8ba,
    0xf9979921, 0x4f5400da, 0x725f79a9, 0x3c9321ac, 0x32716d, 0x3f5adf5d]"

text \<open>\<open>M[j] * finger_print + A[j]\<close> with a 64-bit fingerprint, assigned to \<open>uint32_t\<close>; and with a
  32-bit fingerprint, assigned to \<open>uint64_t\<close>.\<close>

definition transform64 :: "nat \<Rightarrow> u64 \<Rightarrow> u32" where
  "transform64 j fp = ucast (ucast (TRANS_M ! j) * fp + ucast (TRANS_A ! j))"

definition transform32 :: "nat \<Rightarrow> u32 \<Rightarrow> u64" where
  "transform32 j fp = ucast (TRANS_M ! j * fp + TRANS_A ! j)"

definition sub_update :: "'a::len word \<Rightarrow> 'a word \<Rightarrow> 'a word" where
  "sub_update sub t = (if t \<le> sub \<or> 0 = sub then t else sub)"

text \<open>The inner loop over the sub-features.\<close>

definition subs_update :: "(nat \<Rightarrow> 'b \<Rightarrow> 'a::len word) \<Rightarrow> 'b \<Rightarrow> 'a word list \<Rightarrow> 'a word list" where
  "subs_update tr fp subs = map (\<lambda>(j, s). sub_update s (tr j fp)) (enumerate 0 subs)"

section \<open>N-Transform and Odess\<close>

definition ntransform_step :: "u32 list \<times> u64 \<Rightarrow> u8 \<Rightarrow> u32 list \<times> u64" where
  "ntransform_step st b = (let fp = gear_step (snd st) b in (subs_update transform64 fp (fst st), fp))"

definition odess_step :: "u64 \<Rightarrow> u32 list \<times> u64 \<Rightarrow> u8 \<Rightarrow> u32 list \<times> u64" where
  "odess_step msk st b =
     (let fp = gear_step (snd st) b
      in (if fp AND msk = 0 then subs_update transform64 fp (fst st) else fst st, fp))"

text \<open>Grouping: the bytes of the \<open>uint32_t\<close> array, hashed group by group.\<close>

definition super_features32 :: "nat \<Rightarrow> nat \<Rightarrow> u32 list \<Rightarrow> u64 list" where
  "super_features32 sf_cnt sf_subf subs =
     (let hash_buf = concat (map (word_image 4) subs)
      in map (\<lambda>i. gear_hash 0 (take (sf_subf * 4) (drop (i * sf_subf * 4) hash_buf))) [0..<sf_cnt])"

definition NTransformFeature :: "nat \<Rightarrow> nat \<Rightarrow> chunk \<Rightarrow> feature option" where
  "NTransformFeature sf_cnt sf_subf c =
     do {
       content \<leftarrow> chunk_data c;
       if sf_cnt * sf_subf \<le> length TRANS_M \<or> content = [] then
         Some (FVec (super_features32 sf_cnt sf_subf
                 (fst (foldl ntransform_step (replicate (sf_cnt * sf_subf) 0, 0) content))))
       else None
     }"

definition OdessFeature :: "nat \<Rightarrow> nat \<Rightarrow> u64 \<Rightarrow> chunk \<Rightarrow> feature option" where
  "OdessFeature sf_cnt sf_subf msk c =
     do {
       content \<leftarrow> chunk_data c;
       if sf_cnt * sf_subf \<le> length TRANS_M \<or> content = [] then
         Some (FVec (super_features32 sf_cnt sf_subf
                 (fst (foldl (odess_step msk) (replicate (sf_cnt * sf_subf) 0, 0) content))))
       else None
     }"

text \<open>The 32-bit fingerprint: the sum with the 64-bit table entry is truncated.\<close>

definition gear_step32 :: "u32 \<Rightarrow> u8 \<Rightarrow> u32" where
  "gear_step32 fp b = ucast (ucast (push_bit 1 fp) + gear b)"

definition odess_sub_step :: "u64 list \<times> u32 \<Rightarrow> u8 \<Rightarrow> u64 list \<times> u32" where
  "odess_sub_step st b =
     (let fp = gear_step32 (snd st) b
      in (if fp AND ucast default_odess_mask = 0 then subs_update transform32 fp (fst st) else fst st, fp))"

definition odess_sub_features :: "bytes \<Rightarrow> u64 list" where
  "odess_sub_features content = fst (foldl odess_sub_step (replicate 12 0, 0) content)"

definition OdessSubfeatures :: "chunk \<Rightarrow> feature option" where
  "OdessSubfeatures c = map_option (\<lambda>content. FVec (odess_sub_features content)) (chunk_data c)"

section \<open>Palantir\<close>

text \<open>The lambda \<open>group\<close>: its inner loop starts at byte 4 of each group.\<close>

definition palantir_group :: "u64 list \<Rightarrow> nat \<Rightarrow> nat \<Rightarrow> u64 list" where
  "palantir_group sub_features sf_cnt sf_subf =
     (let hash_buf = concat (map (word_image 8) sub_features)
      in map (\<lambda>i. gear_hash 0 (drop 4 (take (sf_subf * 8) (drop (i * sf_subf * 8) hash_buf)))) [0..<sf_cnt])"

definition PalantirFeature :: "chunk \<Rightarrow> feature option" where
  "PalantirFeature c =
     do {
       content \<leftarrow> chunk_data c;
       let sub_features = odess_sub_features content;
       Some (FLevels
         [LInts (palantir_group sub_features 3 4),
          LInts (palantir_group sub_features 4 3),
          LInts (palantir_group sub_features 6 2),
          LFloats [zero_cal content]])
     }"

section \<open>Finesse\<close>

fun finesse_scan :: "rabin_globals \<Rightarrow> rabin_t \<Rightarrow> u64 \<Rightarrow> bytes \<Rightarrow> u64" where
  "finesse_scan g h m [] = m"
| "finesse_scan g h m (b # bs) =
     (let h' = rabin_append g b h in finesse_scan g h' (max (rw_digest h') m) bs)"

definition finesse_sub :: "rabin_t \<Rightarrow> rabin_globals \<Rightarrow> bytes \<Rightarrow> (u64 \<times> rabin_globals) option" where
  "finesse_sub h0 g piece =
     do {
       (g', h) \<leftarrow> rabin_init g h0;
       Some (finesse_scan g' h 0 piece, g')
     }"

definition finesse_super :: "rabin_t \<Rightarrow> rabin_globals \<Rightarrow> u64 list \<Rightarrow> (u64 \<times> rabin_globals) option" where
  "finesse_super h0 g subs =
     do {
       (g', h) \<leftarrow> rabin_init g h0;
       Some (rw_digest (foldl (\<lambda>h b. rabin_append g' b h) h (concat (map (word_image 8) subs))), g')
     }"

fun map_globals :: "(rabin_globals \<Rightarrow> 'a \<Rightarrow> ('b \<times> rabin_globals) option) \<Rightarrow> rabin_globals \<Rightarrow> 'a list
    \<Rightarrow> ('b list \<times> rabin_globals) option" where
  "map_globals f g [] = Some ([], g)"
| "map_globals f g (x # xs) =
     do {
       (y, g') \<leftarrow> f g x;
       (ys, g'') \<leftarrow> map_globals f g' xs;
       Some (y # ys, g'')
     }"

definition sub_chunks :: "nat \<Rightarrow> bytes \<Rightarrow> bytes list" where
  "sub_chunks n content =
     (let sub_chunk_length = length content div n
      in map (\<lambda>i. take sub_chunk_length (drop (i * sub_chunk_length) content)) [0..<n])"

definition FinesseFeature ::
  "nat \<Rightarrow> nat \<Rightarrow> rabin_t \<Rightarrow> rabin_globals \<Rightarrow> chunk \<Rightarrow> (feature \<times> rabin_globals) option" where
  "FinesseFeature sf_cnt sf_subf h0 g c =
     (if sf_subf * sf_cnt = 0 then None
      else do {
        content \<leftarrow> chunk_data c;
        (subs, g1) \<leftarrow> map_globals (finesse_sub h0) g (sub_chunks (sf_cnt * sf_subf) content);
        let sorted = map (\<lambda>i. sort (take sf_subf (drop (i * sf_subf) subs))) [0..<sf_cnt];
        (supers, g2) \<leftarrow> map_globals (finesse_super h0) g1 sorted;
        Some (FVec supers, g2)
      })"

section \<open>Truncation commutes with the arithmetic\<close>

lemma ucast32_add: "(ucast (x + y :: u64) :: u32) = ucast x + ucast y"
proof transfer
  fix x y :: int
  have m: "take_bit 32 (take_bit 64 z) = take_bit 32 z" for z :: int by (simp add: take_bit_take_bit)
  have "take_bit 32 (take_bit 64 x + take_bit 64 y) =
      take_bit 32 (take_bit 32 (take_bit 64 x) + take_bit 32 (take_bit 64 y))" by (simp only: take_bit_add)
  then show "take_bit LENGTH(32) (take_bit LENGTH(64) (x + y)) =
      take_bit LENGTH(32) (take_bit LENGTH(64) x + take_bit LENGTH(64) y)"
    by (simp add: m take_bit_add)
qed

lemma ucast32_mult: "(ucast (x * y :: u64) :: u32) = ucast x * ucast y"
proof transfer
  fix x y :: int
  have m: "take_bit 32 (take_bit 64 z) = take_bit 32 z" for z :: int by (simp add: take_bit_take_bit)
  have "take_bit 32 (take_bit 64 x * take_bit 64 y) =
      take_bit 32 (take_bit 32 (take_bit 64 x) * take_bit 32 (take_bit 64 y))" by (simp only: take_bit_mult)
  then show "take_bit LENGTH(32) (take_bit LENGTH(64) (x * y)) =
      take_bit LENGTH(32) (take_bit LENGTH(64) x * take_bit LENGTH(64) y)"
    by (simp add: m take_bit_mult)
qed

lemma ucast32_up [simp]: "(ucast (ucast (x :: u32) :: u64) :: u32) = x"
  by (rule bit_word_eqI) (auto simp: bit_simps)

lemma gear_step_low32: "ucast (gear_step fp b) = gear_step32 (ucast fp) b"
proof -
  have two: "(ucast (2 :: u64) :: u32) = 2" by simp
  have "(ucast (push_bit 1 fp) :: u32) = push_bit 1 (ucast fp)"
    by (simp add: push_bit_eq_mult ucast32_mult two)
  then show ?thesis by (simp add: gear_step_def gear_step32_def ucast32_add del: push_bit_of_Suc_0)
qed

lemma transform_low32: "ucast (transform64 j fp) = transform32 j (ucast fp)"
  by (simp add: transform64_def transform32_def ucast32_add ucast32_mult)

lemma sample_low32: "ucast fp AND ucast default_odess_mask = (0 :: u32) \<longleftrightarrow> fp AND default_odess_mask = 0"
proof -
  have m: "default_odess_mask = mask 7" "ucast default_odess_mask = (mask 7 :: u32)"
    by (simp_all add: default_odess_mask_def mask_eq_exp_minus_1)
  have "ucast fp AND mask 7 = (0 :: u32) \<longleftrightarrow> fp AND mask 7 = 0"
  proof -
    have l: "n < 7 \<Longrightarrow> n < 32" "n < 7 \<Longrightarrow> n < 64" for n :: nat by simp_all
    show ?thesis unfolding bit_eq_iff by (auto simp: bit_simps) (use l in blast)+
  qed
  then show ?thesis unfolding m(2) unfolding m(1) .
qed

section \<open>Sub-features as minima\<close>

lemma length_subs_update [simp]: "length (subs_update tr fp subs) = length subs"
  by (simp add: subs_update_def)

lemma nth_subs_update [simp]: "j < length subs \<Longrightarrow> subs_update tr fp subs ! j = sub_update (subs ! j) (tr j fp)"
  by (simp add: subs_update_def nth_enumerate_eq)

lemma length_subs_fold [simp]: "length (foldl (\<lambda>s fp. subs_update tr fp s) subs fps) = length subs"
  by (induction fps arbitrary: subs) auto

lemma nth_subs_fold:
  "j < length subs \<Longrightarrow> foldl (\<lambda>s fp. subs_update tr fp s) subs fps ! j =
     foldl sub_update (subs ! j) (map (tr j) fps)"
  by (induction fps arbitrary: subs) auto

text \<open>The fingerprints of the prefixes of the content, those that are sampled.\<close>

definition sampled :: "u64 \<Rightarrow> bytes \<Rightarrow> u64 list" where
  "sampled msk content =
     filter (\<lambda>fp. fp AND msk = 0) (map (\<lambda>i. gear_hash 0 (take (Suc i) content)) [0..<length content])"

lemma sampled_Nil [simp]: "sampled msk [] = []"
  by (simp add: sampled_def)

lemma sampled_snoc: "sampled msk (content @ [b]) =
    sampled msk content @ (if gear_hash 0 (content @ [b]) AND msk = 0 then [gear_hash 0 (content @ [b])] else [])"
proof -
  have "map (\<lambda>i. gear_hash 0 (take (Suc i) (content @ [b]))) [0..<length (content @ [b])] =
      map (\<lambda>i. gear_hash 0 (take (Suc i) content)) [0..<length content] @ [gear_hash 0 (content @ [b])]"
    by (auto simp: foldl_append [symmetric] simp del: foldl_append)
  then show ?thesis by (simp only: sampled_def filter_append) simp
qed

lemma odess_fold:
  "foldl (odess_step msk) (subs, 0) content =
     (foldl (\<lambda>s fp. subs_update transform64 fp s) subs (sampled msk content), gear_hash 0 content)"
  by (induction content rule: rev_induct) (simp_all add: odess_step_def Let_def sampled_snoc)

lemma ntransform_odess: "ntransform_step = odess_step 0"
  by (intro ext) (simp add: ntransform_step_def odess_step_def Let_def)

lemma gear32_fold: "foldl gear_step32 0 content = ucast (gear_hash 0 content)"
  by (induction content rule: rev_induct) (simp_all add: gear_step_low32)

lemma odess_sub_fold:
  "foldl odess_sub_step (subs, 0) content =
     (foldl (\<lambda>s fp. subs_update transform32 (ucast fp) s) subs (sampled default_odess_mask content),
      ucast (gear_hash 0 content))"
proof (induction content rule: rev_induct)
  case (snoc b content)
  then show ?case
    using sample_low32 [of "gear_hash 0 (content @ [b])"]
    by (simp add: odess_sub_step_def Let_def sampled_snoc gear_step_low32)
qed simp

lemma sub_update_ucast: "sub_update (ucast s :: u64) (ucast t) = ucast (sub_update s t :: u32)"
proof -
  have le: "(ucast t :: u64) \<le> ucast s \<longleftrightarrow> t \<le> s"
  proof -
    have "take_bit 64 (unat x) = unat x" for x :: u32
      using less_trans [OF unsigned_less [of x], of "2 ^ 64"] by (simp add: take_bit_nat_eq_self_iff)
    then show ?thesis unfolding word_le_nat_alt by (simp add: unsigned_ucast_eq)
  qed
  have z: "(0 :: u64) = ucast s \<longleftrightarrow> 0 = s"
    by (metis ucast32_up unsigned_0)
  show ?thesis by (auto simp: sub_update_def le z)
qed

lemma sub_fold_ucast: "foldl sub_update (ucast s :: u64) (map ucast ts) = ucast (foldl sub_update (s :: u32) ts)"
  by (induction ts arbitrary: s) (simp_all add: sub_update_ucast)

lemma length_odess_sub_features [simp]: "length (odess_sub_features content) = 12"
  using length_subs_fold [of "\<lambda>j fp. transform32 j (ucast fp)" "replicate 12 0" "sampled default_odess_mask content"]
  by (simp add: odess_sub_features_def odess_sub_fold subs_update_def)

text \<open>C16: the two Odess extractors agree: \<open>OdessSubfeatures\<close>, which keeps a 32-bit fingerprint and
  computes in 32 bits, returns the widened sub-features that \<open>OdessFeature\<close> computes from a 64-bit
  fingerprint before it groups them.\<close>

theorem odess_loops_agree:
  "odess_sub_features content =
     map ucast (fst (foldl (odess_step default_odess_mask) (replicate 12 0, 0) content))"
proof (rule nth_equalityI)
  fix j
  assume "j < length (odess_sub_features content)"
  then have j: "j < 12" by simp
  have t: "map (\<lambda>fp. transform32 j (ucast fp)) fps = map ucast (map (transform64 j) fps)" for fps
    by (simp add: transform_low32)
  have "foldl (\<lambda>s fp. subs_update transform32 (ucast fp) s) subs fps =
      foldl (\<lambda>s fp. subs_update (\<lambda>j fp. transform32 j (ucast fp)) fp s) subs fps" for subs and fps :: "u64 list"
    by (simp add: subs_update_def)
  then show "odess_sub_features content ! j =
      map ucast (fst (foldl (odess_step default_odess_mask) (replicate 12 0, 0) content)) ! j"
    using j sub_fold_ucast [of 0]
    by (simp add: odess_sub_features_def odess_sub_fold odess_fold nth_subs_fold t del: map_map)
qed (simp add: odess_fold)

text \<open>The value of a run of updates: the minimum, restarted after every transform that is zero.\<close>

lemma sub_fold_min:
  assumes "0 \<notin> set ts"
  shows "foldl sub_update 0 ts = (if ts = [] then 0 else Min (set ts))"
  using assms
proof (induction ts rule: rev_induct)
  case (snoc t ts)
  show ?case
  proof (cases "ts = []")
    case True
    then show ?thesis by (simp add: sub_update_def)
  next
    case False
    then have m: "foldl sub_update 0 ts = Min (set ts)" using snoc by simp
    have "Min (set ts) \<in> set ts" using False by (intro Min_in) auto
    then have "Min (set ts) \<noteq> 0" using snoc.prems by force
    then have "sub_update (Min (set ts)) t = min t (Min (set ts))" by (auto simp: sub_update_def min_def)
    then show ?thesis using False by (simp add: m)
  qed
qed simp

lemma sub_fold_restart: "foldl sub_update s (us @ 0 # vs) = foldl sub_update 0 vs"
  by (simp add: sub_update_def)

lemma sub_fold_last_zero:
  defines "vs \<equiv> \<lambda>ts. rev (takeWhile (\<lambda>t. t \<noteq> 0) (rev ts))"
  shows "foldl sub_update 0 ts = (if vs ts = [] then 0 else Min (set (vs ts)))"
proof -
  have ts: "ts = rev (dropWhile (\<lambda>t. t \<noteq> 0) (rev ts)) @ vs ts"
    unfolding vs_def rev_append [symmetric] by simp
  have "0 \<notin> set (vs ts)" by (auto simp: vs_def dest: set_takeWhileD)
  note m = sub_fold_min [OF this]
  show ?thesis
  proof (cases "dropWhile (\<lambda>t. t \<noteq> 0) (rev ts)")
    case Nil
    then have "ts = vs ts" using ts by (simp only: Nil rev.simps append_Nil)
    then show ?thesis using m by metis
  next
    case (Cons z zs)
    then have "z = 0" using hd_dropWhile [of "\<lambda>t. t \<noteq> 0" "rev ts"] by force
    then have "ts = rev zs @ 0 # vs ts" using ts Cons by simp
    then have "foldl sub_update 0 ts = foldl sub_update 0 (vs ts)" using sub_fold_restart [of 0 "rev zs" "vs ts"] by simp
    then show ?thesis using m by simp
  qed
qed

text \<open>C17: the sub-features of \<open>OdessSubfeatures\<close>: with \<open>h i\<close> the 32-bit fingerprint after byte \<open>i\<close> and \<open>ts\<close>
  the \<open>j\<close>-th linear transforms, in order, of the fingerprints the mask selects, the \<open>j\<close>-th sub-feature is
  the least of the transforms after the last one that is zero, hence of all of them when none is zero,
  and zero when there are none: since zero also stands for \<open>not initialised\<close>, a transform that is zero
  makes the loop forget every earlier one.\<close>

theorem odess_sub_feature_min:
  assumes "ck_wf c" "j < 12"
  shows "\<exists>fs. OdessSubfeatures c = Some (FVec fs) \<and> length fs = 12 \<and> fs ! j =
    (let h = (\<lambda>i. foldl gear_step32 0 (take (Suc i) (ck_buf c)));
         ts = map (\<lambda>i. transform32 j (h i))
                (filter (\<lambda>i. h i AND ucast default_odess_mask = 0) [0..<length (ck_buf c)]);
         vs = rev (takeWhile (\<lambda>t. t \<noteq> 0) (rev ts))
     in if vs = [] then 0 else Min (set vs))"
proof -
  let ?c = "ck_buf c" and ?h = "\<lambda>i. foldl gear_step32 0 (take (Suc i) (ck_buf c)) :: u32"
  define ts where "ts = map (\<lambda>i. transform32 j (?h i)) (filter (\<lambda>i. ?h i AND ucast default_odess_mask = 0) [0..<length ?c])"
  have "map (\<lambda>fp. transform32 j (ucast fp)) (sampled default_odess_mask ?c) = ts"
    by (simp add: ts_def sampled_def filter_map comp_def gear32_fold sample_low32)
  moreover have "foldl (\<lambda>s fp. subs_update transform32 (ucast fp) s) subs fps =
      foldl (\<lambda>s fp. subs_update (\<lambda>j fp. transform32 j (ucast fp)) fp s) subs fps" for subs and fps :: "u64 list"
    by (simp add: subs_update_def)
  ultimately have "odess_sub_features ?c ! j = foldl sub_update 0 ts"
    using assms(2) by (simp add: odess_sub_features_def odess_sub_fold nth_subs_fold)
  then show ?thesis
    using sub_fold_last_zero [of ts] assms(1)
    by (intro exI [of _ "odess_sub_features ?c"]) (simp add: OdessSubfeatures_def Let_def ts_def)
qed

theorem odess_sub_feature_min_witness:
  "\<exists>fs. OdessSubfeatures (make_chunk [0, 33] False 2 0) = Some (FVec fs) \<and> fs ! 0 = 0xc184e28c"
proof -
  have g: "gear_step32 0 0 = 0x032474b3" "gear_step32 0x032474b3 33 = 0x8ffcea00"
    by (simp_all add: gear_step32_def gear_def GEAR_TABLE_def)
  have k: "(0x032474b3 :: u32) AND ucast default_odess_mask \<noteq> 0" "(0x8ffcea00 :: u32) AND ucast default_odess_mask = 0"
    by (simp_all add: default_odess_mask_def)
  have t: "transform32 0 0x8ffcea00 = 0xc184e28c" by (simp add: transform32_def TRANS_M_def TRANS_A_def)
  have u: "[0..<length [0, 33 :: u8]] = [0, 1]" by (simp add: upt_rec)
  have "ck_wf (make_chunk [0, 33] False 2 0)" by (simp add: ck_wf_def)
  from odess_sub_feature_min [OF this, of 0] show ?thesis
    unfolding make_chunk_sel u by (auto simp: Let_def g k t)
qed

section \<open>The Palantir groups\<close>

lemma group_bytes:
  assumes "(i + 1) * n \<le> length xs"
  shows "take (n * k) (drop (i * n * k) (concat (map (word_image k) xs))) =
    concat (map (word_image k) (take n (drop (i * n) xs)))"
proof -
  have l: "length (concat (map (word_image k) ys)) = length ys * k" for ys :: "'a::len word list"
    by (induction ys) auto
  have "concat (map (word_image k) xs) =
      concat (map (word_image k) (take (i * n) xs)) @ concat (map (word_image k) (drop (i * n) xs))"
    by (metis append_take_drop_id concat_append map_append)
  moreover have "length (concat (map (word_image k) (take (i * n) xs))) = i * n * k"
    using assms by (simp add: l)
  ultimately have "drop (i * n * k) (concat (map (word_image k) xs)) =
      concat (map (word_image k) (drop (i * n) xs))" by simp
  moreover have "concat (map (word_image k) (drop (i * n) xs)) =
      concat (map (word_image k) (take n (drop (i * n) xs))) @ concat (map (word_image k) (drop n (drop (i * n) xs)))"
    by (metis append_take_drop_id concat_append map_append)
  moreover have "length (concat (map (word_image k) (take n (drop (i * n) xs)))) = n * k"
    using assms by (simp add: l)
  ultimately show ?thesis by simp
qed

lemma high_half_zero:
  assumes "unat (x :: u64) < 2 ^ 32"
  shows "drop 4 (word_image 8 x) = replicate 4 0"
proof -
  have z: "le_nat n 0 = replicate n 0" for n by (induction n) auto
  have "unat x div 256 ^ 4 = 0" using assms by simp
  then have "word_image 8 x = le_nat 4 (unat x) @ le_nat 4 0"
    unfolding word_image_def using nat_le_split [of 4 8 "unat x"] by simp
  then show ?thesis by (simp only: drop_append length_le_nat z) simp
qed

text \<open>C18: the byte loop of a Palantir group starts at offset 4, which skips the low half of the group's
  first sub-feature, and the high half is zero: the super-features do not depend on the first
  sub-feature of any group, although each is meant to combine \<open>sf_subf\<close> of them.\<close>

theorem palantir_group_skips_first:
  assumes "0 < sf_subf" "length s = sf_cnt * sf_subf" "length t = sf_cnt * sf_subf"
    and "\<forall>x \<in> set s \<union> set t. unat x < 2 ^ 32"
    and "\<forall>k < sf_cnt * sf_subf. k mod sf_subf \<noteq> 0 \<longrightarrow> s ! k = t ! k"
  shows "palantir_group s sf_cnt sf_subf = palantir_group t sf_cnt sf_subf"
proof -
  have "drop 4 (take (sf_subf * 8) (drop (i * sf_subf * 8) (concat (map (word_image 8) s)))) =
      drop 4 (take (sf_subf * 8) (drop (i * sf_subf * 8) (concat (map (word_image 8) t))))"
    if i: "i < sf_cnt" for i
  proof -
    have le: "(i + 1) * sf_subf \<le> sf_cnt * sf_subf" using i by (intro mult_right_mono) auto
    then have lt: "i * sf_subf < sf_cnt * sf_subf" using assms(1) i by simp
    define n where "n = sf_subf - 1"
    have n: "sf_subf = Suc n" using assms(1) by (simp add: n_def)
    have split: "take sf_subf (drop (i * sf_subf) xs) = xs ! (i * sf_subf) # take n (drop (Suc (i * sf_subf)) xs)"
      if "length xs = sf_cnt * sf_subf" for xs :: "u64 list"
      using that lt by (subst n, subst Cons_nth_drop_Suc [symmetric]) simp_all
    have rest: "take n (drop (Suc (i * sf_subf)) s) = take n (drop (Suc (i * sf_subf)) t)"
    proof (rule nth_equalityI)
      fix k
      assume k: "k < length (take n (drop (Suc (i * sf_subf)) s))"
      then have kn: "k < n" by simp
      have "Suc (i * sf_subf) + k < sf_cnt * sf_subf" using k assms(2) by (simp, linarith)
      moreover have "(Suc (i * sf_subf) + k) mod sf_subf = Suc k"
      proof -
        have "Suc (i * sf_subf) + k = Suc k + i * sf_subf" by simp
        then have "(Suc (i * sf_subf) + k) mod sf_subf = Suc k mod sf_subf" by (simp only: mod_mult_self1)
        then show ?thesis using kn by (simp add: n)
      qed
      ultimately show "take n (drop (Suc (i * sf_subf)) s) ! k = take n (drop (Suc (i * sf_subf)) t) ! k"
        using assms(2,3,5) kn by simp
    qed (simp add: assms(2,3))
    have "drop 4 (word_image 8 (s ! (i * sf_subf))) = drop 4 (word_image 8 (t ! (i * sf_subf)))"
      using assms(2-4) lt by (simp add: high_half_zero)
    then show ?thesis
      using group_bytes [of i sf_subf s 8] group_bytes [of i sf_subf t 8] le assms(2,3)
      by (simp add: split rest)
  qed
  then show ?thesis by (simp add: palantir_group_def Let_def)
qed

theorem palantir_group_skips_first_witness:
  "palantir_group [1, 2, 3, 4] 2 2 = palantir_group [9, 2, 8, 4] 2 2"
proof (rule palantir_group_skips_first)
  show "\<forall>k < 2 * 2. k mod 2 \<noteq> 0 \<longrightarrow> [1, 2, 3, 4 :: u64] ! k = [9, 2, 8, 4] ! k"
  proof (intro allI impI)
    fix k :: nat
    assume "k < 2 * 2" "k mod 2 \<noteq> 0"
    then have "k = 1 \<or> k = 3" by presburger
    then show "[1, 2, 3, 4 :: u64] ! k = [9, 2, 8, 4] ! k" by auto
  qed
qed simp_all

section \<open>Finesse\<close>

text \<open>A sub-feature is the largest polynomial hash of the prefixes of its sub-chunk, a super-feature the
  polynomial hash of the bytes of a sorted group; both hashes start from the byte one.\<close>

definition finesse_value :: "bytes \<Rightarrow> u64" where
  "finesse_value piece =
     foldl max 0 (map (\<lambda>k. poly_hash rabin_pol (1 # take (Suc k) piece)) [0..<length piece])"

definition finesse_group_value :: "u64 list \<Rightarrow> u64" where
  "finesse_group_value subs = poly_hash rabin_pol (1 # concat (map (word_image 8) subs))"

lemma rabin_init_start:
  assumes "rabin_ctx_ok g h0"
  obtains g' h where "rabin_init g h0 = Some (g', h)" "rabin_ctx_ok g' h0"
    "good_tables rabin_pol (g_tables g')" "rw_digest h = poly_hash rabin_pol [1]" "rb_shift h = 45"
    "deg (rw_digest h) < 53"
proof -
  from rabin_init_ok [OF assms] obtain g' where i: "rabin_init g h0 = Some (g', rw_reset (g_tables g') 45 h0)"
    and t: "good_tables rabin_pol (g_tables g')" by blast
  let ?h = "rw_reset (g_tables g') 45 h0"
  have d: "nat (deg rabin_pol) - 8 = 45" by (simp add: rabin_pol_deg)
  have "rw_digest ?h = poly_hash rabin_pol (replicate 47 0 @ [1])"
    using rw_reset_roll [OF rabin_pol_ok t, of h0, unfolded d] by (simp add: roll_inv_def WINSIZE_def)
  then have e: "rw_digest ?h = poly_hash rabin_pol [1]"
    by (simp only: poly_hash_leading_zeros [OF rabin_pol_ok])
  moreover have "deg (poly_hash rabin_pol [1]) < 53"
    using poly_hash_deg [OF rabin_pol_ok, of "[1]"] by (simp only: rabin_pol_deg)
  moreover have "rabin_ctx_ok g' h0" using assms t by (simp add: rabin_ctx_ok_def)
  moreover have "rb_shift ?h = 45" using assms by (simp add: rabin_ctx_ok_def)
  ultimately show thesis using that i t by simp
qed

lemma finesse_scan_digests:
  assumes "good_tables rabin_pol (g_tables g)" "rb_shift h = 45" "deg (rw_digest h) < 53"
  shows "finesse_scan g h m bs =
    foldl max m (map (\<lambda>k. foldl (poly_step rabin_pol) (rw_digest h) (take (Suc k) bs)) [0..<length bs])"
  using assms(2,3)
proof (induction bs arbitrary: h m)
  case (Cons b bs)
  let ?h = "rabin_append g b h"
  have s: "rw_digest ?h = poly_step rabin_pol (rw_digest h) b" "rb_shift ?h = 45" "deg (rw_digest ?h) < 53"
    using rabin_appends_digest [OF assms(1) Cons.prems, of "[b]"] by auto
  have "[0..<Suc k] = 0 # map Suc [0..<k]" for k by (simp add: upt_conv_Cons map_Suc_upt)
  then have u: "[0..<length (b # bs)] = 0 # map Suc [0..<length bs]" by (simp only: length_Cons)
  show ?case
    unfolding u using Cons.IH [OF s(2,3)] s(1) by (simp add: Let_def o_def max.commute)
qed simp

lemma finesse_sub_value:
  assumes "rabin_ctx_ok g h0"
  shows "\<exists>g'. finesse_sub h0 g piece = Some (finesse_value piece, g') \<and> rabin_ctx_ok g' h0"
proof -
  from assms obtain g' h where i: "rabin_init g h0 = Some (g', h)" "rabin_ctx_ok g' h0"
    and d: "good_tables rabin_pol (g_tables g')" "rb_shift h = 45" "deg (rw_digest h) < 53"
      "rw_digest h = poly_hash rabin_pol [1]" by (rule rabin_init_start)
  from finesse_scan_digests [OF d(1-3), of 0 piece] i d(4) show ?thesis
    by (simp add: finesse_sub_def finesse_value_def)
qed

lemma finesse_super_value:
  assumes "rabin_ctx_ok g h0"
  shows "\<exists>g'. finesse_super h0 g subs = Some (finesse_group_value subs, g') \<and> rabin_ctx_ok g' h0"
proof -
  from assms obtain g' h where i: "rabin_init g h0 = Some (g', h)" "rabin_ctx_ok g' h0"
    and d: "good_tables rabin_pol (g_tables g')" "rb_shift h = 45" "deg (rw_digest h) < 53"
      "rw_digest h = poly_hash rabin_pol [1]" by (rule rabin_init_start)
  from rabin_appends_digest [OF d(1-3), of "concat (map (word_image 8) subs)"] i d(4) show ?thesis
    by (simp add: finesse_super_def finesse_group_value_def)
qed

lemma map_globals_value:
  assumes "\<And>g x. rabin_ctx_ok g h0 \<Longrightarrow> \<exists>g'. f g x = Some (v x, g') \<and> rabin_ctx_ok g' h0"
    and "rabin_ctx_ok g h0"
  shows "\<exists>g'. map_globals f g xs = Some (map v xs, g') \<and> rabin_ctx_ok g' h0"
  using assms(2)
proof (induction xs arbitrary: g)
  case (Cons x xs)
  from assms(1) [OF Cons.prems, of x] obtain g1 where "f g x = Some (v x, g1)" "rabin_ctx_ok g1 h0" by blast
  with Cons.IH [of g1] show ?case by auto
qed simp

lemma finesse_features:
  assumes "rabin_ctx_ok g h0" "ck_wf c" "0 < sf_cnt" "0 < sf_subf"
  shows "\<exists>g'. FinesseFeature sf_cnt sf_subf h0 g c =
    Some (FVec (map (\<lambda>i. finesse_group_value (sort (map finesse_value
        (take sf_subf (drop (i * sf_subf) (sub_chunks (sf_cnt * sf_subf) (ck_buf c))))))) [0..<sf_cnt]), g')
    \<and> rabin_ctx_ok g' h0"
proof -
  let ?ps = "sub_chunks (sf_cnt * sf_subf) (ck_buf c)"
  from map_globals_value [of h0 "finesse_sub h0" finesse_value g ?ps, OF finesse_sub_value assms(1)]
  obtain g1 where 1: "map_globals (finesse_sub h0) g ?ps = Some (map finesse_value ?ps, g1)"
    and g1: "rabin_ctx_ok g1 h0" by blast
  let ?sorted = "map (\<lambda>i. sort (take sf_subf (drop (i * sf_subf) (map finesse_value ?ps)))) [0..<sf_cnt]"
  from map_globals_value [of h0 "finesse_super h0" finesse_group_value g1 ?sorted, OF finesse_super_value g1]
  obtain g2 where 2: "map_globals (finesse_super h0) g1 ?sorted = Some (map finesse_group_value ?sorted, g2)"
    and g2: "rabin_ctx_ok g2 h0" by blast
  from 1 2 g2 assms(2-4) show ?thesis
    by (simp add: FinesseFeature_def Let_def o_def take_map drop_map)
qed

text \<open>C19: Finesse's super-features do not see the order of the sub-chunks inside a group, nor the bytes
  past the last whole sub-chunk: two chunks whose groups hold the same sub-chunks, in any order, get the
  same feature, whether or not the tables were initialised before.\<close>

theorem finesse_order_insensitive:
  assumes "rabin_ctx_ok g h0" "rabin_ctx_ok g' h0'" "ck_wf c" "ck_wf c'" "0 < sf_cnt" "0 < sf_subf"
    and "\<forall>i < sf_cnt. mset (take sf_subf (drop (i * sf_subf) (sub_chunks (sf_cnt * sf_subf) (ck_buf c)))) =
      mset (take sf_subf (drop (i * sf_subf) (sub_chunks (sf_cnt * sf_subf) (ck_buf c'))))"
  shows "\<exists>f. map_option fst (FinesseFeature sf_cnt sf_subf h0 g c) = Some f \<and>
    map_option fst (FinesseFeature sf_cnt sf_subf h0' g' c') = Some f"
proof -
  define A where "A b = map (\<lambda>i. finesse_group_value (sort (map finesse_value
        (take sf_subf (drop (i * sf_subf) (sub_chunks (sf_cnt * sf_subf) b)))))) [0..<sf_cnt]" for b
  have "sort (map finesse_value xs) = sort (map finesse_value ys)" if "mset xs = mset ys" for xs ys
    using that by (intro properties_for_sort) simp_all
  note sorted_eq = this
  have e: "A (ck_buf c) = A (ck_buf c')"
    unfolding A_def
  proof (intro map_cong refl arg_cong [where f = finesse_group_value] sorted_eq)
    fix i
    assume "i \<in> set [0..<sf_cnt]"
    then show "mset (take sf_subf (drop (i * sf_subf) (sub_chunks (sf_cnt * sf_subf) (ck_buf c)))) =
      mset (take sf_subf (drop (i * sf_subf) (sub_chunks (sf_cnt * sf_subf) (ck_buf c'))))"
      using assms(7) by simp
  qed
  obtain g1 where "FinesseFeature sf_cnt sf_subf h0 g c = Some (FVec (A (ck_buf c)), g1)"
    using finesse_features [OF assms(1,3,5,6)] unfolding A_def by blast
  moreover obtain g2 where "FinesseFeature sf_cnt sf_subf h0' g' c' = Some (FVec (A (ck_buf c')), g2)"
    using finesse_features [OF assms(2,4,5,6)] unfolding A_def by blast
  ultimately show ?thesis by (simp add: e)
qed

theorem finesse_order_insensitive_witness:
  "\<exists>f. map_option fst (FinesseFeature 1 2 (rabin_t_new [] 0 0) rabin_globals_start (make_chunk [1, 2] True 2 0)) = Some f \<and>
    map_option fst (FinesseFeature 1 2 (rabin_t_new [] 0 0) rabin_globals_start (make_chunk [2, 1, 7] True 3 1)) = Some f"
proof (rule finesse_order_insensitive)
  show "rabin_ctx_ok rabin_globals_start (rabin_t_new [] 0 0)" "rabin_ctx_ok rabin_globals_start (rabin_t_new [] 0 0)"
    by (simp_all add: rabin_ctx_ok_def rabin_globals_start_def rabin_t_new_def rabin_pol_def)
  have "sub_chunks (1 * 2) [1, 2] = [[1], [2]]" "sub_chunks (1 * 2) [2, 1, 7] = [[2], [1]]"
    by (simp_all add: sub_chunks_def upt_rec)
  then show "\<forall>i < 1. mset (take 2 (drop (i * 2) (sub_chunks (1 * 2) (ck_buf (make_chunk [1, 2] True 2 0))))) =
      mset (take 2 (drop (i * 2) (sub_chunks (1 * 2) (ck_buf (make_chunk [2, 1, 7] True 3 1)))))"
    by simp
qed (simp_all add: ck_wf_def)

end
