(* ===== verification/SuperFeatureIndex.thy ===== *)
theory SuperFeatureIndex
  imports Index Features MappedFile
begin

text \<open>
  The super-feature index, \<open>index/super_feature_index.h\<close> and \<open>.cpp\<close>: one hash map per super-feature
  and one per float feature. \<open>GetBaseChunkID\<close> takes the first map that knows its super-feature
  (first fit), or the last float map with a value closer than the threshold; \<open>AddFeature\<close> assigns the
  id in every map. A feature of another alternative of the variant throws. \<open>DumpToFile\<close> and
  \<open>RecoverFromFile\<close> are modelled on the bytes they write and read, with the stream's end-of-file
  behaviour; the float maps are not written.

  The interpretation \<open>sf\<close> shows that the index keeps the laws of the interface on integer
  super-features of the right length.
\<close>

record sf_index =
  sfi_index :: "(u64, u32) umap list"
  sfi_float :: "(f32, u32) umap list"
  sfi_count :: nat
  sfi_our :: nat

definition sfi_new :: "nat \<Rightarrow> nat \<Rightarrow> sf_index" where
  "sfi_new super_feature_count our_feature_count =
     \<lparr>sfi_index = replicate super_feature_count [], sfi_float = replicate our_feature_count [],
      sfi_count = super_feature_count, sfi_our = our_feature_count\<rparr>"

section \<open>Lookup\<close>

text \<open>The loop over the maps: \<open>super_feature[i]\<close> past the vector's end is a bad read.\<close>

fun sfi_get_ints :: "(u64, u32) umap list \<Rightarrow> u64 list \<Rightarrow> cpp_error + u32 option" where
  "sfi_get_ints [] fs = Inr None"
| "sfi_get_ints (m # ms) [] = Inl OutOfBounds"
| "sfi_get_ints (m # ms) (f # fs) =
     (case um_get (=) m f of Some v \<Rightarrow> Inr (Some v) | None \<Rightarrow> sfi_get_ints ms fs)"

definition sfi_threshold :: f32 where
  "sfi_threshold = Some (10737418 / 2 ^ 30)"

definition sfi_close :: "f32 \<Rightarrow> f32 \<Rightarrow> bool" where
  "sfi_close k x \<longleftrightarrow> f32_less (f32_abs (f32_sub k x)) sfi_threshold"

fun sfi_get_floats :: "(f32, u32) umap list \<Rightarrow> f32 list \<Rightarrow> u32 option \<Rightarrow> cpp_error + u32 option" where
  "sfi_get_floats [] fs r = Inr r"
| "sfi_get_floats ([] # ms) fs r = sfi_get_floats ms (tl fs) r"
| "sfi_get_floats ((e # m) # ms) [] r = Inl OutOfBounds"
| "sfi_get_floats ((e # m) # ms) (f # fs) r =
     sfi_get_floats ms fs
       (case find (\<lambda>(k, v). sfi_close k f) (e # m) of Some (k, v) \<Rightarrow> Some v | None \<Rightarrow> r)"

definition sfi_get :: "sf_index \<Rightarrow> feature \<Rightarrow> cpp_error + u32 option" where
  "sfi_get s feat =
     (case feat of
        FLevel (LInts super_feature) \<Rightarrow> sfi_get_ints (sfi_index s) super_feature
      | FLevel (LFloats our_feature) \<Rightarrow> sfi_get_floats (sfi_float s) our_feature None
      | _ \<Rightarrow> Inl BadVariantAccess)"

section \<open>Insertion\<close>

fun sfi_add_maps :: "('k \<Rightarrow> 'k \<Rightarrow> bool) \<Rightarrow> ('k, u32) placer \<Rightarrow> u32 \<Rightarrow> ('k, u32) umap list \<Rightarrow> 'k list
    \<Rightarrow> cpp_error + ('k, u32) umap list" where
  "sfi_add_maps eq place cid [] fs = Inr []"
| "sfi_add_maps eq place cid (m # ms) [] = Inl OutOfBounds"
| "sfi_add_maps eq place cid (m # ms) (f # fs) =
     (case sfi_add_maps eq place cid ms fs of
        Inl e \<Rightarrow> Inl e
      | Inr ms' \<Rightarrow> Inr (um_set eq place f cid m # ms'))"

definition sfi_add :: "(u64, u32) placer \<Rightarrow> (f32, u32) placer \<Rightarrow> sf_index \<Rightarrow> feature \<Rightarrow> u32 \<Rightarrow> cpp_error + sf_index" where
  "sfi_add place placef s feat cid =
     (case feat of
        FLevel (LInts feature) \<Rightarrow>
          (case sfi_add_maps (=) place cid (sfi_index s) feature of
             Inl e \<Rightarrow> Inl e | Inr ms \<Rightarrow> Inr (s\<lparr>sfi_index := ms\<rparr>))
      | FLevel (LFloats feature) \<Rightarrow>
          (case sfi_add_maps f32_eq placef cid (sfi_float s) feature of
             Inl e \<Rightarrow> Inl e | Inr ms \<Rightarrow> Inr (s\<lparr>sfi_float := ms\<rparr>))
      | _ \<Rightarrow> Inl BadVariantAccess)"

section \<open>Persistence\<close>

definition dump_map :: "(u64, u32) umap \<Rightarrow> bytes" where
  "dump_map m = le_nat 8 (length m) @ concat (map (\<lambda>(k, v). word_image 8 k @ word_image 4 v) m)"

definition sfi_dump :: "sf_index \<Rightarrow> bytes" where
  "sfi_dump s = le_nat 4 (sfi_count s) @ concat (map dump_map (sfi_index s))"

definition DumpToFile :: "(string \<Rightarrow> bool) \<Rightarrow> sf_index \<Rightarrow> string \<Rightarrow> os_state \<Rightarrow> cpp_error + bool \<times> os_state" where
  "DumpToFile can_create s path w =
     (if can_create path then Inr (True, w\<lparr>os_files := (os_files w)(path \<mapsto> sfi_dump s)\<rparr>) else Inl LogFatal)"

text \<open>An input stream: the bytes not yet read and the fail state. A short read takes what is left,
  leaves the rest of the zero-initialised target, and fails the stream.\<close>

type_synonym istream = "bytes \<times> bool"

definition read_uint :: "nat \<Rightarrow> istream \<Rightarrow> nat \<times> istream" where
  "read_uint n s =
     (case s of (bs, failed) \<Rightarrow>
        if failed then (0, bs, True) else (nat_le (take n bs), drop n bs, length bs < n))"

text \<open>The loop of \<open>RecoverFromFile\<close> over the entries of a map: its counter is an \<open>int\<close>, converted to
  \<open>uint64_t\<close> for the comparison with the size (it is never negative), and its increment past
  \<open>INT_MAX\<close> is an error.\<close>

function recover_entries ::
  "(u64, u32) placer \<Rightarrow> nat \<Rightarrow> int \<Rightarrow> istream \<Rightarrow> (u64, u32) umap \<Rightarrow> cpp_error + (u64, u32) umap \<times> istream" where
  "recover_entries place mapSize j s m =
     (if u64_of_int j < mapSize then
        (let (k, s1) = read_uint 8 s; (v, s2) = read_uint 4 s1;
             m' = um_set (=) place (of_nat k) (of_nat v) m
         in if j < 2 ^ 31 - 1 then recover_entries place mapSize (j + 1) s2 m' else Inl IntOverflow)
      else Inr (m, s))"
  by pat_completeness auto
termination
  by (relation "measure (\<lambda>(place, n, j, s, m). nat (2 ^ 31 - j))") auto

declare recover_entries.simps [simp del]

fun recover_maps :: "(u64, u32) placer \<Rightarrow> istream \<Rightarrow> (u64, u32) umap list \<Rightarrow> cpp_error + (u64, u32) umap list \<times> istream" where
  "recover_maps place s [] = Inr ([], s)"
| "recover_maps place s (m # ms) =
     (let (mapSize, s1) = read_uint 8 s
      in case recover_entries place mapSize 0 s1 m of
           Inl e \<Rightarrow> Inl e
         | Inr (m', s2) \<Rightarrow>
             (case recover_maps place s2 ms of Inl e \<Rightarrow> Inl e | Inr (ms', s3) \<Rightarrow> Inr (m' # ms', s3)))"

text \<open>The number of super-features is an \<open>int\<close>.\<close>

definition RecoverFromFile :: "(u64, u32) placer \<Rightarrow> sf_index \<Rightarrow> string \<Rightarrow> os_state \<Rightarrow> cpp_error + bool \<times> sf_index" where
  "RecoverFromFile place s path w =
     (case os_files w path of
        None \<Rightarrow> Inl LogFatal
      | Some bs \<Rightarrow>
          (let (count, st) = read_uint 4 (bs, False);
               super_feature_count = s32_of_nat count
           in if int (sfi_count s) \<noteq> super_feature_count then Inl LogFatal
              else case recover_maps place st (sfi_index s) of
                     Inl e \<Rightarrow> Inl e
                   | Inr (ms, st') \<Rightarrow> Inr (True, s\<lparr>sfi_index := ms\<rparr>)))"

section \<open>The laws of the interface\<close>

definition sfi_inv :: "sf_index \<Rightarrow> bool" where
  "sfi_inv s \<longleftrightarrow> 0 < sfi_count s \<and> length (sfi_index s) = sfi_count s \<and> length (sfi_float s) = sfi_our s \<and>
     (\<forall>m \<in> set (sfi_index s). distinct (map fst m))"

definition map_ids :: "('k, u32) umap list \<Rightarrow> u32 set" where
  "map_ids ms = (\<Union>m \<in> set ms. snd ` set m)"

lemma map_ids_simps [simp]: "map_ids [] = {}" "map_ids (m # ms) = snd ` set m \<union> map_ids ms"
  by (simp_all add: map_ids_def)

definition sfi_ids :: "sf_index \<Rightarrow> u32 set" where
  "sfi_ids s = map_ids (sfi_index s) \<union> map_ids (sfi_float s)"

definition sfi_shape :: "nat \<Rightarrow> feature \<Rightarrow> bool" where
  "sfi_shape n f \<longleftrightarrow> (\<exists>fs. f = FLevel (LInts fs) \<and> length fs = n)"

lemma sfi_new_inv: "0 < n \<Longrightarrow> sfi_inv (sfi_new n k)"
  by (simp add: sfi_inv_def sfi_new_def)

lemma sfi_new_ids [simp]: "sfi_ids (sfi_new n k) = {}"
  by (auto simp: sfi_ids_def sfi_new_def map_ids_def)

lemma sfi_get_ints_total:
  "length fs = length ms \<Longrightarrow> \<exists>r. sfi_get_ints ms fs = Inr r \<and> (\<forall>b. r = Some b \<longrightarrow> b \<in> map_ids ms)"
proof (induction ms fs rule: sfi_get_ints.induct)
  case (3 m ms f fs)
  then show ?case using um_get_value [of "(=)" m f] by (cases "um_get (=) m f") auto
qed auto

lemma sfi_add_maps_total:
  assumes "placement place" "length fs = length ms"
  shows "\<exists>ms'. sfi_add_maps eq place cid ms fs = Inr ms' \<and> length ms' = length ms
    \<and> map_ids ms' \<subseteq> insert cid (map_ids ms)"
  using assms
proof (induction eq place cid ms fs rule: sfi_add_maps.induct)
  case (3 eq place cid m ms f fs)
  then obtain ms' where "sfi_add_maps eq place cid ms fs = Inr ms'" "length ms' = length ms"
    "map_ids ms' \<subseteq> insert cid (map_ids ms)" by auto
  then show ?case using um_set_values [OF 3(2), of eq f cid m] by auto
qed auto

lemma sfi_add_maps_nth:
  assumes "sfi_add_maps eq place cid ms fs = Inr ms'" "length fs = length ms"
  shows "ms' = map2 (\<lambda>f m. um_set eq place f cid m) fs ms"
  using assms
proof (induction eq place cid ms fs arbitrary: ms' rule: sfi_add_maps.induct)
  case (3 eq place cid m ms f fs)
  then show ?case by (auto split: sum.splits)
qed auto

lemma sfi_add_maps_distinct:
  assumes "placement place" "\<forall>m \<in> set ms. distinct (map fst m)"
    "sfi_add_maps (=) place cid ms fs = Inr ms'" "length fs = length ms"
  shows "\<forall>m \<in> set ms'. distinct (map fst m)"
  using sfi_add_maps_nth [OF assms(3,4)] um_set_distinct [OF assms(1)] assms(2)
  by (auto dest: set_zip_rightD)

lemma sfi_add_first:
  assumes "placement place" "distinct (map fst m)"
    "sfi_add_maps (=) place cid (m # ms) (f # fs) = Inr ms'"
  shows "sfi_get_ints ms' (f # fs) = Inr (Some cid)"
  using assms(3) um_set_map_of [OF assms(1,2)] by (auto simp: um_get_map_of split: sum.splits)

lemma sfi_add_get:
  assumes pl: "placement place" and inv: "sfi_inv s" and sh: "sfi_shape (sfi_count s) f"
    and add: "sfi_add place placef s f c = Inr s'"
  shows "sfi_get s' f = Inr (Some c)"
proof -
  obtain fs where f: "f = FLevel (LInts fs)" "length fs = sfi_count s" using sh by (auto simp: sfi_shape_def)
  obtain m ms where m: "sfi_index s = m # ms" using inv by (cases "sfi_index s") (auto simp: sfi_inv_def)
  obtain x xs where x: "fs = x # xs" using f inv by (cases fs) (auto simp: sfi_inv_def)
  from add f obtain ms' where "sfi_add_maps (=) place c (m # ms) (x # xs) = Inr ms'" "sfi_index s' = ms'"
    by (auto simp: sfi_add_def m x split: sum.splits)
  moreover have "distinct (map fst m)" using inv m by (simp add: sfi_inv_def)
  ultimately show ?thesis using sfi_add_first [OF pl, of m c ms x xs ms'] f x by (simp add: sfi_get_def)
qed

lemma sfi_add_ok:
  assumes "placement place" "sfi_inv s" "sfi_shape (sfi_count s) f"
  shows "\<exists>s'. sfi_add place placef s f c = Inr s' \<and> sfi_inv s' \<and> sfi_count s' = sfi_count s
    \<and> sfi_ids s' \<subseteq> insert c (sfi_ids s)"
proof -
  obtain fs where f: "f = FLevel (LInts fs)" "length fs = length (sfi_index s)"
    using assms(2,3) by (auto simp: sfi_shape_def sfi_inv_def)
  from sfi_add_maps_total [OF assms(1) f(2), of "(=)" c] obtain ms' where
    a: "sfi_add_maps (=) place c (sfi_index s) fs = Inr ms'" "length ms' = length (sfi_index s)"
    and i: "map_ids ms' \<subseteq> insert c (map_ids (sfi_index s))" by blast
  from sfi_add_maps_distinct [OF assms(1) _ a(1) f(2)] assms(2)
  have "\<forall>m \<in> set ms'. distinct (map fst m)" by (simp add: sfi_inv_def)
  then show ?thesis using a i f assms(2) by (auto simp: sfi_add_def sfi_inv_def sfi_ids_def)
qed

lemma sfi_laws:
  assumes "placement place" "0 < n"
  shows "similarity_index sfi_get (sfi_add place placef) (\<lambda>s. sfi_inv s \<and> sfi_count s = n) (sfi_shape n) sfi_ids"
proof
  fix s f c b s'
  assume s: "sfi_inv s \<and> sfi_count s = n" and f: "sfi_shape n f"
  obtain fs where fs: "f = FLevel (LInts fs)" "length fs = length (sfi_index s)"
    using s f by (auto simp: sfi_shape_def sfi_inv_def)
  show "\<exists>r. sfi_get s f = Inr r"
    using sfi_get_ints_total [OF fs(2)] fs by (auto simp: sfi_get_def)
  show "\<exists>s'. sfi_add place placef s f c = Inr s' \<and> (sfi_inv s' \<and> sfi_count s' = n) \<and> sfi_ids s' \<subseteq> insert c (sfi_ids s)"
    using sfi_add_ok [OF assms(1), of s f placef c] s f by auto
  show "b \<in> sfi_ids s" if "sfi_get s f = Inr (Some b)"
    using sfi_get_ints_total [OF fs(2)] that fs by (auto simp: sfi_get_def sfi_ids_def)
  show "sfi_get s' f \<noteq> Inr None" if "sfi_add place placef s f c = Inr s'"
    using sfi_add_get [OF assms(1) _ _ that] s f by simp
qed

interpretation sf: similarity_index sfi_get "sfi_add (#) (#)" "\<lambda>s. sfi_inv s \<and> sfi_count s = 3" "sfi_shape 3" sfi_ids
  by (rule sfi_laws [OF placement_cons]) simp

section \<open>Persistence\<close>

lemma read_uint_append:
  "length w = n \<Longrightarrow> read_uint n (w @ bs, False) = (nat_le w, bs, False)"
  by (simp add: read_uint_def)

lemma read_uint_le [simp]:
  "x < 256 ^ n \<Longrightarrow> read_uint n (le_nat n x @ bs, False) = (x, bs, False)"
  by (simp add: read_uint_append nat_le_le_nat)

lemma read_uint_word [simp]:
  "read_uint 8 (word_image 8 (k :: u64) @ bs, False) = (unat k, bs, False)"
  "read_uint 4 (word_image 4 (v :: u32) @ bs, False) = (unat v, bs, False)"
proof -
  have "unat k < 256 ^ 8" by (rule less_le_trans [OF unsigned_less]) simp
  then show "read_uint 8 (word_image 8 k @ bs, False) = (unat k, bs, False)"
    unfolding word_image_def by (rule read_uint_le)
  have "unat v < 256 ^ 4" by (rule less_le_trans [OF unsigned_less]) simp
  then show "read_uint 4 (word_image 4 v @ bs, False) = (unat v, bs, False)"
    unfolding word_image_def by (rule read_uint_le)
qed

lemma recover_entries_dump:
  assumes "placement place" "distinct (map fst m0)" "n + length m < 2 ^ 31"
  shows "\<exists>m'. recover_entries place (n + length m) (int n)
        (concat (map (\<lambda>(k, v). word_image 8 k @ word_image 4 v) m) @ rest, False) m0
      = Inr (m', rest, False) \<and> distinct (map fst m') \<and> map_of m' = map_of m0 ++ map_of (rev m)"
  using assms(2,3)
proof (induction m arbitrary: m0 n)
  case Nil
  then show ?case by (simp add: recover_entries.simps)
next
  case (Cons p m)
  obtain k v where p: "p = (k, v)" by (cases p)
  let ?m = "um_set (=) place k v m0"
  have d: "distinct (map fst ?m)" by (rule um_set_distinct [OF assms(1) Cons.prems(1)])
  from Cons.IH [OF d, of "Suc n"] Cons.prems(2) obtain m' where
    r: "recover_entries place (n + length (p # m)) (int n + 1) (concat (map (\<lambda>(k, v). word_image 8 k @ word_image 4 v) m) @ rest, False) ?m
      = Inr (m', rest, False)" "distinct (map fst m')" "map_of m' = map_of ?m ++ map_of (rev m)"
    by (auto simp: add.commute)
  have "recover_entries place (n + length (p # m)) (int n)
      (concat (map (\<lambda>(k, v). word_image 8 k @ word_image 4 v) (p # m)) @ rest, False) m0 = Inr (m', rest, False)"
    using Cons.prems(2) r(1) by (subst recover_entries.simps) (simp add: p u64_of_int_def)
  then show ?case
    using r um_set_map_of [OF assms(1) Cons.prems(1), of k v] by (auto simp: p)
qed

lemma recover_maps_dump:
  assumes "placement place" "\<forall>m \<in> set ms. distinct (map fst m) \<and> length m < 2 ^ 31"
  shows "\<exists>ms'. recover_maps place (concat (map dump_map ms) @ rest, False) (replicate (length ms) []) = Inr (ms', rest, False)
    \<and> map map_of ms' = map map_of ms"
  using assms(2)
proof (induction ms)
  case Nil
  then show ?case by simp
next
  case (Cons m ms)
  then obtain ms' where r: "recover_maps place (concat (map dump_map ms) @ rest, False) (replicate (length ms) []) = Inr (ms', rest, False)"
    "map map_of ms' = map map_of ms" by auto
  from recover_entries_dump [OF assms(1), of "[]" 0 m "concat (map dump_map ms) @ rest"] Cons.prems obtain m' where
    e: "recover_entries place (length m) 0
      (concat (map (\<lambda>(k, v). word_image 8 k @ word_image 4 v) m) @ concat (map dump_map ms) @ rest, False) []
      = Inr (m', concat (map dump_map ms) @ rest, False)" "map_of m' = map_of (rev m)" by auto
  have "map_of (rev m) = map_of m" using Cons.prems by (intro map_of_inject_set [THEN iffD2]) (auto simp: rev_map [symmetric])
  moreover have "length m < 256 ^ 8" using Cons.prems by simp
  moreover have "concat (map dump_map (m # ms)) @ rest = le_nat 8 (length m) @
      concat (map (\<lambda>(k, v). word_image 8 k @ word_image 4 v) m) @ concat (map dump_map ms) @ rest"
    by (simp add: dump_map_def)
  moreover have "recover_maps place (le_nat 8 (length m) @
      concat (map (\<lambda>(k, v). word_image 8 k @ word_image 4 v) m) @ concat (map dump_map ms) @ rest, False)
      ([] # replicate (length ms) []) = Inr (m' # ms', rest, False)"
    using r(1) e(1) calculation(2) by simp
  ultimately show ?case using r(2) e(2)
    by (intro exI [of _ "m' # ms'"]) (simp only: list.map length_Cons replicate_Suc simp_thms)
qed

lemma sfi_get_ints_cong:
  assumes "map map_of ms' = map map_of ms"
  shows "sfi_get_ints ms' fs = sfi_get_ints ms fs"
  using assms
proof (induction ms fs arbitrary: ms' rule: sfi_get_ints.induct)
  case (2 m ms)
  then show ?case by (cases ms') auto
next
  case (3 m ms f fs)
  from 3(2) obtain m1 ms1 where ms': "ms' = m1 # ms1" "map_of m1 = map_of m" "map map_of ms1 = map map_of ms"
    by (cases ms') auto
  show ?case
  proof (cases "map_of m f")
    case None
    then show ?thesis using 3(1) [of ms1] ms' by (simp add: um_get_map_of)
  qed (simp add: um_get_map_of ms')
qed simp

text \<open>C11: dumping an index and recovering it into a new one of the same shape restores every lookup
  of integer super-features, whatever the iteration orders; the float maps come back empty, so
  lookups of float features are lost. The maps are smaller than \<open>2 ^ 31\<close>, the range of the loop's
  \<open>int\<close> counter.\<close>

theorem sfi_dump_recover:
  assumes "placement place" "sfi_inv s" "\<forall>m \<in> set (sfi_index s). length m < 2 ^ 31" "sfi_count s < 2 ^ 31"
    and "can_create path"
  shows "\<exists>w' s'. DumpToFile can_create s path w = Inr (True, w') \<and>
    RecoverFromFile place (sfi_new (sfi_count s) (sfi_our s)) path w' = Inr (True, s') \<and>
    (\<forall>fs. sfi_get s' (FLevel (LInts fs)) = sfi_get s (FLevel (LInts fs))) \<and>
    (\<forall>xs. sfi_get s' (FLevel (LFloats xs)) = Inr None)"
proof -
  define w' where "w' = w\<lparr>os_files := (os_files w)(path \<mapsto> sfi_dump s)\<rparr>"
  have l: "length (sfi_index s) = sfi_count s" using assms(2) by (simp add: sfi_inv_def)
  have "\<forall>m \<in> set (sfi_index s). distinct (map fst m) \<and> length m < 2 ^ 31"
    using assms(2,3) by (simp add: sfi_inv_def)
  from recover_maps_dump [OF assms(1) this, of "[]"] obtain ms' where
    r: "recover_maps place (concat (map dump_map (sfi_index s)), False) (replicate (sfi_count s) []) = Inr (ms', [], False)"
    and m: "map map_of ms' = map map_of (sfi_index s)" by (auto simp: l)
  note g = sfi_get_ints_cong [OF m]
  have fl: "sfi_get_floats (replicate n []) xs None = Inr None" for n xs
    by (induction n arbitrary: xs) auto
  have "sfi_count s < 256 ^ 4" using assms(4) by simp
  then have "RecoverFromFile place (sfi_new (sfi_count s) (sfi_our s)) path w' =
      Inr (True, (sfi_new (sfi_count s) (sfi_our s))\<lparr>sfi_index := ms'\<rparr>)"
    using r assms(4) by (simp add: RecoverFromFile_def w'_def sfi_dump_def sfi_new_def)
  moreover have "DumpToFile can_create s path w = Inr (True, w')"
    using assms(5) by (simp add: DumpToFile_def w'_def)
  ultimately show ?thesis using g fl by (simp add: sfi_get_def sfi_new_def)
qed

theorem sfi_dump_recover_witness:
  "\<exists>s0 w' s'. sfi_add (#) (#) (sfi_new 1 1) (FLevel (LInts [5])) 9 = Inr s0 \<and>
    DumpToFile (\<lambda>_. True) s0 ''i'' \<lparr>os_files = Map.empty, os_maps = Map.empty, os_next = 0, os_fds = 0\<rparr> = Inr (True, w') \<and>
    RecoverFromFile (#) (sfi_new 1 1) ''i'' w' = Inr (True, s') \<and>
    sfi_get s' (FLevel (LInts [5])) = Inr (Some 9)"
proof -
  let ?s = "\<lparr>sfi_index = [[(5, 9)]], sfi_float = [[]], sfi_count = 1, sfi_our = 1\<rparr>"
  have "placement (#) \<and> sfi_inv ?s \<and> (\<forall>m \<in> set (sfi_index ?s). length m < 2 ^ 31) \<and> sfi_count ?s < 2 ^ 31"
    by (simp add: placement_cons sfi_inv_def)
  then have "\<exists>w' s'. DumpToFile (\<lambda>_. True) ?s ''i'' \<lparr>os_files = Map.empty, os_maps = Map.empty, os_next = 0, os_fds = 0\<rparr> = Inr (True, w') \<and>
      RecoverFromFile (#) (sfi_new 1 1) ''i'' w' = Inr (True, s') \<and>
      sfi_get s' (FLevel (LInts [5])) = sfi_get ?s (FLevel (LInts [5]))"
    using sfi_dump_recover [of "(#)" ?s "\<lambda>_. True" "''i''" "\<lparr>os_files = Map.empty, os_maps = Map.empty, os_next = 0, os_fds = 0\<rparr>"]
    by auto
  moreover have "sfi_add (#) (#) (sfi_new 1 1) (FLevel (LInts [5])) 9 = Inr ?s"
    by (simp add: sfi_add_def sfi_new_def um_set_def)
  moreover have "sfi_get ?s (FLevel (LInts [5])) = Inr (Some 9)" by (simp add: sfi_get_def um_get_def)
  ultimately show ?thesis by auto
qed

end
