(* ===== verification/PalantirIndex.thy ===== *)
theory PalantirIndex
  imports SuperFeatureIndex
begin

text \<open>
  The three-level index of Palantir, \<open>index/palantir_index.h\<close> and \<open>.cpp\<close>: a super-feature index per
  level, searched in order; the float feature, last in the list, is kept in the last level's float
  map. An index past the vector of levels is a bad read. \<open>RecoverFromFile\<close> and \<open>DumpToFile\<close> do
  nothing in the source. The interpretation \<open>pal\<close> discharges the interface's laws for the features
  that \<open>PalantirFeature\<close> produces.
\<close>

definition palantir_index_new :: "sf_index list" where
  "palantir_index_new = [sfi_new 3 1, sfi_new 4 1, sfi_new 6 1]"

fun pal_get_levels :: "sf_index list \<Rightarrow> level list \<Rightarrow> cpp_error + u32 option" where
  "pal_get_levels ls [] = Inr None"
| "pal_get_levels [] (f # fs) = Inl OutOfBounds"
| "pal_get_levels (l # ls) (f # fs) =
     (case sfi_get l (FLevel f) of
        Inl e \<Rightarrow> Inl e
      | Inr (Some b) \<Rightarrow> Inr (Some b)
      | Inr None \<Rightarrow> pal_get_levels ls fs)"

definition pal_get :: "sf_index list \<Rightarrow> feature \<Rightarrow> cpp_error + u32 option" where
  "pal_get levels feat =
     (case feat of
        FLevels features \<Rightarrow>
          (if length features < 2 then Inl OutOfBounds
           else (case pal_get_levels levels (butlast features) of
              Inl e \<Rightarrow> Inl e
            | Inr (Some b) \<Rightarrow> Inr (Some b)
            | Inr None \<Rightarrow>
                (if length features - 2 < length levels
                 then sfi_get (levels ! (length features - 2)) (FLevel (last features))
                 else Inl OutOfBounds)))
      | _ \<Rightarrow> Inl BadVariantAccess)"

fun pal_add_levels :: "(u64, u32) placer \<Rightarrow> (f32, u32) placer \<Rightarrow> u32 \<Rightarrow> sf_index list \<Rightarrow> level list
    \<Rightarrow> cpp_error + sf_index list" where
  "pal_add_levels place placef cid ls [] = Inr ls"
| "pal_add_levels place placef cid [] (f # fs) = Inl OutOfBounds"
| "pal_add_levels place placef cid (l # ls) (f # fs) =
     (case sfi_add place placef l (FLevel f) cid of
        Inl e \<Rightarrow> Inl e
      | Inr l' \<Rightarrow> (case pal_add_levels place placef cid ls fs of Inl e \<Rightarrow> Inl e | Inr ls' \<Rightarrow> Inr (l' # ls')))"

definition pal_add :: "(u64, u32) placer \<Rightarrow> (f32, u32) placer \<Rightarrow> sf_index list \<Rightarrow> feature \<Rightarrow> u32
    \<Rightarrow> cpp_error + sf_index list" where
  "pal_add place placef levels feat cid =
     (case feat of
        FLevels features \<Rightarrow>
          (if length features < 2 then Inl OutOfBounds
           else (case pal_add_levels place placef cid levels (butlast features) of
              Inl e \<Rightarrow> Inl e
            | Inr levels' \<Rightarrow>
                (if length features - 2 < length levels'
                 then (case sfi_add place placef (levels' ! (length features - 2)) (FLevel (last features)) cid of
                         Inl e \<Rightarrow> Inl e
                       | Inr l \<Rightarrow> Inr (levels'[length features - 2 := l]))
                 else Inl OutOfBounds)))
      | _ \<Rightarrow> Inl BadVariantAccess)"

section \<open>The laws of the interface\<close>

definition pal_shape :: "feature \<Rightarrow> bool" where
  "pal_shape f \<longleftrightarrow> (\<exists>a b c x. f = FLevels [LInts a, LInts b, LInts c, LFloats [x]] \<and>
     length a = 3 \<and> length b = 4 \<and> length c = 6)"

definition pal_inv :: "sf_index list \<Rightarrow> bool" where
  "pal_inv ls \<longleftrightarrow> (\<exists>l0 l1 l2. ls = [l0, l1, l2] \<and> sfi_inv l0 \<and> sfi_inv l1 \<and> sfi_inv l2 \<and>
     sfi_count l0 = 3 \<and> sfi_count l1 = 4 \<and> sfi_count l2 = 6 \<and> sfi_our l2 = 1)"

definition pal_ids :: "sf_index list \<Rightarrow> u32 set" where
  "pal_ids ls = (\<Union>l \<in> set ls. sfi_ids l)"

lemma palantir_feature_shape:
  assumes "ck_wf c"
  shows "\<exists>f. PalantirFeature c = Some f \<and> pal_shape f"
  using assms by (simp add: PalantirFeature_def pal_shape_def Let_def palantir_group_def)

lemma palantir_index_new_ok: "pal_inv palantir_index_new" "pal_ids palantir_index_new = {}"
  by (simp_all add: pal_inv_def pal_ids_def palantir_index_new_def sfi_new_inv) (simp_all add: sfi_new_def)

lemma sfi_float_get:
  assumes "sfi_inv l" "sfi_our l = 1"
  shows "\<exists>r. sfi_get l (FLevel (LFloats [x])) = Inr r \<and> (\<forall>b. r = Some b \<longrightarrow> b \<in> sfi_ids l)"
proof -
  obtain m where m: "sfi_float l = [m]"
    using assms by (cases "sfi_float l") (auto simp: sfi_inv_def)
  show ?thesis
  proof (cases m)
    case Nil
    then show ?thesis by (simp add: sfi_get_def m)
  next
    case (Cons e es)
    have "b \<in> snd ` set m" if "find (\<lambda>(k, v). sfi_close k x) m = Some (k, b)" for k b
      using that by (auto simp: find_Some_iff image_iff) (metis nth_mem snd_conv)
    then show ?thesis
      using m Cons by (auto simp: sfi_get_def sfi_ids_def split: option.splits)
  qed
qed

lemma sfi_float_add:
  assumes "placement placef" "sfi_inv l" "sfi_our l = 1"
  shows "\<exists>l'. sfi_add place placef l (FLevel (LFloats [x])) c = Inr l' \<and> sfi_inv l' \<and> sfi_our l' = 1 \<and>
    sfi_count l' = sfi_count l \<and> sfi_ids l' \<subseteq> insert c (sfi_ids l) \<and> sfi_index l' = sfi_index l"
proof -
  obtain m where m: "sfi_float l = [m]"
    using assms by (cases "sfi_float l") (auto simp: sfi_inv_def)
  show ?thesis
    using assms um_set_values [OF assms(1), of f32_eq x c m]
    by (auto simp: sfi_add_def m sfi_inv_def sfi_ids_def)
qed

lemma sfi_int_get:
  assumes "sfi_inv l" "length a = sfi_count l"
  shows "\<exists>r. sfi_get l (FLevel (LInts a)) = Inr r \<and> (\<forall>b. r = Some b \<longrightarrow> b \<in> sfi_ids l)"
  using sfi_get_ints_total [of a "sfi_index l"] assms by (auto simp: sfi_get_def sfi_ids_def sfi_inv_def)

lemma sfi_add_our: "sfi_add place placef l f c = Inr l' \<Longrightarrow> sfi_our l' = sfi_our l"
  by (auto simp: sfi_add_def split: feature.splits level.splits sum.splits)

lemma pal_get_unfold:
  "pal_get [l0, l1, l2] (FLevels [LInts a, LInts b, LInts d, LFloats [x]]) =
     pal_get_levels [l0, l1, l2, l2] [LInts a, LInts b, LInts d, LFloats [x]]"
  by (auto simp: pal_get_def split: sum.splits option.splits)

lemma pal_laws:
  assumes pl: "placement place" "placement placef"
  shows "similarity_index pal_get (pal_add place placef) pal_inv pal_shape pal_ids"
proof
  fix ls f c b ls'
  assume "pal_inv ls" and "pal_shape f"
  then obtain l0 l1 l2 a d e x where ls: "ls = [l0, l1, l2]" and f: "f = FLevels [LInts a, LInts d, LInts e, LFloats [x]]"
    and inv: "sfi_inv l0" "sfi_inv l1" "sfi_inv l2" "sfi_our l2 = 1"
    and n: "sfi_count l0 = 3" "sfi_count l1 = 4" "sfi_count l2 = 6"
    and len: "length a = sfi_count l0" "length d = sfi_count l1" "length e = sfi_count l2"
    by (auto simp: pal_inv_def pal_shape_def)
  have g: "\<exists>r. pal_get ls f = Inr r \<and> (\<forall>b. r = Some b \<longrightarrow> b \<in> pal_ids ls)"
  proof -
    obtain r0 where r0: "sfi_get l0 (FLevel (LInts a)) = Inr r0" "\<forall>b. r0 = Some b \<longrightarrow> b \<in> sfi_ids l0"
      using sfi_int_get [OF inv(1) len(1)] by blast
    obtain r1 where r1: "sfi_get l1 (FLevel (LInts d)) = Inr r1" "\<forall>b. r1 = Some b \<longrightarrow> b \<in> sfi_ids l1"
      using sfi_int_get [OF inv(2) len(2)] by blast
    obtain r2 where r2: "sfi_get l2 (FLevel (LInts e)) = Inr r2" "\<forall>b. r2 = Some b \<longrightarrow> b \<in> sfi_ids l2"
      using sfi_int_get [OF inv(3) len(3)] by blast
    obtain r3 where r3: "sfi_get l2 (FLevel (LFloats [x])) = Inr r3" "\<forall>b. r3 = Some b \<longrightarrow> b \<in> sfi_ids l2"
      using sfi_float_get [OF inv(3,4)] by blast
    show ?thesis
      unfolding ls f pal_get_unfold
      by (cases r0; cases r1; cases r2; cases r3) (simp_all add: r0(1) r1(1) r2(1) r3(1) pal_ids_def,
          use r0(2) r1(2) r2(2) r3(2) in auto)
  qed
  then show "\<exists>r. pal_get ls f = Inr r" by blast
  show "b \<in> pal_ids ls" if "pal_get ls f = Inr (Some b)" using g that by auto
  obtain l0' where 0: "sfi_add place placef l0 (FLevel (LInts a)) c = Inr l0'" "sfi_inv l0'" "sfi_count l0' = 3"
    "sfi_ids l0' \<subseteq> insert c (sfi_ids l0)"
    using sfi_add_ok [OF pl(1) inv(1), of "FLevel (LInts a)" placef c] len n by (auto simp: sfi_shape_def)
  obtain l1' where 1: "sfi_add place placef l1 (FLevel (LInts d)) c = Inr l1'" "sfi_inv l1'" "sfi_count l1' = 4"
    "sfi_ids l1' \<subseteq> insert c (sfi_ids l1)"
    using sfi_add_ok [OF pl(1) inv(2), of "FLevel (LInts d)" placef c] len n by (auto simp: sfi_shape_def)
  obtain l2' where 2: "sfi_add place placef l2 (FLevel (LInts e)) c = Inr l2'" "sfi_inv l2'" "sfi_count l2' = 6"
    "sfi_ids l2' \<subseteq> insert c (sfi_ids l2)"
    using sfi_add_ok [OF pl(1) inv(3), of "FLevel (LInts e)" placef c] len n by (auto simp: sfi_shape_def)
  from sfi_float_add [OF pl(2) 2(2), of place x c] sfi_add_our [OF 2(1)] inv(4)
  obtain l3 where 3: "sfi_add place placef l2' (FLevel (LFloats [x])) c = Inr l3" "sfi_inv l3" "sfi_our l3 = 1"
    "sfi_count l3 = 6" "sfi_ids l3 \<subseteq> insert c (sfi_ids l2')" using 2(3) by auto
  have add: "pal_add place placef ls f c = Inr [l0', l1', l3]"
    by (simp add: pal_add_def ls f 0(1) 1(1) 2(1) 3(1))
  show "\<exists>ls'. pal_add place placef ls f c = Inr ls' \<and> pal_inv ls' \<and> pal_ids ls' \<subseteq> insert c (pal_ids ls)"
    using add 0 1 2 3 by (auto simp: pal_inv_def pal_ids_def ls)
  show "pal_get ls' f \<noteq> Inr None" if "pal_add place placef ls f c = Inr ls'"
  proof -
    have "sfi_get l0' (FLevel (LInts a)) = Inr (Some c)"
      using sfi_add_get [OF pl(1) inv(1) _ 0(1)] len(1) by (simp add: sfi_shape_def)
    moreover have "ls' = [l0', l1', l3]" using that add by simp
    ultimately show ?thesis by (simp add: f pal_get_def)
  qed
qed

interpretation pal: similarity_index pal_get "pal_add (#) (#)" pal_inv pal_shape pal_ids
  by (rule pal_laws [OF placement_cons placement_cons])

end
