(* ===== verification/BestFitIndex.thy ===== *)
theory BestFitIndex
  imports Index Features
begin

text \<open>
  The best-fit index, \<open>index/best_fit_index.h\<close> and \<open>.cpp\<close>: for each of the feature positions a map
  from a sub-feature to the ids of the chunks that had it; a lookup counts the matches of every id
  and takes one with the most, if it has four. The count map is iterated in an unspecified order:
  the parameter \<open>iter\<close>, a rearrangement of the matched ids. The index maps are only looked up by
  key, so they are functions. The counts are the 32-bit words of the source. \<open>RecoverFromFile\<close> and \<open>DumpToFile\<close> do nothing.
\<close>

type_synonym best_fit_index = "(u64 \<Rightarrow> u32 list option) list"

definition bf_new :: "nat \<Rightarrow> best_fit_index" where
  "bf_new feature_count = replicate feature_count Map.empty"

text \<open>The ids matched, one occurrence per increment of their counter.\<close>

fun bf_matches :: "best_fit_index \<Rightarrow> u64 list \<Rightarrow> cpp_error + u32 list" where
  "bf_matches [] fs = Inr []"
| "bf_matches (m # ms) [] = Inl OutOfBounds"
| "bf_matches (m # ms) (f # fs) =
     (case bf_matches ms fs of
        Inl e \<Rightarrow> Inl e
      | Inr xs \<Rightarrow> Inr ((case m f of None \<Rightarrow> [] | Some cids \<Rightarrow> cids) @ xs))"

definition bf_best :: "(u32 \<Rightarrow> u32) \<Rightarrow> u32 list \<Rightarrow> u32 \<times> u32" where
  "bf_best cnt order =
     foldl (\<lambda>(max_match, max_match_id) cid. if max_match < cnt cid then (cnt cid, cid) else (max_match, max_match_id))
       (0, - 1) order"

definition match_count :: "u32 list \<Rightarrow> u32 \<Rightarrow> u32" where
  "match_count xs cid = of_nat (count_list xs cid)"

definition bf_get :: "(u32 list \<Rightarrow> u32 list) \<Rightarrow> best_fit_index \<Rightarrow> feature \<Rightarrow> cpp_error + u32 option" where
  "bf_get iter index feat =
     (case feat of
        FVec features \<Rightarrow>
          (case bf_matches index features of
             Inl e \<Rightarrow> Inl e
           | Inr xs \<Rightarrow>
               (if xs = [] then Inr None
                else (let (max_match, max_match_id) = bf_best (match_count xs) (iter (remdups xs))
                      in Inr (if max_match < 4 then None else Some max_match_id))))
      | _ \<Rightarrow> Inl BadVariantAccess)"

fun bf_add_maps :: "u32 \<Rightarrow> best_fit_index \<Rightarrow> u64 list \<Rightarrow> cpp_error + best_fit_index" where
  "bf_add_maps cid [] fs = Inr []"
| "bf_add_maps cid (m # ms) [] = Inl OutOfBounds"
| "bf_add_maps cid (m # ms) (f # fs) =
     (case bf_add_maps cid ms fs of
        Inl e \<Rightarrow> Inl e
      | Inr ms' \<Rightarrow> Inr (m(f \<mapsto> (case m f of None \<Rightarrow> [] | Some cids \<Rightarrow> cids) @ [cid]) # ms'))"

definition bf_add :: "best_fit_index \<Rightarrow> feature \<Rightarrow> u32 \<Rightarrow> cpp_error + best_fit_index" where
  "bf_add index feat cid =
     (case feat of FVec features \<Rightarrow> bf_add_maps cid index features | _ \<Rightarrow> Inl BadVariantAccess)"

section \<open>The maximum search\<close>

lemma bf_best_step:
  assumes "bf_best cnt xs = (m, i)"
  shows "(\<forall>x \<in> set xs. cnt x \<le> m) \<and> (m = 0 \<and> i = - 1 \<or> i \<in> set xs \<and> cnt i = m \<and> 0 < m)"
  using assms
proof (induction xs arbitrary: m i rule: rev_induct)
  case (snoc x xs)
  obtain m0 i0 where r: "bf_best cnt xs = (m0, i0)" by (cases "bf_best cnt xs")
  from snoc.IH [OF r] snoc.prems r show ?case
    by (auto simp: bf_best_def word_gt_0 split: if_splits)
qed (simp add: bf_best_def)

definition permutes_iter :: "(u32 list \<Rightarrow> u32 list) \<Rightarrow> bool" where
  "permutes_iter iter \<longleftrightarrow> (\<forall>xs. set (iter xs) = set xs)"

lemma bf_get_cases:
  assumes "permutes_iter iter" "bf_matches index fs = Inr xs"
  obtains (none) "bf_get iter index (FVec fs) = Inr None" "\<forall>x. match_count xs x < 4"
  | (some) b where "bf_get iter index (FVec fs) = Inr (Some b)" "4 \<le> match_count xs b" "b \<in> set xs"
      "\<forall>x. match_count xs x \<le> match_count xs b"
proof (cases "xs = []")
  case True
  then show thesis using none assms(2) by (simp add: bf_get_def match_count_def)
next
  case False
  obtain m i where b: "bf_best (match_count xs) (iter (remdups xs)) = (m, i)"
    by (cases "bf_best (match_count xs) (iter (remdups xs))")
  have s: "set (iter (remdups xs)) = set xs" using assms(1) by (simp add: permutes_iter_def)
  from bf_best_step [OF b] s have le: "\<And>x. x \<in> set xs \<Longrightarrow> match_count xs x \<le> m"
    and i: "m = 0 \<and> i = - 1 \<or> i \<in> set xs \<and> match_count xs i = m \<and> 0 < m" by auto
  have all: "match_count xs x \<le> m" for x
    using le [of x] by (cases "x \<in> set xs") (auto simp: match_count_def count_notin)
  show thesis
  proof (cases "m < 4")
    case True
    then have "\<forall>x. match_count xs x < 4" using all le_less_trans by blast
    then show thesis using none True False b assms(2) by (simp add: bf_get_def)
  next
    case F: False
    then have "m \<noteq> 0" by auto
    then show thesis using some [of i] all i F False b assms(2) by (auto simp: bf_get_def)
  qed
qed

section \<open>The laws of the interface\<close>

definition bf_inv :: "nat \<Rightarrow> best_fit_index \<Rightarrow> bool" where
  "bf_inv n index \<longleftrightarrow> length index = n"

definition bf_shape :: "nat \<Rightarrow> feature \<Rightarrow> bool" where
  "bf_shape n f \<longleftrightarrow> (\<exists>fs. f = FVec fs \<and> length fs = n)"

definition bf_ids :: "best_fit_index \<Rightarrow> u32 set" where
  "bf_ids index = (\<Union>m \<in> set index. \<Union>cids \<in> ran m. set cids)"

lemma bf_ids_simps [simp]: "bf_ids [] = {}" "bf_ids (m # ms) = \<Union> (set ` ran m) \<union> bf_ids ms"
  by (auto simp: bf_ids_def)

lemma bf_matches_total:
  "length fs = length index \<Longrightarrow> \<exists>xs. bf_matches index fs = Inr xs \<and> set xs \<subseteq> bf_ids index"
proof (induction index fs rule: bf_matches.induct)
  case (3 m ms f fs)
  then obtain xs where x: "bf_matches ms fs = Inr xs" "set xs \<subseteq> bf_ids ms" by auto
  have "set (case m f of None \<Rightarrow> [] | Some cids \<Rightarrow> cids) \<subseteq> \<Union> (set ` ran m)"
    by (cases "m f") (auto intro: ranI)
  with x show ?case by auto
qed auto

text \<open>The number of positions at which two feature vectors agree.\<close>

definition shared :: "u64 list \<Rightarrow> u64 list \<Rightarrow> nat" where
  "shared g fs = length (filter (\<lambda>(a, b). a = b) (zip g fs))"

lemma shared_simps [simp]:
  "shared [] fs = 0" "shared (g # gs) (f # fs) = (if g = f then Suc (shared gs fs) else shared gs fs)"
  by (simp_all add: shared_def)

lemma shared_self: "shared fs fs = length fs"
  by (induction fs) simp_all

text \<open>Adding a feature vector adds its agreement with \<open>fs\<close> to the count of its id.\<close>

lemma bf_add_maps_counts:
  "length gs = length index \<Longrightarrow> length fs = length index \<Longrightarrow>
    \<exists>index' xs ys. bf_add_maps c index gs = Inr index' \<and> length index' = length index \<and>
      bf_ids index' \<subseteq> insert c (bf_ids index) \<and> bf_matches index fs = Inr xs \<and> bf_matches index' fs = Inr ys \<and>
      (\<forall>x. count_list ys x = count_list xs x + (if x = c then shared gs fs else 0))"
proof (induction c index gs arbitrary: fs rule: bf_add_maps.induct)
  case (3 c m ms g gs)
  from 3(3) obtain f fs' where fs: "fs = f # fs'" "length fs' = length ms" by (cases fs) auto
  have "length gs = length ms" using 3(2) by simp
  from 3(1) [OF this fs(2)] obtain ms' xs ys where i: "bf_add_maps c ms gs = Inr ms'" "length ms' = length ms"
    "bf_ids ms' \<subseteq> insert c (bf_ids ms)" "bf_matches ms fs' = Inr xs" "bf_matches ms' fs' = Inr ys"
    "\<forall>x. count_list ys x = count_list xs x + (if x = c then shared gs fs' else 0)"
    by blast
  let ?m = "m(g \<mapsto> (case m g of None \<Rightarrow> [] | Some cids \<Rightarrow> cids) @ [c])"
  have "\<Union> (set ` ran ?m) \<subseteq> insert c (\<Union> (set ` ran m))"
    by (auto simp: ran_def split: option.splits if_splits)
  then have "bf_ids (?m # ms') \<subseteq> insert c (bf_ids (m # ms))" using i(3) by auto
  then show ?case using i fs by (cases "g = f") auto
qed simp_all

lemma bf_laws:
  assumes "permutes_iter iter" "4 \<le> n" "n < 2 ^ 31"
  shows "similarity_index (bf_get iter) bf_add (bf_inv n) (bf_shape n) bf_ids"
proof
  fix index f c b index'
  assume "bf_inv n index" "bf_shape n f"
  then obtain fs where f: "f = FVec fs" "length fs = length index" and n: "length index = n"
    by (auto simp: bf_inv_def bf_shape_def)
  obtain j xs ys where a: "bf_add_maps c index fs = Inr j" "length j = length index" "bf_ids j \<subseteq> insert c (bf_ids index)"
    and xs: "bf_matches index fs = Inr xs" and ys: "bf_matches j fs = Inr ys" "count_list ys c = count_list xs c + n"
    using bf_add_maps_counts [OF f(2,2), of c] n f(2) by (auto simp: shared_self)
  show "\<exists>r. bf_get iter index f = Inr r" by (cases rule: bf_get_cases [OF assms(1) xs]) (auto simp: f)
  have "set xs \<subseteq> bf_ids index" using bf_matches_total [OF f(2)] xs by auto
  then show "b \<in> bf_ids index" if g: "bf_get iter index f = Inr (Some b)"
    by (cases rule: bf_get_cases [OF assms(1) xs]) (use g in \<open>auto simp: f\<close>)
  show "\<exists>index'. bf_add index f c = Inr index' \<and> bf_inv n index' \<and> bf_ids index' \<subseteq> insert c (bf_ids index)"
    using a n by (simp add: bf_add_def f bf_inv_def)
  show "bf_get iter index' f \<noteq> Inr None" if ad: "bf_add index f c = Inr index'" and none: "bf_get iter index f = Inr None"
  proof -
    have lt: "match_count xs c < 4"
      by (cases rule: bf_get_cases [OF assms(1) xs]) (use none in \<open>auto simp: f\<close>)
    have "match_count ys c = match_count xs c + of_nat n" by (simp add: match_count_def ys(2))
    moreover have "unat (match_count xs c + of_nat n :: u32) = unat (match_count xs c) + n"
      using lt assms(3) by (simp add: unat_word_ariths unat_of_nat word_less_nat_alt)
    ultimately have "4 \<le> match_count ys c" using assms(2) by (simp add: word_le_nat_alt)
    moreover have "index' = j" using ad a(1) by (simp add: bf_add_def f)
    ultimately show ?thesis by (cases rule: bf_get_cases [OF assms(1) ys(1)]) (auto simp: f not_less [symmetric])
  qed
qed

lemma permutes_iter_id: "permutes_iter (\<lambda>xs. xs)"
  by (simp add: permutes_iter_def)

interpretation bf: similarity_index "bf_get (\<lambda>xs. xs)" bf_add "bf_inv 12" "bf_shape 12" bf_ids
  by (rule bf_laws [OF permutes_iter_id]) simp_all

lemma odess_subfeatures_shape: "ck_wf c \<Longrightarrow> \<exists>f. OdessSubfeatures c = Some f \<and> bf_shape 12 f"
  by (simp add: OdessSubfeatures_def bf_shape_def)

text \<open>Features added one after another, each under its id.\<close>

primrec bf_add_all :: "best_fit_index \<Rightarrow> (u32 \<times> u64 list) list \<Rightarrow> cpp_error + best_fit_index" where
  "bf_add_all index [] = Inr index"
| "bf_add_all index (p # ps) =
     (case bf_add index (FVec (snd p)) (fst p) of Inl e \<Rightarrow> Inl e | Inr index' \<Rightarrow> bf_add_all index' ps)"

text \<open>What an id shares with a lookup: the positions of all its features that agree.\<close>

definition shared_by :: "(u32 \<times> u64 list) list \<Rightarrow> u64 list \<Rightarrow> u32 \<Rightarrow> nat" where
  "shared_by hist fs x = sum_list (map (\<lambda>(c, g). if c = x then shared g fs else 0) hist)"

lemma bf_add_all_counts:
  "\<forall>(c, g) \<in> set hist. length g = length index \<Longrightarrow> length fs = length index \<Longrightarrow> bf_matches index fs = Inr xs \<Longrightarrow>
    \<exists>index' ys. bf_add_all index hist = Inr index' \<and> bf_matches index' fs = Inr ys \<and>
      (\<forall>x. count_list ys x = count_list xs x + shared_by hist fs x)"
proof (induction hist arbitrary: index xs)
  case Nil
  then show ?case by (simp add: shared_by_def)
next
  case (Cons p hist)
  obtain c g where p: "p = (c, g)" by (cases p)
  obtain j zs where j: "bf_add_maps c index g = Inr j" "length j = length index" "bf_matches j fs = Inr zs"
    "\<forall>x. count_list zs x = count_list xs x + (if x = c then shared g fs else 0)"
    using bf_add_maps_counts [of g index fs c] Cons.prems by (auto simp: p)
  have "\<forall>(c, g) \<in> set hist. length g = length j" "length fs = length j" using Cons.prems j(2) by (auto simp: p)
  from Cons.IH [OF this j(3)] show ?case
    using j by (fastforce simp: p bf_add_def shared_by_def)
qed

lemma bf_matches_new: "length fs = n \<Longrightarrow> bf_matches (bf_new n) fs = Inr []"
  by (induction n arbitrary: fs) (auto simp: bf_new_def length_Suc_conv)

lemma shared_by_bound: "\<forall>(c, g) \<in> set hist. length g = n \<Longrightarrow> shared_by hist fs x \<le> length hist * n"
proof (induction hist)
  case (Cons p hist)
  obtain c g where p: "p = (c, g)" by (cases p)
  have "shared g fs \<le> length g" unfolding shared_def by (rule le_trans [OF length_filter_le]) simp
  with Cons show ?case by (auto simp: shared_by_def p)
qed (simp add: shared_by_def)

text \<open>C12: after any features were added under their ids, the best-fit lookup of \<open>fs\<close> answers an id
  exactly when some id was added with at least four sub-features in common with \<open>fs\<close>, counted position
  by position over everything added under it, and the id it answers has as many in common as any other,
  whatever the order of the count map. The bound keeps the 32-bit counters from wrapping.\<close>

theorem best_fit_is_best:
  assumes "permutes_iter iter" "length fs = n" "\<forall>(c, g) \<in> set hist. length g = n" "length hist * n < 2 ^ 32"
  shows "\<exists>index r. bf_add_all (bf_new n) hist = Inr index \<and> bf_get iter index (FVec fs) = Inr r \<and>
    (r = None \<longleftrightarrow> (\<forall>x. shared_by hist fs x < 4)) \<and>
    (\<forall>b. r = Some b \<longrightarrow> 4 \<le> shared_by hist fs b \<and> (\<forall>x. shared_by hist fs x \<le> shared_by hist fs b))"
proof -
  have "length (bf_new n) = n" by (simp add: bf_new_def)
  then obtain index ys where a: "bf_add_all (bf_new n) hist = Inr index" "bf_matches index fs = Inr ys"
      "\<forall>x. count_list ys x = shared_by hist fs x"
    using bf_add_all_counts [of hist "bf_new n" fs "[]"] bf_matches_new [OF assms(2)] assms(2,3) by auto
  have u: "unat (match_count ys x) = shared_by hist fs x" for x
    using a(3) shared_by_bound [OF assms(3), of fs x] assms(4) by (simp add: match_count_def unat_of_nat)
  show ?thesis
  proof (cases rule: bf_get_cases [OF assms(1) a(2)])
    case 1
    then show ?thesis using a(1) u by (auto simp: word_less_nat_alt)
  next
    case (2 b)
    then have b: "4 \<le> shared_by hist fs b" "\<forall>x. shared_by hist fs x \<le> shared_by hist fs b"
      by (simp_all add: word_le_nat_alt u)
    then have "\<not> (\<forall>x. shared_by hist fs x < 4)" by (meson not_le)
    with b 2(1) a(1) show ?thesis by auto
  qed
qed

theorem best_fit_is_best_witness:
  "\<exists>index. bf_add_all (bf_new 5) [(7, [1, 2, 3, 4, 0]), (9, [1, 2, 3, 4, 5])] = Inr index \<and>
    bf_get rev index (FVec [1, 2, 3, 4, 5]) = Inr (Some 9)"
proof -
  let ?h = "[(7, [1, 2, 3, 4, 0]), (9, [1, 2, 3, 4, 5])] :: (u32 \<times> u64 list) list"
  have p: "permutes_iter rev" by (simp add: permutes_iter_def)
  have h: "length [1, 2, 3, 4, 5 :: u64] = 5" "\<forall>(c, g) \<in> set ?h. length g = 5" "length ?h * 5 < 2 ^ 32" by simp_all
  have s: "shared_by ?h [1, 2, 3, 4, 5] x = (if x = 7 then 4 else if x = 9 then 5 else 0)" for x
    by (simp add: shared_by_def)
  obtain index r where i: "bf_add_all (bf_new 5) ?h = Inr index" "bf_get rev index (FVec [1, 2, 3, 4, 5]) = Inr r"
      "r = None \<longleftrightarrow> (\<forall>x. shared_by ?h [1, 2, 3, 4, 5] x < 4)"
      "\<forall>b. r = Some b \<longrightarrow> 4 \<le> shared_by ?h [1, 2, 3, 4, 5] b \<and> (\<forall>x. shared_by ?h [1, 2, 3, 4, 5] x \<le> shared_by ?h [1, 2, 3, 4, 5] b)"
    using best_fit_is_best [OF p h] by blast
  have "\<not> (\<forall>x. shared_by ?h [1, 2, 3, 4, 5] x < 4)" unfolding s by (auto intro!: exI [of _ 9])
  then obtain b where b: "r = Some b" using i(3) by blast
  have "shared_by ?h [1, 2, 3, 4, 5] 9 \<le> shared_by ?h [1, 2, 3, 4, 5] b" using i(4) b by blast
  then have "b = 9" unfolding s by (auto split: if_splits)
  with i(1,2) b show ?thesis by blast
qed

end
