(* ===== verification/Stdio.thy ===== *)
theory Stdio
  imports Chunk
begin

text \<open>
  The C streams of the storage layer: a file is its bytes and a position. \<open>fseek\<close>, \<open>ftell\<close>,
  \<open>fread\<close> and \<open>fwrite\<close> do what the C standard says of an update stream; a write past the end fills
  the gap with zero bytes, and a read returns at most the bytes left. The bytes of a fresh allocation
  or of an uninitialised local variable are a parameter \<open>junk\<close>. \<open>from_file_stream\<close> is
  \<open>Chunk::FromFileStream\<close>.
\<close>

record c_file =
  cf_data :: bytes
  cf_pos :: nat

definition fseek_set :: "nat \<Rightarrow> c_file \<Rightarrow> c_file" where
  "fseek_set n f = f\<lparr>cf_pos := n\<rparr>"

definition fseek_end :: "c_file \<Rightarrow> c_file" where
  "fseek_end f = f\<lparr>cf_pos := length (cf_data f)\<rparr>"

definition ftell :: "c_file \<Rightarrow> nat" where
  "ftell f = cf_pos f"

definition fread :: "nat \<Rightarrow> c_file \<Rightarrow> bytes \<times> c_file" where
  "fread n f =
     (let bs = take n (drop (cf_pos f) (cf_data f)) in (bs, f\<lparr>cf_pos := cf_pos f + length bs\<rparr>))"

definition fwrite :: "bytes \<Rightarrow> c_file \<Rightarrow> c_file" where
  "fwrite bs f =
     (let p = cf_pos f; d = cf_data f
      in \<lparr>cf_data = take p d @ replicate (p - length d) 0 @ bs @ drop (p + length bs) d,
          cf_pos = p + length bs\<rparr>)"

text \<open>The bytes in an object of \<open>n\<close> bytes with initial contents \<open>junk\<close> after a read into it.\<close>

definition filled :: "bytes \<Rightarrow> (nat \<Rightarrow> u8) \<Rightarrow> nat \<Rightarrow> bytes" where
  "filled got junk n = got @ map junk [length got..<n]"

definition from_file_stream :: "(nat \<Rightarrow> u8) \<Rightarrow> nat \<Rightarrow> u32 \<Rightarrow> c_file \<Rightarrow> chunk \<times> c_file" where
  "from_file_stream junk sz i f =
     (let (got, f') = fread sz f in (make_chunk (filled got junk sz) True sz i, f'))"

text \<open>A stream positioned for appending.\<close>

definition at_end :: "c_file \<Rightarrow> bool" where
  "at_end f \<longleftrightarrow> cf_pos f = length (cf_data f)"

lemma fseek_end_sel [simp]: "cf_data (fseek_end f) = cf_data f" "cf_pos (fseek_end f) = length (cf_data f)"
  "at_end (fseek_end f)"
  by (simp_all add: fseek_end_def at_end_def)

lemma fseek_set_sel [simp]: "cf_data (fseek_set n f) = cf_data f" "cf_pos (fseek_set n f) = n"
  by (simp_all add: fseek_set_def)

lemma fread_data [simp]: "cf_data (snd (fread n f)) = cf_data f"
  by (simp add: fread_def Let_def)

lemma fread_bytes: "fst (fread n f) = take n (drop (cf_pos f) (cf_data f))"
  by (simp add: fread_def Let_def)

lemma fread_pos: "cf_pos (snd (fread n f)) = cf_pos f + length (fst (fread n f))"
  by (simp add: fread_def Let_def)

lemma fwrite_append:
  assumes "at_end f"
  shows "fwrite bs f = \<lparr>cf_data = cf_data f @ bs, cf_pos = length (cf_data f) + length bs\<rparr>"
  using assms by (simp add: fwrite_def at_end_def Let_def)

lemma fwrite_at_end: "at_end f \<Longrightarrow> at_end (fwrite bs f)"
  by (simp add: fwrite_append) (simp add: at_end_def)

lemma at_end_fseek: "at_end f \<Longrightarrow> fseek_end f = f"
  by (cases f) (simp add: at_end_def fseek_end_def)

lemma filled_full [simp]: "length got = n \<Longrightarrow> filled got junk n = got"
  by (simp add: filled_def)

lemma length_filled [simp]: "length got \<le> n \<Longrightarrow> length (filled got junk n) = n"
  by (simp add: filled_def)

lemma from_file_stream_data [simp]: "cf_data (snd (from_file_stream junk n i f)) = cf_data f"
  by (simp add: from_file_stream_def case_prod_beta)

lemma from_file_stream_full:
  assumes "cf_pos f + n \<le> length (cf_data f)"
  shows "fst (from_file_stream junk n i f) = make_chunk (take n (drop (cf_pos f) (cf_data f))) True n i"
  using assms by (simp add: from_file_stream_def case_prod_beta fread_bytes)

end
