(* ===== verification/Cache.thy ===== *)
theory Cache
  imports Chunk
begin

text \<open>
  The chunk cache of \<open>storage/cache.h\<close> and \<open>storage/cache.cpp\<close>: a hash map from chunk ids to nodes of
  a doubly linked list between two dummy nodes, most recently used first. Nodes live in an explicit
  heap, so that every pointer the code follows is a lookup that can fail (\<open>None\<close>): a null or dangling
  pointer. The memory counter is a \<open>size_t\<close> and wraps.

  The abstract cache is a list of pairs, newest first (\<open>lru_get\<close>, \<open>lru_add\<close>); \<open>cache_rep\<close> relates a heap
  to it and the refinement lemmas show that every operation keeps the relation.
\<close>

record node =
  nd_prev :: "nat option"
  nd_next :: "nat option"
  nd_id :: u32
  nd_chunk :: "chunk option"

type_synonym node_heap = "nat \<Rightarrow> node option"

record chunk_cache =
  cc_max :: nat
  cc_mem :: u64
  cc_map :: "u32 \<Rightarrow> nat option"
  cc_heap :: node_heap
  cc_fresh :: nat
  cc_head :: nat
  cc_tail :: nat
  cc_hits :: u32
  cc_miss :: u32

section \<open>The operations of the source\<close>

definition node_new :: "u32 \<Rightarrow> chunk option \<Rightarrow> node" where
  "node_new i c = \<lparr>nd_prev = None, nd_next = None, nd_id = i, nd_chunk = c\<rparr>"

text \<open>\<open>junk\<close> is the uninitialised id of the dummy nodes.\<close>

definition cache_new :: "u32 \<Rightarrow> nat \<Rightarrow> chunk_cache" where
  "cache_new junk cache_size =
     \<lparr>cc_max = (cache_size * 1024 * 1024) mod 2 ^ 64, cc_mem = 0, cc_map = Map.empty,
      cc_heap = [0 \<mapsto> (node_new junk None)\<lparr>nd_next := Some 1\<rparr>, 1 \<mapsto> (node_new junk None)\<lparr>nd_prev := Some 0\<rparr>],
      cc_fresh = 2, cc_head = 0, cc_tail = 1, cc_hits = 0, cc_miss = 0\<rparr>"

definition deref :: "node_heap \<Rightarrow> nat option \<Rightarrow> node option" where
  "deref h p = (case p of None \<Rightarrow> None | Some a \<Rightarrow> h a)"

text \<open>Assignments through a pointer: \<open>p->next = v\<close> and \<open>p->prev = v\<close>.\<close>

definition set_next :: "nat option \<Rightarrow> nat option \<Rightarrow> node_heap \<Rightarrow> node_heap option" where
  "set_next p v h =
     (case p of None \<Rightarrow> None
      | Some a \<Rightarrow> map_option (\<lambda>n. h(a \<mapsto> n\<lparr>nd_next := v\<rparr>)) (h a))"

definition set_prev :: "nat option \<Rightarrow> nat option \<Rightarrow> node_heap \<Rightarrow> node_heap option" where
  "set_prev p v h =
     (case p of None \<Rightarrow> None
      | Some a \<Rightarrow> map_option (\<lambda>n. h(a \<mapsto> n\<lparr>nd_prev := v\<rparr>)) (h a))"

definition insertToHead :: "nat \<Rightarrow> nat \<Rightarrow> node_heap \<Rightarrow> node_heap option" where
  "insertToHead head nod h =
     do {
       hd_node \<leftarrow> h head;
       let head_next = nd_next hd_node;
       h1 \<leftarrow> set_next (Some head) (Some nod) h;
       h2 \<leftarrow> set_prev (Some nod) (Some head) h1;
       h3 \<leftarrow> set_prev head_next (Some nod) h2;
       set_next (Some nod) head_next h3
     }"

text \<open>\<open>get\<close>: the outer option is a memory fault, the inner one the null pointer of a miss.\<close>

definition cache_get :: "u32 \<Rightarrow> chunk_cache \<Rightarrow> (chunk option \<times> chunk_cache) option" where
  "cache_get i c =
     (case cc_map c i of
        None \<Rightarrow> Some (None, c\<lparr>cc_miss := cc_miss c + 1\<rparr>)
      | Some a \<Rightarrow>
          do {
            n \<leftarrow> cc_heap c a;
            h1 \<leftarrow> set_next (nd_prev n) (nd_next n) (cc_heap c);
            h2 \<leftarrow> set_prev (nd_next n) (nd_prev n) h1;
            h3 \<leftarrow> insertToHead (cc_head c) a h2;
            n' \<leftarrow> h3 a;
            Some (nd_chunk n', c\<lparr>cc_hits := cc_hits c + 1, cc_heap := h3\<rparr>)
          })"

text \<open>One round of the eviction loop, and the loop. (\<open>None\<close> also stands for a loop that never ends.)\<close>

definition cache_evict :: "u64 \<Rightarrow> chunk_cache \<Rightarrow> chunk_cache option" where
  "cache_evict len c =
     do {
       tl_node \<leftarrow> cc_heap c (cc_tail c);
       evict \<leftarrow> nd_prev tl_node;
       ev_node \<leftarrow> cc_heap c evict;
       h1 \<leftarrow> set_next (nd_prev ev_node) (Some (cc_tail c)) (cc_heap c);
       h2 \<leftarrow> set_prev (Some (cc_tail c)) (nd_prev ev_node) h1;
       ev_node' \<leftarrow> h2 evict;
       Some (c\<lparr>cc_heap := h2(evict := None), cc_map := (cc_map c)(nd_id ev_node' := None),
               cc_mem := cc_mem c - len\<rparr>)
     }"

partial_function (option) cache_make_room :: "u64 \<Rightarrow> chunk_cache \<Rightarrow> chunk_cache option" where
  "cache_make_room len c =
     (if cc_max c \<le> unat (cc_mem c + len)
      then (case cache_evict len c of None \<Rightarrow> None | Some c' \<Rightarrow> cache_make_room len c')
      else Some c)"

definition cache_add :: "u32 \<Rightarrow> chunk \<Rightarrow> chunk_cache \<Rightarrow> chunk_cache option" where
  "cache_add i ch c =
     (let len = word_of_int (ck_len ch)
      in do {
        c1 \<leftarrow> cache_make_room len c;
        let a = cc_fresh c1;
        h \<leftarrow> insertToHead (cc_head c1) a ((cc_heap c1)(a \<mapsto> node_new i (Some ch)));
        Some (c1\<lparr>cc_mem := cc_mem c1 + len, cc_map := (cc_map c1)(i \<mapsto> a), cc_heap := h, cc_fresh := a + 1\<rparr>)
      })"

section \<open>The abstract cache\<close>

type_synonym lru = "(u32 \<times> chunk) list"

definition lru_get :: "u32 \<Rightarrow> lru \<Rightarrow> chunk option \<times> lru" where
  "lru_get i l =
     (case map_of l i of
        None \<Rightarrow> (None, l)
      | Some ch \<Rightarrow> (Some ch, (i, ch) # filter (\<lambda>p. fst p \<noteq> i) l))"

fun lru_make_room :: "nat \<Rightarrow> u64 \<Rightarrow> nat \<Rightarrow> lru \<Rightarrow> u64 \<Rightarrow> (lru \<times> u64) option" where
  "lru_make_room mx len 0 l mem = (if mx \<le> unat (mem + len) then None else Some (l, mem))"
| "lru_make_room mx len (Suc n) l mem =
     (if mx \<le> unat (mem + len) then lru_make_room mx len n (butlast l) (mem - len) else Some (l, mem))"

definition lru_add :: "nat \<Rightarrow> u32 \<Rightarrow> chunk \<Rightarrow> lru \<times> u64 \<Rightarrow> (lru \<times> u64) option" where
  "lru_add mx i ch s =
     (let len = word_of_int (ck_len ch)
      in map_option (\<lambda>(l, mem). ((i, ch) # l, mem + len)) (lru_make_room mx len (length (fst s)) (fst s) (snd s)))"

section \<open>Doubly linked chains\<close>

definition nxt :: "node_heap \<Rightarrow> nat \<Rightarrow> nat option" where
  "nxt h a = (case h a of None \<Rightarrow> None | Some n \<Rightarrow> nd_next n)"

definition prv :: "node_heap \<Rightarrow> nat \<Rightarrow> nat option" where
  "prv h a = (case h a of None \<Rightarrow> None | Some n \<Rightarrow> nd_prev n)"

fun links :: "node_heap \<Rightarrow> nat list \<Rightarrow> bool" where
  "links h (a # b # as) \<longleftrightarrow> nxt h a = Some b \<and> prv h b = Some a \<and> links h (b # as)"
| "links h _ \<longleftrightarrow> True"

lemma links_append: "links h (as @ a # bs) \<longleftrightarrow> links h (as @ [a]) \<and> links h (a # bs)"
proof (induction as)
  case Nil
  show ?case by (cases bs) auto
next
  case (Cons x as)
  then show ?case by (cases as) auto
qed

lemma links_cong:
  assumes "\<And>a. a \<in> set (butlast as) \<Longrightarrow> nxt h' a = nxt h a" "\<And>a. a \<in> set (tl as) \<Longrightarrow> prv h' a = prv h a"
  shows "links h' as \<longleftrightarrow> links h as"
  using assms by (induction h as rule: links.induct) auto

lemma links_frame_tl:
  assumes "links h (b # bs)" "\<And>a. a \<in> set (b # bs) \<Longrightarrow> nxt h' a = nxt h a" "\<And>a. a \<in> set bs \<Longrightarrow> prv h' a = prv h a"
  shows "links h' (b # bs)"
  using assms links_cong [of "b # bs" h' h] by (metis in_set_butlastD list.sel(3))

lemma links_frame_butlast:
  assumes "links h (as @ [p])" "\<And>a. a \<in> set as \<Longrightarrow> nxt h' a = nxt h a" "\<And>a. a \<in> set (as @ [p]) \<Longrightarrow> prv h' a = prv h a"
  shows "links h' (as @ [p])"
proof -
  have "a \<in> set (as @ [p])" if "a \<in> set (tl (as @ [p]))" for a using that by (cases as) auto
  then show ?thesis using assms links_cong [of "as @ [p]" h' h] by (metis butlast_snoc)
qed

text \<open>Two heaps with the same nodes and the same payloads.\<close>

definition same_data :: "node_heap \<Rightarrow> node_heap \<Rightarrow> bool" where
  "same_data h h' \<longleftrightarrow> (\<forall>a. map_option (\<lambda>n. (nd_id n, nd_chunk n)) (h' a) = map_option (\<lambda>n. (nd_id n, nd_chunk n)) (h a))"

lemma same_data_refl [simp]: "same_data h h"
  by (simp add: same_data_def)

lemma same_data_trans [trans]: "same_data h h1 \<Longrightarrow> same_data h1 h2 \<Longrightarrow> same_data h h2"
  by (simp add: same_data_def)

lemma same_data_dom: "same_data h h' \<Longrightarrow> h' a = None \<longleftrightarrow> h a = None"
  unfolding same_data_def by (drule spec [of _ a]) (cases "h a"; cases "h' a"; simp)

definition node_is :: "node_heap \<Rightarrow> nat \<Rightarrow> u32 \<times> chunk \<Rightarrow> bool" where
  "node_is h a p \<longleftrightarrow> map_option (\<lambda>n. (nd_id n, nd_chunk n)) (h a) = Some (fst p, Some (snd p))"

lemma same_data_node: "same_data h h' \<Longrightarrow> node_is h' a p \<longleftrightarrow> node_is h a p"
  by (simp add: same_data_def node_is_def)

lemma set_next_ok:
  assumes "h a \<noteq> None"
  obtains h' where "set_next (Some a) v h = Some h'" "nxt h' = (nxt h)(a := v)" "prv h' = prv h" "same_data h h'"
proof -
  obtain n where n: "h a = Some n" using assms by auto
  show thesis
    by (rule that [of "h(a \<mapsto> n\<lparr>nd_next := v\<rparr>)"])
      (auto simp: set_next_def n nxt_def prv_def same_data_def fun_eq_iff)
qed

lemma set_prev_ok:
  assumes "h a \<noteq> None"
  obtains h' where "set_prev (Some a) v h = Some h'" "prv h' = (prv h)(a := v)" "nxt h' = nxt h" "same_data h h'"
proof -
  obtain n where n: "h a = Some n" using assms by auto
  show thesis
    by (rule that [of "h(a \<mapsto> n\<lparr>nd_prev := v\<rparr>)"])
      (auto simp: set_prev_def n nxt_def prv_def same_data_def fun_eq_iff)
qed

lemma nxt_Some: "nxt h a = Some b \<Longrightarrow> h a \<noteq> None" "prv h a = Some b \<Longrightarrow> h a \<noteq> None"
  by (auto simp: nxt_def prv_def split: option.splits)

lemma insertToHead_links:
  assumes l: "links h (h0 # b # bs)" and d: "distinct (h0 # b # bs)"
    and a: "a \<notin> set (h0 # b # bs)" "h a \<noteq> None"
  obtains h' where "insertToHead h0 a h = Some h'" "links h' (h0 # a # b # bs)" "same_data h h'"
    "prv h' h0 = prv h h0"
proof -
  have lb: "nxt h h0 = Some b" "prv h b = Some h0" "links h (b # bs)" using l by auto
  then obtain hn where hn: "h h0 = Some hn" "nd_next hn = Some b" by (auto simp: nxt_def split: option.splits)
  obtain h1 where h1: "set_next (Some h0) (Some a) h = Some h1" "nxt h1 = (nxt h)(h0 := Some a)"
    "prv h1 = prv h" "same_data h h1" by (rule set_next_ok [of h h0]) (simp add: hn)
  obtain h2 where h2: "set_prev (Some a) (Some h0) h1 = Some h2" "prv h2 = (prv h1)(a := Some h0)"
    "nxt h2 = nxt h1" "same_data h1 h2"
    by (rule set_prev_ok [of h1 a]) (simp add: same_data_dom [OF h1(4)] a(2) del: not_None_eq)
  have "h b \<noteq> None" using nxt_Some(2) [OF lb(2)] .
  then obtain h3 where h3: "set_prev (Some b) (Some a) h2 = Some h3" "prv h3 = (prv h2)(b := Some a)"
    "nxt h3 = nxt h2" "same_data h2 h3"
    by (rule_tac set_prev_ok [of h2 b]) (simp add: same_data_dom [OF h2(4)] same_data_dom [OF h1(4)] del: not_None_eq)
  obtain h4 where h4: "set_next (Some a) (Some b) h3 = Some h4" "nxt h4 = (nxt h3)(a := Some b)"
    "prv h4 = prv h3" "same_data h3 h4"
    by (rule set_next_ok [of h3 a])
      (simp add: same_data_dom [OF h3(4)] same_data_dom [OF h2(4)] same_data_dom [OF h1(4)] a(2) del: not_None_eq)
  have n4: "nxt h4 = (nxt h)(h0 := Some a, a := Some b)" by (simp add: h4 h3 h2 h1)
  have p4: "prv h4 = (prv h)(a := Some h0, b := Some a)" by (simp add: h4 h3 h2 h1)
  have "links h4 (b # bs)"
    by (rule links_frame_tl [OF lb(3)]) (use d a(1) in \<open>auto simp: n4 p4\<close>)
  then have "links h4 (h0 # a # b # bs)" using d a(1) by (auto simp: n4 p4)
  moreover have "insertToHead h0 a h = Some h4" by (simp add: insertToHead_def Let_def hn h1 h2 h3 h4)
  moreover have "same_data h h4" using h1(4) h2(4) h3(4) h4(4) by (metis same_data_trans)
  moreover have "prv h4 h0 = prv h h0" using d a(1) by (auto simp: p4)
  ultimately show thesis using that by blast
qed

lemma unlink_links:
  assumes l: "links h (xs @ p # a # n # ys)" and d: "distinct (xs @ p # a # n # ys)"
  obtains h1 h2 where "set_next (Some p) (Some n) h = Some h1" "set_prev (Some n) (Some p) h1 = Some h2"
    "links h2 (xs @ p # n # ys)" "same_data h h2" "prv h a = Some p" "nxt h a = Some n"
    "\<And>z. z \<notin> set (n # ys) \<Longrightarrow> prv h2 z = prv h z"
proof -
  have lx: "links h (xs @ [p])" and la: "links h (p # a # n # ys)" using l links_append [of h xs p "a # n # ys"] by auto
  have "h p \<noteq> None" "h n \<noteq> None" using la nxt_Some by auto
  obtain h1 where h1: "set_next (Some p) (Some n) h = Some h1" "nxt h1 = (nxt h)(p := Some n)"
    "prv h1 = prv h" "same_data h h1" using \<open>h p \<noteq> None\<close> by (rule set_next_ok)
  obtain h2 where h2: "set_prev (Some n) (Some p) h1 = Some h2" "prv h2 = (prv h1)(n := Some p)"
    "nxt h2 = nxt h1" "same_data h1 h2"
    by (rule set_prev_ok [of h1 n]) (simp add: same_data_dom [OF h1(4)] \<open>h n \<noteq> None\<close> del: not_None_eq)
  have lp: "links h2 (xs @ [p])"
    by (rule links_frame_butlast [OF lx]) (use d in \<open>auto simp: h2 h1\<close>)
  have "links h (n # ys)" using la by simp
  then have "links h2 (n # ys)"
    by (rule links_frame_tl) (use d in \<open>auto simp: h2 h1\<close>)
  then have "links h2 (p # n # ys)" by (simp add: h2 h1)
  then have "links h2 (xs @ p # n # ys)" using lp links_append [of h2 xs p "n # ys"] by simp
  moreover have "same_data h h2" using h1(4) h2(4) by (rule same_data_trans)
  moreover have "prv h2 z = prv h z" if "z \<notin> set (n # ys)" for z using that by (auto simp: h2 h1)
  ultimately show thesis using that h1(1) h2(1) la by auto
qed

section \<open>Refinement\<close>

definition cache_rep :: "chunk_cache \<Rightarrow> lru \<Rightarrow> bool" where
  "cache_rep c l \<longleftrightarrow> (\<exists>as. links (cc_heap c) (cc_head c # as @ [cc_tail c]) \<and>
     distinct (cc_head c # as @ [cc_tail c]) \<and> prv (cc_heap c) (cc_head c) = None \<and>
     cc_heap c (cc_head c) \<noteq> None \<and>
     list_all2 (node_is (cc_heap c)) as l \<and> distinct (map fst l) \<and>
     cc_map c = map_of (zip (map fst l) as) \<and> (\<forall>a. cc_heap c a \<noteq> None \<longrightarrow> a < cc_fresh c))"

lemma cache_new_rep: "cache_rep (cache_new junk n) []"
  by (auto simp: cache_rep_def cache_new_def node_new_def nxt_def prv_def intro!: exI [of _ "[]"])

lemma node_isD: "node_is h a p \<Longrightarrow> \<exists>n. h a = Some n \<and> nd_id n = fst p \<and> nd_chunk n = Some (snd p)"
  by (auto simp: node_is_def)

lemma same_data_nodes: "same_data h h' \<Longrightarrow> list_all2 (node_is h') as l = list_all2 (node_is h) as l"
  by (simp add: same_data_node cong: list.rel_cong)

lemma links_next_hd: "links h (h0 # as @ [z]) \<Longrightarrow> links h (h0 # hd (as @ [z]) # tl (as @ [z]))"
  by (cases as) auto

lemma zip_ids_None:
  assumes "length as = length l" "i \<notin> fst ` set l"
  shows "map_of (zip (map fst l) as) i = None"
proof -
  have "map fst (zip (map fst l) as) = map fst l" using assms(1) by simp
  then show ?thesis using assms(2) unfolding map_of_eq_None_iff by (metis set_map)
qed

lemma zip_ids_middle:
  assumes "length as1 = length l1" "length as2 = length l2" "i \<notin> fst ` set l1"
  shows "map_of (zip (map fst (l1 @ (i, x) # l2)) (as1 @ a # as2)) =
    (map_of (zip (map fst (l1 @ l2)) (as1 @ as2)))(i \<mapsto> a)"
proof -
  have "i \<notin> dom (map_of (zip (map fst l1) as1))"
    using zip_ids_None [OF assms(1,3)] by (simp only: domIff not_not)
  then show ?thesis using assms(1,2) by (simp only: map_append list.map zip_append length_map fst_conv snd_conv
        zip_Cons_Cons map_of_append map_of.simps map_add_upd_left simp_thms)
qed

lemma links_nodes: "links h (x # xs) \<Longrightarrow> h x \<noteq> None \<Longrightarrow> b \<in> set (x # xs) \<Longrightarrow> h b \<noteq> None"
proof (induction xs arbitrary: x)
  case (Cons y ys)
  then have "h y \<noteq> None" using nxt_Some(2) [of h y x] by simp
  with Cons show ?case by auto
qed simp

text \<open>\<open>get\<close> answers what the abstract cache answers and moves the entry to the front.\<close>

lemma cache_get_refines:
  assumes r: "cache_rep c l"
  shows "\<exists>c'. cache_get i c = Some (fst (lru_get i l), c') \<and> cache_rep c' (snd (lru_get i l)) \<and>
    cc_mem c' = cc_mem c \<and> cc_max c' = cc_max c"
proof -
  obtain as where ln: "links (cc_heap c) (cc_head c # as @ [cc_tail c])"
    and d: "distinct (cc_head c # as @ [cc_tail c])" and p0: "prv (cc_heap c) (cc_head c) = None"
    and h0: "cc_heap c (cc_head c) \<noteq> None" and nd: "list_all2 (node_is (cc_heap c)) as l"
    and dl: "distinct (map fst l)" and mp: "cc_map c = map_of (zip (map fst l) as)"
    and fr: "\<forall>a. cc_heap c a \<noteq> None \<longrightarrow> a < cc_fresh c"
    using r by (auto simp: cache_rep_def)
  have len: "length as = length l" using nd by (rule list_all2_lengthD)
  show ?thesis
  proof (cases "map_of l i")
    case None
    then have "i \<notin> fst ` set l" by (simp add: map_of_eq_None_iff)
    then have "cc_map c i = None" unfolding mp by (rule zip_ids_None [OF len])
    then have "cache_get i c = Some (None, c\<lparr>cc_miss := cc_miss c + 1\<rparr>)" by (simp add: cache_get_def)
    moreover have "cache_rep (c\<lparr>cc_miss := cc_miss c + 1\<rparr>) l" using r by (simp add: cache_rep_def)
    ultimately show ?thesis using None by (simp add: lru_get_def)
  next
    case (Some ch)
    then have "(i, ch) \<in> set l" by (rule map_of_SomeD)
    then obtain l1 l2 where l: "l = l1 @ (i, ch) # l2" by (meson split_list)
    obtain as1 a as2 where as: "as = as1 @ a # as2" "length as1 = length l1" "length as2 = length l2"
    proof
      show "as = take (length l1) as @ as ! length l1 # drop (Suc (length l1)) as"
        using len l by (intro id_take_nth_drop) simp
    qed (use len l in simp_all)
    have na: "node_is (cc_heap c) a (i, ch)" and n1: "list_all2 (node_is (cc_heap c)) as1 l1"
      and n2: "list_all2 (node_is (cc_heap c)) as2 l2"
      using nd as by (simp_all add: l list_all2_append)
    have ni: "i \<notin> fst ` set l1" "i \<notin> fst ` set l2" using dl by (auto simp: l)
    have ma: "cc_map c i = Some a"
      using as(2,3) by (simp add: mp l as(1) map_add_def zip_ids_None [OF as(2) ni(1)])
    define xs where "xs = butlast (cc_head c # as1)"
    define p where "p = last (cc_head c # as1)"
    define n where "n = hd (as2 @ [cc_tail c])"
    define ys where "ys = tl (as2 @ [cc_tail c])"
    have xp: "cc_head c # as1 = xs @ [p]" by (simp add: xs_def p_def)
    have ny: "as2 @ [cc_tail c] = n # ys" by (simp add: n_def ys_def)
    have L: "cc_head c # as @ [cc_tail c] = xs @ p # a # n # ys"
      using xp ny as(1) by (metis append.assoc append_Cons append_Nil)
    obtain h1 h2 where u: "set_next (Some p) (Some n) (cc_heap c) = Some h1" "set_prev (Some n) (Some p) h1 = Some h2"
      "links h2 (xs @ p # n # ys)" "same_data (cc_heap c) h2" "prv (cc_heap c) a = Some p" "nxt (cc_heap c) a = Some n"
      and pz: "\<And>z. z \<notin> set (n # ys) \<Longrightarrow> prv h2 z = prv (cc_heap c) z"
      using ln d unfolding L by (rule unlink_links) blast
    have L': "xs @ p # n # ys = cc_head c # (as1 @ as2) @ [cc_tail c]"
      using xp ny by (metis append.assoc append_Cons append_Nil)
    obtain b bs where b: "(as1 @ as2) @ [cc_tail c] = b # bs" by (cases "(as1 @ as2) @ [cc_tail c]") auto
    have la: "links h2 (cc_head c # b # bs)" using u(3) unfolding L' b .
    have da: "distinct (cc_head c # b # bs)" "a \<notin> set (cc_head c # b # bs)"
      using d unfolding b [symmetric] by (auto simp: as(1))
    have "h2 a \<noteq> None" using node_isD [OF na] same_data_dom [OF u(4)] by auto
    with la da obtain h3 where t: "insertToHead (cc_head c) a h2 = Some h3"
      "links h3 (cc_head c # a # b # bs)" "same_data h2 h3" "prv h3 (cc_head c) = prv h2 (cc_head c)"
      by (rule insertToHead_links)
    have sd: "same_data (cc_heap c) h3" using u(4) t(3) by (rule same_data_trans)
    obtain nn where nn: "cc_heap c a = Some nn" "nd_prev nn = Some p" "nd_next nn = Some n"
      using u(5,6) by (auto simp: prv_def nxt_def split: option.splits)
    obtain n3 where n3: "h3 a = Some n3" "nd_chunk n3 = Some ch"
      using node_isD [of h3 a "(i, ch)"] na same_data_node [OF sd] by auto
    let ?c = "c\<lparr>cc_hits := cc_hits c + 1, cc_heap := h3\<rparr>"
    have get: "cache_get i c = Some (Some ch, ?c)"
      by (simp add: cache_get_def ma nn u(1,2) t(1) n3)
    have fl: "filter (\<lambda>q. fst q \<noteq> i) l = l1 @ l2"
    proof -
      have "filter (\<lambda>q. fst q \<noteq> i) l1 = l1" "filter (\<lambda>q. fst q \<noteq> i) l2 = l2"
        using ni by (auto simp: filter_id_conv)
      then show ?thesis by (simp add: l)
    qed
    have "cache_rep ?c ((i, ch) # l1 @ l2)"
      unfolding cache_rep_def
    proof (intro exI [of _ "a # as1 @ as2"] conjI)
      show "links (cc_heap ?c) (cc_head ?c # (a # as1 @ as2) @ [cc_tail ?c])"
        using t(2) b by simp
      show "distinct (cc_head ?c # (a # as1 @ as2) @ [cc_tail ?c])" using d as(1) by auto
      show "prv (cc_heap ?c) (cc_head ?c) = None"
        using t(4) pz [of "cc_head c"] p0 d by (auto simp: ny [symmetric] as(1))
      show "cc_heap ?c (cc_head ?c) \<noteq> None" using h0 same_data_dom [OF sd] by simp
      show "list_all2 (node_is (cc_heap ?c)) (a # as1 @ as2) ((i, ch) # l1 @ l2)"
        using na n1 n2 by (simp add: same_data_node [OF sd] same_data_nodes [OF sd] list_all2_appendI)
      show "distinct (map fst ((i, ch) # l1 @ l2))" using dl by (auto simp: l)
      show "cc_map ?c = map_of (zip (map fst ((i, ch) # l1 @ l2)) (a # as1 @ as2))"
        using zip_ids_middle [OF as(2,3) ni(1), of ch a] by (simp add: mp l as(1))
      show "\<forall>z. cc_heap ?c z \<noteq> None \<longrightarrow> z < cc_fresh ?c" using fr same_data_dom [OF sd] by simp
    qed
    then show ?thesis using Some get fl by (simp add: lru_get_def)
  qed
qed

text \<open>An eviction round drops the last entry; on an empty cache it follows the null pointer before the
  first dummy node.\<close>

lemma cache_evict_refines:
  assumes r: "cache_rep c (l @ [e])"
  shows "\<exists>c'. cache_evict len c = Some c' \<and> cache_rep c' l \<and> cc_mem c' = cc_mem c - len \<and> cc_max c' = cc_max c"
proof -
  obtain as where ln: "links (cc_heap c) (cc_head c # as @ [cc_tail c])"
    and d: "distinct (cc_head c # as @ [cc_tail c])" and p0: "prv (cc_heap c) (cc_head c) = None"
    and h0: "cc_heap c (cc_head c) \<noteq> None" and nd: "list_all2 (node_is (cc_heap c)) as (l @ [e])"
    and dl: "distinct (map fst (l @ [e]))" and mp: "cc_map c = map_of (zip (map fst (l @ [e])) as)"
    and fr: "\<forall>a. cc_heap c a \<noteq> None \<longrightarrow> a < cc_fresh c"
    using r by (auto simp: cache_rep_def)
  have len: "length as = length l + 1" using list_all2_lengthD [OF nd] by simp
  then obtain as1 a where as: "as = as1 @ [a]" "length as1 = length l" by (cases as rule: rev_cases) auto
  have n1: "list_all2 (node_is (cc_heap c)) as1 l" and na: "node_is (cc_heap c) a e"
    using nd as by (simp_all add: list_all2_append)
  define xs where "xs = butlast (cc_head c # as1)"
  define p where "p = last (cc_head c # as1)"
  have xp: "cc_head c # as1 = xs @ [p]" by (simp add: xs_def p_def)
  have L: "cc_head c # as @ [cc_tail c] = xs @ p # a # cc_tail c # []"
    using xp as(1) by (metis append.assoc append_Cons append_Nil)
  obtain h1 h2 where u: "set_next (Some p) (Some (cc_tail c)) (cc_heap c) = Some h1" "set_prev (Some (cc_tail c)) (Some p) h1 = Some h2"
    "links h2 (xs @ p # cc_tail c # [])" "same_data (cc_heap c) h2" "prv (cc_heap c) a = Some p" "nxt (cc_heap c) a = Some (cc_tail c)"
    and pz: "\<And>z. z \<notin> set [cc_tail c] \<Longrightarrow> prv h2 z = prv (cc_heap c) z"
    using ln d unfolding L by (rule unlink_links) blast
  have L': "xs @ p # cc_tail c # [] = cc_head c # as1 @ [cc_tail c]"
    using xp by (metis append.assoc append_Cons append_Nil)
  have "links (cc_heap c) (p # a # cc_tail c # [])" using ln unfolding L by (simp only: links_append [THEN iffD1])
  then have "prv (cc_heap c) (cc_tail c) = Some a" by simp
  then obtain tn where tn: "cc_heap c (cc_tail c) = Some tn" "nd_prev tn = Some a"
    by (auto simp: prv_def split: option.splits)
  obtain nn where nn: "cc_heap c a = Some nn" "nd_prev nn = Some p"
    using u(5) by (auto simp: prv_def split: option.splits)
  obtain n2 where n2: "h2 a = Some n2" "nd_id n2 = fst e"
    using node_isD [of h2 a e] na same_data_node [OF u(4)] by auto
  let ?c = "c\<lparr>cc_heap := h2(a := None), cc_map := (cc_map c)(fst e := None), cc_mem := cc_mem c - len\<rparr>"
  have ev: "cache_evict len c = Some ?c" by (simp add: cache_evict_def tn nn u(1,2) n2)
  have da: "a \<notin> set (cc_head c # as1 @ [cc_tail c])" using d as(1) by auto
  have "cache_rep ?c l"
    unfolding cache_rep_def
  proof (intro exI [of _ as1] conjI)
    have "links (h2(a := None)) (cc_head c # as1 @ [cc_tail c])"
    proof (rule links_frame_tl)
      show "links h2 (cc_head c # as1 @ [cc_tail c])" using u(3) unfolding L' .
    qed (use da in \<open>auto simp: nxt_def prv_def\<close>)
    then show "links (cc_heap ?c) (cc_head ?c # as1 @ [cc_tail ?c])" by simp
    show "distinct (cc_head ?c # as1 @ [cc_tail ?c])" using d as(1) by auto
    show "prv (cc_heap ?c) (cc_head ?c) = None"
      using da pz [of "cc_head c"] p0 d as(1) by (auto simp: prv_def)
    show "cc_heap ?c (cc_head ?c) \<noteq> None" using h0 same_data_dom [OF u(4)] da by auto
    have "node_is (h2(a := None)) b q = node_is (cc_heap c) b q" if "b \<in> set as1" for b q
      using da that same_data_node [OF u(4), of b q] by (auto simp: node_is_def)
    then show "list_all2 (node_is (cc_heap ?c)) as1 l"
      by (intro list.rel_mono_strong [OF n1]) simp
    show "distinct (map fst l)" using dl by simp
    show "cc_map ?c = map_of (zip (map fst l) as1)"
    proof -
      have "fst e \<notin> fst ` set l" using dl by auto
      with zip_ids_middle [of as1 l "[]" "[]" "fst e" "snd e" a] zip_ids_None [OF as(2), of "fst e"]
      show ?thesis using as(2) by (simp add: mp as(1) fun_upd_idem)
    qed
    show "\<forall>z. cc_heap ?c z \<noteq> None \<longrightarrow> z < cc_fresh ?c"
      using fr same_data_dom [OF u(4)] by (simp del: not_None_eq)
  qed
  with ev show ?thesis by auto
qed

lemma cache_evict_empty:
  assumes r: "cache_rep c []"
  shows "cache_evict len c = None"
proof -
  have ln: "links (cc_heap c) [cc_head c, cc_tail c]" and p0: "prv (cc_heap c) (cc_head c) = None"
    and h0: "cc_heap c (cc_head c) \<noteq> None"
    using r by (auto simp: cache_rep_def)
  from ln obtain tn where "cc_heap c (cc_tail c) = Some tn" "nd_prev tn = Some (cc_head c)"
    by (auto simp: prv_def split: option.splits)
  with p0 h0 show ?thesis by (auto simp: cache_evict_def prv_def set_next_def)
qed

lemma cache_make_room_refines:
  assumes "cache_rep c l"
  shows "case lru_make_room (cc_max c) len (length l) l (cc_mem c) of
      None \<Rightarrow> cache_make_room len c = None
    | Some (l', mem') \<Rightarrow> \<exists>c'. cache_make_room len c = Some c' \<and> cache_rep c' l' \<and> cc_mem c' = mem' \<and>
        cc_max c' = cc_max c \<and> set l' \<subseteq> set l"
  using assms
proof (induction "length l" arbitrary: c l)
  case 0
  then show ?case
    using cache_evict_empty [of c len] cache_make_room.simps [of len c] by simp
next
  case (Suc n)
  then obtain l1 e where l: "l = l1 @ [e]" "length l1 = n" by (cases l rule: rev_cases) auto
  obtain c1 where c1: "cache_evict len c = Some c1" "cache_rep c1 l1" "cc_mem c1 = cc_mem c - len" "cc_max c1 = cc_max c"
    using cache_evict_refines [of c l1 e len] Suc.prems l by auto
  have ih: "case lru_make_room (cc_max c) len n l1 (cc_mem c - len) of
      None \<Rightarrow> cache_make_room len c1 = None
    | Some (l', mem') \<Rightarrow> \<exists>c'. cache_make_room len c1 = Some c' \<and> cache_rep c' l' \<and> cc_mem c' = mem' \<and>
        cc_max c' = cc_max c \<and> set l' \<subseteq> set l1"
    using Suc.hyps(1) [of l1 c1] l c1 by (auto split: option.splits)
  show ?case
  proof (cases "cc_max c \<le> unat (cc_mem c + len)")
    case True
    then have "cache_make_room len c = cache_make_room len c1"
      using c1(1) cache_make_room.simps [of len c] by simp
    then show ?thesis using ih True l by (auto split: option.splits)
  next
    case False
    then show ?thesis using cache_make_room.simps [of len c] Suc.prems l by simp
  qed
qed

text \<open>\<open>add\<close>, for an id that is not in the cache (the program adds after a miss).\<close>

lemma cache_add_refines:
  assumes r: "cache_rep c l" and i: "i \<notin> fst ` set l"
  shows "case lru_add (cc_max c) i ch (l, cc_mem c) of
      None \<Rightarrow> cache_add i ch c = None
    | Some (l', mem') \<Rightarrow> \<exists>c'. cache_add i ch c = Some c' \<and> cache_rep c' l' \<and> cc_mem c' = mem' \<and> cc_max c' = cc_max c"
proof -
  let ?len = "word_of_int (ck_len ch) :: u64"
  note room = cache_make_room_refines [OF r, of ?len]
  show ?thesis
  proof (cases "lru_make_room (cc_max c) ?len (length l) l (cc_mem c)")
    case None
    then show ?thesis using room by (simp add: lru_add_def cache_add_def Let_def)
  next
    case (Some lm)
    obtain l1 mem1 where lm: "lm = (l1, mem1)" by (cases lm)
    obtain c1 where c1: "cache_make_room ?len c = Some c1" "cache_rep c1 l1" "cc_mem c1 = mem1"
      "cc_max c1 = cc_max c" "set l1 \<subseteq> set l" using room Some lm by auto
    obtain as where ln: "links (cc_heap c1) (cc_head c1 # as @ [cc_tail c1])"
      and d: "distinct (cc_head c1 # as @ [cc_tail c1])" and p0: "prv (cc_heap c1) (cc_head c1) = None"
      and h0: "cc_heap c1 (cc_head c1) \<noteq> None" and nd: "list_all2 (node_is (cc_heap c1)) as l1"
      and dl: "distinct (map fst l1)" and mp: "cc_map c1 = map_of (zip (map fst l1) as)"
      and fr: "\<forall>a. cc_heap c1 a \<noteq> None \<longrightarrow> a < cc_fresh c1"
      using c1(2) by (auto simp: cache_rep_def)
    let ?a = "cc_fresh c1"
    let ?h = "(cc_heap c1)(?a \<mapsto> node_new i (Some ch))"
    have inh: "cc_heap c1 b \<noteq> None" if "b \<in> set (cc_head c1 # as @ [cc_tail c1])" for b
      using links_nodes [OF ln h0 that] .
    have a: "?a \<notin> set (cc_head c1 # as @ [cc_tail c1])" using inh fr by (metis less_irrefl)
    obtain b bs where b: "as @ [cc_tail c1] = b # bs" by (cases "as @ [cc_tail c1]") auto
    have "links ?h (cc_head c1 # as @ [cc_tail c1])"
      by (rule links_frame_tl [OF ln]) (use a in \<open>auto simp: nxt_def prv_def\<close>)
    then have "links ?h (cc_head c1 # b # bs)" using b by simp
    moreover have "distinct (cc_head c1 # b # bs)" "?a \<notin> set (cc_head c1 # b # bs)"
      using d a unfolding b [symmetric] by auto
    moreover have "?h ?a \<noteq> None" by simp
    ultimately obtain h3 where t: "insertToHead (cc_head c1) ?a ?h = Some h3"
      "links h3 (cc_head c1 # ?a # b # bs)" "same_data ?h h3" "prv h3 (cc_head c1) = prv ?h (cc_head c1)"
      by (rule insertToHead_links)
    let ?c = "c1\<lparr>cc_mem := cc_mem c1 + ?len, cc_map := (cc_map c1)(i \<mapsto> ?a), cc_heap := h3, cc_fresh := ?a + 1\<rparr>"
    have add: "cache_add i ch c = Some ?c" by (simp add: cache_add_def Let_def c1(1) t(1))
    have "cache_rep ?c ((i, ch) # l1)"
      unfolding cache_rep_def
    proof (intro exI [of _ "?a # as"] conjI)
      show "links (cc_heap ?c) (cc_head ?c # (?a # as) @ [cc_tail ?c])" using t(2) b by simp
      show "distinct (cc_head ?c # (?a # as) @ [cc_tail ?c])" using d a by auto
      show "prv (cc_heap ?c) (cc_head ?c) = None" using t(4) p0 a by (auto simp: prv_def)
      show "cc_heap ?c (cc_head ?c) \<noteq> None" using same_data_dom [OF t(3), of "cc_head c1"] h0 by simp
      have "node_is h3 b q = node_is (cc_heap c1) b q" if "b \<in> set as" for b q
        using same_data_node [OF t(3), of b q] a that by (auto simp: node_is_def)
      moreover have "node_is h3 ?a (i, ch)"
        using same_data_node [OF t(3), of ?a "(i, ch)"] by (simp add: node_is_def node_new_def)
      ultimately show "list_all2 (node_is (cc_heap ?c)) (?a # as) ((i, ch) # l1)"
        using list.rel_mono_strong [OF nd, of "node_is h3"] by simp
      show "distinct (map fst ((i, ch) # l1))" using dl i c1(5) by auto
      show "cc_map ?c = map_of (zip (map fst ((i, ch) # l1)) (?a # as))" by (simp add: mp)
      show "\<forall>z. cc_heap ?c z \<noteq> None \<longrightarrow> z < cc_fresh ?c"
        using fr same_data_dom [OF t(3)] by (auto split: if_splits intro: less_SucI)
    qed
    with add c1 Some lm show ?thesis by (simp add: lru_add_def Let_def)
  qed
qed

section \<open>Properties\<close>

text \<open>What the drivers do with the cache: a lookup, or an insertion after a miss.\<close>

datatype cache_op = CGet u32 | CAdd u32 chunk

fun cache_run :: "cache_op list \<Rightarrow> chunk_cache \<Rightarrow> (chunk option list \<times> chunk_cache) option" where
  "cache_run [] c = Some ([], c)"
| "cache_run (CGet i # ops) c =
     do {
       (r, c') \<leftarrow> cache_get i c;
       (rs, c'') \<leftarrow> cache_run ops c';
       Some (r # rs, c'')
     }"
| "cache_run (CAdd i ch # ops) c =
     do {
       c' \<leftarrow> cache_add i ch c;
       cache_run ops c'
     }"

fun lru_run :: "nat \<Rightarrow> cache_op list \<Rightarrow> lru \<times> u64 \<Rightarrow> (chunk option list \<times> lru \<times> u64) option" where
  "lru_run mx [] s = Some ([], s)"
| "lru_run mx (CGet i # ops) s =
     do {
       (rs, s') \<leftarrow> lru_run mx ops (snd (lru_get i (fst s)), snd s);
       Some (fst (lru_get i (fst s)) # rs, s')
     }"
| "lru_run mx (CAdd i ch # ops) s =
     do {
       s' \<leftarrow> lru_add mx i ch s;
       lru_run mx ops s'
     }"

text \<open>Every insertion is of an id that the abstract cache does not hold.\<close>

fun adds_missing :: "nat \<Rightarrow> cache_op list \<Rightarrow> lru \<times> u64 \<Rightarrow> bool" where
  "adds_missing mx [] s = True"
| "adds_missing mx (CGet i # ops) s = adds_missing mx ops (snd (lru_get i (fst s)), snd s)"
| "adds_missing mx (CAdd i ch # ops) s =
     (i \<notin> fst ` set (fst s) \<and> (case lru_add mx i ch s of None \<Rightarrow> True | Some s' \<Rightarrow> adds_missing mx ops s'))"

lemma cache_run_refines:
  assumes "cache_rep c l" "adds_missing (cc_max c) ops (l, cc_mem c)"
  shows "map_option fst (cache_run ops c) = map_option fst (lru_run (cc_max c) ops (l, cc_mem c))"
  using assms
proof (induction ops arbitrary: c l)
  case (Cons op ops)
  show ?case
  proof (cases op)
    case (CGet i)
    obtain c' where g: "cache_get i c = Some (fst (lru_get i l), c')" "cache_rep c' (snd (lru_get i l))"
      "cc_mem c' = cc_mem c" "cc_max c' = cc_max c" using cache_get_refines [OF Cons.prems(1)] by blast
    have "map_option fst (cache_run ops c') = map_option fst (lru_run (cc_max c) ops (snd (lru_get i l), cc_mem c))"
      using Cons.IH [OF g(2)] Cons.prems(2) g CGet by simp
    then show ?thesis using CGet g
      by (cases "cache_run ops c'"; cases "lru_run (cc_max c) ops (snd (lru_get i l), cc_mem c)") auto
  next
    case (CAdd i ch)
    have i: "i \<notin> fst ` set l" using Cons.prems(2) CAdd by simp
    note r = cache_add_refines [OF Cons.prems(1) i, of ch]
    show ?thesis
    proof (cases "lru_add (cc_max c) i ch (l, cc_mem c)")
      case None
      then show ?thesis using r CAdd by simp
    next
      case (Some s)
      then obtain c' where "cache_add i ch c = Some c'" "cache_rep c' (fst s)" "cc_mem c' = snd s" "cc_max c' = cc_max c"
        using r by (cases s) auto
      then show ?thesis using Cons.IH [of c' "fst s"] Cons.prems(2) Some CAdd by (cases s) simp
    qed
  qed
qed simp

text \<open>C13: the linked-list cache refines the abstract least-recently-used cache: any run of lookups and of
  insertions after misses, from the new cache, answers the same values and faults at the same point.\<close>

theorem cache_refines_lru:
  assumes "adds_missing (cc_max (cache_new junk n)) ops ([], 0)"
  shows "map_option fst (cache_run ops (cache_new junk n)) =
    map_option fst (lru_run (cc_max (cache_new junk n)) ops ([], 0))"
proof -
  have "cc_mem (cache_new junk n) = 0" by (simp add: cache_new_def)
  then show ?thesis using cache_run_refines [OF cache_new_rep, of junk n ops] assms by simp
qed

theorem cache_refines_lru_witness:
  "map_option fst (cache_run [CAdd 1 (make_chunk [5, 6] True 2 1), CGet 1, CGet 2] (cache_new 0 2)) =
    Some [Some (make_chunk [5, 6] True 2 1), None]"
proof -
  let ?ops = "[CAdd 1 (make_chunk [5, 6] True 2 1), CGet 1, CGet 2]"
  have m: "cc_max (cache_new 0 2) = 2097152" by (simp add: cache_new_def)
  have a: "lru_add 2097152 1 (make_chunk [5, 6] True 2 1) ([], 0) = Some ([(1, make_chunk [5, 6] True 2 1)], 2)"
    by (simp add: lru_add_def)
  have "adds_missing (cc_max (cache_new 0 2)) ?ops ([], 0)" by (simp add: m a)
  from cache_refines_lru [OF this] show ?thesis by (simp add: m a lru_get_def)
qed

text \<open>With chunks of one size the counter is the total size held, and stays below the limit.\<close>

definition uniform :: "nat \<Rightarrow> nat \<Rightarrow> lru \<times> u64 \<Rightarrow> bool" where
  "uniform mx n s \<longleftrightarrow> unat (snd s) = n * length (fst s) \<and> n * length (fst s) < mx \<and>
     (\<forall>p \<in> set (fst s). ck_len (snd p) = int n)"

lemma lru_make_room_uniform:
  assumes "uniform mx n (l, mem)" "n < mx" "mx + n < 2 ^ 64"
  shows "\<exists>l' mem'. lru_make_room mx (of_nat n) (length l) l mem = Some (l', mem') \<and>
    uniform mx n (l', mem') \<and> n * length l' + n < mx"
  using assms(1)
proof (induction "length l" arbitrary: l mem)
  case 0
  then show ?case using assms(2,3) by (auto simp: uniform_def unat_word_ariths unat_of_nat)
next
  case (Suc k)
  then obtain l1 e where l: "l = l1 @ [e]" "length l1 = k" by (cases l rule: rev_cases) auto
  have mem: "unat mem = n * length l" "n * length l < mx" using Suc.prems by (simp_all add: uniform_def)
  have s: "unat (mem + of_nat n) = n * length l + n"
    using mem assms(3) by (simp add: unat_word_ariths unat_of_nat)
  show ?case
  proof (cases "mx \<le> n * length l + n")
    case False
    then have "lru_make_room mx (of_nat n) (Suc k) l mem = Some (l, mem)" using s by simp
    then show ?thesis using Suc.prems False by (simp add: Suc.hyps(2) [symmetric] add.commute)
  next
    case True
    have nn: "n < 2 ^ 64" using assms(2,3) by simp
    have "(of_nat n :: u64) \<le> mem"
      using mem l nn by (simp add: word_le_nat_alt unat_of_nat)
    then have "unat (mem - of_nat n) = n * length l1"
      using mem(1) l nn by (simp add: unat_sub unat_of_nat)
    then have "uniform mx n (l1, mem - of_nat n)" using Suc.prems l by (simp add: uniform_def)
    from Suc.hyps(1) [OF _ this] l have "\<exists>l' mem'. lru_make_room mx (of_nat n) k l1 (mem - of_nat n) = Some (l', mem') \<and>
      uniform mx n (l', mem') \<and> n * length l' + n < mx" by simp
    moreover have "lru_make_room mx (of_nat n) (Suc k) l mem = lru_make_room mx (of_nat n) k l1 (mem - of_nat n)"
      using True s l by simp
    ultimately show ?thesis by (simp only: Suc.hyps(2) [symmetric])
  qed
qed

text \<open>While all chunks have the same size (as with fixed-size chunking) and one fits, insertion never
  faults, the counter is exactly the number of bytes held, and these stay below the limit.\<close>

theorem cache_uniform_sizes:
  assumes "uniform mx n s" "ck_len ch = int n" "n < mx" "mx + n < 2 ^ 64"
  shows "\<exists>s'. lru_add mx i ch s = Some s' \<and> uniform mx n s'"
proof -
  obtain l mem where s: "s = (l, mem)" by (cases s)
  from lru_make_room_uniform [of mx n l mem] assms s obtain l' mem' where
    r: "lru_make_room mx (of_nat n) (length l) l mem = Some (l', mem')"
    and u: "uniform mx n (l', mem')" "n * length l' + n < mx" by auto
  have "unat (mem' + of_nat n) = n * length l' + n"
    using u assms(3,4) by (simp add: uniform_def unat_word_ariths unat_of_nat)
  then have "uniform mx n ((i, ch) # l', mem' + of_nat n)"
    using u assms(2) by (auto simp: uniform_def)
  then show ?thesis using r assms(2) s by (simp add: lru_add_def)
qed

theorem cache_uniform_sizes_witness:
  "\<exists>s'. lru_add 10 3 (make_chunk [1, 2, 3, 4] True 4 3)
      ([(2, make_chunk [0, 0, 0, 0] True 4 2), (1, make_chunk [0, 0, 0, 0] True 4 1)], 8) = Some s' \<and> uniform 10 4 s'"
  by (rule cache_uniform_sizes) (simp_all add: uniform_def)

text \<open>How many rounds the eviction loop makes, when the counter and the new block add up to \<open>m\<close>: the
  number depends on the size \<open>n\<close> of the new block and not on the sizes of the blocks that go.\<close>

definition rounds :: "nat \<Rightarrow> nat \<Rightarrow> nat \<Rightarrow> nat" where
  "rounds mx n m = (if m < mx then 0 else (m - mx) div n + 1)"

lemma rounds_step: "0 < n \<Longrightarrow> n \<le> mx \<Longrightarrow> mx \<le> m \<Longrightarrow> rounds mx n m = Suc (rounds mx n (m - n))"
  by (auto simp: rounds_def le_div_geq add.commute)

lemma lru_make_room_rounds:
  assumes "0 < n" "n \<le> mx"
  shows "lru_make_room mx (of_nat n) (length l) l mem =
    (let k = rounds mx n (unat (mem + of_nat n))
     in if k \<le> length l then Some (take (length l - k) l, mem - of_nat (k * n)) else None)"
proof (induction "length l" arbitrary: l mem)
  case 0
  then show ?case by (simp add: rounds_def)
next
  case (Suc k)
  then obtain l1 e where l: "l = l1 @ [e]" "length l1 = k" by (cases l rule: rev_cases) auto
  show ?case
  proof (cases "mx \<le> unat (mem + of_nat n)")
    case True
    have nn: "n < 2 ^ 64" using True assms(2) unsigned_less [of "mem + of_nat n", where ?'a = nat] by simp
    have "(of_nat n :: u64) \<le> mem + of_nat n"
      using True assms(2) nn by (simp add: word_le_nat_alt unat_of_nat)
    then have u: "unat (mem - of_nat n + of_nat n) = unat (mem + of_nat n) - n"
      using unat_sub [of "of_nat n" "mem + of_nat n"] nn by (simp add: unat_of_nat)
    have r: "rounds mx n (unat (mem + of_nat n)) = Suc (rounds mx n (unat (mem - of_nat n + of_nat n)))"
      using rounds_step [OF assms True] unfolding u .
    have "lru_make_room mx (of_nat n) (length l) l mem = lru_make_room mx (of_nat n) (length l1) l1 (mem - of_nat n)"
      using True l by simp
    also have "\<dots> = (let j = rounds mx n (unat (mem - of_nat n + of_nat n))
        in if j \<le> length l1 then Some (take (length l1 - j) l1, mem - of_nat n - of_nat (j * n)) else None)"
      using Suc.hyps(1) [of l1 "mem - of_nat n"] l(2) by simp
    finally show ?thesis unfolding r by (simp add: l(1) Let_def algebra_simps)
  qed (simp add: rounds_def Suc.hyps(2) [symmetric])
qed

text \<open>C14: inserting a block of \<open>n\<close> bytes evicts the least recently used blocks, as many as rounds of
  subtracting \<open>n\<close> bring the counter plus \<open>n\<close> below the limit, whatever the evicted blocks hold: with
  blocks of different sizes the counter is not the number of bytes held. When the list has fewer blocks the
  loop follows the null pointer before the first dummy node.\<close>

theorem cache_add_evicts:
  assumes "cache_rep c l" "i \<notin> fst ` set l" "0 < ck_len ch" "ck_len ch \<le> int (cc_max c)"
    and "unat (cc_mem c) + nat (ck_len ch) < 2 ^ 64"
  shows "let n = nat (ck_len ch);
             k = (if unat (cc_mem c) + n < cc_max c then 0 else (unat (cc_mem c) + n - cc_max c) div n + 1)
         in if k \<le> length l
            then \<exists>c'. cache_add i ch c = Some c' \<and> cache_rep c' ((i, ch) # take (length l - k) l) \<and>
                   cc_max c' = cc_max c \<and> unat (cc_mem c') + k * n = unat (cc_mem c) + n
            else cache_add i ch c = None"
proof -
  define n where "n = nat (ck_len ch)"
  define k where "k = rounds (cc_max c) n (unat (cc_mem c) + n)"
  have n: "0 < n" "n \<le> cc_max c" "word_of_int (ck_len ch) = (of_nat n :: u64)"
    using assms(3,4) by (simp_all add: n_def nat_le_iff)
  have m: "unat (cc_mem c + of_nat n) = unat (cc_mem c) + n"
    using assms(5) by (simp add: n_def [symmetric] unat_word_ariths unat_of_nat)
  have r: "lru_make_room (cc_max c) (of_nat n) (length l) l (cc_mem c) =
      (if k \<le> length l then Some (take (length l - k) l, cc_mem c - of_nat (k * n)) else None)"
    using lru_make_room_rounds [OF n(1,2), of l "cc_mem c"] unfolding m k_def [symmetric] by (simp add: Let_def)
  have kn: "k * n \<le> unat (cc_mem c) + n"
  proof (cases "unat (cc_mem c) + n < cc_max c")
    case False
    then obtain q where q: "q = (unat (cc_mem c) + n - cc_max c) div n" "k = q + 1" by (simp add: k_def rounds_def)
    have "q * n \<le> unat (cc_mem c) + n - cc_max c" unfolding q(1) by (rule div_times_less_eq_dividend)
    then have "q * n + n \<le> unat (cc_mem c) + n" using False n(2) by linarith
    then show ?thesis by (simp add: q(2))
  qed (simp add: k_def rounds_def)
  have w: "unat (cc_mem c + of_nat n - of_nat (k * n)) + k * n = unat (cc_mem c) + n"
  proof -
    have "(of_nat (k * n) :: u64) \<le> cc_mem c + of_nat n"
      using kn m assms(5) by (simp add: word_le_nat_alt unat_of_nat n_def [symmetric] del: of_nat_mult)
    then show ?thesis
      using kn m assms(5) unat_sub [of "of_nat (k * n)" "cc_mem c + of_nat n"]
      by (simp add: unat_of_nat n_def [symmetric] del: of_nat_mult)
  qed
  have add_diff_swap: "cc_mem c - of_nat (k * n) + of_nat n = cc_mem c + of_nat n - of_nat (k * n)" by (simp add: algebra_simps)
  have a: "lru_add (cc_max c) i ch (l, cc_mem c) =
      (if k \<le> length l then Some ((i, ch) # take (length l - k) l, cc_mem c - of_nat (k * n) + of_nat n) else None)"
    unfolding lru_add_def n(3) by (simp add: r)
  have "if k \<le> length l
      then \<exists>c'. cache_add i ch c = Some c' \<and> cache_rep c' ((i, ch) # take (length l - k) l) \<and>
             cc_max c' = cc_max c \<and> unat (cc_mem c') + k * n = unat (cc_mem c) + n
      else cache_add i ch c = None"
    using cache_add_refines [OF assms(1,2), of ch] w unfolding a add_diff_swap
    by (cases "k \<le> length l") (auto simp del: of_nat_mult)
  then show ?thesis unfolding Let_def n_def [symmetric] rounds_def [symmetric] k_def [symmetric] .
qed

text \<open>In a cache of one megabyte, two blocks of one byte and then two of a megabyte less one byte: each of
  the latter evicts one small block only, and the cache holds almost two megabytes with a counter of two.\<close>

theorem cache_add_evicts_witness:
  "let a = (\<lambda>i. make_chunk [0] True 1 i); b = (\<lambda>i. make_chunk (replicate 1048575 0) True 1048575 i)
   in \<exists>c. cache_run [CAdd 1 (a 1), CAdd 2 (a 2), CAdd 3 (b 3), CAdd 4 (b 4)] (cache_new 0 1) = Some ([], c) \<and>
        cc_max c = 1048576 \<and> cc_mem c = 2 \<and> cache_rep c [(4, b 4), (3, b 3)]"
proof -
  let ?a = "\<lambda>i. make_chunk [0] True 1 i" and ?b = "\<lambda>i. make_chunk (replicate 1048575 0) True 1048575 i"
  have 0: "cc_max (cache_new 0 1) = 1048576" "unat (cc_mem (cache_new 0 1)) = 0"
    "cc_max (cache_new 0 (Suc 0)) = 1048576" "unat (cc_mem (cache_new 0 (Suc 0))) = 0" by (simp_all add: cache_new_def)
  obtain c1 where 1: "cache_add 1 (?a 1) (cache_new 0 1) = Some c1" "cache_rep c1 [(1, ?a 1)]" "unat (cc_mem c1) = 1" "cc_max c1 = 1048576"
    using cache_add_evicts [OF cache_new_rep, of 1 "?a 1" 0 1] by (auto simp: 0 Let_def)
  obtain c2 where 2: "cache_add 2 (?a 2) c1 = Some c2" "cache_rep c2 [(2, ?a 2), (1, ?a 1)]" "unat (cc_mem c2) = 2" "cc_max c2 = 1048576"
    using cache_add_evicts [OF 1(2), of 2 "?a 2"] by (auto simp: 1(3,4) Let_def)
  obtain c3 where 3: "cache_add 3 (?b 3) c2 = Some c3" "cache_rep c3 [(3, ?b 3), (2, ?a 2)]" "unat (cc_mem c3) = 2" "cc_max c3 = 1048576"
    using cache_add_evicts [OF 2(2), of 3 "?b 3"] by (auto simp: 2(3,4) Let_def)
  obtain c4 where 4: "cache_add 4 (?b 4) c3 = Some c4" "cache_rep c4 [(4, ?b 4), (3, ?b 3)]" "unat (cc_mem c4) = 2" "cc_max c4 = 1048576"
    using cache_add_evicts [OF 3(2), of 4 "?b 4"] by (auto simp: 3(3,4) Let_def)
  have "cc_mem c4 = 2" using 4(3) by (simp add: word_unat_eq_iff)
  with 4 1(1) 2(1) 3(1) show ?thesis by (simp add: Let_def)
qed

text \<open>A chunk as large as the limit cannot be added to the new cache: the eviction loop finds the list
  empty and follows the null pointer before its first dummy node. With a configured size of zero this
  is the first insertion.\<close>

theorem cache_add_too_large:
  assumes "cc_max (cache_new junk n) \<le> unat (word_of_int (ck_len ch) :: u64)"
  shows "cache_add i ch (cache_new junk n) = None"
proof -
  have "cc_mem (cache_new junk n) = 0" by (simp add: cache_new_def)
  then have "lru_add (cc_max (cache_new junk n)) i ch ([], cc_mem (cache_new junk n)) = None"
    using assms by (simp add: lru_add_def)
  then show ?thesis using cache_add_refines [OF cache_new_rep [of junk n], of i ch] by simp
qed

theorem cache_add_too_large_witness: "cache_add 4 (make_chunk [1, 2] True 2 4) (cache_new 9 0) = None"
  by (rule cache_add_too_large) (simp add: cache_new_def)

end
