(* ===== verification/Storage.thy ===== *)
theory Storage
  imports Stdio Cache
begin

text \<open>
  The chunk store, \<open>storage/storage.h\<close> and \<open>storage/storage.cpp\<close>: a data file of chunk contents and a
  metadata file with one 16-byte record per chunk. \<open>meta_image\<close> is the record's memory image on a
  little-endian machine; its padding byte is whatever the stack held (\<open>pad\<close>). The encoder is kept by
  the class and not called.
\<close>

definition BaseChunk :: u8 where "BaseChunk = 1"
definition DeltaChunk :: u8 where "DeltaChunk = 2"
definition DuplicateChunk :: u8 where "DuplicateChunk = 3"

record chunk_meta =
  cm_offset :: u64
  cm_base_id :: u32
  cm_size :: u16
  cm_type :: u8

definition meta_size :: nat where
  "meta_size = 16"

definition meta_image :: "u8 \<Rightarrow> chunk_meta \<Rightarrow> bytes" where
  "meta_image pad m =
     word_image 8 (cm_offset m) @ word_image 4 (cm_base_id m) @ word_image 2 (cm_size m) @ [cm_type m, pad]"

definition image_meta :: "bytes \<Rightarrow> chunk_meta" where
  "image_meta bs =
     \<lparr>cm_offset = image_word (take 8 bs), cm_base_id = image_word (take 4 (drop 8 bs)),
      cm_size = image_word (take 2 (drop 12 bs)), cm_type = bs ! 14\<rparr>"

lemma length_meta_image [simp]: "length (meta_image pad m) = meta_size"
  by (simp add: meta_image_def meta_size_def)

lemma image_meta_meta_image [simp]: "image_meta (meta_image pad m) = m"
proof -
  have "meta_image pad m ! 14 = cm_type m"
    by (simp add: meta_image_def nth_append)
  then show ?thesis by (simp add: image_meta_def meta_image_def)
qed

record storage =
  st_cache :: chunk_cache
  st_data :: c_file
  st_meta :: c_file

text \<open>The constructor: mode \<open>w+\<close> when compressing, \<open>r+\<close> otherwise. \<open>can_create\<close> says which paths can
  be created.\<close>

definition fopen_update :: "(string \<Rightarrow> bool) \<Rightarrow> bool \<Rightarrow> (string \<Rightarrow> bytes option) \<Rightarrow> string \<Rightarrow> c_file option" where
  "fopen_update can_create create fs path =
     (if create then (if can_create path then Some \<lparr>cf_data = [], cf_pos = 0\<rparr> else None)
      else map_option (\<lambda>bs. \<lparr>cf_data = bs, cf_pos = 0\<rparr>) (fs path))"

definition storage_new :: "(string \<Rightarrow> bool) \<Rightarrow> u32 \<Rightarrow> (string \<Rightarrow> bytes option) \<Rightarrow> string \<Rightarrow> string \<Rightarrow> bool \<Rightarrow> nat
    \<Rightarrow> cpp_error + storage" where
  "storage_new can_create junk fs DataPath MetaPath compress_mode cache_size =
     (case (fopen_update can_create compress_mode fs DataPath, fopen_update can_create compress_mode fs MetaPath) of
        (Some d, Some m) \<Rightarrow>
          Inr \<lparr>st_cache = cache_new junk cache_size, st_data = fseek_end d, st_meta = fseek_end m\<rparr>
      | _ \<Rightarrow> Inl LogFatal)"

definition WriteBaseChunk :: "u8 \<Rightarrow> chunk \<Rightarrow> storage \<Rightarrow> storage option" where
  "WriteBaseChunk pad c s =
     (let meta = \<lparr>cm_offset = of_nat (ftell (st_data s)), cm_base_id = ck_id c,
                  cm_size = word_of_int (ck_len c), cm_type = BaseChunk\<rparr>
      in do {
        buf \<leftarrow> chunk_data c;
        Some (s\<lparr>st_data := fwrite buf (st_data s), st_meta := fwrite (meta_image pad meta) (st_meta s)\<rparr>)
      })"

definition WriteDeltaChunk :: "u8 \<Rightarrow> chunk \<Rightarrow> u32 \<Rightarrow> storage \<Rightarrow> (int \<times> storage) option" where
  "WriteDeltaChunk pad delta_chunk base_chunk_id s =
     (let meta = \<lparr>cm_offset = of_nat (ftell (st_data s)), cm_base_id = base_chunk_id,
                  cm_size = word_of_int (ck_len delta_chunk), cm_type = DeltaChunk\<rparr>
      in do {
        buf \<leftarrow> chunk_data delta_chunk;
        Some (ck_len delta_chunk,
          s\<lparr>st_data := fwrite buf (st_data s), st_meta := fwrite (meta_image pad meta) (st_meta s)\<rparr>)
      })"

text \<open>\<open>fread(&meta, sizeof(ChunkMeta), 1, meta_)\<close> into a local whose bytes were \<open>junk\<close>; the flag says
  whether a whole record was read.\<close>

definition read_meta :: "(nat \<Rightarrow> u8) \<Rightarrow> c_file \<Rightarrow> bool \<times> chunk_meta \<times> c_file" where
  "read_meta junk f =
     (let (got, f') = fread meta_size f
      in (length got = meta_size, image_meta (filled got junk meta_size), f'))"

text \<open>The seek position of \<open>WriteDuplicateChunk\<close> is \<open>base_chunk_id & sizeof(ChunkMeta)\<close>.\<close>

definition duplicate_seek :: "u32 \<Rightarrow> nat" where
  "duplicate_seek base_chunk_id = unat (ucast base_chunk_id AND (16 :: u64))"

definition WriteDuplicateChunk :: "(nat \<Rightarrow> u8) \<Rightarrow> u8 \<Rightarrow> chunk \<Rightarrow> u32 \<Rightarrow> storage \<Rightarrow> storage" where
  "WriteDuplicateChunk junk pad c base_chunk_id s =
     (let (_, base_meta, f1) = read_meta junk (fseek_set (duplicate_seek base_chunk_id) (st_meta s));
          meta = \<lparr>cm_offset = cm_offset base_meta, cm_base_id = base_chunk_id,
                  cm_size = word_of_int (ck_len c), cm_type = DuplicateChunk\<rparr>
      in s\<lparr>st_meta := fwrite (meta_image pad meta) (fseek_end f1)\<rparr>)"

definition GetChunkContent :: "(nat \<Rightarrow> u8) \<Rightarrow> u32 \<Rightarrow> storage \<Rightarrow> chunk \<times> storage" where
  "GetChunkContent junk i s =
     (let (_, meta, m1) = read_meta junk (fseek_set (unat i * meta_size) (st_meta s));
          (raw_content, d1) = from_file_stream junk (unat (cm_size meta)) i (fseek_set (unat (cm_offset meta)) (st_data s))
      in (raw_content, s\<lparr>st_data := fseek_end d1, st_meta := fseek_end m1\<rparr>))"

text \<open>\<open>GetDeltaEncodedChunk\<close> warms the cache with the base and answers the chunk itself. \<open>None\<close> is a
  memory fault in the cache.\<close>

definition GetDeltaEncodedChunk :: "(nat \<Rightarrow> u8) \<Rightarrow> chunk \<Rightarrow> u32 \<Rightarrow> storage \<Rightarrow> (chunk \<times> storage) option" where
  "GetDeltaEncodedChunk junk c base_chunk_id s =
     do {
       (base_chunk, cache1) \<leftarrow> cache_get base_chunk_id (st_cache s);
       let s1 = s\<lparr>st_cache := cache1\<rparr>;
       (case base_chunk of
          Some _ \<Rightarrow> Some (c, s1)
        | None \<Rightarrow>
            (let (base, s2) = GetChunkContent junk base_chunk_id s1
             in do { cache2 \<leftarrow> cache_add base_chunk_id base (st_cache s2);
                     Some (c, s2\<lparr>st_cache := cache2\<rparr>) }))
     }"


section \<open>The abstract store\<close>

text \<open>
  What the files hold after base and delta blocks only: a list of entries (kind, base id, content).
  The data file is the concatenation of the contents, the metadata file the images of \<open>metas\<close>.
\<close>

type_synonym entry = "u8 \<times> u32 \<times> bytes"

fun contents :: "entry list \<Rightarrow> bytes" where
  "contents [] = []"
| "contents ((t, b, bs) # es) = bs @ contents es"

fun metas :: "nat \<Rightarrow> entry list \<Rightarrow> chunk_meta list" where
  "metas off [] = []"
| "metas off ((t, b, bs) # es) =
     \<lparr>cm_offset = of_nat off, cm_base_id = b, cm_size = of_nat (length bs), cm_type = t\<rparr> # metas (off + length bs) es"

text \<open>\<open>entries_fit\<close> is what the 16 bits of the size field ask of the contents.\<close>

definition entries_fit :: "entry list \<Rightarrow> bool" where
  "entries_fit es \<longleftrightarrow> (\<forall>(t, b, bs) \<in> set es. length bs < 2 ^ 16)"

definition store_rep :: "storage \<Rightarrow> entry list \<Rightarrow> bool" where
  "store_rep s es \<longleftrightarrow> at_end (st_data s) \<and> at_end (st_meta s) \<and> cf_data (st_data s) = contents es \<and>
     (\<exists>pads. length pads = length es \<and> cf_data (st_meta s) = concat (map2 meta_image pads (metas 0 es)))"

lemma contents_append [simp]: "contents (es @ fs) = contents es @ contents fs"
  by (induction es rule: contents.induct) auto

lemma length_metas [simp]: "length (metas off es) = length es"
  by (induction off es rule: metas.induct) auto

lemma metas_append: "metas off (es @ fs) = metas off es @ metas (off + length (contents es)) fs"
  by (induction off es rule: metas.induct) (auto simp: add.assoc)

lemma metas_nth:
  "i < length es \<Longrightarrow> es ! i = (t, b, bs) \<Longrightarrow>
    metas off es ! i = \<lparr>cm_offset = of_nat (off + length (contents (take i es))), cm_base_id = b,
      cm_size = of_nat (length bs), cm_type = t\<rparr>"
proof (induction off es arbitrary: i rule: metas.induct)
  case (1 off)
  then show ?case by simp
next
  case (2 off t' b' bs' es)
  then show ?case by (cases i) (auto simp: add.assoc)
qed

lemma contents_split: "i < length es \<Longrightarrow> es ! i = (t, b, bs) \<Longrightarrow>
    contents es = contents (take i es) @ bs @ contents (drop (Suc i) es)"
  using arg_cong [OF id_take_nth_drop [of i es], of contents] by simp

lemma concat_uniform_nth:
  assumes "\<forall>x \<in> set xs. length x = n" "i < length xs"
  shows "take n (drop (i * n) (concat xs)) = xs ! i"
  using assms
proof (induction xs arbitrary: i)
  case Nil
  then show ?case by simp
next
  case (Cons x xs)
  then show ?case by (cases i) (auto simp: add.commute)
qed

lemma meta_images_uniform: "\<forall>x \<in> set (map2 meta_image pads ms). length x = meta_size"
  by auto

lemma read_meta_at:
  assumes "length pads = length ms" "cf_data f = concat (map2 meta_image pads ms)" "i < length ms"
    "cf_pos f = i * meta_size"
  shows "read_meta junk f = (True, ms ! i, f\<lparr>cf_pos := Suc i * meta_size\<rparr>)"
proof -
  have b: "take meta_size (drop (cf_pos f) (cf_data f)) = meta_image (pads ! i) (ms ! i)"
    using concat_uniform_nth [OF meta_images_uniform, of i pads ms] assms by simp
  have "fread meta_size f = (meta_image (pads ! i) (ms ! i), f\<lparr>cf_pos := Suc i * meta_size\<rparr>)"
    by (simp only: fread_def b Let_def) (simp add: assms(4))
  then show ?thesis by (simp add: read_meta_def)
qed

lemma read_meta_end:
  assumes "at_end f"
  shows "\<exists>m. read_meta junk f = (False, m, f)"
  using assms by (cases f) (simp add: read_meta_def fread_def at_end_def meta_size_def)

lemma store_rep_new:
  assumes "storage_new can_create junk fs dp mp True n = Inr s"
  shows "store_rep s []"
  using assms by (auto simp: storage_new_def fopen_update_def store_rep_def split: if_splits)

lemma store_rep_cache [simp]: "store_rep (s\<lparr>st_cache := c\<rparr>) es = store_rep s es"
  by (simp add: store_rep_def)

lemma store_append:
  assumes r: "store_rep s es"
    and m: "meta = \<lparr>cm_offset = of_nat (ftell (st_data s)), cm_base_id = b, cm_size = of_nat (length bs), cm_type = t\<rparr>"
  shows "store_rep (s\<lparr>st_data := fwrite bs (st_data s), st_meta := fwrite (meta_image pad meta) (st_meta s)\<rparr>)
    (es @ [(t, b, bs)])"
proof -
  from r obtain pads where e: "at_end (st_data s)" "at_end (st_meta s)" "cf_data (st_data s) = contents es"
    and p: "length pads = length es" "cf_data (st_meta s) = concat (map2 meta_image pads (metas 0 es))"
    by (auto simp: store_rep_def)
  have "meta = \<lparr>cm_offset = of_nat (length (contents es)), cm_base_id = b, cm_size = of_nat (length bs), cm_type = t\<rparr>"
    using e m by (simp add: ftell_def at_end_def)
  then show ?thesis using e p
    unfolding store_rep_def
    by (auto simp: fwrite_append metas_append fwrite_at_end simp del: fwrite_at_end
        intro!: exI [of _ "pads @ [pad]"]) (simp_all add: at_end_def)
qed

lemma size_word [simp]: "ck_wf c \<Longrightarrow> word_of_int (ck_len c) = of_nat (length (ck_buf c))"
  by (simp add: ck_wf_def)

lemma write_base_rep:
  assumes "store_rep s es" "ck_wf c"
  shows "\<exists>s'. WriteBaseChunk pad c s = Some s' \<and> store_rep s' (es @ [(BaseChunk, ck_id c, ck_buf c)]) \<and>
    st_cache s' = st_cache s"
  using assms store_append [OF assms(1) refl, where pad = pad]
  by (simp add: WriteBaseChunk_def Let_def)

lemma write_delta_rep:
  assumes "store_rep s es" "ck_wf c"
  shows "\<exists>s'. WriteDeltaChunk pad c b s = Some (int (length (ck_buf c)), s') \<and>
    store_rep s' (es @ [(DeltaChunk, b, ck_buf c)]) \<and> st_cache s' = st_cache s"
proof -
  have "ck_len c = int (length (ck_buf c))" using assms(2) by (simp add: ck_wf_def)
  then show ?thesis using assms store_append [OF assms(1) refl, where pad = pad]
    by (simp add: WriteDeltaChunk_def Let_def)
qed


lemma prefix_offset:
  assumes "length (contents es) < 2 ^ 63" "i < length es" "es ! i = (t, b, bs)"
  shows "unat (of_nat (length (contents (take i es))) :: u64) = length (contents (take i es))"
proof -
  have "length (contents (take i es)) \<le> length (contents es)"
    using contents_split [OF assms(2,3)] by simp
  then show ?thesis using assms(1) by (simp add: unat_of_nat)
qed

text \<open>What a block read back is: the stored bytes, cut at the length that fits the 16-bit size field.\<close>

lemma store_get_cut:
  assumes r: "store_rep s es" "length (contents es) < 2 ^ 63" and i: "unat k < length es" "es ! unat k = (t, b, bs)"
  shows "GetChunkContent junk k s = (make_chunk (take (length bs mod 2 ^ 16) bs) True (length bs mod 2 ^ 16) k, s)"
proof -
  let ?i = "unat k" and ?n = "length bs mod 2 ^ 16"
  from r(1) obtain pads where e: "at_end (st_data s)" "at_end (st_meta s)" "cf_data (st_data s) = contents es"
    and p: "length pads = length (metas 0 es)" "cf_data (st_meta s) = concat (map2 meta_image pads (metas 0 es))"
    by (auto simp: store_rep_def)
  have rm: "read_meta junk (fseek_set (?i * meta_size) (st_meta s)) =
      (True, metas 0 es ! ?i, (fseek_set (?i * meta_size) (st_meta s))\<lparr>cf_pos := Suc ?i * meta_size\<rparr>)"
    by (rule read_meta_at [OF p(1)]) (use p(2) i in simp_all)
  note mt = metas_nth [OF i, of 0]
  note off = prefix_offset [OF r(2) i]
  have n: "unat (of_nat (length bs) :: u16) = ?n" by (simp add: unat_of_nat)
  have nle: "?n \<le> length bs" by simp
  let ?d = "fseek_set (length (contents (take ?i es))) (st_data s)"
  have sp: "contents es = contents (take ?i es) @ bs @ contents (drop (Suc ?i) es)"
    by (rule contents_split [OF i])
  have le: "length (contents (take ?i es)) + ?n \<le> length (contents es)"
    unfolding sp using nle by simp
  have dr: "drop (length (contents (take ?i es))) (contents es) = bs @ contents (drop (Suc ?i) es)"
    by (simp add: sp)
  have ff: "fst (from_file_stream junk ?n k ?d) = make_chunk (take ?n bs) True ?n k"
    using nle by (subst from_file_stream_full) (simp_all only: e(3) le fseek_set_sel dr take_append, simp)
  obtain d' where d': "from_file_stream junk ?n k ?d = (make_chunk (take ?n bs) True ?n k, d')"
    using ff by (metis prod.collapse)
  then have "cf_data d' = contents es" using e(3) by (metis from_file_stream_data fseek_set_sel(1) snd_conv)
  then have "fseek_end d' = st_data s" using e by (cases "st_data s") (simp add: fseek_end_def at_end_def)
  moreover have "fseek_end ((fseek_set (?i * meta_size) (st_meta s))\<lparr>cf_pos := Suc ?i * meta_size\<rparr>) = st_meta s"
    using e(2) by (cases "st_meta s") (simp add: fseek_end_def fseek_set_def at_end_def)
  ultimately show ?thesis
    by (simp only: GetChunkContent_def rm mt off n chunk_meta.simps d' Let_def prod.case add_0) simp
qed

lemma store_get:
  assumes "store_rep s es" "length (contents es) < 2 ^ 63" "entries_fit es"
    and i: "unat k < length es" "es ! unat k = (t, b, bs)"
  shows "GetChunkContent junk k s = (make_chunk bs True (length bs) k, s)"
proof -
  have "length bs < 2 ^ 16" using assms(3) i nth_mem [OF i(1)] by (auto simp: entries_fit_def)
  then show ?thesis using store_get_cut [OF assms(1,2) i, of junk] by simp
qed

section \<open>Runs of writes\<close>

datatype write_op = PutBase chunk | PutDelta chunk u32

primrec store_write :: "u8 \<Rightarrow> write_op \<Rightarrow> storage \<Rightarrow> storage option" where
  "store_write pad (PutBase c) s = WriteBaseChunk pad c s"
| "store_write pad (PutDelta c b) s = map_option snd (WriteDeltaChunk pad c b s)"

fun store_writes :: "u8 \<Rightarrow> write_op list \<Rightarrow> storage \<Rightarrow> storage option" where
  "store_writes pad [] s = Some s"
| "store_writes pad (w # ws) s = (case store_write pad w s of None \<Rightarrow> None | Some s' \<Rightarrow> store_writes pad ws s')"

primrec op_chunk :: "write_op \<Rightarrow> chunk" where
  "op_chunk (PutBase c) = c"
| "op_chunk (PutDelta c b) = c"

primrec op_entry :: "write_op \<Rightarrow> entry" where
  "op_entry (PutBase c) = (BaseChunk, ck_id c, ck_buf c)"
| "op_entry (PutDelta c b) = (DeltaChunk, b, ck_buf c)"

lemma store_write_rep:
  assumes "store_rep s es" "ck_wf (op_chunk w)"
  shows "\<exists>s'. store_write pad w s = Some s' \<and> store_rep s' (es @ [op_entry w])"
  using assms write_base_rep [OF assms(1), where pad = pad] write_delta_rep [OF assms(1), where pad = pad]
  by (cases w) (simp_all, blast, fastforce)

lemma store_writes_rep:
  assumes "store_rep s es" "\<forall>w \<in> set ws. ck_wf (op_chunk w)"
  shows "\<exists>s'. store_writes pad ws s = Some s' \<and> store_rep s' (es @ map op_entry ws)"
  using assms
proof (induction ws arbitrary: s es)
  case Nil
  then show ?case by simp
next
  case (Cons w ws)
  then obtain s1 where s1: "store_write pad w s = Some s1" "store_rep s1 (es @ [op_entry w])"
    using store_write_rep [of s es w pad] by auto
  from Cons.IH [OF s1(2)] Cons.prems(2) s1(1) show ?case by simp
qed

lemma op_entry_bytes: "snd (snd (op_entry w)) = ck_buf (op_chunk w)"
  by (cases w) simp_all

lemma contents_map: "contents (map op_entry ws) = concat (map (\<lambda>w. ck_buf (op_chunk w)) ws)"
  by (induction ws) (auto simp: op_entry_bytes [symmetric] split_beta dest: sym elim: contents.elims, metis contents.simps(2) op_entry_bytes prod.collapse)

text \<open>C20: the store returns what was written: a run of base and delta writes into a new store never fails,
  and \<open>GetChunkContent\<close> of the position of a write gives its chunk's bytes under that id and leaves both
  streams where they were, for chunks below 64 KiB.\<close>

theorem store_write_read:
  assumes "storage_new can_create cjunk fs dp mp True n = Inr s0"
    and "\<forall>w \<in> set ws. ck_wf (op_chunk w) \<and> length (ck_buf (op_chunk w)) < 2 ^ 16"
    and "length (concat (map (\<lambda>w. ck_buf (op_chunk w)) ws)) < 2 ^ 63"
    and "unat k < length ws"
  shows "\<exists>s. store_writes pad ws s0 = Some s \<and>
    GetChunkContent junk k s =
      (make_chunk (ck_buf (op_chunk (ws ! unat k))) True (length (ck_buf (op_chunk (ws ! unat k)))) k, s)"
proof -
  from store_writes_rep [OF store_rep_new [OF assms(1)], of ws pad] assms(2) obtain s where
    s: "store_writes pad ws s0 = Some s" "store_rep s (map op_entry ws)" by auto
  have fit: "entries_fit (map op_entry ws)"
    using assms(2) by (auto simp: entries_fit_def op_entry_bytes [symmetric] split_beta)
  have "map op_entry ws ! unat k = (fst (op_entry (ws ! unat k)), fst (snd (op_entry (ws ! unat k))), ck_buf (op_chunk (ws ! unat k)))"
    using assms(4) by (simp flip: op_entry_bytes)
  from store_get [OF s(2) _ fit _ this, of junk] s(1) assms(3,4) show ?thesis
    by (simp add: contents_map)
qed

theorem store_write_read_witness:
  "\<exists>s. store_writes 7 [PutBase (make_chunk [1, 2] True 2 0), PutDelta (make_chunk [3] True 1 1) 0]
      \<lparr>st_cache = cache_new 0 1, st_data = \<lparr>cf_data = [], cf_pos = 0\<rparr>, st_meta = \<lparr>cf_data = [], cf_pos = 0\<rparr>\<rparr> = Some s \<and>
    GetChunkContent (\<lambda>_. 0) 1 s = (make_chunk [3] True 1 1, s)"
  using store_write_read [of "\<lambda>_. True" 0 "\<lambda>_. None" "''d''" "''m''" 1 _
      "[PutBase (make_chunk [1, 2] True 2 0), PutDelta (make_chunk [3] True 1 1) 0]" 1 7 "\<lambda>_. 0"]
  by (simp add: storage_new_def fopen_update_def fseek_end_def ck_wf_def)

text \<open>C21: the size field of a metadata record has 16 bits, so a longer block reads back cut: a block of
  65536 bytes reads back empty.\<close>

theorem store_size_field_cuts:
  assumes "store_rep s es" "length (contents es) + length (ck_buf c) < 2 ^ 63" "ck_wf c"
    and "unat (ck_id c) = length es"
  shows "\<exists>s'. WriteBaseChunk pad c s = Some s' \<and>
    ck_buf (fst (GetChunkContent junk (ck_id c) s')) = take (length (ck_buf c) mod 2 ^ 16) (ck_buf c)"
proof -
  from write_base_rep [OF assms(1,3), of pad] obtain s' where
    s': "WriteBaseChunk pad c s = Some s'" "store_rep s' (es @ [(BaseChunk, ck_id c, ck_buf c)])" by blast
  from store_get_cut [OF s'(2), of "ck_id c" BaseChunk "ck_id c" "ck_buf c" junk] s'(1) assms(2,4)
  show ?thesis by simp
qed

theorem store_size_field_cuts_witness:
  "\<exists>s'. WriteBaseChunk 0 (make_chunk (replicate 65536 1) True 65536 0)
      \<lparr>st_cache = cache_new 0 1, st_data = \<lparr>cf_data = [], cf_pos = 0\<rparr>, st_meta = \<lparr>cf_data = [], cf_pos = 0\<rparr>\<rparr> = Some s' \<and>
    ck_buf (fst (GetChunkContent (\<lambda>_. 0) 0 s')) = []"
  using store_size_field_cuts [of "\<lparr>st_cache = cache_new 0 1, st_data = \<lparr>cf_data = [], cf_pos = 0\<rparr>, st_meta = \<lparr>cf_data = [], cf_pos = 0\<rparr>\<rparr>"
      "[]" "make_chunk (replicate 65536 1) True 65536 0" 0 "\<lambda>_. 0"]
  by (simp add: store_rep_def at_end_def ck_wf_def)

text \<open>C22: a duplicate refers to the wrong block: \<open>base_chunk_id & sizeof(ChunkMeta)\<close> is 0 or 16, so with
  bit 4 of the base id clear the record gets the offset of the first block, and reading the duplicate
  back gives the first block's bytes whatever block it duplicates.\<close>

theorem duplicate_reads_first:
  assumes r: "store_rep s es" and len: "es = (t, b, bs) # es'" "length (contents es) < 2 ^ 63"
    and c: "ck_wf c" "length (ck_buf c) = length bs" "length bs < 2 ^ 16"
    and id: "\<not> bit base 4" "unat k = length es"
  shows "ck_buf (fst (GetChunkContent junk k (WriteDuplicateChunk junk pad c base s))) = bs"
proof -
  have "ucast base AND (16 :: u64) = 0"
  proof (rule bit_word_eqI)
    fix n assume "n < LENGTH(64)"
    have "bit (16 :: u64) n \<longleftrightarrow> n = 4" using bit_exp_iff [where 'a = u64, of 4 n] \<open>n < LENGTH(64)\<close> by simp
    then show "bit (ucast base AND (16 :: u64)) n = bit (0 :: u64) n"
      using id(1) by (auto simp: bit_simps)
  qed
  then have seek: "duplicate_seek base = 0 * meta_size" by (simp add: duplicate_seek_def)
  from r obtain pads where e: "at_end (st_data s)" "at_end (st_meta s)" "cf_data (st_data s) = contents es"
    and p: "length pads = length (metas 0 es)" "cf_data (st_meta s) = concat (map2 meta_image pads (metas 0 es))"
    by (auto simp: store_rep_def)
  let ?m = "\<lparr>cm_offset = 0, cm_base_id = base, cm_size = of_nat (length bs), cm_type = DuplicateChunk\<rparr>"
  have rm: "read_meta junk (fseek_set (0 * meta_size) (st_meta s)) =
      (True, metas 0 es ! 0, (fseek_set (0 * meta_size) (st_meta s))\<lparr>cf_pos := Suc 0 * meta_size\<rparr>)"
    by (rule read_meta_at [OF p(1)]) (use p(2) len in simp_all)
  have pos: "(st_meta s)\<lparr>cf_pos := length (cf_data (st_meta s))\<rparr> = st_meta s"
    using e(2) by (cases "st_meta s") (simp add: at_end_def)
  have w: "WriteDuplicateChunk junk pad c base s = s\<lparr>st_meta := fwrite (meta_image pad ?m) (st_meta s)\<rparr>"
    using c(1,2) unfolding WriteDuplicateChunk_def seek rm
    by (simp add: len(1) fseek_set_def fseek_end_def pos)
  let ?f = "fwrite (meta_image pad ?m) (st_meta s)"
  have f: "cf_data ?f = concat (map2 meta_image (pads @ [pad]) (metas 0 es @ [?m]))"
    using e(2) p by (simp add: fwrite_append)
  have rd: "read_meta junk (fseek_set (unat k * meta_size) ?f) =
      (True, (metas 0 es @ [?m]) ! unat k, (fseek_set (unat k * meta_size) ?f)\<lparr>cf_pos := Suc (unat k) * meta_size\<rparr>)"
    by (rule read_meta_at [where pads = "pads @ [pad]"]) (use p(1) f id(2) in simp_all)
  have n: "unat (of_nat (length bs) :: u16) = length bs" using c(3) by (simp add: unat_of_nat)
  have "fst (from_file_stream junk (length bs) k (fseek_set 0 (st_data s))) = make_chunk bs True (length bs) k"
    by (subst from_file_stream_full) (simp_all add: e(3) len(1))
  then show ?thesis
    by (simp add: GetChunkContent_def w rd [unfolded id(2)] id(2) nth_append n case_prod_beta)
qed

theorem duplicate_reads_first_witness:
  "\<exists>s. store_writes 0 [PutBase (make_chunk [1] True 1 0), PutBase (make_chunk [2] True 1 1)]
      \<lparr>st_cache = cache_new 0 1, st_data = \<lparr>cf_data = [], cf_pos = 0\<rparr>, st_meta = \<lparr>cf_data = [], cf_pos = 0\<rparr>\<rparr> = Some s \<and>
    ck_buf (fst (GetChunkContent (\<lambda>_. 0) 2 (WriteDuplicateChunk (\<lambda>_. 0) 0 (make_chunk [2] True 1 2) 1 s))) = [1]"
proof -
  let ?s0 = "\<lparr>st_cache = cache_new 0 1, st_data = \<lparr>cf_data = [], cf_pos = 0\<rparr>, st_meta = \<lparr>cf_data = [], cf_pos = 0\<rparr>\<rparr>"
  have "store_rep ?s0 []" by (simp add: store_rep_def at_end_def)
  from store_writes_rep [OF this, of "[PutBase (make_chunk [1] True 1 0), PutBase (make_chunk [2] True 1 1)]" 0]
  obtain s where s: "store_writes 0 [PutBase (make_chunk [1] True 1 0), PutBase (make_chunk [2] True 1 1)] ?s0 = Some s"
    "store_rep s [(BaseChunk, 0, [1]), (BaseChunk, 1, [2])]" by (auto simp: ck_wf_def)
  have "ck_buf (fst (GetChunkContent (\<lambda>_. 0) 2 (WriteDuplicateChunk (\<lambda>_. 0) 0 (make_chunk [2] True 1 2) 1 s))) = [1]"
    by (rule duplicate_reads_first [OF s(2) refl]) (simp_all add: ck_wf_def)
  with s(1) show ?thesis by blast
qed

end
