(* ===== verification/Grouping.thy ===== *)
theory Grouping
  imports Storage
begin

text \<open>
  Grouping of the stored chunks, \<open>Storage::dividByBase\<close> and \<open>Storage::groupByBase\<close> of
  \<open>storage/storage.cpp\<close>: the metadata file is read from its start, every block is compressed alone,
  the delta blocks are collected under their base in an ordered map, and each group is compressed in
  pieces of \<open>group_size\<close> blocks, the base going with a piece of fewer than 16. The compressors are
  parameters that give the compressed size of their input (\<open>codec\<close>); the sizes the source keeps
  through references to \<open>size_t\<close> are the record \<open>sizes\<close>.
\<close>

record sizes =
  sz_origin :: u64
  sz_compressed :: u64
  sz_grouping_num :: u64
  sz_grouping_blocks :: u64
  sz_sequence :: u64
  sz_single :: u64
  sz_zstd :: u64
  sz_zstd_sequence :: u64
  sz_zstd_single :: u64

definition sizes_zero :: sizes where
  "sizes_zero = \<lparr>sz_origin = 0, sz_compressed = 0, sz_grouping_num = 0, sz_grouping_blocks = 0, sz_sequence = 0,
     sz_single = 0, sz_zstd = 0, sz_zstd_sequence = 0, sz_zstd_single = 0\<rparr>"

record codec =
  lz4f_size :: "bytes \<Rightarrow> u64"
  lz4_size :: "bytes \<Rightarrow> u64"
  zstd_size :: "bytes \<Rightarrow> u64"

section \<open>The ordered map\<close>

text \<open>\<open>m[k]\<close> of a \<open>std::map\<close>, created with \<open>d\<close> when missing, then changed by \<open>g\<close>.\<close>

fun om_update :: "'k::linorder \<Rightarrow> ('v \<Rightarrow> 'v) \<Rightarrow> 'v \<Rightarrow> ('k \<times> 'v) list \<Rightarrow> ('k \<times> 'v) list" where
  "om_update k g d [] = [(k, g d)]"
| "om_update k g d ((k', v) # m) =
     (if k < k' then (k, g d) # (k', v) # m
      else if k = k' then (k, g v) # m
      else (k', v) # om_update k g d m)"

type_synonym groups = "(u32 \<times> chunk list) list"

section \<open>dividByBase\<close>

definition divide_record :: "codec \<Rightarrow> (nat \<Rightarrow> u8) \<Rightarrow> chunk_meta \<Rightarrow> groups \<times> sizes \<times> c_file \<Rightarrow> groups \<times> sizes \<times> c_file" where
  "divide_record cd junk meta st =
     (case st of (grouped_chunks, sz, data) \<Rightarrow>
        let current_id = of_nat (unat (cm_offset meta) div 8192);
            (c, d1) = from_file_stream junk (unat (cm_size meta)) current_id (fseek_set (unat (cm_offset meta)) data);
            sz1 = sz\<lparr>sz_single := sz_single sz + lz4f_size cd (ck_buf c),
                     sz_zstd_single := sz_zstd_single sz + zstd_size cd (ck_buf c)\<rparr>;
            g1 = (if cm_type meta = BaseChunk then om_update (cm_base_id meta) (\<lambda>cs. cs) [] grouped_chunks
                  else grouped_chunks)
        in if cm_type meta = DeltaChunk
           then (let (delta_chunk, d2) =
                     from_file_stream junk (unat (cm_size meta)) current_id (fseek_set (unat (cm_offset meta)) d1)
                 in (om_update (cm_base_id meta) (\<lambda>cs. cs @ [delta_chunk]) [] g1, sz1, d2))
           else (g1, sz1, d1))"

lemma read_meta_more:
  assumes "read_meta junk f = (True, m, f')"
  shows "length (cf_data f') - cf_pos f' < length (cf_data f) - cf_pos f"
  using assms by (auto simp: read_meta_def fread_def Let_def meta_size_def)

function divide_loop :: "codec \<Rightarrow> (nat \<Rightarrow> u8) \<Rightarrow> c_file \<Rightarrow> groups \<times> sizes \<times> c_file \<Rightarrow> (groups \<times> sizes \<times> c_file) \<times> c_file" where
  "divide_loop cd junk f st =
     (case read_meta junk f of
        (True, meta, f') \<Rightarrow> divide_loop cd junk f' (divide_record cd junk meta st)
      | (False, meta, f') \<Rightarrow> (st, f'))"
  by pat_completeness auto
termination
  by (relation "measure (\<lambda>(cd, junk, f, st). length (cf_data f) - cf_pos f)")
    (auto dest: read_meta_more [OF sym])

declare divide_loop.simps [simp del]

definition dividByBase :: "codec \<Rightarrow> (nat \<Rightarrow> u8) \<Rightarrow> storage \<Rightarrow> sizes \<Rightarrow> groups \<times> sizes \<times> storage" where
  "dividByBase cd junk s sz =
     (case divide_loop cd junk (fseek_set 0 (st_meta s)) ([], sz, st_data s) of
        ((grouped_chunks, sz', d), m) \<Rightarrow> (grouped_chunks, sz', s\<lparr>st_data := fseek_end d, st_meta := fseek_end m\<rparr>))"

section \<open>groupByBase\<close>

text \<open>A block compressed alone, with \<open>LZ4_compress_default\<close> and \<open>ZSTD_compress\<close>.\<close>

definition compress_alone :: "codec \<Rightarrow> bytes \<Rightarrow> sizes \<Rightarrow> sizes" where
  "compress_alone cd src sz =
     sz\<lparr>sz_compressed := sz_compressed sz + lz4_size cd src, sz_zstd := sz_zstd sz + zstd_size cd src\<rparr>"

definition group_piece :: "codec \<Rightarrow> (nat \<Rightarrow> u8) \<Rightarrow> u32 \<Rightarrow> chunk list \<Rightarrow> storage \<times> sizes \<Rightarrow> storage \<times> sizes" where
  "group_piece cd junk base_chunk_id chunk_group st =
     (case st of (s, sz) \<Rightarrow>
        let body = concat (map ck_buf chunk_group);
            origin = sz_origin sz + sum_list (map (\<lambda>c. word_of_int (ck_len c)) chunk_group);
            (src_data, s1) = (if length chunk_group < 16
               then (let (base_chunk, s1) = GetChunkContent junk base_chunk_id s in (ck_buf base_chunk @ body, s1))
               else (body, s))
        in (s1, sz\<lparr>sz_origin := origin, sz_compressed := sz_compressed sz + lz4f_size cd src_data,
                   sz_zstd := sz_zstd sz + zstd_size cd src_data\<rparr>))"

text \<open>The loop over \<open>i += group_size\<close>; it does not end for \<open>group_size = 0\<close>.\<close>

partial_function (option) group_loop ::
  "codec \<Rightarrow> (nat \<Rightarrow> u8) \<Rightarrow> nat \<Rightarrow> u32 \<Rightarrow> chunk list \<Rightarrow> nat \<Rightarrow> storage \<times> sizes \<Rightarrow> (storage \<times> sizes) option" where
  "group_loop cd junk group_size base_chunk_id delta_chunks i st =
     (if i < length delta_chunks
      then (let stop = min (i + group_size) (length delta_chunks)
            in group_loop cd junk group_size base_chunk_id delta_chunks (i + group_size)
                 (group_piece cd junk base_chunk_id (take (stop - i) (drop i delta_chunks)) st))
      else Some st)"

definition group_base :: "codec \<Rightarrow> (nat \<Rightarrow> u8) \<Rightarrow> nat \<Rightarrow> u32 \<times> chunk list \<Rightarrow> storage \<times> sizes \<Rightarrow> (storage \<times> sizes) option" where
  "group_base cd junk group_size g st =
     (case (g, st) of ((base_chunk_id, delta_chunks), (s, sz)) \<Rightarrow>
        let (test_base_chunk, s1) = GetChunkContent junk base_chunk_id s
        in if delta_chunks = []
           then (let (base_chunk, s2) = GetChunkContent junk base_chunk_id s1
                 in Some (s2, compress_alone cd (ck_buf base_chunk) sz))
           else
             (let sz1 = (if 1 < length delta_chunks
                  then sz\<lparr>sz_grouping_num := sz_grouping_num sz + 1,
                          sz_grouping_blocks := sz_grouping_blocks sz + of_nat (length delta_chunks)\<rparr>
                  else sz)
              in do {
                (s2, sz2) \<leftarrow> group_loop cd junk group_size base_chunk_id delta_chunks 0 (s1, sz1);
                if length delta_chunks mod 16 = 0
                then (let (base_chunk, s3) = GetChunkContent junk base_chunk_id s2
                      in Some (s3, compress_alone cd (ck_buf base_chunk) sz2))
                else Some (s2, sz2)
              }))"

fun group_all :: "codec \<Rightarrow> (nat \<Rightarrow> u8) \<Rightarrow> nat \<Rightarrow> groups \<Rightarrow> storage \<times> sizes \<Rightarrow> (storage \<times> sizes) option" where
  "group_all cd junk group_size [] st = Some st"
| "group_all cd junk group_size (g # gs) st =
     (case group_base cd junk group_size g st of None \<Rightarrow> None | Some st' \<Rightarrow> group_all cd junk group_size gs st')"

definition groupByBase :: "codec \<Rightarrow> (nat \<Rightarrow> u8) \<Rightarrow> nat \<Rightarrow> storage \<times> sizes \<Rightarrow> (storage \<times> sizes) option" where
  "groupByBase cd junk group_size st =
     (case dividByBase cd junk (fst st) (snd st) of
        (grouped_chunks, sz, s) \<Rightarrow> group_all cd junk group_size grouped_chunks (s, sz))"


section \<open>What the ordered map holds\<close>

abbreviation om_sorted :: "('k::linorder \<times> 'v) list \<Rightarrow> bool" where
  "om_sorted m \<equiv> sorted_wrt (<) (map fst m)"

lemma om_update_keys: "set (map fst (om_update k g d m)) = insert k (set (map fst m))"
  by (induction k g d m rule: om_update.induct) auto

lemma om_update_sorted: "om_sorted m \<Longrightarrow> om_sorted (om_update k g d m)"
proof (induction k g d m rule: om_update.induct)
  case (2 k g d k' v m)
  then show ?case using om_update_keys [of k g d m] by auto
qed simp

lemma om_update_map_of:
  "om_sorted m \<Longrightarrow> map_of (om_update k g d m) = (map_of m)(k \<mapsto> g (case map_of m k of None \<Rightarrow> d | Some v \<Rightarrow> v))"
proof (induction k g d m rule: om_update.induct)
  case (2 k g d k' v m)
  have "map_of m k = None" if "k < k'"
    using 2(2) that by (auto simp: map_of_eq_None_iff)
  with 2 show ?case by (auto simp: fun_eq_iff)
qed auto

definition om_total :: "('k \<Rightarrow> 'v \<Rightarrow> 'a::comm_monoid_add) \<Rightarrow> ('k \<times> 'v) list \<Rightarrow> 'a" where
  "om_total f m = sum_list (map (\<lambda>(k, v). f k v) m)"

lemma om_total_new:
  "k \<notin> set (map fst m) \<Longrightarrow> om_total f (om_update k g d m) = om_total f m + f k (g d)"
  by (induction k g d m rule: om_update.induct) (auto simp: om_total_def ac_simps)

lemma om_total_old:
  assumes "om_sorted m" "k \<in> set (map fst m)" "\<And>v. f k (g v) = f k v + x"
  shows "om_total f (om_update k g d m) = om_total f m + x"
  using assms(1,2)
proof (induction m)
  case Nil
  then show ?case by simp
next
  case (Cons kv m)
  obtain k' v where kv: "kv = (k', v)" by (cases kv)
  show ?case
  proof (cases "k = k'")
    case True
    then show ?thesis using assms(3) [of v] by (simp add: kv om_total_def ac_simps)
  next
    case False
    with Cons.prems kv have "k \<in> set (map fst m)" by auto
    moreover from this Cons.prems kv have "\<not> k < k'" by auto
    moreover have "om_sorted m" using Cons.prems by simp
    ultimately show ?thesis using Cons.IH False by (simp add: kv om_total_def ac_simps)
  qed
qed

section \<open>What dividByBase computes\<close>

definition loaded :: "nat \<Rightarrow> bytes \<Rightarrow> chunk" where
  "loaded off bs = make_chunk bs True (length bs) (of_nat (off div 8192))"

fun divide_spec :: "nat \<Rightarrow> entry list \<Rightarrow> groups \<Rightarrow> groups" where
  "divide_spec off [] g = g"
| "divide_spec off ((t, b, bs) # es) g =
     divide_spec (off + length bs) es
       (if t = BaseChunk then om_update b (\<lambda>cs. cs) [] g
        else if t = DeltaChunk then om_update b (\<lambda>cs. cs @ [loaded off bs]) [] g else g)"

definition add_single :: "codec \<Rightarrow> bytes \<Rightarrow> sizes \<Rightarrow> sizes" where
  "add_single cd bs sz = sz\<lparr>sz_single := sz_single sz + lz4f_size cd bs, sz_zstd_single := sz_zstd_single sz + zstd_size cd bs\<rparr>"

lemma kinds_distinct [simp]: "BaseChunk \<noteq> DeltaChunk" "DeltaChunk \<noteq> BaseChunk"
  by (simp_all add: BaseChunk_def DeltaChunk_def)

lemma divide_record_at:
  assumes d: "cf_data d = contents es" and f: "length (contents es) < 2 ^ 63" "entries_fit es"
    and i: "i < length es" "es ! i = (t, b, bs)"
  shows "\<exists>d'. cf_data d' = contents es \<and>
    divide_record cd junk (metas 0 es ! i) (g, sz, d) =
      (divide_spec (length (contents (take i es))) [(t, b, bs)] g, add_single cd bs sz, d')"
proof -
  let ?off = "length (contents (take i es))"
  note mt = metas_nth [OF i, of 0]
  note off = prefix_offset [OF f(1) i]
  have "length bs < 2 ^ 16" using f(2) i nth_mem [OF i(1)] by (auto simp: entries_fit_def)
  then have n: "unat (of_nat (length bs) :: u16) = length bs" by (simp add: unat_of_nat)
  have sp: "contents es = contents (take i es) @ bs @ contents (drop (Suc i) es)"
    by (rule contents_split [OF i])
  have ld: "\<exists>d2. from_file_stream junk (length bs) k (fseek_set ?off d1) = (make_chunk bs True (length bs) k, d2) \<and> cf_data d2 = contents es"
    if "cf_data d1 = contents es" for d1 k
  proof -
    have "fst (from_file_stream junk (length bs) k (fseek_set ?off d1)) = make_chunk bs True (length bs) k"
      by (subst from_file_stream_full) (simp_all add: that sp)
    then show ?thesis using that
      by (intro exI [of _ "snd (from_file_stream junk (length bs) k (fseek_set ?off d1))"]) (simp add: prod_eq_iff)
  qed
  let ?k = "of_nat (?off div 8192) :: u32"
  obtain d1 where d1: "from_file_stream junk (length bs) ?k (fseek_set ?off d) = (make_chunk bs True (length bs) ?k, d1)"
    "cf_data d1 = contents es" using ld [OF d] by blast
  obtain d2 where d2: "from_file_stream junk (length bs) ?k (fseek_set ?off d1) = (make_chunk bs True (length bs) ?k, d2)"
    "cf_data d2 = contents es" using ld [OF d1(2)] by blast
  show ?thesis
    by (cases "t = DeltaChunk")
      (auto simp: divide_record_def mt off n d1 d2 loaded_def add_single_def Let_def)
qed

lemma divide_spec_append:
  "divide_spec off (es @ fs) g = divide_spec (off + length (contents es)) fs (divide_spec off es g)"
  by (induction off es g rule: divide_spec.induct) (auto simp: add.assoc)

lemma length_concat_uniform: "\<forall>x \<in> set xs. length x = n \<Longrightarrow> length (concat xs) = length xs * n"
  by (induction xs) auto

lemma divide_loop_from:
  assumes d: "cf_data d = contents es" and f: "length (contents es) < 2 ^ 63" "entries_fit es"
    and p: "length pads = length es" "cf_data m = concat (map2 meta_image pads (metas 0 es))"
    and pos: "cf_pos m = i * meta_size" "i \<le> length es"
  shows "\<exists>d' m'. cf_data d' = contents es \<and> cf_data m' = cf_data m \<and>
    divide_loop cd junk m (g, sz, d) =
      ((divide_spec (length (contents (take i es))) (drop i es) g, fold (\<lambda>(t, b, bs). add_single cd bs) (drop i es) sz, d'), m')"
  using d p(2) pos
proof (induction "length es - i" arbitrary: i g sz d m)
  case 0
  have "length (cf_data m) = length es * meta_size"
    unfolding 0(3) by (subst length_concat_uniform [OF meta_images_uniform]) (simp add: p(1))
  then have "at_end m" using 0 by (simp add: at_end_def)
  then obtain x where "read_meta junk m = (False, x, m)" using read_meta_end by blast
  then show ?case using 0 by (subst divide_loop.simps) auto
next
  case (Suc n)
  then have i: "i < length es" by simp
  obtain t b bs where e: "es ! i = (t, b, bs)" by (cases "es ! i")
  have rm: "read_meta junk m = (True, metas 0 es ! i, m\<lparr>cf_pos := Suc i * meta_size\<rparr>)"
    by (rule read_meta_at) (use p(1) Suc i in simp_all)
  obtain d1 where d1: "cf_data d1 = contents es" and r: "divide_record cd junk (metas 0 es ! i) (g, sz, d) =
      (divide_spec (length (contents (take i es))) [(t, b, bs)] g, add_single cd bs sz, d1)"
    using divide_record_at [OF Suc.prems(1) f i e, of cd junk g sz] by blast
  have tk: "take (Suc i) es = take i es @ [(t, b, bs)]" using i e by (simp add: take_Suc_conv_app_nth)
  have dr: "drop i es = (t, b, bs) # drop (Suc i) es" using i e by (simp add: Cons_nth_drop_Suc [symmetric])
  have "\<exists>d' m'. cf_data d' = contents es \<and> cf_data m' = cf_data (m\<lparr>cf_pos := Suc i * meta_size\<rparr>) \<and>
    divide_loop cd junk (m\<lparr>cf_pos := Suc i * meta_size\<rparr>)
      (divide_spec (length (contents (take i es))) [(t, b, bs)] g, add_single cd bs sz, d1) =
      ((divide_spec (length (contents (take (Suc i) es))) (drop (Suc i) es)
          (divide_spec (length (contents (take i es))) [(t, b, bs)] g),
        fold (\<lambda>(t, b, bs). add_single cd bs) (drop (Suc i) es) (add_single cd bs sz), d'), m')"
    by (rule Suc.hyps(1)) (use Suc i d1 in simp_all)
  then show ?case by (subst divide_loop.simps) (simp add: rm r tk dr)
qed


lemma fseek_end_same: "at_end f \<Longrightarrow> cf_data f' = cf_data f \<Longrightarrow> fseek_end f' = f"
  by (cases f) (simp add: fseek_end_def at_end_def)

lemma dividByBase_ok:
  assumes r: "store_rep s es" and f: "length (contents es) < 2 ^ 63" "entries_fit es"
  shows "dividByBase cd junk s sz = (divide_spec 0 es [], fold (\<lambda>(t, b, bs). add_single cd bs) es sz, s)"
proof -
  from r obtain pads where e: "at_end (st_data s)" "at_end (st_meta s)" "cf_data (st_data s) = contents es"
    and p: "length pads = length es" "cf_data (st_meta s) = concat (map2 meta_image pads (metas 0 es))"
    by (auto simp: store_rep_def)
  have m: "cf_data (fseek_set 0 (st_meta s)) = concat (map2 meta_image pads (metas 0 es))" using p(2) by simp
  obtain d' m' where "cf_data d' = contents es" "cf_data m' = cf_data (fseek_set 0 (st_meta s))"
    and l: "divide_loop cd junk (fseek_set 0 (st_meta s)) ([], sz, st_data s) =
      ((divide_spec (length (contents (take 0 es))) (drop 0 es) [],
        fold (\<lambda>(t, b, bs). add_single cd bs) (drop 0 es) sz, d'), m')"
    using divide_loop_from [OF e(3) f p(1) m, of 0 cd junk "[]" sz] by auto
  then have "fseek_end d' = st_data s" "fseek_end m' = st_meta s"
    using e fseek_end_same by auto
  with l show ?thesis by (simp add: dividByBase_def)
qed

text \<open>The blocks that belong to a base, in the order of the file.\<close>

fun deltas_of :: "nat \<Rightarrow> entry list \<Rightarrow> u32 \<Rightarrow> chunk list" where
  "deltas_of off [] k = []"
| "deltas_of off ((t, b, bs) # es) k =
     (if t = DeltaChunk \<and> b = k then [loaded off bs] else []) @ deltas_of (off + length bs) es k"

definition grouped :: "entry list \<Rightarrow> u32 \<Rightarrow> bool" where
  "grouped es k \<longleftrightarrow> (\<exists>(t, b, bs) \<in> set es. b = k \<and> (t = BaseChunk \<or> t = DeltaChunk))"

lemma divide_spec_sorted: "om_sorted g \<Longrightarrow> om_sorted (divide_spec off es g)"
  by (induction off es g rule: divide_spec.induct) (simp_all add: om_update_sorted)

lemma divide_spec_map_of:
  "om_sorted g \<Longrightarrow> map_of (divide_spec off es g) k =
     (if grouped es k \<or> map_of g k \<noteq> None
      then Some ((case map_of g k of None \<Rightarrow> [] | Some cs \<Rightarrow> cs) @ deltas_of off es k) else None)"
proof (induction off es g rule: divide_spec.induct)
  case (1 off g)
  then show ?case by (auto simp: grouped_def)
next
  case (2 off t b bs es g)
  have G: "grouped ((t, b, bs) # es) k \<longleftrightarrow> b = k \<and> (t = BaseChunk \<or> t = DeltaChunk) \<or> grouped es k"
    by (auto simp: grouped_def)
  show ?case
  proof (cases "t = BaseChunk \<or> t = DeltaChunk")
    case True
    then show ?thesis
      using 2 by (cases "map_of g k"; auto simp: G om_update_sorted om_update_map_of)
  next
    case False
    with 2 show ?thesis by (auto simp: G)
  qed
qed

text \<open>C23: grouping reads the store back by base: \<open>dividByBase\<close> answers the base ids in ascending order, each
  with exactly its delta blocks in the order they were stored, restores both streams, and adds every
  block's separately compressed size.\<close>

theorem divide_groups:
  assumes "store_rep s es" "length (contents es) < 2 ^ 63" "entries_fit es"
  shows "case dividByBase cd junk s sz of (g, sz', s') \<Rightarrow>
    s' = s \<and> sorted_wrt (<) (map fst g) \<and>
    map_of g k = (if grouped es k then Some (deltas_of 0 es k) else None) \<and>
    sz_single sz' = sz_single sz + sum_list (map (\<lambda>(t, b, bs). lz4f_size cd bs) es)"
proof -
  have "sz_single (fold (\<lambda>(t, b, bs). add_single cd bs) fs z) = sz_single z + sum_list (map (\<lambda>(t, b, bs). lz4f_size cd bs) fs)"
    for fs z by (induction fs arbitrary: z) (auto simp: add_single_def)
  then show ?thesis
    by (simp add: dividByBase_ok [OF assms] divide_spec_sorted divide_spec_map_of)
qed

theorem divide_groups_witness:
  "\<exists>s. store_writes 0 [PutBase (make_chunk [1] True 1 0), PutDelta (make_chunk [2] True 1 1) 0]
      \<lparr>st_cache = cache_new 0 1, st_data = \<lparr>cf_data = [], cf_pos = 0\<rparr>, st_meta = \<lparr>cf_data = [], cf_pos = 0\<rparr>\<rparr> = Some s \<and>
    map_of (fst (dividByBase \<lparr>lz4f_size = \<lambda>_. 1, lz4_size = \<lambda>_. 1, zstd_size = \<lambda>_. 1\<rparr> (\<lambda>_. 0) s sizes_zero)) 0 =
      Some [make_chunk [2] True 1 0]"
proof -
  let ?s0 = "\<lparr>st_cache = cache_new 0 1, st_data = \<lparr>cf_data = [], cf_pos = 0\<rparr>, st_meta = \<lparr>cf_data = [], cf_pos = 0\<rparr>\<rparr>"
  have "store_rep ?s0 []" by (simp add: store_rep_def at_end_def)
  from store_writes_rep [OF this, of "[PutBase (make_chunk [1] True 1 0), PutDelta (make_chunk [2] True 1 1) 0]" 0]
  obtain s where s: "store_writes 0 [PutBase (make_chunk [1] True 1 0), PutDelta (make_chunk [2] True 1 1) 0] ?s0 = Some s"
    "store_rep s [(BaseChunk, 0, [1]), (DeltaChunk, 0, [2])]" by (auto simp: ck_wf_def)
  have "map_of (fst (dividByBase \<lparr>lz4f_size = \<lambda>_. 1, lz4_size = \<lambda>_. 1, zstd_size = \<lambda>_. 1\<rparr> (\<lambda>_. 0) s sizes_zero)) 0 =
      Some [make_chunk [2] True 1 0]"
    using divide_groups [OF s(2), where k = 0 and cd = "\<lparr>lz4f_size = \<lambda>_. 1, lz4_size = \<lambda>_. 1, zstd_size = \<lambda>_. 1\<rparr>"
        and junk = "\<lambda>_. 0" and sz = sizes_zero]
    by (auto simp: entries_fit_def grouped_def loaded_def split: prod.splits)
  with s(1) show ?thesis by blast
qed

section \<open>Every block is compressed once\<close>

text \<open>A store as the drivers write it: a base's id is its position, and a delta's base is an earlier base.\<close>

definition entries_linked :: "entry list \<Rightarrow> bool" where
  "entries_linked es \<longleftrightarrow> (\<forall>i < length es. case es ! i of (t, b, bs) \<Rightarrow>
     t = BaseChunk \<and> unat b = i \<or> t = DeltaChunk \<and> unat b < i \<and> fst (es ! unat b) = BaseChunk)"

text \<open>A compressor that gives each byte a fixed cost, so that totals count how often each byte is compressed.\<close>

definition per_byte :: "(u8 \<Rightarrow> u64) \<Rightarrow> codec" where
  "per_byte w = (let f = \<lambda>bs. sum_list (map w bs) in \<lparr>lz4f_size = f, lz4_size = f, zstd_size = f\<rparr>)"

abbreviation cost :: "(u8 \<Rightarrow> u64) \<Rightarrow> bytes \<Rightarrow> u64" where
  "cost w bs \<equiv> sum_list (map w bs)"

definition base_bytes :: "entry list \<Rightarrow> u32 \<Rightarrow> bytes" where
  "base_bytes es b = snd (snd (es ! unat b))"

definition group_cost :: "(u8 \<Rightarrow> u64) \<Rightarrow> entry list \<Rightarrow> u32 \<Rightarrow> chunk list \<Rightarrow> u64" where
  "group_cost w es b ds = cost w (base_bytes es b) + cost w (concat (map ck_buf ds))"

lemma linked_append:
  "entries_linked (es @ [e]) \<Longrightarrow> entries_linked es"
  unfolding entries_linked_def
proof (intro allI impI)
  fix i assume *: "\<forall>i<length (es @ [e]). case (es @ [e]) ! i of (t, b, bs) \<Rightarrow>
     t = BaseChunk \<and> unat b = i \<or> t = DeltaChunk \<and> unat b < i \<and> fst ((es @ [e]) ! unat b) = BaseChunk"
    and i: "i < length es"
  from * [rule_format, of i] i show "case es ! i of (t, b, bs) \<Rightarrow>
     t = BaseChunk \<and> unat b = i \<or> t = DeltaChunk \<and> unat b < i \<and> fst (es ! unat b) = BaseChunk"
    by (cases "es ! i") (auto simp: nth_append)
qed

lemma linked_last:
  assumes "entries_linked (es @ [(t, b, bs)])"
  shows "t = BaseChunk \<and> unat b = length es \<or> t = DeltaChunk \<and> unat b < length es \<and> fst (es ! unat b) = BaseChunk"
  using assms [unfolded entries_linked_def, rule_format, of "length es"] by (auto simp: nth_append)

lemma linked_groups:
  "entries_linked es \<Longrightarrow> set (map fst (divide_spec 0 es [])) = {b. unat b < length es \<and> fst (es ! unat b) = BaseChunk} \<and>
     om_total (group_cost w es) (divide_spec 0 es []) = cost w (contents es)"
proof (induction es rule: rev_induct)
  case Nil
  then show ?case by (simp add: om_total_def)
next
  case (snoc e es)
  obtain t b bs where e: "e = (t, b, bs)" by (cases e)
  note l = linked_last [OF snoc.prems [unfolded e]]
  note ih = snoc.IH [OF linked_append [OF snoc.prems]]
  let ?G = "divide_spec 0 es []"
  have so: "om_sorted ?G" by (rule divide_spec_sorted) simp
  have same: "om_total (group_cost w (es @ [e])) ?G = om_total (group_cost w es) ?G"
    unfolding om_total_def
    by (rule arg_cong [of _ _ sum_list], rule map_cong [OF refl])
      (use ih in \<open>force simp: group_cost_def base_bytes_def nth_append\<close>)
  have cl: "cost w (contents (es @ [e])) = cost w (contents es) + cost w bs" by (simp add: e)
  from l show ?case
  proof
    assume b: "t = BaseChunk \<and> unat b = length es"
    then have n: "b \<notin> set (map fst ?G)" using ih by auto
    have eqb: "x = b" if "unat x = length es" for x using that b by (simp add: word_unat_eq_iff)
    have eq: "divide_spec 0 (es @ [e]) [] = om_update b (\<lambda>cs. cs) [] ?G"
      using b by (simp add: divide_spec_append e)
    have "group_cost w (es @ [e]) b [] = cost w bs"
      using b by (simp add: group_cost_def base_bytes_def e)
    moreover have "{b. unat b < length (es @ [e]) \<and> fst ((es @ [e]) ! unat b) = BaseChunk} =
        insert b {b. unat b < length es \<and> fst (es ! unat b) = BaseChunk}"
    proof (rule set_eqI)
      fix x
      consider "unat x < length es" | "x = b" | "length es < unat x" using eqb by fastforce
      then show "x \<in> {b. unat b < length (es @ [e]) \<and> fst ((es @ [e]) ! unat b) = BaseChunk} \<longleftrightarrow>
          x \<in> insert b {b. unat b < length es \<and> fst (es ! unat b) = BaseChunk}"
        by cases (use b in \<open>auto simp: nth_append e\<close>)
    qed
    ultimately show ?thesis
      using ih om_total_new [OF n, of "group_cost w (es @ [e])" "\<lambda>cs. cs" "[]"] same cl
      by (simp only: eq om_update_keys)
  next
    assume d: "t = DeltaChunk \<and> unat b < length es \<and> fst (es ! unat b) = BaseChunk"
    then have k: "b \<in> set (map fst ?G)" using ih by auto
    have eq: "divide_spec 0 (es @ [e]) [] = om_update b (\<lambda>cs. cs @ [loaded (length (contents es)) bs]) [] ?G"
      using d by (simp add: divide_spec_append e)
    have "om_total (group_cost w (es @ [e])) (om_update b (\<lambda>cs. cs @ [loaded (length (contents es)) bs]) [] ?G) =
        om_total (group_cost w (es @ [e])) ?G + cost w bs"
      by (rule om_total_old [OF so k]) (simp add: group_cost_def loaded_def add.assoc)
    moreover have "{b. unat b < length (es @ [e]) \<and> fst ((es @ [e]) ! unat b) = BaseChunk} =
        {b. unat b < length es \<and> fst (es ! unat b) = BaseChunk}"
    proof (rule set_eqI)
      fix x
      have "e = (es @ [e]) ! length es" by simp
      consider "unat x < length es" | "unat x = length es" | "length es < unat x" by linarith
      then show "x \<in> {b. unat b < length (es @ [e]) \<and> fst ((es @ [e]) ! unat b) = BaseChunk} \<longleftrightarrow>
          x \<in> {b. unat b < length es \<and> fst (es ! unat b) = BaseChunk}"
        by cases (use d in \<open>auto simp: nth_append e\<close>)
    qed
    ultimately show ?thesis using ih k same cl by (simp only: eq om_update_keys) auto
  qed
qed

lemma group_piece_cost:
  assumes "GetChunkContent junk b s0 = (make_chunk bb True (length bb) b, s0)"
  shows "\<exists>sz1. group_piece (per_byte w) junk b piece (s0, sz) = (s0, sz1) \<and>
    sz_compressed sz1 = sz_compressed sz + cost w (concat (map ck_buf piece)) + (if length piece < 16 then cost w bb else 0) \<and>
    sz_zstd sz1 = sz_zstd sz + cost w (concat (map ck_buf piece)) + (if length piece < 16 then cost w bb else 0) \<and>
    sz_origin sz1 = sz_origin sz + sum_list (map (\<lambda>c. word_of_int (ck_len c)) piece) \<and>
    sz_grouping_num sz1 = sz_grouping_num sz"
  by (simp add: group_piece_def per_byte_def Let_def assms)

lemma group_loop_cost:
  assumes "\<And>s. s = s0 \<Longrightarrow> GetChunkContent junk b s = (make_chunk bb True (length bb) b, s)"
  shows "\<exists>sz'. group_loop (per_byte w) junk 16 b ds i (s0, sz) = Some (s0, sz') \<and>
    sz_compressed sz' = sz_compressed sz + cost w (concat (map ck_buf (drop i ds))) +
      (if (length ds - i) mod 16 = 0 then 0 else cost w bb) \<and>
    sz_zstd sz' = sz_zstd sz + cost w (concat (map ck_buf (drop i ds))) +
      (if (length ds - i) mod 16 = 0 then 0 else cost w bb) \<and>
    sz_origin sz' = sz_origin sz + sum_list (map (\<lambda>c. word_of_int (ck_len c)) (drop i ds))"
proof (induction "length ds - i" arbitrary: i sz rule: less_induct)
  case less
  show ?case
  proof (cases "i < length ds")
    case False
    then show ?thesis by (subst group_loop.simps) simp
  next
    case True
    let ?r = "length ds - i"
    let ?piece = "take (min (i + 16) (length ds) - i) (drop i ds)"
    have pl: "length ?piece = min 16 ?r" by simp
    have sp: "drop i ds = ?piece @ drop (i + 16) ds"
      by (cases "i + 16 \<le> length ds")
        (simp_all add: min_def, metis add.commute append_take_drop_id drop_drop)
    obtain sz1 where sz1: "group_piece (per_byte w) junk b ?piece (s0, sz) = (s0, sz1)"
      "sz_compressed sz1 = sz_compressed sz + cost w (concat (map ck_buf ?piece)) + (if ?r < 16 then cost w bb else 0)"
      "sz_zstd sz1 = sz_zstd sz + cost w (concat (map ck_buf ?piece)) + (if ?r < 16 then cost w bb else 0)"
      "sz_origin sz1 = sz_origin sz + sum_list (map (\<lambda>c. word_of_int (ck_len c)) ?piece)"
      using group_piece_cost [OF assms [OF refl], of w ?piece sz] by (auto simp only: pl min_less_iff_disj) simp_all
    have lt: "length ds - (i + 16) < length ds - i" using True by simp
    from less [OF lt, of sz1] obtain sz2 where sz2:
      "group_loop (per_byte w) junk 16 b ds (i + 16) (s0, sz1) = Some (s0, sz2)"
      "sz_compressed sz2 = sz_compressed sz1 + cost w (concat (map ck_buf (drop (i + 16) ds))) +
        (if (length ds - (i + 16)) mod 16 = 0 then 0 else cost w bb)"
      "sz_zstd sz2 = sz_zstd sz1 + cost w (concat (map ck_buf (drop (i + 16) ds))) +
        (if (length ds - (i + 16)) mod 16 = 0 then 0 else cost w bb)"
      "sz_origin sz2 = sz_origin sz1 + sum_list (map (\<lambda>c. word_of_int (ck_len c)) (drop (i + 16) ds))"
      by blast
    have md: "(if ?r < 16 then x else 0) + (if (length ds - (i + 16)) mod 16 = 0 then 0 else x) =
        (if ?r mod 16 = 0 then 0 else x)" for x :: u64
    proof (cases "?r < 16")
      case True
      then show ?thesis using \<open>i < length ds\<close> by simp
    next
      case False
      then have "(length ds - (i + 16)) mod 16 = ?r mod 16" using le_mod_geq [of 16 ?r] by simp
      with False show ?thesis by simp
    qed
    have "group_loop (per_byte w) junk 16 b ds i (s0, sz) = Some (s0, sz2)"
      using True sz1(1) sz2(1) by (subst group_loop.simps) (simp add: Let_def)
    moreover have "cost w (concat (map ck_buf (drop i ds))) =
        cost w (concat (map ck_buf ?piece)) + cost w (concat (map ck_buf (drop (i + 16) ds)))"
      by (subst sp) simp
    moreover have "sum_list (map (\<lambda>c. word_of_int (ck_len c)) (drop i ds)) =
        sum_list (map (\<lambda>c. word_of_int (ck_len c)) ?piece) + sum_list (map (\<lambda>c. word_of_int (ck_len c)) (drop (i + 16) ds))"
      for word_of_int :: "int \<Rightarrow> u64"
      by (subst sp) simp
    ultimately show ?thesis
      using sz1(2-4) sz2(2-4) md [of "cost w bb"] by (simp only: option.inject prod.inject) (auto simp: ac_simps)
  qed
qed


lemma group_base_cost:
  assumes g: "GetChunkContent junk b s0 = (make_chunk bb True (length bb) b, s0)"
  shows "\<exists>sz'. group_base (per_byte w) junk 16 (b, ds) (s0, sz) = Some (s0, sz') \<and>
    sz_compressed sz' = sz_compressed sz + (cost w bb + cost w (concat (map ck_buf ds))) \<and>
    sz_zstd sz' = sz_zstd sz + (cost w bb + cost w (concat (map ck_buf ds))) \<and>
    sz_origin sz' = sz_origin sz + sum_list (map (\<lambda>c. word_of_int (ck_len c)) ds)"
proof (cases "ds = []")
  case True
  then show ?thesis by (simp add: group_base_def g compress_alone_def per_byte_def Let_def)
next
  case False
  let ?sz1 = "if 1 < length ds then sz\<lparr>sz_grouping_num := sz_grouping_num sz + 1,
      sz_grouping_blocks := sz_grouping_blocks sz + of_nat (length ds)\<rparr> else sz"
  have sel: "sz_compressed ?sz1 = sz_compressed sz" "sz_zstd ?sz1 = sz_zstd sz" "sz_origin ?sz1 = sz_origin sz" by simp_all
  obtain sz2 where l: "group_loop (per_byte w) junk 16 b ds 0 (s0, ?sz1) = Some (s0, sz2)"
    "sz_compressed sz2 = sz_compressed sz + cost w (concat (map ck_buf ds)) + (if length ds mod 16 = 0 then 0 else cost w bb)"
    "sz_zstd sz2 = sz_zstd sz + cost w (concat (map ck_buf ds)) + (if length ds mod 16 = 0 then 0 else cost w bb)"
    "sz_origin sz2 = sz_origin sz + sum_list (map (\<lambda>c. word_of_int (ck_len c)) ds)"
    using group_loop_cost [of s0 junk b bb w ds 0 ?sz1] g sel by auto
  show ?thesis
  proof (cases "length ds mod 16 = 0")
    case True
    then show ?thesis using False l
      by (simp add: group_base_def g Let_def compress_alone_def per_byte_def [of w, unfolded Let_def])
  next
    case neq: False
    then show ?thesis using False l by (simp add: group_base_def g Let_def)
  qed
qed

lemma group_all_cost:
  assumes "\<And>b. b \<in> set (map fst G) \<Longrightarrow> GetChunkContent junk b s0 = (make_chunk (bb b) True (length (bb b)) b, s0)"
  shows "\<exists>sz'. group_all (per_byte w) junk 16 G (s0, sz) = Some (s0, sz') \<and>
    sz_compressed sz' = sz_compressed sz + om_total (\<lambda>b ds. cost w (bb b) + cost w (concat (map ck_buf ds))) G \<and>
    sz_zstd sz' = sz_zstd sz + om_total (\<lambda>b ds. cost w (bb b) + cost w (concat (map ck_buf ds))) G \<and>
    sz_origin sz' = sz_origin sz + om_total (\<lambda>b ds. sum_list (map (\<lambda>c. word_of_int (ck_len c)) ds)) G"
  using assms
proof (induction G arbitrary: sz)
  case Nil
  then show ?case by (simp add: om_total_def)
next
  case (Cons g G)
  obtain b ds where g: "g = (b, ds)" by (cases g)
  obtain sz1 where 1: "group_base (per_byte w) junk 16 (b, ds) (s0, sz) = Some (s0, sz1)"
    "sz_compressed sz1 = sz_compressed sz + (cost w (bb b) + cost w (concat (map ck_buf ds)))"
    "sz_zstd sz1 = sz_zstd sz + (cost w (bb b) + cost w (concat (map ck_buf ds)))"
    "sz_origin sz1 = sz_origin sz + sum_list (map (\<lambda>c. word_of_int (ck_len c)) ds)"
    using group_base_cost [of junk b s0 "bb b" w ds sz] Cons.prems g by auto
  obtain sz2 where "group_all (per_byte w) junk 16 G (s0, sz1) = Some (s0, sz2)"
    "sz_compressed sz2 = sz_compressed sz1 + om_total (\<lambda>b ds. cost w (bb b) + cost w (concat (map ck_buf ds))) G"
    "sz_zstd sz2 = sz_zstd sz1 + om_total (\<lambda>b ds. cost w (bb b) + cost w (concat (map ck_buf ds))) G"
    "sz_origin sz2 = sz_origin sz1 + om_total (\<lambda>b ds. sum_list (map (\<lambda>c. word_of_int (ck_len c)) ds)) G"
    using Cons.IH [of sz1] Cons.prems by auto
  with 1 show ?case by (simp add: g om_total_def ac_simps)
qed

lemma groupByBase_cost:
  assumes r: "store_rep s es" "length (contents es) < 2 ^ 63" "entries_fit es" and l: "entries_linked es"
  shows "\<exists>sz'. groupByBase (per_byte w) junk 16 (s, sz) = Some (s, sz') \<and>
    sz_compressed sz' = sz_compressed sz + cost w (contents es) \<and> sz_zstd sz' = sz_zstd sz + cost w (contents es)"
proof -
  let ?G = "divide_spec 0 es []" and ?sz1 = "fold (\<lambda>(t, b, bs). add_single (per_byte w) bs) es sz"
  note lg = linked_groups [OF l, of w]
  have get: "GetChunkContent junk b s = (make_chunk (base_bytes es b) True (length (base_bytes es b)) b, s)"
    if "b \<in> set (map fst ?G)" for b
  proof (rule store_get [OF r])
    show "unat b < length es" using that lg by blast
    show "es ! unat b = (fst (es ! unat b), fst (snd (es ! unat b)), base_bytes es b)" by (simp add: base_bytes_def)
  qed
  have "sz_compressed (fold (\<lambda>(t, b, bs). add_single cd bs) fs z) = sz_compressed z \<and>
      sz_zstd (fold (\<lambda>(t, b, bs). add_single cd bs) fs z) = sz_zstd z" for fs cd z
    by (induction fs arbitrary: z) (auto simp: add_single_def)
  then have "sz_compressed ?sz1 = sz_compressed sz" "sz_zstd ?sz1 = sz_zstd sz" by blast+
  moreover have "(\<lambda>b ds. cost w (base_bytes es b) + cost w (concat (map ck_buf ds))) = group_cost w es"
    by (simp add: group_cost_def fun_eq_iff)
  ultimately show ?thesis
    using group_all_cost [of ?G junk s "base_bytes es" w ?sz1, OF get] lg
    by (auto simp only: groupByBase_def dividByBase_ok [OF r] fst_conv snd_conv prod.case)
qed

text \<open>C24: grouping compresses every stored block exactly once: with a compressor that charges each byte a
  cost of its own, \<open>groupByBase\<close> on a store whose deltas refer to earlier bases returns, leaves the
  store as it was, and adds the cost of the stored bytes to both totals. The base goes with the last
  piece of fewer than 16 blocks, or alone when there is none.\<close>

theorem group_compresses_once:
  assumes "store_rep s es" "length (contents es) < 2 ^ 63" "entries_fit es" "entries_linked es"
  shows "\<exists>sz'. groupByBase (per_byte w) junk 16 (s, sz) = Some (s, sz') \<and>
    sz_compressed sz' = sz_compressed sz + cost w (contents es) \<and> sz_zstd sz' = sz_zstd sz + cost w (contents es)"
  using groupByBase_cost [OF assms] .

theorem group_compresses_once_witness:
  "\<exists>s sz'. store_writes 0 [PutBase (make_chunk [1] True 1 0), PutDelta (make_chunk [2] True 1 1) 0]
      \<lparr>st_cache = cache_new 0 1, st_data = \<lparr>cf_data = [], cf_pos = 0\<rparr>, st_meta = \<lparr>cf_data = [], cf_pos = 0\<rparr>\<rparr> = Some s \<and>
    groupByBase (per_byte (\<lambda>b. ucast b)) (\<lambda>_. 0) 16 (s, sizes_zero) = Some (s, sz') \<and> sz_compressed sz' = 3"
proof -
  let ?s0 = "\<lparr>st_cache = cache_new 0 1, st_data = \<lparr>cf_data = [], cf_pos = 0\<rparr>, st_meta = \<lparr>cf_data = [], cf_pos = 0\<rparr>\<rparr>"
  have "store_rep ?s0 []" by (simp add: store_rep_def at_end_def)
  from store_writes_rep [OF this, of "[PutBase (make_chunk [1] True 1 0), PutDelta (make_chunk [2] True 1 1) 0]" 0]
  obtain s where s: "store_writes 0 [PutBase (make_chunk [1] True 1 0), PutDelta (make_chunk [2] True 1 1) 0] ?s0 = Some s"
    "store_rep s [(BaseChunk, 0, [1]), (DeltaChunk, 0, [2])]" by (auto simp: ck_wf_def)
  have "entries_linked [(BaseChunk, 0, [1]), (DeltaChunk, 0, [2])]"
    by (auto simp: entries_linked_def less_Suc_eq)
  with group_compresses_once [OF s(2), where w = "\<lambda>b. ucast b" and junk = "\<lambda>_. 0" and sz = sizes_zero]
  have "\<exists>sz'. groupByBase (per_byte (\<lambda>b. ucast b)) (\<lambda>_. 0) 16 (s, sizes_zero) = Some (s, sz') \<and> sz_compressed sz' = 3"
    by (auto simp: entries_fit_def sizes_zero_def)
  with s(1) show ?thesis by blast
qed



section \<open>Grouping always returns\<close>

lemma group_piece_store:
  assumes "GetChunkContent junk b s0 = (make_chunk bb True (length bb) b, s0)"
  shows "\<exists>sz1. group_piece cd junk b piece (s0, sz) = (s0, sz1)"
  by (simp add: group_piece_def Let_def assms)

lemma group_loop_total:
  assumes g: "GetChunkContent junk b s0 = (make_chunk bb True (length bb) b, s0)" and n: "0 < n"
  shows "\<exists>sz'. group_loop cd junk n b ds i (s0, sz) = Some (s0, sz')"
proof (induction "length ds - i" arbitrary: i sz rule: less_induct)
  case less
  show ?case
  proof (cases "i < length ds")
    case False
    then show ?thesis by (subst group_loop.simps) simp
  next
    case True
    let ?piece = "take (min (i + n) (length ds) - i) (drop i ds)"
    obtain sz1 where p: "group_piece cd junk b ?piece (s0, sz) = (s0, sz1)"
      using group_piece_store [OF g] by blast
    have "length ds - (i + n) < length ds - i" using True n by simp
    from less [OF this, of sz1] p True show ?thesis by (subst group_loop.simps) (simp add: Let_def)
  qed
qed

lemma group_base_total:
  assumes g: "GetChunkContent junk b s0 = (make_chunk bb True (length bb) b, s0)" and n: "0 < n"
  shows "\<exists>sz'. group_base cd junk n (b, ds) (s0, sz) = Some (s0, sz')"
proof (cases "ds = []")
  case True
  then show ?thesis by (simp add: group_base_def g Let_def)
next
  case False
  let ?sz1 = "if 1 < length ds then sz\<lparr>sz_grouping_num := sz_grouping_num sz + 1,
      sz_grouping_blocks := sz_grouping_blocks sz + of_nat (length ds)\<rparr> else sz"
  obtain sz2 where "group_loop cd junk n b ds 0 (s0, ?sz1) = Some (s0, sz2)"
    using group_loop_total [OF assms] by blast
  with False show ?thesis by (cases "length ds mod 16 = 0") (simp_all add: group_base_def g Let_def)
qed

lemma group_all_total:
  assumes "\<And>b. b \<in> set (map fst G) \<Longrightarrow> GetChunkContent junk b s0 = (make_chunk (bb b) True (length (bb b)) b, s0)"
    and n: "0 < n"
  shows "\<exists>sz'. group_all cd junk n G (s0, sz) = Some (s0, sz')"
  using assms(1)
proof (induction G arbitrary: sz)
  case Nil
  then show ?case by simp
next
  case (Cons g G)
  obtain b ds where g: "g = (b, ds)" by (cases g)
  obtain sz1 where 1: "group_base cd junk n (b, ds) (s0, sz) = Some (s0, sz1)"
    using group_base_total [of junk b s0 "bb b" n cd ds sz] Cons.prems n g by auto
  obtain sz2 where "group_all cd junk n G (s0, sz1) = Some (s0, sz2)"
    using Cons.IH [of sz1] Cons.prems by auto
  with 1 g show ?case by simp
qed

lemma base_get:
  assumes r: "store_rep s es" "length (contents es) < 2 ^ 63" "entries_fit es" and k: "unat b < length es"
  shows "GetChunkContent junk b s = (make_chunk (base_bytes es b) True (length (base_bytes es b)) b, s)"
  by (rule store_get [OF r k]) (simp add: base_bytes_def prod_eq_iff)

lemma groupByBase_total:
  assumes r: "store_rep s es" "length (contents es) < 2 ^ 63" "entries_fit es" and l: "entries_linked es" and n: "0 < n"
  shows "\<exists>sz'. groupByBase cd junk n (s, sz) = Some (s, sz')"
proof -
  let ?G = "divide_spec 0 es []"
  have get: "GetChunkContent junk b s = (make_chunk (base_bytes es b) True (length (base_bytes es b)) b, s)"
    if "b \<in> set (map fst ?G)" for b
    by (rule base_get [OF r]) (use that linked_groups [OF l, of "\<lambda>_. 0"] in blast)
  show ?thesis
    using group_all_total [of ?G junk s "base_bytes es" n cd, OF get n]
    by (auto simp only: groupByBase_def dividByBase_ok [OF r] fst_conv snd_conv prod.case)
qed

end
