(* ===== verification/FileMeta.thy ===== *)
theory FileMeta
  imports MappedFile
begin

text \<open>
  The file table, \<open>storage/file_meta.h\<close>: one text line per file with its name and the ids of its first
  and last chunk. \<open>get_word\<close> and \<open>get_u32\<close> are the stream extractions (\<open>operator>>\<close>) the reader uses,
  with their failure behaviour: nothing left leaves the target as it was, text that is not a number
  stores zero, a number too large stores the maximum. The writer's stream is \<open>None\<close> until it is opened;
  writing to it then does nothing. A \<open>FileMeta\<close> declared without an initialiser is the parameter \<open>junk\<close>.
\<close>

record file_meta =
  fm_name :: string
  fm_start :: u32
  fm_end :: u32

section \<open>Text\<close>

definition is_space :: "char \<Rightarrow> bool" where
  "is_space c \<longleftrightarrow> of_char c = (32 :: nat) \<or> (9 \<le> (of_char c :: nat) \<and> of_char c \<le> (13 :: nat))"

definition is_digit :: "char \<Rightarrow> bool" where
  "is_digit c \<longleftrightarrow> 48 \<le> (of_char c :: nat) \<and> of_char c \<le> (57 :: nat)"

definition newline :: char where
  "newline = char_of (10 :: nat)"

definition blank :: char where
  "blank = char_of (32 :: nat)"

definition digit_char :: "nat \<Rightarrow> char" where
  "digit_char d = char_of (48 + d)"

definition digit_val :: "char \<Rightarrow> nat" where
  "digit_val c = of_char c - 48"

fun decimal :: "nat \<Rightarrow> string" where
  "decimal n = (if n < 10 then [digit_char n] else decimal (n div 10) @ [digit_char (n mod 10)])"

declare decimal.simps [simp del]

definition digits_val :: "string \<Rightarrow> nat" where
  "digits_val ds = foldl (\<lambda>a c. a * 10 + digit_val c) 0 ds"

definition get_word :: "string \<Rightarrow> string \<Rightarrow> bool \<times> string \<times> string" where
  "get_word s old =
     (let s1 = dropWhile is_space s
      in if s1 = [] then (False, old, [])
         else (True, takeWhile (\<lambda>c. \<not> is_space c) s1, dropWhile (\<lambda>c. \<not> is_space c) s1))"

definition get_u32 :: "string \<Rightarrow> u32 \<Rightarrow> bool \<times> u32 \<times> string" where
  "get_u32 s old =
     (let s1 = dropWhile is_space s
      in if s1 = [] then (False, old, [])
         else
           (let neg = (hd s1 = CHR ''-'');
                s2 = (if hd s1 = CHR ''-'' \<or> hd s1 = CHR ''+'' then tl s1 else s1);
                ds = takeWhile is_digit s2;
                rest = dropWhile is_digit s2;
                n = digits_val ds
            in if ds = [] then (False, 0, rest)
               else if 2 ^ 32 \<le> n then (False, - 1, rest)
               else (True, if neg then - of_nat n else of_nat n, rest)))"

section \<open>Writer and readers\<close>

definition meta_line :: "file_meta \<Rightarrow> string" where
  "meta_line m = fm_name m @ [blank] @ decimal (unat (fm_start m)) @ [blank] @ decimal (unat (fm_end m)) @ [newline]"

definition FileMetaWriter_Init :: "(string \<Rightarrow> bool) \<Rightarrow> string \<Rightarrow> cpp_error + string option" where
  "FileMetaWriter_Init can_create path = (if can_create path then Inr (Some '''') else Inl LogFatal)"

definition FileMetaWriter_Write :: "file_meta \<Rightarrow> string option \<Rightarrow> string option" where
  "FileMetaWriter_Write m out = map_option (\<lambda>s. s @ meta_line m) out"

definition getline :: "string \<Rightarrow> (string \<times> string) option" where
  "getline s =
     (if s = [] then None
      else Some (takeWhile (\<lambda>c. c \<noteq> newline) s, tl (dropWhile (\<lambda>c. c \<noteq> newline) s)))"

text \<open>\<open>iss >> meta.file_name >> meta.start_chunk_id >> meta.end_chunk_id\<close>: the flag is the stream's state.\<close>

definition parse_meta :: "string \<Rightarrow> file_meta \<Rightarrow> bool \<times> file_meta" where
  "parse_meta line m =
     (let (ok1, name, r1) = get_word line (fm_name m)
      in if \<not> ok1 then (False, m\<lparr>fm_name := name\<rparr>)
         else (let (ok2, a, r2) = get_u32 r1 (fm_start m)
               in if \<not> ok2 then (False, m\<lparr>fm_name := name, fm_start := a\<rparr>)
                  else (let (ok3, b, r3) = get_u32 r2 (fm_end m)
                        in (ok3, m\<lparr>fm_name := name, fm_start := a, fm_end := b\<rparr>))))"

definition FileMetaReader_Init :: "(string \<Rightarrow> string option) \<Rightarrow> string \<Rightarrow> cpp_error + string" where
  "FileMetaReader_Init fs path = (case fs path of None \<Rightarrow> Inl LogFatal | Some text \<Rightarrow> Inr text)"

definition FileMetaReader_Next :: "file_meta \<Rightarrow> string \<Rightarrow> file_meta option \<times> string" where
  "FileMetaReader_Next junk inp =
     (case getline inp of
        None \<Rightarrow> (None, inp)
      | Some (line, rest) \<Rightarrow> (Some (snd (parse_meta line junk)), rest))"

lemma getline_less: "getline s = Some (line, rest) \<Longrightarrow> length rest < length s"
  by (cases s) (auto simp: getline_def length_dropWhile_le le_imp_less_Suc less_imp_diff_less split: if_splits)

function find_meta :: "string \<Rightarrow> file_meta \<Rightarrow> string \<Rightarrow> file_meta option" where
  "find_meta name m inp =
     (case getline inp of
        None \<Rightarrow> None
      | Some (line, rest) \<Rightarrow>
          (case parse_meta line m of (ok, m') \<Rightarrow>
             if ok \<and> fm_name m' = name then Some m' else find_meta name m' rest))"
  by pat_completeness auto
termination
  by (relation "measure (\<lambda>(name, m, inp). length inp)") (auto dest: getline_less)

declare find_meta.simps [simp del]

definition GetFileMetaByName :: "file_meta \<Rightarrow> (string \<Rightarrow> string option) \<Rightarrow> string \<Rightarrow> string \<Rightarrow> cpp_error + file_meta option" where
  "GetFileMetaByName junk fs meta_path file_name =
     (case fs meta_path of None \<Rightarrow> Inl LogFatal | Some text \<Rightarrow> Inr (find_meta file_name junk text))"

text \<open>The reader's loop: \<open>Next\<close> until it answers nothing.\<close>

function read_metas :: "file_meta \<Rightarrow> string \<Rightarrow> file_meta list" where
  "read_metas junk inp =
     (case getline inp of
        None \<Rightarrow> []
      | Some (line, rest) \<Rightarrow> snd (parse_meta line junk) # read_metas junk rest)"
  by pat_completeness auto
termination
  by (relation "measure (\<lambda>(junk, inp). length inp)") (auto dest: getline_less)

declare read_metas.simps [simp del]

lemma read_metas_next:
  "read_metas junk inp = (case FileMetaReader_Next junk inp of (None, _) \<Rightarrow> [] | (Some m, rest) \<Rightarrow> m # read_metas junk rest)"
  by (subst read_metas.simps) (auto simp: FileMetaReader_Next_def split: option.splits)

section \<open>Numbers\<close>

lemma digit_char_ok: "d < 10 \<Longrightarrow> is_digit (digit_char d) \<and> digit_val (digit_char d) = d"
  by (simp add: digit_char_def is_digit_def digit_val_def)

lemma is_digit_not: "is_digit c \<Longrightarrow> \<not> is_space c \<and> c \<noteq> newline \<and> c \<noteq> CHR ''-'' \<and> c \<noteq> CHR ''+''"
  by (auto simp: is_digit_def is_space_def newline_def)

lemma decimal_digits: "\<forall>c \<in> set (decimal n). is_digit c"
proof (induction n rule: decimal.induct)
  case (1 n)
  then show ?case
    by (subst decimal.simps) (auto simp: digit_char_ok)
qed

lemma decimal_nonempty: "decimal n \<noteq> []"
  by (subst decimal.simps) simp

lemma digits_val_snoc: "digits_val (ds @ [c]) = digits_val ds * 10 + digit_val c"
  by (simp add: digits_val_def)

lemma digits_val_decimal: "digits_val (decimal n) = n"
proof (induction n rule: decimal.induct)
  case (1 n)
  show ?case
  proof (cases "n < 10")
    case True
    then show ?thesis by (subst decimal.simps) (simp add: digits_val_def digit_char_ok)
  next
    case False
    then show ?thesis using 1 by (subst decimal.simps) (simp add: digits_val_snoc digit_char_ok)
  qed
qed

lemma blank_props: "is_space blank" "\<not> is_digit blank" "blank \<noteq> newline"
  by (simp_all add: is_space_def is_digit_def blank_def newline_def)

lemma dropWhile_id: "xs \<noteq> [] \<Longrightarrow> \<not> P (hd xs) \<Longrightarrow> dropWhile P xs = xs"
  by (cases xs) auto

lemma get_u32_decimal:
  assumes "rest = [] \<or> \<not> is_digit (hd rest)"
  shows "get_u32 (blank # decimal (unat x) @ rest) old = (True, x, rest)"
proof -
  let ?d = "decimal (unat x)"
  have hd: "is_digit (hd ?d)" using decimal_digits decimal_nonempty hd_in_set by blast
  have ne: "?d @ rest \<noteq> []" using decimal_nonempty by simp
  have h: "hd (?d @ rest) = hd ?d" using decimal_nonempty by simp
  have sp: "dropWhile is_space (blank # ?d @ rest) = ?d @ rest"
    using dropWhile_id [OF ne, of is_space] is_digit_not [OF hd] h blank_props(1) by simp
  have tk: "takeWhile is_digit (?d @ rest) = ?d" "dropWhile is_digit (?d @ rest) = rest"
    using assms decimal_digits [of "unat x"] by (cases rest; simp add: takeWhile_append2 dropWhile_append2)+
  have "\<not> 2 ^ 32 \<le> unat x" using unsigned_less [of x, where 'a = nat] by (simp only: not_le) simp
  moreover have "hd (?d @ rest) \<noteq> CHR ''-''" "hd (?d @ rest) \<noteq> CHR ''+''" using is_digit_not [OF hd] h by simp_all
  ultimately show ?thesis
    unfolding get_u32_def Let_def sp using ne decimal_nonempty [of "unat x"]
    by (simp only: tk if_False digits_val_decimal simp_thms) simp
qed

section \<open>Reading back what was written\<close>

text \<open>A name that survives: not empty and without white space.\<close>

definition plain_name :: "string \<Rightarrow> bool" where
  "plain_name s \<longleftrightarrow> s \<noteq> [] \<and> (\<forall>c \<in> set s. \<not> is_space c)"

lemma newline_space: "is_space newline"
  by (simp add: is_space_def newline_def)

lemma parse_meta_line:
  assumes "plain_name (fm_name m)"
  shows "parse_meta (fm_name m @ [blank] @ decimal (unat (fm_start m)) @ [blank] @ decimal (unat (fm_end m))) old =
    (True, m)"
proof -
  let ?a = "decimal (unat (fm_start m))" and ?b = "decimal (unat (fm_end m))"
  have n: "\<forall>c \<in> set (fm_name m). \<not> is_space c" "fm_name m \<noteq> []" using assms by (simp_all add: plain_name_def)
  then have "dropWhile is_space (fm_name m @ t) = fm_name m @ t" for t by (cases "fm_name m") auto
  then have w: "get_word (fm_name m @ blank # ?a @ blank # ?b) (fm_name old) = (True, fm_name m, blank # ?a @ blank # ?b)"
    using n blank_props(1) by (simp add: get_word_def takeWhile_append2 dropWhile_append2)
  have "get_u32 (blank # ?a @ blank # ?b) (fm_start old) = (True, fm_start m, blank # ?b)"
    by (rule get_u32_decimal) (simp add: blank_props)
  moreover have "get_u32 (blank # ?b) (fm_end old) = (True, fm_end m, [])"
    using get_u32_decimal [of "[]" "fm_end m"] by simp
  ultimately show ?thesis using w by (simp add: parse_meta_def)
qed

lemma getline_at: "newline \<notin> set l \<Longrightarrow> getline (l @ newline # rest) = Some (l, rest)"
proof -
  assume "newline \<notin> set l"
  then have "takeWhile (\<lambda>c. c \<noteq> newline) (l @ newline # rest) = l \<and>
      dropWhile (\<lambda>c. c \<noteq> newline) (l @ newline # rest) = newline # rest"
    by (induction l) auto
  then show ?thesis by (simp add: getline_def)
qed

lemma getline_meta:
  assumes "plain_name (fm_name m)"
  shows "getline (meta_line m @ rest) =
    Some (fm_name m @ [blank] @ decimal (unat (fm_start m)) @ [blank] @ decimal (unat (fm_end m)), rest)"
proof -
  let ?l = "fm_name m @ [blank] @ decimal (unat (fm_start m)) @ [blank] @ decimal (unat (fm_end m))"
  have "newline \<notin> set ?l"
    using assms decimal_digits is_digit_not blank_props(3) newline_space by (auto simp: plain_name_def)
  from getline_at [OF this] show ?thesis by (simp add: meta_line_def)
qed

lemma write_all: "foldl (\<lambda>out m. FileMetaWriter_Write m out) (Some s) ms = Some (s @ concat (map meta_line ms))"
  by (induction ms arbitrary: s) (simp_all add: FileMetaWriter_Write_def)

text \<open>C25: the file table reads back what was written: for names without white space the reader answers the
  records in order, and a lookup by name answers the first record of that name.\<close>

theorem file_meta_roundtrip:
  assumes "\<forall>m \<in> set ms. plain_name (fm_name m)"
  shows "\<exists>text. foldl (\<lambda>out m. FileMetaWriter_Write m out) (Some '''') ms = Some text \<and>
    read_metas junk text = ms \<and> find_meta name junk text = find (\<lambda>m. fm_name m = name) ms"
proof -
  have "read_metas junk (concat (map meta_line ms)) = ms \<and>
      find_meta name j (concat (map meta_line ms)) = find (\<lambda>m. fm_name m = name) ms" for j
    using assms
  proof (induction ms arbitrary: j)
    case Nil
    then show ?case by (simp add: read_metas.simps find_meta.simps getline_def)
  next
    case (Cons m ms)
    then have p: "plain_name (fm_name m)" by simp
    note g = getline_meta [OF p, of "concat (map meta_line ms)"] and q = parse_meta_line [OF p]
    from Cons g q show ?case
      by (subst read_metas.simps, subst find_meta.simps) simp
  qed
  then show ?thesis by (simp add: write_all)
qed

theorem file_meta_roundtrip_witness:
  "\<exists>text. foldl (\<lambda>out m. FileMetaWriter_Write m out) (Some '''')
      [\<lparr>fm_name = ''a'', fm_start = 0, fm_end = 4\<rparr>, \<lparr>fm_name = ''b'', fm_start = 5, fm_end = 11\<rparr>] = Some text \<and>
    read_metas \<lparr>fm_name = '''', fm_start = 7, fm_end = 7\<rparr> text =
      [\<lparr>fm_name = ''a'', fm_start = 0, fm_end = 4\<rparr>, \<lparr>fm_name = ''b'', fm_start = 5, fm_end = 11\<rparr>] \<and>
    find_meta ''b'' \<lparr>fm_name = '''', fm_start = 7, fm_end = 7\<rparr> text = Some \<lparr>fm_name = ''b'', fm_start = 5, fm_end = 11\<rparr>"
  using file_meta_roundtrip [of "[\<lparr>fm_name = ''a'', fm_start = 0, fm_end = 4\<rparr>, \<lparr>fm_name = ''b'', fm_start = 5, fm_end = 11\<rparr>]"
      "\<lparr>fm_name = '''', fm_start = 7, fm_end = 7\<rparr>" "''b''"]
  by (simp add: plain_name_def is_space_def)

text \<open>A file whose name contains white space can never be looked up, whatever the table holds, since a
  parsed name never contains any.\<close>

theorem file_meta_space_lost:
  assumes "c \<in> set name" "is_space c"
  shows "find_meta name junk inp = None"
proof -
  have word: "\<forall>c \<in> set (fst (snd (get_word line old))). \<not> is_space c" if "fst (get_word line old)" for line old
    using that by (auto simp: get_word_def Let_def split: if_splits dest: set_takeWhileD)
  have "fm_name (snd (parse_meta line m)) \<noteq> name" if "fst (parse_meta line m)" for line m
    using that word [of line "fm_name m"] assms(1,2)
    by (auto simp: parse_meta_def Let_def split: prod.splits if_splits)
  then show ?thesis
  proof (induction name junk inp rule: find_meta.induct)
    case (1 name m inp)
    show ?case
    proof (cases "getline inp")
      case None
      then show ?thesis by (subst find_meta.simps) simp
    next
      case (Some lr)
      obtain line rest where lr: "lr = (line, rest)" by (cases lr)
      obtain ok m' where p: "parse_meta line m = (ok, m')" by (cases "parse_meta line m")
      then have "\<not> (ok \<and> fm_name m' = name)" using 1(2) [of line m] by auto
      with 1(1) [OF Some lr [symmetric] p [symmetric]] 1(2) Some lr p show ?thesis
        by (subst find_meta.simps) auto
    qed
  qed
qed

theorem file_meta_space_lost_witness:
  "find_meta ''a b'' \<lparr>fm_name = [], fm_start = 0, fm_end = 0\<rparr>
     (meta_line \<lparr>fm_name = ''a b'', fm_start = 0, fm_end = 4\<rparr>) = None"
  by (rule file_meta_space_lost [of "CHR '' ''"]) (simp_all add: is_space_def)

end
