(* ===== verification/DeltaCompression.thy ===== *)
theory DeltaCompression
  imports FastCDC RabinCDC PalantirIndex BestFitIndex Grouping FileMeta
begin

text \<open>
  The compression driver, \<open>delta_compression.h\<close> and \<open>delta_compression.cpp\<close>, and the main program's
  loop over files (\<open>main.cpp\<close>). The driver works through the abstract classes \<open>Chunker\<close>,
  \<open>FeatureCalculator\<close> and \<open>Index\<close>; a record of their virtual functions is the argument \<open>vt\<close>, and the
  constructor's choice among the concrete classes is \<open>program_vtable\<close> over the sum types \<open>chunker_obj\<close>
  and \<open>index_obj\<close>. The outer option of a result is \<open>None\<close> for a memory fault or a loop that does not
  end; the sum's left side is an error the program reports or throws.
\<close>

type_synonym 'a outcome = "(cpp_error + 'a) option"

record ('c, 'f, 'i) vtable =
  vt_reinit :: "string \<Rightarrow> 'c \<Rightarrow> os_state \<Rightarrow> bool \<times> 'c \<times> os_state"
  vt_next :: "os_state \<Rightarrow> 'c \<Rightarrow> (chunk option \<times> 'c) option"
  vt_feature :: "'f \<Rightarrow> chunk \<Rightarrow> (feature \<times> 'f) option"
  vt_get :: "'i \<Rightarrow> feature \<Rightarrow> cpp_error + u32 option"
  vt_add :: "'i \<Rightarrow> feature \<Rightarrow> u32 \<Rightarrow> cpp_error + 'i"

record env =
  en_codec :: codec
  en_junk :: "nat \<Rightarrow> u8"
  en_pad :: u8

record ('c, 'f, 'i) delta_comp =
  dc_chunker :: 'c
  dc_features :: 'f
  dc_index :: 'i
  dc_dedup :: dedup
  dc_storage :: storage
  dc_meta_out :: "string option"
  dc_base_count :: u32
  dc_delta_count :: u32
  dc_dup_count :: u32
  dc_before_delta :: u64
  dc_after_delta :: u64
  dc_sizes :: sizes

section \<open>AddFile\<close>

text \<open>The loop body for one chunk, and the two lambdas that write a block and count it.\<close>

definition write_base_chunk :: "env \<Rightarrow> chunk \<Rightarrow> ('c, 'f, 'i) delta_comp \<Rightarrow> ('c, 'f, 'i) delta_comp option" where
  "write_base_chunk en c s =
     do {
       st \<leftarrow> WriteBaseChunk (en_pad en) c (dc_storage s);
       Some (s\<lparr>dc_storage := st, dc_base_count := dc_base_count s + 1,
               dc_sizes := (dc_sizes s)\<lparr>sz_origin := sz_origin (dc_sizes s) + word_of_int (ck_len c)\<rparr>\<rparr>)
     }"

definition write_delta_chunk ::
  "env \<Rightarrow> chunk \<Rightarrow> chunk \<Rightarrow> u32 \<Rightarrow> ('c, 'f, 'i) delta_comp \<Rightarrow> ('c, 'f, 'i) delta_comp option" where
  "write_delta_chunk en c delta_chunk base_chunk_id s =
     do {
       (n, st) \<leftarrow> WriteDeltaChunk (en_pad en) delta_chunk base_chunk_id (dc_storage s);
       Some (s\<lparr>dc_before_delta := dc_before_delta s + word_of_int (ck_len c), dc_storage := st,
               dc_delta_count := dc_delta_count s + 1,
               dc_after_delta := dc_after_delta s + word_of_int (ck_len delta_chunk)\<rparr>)
     }"

definition process_chunk ::
  "('c, 'f, 'i) vtable \<Rightarrow> env \<Rightarrow> chunk \<Rightarrow> ('c, 'f, 'i) delta_comp \<times> file_meta
    \<Rightarrow> (('c, 'f, 'i) delta_comp \<times> file_meta) outcome" where
  "process_chunk vt en c st =
     (case st of (s, fm) \<Rightarrow>
        let fm1 = (if fm_start fm = - 1 then fm\<lparr>fm_start := ck_id c\<rparr> else fm)
        in do {
          (feature, f') \<leftarrow> vt_feature vt (dc_features s) c;
          let s1 = s\<lparr>dc_features := f'\<rparr>;
          (case match_step (vt_get vt) (vt_add vt) (dc_index s1) feature (ck_id c) of
             Inl e \<Rightarrow> Some (Inl e)
           | Inr (None, i') \<Rightarrow>
               do {
                 s2 \<leftarrow> write_base_chunk en c (s1\<lparr>dc_index := i'\<rparr>);
                 Some (Inr (s2, fm1))
               }
           | Inr (Some base_chunk_id, i') \<Rightarrow>
               do {
                 (delta_chunk, st1) \<leftarrow> GetDeltaEncodedChunk (en_junk en) c base_chunk_id (dc_storage s1);
                 s2 \<leftarrow> write_delta_chunk en c delta_chunk base_chunk_id (s1\<lparr>dc_index := i', dc_storage := st1\<rparr>);
                 Some (Inr (s2, fm1\<lparr>fm_end := ck_id c\<rparr>))
               })
        })"

partial_function (option) add_chunks ::
  "('c, 'f, 'i) vtable \<Rightarrow> env \<Rightarrow> os_state \<Rightarrow> ('c, 'f, 'i) delta_comp \<times> file_meta
    \<Rightarrow> (('c, 'f, 'i) delta_comp \<times> file_meta) outcome" where
  "add_chunks vt en w st =
     (case vt_next vt w (dc_chunker (fst st)) of
        None \<Rightarrow> None
      | Some (None, ch) \<Rightarrow> Some (Inr ((fst st)\<lparr>dc_chunker := ch\<rparr>, snd st))
      | Some (Some c, ch) \<Rightarrow>
          (case process_chunk vt en c ((fst st)\<lparr>dc_chunker := ch\<rparr>, snd st) of
             None \<Rightarrow> None
           | Some (Inl e) \<Rightarrow> Some (Inl e)
           | Some (Inr st') \<Rightarrow> add_chunks vt en w st'))"

definition AddFile ::
  "('c, 'f, 'i) vtable \<Rightarrow> env \<Rightarrow> file_meta \<Rightarrow> string \<Rightarrow> ('c, 'f, 'i) delta_comp \<Rightarrow> os_state
    \<Rightarrow> (('c, 'f, 'i) delta_comp \<times> os_state) outcome" where
  "AddFile vt en junk file_name s w =
     (let fm = junk\<lparr>fm_name := file_name, fm_start := - 1\<rparr>;
          (ok, ch, w') = vt_reinit vt file_name (dc_chunker s) w
      in do {
        r \<leftarrow> add_chunks vt en w' (s\<lparr>dc_chunker := ch\<rparr>, fm);
        (case r of
           Inl e \<Rightarrow> Some (Inl e)
         | Inr (s1, fm1) \<Rightarrow>
             do {
               (st, sz) \<leftarrow> groupByBase (en_codec en) (en_junk en) 16 (dc_storage s1, dc_sizes s1);
               Some (Inr (s1\<lparr>dc_meta_out := FileMetaWriter_Write fm1 (dc_meta_out s1),
                             dc_storage := st, dc_sizes := sz\<rparr>, w'))
             })
      })"

text \<open>The main program's loop over the regular files of the data directory.\<close>

fun add_files ::
  "(string \<Rightarrow> 's \<Rightarrow> os_state \<Rightarrow> ('s \<times> os_state) outcome) \<Rightarrow> string list \<Rightarrow> 's \<Rightarrow> os_state \<Rightarrow> ('s \<times> os_state) outcome" where
  "add_files add [] s w = Some (Inr (s, w))"
| "add_files add (f # fs) s w =
     (case add f s w of
        None \<Rightarrow> None
      | Some (Inl e) \<Rightarrow> Some (Inl e)
      | Some (Inr (s', w')) \<Rightarrow> add_files add fs s' w')"

section \<open>The concrete classes\<close>

datatype chunker_obj = RabinChunker rabin_cdc | FastChunker fast_cdc

fun chunker_reinit :: "(nat \<Rightarrow> bool) \<Rightarrow> string \<Rightarrow> chunker_obj \<Rightarrow> os_state \<Rightarrow> bool \<times> chunker_obj \<times> os_state" where
  "chunker_reinit can_map name (RabinChunker r) w =
     (case rabin_cdc_reinit can_map name r w of (ok, r', w') \<Rightarrow> (ok, RabinChunker r', w'))"
| "chunker_reinit can_map name (FastChunker f) w =
     (case fast_cdc_reinit can_map name f w of (ok, f', w') \<Rightarrow> (ok, FastChunker f', w'))"

fun chunker_next :: "os_state \<Rightarrow> chunker_obj \<Rightarrow> (chunk option \<times> chunker_obj) option" where
  "chunker_next w (RabinChunker r) = map_option (\<lambda>(c, r'). (c, RabinChunker r')) (rabin_cdc_next w r)"
| "chunker_next w (FastChunker f) = map_option (\<lambda>(c, f'). (c, FastChunker f')) (fast_cdc_next w f)"

datatype calculator = FinesseCalc | OdessCalc | NTransformCalc | PalantirCalc | OdessSubCalc

text \<open>The calculators' state is the table of \<open>utils/rabin.cpp\<close>, which Finesse fills on first use;
  \<open>h0\<close> is its uninitialised local context.\<close>

fun calculate :: "rabin_t \<Rightarrow> calculator \<times> rabin_globals \<Rightarrow> chunk \<Rightarrow> (feature \<times> calculator \<times> rabin_globals) option" where
  "calculate h0 (FinesseCalc, g) c =
     map_option (\<lambda>(f, g'). (f, FinesseCalc, g')) (FinesseFeature default_finesse_sf_cnt default_finesse_sf_subf h0 g c)"
| "calculate h0 (OdessCalc, g) c =
     map_option (\<lambda>f. (f, OdessCalc, g)) (OdessFeature default_odess_sf_cnt default_odess_sf_subf default_odess_mask c)"
| "calculate h0 (NTransformCalc, g) c = map_option (\<lambda>f. (f, NTransformCalc, g)) (NTransformFeature 3 4 c)"
| "calculate h0 (PalantirCalc, g) c = map_option (\<lambda>f. (f, PalantirCalc, g)) (PalantirFeature c)"
| "calculate h0 (OdessSubCalc, g) c = map_option (\<lambda>f. (f, OdessSubCalc, g)) (OdessSubfeatures c)"

datatype index_obj = SuperIndex sf_index | LevelIndex "sf_index list" | BestIndex best_fit_index

fun index_get :: "(u32 list \<Rightarrow> u32 list) \<Rightarrow> index_obj \<Rightarrow> feature \<Rightarrow> cpp_error + u32 option" where
  "index_get iter (SuperIndex i) f = sfi_get i f"
| "index_get iter (LevelIndex i) f = pal_get i f"
| "index_get iter (BestIndex i) f = bf_get iter i f"

fun index_add :: "(u64, u32) placer \<Rightarrow> (f32, u32) placer \<Rightarrow> index_obj \<Rightarrow> feature \<Rightarrow> u32 \<Rightarrow> cpp_error + index_obj" where
  "index_add place placef (SuperIndex i) f cid = map_sum (\<lambda>e. e) SuperIndex (sfi_add place placef i f cid)"
| "index_add place placef (LevelIndex i) f cid = map_sum (\<lambda>e. e) LevelIndex (pal_add place placef i f cid)"
| "index_add place placef (BestIndex i) f cid = map_sum (\<lambda>e. e) BestIndex (bf_add i f cid)"

definition program_vtable ::
  "(nat \<Rightarrow> bool) \<Rightarrow> rabin_t \<Rightarrow> (u32 list \<Rightarrow> u32 list) \<Rightarrow> (u64, u32) placer \<Rightarrow> (f32, u32) placer
    \<Rightarrow> (chunker_obj, calculator \<times> rabin_globals, index_obj) vtable" where
  "program_vtable can_map h0 iter place placef =
     \<lparr>vt_reinit = chunker_reinit can_map, vt_next = chunker_next, vt_feature = calculate h0,
      vt_get = index_get iter, vt_add = index_add place placef\<rparr>"

section \<open>The constructor\<close>

text \<open>A parsed configuration. Dereferencing an empty \<open>cpptoml::option\<close> gives its default-constructed value:
  the empty string, or the indeterminate integer \<open>junk\<close>; using a missing table is a null dereference.\<close>

datatype toml = TomlString string | TomlInt int | TomlBool bool | TomlTable "(string \<times> toml) list"

definition get_as_string :: "(string \<times> toml) list \<Rightarrow> string \<Rightarrow> string option" where
  "get_as_string t k = (case map_of t k of Some (TomlString s) \<Rightarrow> Some s | _ \<Rightarrow> None)"

definition get_as_int :: "(string \<times> toml) list \<Rightarrow> string \<Rightarrow> int option" where
  "get_as_int t k = (case map_of t k of Some (TomlInt i) \<Rightarrow> Some i | _ \<Rightarrow> None)"

definition get_as_bool :: "(string \<times> toml) list \<Rightarrow> string \<Rightarrow> bool option" where
  "get_as_bool t k = (case map_of t k of Some (TomlBool b) \<Rightarrow> Some b | _ \<Rightarrow> None)"

definition get_table :: "(string \<times> toml) list \<Rightarrow> string \<Rightarrow> (string \<times> toml) list option" where
  "get_table t k = (case map_of t k of Some (TomlTable u) \<Rightarrow> Some u | _ \<Rightarrow> None)"

definition the_string :: "string option \<Rightarrow> string" where
  "the_string s = (case s of None \<Rightarrow> '''' | Some x \<Rightarrow> x)"

definition the_int :: "int \<Rightarrow> int option \<Rightarrow> int" where
  "the_int junk i = (case i of None \<Rightarrow> junk | Some x \<Rightarrow> x)"

text \<open>\<open>int64_t\<close> to \<open>int\<close>.\<close>

definition int_arg :: "int \<Rightarrow> int" where
  "int_arg i = s32_of_nat (u64_of_int i)"

definition make_chunker :: "u8 list \<times> nat \<times> u64 \<Rightarrow> int \<Rightarrow> (string \<times> toml) list \<Rightarrow> chunker_obj outcome" where
  "make_chunker rabin_junk junk table =
     (let chunker_type = the_string (get_as_string table ''type'')
      in if chunker_type = ''rabin-cdc'' \<or> chunker_type = ''fast-cdc''
         then (let min_chunk_size = the_int junk (get_as_int table ''min_chunk_size'');
                   max_chunk_size = the_int junk (get_as_int table ''max_chunk_size'');
                   stop_mask = the_int junk (get_as_int table ''stop_mask'')
               in if chunker_type = ''rabin-cdc''
                  then (case rabin_junk of (w0, p0, d0) \<Rightarrow>
                     map_option (\<lambda>r. Inr (RabinChunker r))
                       (rabin_cdc_new w0 p0 d0 (u64_of_int min_chunk_size) (u64_of_int max_chunk_size) (word_of_int stop_mask)))
                  else Some (Inr (FastChunker (fast_cdc_new (int_arg min_chunk_size) (int_arg max_chunk_size) (word_of_int stop_mask)))))
         else Some (Inl LogFatal))"

definition make_feature_index :: "string \<Rightarrow> (calculator \<times> index_obj) option" where
  "make_feature_index feature_type =
     map_of [(''finesse'', FinesseCalc, SuperIndex (sfi_new 3 1)),
             (''odess'', OdessCalc, SuperIndex (sfi_new 3 1)),
             (''n-transform'', NTransformCalc, SuperIndex (sfi_new 3 1)),
             (''palantir'', PalantirCalc, LevelIndex palantir_index_new),
             (''bestfit'', OdessSubCalc, BestIndex (bf_new 12))] feature_type"

definition DeltaCompression_new ::
  "u8 list \<times> nat \<times> u64 \<Rightarrow> int \<Rightarrow> u32 \<Rightarrow> (string \<Rightarrow> bool) \<Rightarrow> (string \<Rightarrow> bytes option) \<Rightarrow> (string \<times> toml) list
    \<Rightarrow> (chunker_obj, calculator \<times> rabin_globals, index_obj) delta_comp outcome" where
  "DeltaCompression_new rabin_junk junk cjunk can_create fs config =
     (let chunk_data_path = the_string (get_as_string config ''chunk_data_path'');
          chunk_meta_path = the_string (get_as_string config ''chunk_meta_path'');
          file_meta_path = the_string (get_as_string config ''file_meta_path'');
          dedup_index_path = the_string (get_as_string config ''dedup_index_path'')
      in case get_table config ''chunker'' of
           None \<Rightarrow> Some (Inl NullDeref)
         | Some chunker \<Rightarrow>
           (case make_chunker rabin_junk junk chunker of
              None \<Rightarrow> None
            | Some (Inl e) \<Rightarrow> Some (Inl e)
            | Some (Inr ch) \<Rightarrow>
              (case get_table config ''feature'' of
                 None \<Rightarrow> Some (Inl NullDeref)
               | Some feature \<Rightarrow>
                 (case make_feature_index (the_string (get_as_string feature ''type'')) of
                    None \<Rightarrow> Some (Inl LogFatal)
                  | Some (calc, idx) \<Rightarrow>
                    (case get_table config ''storage'' of
                       None \<Rightarrow> Some (Inl NullDeref)
                     | Some storage \<Rightarrow>
                       (if the_string (get_as_string storage ''encoder'') \<noteq> ''xdelta'' then Some (Inl LogFatal)
                        else
                          (case storage_new can_create cjunk fs chunk_data_path chunk_meta_path True
                             (u64_of_int (the_int junk (get_as_int storage ''cache_size''))) of
                             Inl e \<Rightarrow> Some (Inl e)
                           | Inr st \<Rightarrow>
                             (case FileMetaWriter_Init can_create file_meta_path of
                                Inl e \<Rightarrow> Some (Inl e)
                              | Inr out \<Rightarrow>
                                Some (Inr \<lparr>dc_chunker = ch, dc_features = (calc, rabin_globals_start), dc_index = idx,
                                  dc_dedup = dedup_new dedup_index_path, dc_storage = st, dc_meta_out = out,
                                  dc_base_count = 0, dc_delta_count = 0, dc_dup_count = 0, dc_before_delta = 0,
                                  dc_after_delta = 0, dc_sizes = sizes_zero\<rparr>)))))))))"

end
