(* ===== verification/Restore.thy ===== *)
theory Restore
  imports DeltaCompression
begin

text \<open>
  What a run of the driver leaves behind: the store holds the file's chunks in order, every delta
  refers to an earlier base, and reading the blocks back gives the file. \<open>storage_ok\<close> is the
  invariant of the store and its cache, for data that fits in the cache (then nothing is evicted);
  \<open>driver_ok\<close> adds the index's own invariant, through the interface \<open>similarity_index\<close>.
\<close>

section \<open>The cache holds stored blocks\<close>

abbreviation lru_bytes :: "lru \<Rightarrow> nat" where
  "lru_bytes l \<equiv> sum_list (map (\<lambda>(i, ch). length (ck_buf ch)) l)"

definition cache_holds :: "chunk_cache \<Rightarrow> entry list \<Rightarrow> bool" where
  "cache_holds c es \<longleftrightarrow> (\<exists>l. cache_rep c l \<and> cc_mem c = of_nat (lru_bytes l) \<and>
     (\<forall>(i, ch) \<in> set l. unat i < length es \<and> ck_wf ch \<and> ck_buf ch = base_bytes es i))"

lemma cache_rep_distinct: "cache_rep c l \<Longrightarrow> distinct (map fst l)"
  by (auto simp: cache_rep_def)

lemma contents_sum: "length (contents es) = (\<Sum>k < length es. length (snd (snd (es ! k))))"
proof (induction es rule: rev_induct)
  case (snoc e es)
  then show ?case by (cases e) (simp add: nth_append)
qed simp

lemma lru_bytes_le:
  assumes "distinct (map fst l)" "\<forall>(i, ch) \<in> set l. unat i < length es \<and> ck_buf ch = base_bytes es i"
  shows "lru_bytes l \<le> length (contents es)"
proof -
  have "lru_bytes l = sum_list (map (\<lambda>i. length (base_bytes es i)) (map fst l))"
    unfolding map_map by (rule arg_cong [of _ _ sum_list], rule map_cong [OF refl]) (use assms(2) in auto)
  also have "\<dots> = (\<Sum>i \<in> fst ` set l. length (base_bytes es i))"
    using sum_list_distinct_conv_sum_set [OF assms(1), of "\<lambda>i. length (base_bytes es i)"] by simp
  also have "\<dots> = (\<Sum>k \<in> unat ` fst ` set l. length (snd (snd (es ! k))))"
    by (subst sum.reindex) (auto simp: inj_on_def base_bytes_def word_unat_eq_iff)
  also have "\<dots> \<le> (\<Sum>k < length es. length (snd (snd (es ! k))))"
    by (rule sum_mono2) (use assms(2) in auto)
  finally show ?thesis by (simp add: contents_sum)
qed

lemma base_bytes_append: "unat i < length es \<Longrightarrow> base_bytes (es @ fs) i = base_bytes es i"
  by (simp add: base_bytes_def nth_append)

lemma cache_holds_append: "cache_holds c es \<Longrightarrow> cache_holds c (es @ fs)"
  unfolding cache_holds_def by (force simp: base_bytes_append)

lemma cache_holds_new: "cache_holds (cache_new junk n) es"
  using cache_new_rep [of junk n] by (auto simp: cache_holds_def cache_new_def intro!: exI [of _ "[]"])

lemma lru_make_room_fits: "unat (mem + len) < mx \<Longrightarrow> lru_make_room mx len n l mem = Some (l, mem)"
  by (cases n) simp_all

lemma cache_get_holds:
  assumes "cache_holds c es"
  shows "\<exists>r c'. cache_get i c = Some (r, c') \<and> cache_holds c' es \<and> cc_max c' = cc_max c \<and>
    (r = None \<longrightarrow> (\<exists>l. cache_rep c' l \<and> i \<notin> fst ` set l \<and> cc_mem c' = of_nat (lru_bytes l) \<and>
       (\<forall>(i, ch) \<in> set l. unat i < length es \<and> ck_wf ch \<and> ck_buf ch = base_bytes es i)))"
proof -
  from assms obtain l where l: "cache_rep c l" "cc_mem c = of_nat (lru_bytes l)"
    "\<forall>(i, ch) \<in> set l. unat i < length es \<and> ck_wf ch \<and> ck_buf ch = base_bytes es i"
    by (auto simp: cache_holds_def)
  obtain c' where c': "cache_get i c = Some (fst (lru_get i l), c')" "cache_rep c' (snd (lru_get i l))"
    "cc_mem c' = cc_mem c" "cc_max c' = cc_max c" using cache_get_refines [OF l(1)] by blast
  show ?thesis
  proof (cases "map_of l i")
    case None
    then have "lru_get i l = (None, l)" by (simp add: lru_get_def)
    moreover have "i \<notin> fst ` set l" using None by (simp add: map_of_eq_None_iff)
    ultimately show ?thesis using c' l by (auto simp: cache_holds_def)
  next
    case (Some ch)
    then have g: "lru_get i l = (Some ch, (i, ch) # filter (\<lambda>p. fst p \<noteq> i) l)" by (simp add: lru_get_def)
    have "lru_bytes l = length (ck_buf ch) + lru_bytes (filter (\<lambda>p. fst p \<noteq> i) l)"
      using Some cache_rep_distinct [OF l(1)]
    proof (induction l)
      case (Cons a l)
      then show ?case
      proof (cases "fst a = i")
        case True
        have "\<forall>p \<in> set l. fst p \<noteq> i"
        proof
          fix p assume "p \<in> set l"
          then have "fst p \<in> set (map fst l)" by simp
          then show "fst p \<noteq> i" using Cons.prems(2) True by (metis distinct.simps(2) list.simps(9))
        qed
        then have "filter (\<lambda>p. fst p \<noteq> i) l = l" by (rule filter_True)
        with Cons.prems(1) True show ?thesis by (auto split: prod.splits)
      next
        case False
        with Cons show ?thesis by (auto split: prod.splits)
      qed
    qed simp
    moreover have "(i, ch) \<in> set l" using Some by (rule map_of_SomeD)
    ultimately show ?thesis
      using c' l g by (auto simp: cache_holds_def intro!: exI [of _ "(i, ch) # filter (\<lambda>p. fst p \<noteq> i) l"])
  qed
qed

lemma unat_of_nat_63: "n < 2 ^ 63 \<Longrightarrow> unat (of_nat n :: u64) = n"
  unfolding unat_of_nat by (rule mod_less) simp

section \<open>The store's invariant\<close>

definition storage_ok :: "storage \<Rightarrow> entry list \<Rightarrow> bool" where
  "storage_ok s es \<longleftrightarrow> store_rep s es \<and> entries_fit es \<and> entries_linked es \<and> length (contents es) < 2 ^ 63 \<and>
     length (contents es) < cc_max (st_cache s) \<and> cc_max (st_cache s) < 2 ^ 64 \<and> cache_holds (st_cache s) es"

lemma storage_okD:
  assumes "storage_ok s es"
  shows "store_rep s es" "entries_fit es" "entries_linked es" "length (contents es) < 2 ^ 63"
    "length (contents es) < cc_max (st_cache s)" "cc_max (st_cache s) < 2 ^ 64" "cache_holds (st_cache s) es"
  using assms by (simp_all add: storage_ok_def)

lemma GetDeltaEncodedChunk_ok:
  assumes ok: "storage_ok s es" and b: "unat b < length es"
  shows "\<exists>s'. GetDeltaEncodedChunk junk c b s = Some (c, s') \<and> storage_ok s' es \<and> cc_max (st_cache s') = cc_max (st_cache s)"
proof -
  note d = storage_okD [OF ok]
  obtain r c1 where g: "cache_get b (st_cache s) = Some (r, c1)" "cache_holds c1 es" "cc_max c1 = cc_max (st_cache s)"
    and miss: "r = None \<longrightarrow> (\<exists>l. cache_rep c1 l \<and> b \<notin> fst ` set l \<and> cc_mem c1 = of_nat (lru_bytes l) \<and>
       (\<forall>(i, ch) \<in> set l. unat i < length es \<and> ck_wf ch \<and> ck_buf ch = base_bytes es i))"
    using cache_get_holds [OF d(7)] by blast
  let ?s1 = "s\<lparr>st_cache := c1\<rparr>"
  have s1: "store_rep ?s1 es" using d(1) by simp
  show ?thesis
  proof (cases r)
    case (Some x)
    then show ?thesis using g d s1 by (simp add: GetDeltaEncodedChunk_def Let_def storage_ok_def)
  next
    case None
    let ?base = "make_chunk (base_bytes es b) True (length (base_bytes es b)) b"
    have get: "GetChunkContent junk b ?s1 = (?base, ?s1)" by (rule base_get [OF s1 d(4,2) b])
    obtain l where l: "cache_rep c1 l" "b \<notin> fst ` set l" "cc_mem c1 = of_nat (lru_bytes l)"
      "\<forall>(i, ch) \<in> set l. unat i < length es \<and> ck_wf ch \<and> ck_buf ch = base_bytes es i"
      using miss None by blast
    have "base_bytes es b = snd (snd (es ! unat b))" by (simp add: base_bytes_def)
    moreover have "es ! unat b \<in> set es" using b by simp
    ultimately have len: "length (base_bytes es b) < 2 ^ 16" using d(2) by (force simp: entries_fit_def)
    then have wf: "ck_wf ?base" by (simp add: ck_wf_def)
    have "distinct (map fst ((b, ?base) # l))" using l(2) cache_rep_distinct [OF l(1)] by simp
    moreover have "\<forall>(i, ch) \<in> set ((b, ?base) # l). unat i < length es \<and> ck_buf ch = base_bytes es i"
      using l(4) b by auto
    ultimately have le: "lru_bytes ((b, ?base) # l) \<le> length (contents es)" by (rule lru_bytes_le)
    let ?len = "word_of_int (ck_len ?base) :: u64"
    have sum: "cc_mem c1 + ?len = of_nat (lru_bytes ((b, ?base) # l))"
      using wf by (simp add: l(3) ck_wf_def add.commute)
    have "unat (of_nat (lru_bytes ((b, ?base) # l)) :: u64) = lru_bytes ((b, ?base) # l)"
      by (rule unat_of_nat_63) (use le d(4) in linarith)
    then have "unat (cc_mem c1 + ?len) < cc_max c1" using le d(5) g(3) by (simp only: sum)
    then have "lru_add (cc_max c1) b ?base (l, cc_mem c1) = Some ((b, ?base) # l, cc_mem c1 + ?len)"
      by (simp add: lru_add_def lru_make_room_fits)
    then obtain c2 where c2: "cache_add b ?base c1 = Some c2" "cache_rep c2 ((b, ?base) # l)"
      "cc_mem c2 = cc_mem c1 + ?len" "cc_max c2 = cc_max c1"
      using cache_add_refines [OF l(1,2), of ?base] by auto
    have h2: "cache_holds c2 es"
      unfolding cache_holds_def using c2(2,3) sum l(4) wf b
      by (intro exI [of _ "(b, ?base) # l"]) auto
    have "GetDeltaEncodedChunk junk c b s = Some (c, ?s1\<lparr>st_cache := c2\<rparr>)"
      using None by (simp add: GetDeltaEncodedChunk_def Let_def g(1) get c2(1))
    moreover have "storage_ok (?s1\<lparr>st_cache := c2\<rparr>) es"
      using d h2 c2(4) g(3) by (simp add: storage_ok_def)
    ultimately show ?thesis using c2(4) g(3) by (intro exI [of _ "?s1\<lparr>st_cache := c2\<rparr>"]) simp
  qed
qed

lemma linked_snoc:
  assumes "entries_linked es"
    and "t = BaseChunk \<and> unat b = length es \<or> t = DeltaChunk \<and> unat b < length es \<and> fst (es ! unat b) = BaseChunk"
  shows "entries_linked (es @ [(t, b, bs)])"
  unfolding entries_linked_def
proof (intro allI impI)
  fix i assume i: "i < length (es @ [(t, b, bs)])"
  show "case (es @ [(t, b, bs)]) ! i of (t', b', bs') \<Rightarrow>
      t' = BaseChunk \<and> unat b' = i \<or> t' = DeltaChunk \<and> unat b' < i \<and> fst ((es @ [(t, b, bs)]) ! unat b') = BaseChunk"
  proof (cases "i = length es")
    case True
    then show ?thesis using assms(2) by (auto simp: nth_append)
  next
    case False
    then have "i < length es" using i by simp
    then show ?thesis using assms(1) [unfolded entries_linked_def, rule_format, of i]
      by (auto simp: nth_append split: prod.splits)
  qed
qed

lemma storage_ok_snoc:
  assumes "storage_ok s es" "store_rep s' (es @ [(t, b, bs)])" "st_cache s' = st_cache s"
    and "length bs < 2 ^ 16" "length (contents es) + length bs < 2 ^ 63" "length (contents es) + length bs < cc_max (st_cache s)"
    and "t = BaseChunk \<and> unat b = length es \<or> t = DeltaChunk \<and> unat b < length es \<and> fst (es ! unat b) = BaseChunk"
  shows "storage_ok s' (es @ [(t, b, bs)])"
  using storage_okD [OF assms(1)] assms(2-6) linked_snoc [OF _ assms(7)] cache_holds_append
  by (auto simp: storage_ok_def entries_fit_def)


section \<open>One chunk\<close>

text \<open>\<open>bases es\<close> are the ids of the base blocks. \<open>driver_ok\<close> is the driver's invariant: \<open>iok\<close>, \<open>shape\<close> and
  \<open>ids\<close> are the index's, \<open>fok\<close> that of the feature calculator.\<close>

definition bases :: "entry list \<Rightarrow> u32 set" where
  "bases es = {b. unat b < length es \<and> fst (es ! unat b) = BaseChunk}"

definition driver_ok :: "('i \<Rightarrow> bool) \<Rightarrow> ('i \<Rightarrow> u32 set) \<Rightarrow> ('f \<Rightarrow> bool) \<Rightarrow> ('c, 'f, 'i) delta_comp \<Rightarrow> entry list \<Rightarrow> bool" where
  "driver_ok iok ids fok s es \<longleftrightarrow> storage_ok (dc_storage s) es \<and> iok (dc_index s) \<and> ids (dc_index s) \<subseteq> bases es \<and>
     fok (dc_features s)"

definition calc_ok :: "('c, 'f, 'i) vtable \<Rightarrow> ('f \<Rightarrow> bool) \<Rightarrow> (feature \<Rightarrow> bool) \<Rightarrow> bool" where
  "calc_ok vt fok shape \<longleftrightarrow> (\<forall>f c. fok f \<longrightarrow> ck_wf c \<longrightarrow>
     (\<exists>feat f'. vt_feature vt f c = Some (feat, f') \<and> shape feat \<and> fok f'))"

lemma bases_append: "bases es \<subseteq> bases (es @ fs)"
  by (auto simp: bases_def nth_append)

lemma process_chunk_ok:
  fixes s :: "('c, 'f, 'i) delta_comp"
  assumes ix: "similarity_index (vt_get vt) (vt_add vt) iok shape ids" and ca: "calc_ok vt fok shape"
    and ok: "driver_ok iok ids fok s es"
    and c: "ck_wf c" "length (ck_buf c) < 2 ^ 16" "unat (ck_id c) = length es"
    and fit: "length (contents es) + length (ck_buf c) < 2 ^ 63"
      "length (contents es) + length (ck_buf c) < cc_max (st_cache (dc_storage s))"
  shows "\<exists>s' fm' t b. process_chunk vt en c (s, fm) = Some (Inr (s', fm')) \<and>
    driver_ok iok ids fok s' (es @ [(t, b, ck_buf c)]) \<and> cc_max (st_cache (dc_storage s')) = cc_max (st_cache (dc_storage s)) \<and>
    dc_chunker s' = dc_chunker s \<and> dc_meta_out s' = dc_meta_out s \<and> fm_name fm' = fm_name fm \<and>
    fm_start fm' = (if fm_start fm = - 1 then ck_id c else fm_start fm) \<and>
    dc_base_count s' + dc_delta_count s' = dc_base_count s + dc_delta_count s + 1"
proof -
  from ok have st: "storage_ok (dc_storage s) es" and iv: "iok (dc_index s)" "ids (dc_index s) \<subseteq> bases es" and fo: "fok (dc_features s)"
    by (simp_all add: driver_ok_def)
  obtain feat f' where f: "vt_feature vt (dc_features s) c = Some (feat, f')" "shape feat" "fok f'"
    using ca fo c(1) by (force simp: calc_ok_def)
  let ?s1 = "s\<lparr>dc_features := f'\<rparr>" and ?fm1 = "if fm_start fm = - 1 then fm\<lparr>fm_start := ck_id c\<rparr> else fm"
  have i1: "iok (dc_index ?s1)" using iv by simp
  consider (1) b where "match_step (vt_get vt) (vt_add vt) (dc_index ?s1) feat (ck_id c) = Inr (Some b, dc_index ?s1)"
      "b \<in> ids (dc_index ?s1)"
    | (2) i' where "match_step (vt_get vt) (vt_add vt) (dc_index ?s1) feat (ck_id c) = Inr (None, i')" "iok i'"
      "ids i' \<subseteq> insert (ck_id c) (ids (dc_index ?s1))"
    using similarity_index.step_cases [OF ix i1 f(2), of "ck_id c"] by blast
  then show ?thesis
  proof cases
    case (1 b)
    then have b: "unat b < length es" "fst (es ! unat b) = BaseChunk" using iv by (auto simp: bases_def)
    obtain st1 where g: "GetDeltaEncodedChunk (en_junk en) c b (dc_storage s) = Some (c, st1)" "storage_ok st1 es"
      "cc_max (st_cache st1) = cc_max (st_cache (dc_storage s))"
      using GetDeltaEncodedChunk_ok [OF st b(1)] by blast
    obtain st2 where w: "WriteDeltaChunk (en_pad en) c b st1 = Some (int (length (ck_buf c)), st2)"
      "store_rep st2 (es @ [(DeltaChunk, b, ck_buf c)])" "st_cache st2 = st_cache st1"
      using write_delta_rep [OF storage_okD(1) [OF g(2)] c(1)] by blast
    have "storage_ok st2 (es @ [(DeltaChunk, b, ck_buf c)])"
      by (rule storage_ok_snoc [OF g(2) w(2,3)]) (use c fit g(3) b in simp_all)
    then show ?thesis
      using 1 f g w iv bases_append [of es "[(DeltaChunk, b, ck_buf c)]"]
      by (cases "fm_start fm = - 1"; intro exI)
        (auto simp: process_chunk_def write_delta_chunk_def driver_ok_def Let_def)
  next
    case (2 i')
    obtain st2 where w: "WriteBaseChunk (en_pad en) c (dc_storage s) = Some st2"
      "store_rep st2 (es @ [(BaseChunk, ck_id c, ck_buf c)])" "st_cache st2 = st_cache (dc_storage s)"
      using write_base_rep [OF storage_okD(1) [OF st] c(1)] by blast
    have "storage_ok st2 (es @ [(BaseChunk, ck_id c, ck_buf c)])"
      by (rule storage_ok_snoc [OF st w(2,3)]) (use c fit in simp_all)
    moreover have "ck_id c \<in> bases (es @ [(BaseChunk, ck_id c, ck_buf c)])" using c(3) by (simp add: bases_def)
    then have "ids i' \<subseteq> bases (es @ [(BaseChunk, ck_id c, ck_buf c)])"
      using 2(3) iv(2) bases_append [of es "[(BaseChunk, ck_id c, ck_buf c)]"] by fastforce
    ultimately show ?thesis
      using 2 f w by (cases "fm_start fm = - 1"; intro exI) (auto simp: process_chunk_def write_base_chunk_def driver_ok_def Let_def)
  qed
qed

section \<open>All chunks of a file\<close>

lemma unat_ids: "n + k \<le> 2 ^ 32 \<Longrightarrow> j < k \<Longrightarrow> unat ((ids_from (of_nat n) k) ! j) = n + j"
  by (simp add: ids_from_def unat_of_nat flip: of_nat_add)

lemma add_chunks_ok:
  fixes s :: "('c, 'f, 'i) delta_comp"
  assumes ix: "similarity_index (vt_get vt) (vt_add vt) iok shape ids" and ca: "calc_ok vt fok shape"
  shows "\<lbrakk>drain (vt_next vt w) fuel (dc_chunker s) = Some (cs, ch'); driver_ok iok ids fok s es;
      \<forall>c \<in> set cs. ck_wf c \<and> length (ck_buf c) < 2 ^ 16; map ck_id cs = ids_from (of_nat (length es)) (length cs);
      length es + length cs \<le> 2 ^ 32; length (contents es) + length (concat (map ck_buf cs)) < 2 ^ 63;
      length (contents es) + length (concat (map ck_buf cs)) < cc_max (st_cache (dc_storage s))\<rbrakk>
    \<Longrightarrow> \<exists>s' fm' es'. add_chunks vt en w (s, fm) = Some (Inr (s', fm')) \<and> driver_ok iok ids fok s' (es @ es') \<and>
      map (\<lambda>e. snd (snd e)) es' = map ck_buf cs \<and> dc_chunker s' = ch' \<and> dc_meta_out s' = dc_meta_out s \<and>
      cc_max (st_cache (dc_storage s')) = cc_max (st_cache (dc_storage s)) \<and> fm_name fm' = fm_name fm \<and>
      (cs \<noteq> [] \<longrightarrow> fm_start fm = - 1 \<longrightarrow> of_nat (length es) \<noteq> (- 1 :: u32) \<longrightarrow> fm_start fm' = of_nat (length es)) \<and>
      (fm_start fm \<noteq> - 1 \<longrightarrow> fm_start fm' = fm_start fm) \<and>
      dc_base_count s' + dc_delta_count s' = dc_base_count s + dc_delta_count s + of_nat (length cs)"
proof (induction fuel arbitrary: s fm cs es)
  case 0
  then show ?case by simp
next
  case (Suc fuel)
  from Suc.prems(1) obtain x ch1 where nx: "vt_next vt w (dc_chunker s) = Some (x, ch1)" by (auto split: option.splits)
  show ?case
  proof (cases x)
    case None
    with Suc.prems(1) nx have "cs = []" "ch' = ch1" by auto
    then show ?thesis using Suc.prems(2) None nx
      by (intro exI [of _ "s\<lparr>dc_chunker := ch1\<rparr>"] exI [of _ fm] exI [of _ "[]"], subst add_chunks.simps)
        (simp add: driver_ok_def)
  next
    case (Some c)
    from Suc.prems(1) nx Some obtain cs1 where d: "drain (vt_next vt w) fuel ch1 = Some (cs1, ch')" and cs: "cs = c # cs1"
      by (auto split: option.splits)
    have id: "unat (ck_id c) = length es" and idw: "ck_id c = of_nat (length es)" and ids1: "map ck_id cs1 = ids_from (of_nat (Suc (length es))) (length cs1)"
    proof -
      have m: "ck_id c # map ck_id cs1 = of_nat (length es) # ids_from (of_nat (length es) + 1) (length cs1)"
        using Suc.prems(4) cs by (simp add: ids_from_Suc)
      then show "map ck_id cs1 = ids_from (of_nat (Suc (length es))) (length cs1)" by (simp add: add.commute)
      from m show "ck_id c = of_nat (length es)" by simp
      have "length es < 2 ^ 32" using Suc.prems(5) cs by simp
      with m show "unat (ck_id c) = length es" by (simp add: unat_of_nat)
    qed
    let ?s0 = "s\<lparr>dc_chunker := ch1\<rparr>"
    have ok0: "driver_ok iok ids fok ?s0 es" using Suc.prems(2) by (simp add: driver_ok_def)
    obtain s1 fm1 t b where p: "process_chunk vt en c (?s0, fm) = Some (Inr (s1, fm1))"
      "driver_ok iok ids fok s1 (es @ [(t, b, ck_buf c)])" "cc_max (st_cache (dc_storage s1)) = cc_max (st_cache (dc_storage s))"
      "dc_chunker s1 = ch1" "dc_meta_out s1 = dc_meta_out s" "fm_name fm1 = fm_name fm"
      "fm_start fm1 = (if fm_start fm = - 1 then ck_id c else fm_start fm)"
      "dc_base_count s1 + dc_delta_count s1 = dc_base_count s + dc_delta_count s + 1"
      using process_chunk_ok [OF ix ca ok0 _ _ id, of en fm] Suc.prems(3,6,7) cs by auto
    have "\<exists>s' fm' es'. add_chunks vt en w (s1, fm1) = Some (Inr (s', fm')) \<and> driver_ok iok ids fok s' ((es @ [(t, b, ck_buf c)]) @ es') \<and>
      map (\<lambda>e. snd (snd e)) es' = map ck_buf cs1 \<and> dc_chunker s' = ch' \<and> dc_meta_out s' = dc_meta_out s1 \<and>
      cc_max (st_cache (dc_storage s')) = cc_max (st_cache (dc_storage s1)) \<and> fm_name fm' = fm_name fm1 \<and>
      (cs1 \<noteq> [] \<longrightarrow> fm_start fm1 = - 1 \<longrightarrow> of_nat (length (es @ [(t, b, ck_buf c)])) \<noteq> (- 1 :: u32) \<longrightarrow>
         fm_start fm' = of_nat (length (es @ [(t, b, ck_buf c)]))) \<and>
      (fm_start fm1 \<noteq> - 1 \<longrightarrow> fm_start fm' = fm_start fm1) \<and>
      dc_base_count s' + dc_delta_count s' = dc_base_count s1 + dc_delta_count s1 + of_nat (length cs1)"
      by (rule Suc.IH) (use d p ids1 Suc.prems cs in \<open>simp_all add: add.assoc\<close>)
    then obtain s' fm' es' where r: "add_chunks vt en w (s1, fm1) = Some (Inr (s', fm'))"
      "driver_ok iok ids fok s' ((es @ [(t, b, ck_buf c)]) @ es')" "map (\<lambda>e. snd (snd e)) es' = map ck_buf cs1"
      "dc_chunker s' = ch'" "dc_meta_out s' = dc_meta_out s1" "cc_max (st_cache (dc_storage s')) = cc_max (st_cache (dc_storage s1))"
      "fm_name fm' = fm_name fm1" "fm_start fm1 \<noteq> - 1 \<longrightarrow> fm_start fm' = fm_start fm1"
      "dc_base_count s' + dc_delta_count s' = dc_base_count s1 + dc_delta_count s1 + of_nat (length cs1)" by blast
    have "add_chunks vt en w (s, fm) = Some (Inr (s', fm'))"
      using nx Some p(1) r(1) by (subst add_chunks.simps) simp
    then show ?thesis using r p idw cs
      by (intro exI [of _ s'] exI [of _ fm'] exI [of _ "(t, b, ck_buf c) # es'"]) (simp add: ac_simps)
  qed
qed


section \<open>FastCDC with Palantir, the shipped configuration\<close>

lemma fc_drain_frame:
  "fc_inv w s \<Longrightarrow> drain (fast_cdc_next w) fuel s = Some (cs, s') \<Longrightarrow>
    fc_file s' = fc_file s \<and> fc_min s' = fc_min s \<and> fc_max s' = fc_max s \<and>
    fc_next_id s' = fc_next_id s + of_nat (length cs) \<and>
    (\<forall>c \<in> set cs. length (ck_buf c) \<le> max (nat (fc_min s)) (nat (fc_max s)))"
proof (induction fuel arbitrary: s cs)
  case (Suc fuel)
  show ?case
  proof (cases "fc_rest w s = []")
    case True
    then show ?thesis using Suc.prems fc_next_empty [OF Suc.prems(1) True] by auto
  next
    case False
    let ?n = "fast_cut (nat (fc_min s)) (nat (fc_max s)) (fc_mask s) (fc_rest w s)"
    obtain p' where n: "fast_cdc_next w s = Some (Some (make_chunk (take ?n (fc_rest w s)) False ?n (fc_next_id s)),
        s\<lparr>fc_ptr := Some p', fc_remaining := fc_remaining s - ?n, fc_next_id := fc_next_id s + 1\<rparr>)"
      using fc_next_chunk [OF Suc.prems(1) False] by blast
    let ?s1 = "s\<lparr>fc_ptr := Some p', fc_remaining := fc_remaining s - ?n, fc_next_id := fc_next_id s + 1\<rparr>"
    obtain cs1 where d: "drain (fast_cdc_next w) fuel ?s1 = Some (cs1, s')"
      and cs: "cs = make_chunk (take ?n (fc_rest w s)) False ?n (fc_next_id s) # cs1"
      using Suc.prems(2) n by (auto split: option.splits)
    have "fc_inv w ?s1" using fc.inv_next [OF Suc.prems(1) n] .
    from Suc.IH [OF this d] cs fast_cut_le_max [of "nat (fc_min s)" "nat (fc_max s)" "fc_mask s" "fc_rest w s"]
    show ?thesis by (auto simp: add.assoc min.coboundedI2)
  qed
qed simp

lemma chunker_drain:
  "drain (fast_cdc_next w) fuel f = Some (cs, f') \<Longrightarrow> drain (chunker_next w) fuel (FastChunker f) = Some (cs, FastChunker f')"
proof (induction fuel arbitrary: f cs)
  case (Suc fuel)
  obtain x f1 where n: "fast_cdc_next w f = Some (x, f1)" using Suc.prems by (auto split: option.splits)
  show ?case
  proof (cases x)
    case None
    then show ?thesis using Suc.prems n by simp
  next
    case (Some c)
    then obtain cs1 where "drain (fast_cdc_next w) fuel f1 = Some (cs1, f')" "cs = c # cs1"
      using Suc.prems n by (auto split: option.splits)
    then show ?thesis using Suc.IH n Some by simp
  qed
qed simp

definition level_inv :: "index_obj \<Rightarrow> bool" where
  "level_inv i = (case i of LevelIndex l \<Rightarrow> pal_inv l | _ \<Rightarrow> False)"

definition level_ids :: "index_obj \<Rightarrow> u32 set" where
  "level_ids i = (case i of LevelIndex l \<Rightarrow> pal_ids l | _ \<Rightarrow> {})"

lemma level_laws:
  assumes "placement place" "placement placef"
  shows "similarity_index (index_get iter) (index_add place placef) level_inv pal_shape level_ids"
proof -
  note p = pal_laws [OF assms]
  show ?thesis
  proof
    fix i f c b i'
    assume "level_inv i" and f: "pal_shape f"
    then obtain l where i: "i = LevelIndex l" "pal_inv l" by (cases i) (auto simp: level_inv_def)
    show "\<exists>r. index_get iter i f = Inr r" using similarity_index.get_total [OF p i(2) f] i by simp
    obtain l' where l': "pal_add place placef l f c = Inr l'" "pal_inv l'" "pal_ids l' \<subseteq> insert c (pal_ids l)"
      using similarity_index.add_total [OF p i(2) f] by blast
    then show "\<exists>i'. index_add place placef i f c = Inr i' \<and> level_inv i' \<and> level_ids i' \<subseteq> insert c (level_ids i)"
      using i by (auto simp: level_inv_def level_ids_def)
    show "b \<in> level_ids i" if "index_get iter i f = Inr (Some b)"
      using similarity_index.get_sound [OF p i(2) f, of b] that i by (simp add: level_ids_def)
    show "index_get iter i' f \<noteq> Inr None" if "index_add place placef i f c = Inr i'" "index_get iter i f = Inr None"
      using similarity_index.get_added [OF p i(2) f l'(1)] that l' i by auto
  qed
qed

interpretation level: similarity_index "index_get (\<lambda>xs. xs)" "index_add (#) (#)" level_inv pal_shape level_ids
  by (rule level_laws [OF placement_cons placement_cons])

definition palantir_calc :: "calculator \<times> rabin_globals \<Rightarrow> bool" where
  "palantir_calc f \<longleftrightarrow> fst f = PalantirCalc"

lemma palantir_calc_ok: "calc_ok (program_vtable can_map h0 iter place placef) palantir_calc pal_shape"
  unfolding calc_ok_def
proof (intro allI impI)
  fix f :: "calculator \<times> rabin_globals" and c
  assume f: "palantir_calc f" and c: "ck_wf c"
  obtain feat where "PalantirFeature c = Some feat" "pal_shape feat" using palantir_feature_shape [OF c] by blast
  then show "\<exists>feat f'. vt_feature (program_vtable can_map h0 iter place placef) f c = Some (feat, f') \<and> pal_shape feat \<and> palantir_calc f'"
    using f by (cases f) (auto simp: program_vtable_def palantir_calc_def)
qed

text \<open>The state of the program between two files: the chunker owns its mapping and hands out the next
  position as id, the store holds \<open>es\<close>, and the index refers to its bases.\<close>

definition palantir_state :: "(chunker_obj, calculator \<times> rabin_globals, index_obj) delta_comp \<Rightarrow> os_state \<Rightarrow> entry list \<Rightarrow> bool" where
  "palantir_state s w es \<longleftrightarrow> driver_ok level_inv level_ids palantir_calc s es \<and>
     (\<exists>f. dc_chunker s = FastChunker f \<and> owns (fc_file f) w \<and> fc_config_ok f \<and> fc_min f < 2 ^ 16 \<and> fc_max f < 2 ^ 16 \<and>
        fc_remaining f = 0 \<and> fc_next_id f = of_nat (length es))"

lemma contents_concat: "contents es = concat (map (\<lambda>e. snd (snd e)) es)"
  by (induction es rule: contents.induct) auto

lemma ids_nonempty_length: "\<forall>x \<in> set xs. x \<noteq> [] \<Longrightarrow> length xs \<le> length (concat xs)"
proof (induction xs)
  case (Cons x xs)
  then show ?case by (cases x) auto
qed simp

lemma AddFile_ok:
  assumes pl: "placement place" "placement placef" and st: "palantir_state s w es"
    and fil: "os_files w name = Some content" "content \<noteq> []" "can_map (length content)"
    and room: "length es + length content < 2 ^ 32" "length (contents es) + length content < 2 ^ 63"
      "length (contents es) + length content < cc_max (st_cache (dc_storage s))"
  shows "\<exists>s' w' es' m. AddFile (program_vtable can_map h0 iter place placef) en junk name s w = Some (Inr (s', w')) \<and>
    palantir_state s' w' (es @ es') \<and> contents es' = content \<and> os_files w' = os_files w \<and>
    cc_max (st_cache (dc_storage s')) = cc_max (st_cache (dc_storage s)) \<and> length es' \<le> length content \<and>
    dc_meta_out s' = FileMetaWriter_Write m (dc_meta_out s) \<and> fm_name m = name \<and> fm_start m = of_nat (length es) \<and>
    dc_base_count s' + dc_delta_count s' = dc_base_count s + dc_delta_count s + of_nat (length es')"
proof -
  let ?vt = "program_vtable can_map h0 iter place placef"
  from st obtain f where ok: "driver_ok level_inv level_ids palantir_calc s es" and f: "dc_chunker s = FastChunker f"
    "owns (fc_file f) w" "fc_config_ok f" "fc_min f < 2 ^ 16" "fc_max f < 2 ^ 16" "fc_next_id f = of_nat (length es)"
    by (auto simp: palantir_state_def)
  obtain b f1 w1 where re: "fast_cdc_reinit can_map name f w = (b, f1, w1)" by (metis prod.collapse)
  have lt: "\<forall>a \<in> set_option (mf_addr (fc_file f)). a < os_next w" using f(2) by (auto simp: owns_def)
  note ro = reopen_ok [OF fil(1) _ lt, of can_map, OF fil(3)]
  have b: b using re ro fil(2) by (auto simp: fast_cdc_reinit_def map_success_def)
  have own1: "owns (fc_file f1) w1" "os_files w1 = os_files w"
    using reopen_owns [OF f(2), where can_map = can_map and name = name] re b
    by (auto simp: fast_cdc_reinit_def split: prod.splits if_splits)
  have len: "length content < 2 ^ 63" using room(2) by simp
  from fc_reinit_inv [OF re [unfolded eqTrueI [OF b]] f(2,3) fil(1) len] have
    f1: "fc_inv w1 f1" "fc_rest w1 f1 = content" "fc_next_id f1 = fc_next_id f" "fc_config_ok f1" "fc_min f1 = fc_min f" "fc_max f1 = fc_max f"
    by auto
  let ?fuel = "Suc (length content)"
  obtain cs f2 where d: "drain (fast_cdc_next w1) ?fuel f1 = Some (cs, f2)" "fc_inv w1 f2" "fc_rest w1 f2 = []"
    "concat (map ck_buf cs) = content" "map ck_id cs = ids_from (fc_next_id f1) (length cs)"
    "\<forall>c \<in> set cs. ck_wf c \<and> ck_buf c \<noteq> []"
    using fc.drain_all [OF f1(1), of ?fuel] f1(2) by auto
  note fr = fc_drain_frame [OF f1(1) d(1)]
  have n: "length cs \<le> length content"
    using ids_nonempty_length [of "map ck_buf cs"] d(4,6) by simp
  have big: "\<forall>c \<in> set cs. ck_wf c \<and> length (ck_buf c) < 2 ^ 16"
  proof
    fix c assume c: "c \<in> set cs"
    have "length (ck_buf c) \<le> max (nat (fc_min f)) (nat (fc_max f))" using fr f1(5,6) c by auto
    also have "\<dots> < 2 ^ 16" using f(4,5) by auto
    finally show "ck_wf c \<and> length (ck_buf c) < 2 ^ 16" using d(6) c by blast
  qed
  let ?fm = "junk\<lparr>fm_name := name, fm_start := - 1\<rparr>" and ?s1 = "s\<lparr>dc_chunker := FastChunker f1\<rparr>"
  have ok1: "driver_ok level_inv level_ids palantir_calc ?s1 es" using ok by (simp add: driver_ok_def)
  have sim: "similarity_index (vt_get ?vt) (vt_add ?vt) level_inv pal_shape level_ids"
    using level_laws [OF pl] by (simp add: program_vtable_def)
  have dr: "drain (vt_next ?vt w1) ?fuel (dc_chunker ?s1) = Some (cs, FastChunker f2)"
    using chunker_drain [OF d(1)] by (simp add: program_vtable_def)
  from add_chunks_ok [OF sim palantir_calc_ok dr ok1 big, of en ?fm] d(4,5) f1(3) f(6) n room
  obtain s2 fm2 es' where r: "add_chunks ?vt en w1 (?s1, ?fm) = Some (Inr (s2, fm2))"
    "driver_ok level_inv level_ids palantir_calc s2 (es @ es')" "map (\<lambda>e. snd (snd e)) es' = map ck_buf cs"
    "dc_chunker s2 = FastChunker f2" "dc_meta_out s2 = dc_meta_out s"
    "cc_max (st_cache (dc_storage s2)) = cc_max (st_cache (dc_storage s))" "fm_name fm2 = name"
    "cs \<noteq> [] \<longrightarrow> of_nat (length es) \<noteq> (- 1 :: u32) \<longrightarrow> fm_start fm2 = of_nat (length es)"
    "dc_base_count s2 + dc_delta_count s2 = dc_base_count s + dc_delta_count s + of_nat (length cs)"
    by auto
  have cne: "cs \<noteq> []" using d(4) fil(2) by auto
  have "(of_nat (length es) :: u32) \<noteq> - 1"
  proof
    assume "(of_nat (length es) :: u32) = - 1"
    then have "unat (of_nat (length es) :: u32) = unat (- 1 :: u32)" by (rule arg_cong)
    also have "\<dots> = 2 ^ 32 - 1" by (simp add: unsigned_minus_1_eq_mask mask_eq_exp_minus_1)
    finally have "unat (of_nat (length es) :: u32) = 2 ^ 32 - 1" .
    moreover have "0 < length content" using fil(2) by simp
    then have "length es < 2 ^ 32 - 1" using room(1) by linarith
    ultimately show False by (simp add: unat_of_nat)
  qed
  with r(8) cne have start: "fm_start fm2 = of_nat (length es)" by blast
  have ce: "contents es' = content" by (simp add: contents_concat r(3) d(4))
  have el: "length es' = length cs" using arg_cong [OF r(3), of length] by simp
  from r(2) have so: "storage_ok (dc_storage s2) (es @ es')" by (simp add: driver_ok_def)
  note so' = storage_okD [OF so]
  obtain sz where g: "groupByBase (en_codec en) (en_junk en) 16 (dc_storage s2, dc_sizes s2) = Some (dc_storage s2, sz)"
    using groupByBase_total [OF so'(1,4,2,3), where n = 16 and cd = "en_codec en" and junk = "en_junk en"] by auto
  let ?s' = "s2\<lparr>dc_meta_out := FileMetaWriter_Write fm2 (dc_meta_out s2), dc_storage := dc_storage s2, dc_sizes := sz\<rparr>"
  have "AddFile ?vt en junk name s w = Some (Inr (?s', w1))"
    using r(1) g by (simp add: AddFile_def Let_def f(1) re [simplified] program_vtable_def [THEN arg_cong, of vt_reinit, simplified])
  moreover have "palantir_state ?s' w1 (es @ es')"
    using r(2,4) own1 fr f1 f d(2,3) fc_length_rest [OF d(2)]
    by (auto simp: palantir_state_def driver_ok_def el fc_config_ok_def)
  ultimately show ?thesis
    using ce own1 r start n el
    by (intro exI [of _ ?s'] exI [of _ w1] exI [of _ es'] exI [of _ fm2]) simp
qed


section \<open>Reading a file back\<close>

text \<open>The blocks \<open>n0\<close>, \<open>n0 + 1\<close>, \<dots> of the store, joined.\<close>

definition read_back :: "(nat \<Rightarrow> u8) \<Rightarrow> storage \<Rightarrow> nat \<Rightarrow> nat \<Rightarrow> bytes" where
  "read_back junk s n0 n = concat (map (\<lambda>k. ck_buf (fst (GetChunkContent junk (of_nat (n0 + k)) s))) [0..<n])"

lemma read_back_ok:
  assumes "storage_ok s (es @ es')" "length es + length es' \<le> 2 ^ 32"
  shows "read_back junk s (length es) (length es') = contents es'"
proof -
  note d = storage_okD [OF assms(1)]
  have "ck_buf (fst (GetChunkContent junk (of_nat (length es + k)) s)) = snd (snd (es' ! k))" if "k < length es'" for k
  proof -
    have "length es + k < 2 ^ 32" using that assms(2) by linarith
    then have u: "unat (of_nat (length es + k) :: u32) = length es + k"
      unfolding unat_of_nat by (intro mod_less) simp
    show ?thesis
      using base_get [OF d(1,4,2), of "of_nat (length es + k)" junk] u that
      by (simp add: base_bytes_def nth_append)
  qed
  then have "map (\<lambda>k. ck_buf (fst (GetChunkContent junk (of_nat (length es + k)) s))) [0..<length es'] = map (\<lambda>e. snd (snd e)) es'"
    by (intro nth_equalityI) simp_all
  then show ?thesis by (simp add: read_back_def contents_concat)
qed

text \<open>The configuration file of the repository.\<close>

definition shipped_config :: "(string \<times> toml) list" where
  "shipped_config =
     [(''task'', TomlString ''compression''), (''pipeline'', TomlBool False), (''task_data_dir'', TomlString ''./test_data/test''),
      (''feature_index_path'', TomlString ''./test_data/default.index''), (''dedup_index_path'', TomlString ''./test_data/default.dedup''),
      (''chunk_data_path'', TomlString ''./test_data/default.data''), (''chunk_meta_path'', TomlString ''./test_data/default.meta''),
      (''file_meta_path'', TomlString ''./test_data/default.file''),
      (''feature'', TomlTable [(''type'', TomlString ''palantir'')]),
      (''chunker'', TomlTable [(''type'', TomlString ''fast-cdc''), (''min_chunk_size'', TomlInt 8192),
         (''max_chunk_size'', TomlInt 8192), (''stop_mask'', TomlInt 8191)]),
      (''storage'', TomlTable [(''encoder'', TomlString ''xdelta''), (''cache_size'', TomlInt 500)])]"

lemma shipped_new:
  assumes "can_create ''./test_data/default.data''" "can_create ''./test_data/default.meta''"
    "can_create ''./test_data/default.file''" "os_maps w = Map.empty"
  shows "\<exists>s0. DeltaCompression_new rj junk cjunk can_create fs shipped_config = Some (Inr s0) \<and>
    palantir_state s0 w [] \<and> cc_max (st_cache (dc_storage s0)) = 524288000 \<and> dc_base_count s0 = 0 \<and> dc_delta_count s0 = 0 \<and>
    dc_meta_out s0 = Some []"
proof -
  let ?e = "\<lparr>cf_data = [], cf_pos = 0\<rparr>"
  have get: "get_table shipped_config ''chunker'' = Some [(''type'', TomlString ''fast-cdc''), (''min_chunk_size'', TomlInt 8192),
         (''max_chunk_size'', TomlInt 8192), (''stop_mask'', TomlInt 8191)]"
    "get_table shipped_config ''feature'' = Some [(''type'', TomlString ''palantir'')]"
    "get_table shipped_config ''storage'' = Some [(''encoder'', TomlString ''xdelta''), (''cache_size'', TomlInt 500)]"
    "get_as_string shipped_config ''chunk_data_path'' = Some ''./test_data/default.data''"
    "get_as_string shipped_config ''chunk_meta_path'' = Some ''./test_data/default.meta''"
    "get_as_string shipped_config ''file_meta_path'' = Some ''./test_data/default.file''"
    by (simp_all add: get_table_def get_as_string_def shipped_config_def)
  have ch: "make_chunker rj junk [(''type'', TomlString ''fast-cdc''), (''min_chunk_size'', TomlInt 8192),
         (''max_chunk_size'', TomlInt 8192), (''stop_mask'', TomlInt 8191)] = Some (Inr (FastChunker (fast_cdc_new 8192 8192 8191)))"
    by (simp add: make_chunker_def get_as_string_def get_as_int_def the_string_def the_int_def int_arg_def)
  have fi: "make_feature_index (the_string (get_as_string [(''type'', TomlString ''palantir'')] ''type'')) = Some (PalantirCalc, LevelIndex palantir_index_new)"
    by (simp add: make_feature_index_def the_string_def get_as_string_def)
  have en: "the_string (get_as_string [(''encoder'', TomlString ''xdelta''), (''cache_size'', TomlInt 500)] ''encoder'') = ''xdelta''"
    "the_int junk (get_as_int [(''encoder'', TomlString ''xdelta''), (''cache_size'', TomlInt 500)] ''cache_size'') = 500"
    by (simp_all add: the_string_def the_int_def get_as_string_def get_as_int_def)
  have st: "storage_new can_create cjunk fs ''./test_data/default.data'' ''./test_data/default.meta'' True 500 =
      Inr \<lparr>st_cache = cache_new cjunk 500, st_data = ?e, st_meta = ?e\<rparr>"
    using assms by (simp add: storage_new_def fopen_update_def fseek_end_def)
  have mx: "cc_max (cache_new cjunk 500) = 524288000" by (simp add: cache_new_def)
  have "storage_ok \<lparr>st_cache = cache_new cjunk 500, st_data = ?e, st_meta = ?e\<rparr> []"
    by (simp add: storage_ok_def store_rep_def at_end_def entries_fit_def entries_linked_def mx cache_holds_new)
  moreover have "owns mapped_file_default w" by (rule owns_default [OF assms(4)])
  ultimately show ?thesis
    using assms palantir_index_new_ok mx
    by (simp add: DeltaCompression_new_def get ch fi en st the_string_def [of "Some _"] FileMetaWriter_Init_def
        palantir_state_def driver_ok_def level_inv_def level_ids_def palantir_calc_def fast_cdc_new_def fc_config_ok_def
        u64_of_int_def)
qed

text \<open>C27: a file goes into the store and comes back: with FastCDC and Palantir, from any state between two
  files, \<open>AddFile\<close> on a mappable file returns, records the file under its name with the position of its
  first block, counts each of its blocks as base or delta, leaves every delta referring to an earlier
  base, and reading its blocks back in order gives the file. The data must fit in the block cache, so
  that no eviction happens, and blocks stay below 64 KiB.\<close>

theorem file_restored:
  assumes "placement place" "placement placef" "palantir_state s w es"
    and "os_files w name = Some content" "content \<noteq> []" "can_map (length content)"
    and "length es + length content < 2 ^ 32" "length (contents es) + length content < 2 ^ 63"
    and "length (contents es) + length content < cc_max (st_cache (dc_storage s))"
  shows "\<exists>s' w' es' m. AddFile (program_vtable can_map h0 iter place placef) en junk name s w = Some (Inr (s', w')) \<and>
    palantir_state s' w' (es @ es') \<and> entries_linked (es @ es') \<and>
    read_back junkb (dc_storage s') (length es) (length es') = content \<and>
    dc_meta_out s' = FileMetaWriter_Write m (dc_meta_out s) \<and> fm_name m = name \<and> fm_start m = of_nat (length es) \<and>
    dc_base_count s' + dc_delta_count s' = dc_base_count s + dc_delta_count s + of_nat (length es')"
proof -
  from AddFile_ok [where can_map = can_map, OF assms, of h0 iter en junk] obtain s' w' es' m where
    r: "AddFile (program_vtable can_map h0 iter place placef) en junk name s w = Some (Inr (s', w'))"
      "palantir_state s' w' (es @ es')" "contents es' = content" "length es' \<le> length content"
      "dc_meta_out s' = FileMetaWriter_Write m (dc_meta_out s)" "fm_name m = name" "fm_start m = of_nat (length es)"
      "dc_base_count s' + dc_delta_count s' = dc_base_count s + dc_delta_count s + of_nat (length es')"
    by blast
  have so: "storage_ok (dc_storage s') (es @ es')" using r(2) by (simp add: palantir_state_def driver_ok_def)
  have "length es + length es' \<le> 2 ^ 32" using r(4) assms(7) by linarith
  from read_back_ok [OF so this] r storage_okD(3) [OF so] show ?thesis by blast
qed

text \<open>A run of the shipped configuration on one small file.\<close>

definition demo_world :: os_state where
  "demo_world = \<lparr>os_files = [''f'' \<mapsto> [7, 8, 9]], os_maps = Map.empty, os_next = 0, os_fds = 0\<rparr>"

definition demo_env :: env where
  "demo_env = \<lparr>en_codec = per_byte (\<lambda>_. 1), en_junk = (\<lambda>_. 0), en_pad = 0\<rparr>"

definition demo_meta :: file_meta where
  "demo_meta = \<lparr>fm_name = [], fm_start = 5, fm_end = 6\<rparr>"

abbreviation demo_vtable :: "(chunker_obj, calculator \<times> rabin_globals, index_obj) vtable" where
  "demo_vtable \<equiv> program_vtable (\<lambda>n. 0 < n) (rabin_t_new [] 0 0) (\<lambda>xs. xs) (#) (#)"

theorem file_restored_witness:
  "\<exists>s0 s' w' (es' :: entry list) m. DeltaCompression_new ([], 0, 0) 0 0 (\<lambda>_. True) (\<lambda>_. None) shipped_config = Some (Inr s0) \<and>
    AddFile demo_vtable demo_env demo_meta ''f'' s0 demo_world = Some (Inr (s', w')) \<and>
    read_back (\<lambda>_. 0) (dc_storage s') 0 (length es') = [7, 8, 9] \<and> dc_meta_out s' = Some (meta_line m) \<and> fm_name m = ''f''"
proof -
  have w: "os_maps demo_world = Map.empty" "os_files demo_world ''f'' = Some [7, 8, 9]" by (simp_all add: demo_world_def)
  obtain s0 where n: "DeltaCompression_new ([], 0, 0) 0 0 (\<lambda>_. True) (\<lambda>_. None) shipped_config = Some (Inr s0)"
    "palantir_state s0 demo_world []" "dc_meta_out s0 = Some []" "cc_max (st_cache (dc_storage s0)) = 524288000"
    using shipped_new [OF TrueI TrueI TrueI w(1), of "([], 0, 0)" 0 0 "\<lambda>_. None"] by blast
  from file_restored [where can_map = "\<lambda>n. 0 < n" and ?h0.0 = "rabin_t_new [] 0 0" and iter = "\<lambda>xs. xs" and en = demo_env
      and junk = demo_meta and junkb = "\<lambda>_. 0", OF placement_cons placement_cons n(2) w(2)] n(4)
  obtain s' w' and es' :: "entry list" and m where "AddFile demo_vtable demo_env demo_meta ''f'' s0 demo_world = Some (Inr (s', w'))"
    "read_back (\<lambda>_. 0) (dc_storage s') 0 (length es') = [7, 8, 9]" "dc_meta_out s' = FileMetaWriter_Write m (dc_meta_out s0)" "fm_name m = ''f''"
    by simp blast
  with n(1,3) show ?thesis
    by (intro exI [of _ s0] exI [of _ s'] exI [of _ w'] exI [of _ es'] exI [of _ m]) (simp add: FileMetaWriter_Write_def)
qed

lemma add_files_ok:
  assumes pl: "placement place" "placement placef"
  shows "palantir_state s w es \<Longrightarrow> \<forall>f \<in> set fs. os_files w f = Some (content f) \<and> content f \<noteq> [] \<and> can_map (length (content f)) \<Longrightarrow>
    length es + length (concat (map content fs)) < 2 ^ 32 \<Longrightarrow> length (contents es) + length (concat (map content fs)) < 2 ^ 63 \<Longrightarrow>
    length (contents es) + length (concat (map content fs)) < cc_max (st_cache (dc_storage s)) \<Longrightarrow>
    \<exists>s' w' es'. add_files (AddFile (program_vtable can_map h0 iter place placef) en junk) fs s w = Some (Inr (s', w')) \<and>
      palantir_state s' w' (es @ es') \<and> contents es' = concat (map content fs) \<and>
      length es' \<le> length (concat (map content fs)) \<and>
      dc_base_count s' + dc_delta_count s' = dc_base_count s + dc_delta_count s + of_nat (length es')"
proof (induction fs arbitrary: s w es)
  case Nil
  then show ?case by (intro exI [of _ s] exI [of _ w] exI [of _ "[]"]) simp
next
  case (Cons f fs)
  have fil: "os_files w f = Some (content f)" "content f \<noteq> []" "can_map (length (content f))" using Cons.prems(2) by auto
  obtain s1 w1 es1 where 1: "AddFile (program_vtable can_map h0 iter place placef) en junk f s w = Some (Inr (s1, w1))"
    "palantir_state s1 w1 (es @ es1)" "contents es1 = content f" "os_files w1 = os_files w"
    "cc_max (st_cache (dc_storage s1)) = cc_max (st_cache (dc_storage s))" "length es1 \<le> length (content f)"
    "dc_base_count s1 + dc_delta_count s1 = dc_base_count s + dc_delta_count s + of_nat (length es1)"
    using AddFile_ok [where can_map = can_map, OF pl Cons.prems(1) fil, of h0 iter en junk] Cons.prems(3-5) by auto
  obtain s2 w2 es2 where 2: "add_files (AddFile (program_vtable can_map h0 iter place placef) en junk) fs s1 w1 = Some (Inr (s2, w2))"
    "palantir_state s2 w2 ((es @ es1) @ es2)" "contents es2 = concat (map content fs)" "length es2 \<le> length (concat (map content fs))"
    "dc_base_count s2 + dc_delta_count s2 = dc_base_count s1 + dc_delta_count s1 + of_nat (length es2)"
    using Cons.IH [OF 1(2)] 1 Cons.prems(2-5) by auto
  show ?case
    using 1 2 by (intro exI [of _ s2] exI [of _ w2] exI [of _ "es1 @ es2"]) (simp add: add.assoc)
qed

text \<open>C26: the shipped program compresses a whole directory: with the repository's configuration, building
  the driver and adding any list of non-empty mappable files of less than 500 MiB in all returns, the
  counted base and delta blocks are all the blocks, every delta's base is an earlier base block, and
  reading all blocks back in order gives the files one after another.\<close>

theorem shipped_run_restores:
  assumes "placement place" "placement placef" "os_maps w = Map.empty"
    and "can_create ''./test_data/default.data''" "can_create ''./test_data/default.meta''" "can_create ''./test_data/default.file''"
    and "\<forall>f \<in> set fs. os_files w f = Some (content f) \<and> content f \<noteq> [] \<and> can_map (length (content f))"
    and "length (concat (map content fs)) < 524288000"
  shows "\<exists>s0 s w' es. DeltaCompression_new rj ijunk cjunk can_create paths shipped_config = Some (Inr s0) \<and>
    add_files (AddFile (program_vtable can_map h0 iter place placef) en junk) fs s0 w = Some (Inr (s, w')) \<and>
    store_rep (dc_storage s) es \<and> entries_linked es \<and>
    read_back junkb (dc_storage s) 0 (length es) = concat (map content fs) \<and>
    dc_base_count s + dc_delta_count s = of_nat (length es)"
proof -
  obtain s0 where n: "DeltaCompression_new rj ijunk cjunk can_create paths shipped_config = Some (Inr s0)"
    "palantir_state s0 w []" "cc_max (st_cache (dc_storage s0)) = 524288000" "dc_base_count s0 = 0" "dc_delta_count s0 = 0"
    using shipped_new [OF assms(4-6,3), of rj ijunk cjunk paths] by blast
  obtain s w' es where r: "add_files (AddFile (program_vtable can_map h0 iter place placef) en junk) fs s0 w = Some (Inr (s, w'))"
    "palantir_state s w' es" "contents es = concat (map content fs)" "length es \<le> length (concat (map content fs))"
    "dc_base_count s + dc_delta_count s = of_nat (length es)"
    using add_files_ok [OF assms(1,2) n(2) assms(7), of h0 iter en junk] assms(8) n(3-5) by auto
  have so: "storage_ok (dc_storage s) ([] @ es)" using r(2) by (simp add: palantir_state_def driver_ok_def)
  have "length ([] :: entry list) + length es \<le> 2 ^ 32" using r(4) assms(8) by simp
  from read_back_ok [OF so this, of junkb] r n storage_okD [OF so] show ?thesis by auto
qed

theorem shipped_run_restores_witness:
  "\<exists>s0 s w' (es :: entry list). DeltaCompression_new ([], 0, 0) 0 0 (\<lambda>_. True) (\<lambda>_. None) shipped_config = Some (Inr s0) \<and>
    add_files (AddFile demo_vtable demo_env demo_meta) [''f''] s0 demo_world = Some (Inr (s, w')) \<and>
    read_back (\<lambda>_. 0) (dc_storage s) 0 (length es) = [7, 8, 9]"
proof -
  have p: "\<forall>f \<in> set [''f'']. os_files demo_world f = Some ((\<lambda>_. [7, 8, 9]) f) \<and> (\<lambda>_. [7, 8, 9 :: u8]) f \<noteq> [] \<and>
      (\<lambda>n. 0 < n) (length ((\<lambda>_. [7, 8, 9 :: u8]) f))"
    and m: "os_maps demo_world = Map.empty" by (simp_all add: demo_world_def)
  have l: "length (concat (map (\<lambda>_. [7, 8, 9 :: u8]) [''f''])) < 524288000" by simp
  show ?thesis
    using shipped_run_restores [where can_map = "\<lambda>n. 0 < n" and can_create = "\<lambda>_. True" and rj = "([], 0, 0)"
        and ijunk = 0 and cjunk = 0 and paths = "\<lambda>_. None" and ?h0.0 = "rabin_t_new [] 0 0" and iter = "\<lambda>xs. xs"
        and en = demo_env and junk = demo_meta and junkb = "\<lambda>_. 0",
        OF placement_cons placement_cons m TrueI TrueI TrueI p l]
    by (simp del: add_files.simps) blast
qed


section \<open>What other configurations do\<close>

text \<open>C28: the configurations \<open>odess\<close> and \<open>n-transform\<close> cannot process a single chunk: their feature calculators
  answer the variant's third alternative, the super-feature index asks for the second, and the first
  lookup throws \<open>bad_variant_access\<close>.\<close>

theorem odess_config_throws:
  assumes "fst (dc_features s) = OdessCalc \<or> fst (dc_features s) = NTransformCalc" "dc_index s = SuperIndex i" "ck_wf c"
  shows "process_chunk (program_vtable can_map h0 iter place placef) en c (s, fm) = Some (Inl BadVariantAccess)"
proof -
  obtain k g where f: "dc_features s = (k, g)" by (cases "dc_features s")
  obtain v where "calculate h0 (dc_features s) c = Some (FVec v, k, g)"
    using assms(1,3) f
    by (auto simp: OdessFeature_def NTransformFeature_def default_odess_sf_cnt_def default_odess_sf_subf_def TRANS_M_def)
  then show ?thesis
    by (simp add: process_chunk_def program_vtable_def match_step_def assms(2) sfi_get_def)
qed

theorem odess_config_throws_witness:
  "make_feature_index ''odess'' = Some (OdessCalc, SuperIndex (sfi_new 3 1)) \<and>
   process_chunk demo_vtable demo_env (make_chunk [1] True 1 0)
     (\<lparr>dc_chunker = FastChunker (fast_cdc_new 2 4 1), dc_features = (OdessCalc, rabin_globals_start),
       dc_index = SuperIndex (sfi_new 3 1), dc_dedup = dedup_new [],
       dc_storage = \<lparr>st_cache = cache_new 0 1, st_data = \<lparr>cf_data = [], cf_pos = 0\<rparr>, st_meta = \<lparr>cf_data = [], cf_pos = 0\<rparr>\<rparr>,
       dc_meta_out = None, dc_base_count = 0, dc_delta_count = 0, dc_dup_count = 0, dc_before_delta = 0,
       dc_after_delta = 0, dc_sizes = sizes_zero\<rparr>, demo_meta) = Some (Inl BadVariantAccess)"
  by (rule conjI, simp add: make_feature_index_def, rule odess_config_throws) (simp_all add: ck_wf_def)

text \<open>A chunk that becomes a base leaves the file record's end id as it was, so a file without a delta block
  is recorded with the uninitialised end id.\<close>

lemma base_keeps_end_id:
  assumes "vt_feature vt (dc_features s) c = Some (feat, f')" "vt_get vt (dc_index s) feat = Inr None"
    and "process_chunk vt en c (s, fm) = Some (Inr (s', fm'))"
  shows "fm_end fm' = fm_end fm"
  using assms by (auto simp: process_chunk_def match_step_def Let_def split: sum.splits option.splits bind_splits if_splits)

end
