(* ===== verification/Pipeline.thy ===== *)
theory Pipeline
  imports DeltaCompression
begin

text \<open>
  The pipelined driver, \<open>pipeline_delta_compression.h\<close> and \<open>.cpp\<close>: five threads joined by four queues of
  at most 128 entries. A step of the relation \<open>pipe_step\<close> is one critical section of a queue, one of the
  two halves of a wait or of \<open>task_done\<close>, or the work a thread does between them on state no other thread
  touches: so a state of the program is the five threads' own states, the queues, the done flags and a
  location per thread. A wait whose predicate is false holds the lock until the thread sleeps; a sleeping
  thread goes on when it is notified, and tests its predicate again. The end of one queue alone is the
  small model at the end of the theory (\<open>cv_step\<close>).
\<close>

record pipe_ctx =
  cx_chunk :: chunk
  cx_base :: u32
  cx_type :: u8
  cx_feature :: feature

definition context_new :: "chunk \<Rightarrow> pipe_ctx" where
  "context_new c = \<lparr>cx_chunk = c, cx_base = 0, cx_type = 0, cx_feature = FLevels []\<rparr>"

definition max_queue_len :: nat where
  "max_queue_len = 128"

record writer =
  wr_storage :: storage
  wr_base_count :: u32
  wr_delta_count :: u32
  wr_dup_count :: u32
  wr_origin :: u64
  wr_compressed :: u64
  wr_before :: u64
  wr_after :: u64
  wr_processed :: u64

section \<open>What each worker does with a chunk\<close>

definition dedup_work :: "bytes \<Rightarrow> dedup \<Rightarrow> pipe_ctx \<Rightarrow> (pipe_ctx \<times> dedup) outcome" where
  "dedup_work buf d x =
     do {
       (dedup_base_id, d') \<leftarrow> ProcessChunk buf (cx_chunk x) d;
       Some (Inr (if dedup_base_id \<noteq> ck_id (cx_chunk x)
                  then x\<lparr>cx_type := DuplicateChunk, cx_base := dedup_base_id\<rparr> else x, d'))
     }"

definition feature_work :: "('c, 'f, 'i) vtable \<Rightarrow> 'f \<Rightarrow> pipe_ctx \<Rightarrow> (pipe_ctx \<times> 'f) outcome" where
  "feature_work vt f x =
     (if cx_type x \<noteq> DuplicateChunk
      then do { (feat, f') \<leftarrow> vt_feature vt f (cx_chunk x); Some (Inr (x\<lparr>cx_feature := feat\<rparr>, f')) }
      else Some (Inr (x, f)))"

definition match_work :: "('c, 'f, 'i) vtable \<Rightarrow> 'i \<Rightarrow> pipe_ctx \<Rightarrow> (pipe_ctx \<times> 'i) outcome" where
  "match_work vt i x =
     (if cx_type x \<noteq> DuplicateChunk
      then (case match_step (vt_get vt) (vt_add vt) i (cx_feature x) (ck_id (cx_chunk x)) of
              Inl e \<Rightarrow> Some (Inl e)
            | Inr (None, i') \<Rightarrow> Some (Inr (x\<lparr>cx_type := BaseChunk\<rparr>, i'))
            | Inr (Some b, i') \<Rightarrow> Some (Inr (x\<lparr>cx_type := DeltaChunk, cx_base := b\<rparr>, i')))
      else Some (Inr (x, i)))"

definition write_work :: "env \<Rightarrow> writer \<Rightarrow> pipe_ctx \<Rightarrow> writer outcome" where
  "write_work en s x =
     (let c = cx_chunk x;
          chunk_len = word_of_int (ck_len c);
          s1 = s\<lparr>wr_origin := wr_origin s + chunk_len, wr_processed := wr_processed s + 1\<rparr>
      in if cx_type x = DuplicateChunk then
           Some (Inr (s1\<lparr>wr_dup_count := wr_dup_count s + 1,
                        wr_storage := WriteDuplicateChunk (en_junk en) (en_pad en) c (cx_base x) (wr_storage s)\<rparr>))
         else if cx_type x = BaseChunk then
           do {
             st \<leftarrow> WriteBaseChunk (en_pad en) c (wr_storage s);
             Some (Inr (s1\<lparr>wr_base_count := wr_base_count s + 1, wr_compressed := wr_compressed s + chunk_len,
                          wr_storage := st\<rparr>))
           }
         else if cx_type x = DeltaChunk then
           do {
             (delta_chunk, st1) \<leftarrow> GetDeltaEncodedChunk (en_junk en) c (cx_base x) (wr_storage s);
             (n, st2) \<leftarrow> WriteDeltaChunk (en_pad en) delta_chunk (cx_base x) st1;
             Some (Inr (s1\<lparr>wr_delta_count := wr_delta_count s + 1, wr_before := wr_before s + chunk_len,
                          wr_after := wr_after s + word_of_int (ck_len delta_chunk),
                          wr_compressed := wr_compressed s + word_of_int (ck_len delta_chunk), wr_storage := st2\<rparr>))
           }
         else Some (Inl LogFatal))"

section \<open>The threads\<close>

text \<open>The control points of a worker: about to take its input (\<open>Idle\<close>), with a false predicate and the lock
  of its input queue (\<open>EmptyIn\<close>), asleep on it, with a context fetched, with one to be put (\<open>Holding\<close>), with
  a false predicate and the lock of its output queue (\<open>FullOut\<close>), asleep on it; after the loop (\<open>Ended\<close>),
  between the two lines of \<open>task_done\<close> (\<open>Flagged\<close>), and returned.\<close>

datatype location = Idle | EmptyIn | AsleepIn | Fetched pipe_ctx | Holding pipe_ctx | FullOut pipe_ctx
  | AsleepOut pipe_ctx | Ended | Flagged | Finished

record ('c, 'f, 'i) pipe =
  pp_chunker :: 'c
  pp_dedup :: dedup
  pp_features :: 'f
  pp_index :: 'i
  pp_writer :: writer
  pp_queue :: "nat \<Rightarrow> pipe_ctx list"
  pp_done :: "nat \<Rightarrow> bool"
  pp_loc :: "nat \<Rightarrow> location"

text \<open>Threads 0 to 4 are the chunking, dedup, feature, match and write workers; queue, lock, condition
  variable and done flag \<open>i\<close> lie between threads \<open>i\<close> and \<open>i + 1\<close>.\<close>

definition pipe_start :: "'c \<Rightarrow> dedup \<Rightarrow> 'f \<Rightarrow> 'i \<Rightarrow> writer \<Rightarrow> ('c, 'f, 'i) pipe" where
  "pipe_start c d f i wr =
     \<lparr>pp_chunker = c, pp_dedup = d, pp_features = f, pp_index = i, pp_writer = wr,
      pp_queue = (\<lambda>_. []), pp_done = (\<lambda>_. False), pp_loc = (\<lambda>_. Idle)\<rparr>"

definition ok :: "'a outcome \<Rightarrow> 'a option" where
  "ok r = (case r of Some (Inr x) \<Rightarrow> Some x | _ \<Rightarrow> None)"

text \<open>\<open>notify_all\<close> on the condition variable \<open>i\<close>: its producer and its consumer may sleep on it.\<close>

primrec wake_in :: "location \<Rightarrow> location" where
  "wake_in Idle = Idle" | "wake_in EmptyIn = EmptyIn" | "wake_in AsleepIn = Idle" | "wake_in (Fetched x) = Fetched x"
| "wake_in (Holding x) = Holding x" | "wake_in (FullOut x) = FullOut x" | "wake_in (AsleepOut x) = AsleepOut x"
| "wake_in Ended = Ended" | "wake_in Flagged = Flagged" | "wake_in Finished = Finished"

primrec wake_out :: "location \<Rightarrow> location" where
  "wake_out Idle = Idle" | "wake_out EmptyIn = EmptyIn" | "wake_out AsleepIn = AsleepIn" | "wake_out (Fetched x) = Fetched x"
| "wake_out (Holding x) = Holding x" | "wake_out (FullOut x) = FullOut x" | "wake_out (AsleepOut x) = Holding x"
| "wake_out Ended = Ended" | "wake_out Flagged = Flagged" | "wake_out Finished = Finished"

definition notify_all :: "nat \<Rightarrow> (nat \<Rightarrow> location) \<Rightarrow> nat \<Rightarrow> location" where
  "notify_all i loc = loc(i := wake_out (loc i), Suc i := wake_in (loc (Suc i)))"

text \<open>The lock of queue \<open>i\<close> is held between two steps only by a thread that goes to sleep.\<close>

definition lock_free :: "nat \<Rightarrow> (nat \<Rightarrow> location) \<Rightarrow> bool" where
  "lock_free i loc \<longleftrightarrow> (\<forall>x. loc i \<noteq> FullOut x) \<and> loc (Suc i) \<noteq> EmptyIn"

text \<open>\<open>locked\<close> says whether \<open>task_done\<close> takes the lock to set its flag (the program's does not), and \<open>sp\<close>
  whether a wait may wake spuriously (the standard allows it).\<close>

inductive pipe_step :: "bool \<Rightarrow> bool \<Rightarrow> ('c, 'f, 'i) vtable \<Rightarrow> env \<Rightarrow> bytes \<Rightarrow> os_state
    \<Rightarrow> ('c, 'f, 'i) pipe \<Rightarrow> ('c, 'f, 'i) pipe \<Rightarrow> bool"
  for locked sp :: bool and vt :: "('c, 'f, 'i) vtable" and en :: env and buf :: bytes and w :: os_state where
  produce: "pp_loc s 0 = Idle \<Longrightarrow> vt_next vt w (pp_chunker s) = Some (Some c, ch) \<Longrightarrow>
    pipe_step locked sp vt en buf w s (s\<lparr>pp_chunker := ch, pp_loc := (pp_loc s)(0 := Holding (context_new c))\<rparr>)"
| produce_end: "pp_loc s 0 = Idle \<Longrightarrow> vt_next vt w (pp_chunker s) = Some (None, ch) \<Longrightarrow>
    pipe_step locked sp vt en buf w s (s\<lparr>pp_chunker := ch, pp_loc := (pp_loc s)(0 := Ended)\<rparr>)"
| put: "i < 4 \<Longrightarrow> pp_loc s i = Holding x \<Longrightarrow> lock_free i (pp_loc s) \<Longrightarrow> length (pp_queue s i) < max_queue_len \<Longrightarrow>
    pipe_step locked sp vt en buf w s
      (s\<lparr>pp_loc := notify_all i ((pp_loc s)(i := Idle)), pp_queue := (pp_queue s)(i := pp_queue s i @ [x])\<rparr>)"
| put_full: "i < 4 \<Longrightarrow> pp_loc s i = Holding x \<Longrightarrow> lock_free i (pp_loc s) \<Longrightarrow> \<not> length (pp_queue s i) < max_queue_len \<Longrightarrow>
    pipe_step locked sp vt en buf w s (s\<lparr>pp_loc := (pp_loc s)(i := FullOut x)\<rparr>)"
| put_sleep: "i < 4 \<Longrightarrow> pp_loc s i = FullOut x \<Longrightarrow>
    pipe_step locked sp vt en buf w s (s\<lparr>pp_loc := (pp_loc s)(i := AsleepOut x)\<rparr>)"
| fetch_next: "i < 4 \<Longrightarrow> pp_loc s (Suc i) = Idle \<Longrightarrow> lock_free i (pp_loc s) \<Longrightarrow> pp_queue s i = x # xs \<Longrightarrow>
    pipe_step locked sp vt en buf w s
      (s\<lparr>pp_loc := notify_all i ((pp_loc s)(Suc i := Fetched x)), pp_queue := (pp_queue s)(i := xs)\<rparr>)"
| finish: "i < 4 \<Longrightarrow> pp_loc s (Suc i) = Idle \<Longrightarrow> lock_free i (pp_loc s) \<Longrightarrow> pp_queue s i = [] \<Longrightarrow> pp_done s i \<Longrightarrow>
    pipe_step locked sp vt en buf w s
      (s\<lparr>pp_loc := notify_all i ((pp_loc s)(Suc i := (if i = 3 then Finished else Ended)))\<rparr>)"
| fetch_empty: "i < 4 \<Longrightarrow> pp_loc s (Suc i) = Idle \<Longrightarrow> lock_free i (pp_loc s) \<Longrightarrow> pp_queue s i = [] \<Longrightarrow> \<not> pp_done s i \<Longrightarrow>
    pipe_step locked sp vt en buf w s (s\<lparr>pp_loc := (pp_loc s)(Suc i := EmptyIn)\<rparr>)"
| fetch_sleep: "i < 4 \<Longrightarrow> pp_loc s (Suc i) = EmptyIn \<Longrightarrow>
    pipe_step locked sp vt en buf w s (s\<lparr>pp_loc := (pp_loc s)(Suc i := AsleepIn)\<rparr>)"
| set_flag: "i < 4 \<Longrightarrow> pp_loc s i = Ended \<Longrightarrow> locked \<longrightarrow> lock_free i (pp_loc s) \<Longrightarrow>
    pipe_step locked sp vt en buf w s (s\<lparr>pp_loc := (pp_loc s)(i := Flagged), pp_done := (pp_done s)(i := True)\<rparr>)"
| flag_notify: "i < 4 \<Longrightarrow> pp_loc s i = Flagged \<Longrightarrow>
    pipe_step locked sp vt en buf w s (s\<lparr>pp_loc := notify_all i ((pp_loc s)(i := Finished))\<rparr>)"
| spurious_in: "sp \<Longrightarrow> i < 4 \<Longrightarrow> pp_loc s (Suc i) = AsleepIn \<Longrightarrow>
    pipe_step locked sp vt en buf w s (s\<lparr>pp_loc := (pp_loc s)(Suc i := Idle)\<rparr>)"
| spurious_out: "sp \<Longrightarrow> i < 4 \<Longrightarrow> pp_loc s i = AsleepOut x \<Longrightarrow>
    pipe_step locked sp vt en buf w s (s\<lparr>pp_loc := (pp_loc s)(i := Holding x)\<rparr>)"
| do_dedup: "pp_loc s 1 = Fetched x \<Longrightarrow> dedup_work buf (pp_dedup s) x = Some (Inr (y, d)) \<Longrightarrow>
    pipe_step locked sp vt en buf w s (s\<lparr>pp_dedup := d, pp_loc := (pp_loc s)(1 := Holding y)\<rparr>)"
| do_feature: "pp_loc s 2 = Fetched x \<Longrightarrow> feature_work vt (pp_features s) x = Some (Inr (y, f)) \<Longrightarrow>
    pipe_step locked sp vt en buf w s (s\<lparr>pp_features := f, pp_loc := (pp_loc s)(2 := Holding y)\<rparr>)"
| do_match: "pp_loc s 3 = Fetched x \<Longrightarrow> match_work vt (pp_index s) x = Some (Inr (y, ix)) \<Longrightarrow>
    pipe_step locked sp vt en buf w s (s\<lparr>pp_index := ix, pp_loc := (pp_loc s)(3 := Holding y)\<rparr>)"
| do_write: "pp_loc s 4 = Fetched x \<Longrightarrow> write_work en (pp_writer s) x = Some (Inr wr) \<Longrightarrow>
    pipe_step locked sp vt en buf w s (s\<lparr>pp_writer := wr, pp_loc := (pp_loc s)(4 := Idle)\<rparr>)"

definition all_finished :: "('c, 'f, 'i) pipe \<Rightarrow> bool" where
  "all_finished s \<longleftrightarrow> (\<forall>i < 5. pp_loc s i = Finished)"

text \<open>A thread whose work fails: the chunker or a worker faults, or an error ends the process.\<close>

definition pipe_fault :: "('c, 'f, 'i) vtable \<Rightarrow> env \<Rightarrow> bytes \<Rightarrow> os_state \<Rightarrow> ('c, 'f, 'i) pipe \<Rightarrow> bool" where
  "pipe_fault vt en buf w s \<longleftrightarrow>
     pp_loc s 0 = Idle \<and> vt_next vt w (pp_chunker s) = None \<or>
     (\<exists>x. pp_loc s 1 = Fetched x \<and> ok (dedup_work buf (pp_dedup s) x) = None) \<or>
     (\<exists>x. pp_loc s 2 = Fetched x \<and> ok (feature_work vt (pp_features s) x) = None) \<or>
     (\<exists>x. pp_loc s 3 = Fetched x \<and> ok (match_work vt (pp_index s) x) = None) \<or>
     (\<exists>x. pp_loc s 4 = Fetched x \<and> ok (write_work en (pp_writer s) x) = None)"

section \<open>The whole file, one chunk at a time\<close>

text \<open>What the five workers amount to without threads.\<close>

definition pipe_chunk ::
  "('c, 'f, 'i) vtable \<Rightarrow> env \<Rightarrow> bytes \<Rightarrow> chunk \<Rightarrow> dedup \<times> 'f \<times> 'i \<times> writer \<Rightarrow> (dedup \<times> 'f \<times> 'i \<times> writer) option" where
  "pipe_chunk vt en buf c st =
     (case st of (d, f, i, wr) \<Rightarrow> do {
        (x1, d') \<leftarrow> ok (dedup_work buf d (context_new c));
        (x2, f') \<leftarrow> ok (feature_work vt f x1);
        (x3, i') \<leftarrow> ok (match_work vt i x2);
        wr' \<leftarrow> ok (write_work en wr x3);
        Some (d', f', i', wr')
      })"

fun pipe_chunks ::
  "('c, 'f, 'i) vtable \<Rightarrow> env \<Rightarrow> bytes \<Rightarrow> chunk list \<Rightarrow> dedup \<times> 'f \<times> 'i \<times> writer \<Rightarrow> (dedup \<times> 'f \<times> 'i \<times> writer) option" where
  "pipe_chunks vt en buf [] st = Some st"
| "pipe_chunks vt en buf (c # cs) st =
     (case pipe_chunk vt en buf c st of None \<Rightarrow> None | Some st' \<Rightarrow> pipe_chunks vt en buf cs st')"

inductive yields :: "('c, 'f, 'i) vtable \<Rightarrow> os_state \<Rightarrow> 'c \<Rightarrow> chunk list \<Rightarrow> 'c \<Rightarrow> bool"
  for vt :: "('c, 'f, 'i) vtable" and w :: os_state where
  yields_end: "vt_next vt w ch = Some (None, ch') \<Longrightarrow> yields vt w ch [] ch'"
| yields_more: "vt_next vt w ch = Some (Some c, ch1) \<Longrightarrow> yields vt w ch1 cs ch' \<Longrightarrow> yields vt w ch (c # cs) ch'"

inductive_cases yields_ConsE: "yields vt w ch (c # cs) ch'"
inductive_cases yields_NilE: "yields vt w ch [] ch'"

lemma drain_yields: "drain (vt_next vt w) fuel ch = Some (cs, ch') \<Longrightarrow> yields vt w ch cs ch'"
proof (induction fuel arbitrary: ch cs)
  case (Suc fuel)
  obtain x ch1 where n: "vt_next vt w ch = Some (x, ch1)" using Suc.prems by (auto split: option.splits)
  show ?case
  proof (cases x)
    case None
    then show ?thesis using Suc.prems n by (simp add: yields_end)
  next
    case (Some c)
    then obtain cs1 where "drain (vt_next vt w) fuel ch1 = Some (cs1, ch')" "cs = c # cs1"
      using Suc.prems n by (auto split: option.splits)
    then show ?thesis using yields_more [OF n [unfolded Some] Suc.IH] by simp
  qed
qed simp

section \<open>AddFile\<close>

text \<open>The file's record: the ids are \<open>size_t\<close> counters stored in 32 bits. A run of the five threads that
  has ended is part of the hypothesis.\<close>

inductive pipe_AddFile ::
  "('c, 'f, 'i) vtable \<Rightarrow> env \<Rightarrow> bytes \<Rightarrow> string \<Rightarrow> ('c \<times> dedup \<times> 'f \<times> 'i \<times> writer) \<times> string option \<times> os_state
    \<Rightarrow> ('c \<times> dedup \<times> 'f \<times> 'i \<times> writer) \<times> string option \<times> os_state \<Rightarrow> bool"
  for vt :: "('c, 'f, 'i) vtable" and en :: env and buf :: bytes where
  run: "vt_reinit vt name c w = (okk, c', w') \<Longrightarrow>
    (pipe_step False True vt en buf w')\<^sup>*\<^sup>* (pipe_start c' d f i wr) s \<Longrightarrow> all_finished s \<Longrightarrow>
    m = \<lparr>fm_name = name, fm_start = ucast (wr_processed wr), fm_end = ucast (wr_processed (pp_writer s) - 1)\<rparr> \<Longrightarrow>
    pipe_AddFile vt en buf name ((c, d, f, i, wr), out, w)
      ((pp_chunker s, pp_dedup s, pp_features s, pp_index s, pp_writer s), FileMetaWriter_Write m out, w')"


section \<open>Streams\<close>

text \<open>A worker as a transducer over the rest of its input, and the chunks still to come at each place of
  the pipeline.\<close>

fun run_stage :: "('s \<Rightarrow> 'x \<Rightarrow> ('y \<times> 's) option) \<Rightarrow> 's \<Rightarrow> 'x list \<Rightarrow> ('y list \<times> 's) option" where
  "run_stage g s [] = Some ([], s)"
| "run_stage g s (x # xs) =
     do { (y, s1) \<leftarrow> g s x; (ys, s2) \<leftarrow> run_stage g s1 xs; Some (y # ys, s2) }"

fun run_sink :: "('s \<Rightarrow> 'x \<Rightarrow> 's option) \<Rightarrow> 's \<Rightarrow> 'x list \<Rightarrow> 's option" where
  "run_sink g s [] = Some s"
| "run_sink g s (x # xs) = do { s1 \<leftarrow> g s x; run_sink g s1 xs }"

fun held :: "location \<Rightarrow> pipe_ctx list" where
  "held (Holding x) = [x]" | "held (FullOut x) = [x]" | "held (AsleepOut x) = [x]" | "held l = []"

fun fetched :: "location \<Rightarrow> pipe_ctx list" where
  "fetched (Fetched x) = [x]" | "fetched l = []"

text \<open>The final states of the four workers from a pipeline state and the chunks \<open>cs\<close> the chunker has left.\<close>

definition outcome_of ::
  "('c, 'f, 'i) vtable \<Rightarrow> env \<Rightarrow> bytes \<Rightarrow> ('c, 'f, 'i) pipe \<Rightarrow> chunk list \<Rightarrow> (dedup \<times> 'f \<times> 'i \<times> writer) option" where
  "outcome_of vt en buf s cs = do {
     (ys1, d) \<leftarrow> run_stage (\<lambda>d x. ok (dedup_work buf d x)) (pp_dedup s)
        (fetched (pp_loc s 1) @ pp_queue s 0 @ held (pp_loc s 0) @ map context_new cs);
     (ys2, f) \<leftarrow> run_stage (\<lambda>f x. ok (feature_work vt f x)) (pp_features s)
        (fetched (pp_loc s 2) @ pp_queue s 1 @ held (pp_loc s 1) @ ys1);
     (ys3, i) \<leftarrow> run_stage (\<lambda>i x. ok (match_work vt i x)) (pp_index s)
        (fetched (pp_loc s 3) @ pp_queue s 2 @ held (pp_loc s 2) @ ys2);
     wr \<leftarrow> run_sink (\<lambda>wr x. ok (write_work en wr x)) (pp_writer s)
        (fetched (pp_loc s 4) @ pp_queue s 3 @ held (pp_loc s 3) @ ys3);
     Some (d, f, i, wr)
   }"

fun has_ended :: "location \<Rightarrow> bool" where
  "has_ended Ended = True" | "has_ended Flagged = True" | "has_ended Finished = True" | "has_ended l = False"

fun has_flagged :: "location \<Rightarrow> bool" where
  "has_flagged Flagged = True" | "has_flagged Finished = True" | "has_flagged l = False"

fun waits_in :: "location \<Rightarrow> bool" where
  "waits_in EmptyIn = True" | "waits_in AsleepIn = True" | "waits_in l = False"

fun waits_out :: "location \<Rightarrow> bool" where
  "waits_out (FullOut x) = True" | "waits_out (AsleepOut x) = True" | "waits_out l = False"

lemma wake_simps [simp]:
  "held (wake_in l) = held l" "held (wake_out l) = held l" "fetched (wake_in l) = fetched l" "fetched (wake_out l) = fetched l"
  "has_ended (wake_in l) = has_ended l" "has_ended (wake_out l) = has_ended l"
  "has_flagged (wake_in l) = has_flagged l" "has_flagged (wake_out l) = has_flagged l"
  "waits_out (wake_in l) = waits_out l" "waits_in (wake_out l) = waits_in l"
  "waits_in (wake_in l) = (l = EmptyIn)" "waits_out (wake_out l) = (\<exists>x. l = FullOut x)"
  "wake_in l = EmptyIn \<longleftrightarrow> l = EmptyIn" "wake_out l = EmptyIn \<longleftrightarrow> l = EmptyIn" "wake_in l \<noteq> AsleepIn"
  "wake_out l = AsleepIn \<longleftrightarrow> l = AsleepIn" "wake_in l = Flagged \<longleftrightarrow> l = Flagged" "wake_out l = Flagged \<longleftrightarrow> l = Flagged"
  "wake_in l = Finished \<longleftrightarrow> l = Finished" "wake_out l = Finished \<longleftrightarrow> l = Finished"
  "wake_in l = Ended \<longleftrightarrow> l = Ended" "wake_out l = Ended \<longleftrightarrow> l = Ended"
  by (cases l; simp)+

text \<open>What holds of every reachable state, at each queue: it is within its bound, its flag is set exactly
  when its producer has set it, it is empty when its consumer waits on it or has ended, the consumer has
  ended only after the flag, and it is full when its producer waits on it.\<close>

definition queue_inv :: "('c, 'f, 'i) pipe \<Rightarrow> nat \<Rightarrow> bool" where
  "queue_inv s i \<longleftrightarrow> length (pp_queue s i) \<le> max_queue_len \<and> (pp_done s i \<longleftrightarrow> has_flagged (pp_loc s i)) \<and>
     (has_ended (pp_loc s (Suc i)) \<longrightarrow> pp_done s i \<and> pp_queue s i = []) \<and>
     (waits_in (pp_loc s (Suc i)) \<longrightarrow> pp_queue s i = []) \<and>
     (waits_out (pp_loc s i) \<longrightarrow> length (pp_queue s i) = max_queue_len)"

definition ends_inv :: "('c, 'f, 'i) pipe \<Rightarrow> bool" where
  "ends_inv s \<longleftrightarrow> fetched (pp_loc s 0) = [] \<and> \<not> waits_in (pp_loc s 0) \<and> held (pp_loc s 4) = [] \<and>
     pp_loc s 4 \<noteq> Ended \<and> pp_loc s 4 \<noteq> Flagged"

definition pipe_inv :: "('c, 'f, 'i) vtable \<Rightarrow> os_state \<Rightarrow> ('c, 'f, 'i) pipe \<Rightarrow> chunk list \<Rightarrow> 'c \<Rightarrow> bool" where
  "pipe_inv vt w s cs ch \<longleftrightarrow>
     (if has_ended (pp_loc s 0) then cs = [] \<and> pp_chunker s = ch else yields vt w (pp_chunker s) cs ch) \<and>
     (\<forall>i < 4. queue_inv s i) \<and> ends_inv s"

text \<open>The steps still to be made: thirteen per chunk from the chunker to the store, and those of each thread
  to end; and beside them what a thread may do in vain, a test of its predicate and going to sleep.\<close>

fun ending :: "location \<Rightarrow> nat" where
  "ending Finished = 0" | "ending Flagged = 1" | "ending Ended = 2" | "ending l = 3"

fun in_vain :: "location \<Rightarrow> nat" where
  "in_vain Idle = 2" | "in_vain (Holding x) = 2" | "in_vain EmptyIn = 1" | "in_vain (FullOut x) = 1" | "in_vain l = 0"

definition steps_left :: "('c, 'f, 'i) pipe \<Rightarrow> chunk list \<Rightarrow> nat" where
  "steps_left s cs =
     13 * length cs + 12 * length (held (pp_loc s 0)) + 11 * length (pp_queue s 0) +
     10 * length (fetched (pp_loc s 1)) + 9 * length (held (pp_loc s 1)) + 8 * length (pp_queue s 1) +
     7 * length (fetched (pp_loc s 2)) + 6 * length (held (pp_loc s 2)) + 5 * length (pp_queue s 2) +
     4 * length (fetched (pp_loc s 3)) + 3 * length (held (pp_loc s 3)) + 2 * length (pp_queue s 3) +
     length (fetched (pp_loc s 4)) +
     (ending (pp_loc s 0) + ending (pp_loc s 1) + ending (pp_loc s 2) + ending (pp_loc s 3) + ending (pp_loc s 4))"

definition vain_left :: "('c, 'f, 'i) pipe \<Rightarrow> nat" where
  "vain_left s = in_vain (pp_loc s 0) + in_vain (pp_loc s 1) + in_vain (pp_loc s 2) + in_vain (pp_loc s 3) + in_vain (pp_loc s 4)"

definition work_left :: "('c, 'f, 'i) pipe \<Rightarrow> chunk list \<Rightarrow> nat" where
  "work_left s cs = 5 * steps_left s cs + vain_left s"

lemma ending_wake [simp]: "ending (wake_in l) = ending l" "ending (wake_out l) = ending l"
  by (cases l; simp)+

lemma in_vain_wake: "in_vain (wake_in l) \<le> in_vain l + 2" "in_vain (wake_out l) \<le> in_vain l + 2"
  by (cases l; simp)+

lemma nat_less_5: "(\<forall>i < (5::nat). P i) \<longleftrightarrow> P 0 \<and> P 1 \<and> P 2 \<and> P 3 \<and> P 4"
  by (simp add: numeral_eq_Suc less_Suc_eq all_conj_distrib imp_conjL)

lemma nat_less_4: "(\<forall>i < (4::nat). P i) \<longleftrightarrow> P 0 \<and> P 1 \<and> P 2 \<and> P 3"
  by (simp add: numeral_eq_Suc less_Suc_eq all_conj_distrib imp_conjL)

lemma less_4_cases: "(i::nat) < 4 \<Longrightarrow> i = 0 \<or> i = 1 \<or> i = 2 \<or> i = 3"
  by linarith

lemma Suc_num: "Suc (Suc 0) = 2" "Suc 1 = 2" "Suc 2 = 3" "Suc 3 = 4"
  by simp_all

lemma okI: "r = Some (Inr x) \<Longrightarrow> ok r = Some x"
  by (simp add: ok_def)

lemma queue_inv_step:
  assumes st: "pipe_step locked sp vt en buf w s s'" and q: "\<forall>i < 4. queue_inv s i" and j: "j < 4"
  shows "queue_inv s' j"
proof -
  have qj: "queue_inv s j" using q j by blast
  from st show ?thesis
  proof (cases rule: pipe_step.cases)
    case (put i x)
    then show ?thesis using qj by (auto simp: queue_inv_def notify_all_def lock_free_def max_queue_len_def)
  next
    case (fetch_next i x xs)
    then show ?thesis using qj by (auto simp: queue_inv_def notify_all_def lock_free_def)
  next
    case (finish i)
    define l where "l = (if i = 3 then Finished else Ended)"
    have l: "has_ended l" "j = Suc i \<Longrightarrow> l = Ended" "\<not> waits_in l" "\<not> waits_out l" "wake_in l = l"
      using j by (auto simp: l_def)
    show ?thesis using finish(1,3-6) qj l unfolding l_def [symmetric] by (auto simp: queue_inv_def notify_all_def lock_free_def)
  next
    case (flag_notify i)
    then show ?thesis using qj by (auto simp: queue_inv_def notify_all_def)
  next
    case (put_full i x)
    then show ?thesis using qj by (auto simp: queue_inv_def)
  qed (use qj j in \<open>auto simp: queue_inv_def\<close>)
qed

lemma ends_inv_step:
  assumes "pipe_step locked sp vt en buf w s s'" "ends_inv s"
  shows "ends_inv s'"
  using assms by (cases rule: pipe_step.cases) (auto simp: ends_inv_def notify_all_def)

text \<open>What a step does to the chunks still to come and to the work left.\<close>

lemma work_step:
  assumes st: "pipe_step locked sp vt en buf w s s'" and inv: "pipe_inv vt w s cs ch"
  shows "\<exists>cs'. (if has_ended (pp_loc s' 0) then cs' = [] \<and> pp_chunker s' = ch else yields vt w (pp_chunker s') cs' ch) \<and>
    outcome_of vt en buf s' cs' = outcome_of vt en buf s cs \<and> (\<not> sp \<longrightarrow> work_left s' cs' < work_left s cs)"
proof -
  have c: "if has_ended (pp_loc s 0) then cs = [] \<and> pp_chunker s = ch else yields vt w (pp_chunker s) cs ch"
    using inv unfolding pipe_inv_def by blast
  note defs = outcome_of_def work_left_def steps_left_def vain_left_def
  from st show ?thesis
  proof (cases rule: pipe_step.cases)
    case (produce c1 ch1)
    then have "yields vt w (pp_chunker s) cs ch" using c by simp
    then obtain cs1 where "cs = c1 # cs1" "yields vt w ch1 cs1 ch" using produce(3) by (cases rule: yields.cases) auto
    then show ?thesis using produce by (intro exI [of _ cs1]) (simp add: defs)
  next
    case (produce_end ch1)
    then have "yields vt w (pp_chunker s) cs ch" using c by simp
    then have "cs = [] \<and> ch1 = ch" using produce_end(3) by (cases rule: yields.cases) auto
    then show ?thesis using produce_end by (intro exI [of _ "[]"]) (simp add: defs)
  next
    case (put i x)
    from less_4_cases [OF put(2)] put c in_vain_wake(1) [of "pp_loc s (Suc i)"] show ?thesis
      by (intro exI [of _ cs]) (elim disjE; simp add: defs notify_all_def Suc_num)
  next
    case (put_full i x)
    from less_4_cases [OF put_full(2)] put_full c show ?thesis
      by (intro exI [of _ cs]) (elim disjE; simp add: defs Suc_num)
  next
    case (put_sleep i x)
    from less_4_cases [OF put_sleep(2)] put_sleep c show ?thesis
      by (intro exI [of _ cs]) (elim disjE; simp add: defs Suc_num)
  next
    case (fetch_next i x xs)
    from less_4_cases [OF fetch_next(2)] fetch_next c in_vain_wake(2) [of "pp_loc s i"] show ?thesis
      by (intro exI [of _ cs]) (elim disjE; simp add: defs notify_all_def Suc_num)
  next
    case (finish i)
    from less_4_cases [OF finish(2)] finish c in_vain_wake(2) [of "pp_loc s i"] show ?thesis
      by (intro exI [of _ cs]) (elim disjE; simp add: defs notify_all_def Suc_num)
  next
    case (fetch_empty i)
    from less_4_cases [OF fetch_empty(2)] fetch_empty c show ?thesis
      by (intro exI [of _ cs]) (elim disjE; simp add: defs Suc_num)
  next
    case (fetch_sleep i)
    from less_4_cases [OF fetch_sleep(2)] fetch_sleep c show ?thesis
      by (intro exI [of _ cs]) (elim disjE; simp add: defs Suc_num)
  next
    case (set_flag i)
    from less_4_cases [OF set_flag(2)] set_flag c show ?thesis
      by (intro exI [of _ cs]) (elim disjE; simp add: defs Suc_num)
  next
    case (flag_notify i)
    from less_4_cases [OF flag_notify(2)] flag_notify c in_vain_wake(1) [of "pp_loc s (Suc i)"] show ?thesis
      by (intro exI [of _ cs]) (elim disjE; simp add: defs notify_all_def Suc_num)
  next
    case (spurious_in i)
    from less_4_cases [OF spurious_in(3)] spurious_in c show ?thesis
      by (intro exI [of _ cs]) (elim disjE; simp add: defs Suc_num)
  next
    case (spurious_out i x)
    from less_4_cases [OF spurious_out(3)] spurious_out c show ?thesis
      by (intro exI [of _ cs]) (elim disjE; simp add: defs Suc_num)
  qed (use c in \<open>intro exI [of _ cs]; simp add: defs okI bind_assoc case_prod_beta'\<close>)+
qed

lemma pipe_inv_step:
  assumes "pipe_step locked sp vt en buf w s s'" "pipe_inv vt w s cs ch"
  shows "\<exists>cs'. pipe_inv vt w s' cs' ch \<and> outcome_of vt en buf s' cs' = outcome_of vt en buf s cs \<and>
    (\<not> sp \<longrightarrow> work_left s' cs' < work_left s cs)"
proof -
  have "\<forall>i < 4. queue_inv s' i" "ends_inv s'"
    using assms queue_inv_step ends_inv_step unfolding pipe_inv_def by metis+
  with work_step [OF assms] show ?thesis unfolding pipe_inv_def by blast
qed

lemma pipe_inv_start:
  assumes "yields vt w c cs ch"
  shows "pipe_inv vt w (pipe_start c d f i wr) cs ch"
  using assms by (simp add: pipe_inv_def pipe_start_def queue_inv_def ends_inv_def max_queue_len_def)

lemma pipe_reach:
  assumes "(pipe_step locked sp vt en buf w ^^ n) s0 s" "pipe_inv vt w s0 cs0 ch"
  shows "\<exists>cs. pipe_inv vt w s cs ch \<and> outcome_of vt en buf s cs = outcome_of vt en buf s0 cs0 \<and>
    (\<not> sp \<longrightarrow> n + work_left s cs \<le> work_left s0 cs0)"
  using assms(1)
proof (induction n arbitrary: s)
  case 0
  then show ?case using assms(2) by auto
next
  case (Suc n)
  from Suc.prems obtain s1 where 1: "(pipe_step locked sp vt en buf w ^^ n) s0 s1" "pipe_step locked sp vt en buf w s1 s" by auto
  from Suc.IH [OF 1(1)] obtain cs1 where c1: "pipe_inv vt w s1 cs1 ch"
    "outcome_of vt en buf s1 cs1 = outcome_of vt en buf s0 cs0" "\<not> sp \<longrightarrow> n + work_left s1 cs1 \<le> work_left s0 cs0" by blast
  from pipe_inv_step [OF 1(2) c1(1)] c1 show ?case by fastforce
qed

lemma outcome_finished:
  assumes "pipe_inv vt w s cs ch" "all_finished s"
  shows "outcome_of vt en buf s cs = Some (pp_dedup s, pp_features s, pp_index s, pp_writer s) \<and> pp_chunker s = ch"
proof -
  have f: "pp_loc s 0 = Finished" "pp_loc s 1 = Finished" "pp_loc s 2 = Finished" "pp_loc s 3 = Finished" "pp_loc s 4 = Finished"
    using assms(2) by (simp_all add: all_finished_def)
  then have "cs = []" "pp_chunker s = ch" using assms(1) by (auto simp: pipe_inv_def)
  moreover have "pp_queue s 0 = []" "pp_queue s 1 = []" "pp_queue s 2 = []" "pp_queue s 3 = []"
    using assms(1) f by (auto simp: pipe_inv_def queue_inv_def nat_less_4 Suc_num)
  ultimately show ?thesis using f by (simp add: outcome_of_def)
qed

section \<open>The threads compute the sequential result\<close>

definition staged ::
  "('c, 'f, 'i) vtable \<Rightarrow> env \<Rightarrow> bytes \<Rightarrow> chunk list \<Rightarrow> dedup \<times> 'f \<times> 'i \<times> writer \<Rightarrow> (dedup \<times> 'f \<times> 'i \<times> writer) option" where
  "staged vt en buf cs st = (case st of (d0, f0, i0, wr0) \<Rightarrow> do {
     (ys1, d) \<leftarrow> run_stage (\<lambda>d x. ok (dedup_work buf d x)) d0 (map context_new cs);
     (ys2, f) \<leftarrow> run_stage (\<lambda>f x. ok (feature_work vt f x)) f0 ys1;
     (ys3, i) \<leftarrow> run_stage (\<lambda>i x. ok (match_work vt i x)) i0 ys2;
     wr \<leftarrow> run_sink (\<lambda>wr x. ok (write_work en wr x)) wr0 ys3;
     Some (d, f, i, wr)
   })"

lemma staged_Cons: "staged vt en buf (c # cs) st = (case pipe_chunk vt en buf c st of None \<Rightarrow> None | Some st' \<Rightarrow> staged vt en buf cs st')"
proof -
  obtain d f i wr where st: "st = (d, f, i, wr)" by (cases st)
  show ?thesis
  proof (cases "ok (dedup_work buf d (context_new c))")
    case None
    then show ?thesis by (simp add: st staged_def pipe_chunk_def)
  next
    case (Some yd)
    obtain y1 d1 where yd: "ok (dedup_work buf d (context_new c)) = Some (y1, d1)" using Some by (cases yd) auto
    show ?thesis
    proof (cases "ok (feature_work vt f y1)")
      case None
      then show ?thesis by (simp add: st staged_def pipe_chunk_def yd case_prod_beta')
    next
      case (Some yf)
      obtain y2 f1 where yf: "ok (feature_work vt f y1) = Some (y2, f1)" using Some by (cases yf) auto
      show ?thesis
      proof (cases "ok (match_work vt i y2)")
        case None
        then show ?thesis by (simp add: st staged_def pipe_chunk_def yd yf case_prod_beta')
      next
        case (Some yi)
        obtain y3 i1 where yi: "ok (match_work vt i y2) = Some (y3, i1)" using Some by (cases yi) auto
        show ?thesis
          by (cases "ok (write_work en wr y3)") (simp_all add: st staged_def pipe_chunk_def yd yf yi case_prod_beta')
      qed
    qed
  qed
qed

lemma staged_chunks: "staged vt en buf cs st = pipe_chunks vt en buf cs st"
proof (induction cs arbitrary: st)
  case Nil
  then show ?case by (cases st) (simp add: staged_def)
next
  case (Cons c cs)
  then show ?case by (simp add: staged_Cons split: option.split)
qed

lemma outcome_start: "outcome_of vt en buf (pipe_start c d f i wr) cs = pipe_chunks vt en buf cs (d, f, i, wr)"
  by (simp add: outcome_of_def pipe_start_def staged_chunks [symmetric] staged_def)

text \<open>C29: the pipeline computes what one thread would: however its five threads interleave, a run that has
  ended leaves the deduplication map, the index, the store and the counters exactly as processing the
  chunks one after another does, and the chunker drained.\<close>

theorem pipeline_sequential:
  assumes "yields vt w c cs ch" "(pipe_step locked sp vt en buf w)\<^sup>*\<^sup>* (pipe_start c d f i wr) s" "all_finished s"
  shows "pipe_chunks vt en buf cs (d, f, i, wr) = Some (pp_dedup s, pp_features s, pp_index s, pp_writer s) \<and>
    pp_chunker s = ch"
proof -
  obtain n where "(pipe_step locked sp vt en buf w ^^ n) (pipe_start c d f i wr) s" using assms(2) rtranclp_imp_relpowp by metis
  from pipe_reach [OF this pipe_inv_start [OF assms(1)]] obtain cs' where
    "pipe_inv vt w s cs' ch" "outcome_of vt en buf s cs' = outcome_of vt en buf (pipe_start c d f i wr) cs" by blast
  with outcome_finished [OF this(1) assms(3), of en buf] show ?thesis by (simp add: outcome_start)
qed

section \<open>No deadlock but a lost wakeup\<close>

text \<open>A consumer that sleeps although its producer has set the flag, notified and returned.\<close>

definition pipe_lost :: "('c, 'f, 'i) pipe \<Rightarrow> bool" where
  "pipe_lost s \<longleftrightarrow> (\<exists>i < 4. pp_loc s (Suc i) = AsleepIn \<and> pp_queue s i = [] \<and> pp_done s i \<and> pp_loc s i = Finished)"

text \<open>A thread that holds the lock of a queue can go to sleep, so the lock is no obstacle to a step.\<close>

lemma lock_moves:
  assumes "i < 4" "\<not> lock_free i (pp_loc s)"
  shows "\<exists>s'. pipe_step locked sp vt en buf w s s'"
  using assms pipe_step.put_sleep [OF assms(1), of s] pipe_step.fetch_sleep [OF assms(1), of s]
  unfolding lock_free_def by blast

lemma okD: "ok r \<noteq> None \<Longrightarrow> \<exists>x. r = Some (Inr x)"
  by (cases r) (auto simp: ok_def split: sum.splits)

lemma worker_moves:
  assumes nf: "\<not> pipe_fault vt en buf w s" and i: "i < 4" "pp_loc s (Suc i) = Fetched x"
  shows "\<exists>s'. pipe_step locked sp vt en buf w s s'"
proof -
  consider "Suc i = 1" | "Suc i = 2" | "Suc i = 3" | "Suc i = 4" using i by linarith
  then show ?thesis
  proof cases
    case 1
    have l: "pp_loc s 1 = Fetched x" using i(2) unfolding \<open>Suc i = 1\<close> .
    then have "ok (dedup_work buf (pp_dedup s) x) \<noteq> None" using nf by (auto simp: pipe_fault_def)
    then obtain y d where "dedup_work buf (pp_dedup s) x = Some (Inr (y, d))" using okD by (metis surj_pair)
    with pipe_step.do_dedup [OF l] show ?thesis by blast
  next
    case 2
    have l: "pp_loc s 2 = Fetched x" using i(2) unfolding \<open>Suc i = 2\<close> .
    then have "ok (feature_work vt (pp_features s) x) \<noteq> None" using nf by (auto simp: pipe_fault_def)
    then obtain y f where "feature_work vt (pp_features s) x = Some (Inr (y, f))" using okD by (metis surj_pair)
    with pipe_step.do_feature [OF l] show ?thesis by blast
  next
    case 3
    have l: "pp_loc s 3 = Fetched x" using i(2) unfolding \<open>Suc i = 3\<close> .
    then have "ok (match_work vt (pp_index s) x) \<noteq> None" using nf by (auto simp: pipe_fault_def)
    then obtain y ix where "match_work vt (pp_index s) x = Some (Inr (y, ix))" using okD by (metis surj_pair)
    with pipe_step.do_match [OF l] show ?thesis by blast
  next
    case 4
    have l: "pp_loc s 4 = Fetched x" using i(2) unfolding \<open>Suc i = 4\<close> .
    then have "ok (write_work en (pp_writer s) x) \<noteq> None" using nf by (auto simp: pipe_fault_def)
    then obtain wr where "write_work en (pp_writer s) x = Some (Inr wr)" using okD by metis
    with pipe_step.do_write [OF l] show ?thesis by blast
  qed
qed

lemma thread_moves:
  assumes inv: "pipe_inv vt w s cs ch" and nf: "\<not> pipe_fault vt en buf w s"
  shows "i \<le> 4 \<Longrightarrow> pp_loc s i \<noteq> Finished \<Longrightarrow> i = 4 \<or> length (pp_queue s i) < max_queue_len \<Longrightarrow>
    (\<exists>s'. pipe_step locked sp vt en buf w s s') \<or> pipe_lost s"
proof (induction i)
  case 0
  then have e: "fetched (pp_loc s 0) = []" "\<not> waits_in (pp_loc s 0)" "queue_inv s 0"
    using inv by (auto simp: pipe_inv_def ends_inv_def)
  have l: "(0 :: nat) < 4" by simp
  show ?case
  proof (cases "pp_loc s 0")
    case Idle
    then obtain x ch1 where n: "vt_next vt w (pp_chunker s) = Some (x, ch1)" using nf by (auto simp: pipe_fault_def)
    show ?thesis
      using n pipe_step.produce_end [OF Idle] pipe_step.produce [OF Idle] by (cases x) blast+
  next
    case (Holding x)
    have "length (pp_queue s 0) < max_queue_len" using 0 by simp
    then show ?thesis using pipe_step.put [OF l Holding] lock_moves [OF l] by blast
  next
    case (FullOut x)
    then have "\<not> lock_free 0 (pp_loc s)" by (simp add: lock_free_def)
    then show ?thesis using lock_moves [OF l] by blast
  next
    case Ended
    then show ?thesis using pipe_step.set_flag [OF l Ended] lock_moves [OF l] by blast
  next
    case Flagged
    then show ?thesis using pipe_step.flag_notify [OF l Flagged] by blast
  qed (use e 0 in \<open>auto simp: queue_inv_def\<close>)
next
  case (Suc i)
  then have i: "i < 4" by simp
  then have q: "queue_inv s i" using inv by (simp add: pipe_inv_def)
  have four: "held (pp_loc s 4) = []" "pp_loc s 4 \<noteq> Ended" "pp_loc s 4 \<noteq> Flagged" using inv by (auto simp: pipe_inv_def ends_inv_def)
  show ?case
  proof (cases "pp_loc s (Suc i)")
    case Idle
    show ?thesis
    proof (cases "lock_free i (pp_loc s)")
      case free: True
      show ?thesis
      proof (cases "pp_queue s i")
        case Nil
        with pipe_step.finish [OF i Idle free Nil] pipe_step.fetch_empty [OF i Idle free Nil] show ?thesis by blast
      next
        case (Cons x xs)
        from pipe_step.fetch_next [OF i Idle free Cons] show ?thesis by blast
      qed
    qed (use lock_moves [OF i] in blast)
  next
    case EmptyIn
    then show ?thesis using pipe_step.fetch_sleep [OF i] by blast
  next
    case AsleepIn
    then have e: "pp_queue s i = []" "pp_done s i \<longleftrightarrow> has_flagged (pp_loc s i)" using q by (auto simp: queue_inv_def)
    show ?thesis
    proof (cases "pp_loc s i = Finished")
      case True
      then have "pp_done s i" using e(2) by simp
      then show ?thesis using i AsleepIn e True by (auto simp: pipe_lost_def)
    next
      case False
      then show ?thesis using Suc.IH i e(1) by (simp add: max_queue_len_def)
    qed
  next
    case (Fetched x)
    then show ?thesis using worker_moves [OF nf i] by blast
  next
    case (Holding x)
    have l: "Suc i < 4"
    proof -
      have "Suc i \<noteq> 4" using Holding four(1) by auto
      then show ?thesis using i by simp
    qed
    then have "length (pp_queue s (Suc i)) < max_queue_len" using Suc.prems(3) by simp
    then show ?thesis
      using pipe_step.put [OF l Holding] lock_moves [OF l] by blast
  next
    case (FullOut x)
    have "Suc i \<noteq> 4" using FullOut four(1) by auto
    then have "Suc i < 4" using i by simp
    then show ?thesis using pipe_step.put_sleep [OF _ FullOut] by blast
  next
    case (AsleepOut x)
    have "Suc i \<noteq> 4" using AsleepOut four(1) by auto
    then have "Suc i < 4" using i by simp
    then have "queue_inv s (Suc i)" "length (pp_queue s (Suc i)) < max_queue_len" using inv Suc.prems(3) by (auto simp: pipe_inv_def)
    then show ?thesis using AsleepOut by (simp add: queue_inv_def)
  next
    case Ended
    have "Suc i \<noteq> 4" using Ended four(2) by auto
    then have "Suc i < 4" using i by simp
    then show ?thesis using pipe_step.set_flag [OF _ Ended] lock_moves by blast
  next
    case Flagged
    have "Suc i \<noteq> 4" using Flagged four(3) by auto
    then have "Suc i < 4" using i by simp
    then show ?thesis using pipe_step.flag_notify [OF _ Flagged] by blast
  qed (use Suc in simp)
qed

text \<open>When the last thread has finished, the others have set their flags; and one that has not notified can.\<close>

lemma last_finished:
  assumes inv: "pipe_inv vt w s cs ch" and l: "pp_loc s 4 = Finished"
  shows "all_finished s \<or> (\<exists>s'. pipe_step locked sp vt en buf w s s')"
proof -
  have f: "has_flagged (pp_loc s i)" if "i < 4" for i
  proof -
    have st: "has_flagged (pp_loc s i)" if "i < 4" "has_flagged (pp_loc s (Suc i))" for i
    proof -
      have "has_ended (pp_loc s (Suc i))" using that(2) by (cases "pp_loc s (Suc i)") auto
      then show ?thesis using inv that(1) by (auto simp: pipe_inv_def queue_inv_def)
    qed
    have 3: "has_flagged (pp_loc s 3)" using st [of 3] l by simp
    have 2: "has_flagged (pp_loc s 2)" using st [of 2] 3 by simp
    have 1: "has_flagged (pp_loc s 1)" using st [of 1] 2 by (simp add: Suc_num)
    have "has_flagged (pp_loc s 0)" using st [of 0] 1 by simp
    then show ?thesis using 1 2 3 less_4_cases [OF that] by blast
  qed
  show ?thesis
  proof (cases "\<exists>i < 4. pp_loc s i = Flagged")
    case True
    then show ?thesis using pipe_step.flag_notify by blast
  next
    case False
    have fin: "pp_loc s i = Finished" if "i < 4" for i
      using f [OF that] False that by (cases "pp_loc s i") auto
    have "i = 4" if "\<not> i < 4" "i < 5" for i :: nat using that by simp
    then have "all_finished s" using fin l unfolding all_finished_def by metis
    then show ?thesis ..
  qed
qed

lemma stuck_states:
  assumes "pipe_inv vt w s cs ch" "\<not> pipe_fault vt en buf w s" "\<nexists>s'. pipe_step locked sp vt en buf w s s'"
  shows "all_finished s \<or> pipe_lost s"
  using thread_moves [OF assms(1,2), of 4 locked sp] last_finished [OF assms(1), of locked sp en buf] assms(3) by blast

text \<open>With the lock held for the flag no wakeup is lost.\<close>

definition flag_inv :: "('c, 'f, 'i) pipe \<Rightarrow> bool" where
  "flag_inv s \<longleftrightarrow> (\<forall>i < 4. pp_done s i \<longrightarrow> pp_loc s (Suc i) \<noteq> EmptyIn \<and> (pp_loc s (Suc i) = AsleepIn \<longrightarrow> pp_loc s i = Flagged))"

lemma flag_inv_step:
  assumes st: "pipe_step True sp vt en buf w s s'" and f: "flag_inv s" and q: "\<forall>i < 4. queue_inv s i"
  shows "flag_inv s'"
  unfolding flag_inv_def
proof (intro allI impI)
  fix j assume j: "j < (4 :: nat)" "pp_done s' j"
  have fj: "pp_done s j \<Longrightarrow> pp_loc s (Suc j) \<noteq> EmptyIn \<and> (pp_loc s (Suc j) = AsleepIn \<longrightarrow> pp_loc s j = Flagged)"
    using f j(1) by (simp add: flag_inv_def)
  have qj: "pp_done s j \<longleftrightarrow> has_flagged (pp_loc s j)" using q j(1) by (simp add: queue_inv_def)
  show "pp_loc s' (Suc j) \<noteq> EmptyIn \<and> (pp_loc s' (Suc j) = AsleepIn \<longrightarrow> pp_loc s' j = Flagged)"
    using st
  proof (cases rule: pipe_step.cases)
    case (finish i)
    define l where "l = (if i = 3 then Finished else Ended)"
    have l: "l \<noteq> EmptyIn" "l \<noteq> AsleepIn" "wake_in l = l" by (auto simp: l_def)
    show ?thesis using finish(1,3-6) fj qj j(2) l unfolding l_def [symmetric] by (auto simp: notify_all_def lock_free_def)
  qed (use fj qj j(2) in \<open>auto simp: notify_all_def lock_free_def\<close>)
qed

lemma flag_inv_reach:
  assumes "(pipe_step True sp vt en buf w ^^ n) (pipe_start c d f i wr) s" "yields vt w c cs ch"
  shows "flag_inv s"
  using assms(1)
proof (induction n arbitrary: s)
  case 0
  then have "s = pipe_start c d f i wr" by simp
  then show ?case by (simp add: flag_inv_def pipe_start_def)
next
  case (Suc n)
  then obtain s1 where 1: "(pipe_step True sp vt en buf w ^^ n) (pipe_start c d f i wr) s1" "pipe_step True sp vt en buf w s1 s" by auto
  from pipe_reach [OF 1(1) pipe_inv_start [OF assms(2)]] have "\<forall>i < 4. queue_inv s1 i" by (auto simp: pipe_inv_def)
  with flag_inv_step [OF 1(2) Suc.IH [OF 1(1)]] show ?case by blast
qed

lemma locked_not_lost: "flag_inv s \<Longrightarrow> \<not> pipe_lost s"
  by (auto simp: flag_inv_def pipe_lost_def)

text \<open>A worker that fails makes the sequential result fail.\<close>

lemma fault_outcome:
  assumes "pipe_inv vt w s cs ch" "pipe_fault vt en buf w s"
  shows "outcome_of vt en buf s cs = None"
proof -
  consider (c) "pp_loc s 0 = Idle" "vt_next vt w (pp_chunker s) = None"
    | (1) x where "pp_loc s 1 = Fetched x" "ok (dedup_work buf (pp_dedup s) x) = None"
    | (2) x where "pp_loc s 2 = Fetched x" "ok (feature_work vt (pp_features s) x) = None"
    | (3) x where "pp_loc s 3 = Fetched x" "ok (match_work vt (pp_index s) x) = None"
    | (4) x where "pp_loc s 4 = Fetched x" "ok (write_work en (pp_writer s) x) = None"
    using assms(2) by (auto simp: pipe_fault_def)
  then show ?thesis
  proof cases
    case c
    then have "yields vt w (pp_chunker s) cs ch" using assms(1) by (simp add: pipe_inv_def)
    then show ?thesis using c(2) by (cases rule: yields.cases) simp_all
  qed (simp_all add: outcome_of_def case_prod_beta')
qed

lemma work_start: "work_left (pipe_start c d f i wr) cs = 65 * length cs + 85"
  by (simp add: work_left_def steps_left_def vain_left_def pipe_start_def)

text \<open>C30: the pipeline always ends, and the one deadlock it has is a lost wakeup. With chunks whose
  sequential processing succeeds, and without spurious wakeups, a run makes at most 65 steps per chunk and
  85 more, those in vain included; and in a state from which no thread can move either every thread has
  returned, with the sequential result, or a consumer sleeps on an empty queue whose producer has set the
  flag, notified and returned. The latter happens only because \<open>task_done\<close> sets the flag without the
  lock: had it taken the lock, every such state would be a finished one.\<close>

theorem pipeline_ends:
  assumes "yields vt w c cs ch" "pipe_chunks vt en buf cs (d, f, i, wr) = Some r"
    and "(pipe_step locked False vt en buf w ^^ n) (pipe_start c d f i wr) s"
  shows "n \<le> 65 * length cs + 85 \<and>
    ((\<nexists>s'. pipe_step locked False vt en buf w s s') \<longrightarrow>
       all_finished s \<and> (pp_dedup s, pp_features s, pp_index s, pp_writer s) = r \<or>
       \<not> locked \<and> (\<exists>k < 4. pp_loc s (Suc k) = AsleepIn \<and> pp_queue s k = [] \<and> pp_done s k \<and> pp_loc s k = Finished))"
proof -
  from pipe_reach [OF assms(3) pipe_inv_start [OF assms(1)]] obtain cs' where
    p: "pipe_inv vt w s cs' ch" "outcome_of vt en buf s cs' = Some r" "n + work_left s cs' \<le> 65 * length cs + 85"
    using assms(2) by (auto simp: outcome_start work_start)
  have nf: "\<not> pipe_fault vt en buf w s" using fault_outcome [OF p(1), of en buf] p(2) by auto
  have "\<not> pipe_lost s" if locked
  proof -
    from that have "(pipe_step True False vt en buf w ^^ n) (pipe_start c d f i wr) s" using assms(3) by simp
    from flag_inv_reach [OF this assms(1)] show ?thesis by (rule locked_not_lost)
  qed
  then show ?thesis
    using stuck_states [OF p(1) nf, of locked False] outcome_finished [OF p(1), of en buf] p(2,3)
    by (auto simp: pipe_lost_def)
qed

text \<open>A run that ends: the longest one in which the flag is set under the lock is one of the program's.\<close>

lemma step_mono:
  "pipe_step locked sp vt en buf w s s' \<Longrightarrow> locked' \<longrightarrow> locked \<Longrightarrow> sp \<longrightarrow> sp' \<Longrightarrow> pipe_step locked' sp' vt en buf w s s'"
  by (induction rule: pipe_step.induct) (blast intro: pipe_step.intros)+

lemma run_mono:
  "(pipe_step True sp vt en buf w ^^ n) s s' \<Longrightarrow> (pipe_step locked sp vt en buf w ^^ n) s s'"
proof (induction n arbitrary: s')
  case (Suc n)
  then obtain s1 where "(pipe_step True sp vt en buf w ^^ n) s s1" "pipe_step True sp vt en buf w s1 s'" by auto
  then show ?case using Suc.IH step_mono [of True sp vt en buf w s1 s' locked sp] by auto
qed simp

lemma pipeline_run_exists:
  assumes y: "yields vt w c cs ch" and r: "pipe_chunks vt en buf cs (d, f, i, wr) = Some r"
  shows "\<exists>n s. (pipe_step locked False vt en buf w ^^ n) (pipe_start c d f i wr) s \<and> all_finished s"
proof -
  let ?P = "\<lambda>n. \<exists>s. (pipe_step True False vt en buf w ^^ n) (pipe_start c d f i wr) s"
  have b: "n \<le> 65 * length cs + 85" if "?P n" for n
    using that pipe_reach [where locked = True and sp = False, OF _ pipe_inv_start [OF y]] work_start [of c d f i wr cs] by fastforce
  have "?P 0" by simp
  from GreatestI_nat [of ?P, OF this] b obtain m where m: "?P m" "\<forall>n. ?P n \<longrightarrow> n \<le> m"
    using Greatest_le_nat [of ?P] by blast
  then obtain s where s: "(pipe_step True False vt en buf w ^^ m) (pipe_start c d f i wr) s" by blast
  have stuck: "\<nexists>s'. pipe_step True False vt en buf w s s'"
  proof
    assume "\<exists>s'. pipe_step True False vt en buf w s s'"
    then have "?P (Suc m)" using s by (auto intro: relpowp_Suc_I)
    then show False using m(2) by fastforce
  qed
  from pipe_reach [OF s pipe_inv_start [OF y]] obtain cs' where
    p: "pipe_inv vt w s cs' ch" "outcome_of vt en buf s cs' = Some r" using r by (auto simp: outcome_start)
  have "\<not> pipe_fault vt en buf w s" using fault_outcome [OF p(1), of en buf] p(2) by auto
  from stuck_states [OF p(1) this stuck] have "all_finished s"
    using locked_not_lost flag_inv_reach [OF s y] by blast
  then show ?thesis using run_mono [OF s] by blast
qed

text \<open>A pipeline of one chunk, with a chunker that hands out a list and an index that never matches.\<close>

definition demo_pipe_vtable :: "(chunk list, unit, unit) vtable" where
  "demo_pipe_vtable = \<lparr>vt_reinit = (\<lambda>_ c w. (True, c, w)),
     vt_next = (\<lambda>w cs. Some (case cs of [] \<Rightarrow> (None, []) | c # r \<Rightarrow> (Some c, r))),
     vt_feature = (\<lambda>f c. Some (FVec [], f)), vt_get = (\<lambda>i f. Inr None), vt_add = (\<lambda>i f c. Inr i)\<rparr>"

definition demo_pipe_env :: env where
  "demo_pipe_env = \<lparr>en_codec = per_byte (\<lambda>_. 1), en_junk = (\<lambda>_. 0), en_pad = 0\<rparr>"

definition demo_writer :: writer where
  "demo_writer = \<lparr>wr_storage = \<lparr>st_cache = cache_new 0 1, st_data = \<lparr>cf_data = [], cf_pos = 0\<rparr>, st_meta = \<lparr>cf_data = [], cf_pos = 0\<rparr>\<rparr>,
     wr_base_count = 0, wr_delta_count = 0, wr_dup_count = 0, wr_origin = 0, wr_compressed = 0, wr_before = 0, wr_after = 0,
     wr_processed = 0\<rparr>"

definition demo_chunk :: chunk where
  "demo_chunk = make_chunk [7] True 1 0"

definition demo_os_state :: os_state where
  "demo_os_state = \<lparr>os_files = Map.empty, os_maps = Map.empty, os_next = 0, os_fds = 0\<rparr>"

lemma demo_yields: "yields demo_pipe_vtable demo_os_state [demo_chunk] [demo_chunk] []"
proof -
  have "yields demo_pipe_vtable demo_os_state [] [] []" by (rule yields_end) (simp add: demo_pipe_vtable_def)
  from yields_more [OF _ this, of "[demo_chunk]" demo_chunk] show ?thesis by (simp add: demo_pipe_vtable_def)
qed

lemma demo_pipe_chunks:
  "\<exists>d wr. pipe_chunks demo_pipe_vtable demo_pipe_env (replicate 64 0) [demo_chunk] (dedup_new [], (), (), demo_writer) =
     Some (d, (), (), wr) \<and> wr_base_count wr = 1"
proof -
  have wf: "ck_wf demo_chunk" by (simp add: demo_chunk_def ck_wf_def)
  have len: "length (replicate 64 (0 :: u8)) = 64" by simp
  have "\<exists>d. ProcessChunk (replicate 64 0) demo_chunk (dedup_new []) = Some (ck_id demo_chunk, d)"
    using ProcessChunk_digest [OF len wf, of "dedup_new []"] by (simp add: dedup_new_def)
  then obtain d where d: "ProcessChunk (replicate 64 0) demo_chunk (dedup_new []) = Some (ck_id demo_chunk, d)" ..
  have k: "BaseChunk \<noteq> DuplicateChunk" "(0 :: u8) \<noteq> DuplicateChunk" by (simp_all add: BaseChunk_def DuplicateChunk_def)
  show ?thesis
    by (simp add: pipe_chunk_def dedup_work_def feature_work_def match_work_def write_work_def context_new_def d k ok_def
        match_step_def demo_pipe_vtable_def WriteBaseChunk_def wf Let_def demo_writer_def)
qed

theorem pipeline_ends_witness:
  "\<exists>n s. n \<le> 150 \<and> (pipe_step False False demo_pipe_vtable demo_pipe_env (replicate 64 0) demo_os_state ^^ n)
      (pipe_start [demo_chunk] (dedup_new []) () () demo_writer) s \<and> all_finished s"
proof -
  obtain d wr where r: "pipe_chunks demo_pipe_vtable demo_pipe_env (replicate 64 0) [demo_chunk] (dedup_new [], (), (), demo_writer) =
     Some (d, (), (), wr)" using demo_pipe_chunks by blast
  obtain n s where s: "(pipe_step False False demo_pipe_vtable demo_pipe_env (replicate 64 0) demo_os_state ^^ n)
      (pipe_start [demo_chunk] (dedup_new []) () () demo_writer) s" "all_finished s"
    using pipeline_run_exists [OF demo_yields r] by blast
  from pipeline_ends [OF demo_yields r s(1)] s show ?thesis by auto
qed

theorem pipeline_sequential_witness:
  "\<exists>s. (pipe_step False True demo_pipe_vtable demo_pipe_env (replicate 64 0) demo_os_state)\<^sup>*\<^sup>*
      (pipe_start [demo_chunk] (dedup_new []) () () demo_writer) s \<and> all_finished s \<and>
    pipe_chunks demo_pipe_vtable demo_pipe_env (replicate 64 0) [demo_chunk] (dedup_new [], (), (), demo_writer) =
      Some (pp_dedup s, (), (), pp_writer s) \<and> pp_chunker s = []"
proof -
  obtain d wr where r: "pipe_chunks demo_pipe_vtable demo_pipe_env (replicate 64 0) [demo_chunk] (dedup_new [], (), (), demo_writer) =
     Some (d, (), (), wr)" using demo_pipe_chunks by blast
  obtain n s where s: "(pipe_step False False demo_pipe_vtable demo_pipe_env (replicate 64 0) demo_os_state ^^ n)
      (pipe_start [demo_chunk] (dedup_new []) () () demo_writer) s" "all_finished s"
    using pipeline_run_exists [OF demo_yields r] by blast
  have "pipe_step False True demo_pipe_vtable demo_pipe_env (replicate 64 0) demo_os_state s1 s2"
    if "pipe_step False False demo_pipe_vtable demo_pipe_env (replicate 64 0) demo_os_state s1 s2" for s1 s2
    using step_mono [OF that] by blast
  then have "(pipe_step False True demo_pipe_vtable demo_pipe_env (replicate 64 0) demo_os_state)\<^sup>*\<^sup>*
      (pipe_start [demo_chunk] (dedup_new []) () () demo_writer) s"
    using relpowp_imp_rtranclp [OF s(1)] by (rule mono_rtranclp [rule_format])
  from pipeline_sequential [OF demo_yields this s(2)] this s(2) show ?thesis by auto
qed

section \<open>The end of a queue: a lost wakeup\<close>

text \<open>
  One queue's end in detail: a consumer in \<open>get_context_from_queue\<close> (takes the lock, evaluates the wait's
  predicate, and when it is false releases the lock and sleeps in one step) and its producer in
  \<open>task_done\<close> (sets the flag, then notifies). The parameter says whether the producer holds the lock
  while it sets the flag; the program's does not.
\<close>

datatype consumer = CStart | CChecked | CAsleep | CLeft
datatype producer = PSet | PNotify | PLeft

record cv =
  cv_done :: bool
  cv_cons :: consumer
  cv_prod :: producer

definition cv_start :: cv where
  "cv_start = \<lparr>cv_done = False, cv_cons = CStart, cv_prod = PSet\<rparr>"

inductive cv_step :: "bool \<Rightarrow> cv \<Rightarrow> cv \<Rightarrow> bool" for locked :: bool where
  check: "cv_cons s = CStart \<Longrightarrow> cv_step locked s (s\<lparr>cv_cons := (if cv_done s then CLeft else CChecked)\<rparr>)"
| sleep: "cv_cons s = CChecked \<Longrightarrow> cv_step locked s (s\<lparr>cv_cons := CAsleep\<rparr>)"
| set_done: "cv_prod s = PSet \<Longrightarrow> \<not> locked \<or> cv_cons s \<noteq> CChecked \<Longrightarrow>
    cv_step locked s (s\<lparr>cv_prod := PNotify, cv_done := True\<rparr>)"
| notify: "cv_prod s = PNotify \<Longrightarrow>
    cv_step locked s (s\<lparr>cv_prod := PLeft, cv_cons := (if cv_cons s = CAsleep then CStart else cv_cons s)\<rparr>)"

inductive_simps cv_step_iff: "cv_step locked s s'"

definition cv_stuck :: "bool \<Rightarrow> cv \<Rightarrow> bool" where
  "cv_stuck locked s \<longleftrightarrow> (\<nexists>s'. cv_step locked s s')"

lemma cv_stuck_iff:
  "cv_stuck locked s \<longleftrightarrow> cv_cons s \<in> {CAsleep, CLeft} \<and> cv_prod s = PLeft"
  by (cases "cv_cons s"; cases "cv_prod s") (auto simp: cv_stuck_def cv_step_iff)

lemma cv_locked_inv:
  assumes "(cv_step True)\<^sup>*\<^sup>* cv_start s"
  shows "(cv_done s \<longleftrightarrow> cv_prod s \<noteq> PSet) \<and> (cv_prod s \<noteq> PSet \<longrightarrow> cv_cons s \<noteq> CChecked) \<and>
    (cv_prod s = PLeft \<longrightarrow> cv_cons s \<noteq> CAsleep)"
  using assms
proof (induction rule: rtranclp_induct)
  case base
  then show ?case by (simp add: cv_start_def)
next
  case (step s s')
  from step.hyps(2) step.IH show ?case by (cases rule: cv_step.cases) auto
qed

text \<open>C31: the last wakeup of a queue can be lost: since \<open>task_done\<close> sets its flag without the queue's lock, the
  flag and the notification can both fall between the consumer's test and its sleep, and then the
  consumer sleeps for ever and the join in \<open>AddFile\<close> never returns. With the lock held the only state
  without a step is the one where the consumer has left.\<close>

theorem lost_wakeup:
  "(\<exists>s. (cv_step False)\<^sup>*\<^sup>* cv_start s \<and> cv_stuck False s \<and> cv_done s \<and> cv_cons s = CAsleep) \<and>
   (\<nexists>s. (cv_step True)\<^sup>*\<^sup>* cv_start s \<and> cv_stuck True s \<and> cv_cons s \<noteq> CLeft)"
proof -
  let ?s1 = "cv_start\<lparr>cv_cons := CChecked\<rparr>"
  let ?s2 = "?s1\<lparr>cv_prod := PNotify, cv_done := True\<rparr>"
  let ?s3 = "?s2\<lparr>cv_prod := PLeft\<rparr>"
  let ?s4 = "?s3\<lparr>cv_cons := CAsleep\<rparr>"
  have "cv_step False cv_start ?s1" "cv_step False ?s1 ?s2" "cv_step False ?s2 ?s3" "cv_step False ?s3 ?s4"
    by (simp_all add: cv_step_iff cv_start_def)
  then have "(cv_step False)\<^sup>*\<^sup>* cv_start ?s4" by (meson converse_rtranclp_into_rtranclp rtranclp.rtrancl_refl)
  moreover have "cv_stuck False ?s4" "cv_done ?s4" "cv_cons ?s4 = CAsleep" by (simp_all add: cv_stuck_iff)
  ultimately show ?thesis using cv_locked_inv by (auto simp: cv_stuck_iff)
qed

end
