(* ===== verification/Xd3Ints.thy ===== *)
theory Xd3Ints
  imports Prelude
begin

text \<open>
  The integers of the xdelta3 library (\<open>3party/xdelta3\<close>). \<open>usize_t\<close> and \<open>xoff_t\<close> are 64-bit
  unsigned integers in this build (\<open>XD3_USE_LARGESIZET\<close>, \<open>XD3_USE_LARGEFILE64\<close>, \<open>SIZEOF_SIZE_T\<close>
  8); they are natural numbers below \<open>2 ^ 64\<close> here, with the wrap-around of sums and differences
  written out (\<open>add64\<close>, \<open>sub64\<close>). The theory also holds the return codes, the powers of two the
  library rounds sizes to, and the base-128 integers of the VCDIFF format: the emitter, the reader
  of a section, and the reader of the stream that keeps the part it has read between calls.
\<close>

unbundle bit_operations_syntax

section \<open>Return codes\<close>

text \<open>\<open>Fault\<close> stands for a read or write outside an object, which C leaves undefined.\<close>

datatype xd3_rvalue =
    XD3_INPUT | XD3_OUTPUT | XD3_GETSRCBLK | XD3_GOTHEADER | XD3_WINSTART | XD3_WINFINISH
  | XD3_TOOFARBACK | XD3_INTERNAL | XD3_INVALID | XD3_INVALID_INPUT | XD3_NOSECOND
  | XD3_UNIMPLEMENTED | ENOMEM | ENOSPC | Fault

section \<open>64-bit arithmetic\<close>

definition add64 :: "nat \<Rightarrow> nat \<Rightarrow> nat" where
  "add64 a b = (a + b) mod 2 ^ 64"

definition sub64 :: "nat \<Rightarrow> nat \<Rightarrow> nat" where
  "sub64 a b = nat ((int a - int b) mod 2 ^ 64)"

lemma add64_small [simp]: "a + b < 2 ^ 64 \<Longrightarrow> add64 a b = a + b"
  by (simp add: add64_def)

lemma add64_less [simp]: "add64 a b < 2 ^ 64"
  by (simp add: add64_def)

lemma sub64_small [simp]: "b \<le> a \<Longrightarrow> a < 2 ^ 64 \<Longrightarrow> sub64 a b = a - b"
  by (simp add: sub64_def nat_diff_distrib')

lemma sub64_less [simp]: "sub64 a b < 2 ^ 64"
  by (simp add: sub64_def nat_less_iff)

lemma sub64_sub64: "a < 2 ^ 64 \<Longrightarrow> b \<le> a \<Longrightarrow> sub64 a (a - b) = b"
  by simp

text \<open>\<open>USIZE_T_OVERFLOW\<close> and \<open>XOFF_T_OVERFLOW\<close>.\<close>

definition USIZE_T_OVERFLOW :: "nat \<Rightarrow> nat \<Rightarrow> bool" where
  "USIZE_T_OVERFLOW a b \<longleftrightarrow> 2 ^ 64 - 1 - a < b"

lemma USIZE_T_OVERFLOW_iff: "a < 2 ^ 64 \<Longrightarrow> USIZE_T_OVERFLOW a b \<longleftrightarrow> 2 ^ 64 \<le> a + b"
  by (auto simp: USIZE_T_OVERFLOW_def)

section \<open>Powers of two\<close>

text \<open>The loops over the powers of two run while the 64-bit \<open>x\<close> is not zero: at most 64 rounds.\<close>

fun check_pow2_loop :: "nat \<Rightarrow> nat \<Rightarrow> nat \<Rightarrow> nat option" where
  "check_pow2_loop 0 v logof = None"
| "check_pow2_loop (Suc n) v logof =
    (if 2 ^ logof = v then Some logof else check_pow2_loop n v (logof + 1))"

definition xd3_check_pow2 :: "nat \<Rightarrow> nat option" where
  "xd3_check_pow2 v = check_pow2_loop 64 v 0"

text \<open>\<open>while (x > i) i <<= 1\<close>: when \<open>x\<close> is above \<open>2 ^ 63\<close> the shift reaches 0 and the loop does
  not end; \<open>None\<close> is that run.\<close>

fun pow2_roundup_loop :: "nat \<Rightarrow> nat \<Rightarrow> nat \<Rightarrow> nat option" where
  "pow2_roundup_loop 0 x i = None"
| "pow2_roundup_loop (Suc n) x i =
    (if i < x then pow2_roundup_loop n x (take_bit 64 (push_bit 1 i)) else Some i)"

definition xd3_pow2_roundup :: "nat \<Rightarrow> nat option" where
  "xd3_pow2_roundup x = pow2_roundup_loop 65 x 1"

text \<open>The function on \<open>xoff_t\<close> has the same body.\<close>

definition xd3_xoff_roundup :: "nat \<Rightarrow> nat option" where
  "xd3_xoff_roundup x = pow2_roundup_loop 65 x 1"

definition xd3_round_blksize :: "nat \<Rightarrow> nat \<Rightarrow> nat" where
  "xd3_round_blksize sz blksz =
    (let md = sz AND (blksz - 1) in
     if md = 0 then sz
     else if 2 ^ 63 < sz then 2 ^ 63
     else add64 sz (blksz - md))"

lemma check_pow2_loop_Some:
  "check_pow2_loop n v k = Some l \<Longrightarrow> v = 2 ^ l \<and> k \<le> l \<and> l < k + n"
  by (induction n v k rule: check_pow2_loop.induct) (auto split: if_splits)

lemma xd3_check_pow2_Some: "xd3_check_pow2 v = Some l \<Longrightarrow> v = 2 ^ l \<and> l < 64"
  using check_pow2_loop_Some [of 64 v 0 l] by (simp add: xd3_check_pow2_def)

lemma check_pow2_loop_pow2: "k \<le> l \<Longrightarrow> l < k + n \<Longrightarrow> check_pow2_loop n (2 ^ l) k = Some l"
  by (induction n "2 ^ l :: nat" k rule: check_pow2_loop.induct) auto

lemma xd3_check_pow2_pow2: "l < 64 \<Longrightarrow> xd3_check_pow2 (2 ^ l) = Some l"
  by (simp add: xd3_check_pow2_def check_pow2_loop_pow2)

lemma pow2_roundup_loop_ok:
  assumes "x \<le> 2 ^ 63" "k \<le> 63" "64 \<le> n + k" "k = 0 \<or> 2 ^ (k - 1) < x"
  shows "\<exists>l\<le>63. pow2_roundup_loop n x (2 ^ k) = Some (2 ^ l) \<and> x \<le> 2 ^ l \<and> (l = 0 \<or> 2 ^ (l - 1) < x)"
  using assms
proof (induction n arbitrary: k)
  case 0
  then show ?case by simp
next
  case (Suc n)
  show ?case
  proof (cases "2 ^ k < x")
    case True
    then have "(2::nat) ^ k < 2 ^ 63" using Suc.prems(1) by (rule less_le_trans)
    then have k: "k < 63" by (simp only: power_strict_increasing_iff)
    then have "(2::nat) ^ Suc k < 2 ^ 64" by (intro power_strict_increasing) auto
    then have "take_bit 64 (push_bit 1 ((2::nat) ^ k)) = 2 ^ Suc k"
      by (simp add: push_bit_eq_mult take_bit_nat_eq_self_iff mult.commute)
    then show ?thesis using True Suc.IH [of "Suc k"] Suc.prems k by simp
  next
    case False
    then show ?thesis using Suc.prems by auto
  qed
qed

lemma xd3_pow2_roundup_ok:
  assumes "x \<le> 2 ^ 63"
  obtains l where "l \<le> 63" "xd3_pow2_roundup x = Some (2 ^ l)" "x \<le> 2 ^ l" "l = 0 \<or> 2 ^ (l - 1) < x"
  using pow2_roundup_loop_ok [of x 0 65] assms by (auto simp: xd3_pow2_roundup_def)

lemma xd3_round_blksize_ge: "sz \<le> 2 ^ 63 \<Longrightarrow> sz \<le> xd3_round_blksize sz (2 ^ 14)"
proof -
  assume s: "sz \<le> 2 ^ 63"
  have "sz + (2 ^ 14 - sz mod 2 ^ 14) < 2 ^ 64" using s by simp
  then show ?thesis
    using s by (simp add: xd3_round_blksize_def Let_def add64_def)
qed

section \<open>Base-128 integers\<close>

text \<open>\<open>EMIT_INTEGER_TYPE\<close>: the loop fills a buffer of ten bytes from its end; the list is the part
  from \<open>bufi\<close> on.\<close>

function emit_integer_loop :: "nat \<Rightarrow> bytes \<Rightarrow> bytes" where
  "emit_integer_loop num buf =
    (let buf' = of_nat ((num AND 127) OR 128) # buf; num' = drop_bit 7 num in
     if num' \<noteq> 0 then emit_integer_loop num' buf' else buf')"
  by pat_completeness auto
termination
  by (relation "measure fst") (auto simp: drop_bit_eq_div intro!: div_less_dividend gr0I)

declare emit_integer_loop.simps [simp del]

definition xd3_emit_uint64 :: "nat \<Rightarrow> bytes" where
  "xd3_emit_uint64 num =
    (let buf = emit_integer_loop num [] in butlast buf @ [last buf AND 127])"

definition xd3_sizeof_uint64 :: "nat \<Rightarrow> nat" where
  "xd3_sizeof_uint64 num =
    (if num < 2 ^ 7 then 1
     else if num < 2 ^ 14 then 2
     else if num < 2 ^ 21 then 3
     else if num < 2 ^ 28 then 4
     else if num < 2 ^ 35 then 5
     else if num < 2 ^ 42 then 6
     else if num < 2 ^ 49 then 7
     else if num < 2 ^ 56 then 8
     else if num < 2 ^ 63 then 9
     else 10)"

text \<open>\<open>READ_INTEGER_TYPE\<close> with the mask \<open>UINT64_OFLOW_MASK\<close>: one byte of the section per round,
  the end of the section and the overflow of the seven top bits checked before the shift.\<close>

definition UINT64_OFLOW_MASK :: nat where
  "UINT64_OFLOW_MASK = 0xfe00000000000000"

fun read_integer_loop :: "nat \<Rightarrow> bytes \<Rightarrow> xd3_rvalue + nat \<times> bytes" where
  "read_integer_loop val [] = Inl XD3_INVALID_INPUT"
| "read_integer_loop val (next # inp) =
    (if val AND UINT64_OFLOW_MASK \<noteq> 0 then Inl XD3_INVALID_INPUT
     else
       let val' = take_bit 64 (push_bit 7 val) OR (unat next AND 127) in
       if unat next AND 128 \<noteq> 0 then read_integer_loop val' inp else Inr (val', inp))"

definition xd3_read_uint64 :: "bytes \<Rightarrow> xd3_rvalue + nat \<times> bytes" where
  "xd3_read_uint64 inp = read_integer_loop 0 inp"

text \<open>\<open>DECODE_INTEGER_TYPE\<close> works on the stream's input and keeps the value read so far in
  \<open>dec_64part\<close>: the result is the return code, the part, the input left, and the value when the
  code is 0 (\<open>None\<close> for the code 0).\<close>

fun decode_integer :: "nat \<Rightarrow> bytes \<Rightarrow> xd3_rvalue option \<times> nat \<times> bytes \<times> nat" where
  "decode_integer part [] = (Some XD3_INPUT, part, [], 0)"
| "decode_integer part (next # inp) =
    (if part AND UINT64_OFLOW_MASK \<noteq> 0 then (Some XD3_INVALID_INPUT, part, inp, 0)
     else
       let part' = take_bit 64 (push_bit 7 part) OR (unat next AND 127) in
       if unat next AND 128 = 0 then (None, 0, inp, part') else decode_integer part' inp)"

text \<open>The bit operations of the loops, as arithmetic.\<close>

lemma oflow_mask: "(n::nat) < 2 ^ 64 \<Longrightarrow> n AND UINT64_OFLOW_MASK = 0 \<longleftrightarrow> n < 2 ^ 57"
proof -
  assume n: "n < 2 ^ 64"
  have m: "UINT64_OFLOW_MASK = push_bit 57 (mask 7)"
    by (simp add: UINT64_OFLOW_MASK_def push_bit_eq_mult mask_eq_exp_minus_1)
  have "n AND UINT64_OFLOW_MASK = push_bit 57 (drop_bit 57 n)"
  proof (rule bit_eqI)
    fix i
    have "\<not> bit n i" if "64 \<le> i"
      using n that by (metis bit_take_bit_iff leD take_bit_nat_eq_self)
    then show "bit (n AND UINT64_OFLOW_MASK) i = bit (push_bit 57 (drop_bit 57 n)) i"
      by (cases "64 \<le> i") (auto simp: m bit_simps)
  qed
  then show ?thesis by (simp add: push_bit_eq_mult drop_bit_eq_div div_eq_0_iff)
qed

lemma append_group:
  fixes val d :: nat
  assumes "val < 2 ^ 57" "d < 128"
  shows "take_bit 64 (push_bit 7 val) OR d = 128 * val + d"
proof -
  have "push_bit 7 val < 2 ^ 64" using assms(1) by (simp add: push_bit_eq_mult)
  then have t: "take_bit 64 (push_bit 7 val) = push_bit 7 val" by (simp add: take_bit_nat_eq_self)
  have d: "take_bit 7 d = d" using assms(2) by (simp add: take_bit_nat_eq_self)
  have z: "push_bit 7 val AND d = 0"
  proof (rule bit_eqI)
    fix i
    have "\<not> bit d i" if "7 \<le> i" using d that by (metis bit_take_bit_iff leD)
    then show "bit (push_bit 7 val AND d) i = bit (0::nat) i" by (auto simp: bit_simps)
  qed
  have "\<not> bit (push_bit 7 val) i \<or> \<not> bit d i" for i
  proof -
    have "\<not> bit (push_bit 7 val AND d) i" by (simp add: z)
    then show ?thesis by (simp only: bit_and_iff de_Morgan_conj)
  qed
  then have "push_bit 7 val OR d = push_bit 7 val + d"
    by (rule disjunctive_add [symmetric])
  then show ?thesis by (simp only: t) (simp add: push_bit_eq_mult)
qed

lemma and_127: "(n::nat) AND 127 = n mod 128"
  using take_bit_eq_mask [of 7 n] by (simp add: take_bit_eq_mod mask_eq_exp_minus_1)

lemma and_128: "n < 256 \<Longrightarrow> (n::nat) AND 128 \<noteq> 0 \<longleftrightarrow> 128 \<le> n"
proof -
  assume n: "n < 256"
  have "n AND 128 \<noteq> 0 \<longleftrightarrow> bit n 7"
    using and_exp_eq_0_iff_not_bit [of n 7] by simp
  also have "\<dots> \<longleftrightarrow> odd (n div 128)" by (simp add: bit_iff_odd)
  also have "\<dots> \<longleftrightarrow> 128 \<le> n"
  proof -
    have "n div 128 < 2" using n by (simp add: less_mult_imp_div_less)
    then have "n div 128 = 0 \<or> n div 128 = 1" by linarith
    then show ?thesis by (auto simp: div_eq_0_iff)
  qed
  finally show ?thesis .
qed

lemma unat_and_127: "unat (b :: u8) AND 127 = unat b mod 128"
  by (rule and_127)

lemma group_byte: "(n::nat) < 128 \<Longrightarrow> unat (of_nat (n OR 128) :: u8) = n + 128"
proof -
  assume n: "n < 128"
  have "n OR 128 = n + 128"
    using append_group [of 1 n] n by (simp add: push_bit_eq_mult or.commute add.commute)
  then have "(of_nat (n OR 128) :: u8) = of_nat (n + 128)" by (rule arg_cong)
  then show ?thesis using n by (simp only: unat_of_nat_u8) simp
qed

lemma read_integer_step:
  assumes "val < 2 ^ 57"
  shows "read_integer_loop val (b # inp) =
    (let val' = 128 * val + unat b mod 128 in
     if 128 \<le> unat b then read_integer_loop val' inp else Inr (val', inp))"
proof -
  have "val AND UINT64_OFLOW_MASK = 0" using assms oflow_mask [of val] by simp
  moreover have "take_bit 64 (push_bit 7 val) OR (unat b AND 127) = 128 * val + unat b mod 128"
    unfolding unat_and_127 using assms by (intro append_group) auto
  moreover have "unat b AND 128 \<noteq> 0 \<longleftrightarrow> 128 \<le> unat b" by (rule and_128) simp
  ultimately show ?thesis
    unfolding read_integer_loop.simps(2) Let_def by (simp only: if_False simp_thms)
qed

lemma read_emit_integer_loop:
  assumes "num < 2 ^ 64"
  shows "read_integer_loop 0 (emit_integer_loop num buf @ rest) = read_integer_loop num (buf @ rest)"
  using assms
proof (induction num buf rule: emit_integer_loop.induct)
  case (1 num buf)
  let ?b = "of_nat ((num AND 127) OR 128) :: u8"
  have b: "unat ?b = num mod 128 + 128" unfolding and_127 by (rule group_byte) simp
  have q: "num div 128 < 2 ^ 57" using 1(2) by (simp add: less_mult_imp_div_less)
  have step: "read_integer_loop (num div 128) (?b # buf @ rest) = read_integer_loop num (buf @ rest)"
  proof -
    have "128 * (num div 128) + (num mod 128 + 128) mod 128 = num" "128 \<le> num mod 128 + 128" by simp_all
    then show ?thesis by (simp only: read_integer_step [OF q] b Let_def if_True append_Cons)
  qed
  show ?case
  proof (cases "num div 128 = 0")
    case True
    then show ?thesis
      using step by (simp add: emit_integer_loop.simps [of num] drop_bit_eq_div Let_def)
  next
    case False
    then have "read_integer_loop 0 (emit_integer_loop (num div 128) (?b # buf) @ rest) =
        read_integer_loop (num div 128) ((?b # buf) @ rest)"
      using 1(1) [OF refl refl] q by (simp add: drop_bit_eq_div)
    then show ?thesis
      using False step by (simp add: emit_integer_loop.simps [of num] drop_bit_eq_div Let_def)
  qed
qed

lemma emit_integer_loop_append: "emit_integer_loop num buf = emit_integer_loop num [] @ buf"
proof (induction num arbitrary: buf rule: less_induct)
  case (less num)
  define b where "b = (of_nat ((num AND 127) OR 128) :: u8)"
  define q where "q = drop_bit 7 num"
  have e: "emit_integer_loop num c = (if q \<noteq> 0 then emit_integer_loop q (b # c) else b # c)" for c
    by (simp only: emit_integer_loop.simps [of num] Let_def b_def q_def)
  show ?case
  proof (cases "q = 0")
    case False
    then have "q < num" by (cases "num = 0") (auto simp: q_def drop_bit_eq_div)
    then have "emit_integer_loop q (b # c) = emit_integer_loop q [] @ b # c" for c
      by (rule less.IH)
    then show ?thesis using False by (simp only: e append_assoc) simp
  qed (simp add: e)
qed

lemma emit_integer_loop_step:
  "emit_integer_loop num [] =
    (if num < 128 then [] else emit_integer_loop (num div 128) []) @ [of_nat (num mod 128 OR 128)]"
proof -
  have z: "drop_bit 7 num = num div 128" "num div 128 \<noteq> 0 \<longleftrightarrow> \<not> num < 128"
    by (simp_all add: drop_bit_eq_div div_eq_0_iff)
  show ?thesis
  proof (cases "num < 128")
    case True
    then show ?thesis
      by (simp only: emit_integer_loop.simps [of num] z Let_def and_127 simp_thms if_True if_False append_Nil)
  next
    case False
    then show ?thesis
      by (simp only: emit_integer_loop.simps [of num] z Let_def and_127 simp_thms if_True if_False
          emit_integer_loop_append [of "num div 128" "[of_nat (num mod 128 OR 128)]"])
  qed
qed

lemma clear_msb: "n < 128 \<Longrightarrow> (of_nat (n OR 128) :: u8) AND 127 = of_nat n"
proof -
  assume n: "n < 128"
  have "unat ((of_nat (n OR 128) :: u8) AND 127) = unat (of_nat (n OR 128) :: u8) AND unat (127 :: u8)"
    by (rule unsigned_and_eq)
  also have "\<dots> = (n + 128) AND 127" by (simp only: group_byte [OF n]) simp
  also have "\<dots> = n" using n by (simp add: and_127)
  also have "\<dots> = unat (of_nat n :: u8)" using n by simp
  finally show ?thesis by (simp only: word_unat_eq_iff)
qed

lemma emit_integer_eq:
  "xd3_emit_uint64 num =
    (if num < 128 then [] else emit_integer_loop (num div 128) []) @ [of_nat (num mod 128)]"
proof -
  have "xd3_emit_uint64 num = butlast (emit_integer_loop num []) @ [last (emit_integer_loop num []) AND 127]"
    by (simp only: xd3_emit_uint64_def Let_def)
  also have "last (emit_integer_loop num []) AND 127 = of_nat (num mod 128)"
    unfolding emit_integer_loop_step [of num] by (simp only: last_snoc) (rule clear_msb, simp)
  finally show ?thesis
    by (simp only: emit_integer_loop_step [of num] butlast_snoc)
qed

lemma read_emit_uint64 [simp]:
  assumes "num < 2 ^ 64"
  shows "xd3_read_uint64 (xd3_emit_uint64 num @ rest) = Inr (num, rest)"
proof -
  have q: "num div 128 < 2 ^ 57" using assms by (simp add: less_mult_imp_div_less)
  have last: "read_integer_loop (num div 128) (of_nat (num mod 128) # rest) = Inr (num, rest)"
  proof -
    have "unat (of_nat (num mod 128) :: u8) = num mod 128" by simp
    moreover have "\<not> 128 \<le> num mod 128" "128 * (num div 128) + num mod 128 mod 128 = num" by (simp_all add: not_le)
    ultimately show ?thesis by (simp only: read_integer_step [OF q] Let_def if_False)
  qed
  show ?thesis
  proof (cases "num < 128")
    case True
    then show ?thesis
      using last by (simp add: xd3_read_uint64_def emit_integer_eq del: read_integer_loop.simps)
  next
    case False
    have "num div 128 < 2 ^ 64" using q by simp
    then show ?thesis
      using False last
      by (simp add: xd3_read_uint64_def emit_integer_eq read_emit_integer_loop
          del: read_integer_loop.simps)
  qed
qed

text \<open>The size the header computation relies on is the number of bytes emitted, at most ten.\<close>

lemma sizeof_step: "128 \<le> num \<Longrightarrow> num < 2 ^ 64 \<Longrightarrow> xd3_sizeof_uint64 num = Suc (xd3_sizeof_uint64 (num div 128))"
  by (simp add: xd3_sizeof_uint64_def less_mult_imp_div_less div_less_iff_less_mult)

lemma length_emit_integer_loop:
  "num < 2 ^ 64 \<Longrightarrow> length (emit_integer_loop num []) = xd3_sizeof_uint64 num"
proof (induction num rule: less_induct)
  case (less num)
  show ?case
  proof (cases "num < 128")
    case True
    then show ?thesis by (simp add: emit_integer_loop_step [of num] xd3_sizeof_uint64_def)
  next
    case False
    then have "num div 128 < num" "num div 128 < 2 ^ 64" using less.prems by auto
    then have "length (emit_integer_loop (num div 128) []) = xd3_sizeof_uint64 (num div 128)"
      by (rule less.IH)
    then show ?thesis
      using False less.prems sizeof_step [of num] by (simp add: emit_integer_loop_step [of num])
  qed
qed

lemma length_emit_uint64 [simp]:
  assumes "num < 2 ^ 64"
  shows "length (xd3_emit_uint64 num) = xd3_sizeof_uint64 num"
proof -
  have "length (xd3_emit_uint64 num) = length (emit_integer_loop num [])"
    by (simp add: emit_integer_eq emit_integer_loop_step [of num])
  then show ?thesis using assms by (simp add: length_emit_integer_loop)
qed

lemma xd3_sizeof_uint64_le: "xd3_sizeof_uint64 num \<le> 10"
  by (simp add: xd3_sizeof_uint64_def)

lemma xd3_sizeof_uint64_pos: "0 < xd3_sizeof_uint64 num"
  by (simp add: xd3_sizeof_uint64_def)

text \<open>The two readers agree: a value read in one call is the value of the section reader, and what
  one call has read before the input ran out goes on from the part kept in the stream.\<close>

lemma decode_integer_read:
  "read_integer_loop part inp = Inr (v, rest) \<Longrightarrow> decode_integer part inp = (None, 0, rest, v)"
  by (induction part inp rule: read_integer_loop.induct) (auto simp: Let_def split: if_splits)

lemma decode_integer_split:
  "decode_integer part inp = (Some XD3_INPUT, part', [], 0) \<Longrightarrow>
    decode_integer part (inp @ more) = decode_integer part' more"
  by (induction part inp rule: decode_integer.induct) (auto simp: Let_def split: if_splits)

lemma decode_integer_input:
  "decode_integer part inp = (Some XD3_INPUT, part', inp', v) \<Longrightarrow> inp' = [] \<and> v = 0"
  by (induction part inp rule: decode_integer.induct) (auto simp: Let_def split: if_splits)

lemma read_integer_less:
  "read_integer_loop val inp = Inr (v, rest) \<Longrightarrow> val < 2 ^ 64 \<Longrightarrow> v < 2 ^ 64"
proof (induction val inp rule: read_integer_loop.induct)
  case (2 val b inp)
  have c: "val < 2 ^ 57" using 2 oflow_mask [of val] by (auto split: if_splits)
  have b: "unat b mod 128 < 128" by simp
  have "128 * val + unat b mod 128 < 2 ^ 64" using c b by (simp only: power_numeral) simp
  then show ?case using 2 c by (auto simp: Let_def read_integer_step and_127 append_group split: if_splits)
qed simp

lemma xd3_read_uint64_less: "xd3_read_uint64 inp = Inr (v, rest) \<Longrightarrow> v < 2 ^ 64"
  using read_integer_less [of 0 inp v rest] by (simp add: xd3_read_uint64_def)

lemma read_integer_suffix:
  "read_integer_loop val inp = Inr (v, rest) \<Longrightarrow> \<exists>pre. inp = pre @ rest \<and> pre \<noteq> []"
  by (induction val inp rule: read_integer_loop.induct)
    (auto simp: Let_def split: if_splits intro: exI [of _ "_ # _"])

lemma decode_integer_prefix:
  "decode_integer part a = (c, part', inp, v) \<Longrightarrow> c \<noteq> Some XD3_INPUT \<Longrightarrow>
    decode_integer part (a @ b) = (c, part', inp @ b, v)"
  by (induction part a rule: decode_integer.induct) (auto simp: Let_def split: if_splits)

text \<open>Written, sized and read back by either reader, an integer is itself; the ten bytes of the
  emitter's buffer suffice.\<close>

text \<open>C35: A 64-bit integer written by the emitter is read back by the section reader and by the
  stream reader, which consume exactly its bytes; the size function counts these bytes, at most ten;
  and the stream reader may be given the bytes in two calls, the first of which asks for more.\<close>

theorem uint64_roundtrip:
  assumes "num < 2 ^ 64"
  shows "xd3_read_uint64 (xd3_emit_uint64 num @ rest) = Inr (num, rest) \<and>
    decode_integer 0 (xd3_emit_uint64 num @ rest) = (None, 0, rest, num) \<and>
    length (xd3_emit_uint64 num) = xd3_sizeof_uint64 num \<and> xd3_sizeof_uint64 num \<le> 10 \<and>
    (\<forall>a b. xd3_emit_uint64 num = a @ b \<longrightarrow> b \<noteq> [] \<longrightarrow>
      (\<exists>part. decode_integer 0 a = (Some XD3_INPUT, part, [], 0) \<and>
        decode_integer part (b @ rest) = (None, 0, rest, num)))"
proof (intro conjI allI impI)
  show r: "xd3_read_uint64 (xd3_emit_uint64 num @ rest) = Inr (num, rest)" for rest
    using assms by simp
  then show d: "decode_integer 0 (xd3_emit_uint64 num @ rest) = (None, 0, rest, num)" for rest
    by (simp add: xd3_read_uint64_def decode_integer_read)
  show "length (xd3_emit_uint64 num) = xd3_sizeof_uint64 num" using assms by simp
  show "xd3_sizeof_uint64 num \<le> 10" by (rule xd3_sizeof_uint64_le)
  fix a b assume ab: "xd3_emit_uint64 num = a @ b" "b \<noteq> []"
  obtain c part inp v where s: "decode_integer 0 a = (c, part, inp, v)" by (cases "decode_integer 0 a") auto
  have "decode_integer 0 (a @ b) = (None, 0, [], num)" using d [of "[]"] ab(1) by simp
  then have c: "c = Some XD3_INPUT" using decode_integer_prefix [OF s, of b] ab(2) by auto
  with s have "decode_integer 0 a = (Some XD3_INPUT, part, [], 0)"
    using decode_integer_input [of 0 a part inp v] by auto
  moreover from this have "decode_integer part (b @ rest) = (None, 0, rest, num)"
    using decode_integer_split [of 0 a part "b @ rest"] d [of rest] ab(1) by simp
  ultimately show "\<exists>part. decode_integer 0 a = (Some XD3_INPUT, part, [], 0) \<and>
      decode_integer part (b @ rest) = (None, 0, rest, num)" by blast
qed

lemma uint64_roundtrip_witness:
  "xd3_read_uint64 (xd3_emit_uint64 300 @ [7]) = Inr (300, [7]) \<and>
    decode_integer 0 (xd3_emit_uint64 300 @ [7]) = (None, 0, [7], 300)"
  using uint64_roundtrip [of 300 "[7]"] by simp

end
