(* ===== verification/Xd3Output.thy ===== *)
theory Xd3Output
  imports Xd3Ints
begin

text \<open>
  The encoder's output buffers: a section of the delta under construction is a chain of pages of
  \<open>XD3_ALLOCSIZE\<close> bytes, here the list of the bytes each page holds, with the tail last
  (\<open>output->next\<close> is the length of a page and \<open>output->avail\<close> always the page size). A page comes
  from the list of free pages or from two allocations. The memory of the stream is its allocation
  function: the contents it returns for \<open>elts\<close> elements of \<open>size\<close> bytes, or \<open>None\<close> for a null
  pointer. Interface: the locale \<open>byte_sink\<close> states what the encoder's emitters need of a section
  and lets the field emitters be reasoned about by the bytes they add.
\<close>

section \<open>Results that may be errors\<close>

fun sum_bind :: "'e + 'a \<Rightarrow> ('a \<Rightarrow> 'e + 'b) \<Rightarrow> 'e + 'b" where
  "sum_bind (Inl e) f = Inl e"
| "sum_bind (Inr x) f = f x"

lemma sum_bind_Inr: "sum_bind m f = Inr y \<longleftrightarrow> (\<exists>x. m = Inr x \<and> f x = Inr y)"
  by (cases m) auto

section \<open>Allocation\<close>

type_synonym allocator = "nat \<Rightarrow> nat \<Rightarrow> (nat \<Rightarrow> nat) option"

text \<open>An allocator that never fails.\<close>

definition memory_lasts :: "allocator \<Rightarrow> bool" where
  "memory_lasts al \<longleftrightarrow> (\<forall>elts size. al elts size \<noteq> None)"

definition XD3_ALLOCSIZE :: nat where
  "XD3_ALLOCSIZE = 2 ^ 14"

section \<open>Pages\<close>

type_synonym xd3_output = "bytes list"

text \<open>The state of the emitters: the number of pages on \<open>enc_free\<close>, and the section.
  \<open>sizeof (xd3_output)\<close> is 32.\<close>

definition xd3_alloc_output :: "allocator \<Rightarrow> nat \<Rightarrow> (nat \<times> bytes) option" where
  "xd3_alloc_output al free =
    (if free \<noteq> 0 then Some (free - 1, [])
     else
       case al 1 32 of
         None \<Rightarrow> None
       | Some _ \<Rightarrow> (case al XD3_ALLOCSIZE 1 of None \<Rightarrow> None | Some _ \<Rightarrow> Some (0, [])))"

definition xd3_sizeof_output :: "xd3_output \<Rightarrow> nat" where
  "xd3_sizeof_output out = foldl (\<lambda>s page. add64 s (length page)) 0 out"

definition xd3_freelist_output :: "nat \<Rightarrow> xd3_output \<Rightarrow> nat" where
  "xd3_freelist_output free out = foldl (\<lambda>f page. Suc f) free out"

text \<open>The section with a page that has room, a fresh one if the tail is full.\<close>

definition with_room :: "allocator \<Rightarrow> nat \<times> xd3_output \<Rightarrow> xd3_rvalue + nat \<times> xd3_output" where
  "with_room al = (\<lambda>(free, out).
    if length (last out) = XD3_ALLOCSIZE then
      (case xd3_alloc_output al free of
         None \<Rightarrow> Inl ENOMEM
       | Some (free', page) \<Rightarrow> Inr (free', out @ [page]))
    else Inr (free, out))"

definition add_to_tail :: "xd3_output \<Rightarrow> bytes \<Rightarrow> xd3_output" where
  "add_to_tail out bs = butlast out @ [last out @ bs]"

definition xd3_emit_byte :: "allocator \<Rightarrow> nat \<times> xd3_output \<Rightarrow> u8 \<Rightarrow> xd3_rvalue + nat \<times> xd3_output" where
  "xd3_emit_byte al st code =
    sum_bind (with_room al st) (\<lambda>(free, out). Inr (free, add_to_tail out [code]))"

text \<open>The loop of \<open>xd3_emit_bytes\<close> runs once even for no bytes.\<close>

definition emit_take :: "xd3_output \<Rightarrow> bytes \<Rightarrow> nat" where
  "emit_take out base = min (XD3_ALLOCSIZE - length (last out)) (length base)"

lemma with_room_room:
  assumes "with_room al st = Inr (free, out)"
  shows "length (last out) \<noteq> XD3_ALLOCSIZE"
  using assms
  by (auto simp: with_room_def xd3_alloc_output_def XD3_ALLOCSIZE_def split: prod.splits if_splits option.splits)

function xd3_emit_bytes :: "allocator \<Rightarrow> nat \<times> xd3_output \<Rightarrow> bytes \<Rightarrow> xd3_rvalue + nat \<times> xd3_output" where
  "xd3_emit_bytes al st base =
    (case with_room al st of
       Inl e \<Rightarrow> Inl e
     | Inr (free, out) \<Rightarrow>
         let n = emit_take out base;
             st' = (free, add_to_tail out (take n base));
             base' = drop n base in
         if XD3_ALLOCSIZE < length (last out) then Inl Fault
         else if base' \<noteq> [] then xd3_emit_bytes al st' base'
         else Inr st')"
  by pat_completeness auto

termination
proof (relation "measure (\<lambda>(al, st, base). length base)")
  fix al st base x xa xb free out n st' base'
  assume "with_room al st = Inr x" "(free, out) = x"
    and "n = emit_take out base" "base' = drop n base"
    and "\<not> XD3_ALLOCSIZE < length (last out)" "base' \<noteq> []"
  then show "((al, st', base'), al, st, base) \<in> measure (\<lambda>(al, st, base). length base)"
    using with_room_room [of al st free out] by (auto simp: emit_take_def)
qed auto

declare xd3_emit_bytes.simps [simp del]

definition xd3_emit_size :: "allocator \<Rightarrow> nat \<times> xd3_output \<Rightarrow> nat \<Rightarrow> xd3_rvalue + nat \<times> xd3_output" where
  "xd3_emit_size al st num = xd3_emit_bytes al st (xd3_emit_uint64 num)"

section \<open>What the emitters add\<close>

definition output_ok :: "allocator \<Rightarrow> nat \<times> xd3_output \<Rightarrow> bool" where
  "output_ok al = (\<lambda>(free, out). memory_lasts al \<and> out \<noteq> [] \<and> (\<forall>page\<in>set out. length page \<le> XD3_ALLOCSIZE))"

definition output_bytes :: "nat \<times> xd3_output \<Rightarrow> bytes" where
  "output_bytes st = concat (snd st)"

lemma output_ok_cases:
  assumes "output_ok al st"
  obtains free pages tail where "st = (free, pages @ [tail])" "memory_lasts al"
    "\<forall>page\<in>set pages. length page \<le> XD3_ALLOCSIZE" "length tail \<le> XD3_ALLOCSIZE"
proof (cases st)
  case (Pair free out)
  with assms have "out \<noteq> []" by (auto simp: output_ok_def)
  then have "out = butlast out @ [last out]" by simp
  then obtain pages tail where "out = pages @ [tail]" by blast
  with assms Pair show ?thesis by (intro that) (auto simp: output_ok_def)
qed

lemma xd3_alloc_output_ok: "memory_lasts al \<Longrightarrow> \<exists>free'. xd3_alloc_output al free = Some (free', [])"
proof -
  assume "memory_lasts al"
  then obtain a b where "al 1 32 = Some a" "al XD3_ALLOCSIZE 1 = Some b"
    by (meson memory_lasts_def not_None_eq)
  then show ?thesis by (simp add: xd3_alloc_output_def)
qed

lemma with_room_ok:
  assumes "output_ok al st"
  shows "\<exists>free pages tail. with_room al st = Inr (free, pages @ [tail]) \<and> output_ok al (free, pages @ [tail]) \<and>
    length tail < XD3_ALLOCSIZE \<and> concat (pages @ [tail]) = output_bytes st"
proof -
  obtain free pages tail where st: "st = (free, pages @ [tail])" "memory_lasts al"
      "\<forall>page\<in>set pages. length page \<le> XD3_ALLOCSIZE" "length tail \<le> XD3_ALLOCSIZE"
    using assms by (rule output_ok_cases)
  show ?thesis
  proof (cases "length tail = XD3_ALLOCSIZE")
    case True
    obtain free' where "xd3_alloc_output al free = Some (free', [])"
      using xd3_alloc_output_ok [OF st(2)] by blast
    then have "with_room al st = Inr (free', (pages @ [tail]) @ [[]])"
      using True st(1) by (simp add: with_room_def)
    then show ?thesis using st True
      by (intro exI [of _ free'] exI [of _ "pages @ [tail]"] exI [of _ "[]"])
        (auto simp: output_ok_def output_bytes_def XD3_ALLOCSIZE_def)
  next
    case False
    then have "with_room al st = Inr (free, pages @ [tail])" using st(1) by (simp add: with_room_def)
    then show ?thesis using st False
      by (intro exI [of _ free] exI [of _ pages] exI [of _ tail]) (auto simp: output_ok_def output_bytes_def)
  qed
qed

lemma xd3_emit_bytes_ok:
  "output_ok al st \<Longrightarrow>
    \<exists>st'. xd3_emit_bytes al st bs = Inr st' \<and> output_ok al st' \<and> output_bytes st' = output_bytes st @ bs"
proof (induction "length bs" arbitrary: st bs rule: less_induct)
  case less
  obtain free pages tail where w: "with_room al st = Inr (free, pages @ [tail])"
      "output_ok al (free, pages @ [tail])" "length tail < XD3_ALLOCSIZE"
      "concat (pages @ [tail]) = output_bytes st"
    using with_room_ok [OF less.prems] by blast
  define n where "n = emit_take (pages @ [tail]) bs"
  define st1 where "st1 = (free, pages @ [tail @ take n bs])"
  have n: "n = min (XD3_ALLOCSIZE - length tail) (length bs)" by (simp add: n_def emit_take_def)
  have st1: "output_ok al st1" "output_bytes st1 = output_bytes st @ take n bs"
    using w n by (auto simp: output_ok_def output_bytes_def st1_def)
  have e: "xd3_emit_bytes al st bs = (if drop n bs \<noteq> [] then xd3_emit_bytes al st1 (drop n bs) else Inr st1)"
    using w(3) by (subst xd3_emit_bytes.simps) (simp add: w(1) Let_def add_to_tail_def st1_def n_def)
  show ?case
  proof (cases "drop n bs = []")
    case True
    then show ?thesis using st1 by (auto simp: e)
  next
    case False
    then have "0 < n" using w(3) n by auto
    then have "length (drop n bs) < length bs" using False by auto
    from less.hyps [OF this st1(1)] obtain st' where "xd3_emit_bytes al st1 (drop n bs) = Inr st'"
        "output_ok al st'" "output_bytes st' = output_bytes st1 @ drop n bs" by blast
    then show ?thesis using False st1(2) by (auto simp: e)
  qed
qed

lemma xd3_emit_byte_ok:
  assumes "output_ok al st"
  shows "\<exists>st'. xd3_emit_byte al st c = Inr st' \<and> output_ok al st' \<and> output_bytes st' = output_bytes st @ [c]"
proof -
  obtain free pages tail where w: "with_room al st = Inr (free, pages @ [tail])"
      "output_ok al (free, pages @ [tail])" "length tail < XD3_ALLOCSIZE"
      "concat (pages @ [tail]) = output_bytes st"
    using with_room_ok [OF assms] by blast
  then show ?thesis
    by (auto simp: xd3_emit_byte_def add_to_tail_def output_ok_def output_bytes_def)
qed

lemma xd3_sizeof_output_bytes:
  "length (concat out) < 2 ^ 64 \<Longrightarrow> xd3_sizeof_output out = length (concat out)"
proof -
  have "n + length (concat out) < 2 ^ 64 \<Longrightarrow>
      foldl (\<lambda>s page. add64 s (length page)) n out = n + length (concat out)" for n
    by (induction out arbitrary: n) auto
  from this [of 0] show "length (concat out) < 2 ^ 64 \<Longrightarrow> ?thesis" by (simp add: xd3_sizeof_output_def)
qed

section \<open>A sink of bytes\<close>

text \<open>What the encoder relies on: an emission succeeds and adds its bytes at the end. The lemma of
  the interface is for a sequence of fields.\<close>

primrec emit_all :: "('s \<Rightarrow> bytes \<Rightarrow> xd3_rvalue + 's) \<Rightarrow> 's \<Rightarrow> bytes list \<Rightarrow> xd3_rvalue + 's" where
  "emit_all emit s [] = Inr s"
| "emit_all emit s (bs # bss) = sum_bind (emit s bs) (\<lambda>s'. emit_all emit s' bss)"

locale byte_sink =
  fixes emit :: "'s \<Rightarrow> bytes \<Rightarrow> xd3_rvalue + 's"
    and contents :: "'s \<Rightarrow> bytes"
    and ok :: "'s \<Rightarrow> bool"
  assumes emits: "ok s \<Longrightarrow> \<exists>s'. emit s bs = Inr s' \<and> ok s' \<and> contents s' = contents s @ bs"
begin

lemma emits_all:
  "ok s \<Longrightarrow> \<exists>s'. emit_all emit s bss = Inr s' \<and> ok s' \<and> contents s' = contents s @ concat bss"
proof (induction bss arbitrary: s)
  case (Cons bs bss)
  obtain s' where "emit s bs = Inr s'" "ok s'" "contents s' = contents s @ bs"
    using emits [OF Cons.prems] by blast
  then show ?case using Cons.IH [of s'] by auto
qed simp

end

interpretation section_sink: byte_sink "xd3_emit_bytes al" output_bytes "output_ok al" for al
  by unfold_locales (rule xd3_emit_bytes_ok)

end
