(* ===== verification/Xd3Bits.thy ===== *)
theory Xd3Bits
  imports Xd3Output
begin

text \<open>
  The bit streams of the secondary compressors (\<open>xdelta3-second.h\<close>): values are written from their
  high bit down into bytes that fill from bit 0 up. The theorem is that a sequence of values written
  and flushed is read back from the bytes with the same widths.
\<close>

unbundle bit_operations_syntax

record bit_state =
  cur_byte :: u8
  cur_mask :: nat

definition xd3_bit_state_encode_init :: bit_state where
  "xd3_bit_state_encode_init = \<lparr>cur_byte = 0, cur_mask = 1\<rparr>"

definition BIT_STATE_DECODE_INIT :: bit_state where
  "BIT_STATE_DECODE_INIT = \<lparr>cur_byte = 0, cur_mask = 0x100\<rparr>"

section \<open>Writing\<close>

definition xd3_encode_bit ::
    "allocator \<Rightarrow> (nat \<times> xd3_output) \<Rightarrow> bit_state \<Rightarrow> bool \<Rightarrow> xd3_rvalue + (nat \<times> xd3_output) \<times> bit_state" where
  "xd3_encode_bit al out bits b =
    (let byte = (if b then cur_byte bits OR of_nat (cur_mask bits) else cur_byte bits) in
     if cur_mask bits = 0x80 then
       sum_bind (xd3_emit_byte al out byte) (\<lambda>out'. Inr (out', \<lparr>cur_byte = 0, cur_mask = 1\<rparr>))
     else Inr (out, \<lparr>cur_byte = byte, cur_mask = 2 * cur_mask bits\<rparr>))"

definition xd3_flush_bits ::
    "allocator \<Rightarrow> (nat \<times> xd3_output) \<Rightarrow> bit_state \<Rightarrow> xd3_rvalue + (nat \<times> xd3_output)" where
  "xd3_flush_bits al out bits =
    (if cur_mask bits = 1 then Inr out else xd3_emit_byte al out (cur_byte bits))"

text \<open>The loop over the mask: the bit \<open>n - 1\<close> of the value first.\<close>

primrec encode_bits_loop ::
    "allocator \<Rightarrow> nat \<Rightarrow> nat \<Rightarrow> (nat \<times> xd3_output) \<Rightarrow> bit_state \<Rightarrow> xd3_rvalue + (nat \<times> xd3_output) \<times> bit_state" where
  "encode_bits_loop al 0 val out bits = Inr (out, bits)"
| "encode_bits_loop al (Suc n) val out bits =
    sum_bind (xd3_encode_bit al out bits (val AND 2 ^ n \<noteq> 0)) (\<lambda>(out', bits').
      encode_bits_loop al n val out' bits')"

text \<open>The mask starts as the \<open>int\<close> \<open>1 << nbits\<close>: with no bits the loop would not end, and 31 bits or
  more do not fit; both are outside the function's contract.\<close>

definition xd3_encode_bits ::
    "allocator \<Rightarrow> (nat \<times> xd3_output) \<Rightarrow> bit_state \<Rightarrow> nat \<Rightarrow> nat \<Rightarrow> xd3_rvalue + (nat \<times> xd3_output) \<times> bit_state" where
  "xd3_encode_bits al out bits nbits val =
    (if 0 < nbits \<and> nbits < 31 then encode_bits_loop al nbits val out bits else Inl Fault)"

section \<open>Reading\<close>

text \<open>One byte is taken from the input when the mask has left the current one.\<close>

fun decode_bits_loop ::
    "nat \<Rightarrow> nat \<Rightarrow> bit_state \<Rightarrow> bytes \<Rightarrow> xd3_rvalue + nat \<times> bit_state \<times> bytes" where
  "decode_bits_loop 0 val bits inp = Inr (val, bits, inp)"
| "decode_bits_loop (Suc n) val bits inp =
    (let take_bit1 = (\<lambda>byte mask inp'.
       decode_bits_loop n (if byte AND of_nat mask \<noteq> 0 then val OR 2 ^ n else val)
         \<lparr>cur_byte = byte, cur_mask = 2 * mask\<rparr> inp') in
     if cur_mask bits = 0x100 then
       (case inp of
          [] \<Rightarrow> Inl XD3_INTERNAL
        | b # inp' \<Rightarrow> take_bit1 b 1 inp')
     else take_bit1 (cur_byte bits) (cur_mask bits) inp)"

definition xd3_decode_bits :: "bit_state \<Rightarrow> bytes \<Rightarrow> nat \<Rightarrow> xd3_rvalue + nat \<times> bit_state \<times> bytes" where
  "xd3_decode_bits bits inp nbits =
    (if 0 < nbits \<and> nbits < 31 then decode_bits_loop nbits 0 bits inp else Inl Fault)"

text \<open>A sequence of values with their widths, as the compressors write and read them.\<close>

fun encode_all ::
    "allocator \<Rightarrow> (nat \<times> nat) list \<Rightarrow> (nat \<times> xd3_output) \<Rightarrow> bit_state \<Rightarrow> xd3_rvalue + (nat \<times> xd3_output)" where
  "encode_all al [] out bits = xd3_flush_bits al out bits"
| "encode_all al ((n, val) # vs) out bits =
    sum_bind (xd3_encode_bits al out bits n val) (\<lambda>(out', bits'). encode_all al vs out' bits')"

fun decode_all :: "nat list \<Rightarrow> bit_state \<Rightarrow> bytes \<Rightarrow> xd3_rvalue + nat list" where
  "decode_all [] bits inp = Inr []"
| "decode_all (n # ns) bits inp =
    sum_bind (xd3_decode_bits bits inp n) (\<lambda>(v, bits', inp').
      sum_bind (decode_all ns bits' inp') (\<lambda>vs. Inr (v # vs)))"

section \<open>Streams as lists of bits\<close>

definition byte_bits :: "bytes \<Rightarrow> bool list" where
  "byte_bits bs = concat (map (\<lambda>b. map (bit b) [0..<8]) bs)"

lemma byte_bits_simps [simp]: "byte_bits [] = []" "byte_bits (b # bs) = map (bit b) [0..<8] @ byte_bits bs"
    "byte_bits (bs @ cs) = byte_bits bs @ byte_bits cs"
  by (simp_all add: byte_bits_def)

text \<open>The state of the writer: \<open>k\<close> bits of the current byte are used, the others are 0.\<close>

definition writes_at :: "bit_state \<Rightarrow> nat \<Rightarrow> bool" where
  "writes_at bits k \<longleftrightarrow> k < 8 \<and> cur_mask bits = 2 ^ k \<and> (\<forall>i\<ge>k. \<not> bit (cur_byte bits) i)"

definition written :: "nat \<times> xd3_output \<Rightarrow> bit_state \<Rightarrow> nat \<Rightarrow> bool list" where
  "written out bits k = byte_bits (output_bytes out) @ map (bit (cur_byte bits)) [0..<k]"

definition high_bits :: "nat \<Rightarrow> nat \<Rightarrow> bool list" where
  "high_bits n val = map (bit val) (rev [0..<n])"

lemma high_bits_simps [simp]: "high_bits 0 val = []" "high_bits (Suc n) val = bit val n # high_bits n val"
  by (simp_all add: high_bits_def)

lemma encode_bit_writes:
  assumes "output_ok al out" "writes_at bits k"
  shows "\<exists>out' bits' k'. xd3_encode_bit al out bits b = Inr (out', bits') \<and> output_ok al out' \<and>
    writes_at bits' k' \<and> written out' bits' k' = written out bits k @ [b]"
proof -
  let ?byte = "if b then cur_byte bits OR of_nat (cur_mask bits) else cur_byte bits"
  have k: "k < 8" and m: "cur_mask bits = 2 ^ k" and z: "\<And>i. k \<le> i \<Longrightarrow> \<not> bit (cur_byte bits) i"
    using assms(2) by (auto simp: writes_at_def)
  have bit: "bit ?byte i = (if i = k then b else bit (cur_byte bits) i)" for i
    using k z [of k] by (auto simp: m bit_simps)
  have bits: "map (bit ?byte) [0..<Suc k] = map (bit (cur_byte bits)) [0..<k] @ [b]"
    by (auto simp: bit)
  show ?thesis
  proof (cases "k = 7")
    case True
    obtain out' where out': "xd3_emit_byte al out ?byte = Inr out'" "output_ok al out'"
        "output_bytes out' = output_bytes out @ [?byte]"
      using xd3_emit_byte_ok [OF assms(1)] by blast
    have "map (bit ?byte) [0..<8] = map (bit (cur_byte bits)) [0..<k] @ [b]"
      using bits True by simp
    then have "written out' \<lparr>cur_byte = 0, cur_mask = 1\<rparr> 0 = written out bits k @ [b]"
      using out'(3) by (simp add: written_def)
    moreover have "xd3_encode_bit al out bits b = Inr (out', \<lparr>cur_byte = 0, cur_mask = 1\<rparr>)"
      using out'(1) True m by (simp add: xd3_encode_bit_def Let_def)
    moreover have "writes_at \<lparr>cur_byte = 0, cur_mask = 1\<rparr> 0" by (simp add: writes_at_def)
    ultimately show ?thesis using out'(2) by blast
  next
    case False
    then have "(2::nat) ^ k \<noteq> 2 ^ 7" by (metis one_less_numeral_iff power_inject_exp semiring_norm(76))
    then have "xd3_encode_bit al out bits b = Inr (out, \<lparr>cur_byte = ?byte, cur_mask = 2 * cur_mask bits\<rparr>)"
      using m by (simp add: xd3_encode_bit_def Let_def)
    moreover have "writes_at \<lparr>cur_byte = ?byte, cur_mask = 2 * cur_mask bits\<rparr> (Suc k)"
      using False k z by (auto simp: writes_at_def m bit)
    moreover have "written out \<lparr>cur_byte = ?byte, cur_mask = 2 * cur_mask bits\<rparr> (Suc k) = written out bits k @ [b]"
      using bits by (simp add: written_def)
    ultimately show ?thesis using assms(1) by blast
  qed
qed

lemma encode_bits_writes:
  "output_ok al out \<Longrightarrow> writes_at bits k \<Longrightarrow>
    \<exists>out' bits' k'. encode_bits_loop al n val out bits = Inr (out', bits') \<and> output_ok al out' \<and>
      writes_at bits' k' \<and> written out' bits' k' = written out bits k @ high_bits n val"
proof (induction n arbitrary: out bits k)
  case 0
  then show ?case by auto
next
  case (Suc n)
  have b: "val AND 2 ^ n \<noteq> 0 \<longleftrightarrow> bit val n" by (simp add: and_exp_eq_0_iff_not_bit)
  obtain out1 bits1 k1 where s: "xd3_encode_bit al out bits (bit val n) = Inr (out1, bits1)" "output_ok al out1"
      "writes_at bits1 k1" "written out1 bits1 k1 = written out bits k @ [bit val n]"
    using encode_bit_writes [OF Suc.prems] by blast
  have e: "encode_bits_loop al (Suc n) val out bits = encode_bits_loop al n val out1 bits1"
    by (simp only: encode_bits_loop.simps b s(1) sum_bind.simps prod.case)
  obtain out' bits' k' where "encode_bits_loop al n val out1 bits1 = Inr (out', bits')" "output_ok al out'"
      "writes_at bits' k'" "written out' bits' k' = written out1 bits1 k1 @ high_bits n val"
    using Suc.IH [OF s(2,3)] by blast
  then show ?case unfolding e s(4) by (intro exI [of _ out'] exI [of _ bits'] exI [of _ k']) (simp add: s(4))
qed

text \<open>The state of the reader: the bits still to come.\<close>

definition reads_at :: "bit_state \<Rightarrow> bytes \<Rightarrow> bool list \<Rightarrow> bool" where
  "reads_at bits inp rest \<longleftrightarrow>
    (\<exists>k\<le>8. cur_mask bits = 2 ^ k \<and> rest = map (bit (cur_byte bits)) [k..<8] @ byte_bits inp)"

lemma reads_at_init: "reads_at BIT_STATE_DECODE_INIT inp (byte_bits inp)"
  by (auto simp: reads_at_def BIT_STATE_DECODE_INIT_def intro!: exI [of _ 8])

text \<open>The reader can always be seen before a byte with bits left, unless the bits have run out.\<close>

lemma decode_bit_reads:
  assumes "reads_at bits inp (b # rest)"
  shows "\<exists>bits' inp'. (\<forall>n val. decode_bits_loop (Suc n) val bits inp =
      decode_bits_loop n (if b then val OR 2 ^ n else val) bits' inp') \<and> reads_at bits' inp' rest"
proof -
  obtain k where k: "k \<le> 8" "cur_mask bits = 2 ^ k" "b # rest = map (bit (cur_byte bits)) [k..<8] @ byte_bits inp"
    using assms by (auto simp: reads_at_def)
  have m: "byte AND of_nat (2 ^ j) \<noteq> 0 \<longleftrightarrow> bit byte j" for byte :: u8 and j
    by (simp add: and_exp_eq_0_iff_not_bit)
  show ?thesis
  proof (cases "k = 8")
    case True
    then obtain c inp' where i: "inp = c # inp'" "b = bit c 0" "rest = map (bit c) [1..<8] @ byte_bits inp'"
      using k(3) by (cases inp) (auto simp: upt_rec [of 0])
    have e: "decode_bits_loop (Suc n) val bits inp =
        decode_bits_loop n (if b then val OR 2 ^ n else val) \<lparr>cur_byte = c, cur_mask = 2\<rparr> inp'" for n val
      using True k(2) m [of c 0] by (simp add: i(1,2) Let_def)
    have "reads_at \<lparr>cur_byte = c, cur_mask = 2\<rparr> inp' rest"
      unfolding reads_at_def by (intro exI [of _ 1]) (simp add: i(3))
    with e show ?thesis by blast
  next
    case False
    then have k8: "k < 8" using k(1) by simp
    then have r: "b = bit (cur_byte bits) k" "rest = map (bit (cur_byte bits)) [Suc k..<8] @ byte_bits inp"
      using k(3) by (simp_all add: upt_rec [of k])
    have "(2::nat) ^ k \<noteq> 2 ^ 8" using False by (metis one_less_numeral_iff power_inject_exp semiring_norm(76))
    then have e: "decode_bits_loop (Suc n) val bits inp =
        decode_bits_loop n (if b then val OR 2 ^ n else val) \<lparr>cur_byte = cur_byte bits, cur_mask = 2 * 2 ^ k\<rparr> inp" for n val
      using k(2) m [of "cur_byte bits" k] r(1) by (simp add: Let_def)
    have "reads_at \<lparr>cur_byte = cur_byte bits, cur_mask = 2 * 2 ^ k\<rparr> inp rest"
      unfolding reads_at_def using k8 by (intro exI [of _ "Suc k"]) (simp add: r(2))
    with e show ?thesis by blast
  qed
qed

lemma decode_bits_reads:
  "reads_at bits inp (high_bits n v @ rest) \<Longrightarrow>
    \<exists>bits' inp'. decode_bits_loop n val bits inp = Inr (val OR take_bit n v, bits', inp') \<and> reads_at bits' inp' rest"
proof (induction n arbitrary: bits inp val)
  case 0
  then show ?case by auto
next
  case (Suc n)
  obtain bits1 inp1 where s: "\<forall>n' val. decode_bits_loop (Suc n') val bits inp =
      decode_bits_loop n' (if bit v n then val OR 2 ^ n' else val) bits1 inp1" "reads_at bits1 inp1 (high_bits n v @ rest)"
    using decode_bit_reads [of bits inp "bit v n" "high_bits n v @ rest"] Suc.prems by auto
  have t: "(if bit v n then val OR 2 ^ n else val) OR take_bit n v = val OR take_bit (Suc n) v"
    by (rule bit_eqI) (auto simp: bit_simps less_Suc_eq)
  show ?case using Suc.IH [OF s(2), of "if bit v n then val OR 2 ^ n else val"] by (simp only: s(1) t)
qed

definition value_bits :: "(nat \<times> nat) list \<Rightarrow> bool list" where
  "value_bits vs = concat (map (\<lambda>(n, v). high_bits n v) vs)"

lemma encode_all_writes:
  "output_ok al out \<Longrightarrow> writes_at bits k \<Longrightarrow> \<forall>(n, v)\<in>set vs. 0 < n \<and> n < 31 \<Longrightarrow>
    \<exists>out' pad. encode_all al vs out bits = Inr out' \<and> output_ok al out' \<and>
      byte_bits (output_bytes out') = written out bits k @ value_bits vs @ pad \<and> length pad < 8"
proof (induction vs arbitrary: out bits k)
  case Nil
  then have w: "k < 8" "cur_mask bits = 2 ^ k" by (auto simp: writes_at_def)
  show ?case
  proof (cases "k = 0")
    case True
    then show ?thesis using w Nil by (intro exI [of _ out] exI [of _ "[]"])
      (simp add: xd3_flush_bits_def written_def value_bits_def)
  next
    case False
    then have m: "cur_mask bits \<noteq> 1" using w(2) by simp
    obtain out' where o: "xd3_emit_byte al out (cur_byte bits) = Inr out'" "output_ok al out'"
        "output_bytes out' = output_bytes out @ [cur_byte bits]"
      using xd3_emit_byte_ok [OF Nil(1)] by blast
    have "[0..<8] = [0..<k] @ [k..<8]" using w(1) upt_add_eq_append [of 0 k "8 - k"] by simp
    then have "byte_bits (output_bytes out') = written out bits k @ map (bit (cur_byte bits)) [k..<8]"
      using o(3) by (simp add: written_def)
    then show ?thesis using o m False
      by (intro exI [of _ out'] exI [of _ "map (bit (cur_byte bits)) [k..<8]"])
        (simp add: xd3_flush_bits_def value_bits_def)
  qed
next
  case (Cons nv vs)
  obtain n v where nv: "nv = (n, v)" "0 < n" "n < 31" using Cons.prems(3) by (cases nv) auto
  obtain out1 bits1 k1 where s: "encode_bits_loop al n v out bits = Inr (out1, bits1)" "output_ok al out1"
      "writes_at bits1 k1" "written out1 bits1 k1 = written out bits k @ high_bits n v"
    using encode_bits_writes [OF Cons.prems(1,2)] by blast
  obtain out' pad where "encode_all al vs out1 bits1 = Inr out'" "output_ok al out'"
      "byte_bits (output_bytes out') = written out1 bits1 k1 @ value_bits vs @ pad" "length pad < 8"
    using Cons.IH [OF s(2,3)] Cons.prems(3) by auto
  then show ?case using nv s by (auto simp: xd3_encode_bits_def value_bits_def)
qed

lemma decode_all_reads:
  "reads_at bits inp (value_bits vs @ pad) \<Longrightarrow> \<forall>(n, v)\<in>set vs. 0 < n \<and> n < 31 \<and> v < 2 ^ n \<Longrightarrow>
    decode_all (map fst vs) bits inp = Inr (map snd vs)"
proof (induction vs arbitrary: bits inp)
  case (Cons nv vs)
  obtain n v where nv: "nv = (n, v)" "0 < n" "n < 31" "v < 2 ^ n" using Cons.prems(2) by (cases nv) auto
  have "reads_at bits inp (high_bits n v @ (value_bits vs @ pad))"
    using Cons.prems(1) nv(1) by (simp add: value_bits_def)
  then obtain bits' inp' where d: "decode_bits_loop n 0 bits inp = Inr (0 OR take_bit n v, bits', inp')"
      "reads_at bits' inp' (value_bits vs @ pad)"
    using decode_bits_reads [of bits inp n v "value_bits vs @ pad" 0] by blast
  have "take_bit n v = v" using nv(4) by (simp add: take_bit_nat_eq_self)
  then show ?case using d Cons.IH [OF d(2)] Cons.prems(2) nv by (auto simp: xd3_decode_bits_def)
qed simp

lemma length_byte_bits [simp]: "length (byte_bits bs) = 8 * length bs"
  by (induction bs) auto

lemma byte_bits_prefix:
  "byte_bits xs = byte_bits ys @ zs \<Longrightarrow> \<exists>bs. xs = ys @ bs \<and> byte_bits bs = zs"
proof (induction ys arbitrary: xs)
  case (Cons y ys)
  then obtain x xs' where xs: "xs = x # xs'" by (cases xs) auto
  have e: "map (bit x) [0..<8] @ byte_bits xs' = map (bit y) [0..<8] @ (byte_bits ys @ zs)"
    using Cons.prems xs by simp
  then have m: "map (bit x) [0..<8] = map (bit y) [0..<8]" "byte_bits xs' = byte_bits ys @ zs"
    by (metis append_eq_append_conv length_map)+
  have "x = y"
  proof (rule bit_word_eqI)
    fix i assume "i < LENGTH(8)"
    then have "map (bit x) [0..<8] ! i = map (bit y) [0..<8] ! i" using m(1) by simp
    then show "bit x i = bit y i" using \<open>i < LENGTH(8)\<close> by (simp del: upt_conv_Cons)
  qed
  then show ?case using Cons.IH [OF m(2)] xs by auto
qed simp

lemma length_value_bits: "length (value_bits vs) = sum_list (map fst vs)"
  by (induction vs) (auto simp: value_bits_def high_bits_def)

text \<open>C40: Values written with their widths (1 to 30 bits each) and flushed are read back, in order,
  from the bytes added to the section; less than one byte of padding is written.\<close>

theorem bit_stream_roundtrip:
  assumes "output_ok al out" "\<forall>(n, v)\<in>set vs. 0 < n \<and> n < 31 \<and> v < 2 ^ n"
  shows "\<exists>out' bs. encode_all al vs out xd3_bit_state_encode_init = Inr out' \<and>
    output_bytes out' = output_bytes out @ bs \<and> 8 * length bs < sum_list (map fst vs) + 8 \<and>
    decode_all (map fst vs) BIT_STATE_DECODE_INIT bs = Inr (map snd vs)"
proof -
  have w: "writes_at xd3_bit_state_encode_init 0"
    by (simp add: writes_at_def xd3_bit_state_encode_init_def)
  have "\<forall>(n, v)\<in>set vs. 0 < n \<and> n < 31" using assms(2) by auto
  then obtain out' pad where o: "encode_all al vs out xd3_bit_state_encode_init = Inr out'" "length pad < 8"
      "byte_bits (output_bytes out') = written out xd3_bit_state_encode_init 0 @ value_bits vs @ pad"
    using encode_all_writes [OF assms(1) w, of vs] by blast
  then obtain bs where bs: "output_bytes out' = output_bytes out @ bs" "byte_bits bs = value_bits vs @ pad"
    using byte_bits_prefix [of "output_bytes out'" "output_bytes out"] by (auto simp: written_def)
  have "8 * length bs = sum_list (map fst vs) + length pad"
    using length_byte_bits [of bs] bs(2) length_value_bits [of vs] by simp
  moreover have "decode_all (map fst vs) BIT_STATE_DECODE_INIT bs = Inr (map snd vs)"
    using decode_all_reads [of BIT_STATE_DECODE_INIT bs vs pad] reads_at_init [of bs] bs(2) assms(2) by simp
  ultimately show ?thesis using o(1,2) bs(1) by auto
qed

lemma bit_stream_roundtrip_witness:
  "\<exists>out' bs. encode_all (\<lambda>_ _. Some (\<lambda>_. 0)) [(5, 19), (11, 1000)] (0, [[7]]) xd3_bit_state_encode_init = Inr out' \<and>
    output_bytes out' = [7] @ bs \<and> decode_all [5, 11] BIT_STATE_DECODE_INIT bs = Inr [19, 1000]"
  using bit_stream_roundtrip [of "\<lambda>_ _. Some (\<lambda>_. 0)" "(0, [[7]])" "[(5, 19), (11, 1000)]"]
  by (auto simp: output_ok_def memory_lasts_def output_bytes_def XD3_ALLOCSIZE_def)

end
