(* ===== verification/Xd3Addr.thy ===== *)
theory Xd3Addr
  imports Xd3Output
begin

text \<open>
  The VCDIFF address cache (\<open>xd3_addr_cache\<close> in \<open>xdelta3.h\<close>): the last addresses in a circular
  array, and the last address for each value modulo \<open>s_same * 256\<close>. The encoder picks the mode
  with the smallest number to write, the decoder undoes it, and both update the cache; the theorem
  is that the decoder's result is the encoder's address when both caches agree.
\<close>

unbundle bit_operations_syntax

section \<open>The cache\<close>

record addr_cache =
  s_near :: nat
  s_same :: nat
  next_slot :: nat
  near_array :: "nat list"
  same_array :: "nat list"

text \<open>The arrays are allocated only for sizes above 0, with the contents the allocator leaves.\<close>

definition xd3_alloc_cache :: "allocator \<Rightarrow> addr_cache \<Rightarrow> xd3_rvalue + addr_cache" where
  "xd3_alloc_cache al ac =
    (let near = (if 0 < s_near ac then map_option (\<lambda>f. map f [0..<s_near ac]) (al (s_near ac) 8) else Some []) in
     case near of
       None \<Rightarrow> Inl ENOMEM
     | Some na \<Rightarrow>
         let same = (if 0 < s_same ac then map_option (\<lambda>f. map f [0..<s_same ac * 256]) (al (s_same ac * 256) 8)
                     else Some []) in
         case same of
           None \<Rightarrow> Inl ENOMEM
         | Some sa \<Rightarrow> Inr (ac\<lparr>near_array := na, same_array := sa\<rparr>))"

definition xd3_init_cache :: "addr_cache \<Rightarrow> addr_cache" where
  "xd3_init_cache ac =
    (let ac1 = (if 0 < s_near ac then ac\<lparr>near_array := replicate (s_near ac) 0, next_slot := 0\<rparr> else ac) in
     if 0 < s_same ac1 then ac1\<lparr>same_array := replicate (s_same ac1 * 256) 0\<rparr> else ac1)"

definition xd3_update_cache :: "addr_cache \<Rightarrow> nat \<Rightarrow> addr_cache" where
  "xd3_update_cache ac addr =
    (let ac1 = (if 0 < s_near ac
                then ac\<lparr>near_array := (near_array ac)[next_slot ac := addr],
                        next_slot := (next_slot ac + 1) mod s_near ac\<rparr>
                else ac) in
     if 0 < s_same ac1
     then ac1\<lparr>same_array := (same_array ac1)[addr mod (s_same ac1 * 256) := addr]\<rparr>
     else ac1)"

definition VCD_SELF :: nat where "VCD_SELF = 0"
definition VCD_HERE :: nat where "VCD_HERE = 1"

section \<open>The encoder's choice\<close>

text \<open>\<open>SMALLEST_INT\<close> masks with \<open>~127U\<close>, a 32-bit constant: bits above 31 of the 64-bit value are
  not looked at.\<close>

definition smallest_int :: "nat \<Rightarrow> bool" where
  "smallest_int x \<longleftrightarrow> x AND 0xFFFFFF80 = 0"

text \<open>The loop over the near addresses: the best distance and mode so far; \<open>True\<close> when the loop was
  left by \<open>goto good\<close>.\<close>

fun near_loop :: "nat list \<Rightarrow> nat \<Rightarrow> nat \<Rightarrow> nat \<Rightarrow> nat \<Rightarrow> bool \<times> nat \<times> nat" where
  "near_loop [] addr i bestd bestm = (False, bestd, bestm)"
| "near_loop (a # as) addr i bestd bestm =
    (if a \<le> addr \<and> addr - a < bestd then
       (if smallest_int (addr - a) then (True, addr - a, i + 2)
        else near_loop as addr (i + 1) (addr - a) (i + 2))
     else near_loop as addr (i + 1) bestd bestm)"

text \<open>The number to write and the mode: \<open>Inl\<close> for the label \<open>good\<close> (a size), \<open>Inr\<close> for one byte of
  the same array.\<close>

definition address_choice :: "addr_cache \<Rightarrow> nat \<Rightarrow> nat \<Rightarrow> nat \<times> nat + nat \<times> nat" where
  "address_choice ac addr here =
    (if smallest_int addr then Inl (addr, VCD_SELF)
     else
       let d = sub64 here addr in
       if d < addr \<and> smallest_int d then Inl (d, VCD_HERE)
       else
         let (bestd, bestm) = (if d < addr then (d, VCD_HERE) else (addr, VCD_SELF));
             (good, bestd, bestm) = near_loop (near_array ac) addr 0 bestd bestm;
             d = addr mod (s_same ac * 256) in
         if good then Inl (bestd, bestm)
         else if 0 < s_same ac \<and> same_array ac ! d = addr then Inr (d mod 256, s_near ac + 2 + d div 256)
         else Inl (bestd, bestm))"

definition xd3_encode_address ::
    "allocator \<Rightarrow> addr_cache \<Rightarrow> nat \<times> xd3_output \<Rightarrow> nat \<Rightarrow> nat \<Rightarrow> u8 \<Rightarrow>
      xd3_rvalue + addr_cache \<times> (nat \<times> xd3_output) \<times> u8" where
  "xd3_encode_address al ac addr_tail addr here mode =
    (let (emitted, bestm) =
       (case address_choice ac addr here of
          Inl (bestd, bestm) \<Rightarrow> (xd3_emit_size al addr_tail bestd, bestm)
        | Inr (bestd, bestm) \<Rightarrow> (xd3_emit_byte al addr_tail (of_nat bestd), bestm)) in
     sum_bind emitted (\<lambda>addr_tail'.
       Inr (xd3_update_cache ac addr, addr_tail', mode + of_nat bestm)))"

section \<open>The decoder\<close>

definition xd3_decode_address ::
    "addr_cache \<Rightarrow> nat \<Rightarrow> nat \<Rightarrow> bytes \<Rightarrow> xd3_rvalue + addr_cache \<times> bytes \<times> nat" where
  "xd3_decode_address ac here mode inp =
    (let same_start = 2 + s_near ac in
     if mode < same_start then
       sum_bind (xd3_read_uint64 inp) (\<lambda>(val, inp').
         if mode = VCD_SELF then Inr (xd3_update_cache ac val, inp', val)
         else if mode = VCD_HERE then Inr (xd3_update_cache ac (sub64 here val), inp', sub64 here val)
         else
           case fetch (near_array ac) (mode - 2) of
             None \<Rightarrow> Inl Fault
           | Some near \<Rightarrow> Inr (xd3_update_cache ac (add64 val near), inp', add64 val near))
     else
       case inp of
         [] \<Rightarrow> Inl XD3_INVALID_INPUT
       | b # inp' \<Rightarrow>
           (case fetch (same_array ac) ((mode - same_start) * 256 + unat b) of
              None \<Rightarrow> Inl Fault
            | Some val \<Rightarrow> Inr (xd3_update_cache ac val, inp', val)))"

section \<open>The invariant\<close>

text \<open>The arrays have their sizes, the slot is one of the near array, and every address is a 64-bit
  value.\<close>

definition cache_ok :: "addr_cache \<Rightarrow> bool" where
  "cache_ok ac \<longleftrightarrow> length (near_array ac) = s_near ac \<and> length (same_array ac) = s_same ac * 256 \<and>
    (0 < s_near ac \<longrightarrow> next_slot ac < s_near ac) \<and>
    (\<forall>a\<in>set (near_array ac). a < 2 ^ 64) \<and> (\<forall>a\<in>set (same_array ac). a < 2 ^ 64)"

lemma s_near_update [simp]: "s_near (xd3_update_cache ac addr) = s_near ac"
  by (simp add: xd3_update_cache_def Let_def)

lemma s_same_update [simp]: "s_same (xd3_update_cache ac addr) = s_same ac"
  by (simp add: xd3_update_cache_def Let_def)

lemma s_init [simp]: "s_near (xd3_init_cache ac) = s_near ac" "s_same (xd3_init_cache ac) = s_same ac"
  by (simp_all add: xd3_init_cache_def Let_def)

lemma cache_ok_update: "cache_ok ac \<Longrightarrow> addr < 2 ^ 64 \<Longrightarrow> cache_ok (xd3_update_cache ac addr)"
  by (auto simp: cache_ok_def xd3_update_cache_def Let_def dest: set_update_subset_insert [THEN subsetD])

lemma xd3_alloc_cache_frame:
  "xd3_alloc_cache al ac = Inr ac' \<Longrightarrow> s_near ac' = s_near ac \<and> s_same ac' = s_same ac \<and>
    length (near_array ac') = s_near ac \<and> length (same_array ac') = s_same ac * 256"
  by (auto simp: xd3_alloc_cache_def Let_def split: option.splits if_splits)

lemma xd3_alloc_cache_ok:
  assumes "memory_lasts al"
  shows "\<exists>ac'. xd3_alloc_cache al ac = Inr ac'"
proof -
  obtain f g where "al (s_near ac) 8 = Some f" "al (s_same ac * 256) 8 = Some g"
    using assms by (meson memory_lasts_def not_None_eq)
  then show ?thesis by (auto simp: xd3_alloc_cache_def Let_def)
qed

lemma cache_ok_init:
  "length (near_array ac) = s_near ac \<Longrightarrow> length (same_array ac) = s_same ac * 256 \<Longrightarrow>
    cache_ok (xd3_init_cache ac)"
  by (auto simp: cache_ok_def xd3_init_cache_def Let_def)

section \<open>The decoder undoes the encoder's choice\<close>

lemma near_loop_result:
  "near_loop as addr i bestd bestm = (good, d, m) \<Longrightarrow>
    (\<exists>j<length as. m = i + j + 2 \<and> as ! j \<le> addr \<and> d = addr - as ! j) \<or> (\<not> good \<and> d = bestd \<and> m = bestm)"
proof (induction as addr i bestd bestm rule: near_loop.induct)
  case (2 a as addr i bestd bestm)
  have later: "\<exists>j<length (a # as). m = i + j + 2 \<and> (a # as) ! j \<le> addr \<and> d = addr - (a # as) ! j"
    if "\<exists>j<length as. m = (i + 1) + j + 2 \<and> as ! j \<le> addr \<and> d = addr - as ! j"
  proof -
    from that obtain j where "j < length as" "m = (i + 1) + j + 2" "as ! j \<le> addr" "d = addr - as ! j" by blast
    then show ?thesis by (intro exI [of _ "Suc j"]) simp
  qed
  show ?case
  proof (cases "a \<le> addr \<and> addr - a < bestd")
    case taken: True
    show ?thesis
    proof (cases "smallest_int (addr - a)")
      case True
      then show ?thesis using 2(3) taken by (auto intro!: exI [of _ 0])
    next
      case False
      then have "near_loop as addr (i + 1) (addr - a) (i + 2) = (good, d, m)" using 2(3) taken by simp
      then have "(\<exists>j<length as. m = i + 1 + j + 2 \<and> as ! j \<le> addr \<and> d = addr - as ! j) \<or>
          (\<not> good \<and> d = addr - a \<and> m = i + 2)"
        by (rule 2(1) [OF taken False])
      then show ?thesis
      proof
        assume "\<not> good \<and> d = addr - a \<and> m = i + 2"
        then show ?thesis using taken by (intro disjI1 exI [of _ 0]) simp
      qed (use later in blast)
    qed
  next
    case False
    then have "near_loop as addr (i + 1) bestd bestm = (good, d, m)"
      using 2(3) by (simp only: near_loop.simps if_False)
    then show ?thesis using 2(2) [OF False] later by blast
  qed
qed simp

text \<open>Every choice determines the address.\<close>

lemma address_choice_cases:
  assumes "addr < here" "here < 2 ^ 64"
  shows "address_choice ac addr here = Inl (addr, VCD_SELF) \<or>
    address_choice ac addr here = Inl (here - addr, VCD_HERE) \<or>
    (\<exists>j<length (near_array ac). near_array ac ! j \<le> addr \<and>
      address_choice ac addr here = Inl (addr - near_array ac ! j, j + 2)) \<or>
    (0 < s_same ac \<and> same_array ac ! (addr mod (s_same ac * 256)) = addr \<and>
      address_choice ac addr here =
        Inr (addr mod (s_same ac * 256) mod 256, s_near ac + 2 + addr mod (s_same ac * 256) div 256))"
proof (cases "smallest_int addr")
  case True
  then show ?thesis by (simp add: address_choice_def)
next
  case ns: False
  have h: "sub64 here addr = here - addr" using assms by simp
  show ?thesis
  proof (cases "here - addr < addr \<and> smallest_int (here - addr)")
    case True
    then show ?thesis using ns by (simp add: address_choice_def h Let_def)
  next
    case nh: False
    define b0 where "b0 = (if here - addr < addr then (here - addr, VCD_HERE) else (addr, VCD_SELF))"
    obtain good d m where n: "near_loop (near_array ac) addr 0 (fst b0) (snd b0) = (good, d, m)"
      by (cases "near_loop (near_array ac) addr 0 (fst b0) (snd b0)") auto
    have e: "address_choice ac addr here =
        (let i = addr mod (s_same ac * 256) in
         if good then Inl (d, m)
         else if 0 < s_same ac \<and> same_array ac ! i = addr then Inr (i mod 256, s_near ac + 2 + i div 256)
         else Inl (d, m))"
      using ns nh n by (simp add: address_choice_def h Let_def b0_def split: if_splits)
    from near_loop_result [OF n] show ?thesis
      by (auto simp: e Let_def b0_def split: if_splits)
  qed
qed

lemma decode_address_inverse:
  assumes ok: "cache_ok ac" and bounds: "addr < here" "here < 2 ^ 64"
    and choice: "address_choice ac addr here = c"
    and written: "case c of Inl (d, m) \<Rightarrow> bs = xd3_emit_uint64 d \<and> mode = m | Inr (d, m) \<Rightarrow> bs = [of_nat d] \<and> mode = m"
  shows "xd3_decode_address ac here mode (bs @ rest) = Inr (xd3_update_cache ac addr, rest, addr) \<and>
    mode < 2 + s_near ac + s_same ac"
proof -
  consider (self) "c = Inl (addr, VCD_SELF)" | (here) "c = Inl (here - addr, VCD_HERE)"
    | (near) j where "j < length (near_array ac)" "near_array ac ! j \<le> addr" "c = Inl (addr - near_array ac ! j, j + 2)"
    | (same) "0 < s_same ac" "same_array ac ! (addr mod (s_same ac * 256)) = addr"
        "c = Inr (addr mod (s_same ac * 256) mod 256, s_near ac + 2 + addr mod (s_same ac * 256) div 256)"
    using address_choice_cases [OF bounds, of ac] unfolding choice by (elim disjE exE conjE) auto
  then show ?thesis
  proof cases
    case self
    then show ?thesis using written bounds by (simp add: xd3_decode_address_def VCD_SELF_def)
  next
    case here
    have "here - addr < 2 ^ 64" using \<open>here < 2 ^ 64\<close> by simp
    then show ?thesis using written here \<open>addr < here\<close> \<open>here < 2 ^ 64\<close>
      by (simp add: xd3_decode_address_def VCD_SELF_def VCD_HERE_def)
  next
    case (near j)
    have "near_array ac ! j \<le> addr" "addr - near_array ac ! j < 2 ^ 64" "j < s_near ac"
      using near ok bounds by (auto simp: cache_ok_def)
    then show ?thesis using written near bounds
      by (simp add: xd3_decode_address_def VCD_SELF_def VCD_HERE_def)
  next
    case same
    define i where "i = addr mod (s_same ac * 256)"
    have i: "i < s_same ac * 256" using same(1) by (simp add: i_def)
    then have "i div 256 < s_same ac" by (simp add: less_mult_imp_div_less)
    moreover have "i div 256 * 256 + i mod 256 = i" by simp
    moreover have "i < length (same_array ac)" using i ok by (simp add: cache_ok_def)
    ultimately show ?thesis using written same(2,3)
      by (simp add: xd3_decode_address_def i_def [symmetric])
  qed
qed

text \<open>The emission of an address, in terms of the choice.\<close>

definition address_bytes :: "nat \<times> nat + nat \<times> nat \<Rightarrow> bytes \<times> nat" where
  "address_bytes c = (case c of Inl (d, m) \<Rightarrow> (xd3_emit_uint64 d, m) | Inr (d, m) \<Rightarrow> ([of_nat d], m))"

lemma xd3_encode_address_ok:
  assumes "output_ok al out" "address_bytes (address_choice ac addr here) = (bs, bestm)"
  shows "\<exists>out'. xd3_encode_address al ac out addr here mode =
      Inr (xd3_update_cache ac addr, out', mode + of_nat bestm) \<and>
    output_ok al out' \<and> output_bytes out' = output_bytes out @ bs"
proof (cases "address_choice ac addr here")
  case (Inl p)
  then obtain d where "p = (d, bestm)" "bs = xd3_emit_uint64 d"
    using assms(2) by (cases p) (auto simp: address_bytes_def)
  then show ?thesis
    using Inl xd3_emit_bytes_ok [OF assms(1), of bs]
    by (auto simp: xd3_encode_address_def xd3_emit_size_def)
next
  case (Inr p)
  then obtain d where "p = (d, bestm)" "bs = [of_nat d]"
    using assms(2) by (cases p) (auto simp: address_bytes_def)
  then show ?thesis
    using Inr xd3_emit_byte_ok [OF assms(1), of "of_nat d"]
    by (auto simp: xd3_encode_address_def)
qed

lemma decode_address_bytes:
  assumes "cache_ok ac" "addr < here" "here < 2 ^ 64"
    and "address_bytes (address_choice ac addr here) = (bs, mode)"
  shows "xd3_decode_address ac here mode (bs @ rest) = Inr (xd3_update_cache ac addr, rest, addr) \<and>
    mode < 2 + s_near ac + s_same ac"
  using assms(4)
  by (intro decode_address_inverse [OF assms(1-3) refl])
    (auto simp: address_bytes_def split: sum.splits prod.splits)

text \<open>C36: An address written in the mode the encoder chooses is decoded to the same address from the
  bytes written, for any contents of the cache, when encoder and decoder hold the same cache and are
  at the same position; both are left with the same cache, which keeps its invariant.\<close>

theorem address_roundtrip:
  assumes "cache_ok ac" "addr < here" "here < 2 ^ 64" "output_ok al out"
    and "s_near ac + s_same ac < 250"
  shows "\<exists>bs out' m. xd3_encode_address al ac out addr here 3 = Inr (xd3_update_cache ac addr, out', m) \<and>
    output_bytes out' = output_bytes out @ bs \<and> bs \<noteq> [] \<and>
    xd3_decode_address ac here (unat m - 3) (bs @ rest) = Inr (xd3_update_cache ac addr, rest, addr) \<and>
    cache_ok (xd3_update_cache ac addr)"
proof -
  obtain bs bestm where c: "address_bytes (address_choice ac addr here) = (bs, bestm)" by fastforce
  note d = decode_address_bytes [OF assms(1-3) c]
  obtain out' where e: "xd3_encode_address al ac out addr here 3 = Inr (xd3_update_cache ac addr, out', 3 + of_nat bestm)"
      "output_bytes out' = output_bytes out @ bs"
    using xd3_encode_address_ok [OF assms(4) c, of 3] by blast
  have "bestm + 3 < 256" using conjunct2 [OF d [of rest]] assms(5) by simp
  then have m: "unat (3 + of_nat bestm :: u8) - 3 = bestm"
    by (simp add: unat_word_ariths)
  have "xd3_emit_uint64 x \<noteq> []" for x by (simp add: emit_integer_eq)
  then have "bs \<noteq> []" using c by (auto simp: address_bytes_def split: sum.splits prod.splits)
  moreover have "addr < 2 ^ 64" using assms(2,3) by (rule less_trans)
  ultimately show ?thesis
    using e d m cache_ok_update [OF assms(1)] by metis
qed

lemma address_roundtrip_witness:
  "\<exists>ac :: addr_cache. \<exists>bs out' m.
    xd3_encode_address (\<lambda>_ _. Some (\<lambda>_. 0)) ac (0, [[]]) 1000 5000 3 = Inr (xd3_update_cache ac 1000, out', m) \<and>
    output_bytes out' = bs \<and>
    xd3_decode_address ac 5000 (unat m - 3) (bs @ [9]) = Inr (xd3_update_cache ac 1000, [9], 1000)"
proof -
  define ac where "ac = \<lparr>s_near = 1, s_same = 0, next_slot = 0, near_array = [900], same_array = []\<rparr>"
  have "cache_ok ac" "s_near ac + s_same ac < 250" by (simp_all add: ac_def cache_ok_def)
  moreover have "output_ok (\<lambda>_ _. Some (\<lambda>_. 0)) (0, [[]])" by (simp add: output_ok_def memory_lasts_def)
  ultimately show ?thesis
    using address_roundtrip [of ac 1000 5000 "\<lambda>_ _. Some (\<lambda>_. 0)" "(0, [[]])" "[9]"]
    by (auto simp: output_bytes_def)
qed

end
