(* ===== verification/Xd3Table.thy ===== *)
theory Xd3Table
  imports Xd3Addr
begin

text \<open>
  The VCDIFF instruction codes: the default code table of RFC 3284, built from its description, and
  the encoder's choice of a code for an instruction or for a pair of adjacent ones. A byte of the
  instruction section is an index of the table, whose entry gives the types and sizes of one or two
  instructions (size 0: the size follows in the section). The theorem is that the codes the encoder
  writes stand in the table for the instructions it wrote them for.
\<close>

definition XD3_NOOP :: u8 where "XD3_NOOP = 0"
definition XD3_ADD :: u8 where "XD3_ADD = 1"
definition XD3_RUN :: u8 where "XD3_RUN = 2"
definition XD3_CPY :: u8 where "XD3_CPY = 3"
definition MIN_MATCH :: nat where "MIN_MATCH = 4"

section \<open>The table\<close>

record xd3_dinst =
  type1 :: u8
  size1 :: nat
  type2 :: u8
  size2 :: nat

record xd3_code_table_desc =
  add_sizes :: nat
  near_modes :: nat
  same_modes :: nat
  cpy_sizes :: nat
  addcopy_add_max :: nat
  addcopy_near_cpy_max :: nat
  addcopy_same_cpy_max :: nat
  copyadd_add_max :: nat
  copyadd_near_cpy_max :: nat
  copyadd_same_cpy_max :: nat

definition rfc3284_code_table_desc :: xd3_code_table_desc where
  "rfc3284_code_table_desc =
    \<lparr>add_sizes = 17, near_modes = 4, same_modes = 3, cpy_sizes = 15,
     addcopy_add_max = 4, addcopy_near_cpy_max = 6, addcopy_same_cpy_max = 4,
     copyadd_add_max = 1, copyadd_near_cpy_max = 4, copyadd_same_cpy_max = 4\<rparr>"

text \<open>An entry whose second half the loops do not write keeps the zeros of the static array.\<close>

definition single_code :: "u8 \<Rightarrow> nat \<Rightarrow> xd3_dinst" where
  "single_code t s = \<lparr>type1 = t, size1 = s, type2 = 0, size2 = 0\<rparr>"

definition xd3_build_code_table :: "xd3_code_table_desc \<Rightarrow> xd3_dinst list" where
  "xd3_build_code_table desc =
    (let cpy_modes = 2 + near_modes desc + same_modes desc;
         cpy = (\<lambda>mode. XD3_CPY + of_nat mode) in
     [single_code XD3_RUN 0, single_code XD3_ADD 0] @
     map (single_code XD3_ADD) [1..<add_sizes desc + 1] @
     concat (map (\<lambda>mode.
       single_code (cpy mode) 0 # map (single_code (cpy mode)) [MIN_MATCH..<MIN_MATCH + cpy_sizes desc]) [0..<cpy_modes]) @
     concat (map (\<lambda>mode. concat (map (\<lambda>sz1.
       let mx = (if mode < 2 + near_modes desc then addcopy_near_cpy_max desc else addcopy_same_cpy_max desc) in
       map (\<lambda>sz2. \<lparr>type1 = XD3_ADD, size1 = sz1, type2 = cpy mode, size2 = sz2\<rparr>) [MIN_MATCH..<mx + 1])
       [1..<addcopy_add_max desc + 1])) [0..<cpy_modes]) @
     concat (map (\<lambda>mode.
       let mx = (if mode < 2 + near_modes desc then copyadd_near_cpy_max desc else copyadd_same_cpy_max desc) in
       concat (map (\<lambda>sz1.
         map (\<lambda>sz2. \<lparr>type1 = cpy mode, size1 = sz1, type2 = XD3_ADD, size2 = sz2\<rparr>) [1..<copyadd_add_max desc + 1])
       [MIN_MATCH..<mx + 1])) [0..<cpy_modes]))"

definition xd3_rfc3284_code_table :: "xd3_dinst list" where
  "xd3_rfc3284_code_table = xd3_build_code_table rfc3284_code_table_desc"

lemma length_code_table [simp]: "length xd3_rfc3284_code_table = 256"
  by code_simp

section \<open>The choice of a code\<close>

record xd3_rinst =
  rtype :: u8
  xtra :: u8
  code1 :: u8
  code2 :: u8
  rpos :: nat
  rsize :: nat
  raddr :: nat

definition xd3_choose_instruction :: "xd3_rinst option \<Rightarrow> xd3_rinst \<Rightarrow> xd3_rinst option \<times> xd3_rinst" where
  "xd3_choose_instruction prev inst =
    (if rtype inst = XD3_RUN then (prev, inst\<lparr>code1 := 0\<rparr>)
     else if rtype inst = XD3_ADD then
       (if rsize inst \<le> 17 then
          ((case prev of
              None \<Rightarrow> None
            | Some p \<Rightarrow>
                Some (if rsize inst = 1 \<and> rsize p = 4 \<and> XD3_CPY \<le> rtype p
                      then p\<lparr>code2 := 247 + (rtype p - XD3_CPY)\<rparr> else p)),
           inst\<lparr>code1 := 1 + of_nat (rsize inst)\<rparr>)
        else (prev, inst\<lparr>code1 := 1\<rparr>))
     else
       let mode = rtype inst - XD3_CPY in
       if rsize inst \<le> 18 \<and> 4 \<le> rsize inst then
         ((case prev of
             None \<Rightarrow> None
           | Some p \<Rightarrow>
               Some (if rtype p = XD3_ADD \<and> rsize p \<le> 4 then
                       (if rsize inst \<le> 6 \<and> mode \<le> 5 then
                          p\<lparr>code2 := 163 + mode * 12 + 3 * (of_nat (rsize p) - 1) + (of_nat (rsize inst) - 4)\<rparr>
                        else if rsize inst = 4 \<and> 6 \<le> mode then
                          p\<lparr>code2 := 235 + (mode - 6) * 4 + (of_nat (rsize p) - 1)\<rparr>
                        else p)
                     else p)),
          inst\<lparr>code1 := 19 + 16 * mode + of_nat (rsize inst - 3)\<rparr>)
       else (prev, inst\<lparr>code1 := 19 + 16 * mode\<rparr>))"

section \<open>The codes stand for the instructions\<close>

text \<open>The entries of the table, by kind.\<close>

abbreviation "code_entry c \<equiv> xd3_rfc3284_code_table ! c"

lemma entry_add: "\<forall>s\<in>set [1..<18]. code_entry (1 + s) = single_code XD3_ADD s"
  by code_simp

lemma entry_run_add: "code_entry 0 = single_code XD3_RUN 0" "code_entry 1 = single_code XD3_ADD 0"
  by code_simp+

lemma entry_copy:
  "\<forall>m\<in>set [0..<9]. code_entry (19 + 16 * m) = single_code (XD3_CPY + of_nat m) 0 \<and>
    (\<forall>s\<in>set [4..<19]. code_entry (19 + 16 * m + (s - 3)) = single_code (XD3_CPY + of_nat m) s)"
  by code_simp

lemma entry_addcopy_near:
  "\<forall>m\<in>set [0..<6]. \<forall>a\<in>set [1..<5]. \<forall>s\<in>set [4..<7].
    code_entry (163 + m * 12 + 3 * (a - 1) + (s - 4)) =
      \<lparr>type1 = XD3_ADD, size1 = a, type2 = XD3_CPY + of_nat m, size2 = s\<rparr>"
  by code_simp

lemma entry_addcopy_same:
  "\<forall>m\<in>set [6..<9]. \<forall>a\<in>set [1..<5].
    code_entry (235 + (m - 6) * 4 + (a - 1)) =
      \<lparr>type1 = XD3_ADD, size1 = a, type2 = XD3_CPY + of_nat m, size2 = 4\<rparr>"
  by code_simp

lemma entry_copyadd:
  "\<forall>m\<in>set [0..<9]. code_entry (247 + m) = \<lparr>type1 = XD3_CPY + of_nat m, size1 = 4, type2 = XD3_ADD, size2 = 1\<rparr>"
  by code_simp

text \<open>The instructions the encoder has: runs, adds and copies in one of the nine modes.\<close>

definition inst_type :: "u8 \<Rightarrow> bool" where
  "inst_type t \<longleftrightarrow> 1 \<le> unat t \<and> unat t < 12"

lemma inst_type_cases:
  assumes "inst_type t"
  obtains (add) "t = XD3_ADD" | (run) "t = XD3_RUN" | (copy) m where "m < 9" "t = XD3_CPY + of_nat m"
proof -
  have t: "1 \<le> unat t" "unat t < 12" using assms by (simp_all add: inst_type_def)
  consider "unat t = 1" | "unat t = 2" | "3 \<le> unat t" using t by linarith
  then show ?thesis
  proof cases
    case 1
    then show ?thesis by (intro add) (simp add: XD3_ADD_def word_unat_eq_iff)
  next
    case 2
    then show ?thesis by (intro run) (simp add: XD3_RUN_def word_unat_eq_iff)
  next
    case 3
    then have "of_nat (3 + (unat t - 3)) = t" by simp
    then have "t = XD3_CPY + of_nat (unat t - 3)" by (simp add: XD3_CPY_def)
    then show ?thesis using t 3 by (intro copy [of "unat t - 3"]) auto
  qed
qed

lemma code_byte: "n < 256 \<Longrightarrow> (of_nat n :: u8) = w \<Longrightarrow> unat w = n"
  by auto

lemma copy_type_neq:
  "m < 9 \<Longrightarrow> XD3_CPY + of_nat m \<noteq> XD3_ADD" "m < 9 \<Longrightarrow> XD3_CPY + of_nat m \<noteq> XD3_RUN"
proof -
  have "unat (XD3_CPY + of_nat m) = 3 + m" if "m < 9"
    using that by (intro code_byte) (auto simp: XD3_CPY_def)
  then show "m < 9 \<Longrightarrow> XD3_CPY + of_nat m \<noteq> XD3_ADD" "m < 9 \<Longrightarrow> XD3_CPY + of_nat m \<noteq> XD3_RUN"
    by (force simp: XD3_ADD_def XD3_RUN_def)+
qed

lemma choose_code1:
  assumes "inst_type (rtype inst)" "xd3_choose_instruction prev inst = (prev', inst')"
  shows "inst' = inst\<lparr>code1 := code1 inst'\<rparr> \<and>
    (code_entry (unat (code1 inst')) = single_code (rtype inst) 0 \<or>
     code_entry (unat (code1 inst')) = single_code (rtype inst) (rsize inst))"
  using assms(1)
proof (cases rule: inst_type_cases)
  case add
  then have i: "inst' = inst\<lparr>code1 := (if rsize inst \<le> 17 then 1 + of_nat (rsize inst) else 1)\<rparr>"
    using assms(2) by (auto simp: xd3_choose_instruction_def XD3_ADD_def XD3_RUN_def split: if_splits)
  show ?thesis
  proof (cases "rsize inst \<in> set [1..<18]")
    case True
    then have "unat (1 + of_nat (rsize inst) :: u8) = 1 + rsize inst" by (intro code_byte) auto
    moreover have "code_entry (1 + rsize inst) = single_code XD3_ADD (rsize inst)" using entry_add True by blast
    ultimately show ?thesis using i True add by simp
  next
    case False
    then have "rsize inst = 0 \<or> 17 < rsize inst" by auto
    then have "code1 inst' = 1" using i by auto
    then show ?thesis using i entry_run_add(2) add by simp
  qed
next
  case run
  then have "inst' = inst\<lparr>code1 := 0\<rparr>" using assms(2) by (simp add: xd3_choose_instruction_def)
  then show ?thesis using entry_run_add(1) run by simp
next
  case (copy m)
  then have i: "inst' = inst\<lparr>code1 := (if rsize inst \<le> 18 \<and> 4 \<le> rsize inst
      then 19 + 16 * of_nat m + of_nat (rsize inst - 3) else 19 + 16 * of_nat m)\<rparr>"
    using assms(2) copy_type_neq [OF copy(1)]
    by (auto simp: xd3_choose_instruction_def Let_def split: if_splits)
  have m: "m \<in> set [0..<9]" using copy(1) by simp
  show ?thesis
  proof (cases "rsize inst \<in> set [4..<19]")
    case True
    then have "unat (19 + 16 * of_nat m + of_nat (rsize inst - 3) :: u8) = 19 + 16 * m + (rsize inst - 3)"
      using copy(1) by (intro code_byte) auto
    moreover have "code1 inst' = 19 + 16 * of_nat m + of_nat (rsize inst - 3)" using i True by auto
    moreover have "code_entry (19 + 16 * m + (rsize inst - 3)) = single_code (rtype inst) (rsize inst)"
      using bspec [OF conjunct2 [OF bspec [OF entry_copy m]] True] copy(2) by simp
    ultimately show ?thesis using i by simp
  next
    case False
    then have "\<not> (rsize inst \<le> 18 \<and> 4 \<le> rsize inst)" by (simp only: set_upt atLeastLessThan_iff) linarith
    then have "code1 inst' = 19 + 16 * of_nat m" using i by (cases "rsize inst \<le> 18") auto
    moreover have "unat (19 + 16 * of_nat m :: u8) = 19 + 16 * m" using copy(1) by (intro code_byte) auto
    moreover have "code_entry (19 + 16 * m) = single_code (rtype inst) 0"
      using conjunct1 [OF bspec [OF entry_copy m]] copy(2) by simp
    ultimately show ?thesis using i by simp
  qed
qed

text \<open>The pair \<open>p\<close>, \<open>inst\<close> as an entry of the table.\<close>

definition pair_code :: "xd3_rinst \<Rightarrow> xd3_rinst \<Rightarrow> xd3_dinst" where
  "pair_code p inst = \<lparr>type1 = rtype p, size1 = rsize p, type2 = rtype inst, size2 = rsize inst\<rparr>"

lemma choose_code2_add:
  assumes "inst_type (rtype p)" "rtype inst = XD3_ADD" "code2 p = 0"
    and "xd3_choose_instruction (Some p) inst = (Some p', inst')"
  shows "p' = p\<lparr>code2 := code2 p'\<rparr> \<and> (code2 p' \<noteq> 0 \<longrightarrow> code_entry (unat (code2 p')) = pair_code p inst)"
proof (cases "rsize inst = 1 \<and> rsize p = 4 \<and> XD3_CPY \<le> rtype p")
  case True
  have "3 \<le> unat (rtype p)" using True by (simp add: XD3_CPY_def word_le_nat_alt)
  then have "rtype p \<noteq> XD3_ADD" "rtype p \<noteq> XD3_RUN" by (auto simp: XD3_ADD_def XD3_RUN_def)
  then obtain m where m: "m < 9" "rtype p = XD3_CPY + of_nat m"
    using inst_type_cases [OF assms(1)] by blast
  have p: "p' = p\<lparr>code2 := 247 + of_nat m\<rparr>"
    using assms(2,4) True m(2) by (auto simp: xd3_choose_instruction_def XD3_ADD_def XD3_RUN_def)
  have "m \<in> set [0..<9]" using m(1) by simp
  then have "code_entry (247 + m) = pair_code p inst"
    using entry_copyadd True m(2) assms(2) by (fastforce simp: pair_code_def)
  moreover have "unat (247 + of_nat m :: u8) = 247 + m" using m(1) by (intro code_byte) auto
  ultimately show ?thesis using p by simp
next
  case False
  then have "p' = p"
    using assms(2,4) by (auto simp: xd3_choose_instruction_def XD3_ADD_def XD3_RUN_def split: if_splits)
  then show ?thesis using assms(3) by simp
qed

lemma choose_code2_copy:
  assumes m: "m < 9" "rtype inst = XD3_CPY + of_nat m" and p0: "code2 p = 0" "0 < rsize p"
    and "xd3_choose_instruction (Some p) inst = (Some p', inst')"
  shows "p' = p\<lparr>code2 := code2 p'\<rparr> \<and> (code2 p' \<noteq> 0 \<longrightarrow> code_entry (unat (code2 p')) = pair_code p inst)"
proof -
  define near where "near \<longleftrightarrow> rtype p = XD3_ADD \<and> rsize p \<le> 4 \<and> 4 \<le> rsize inst \<and> rsize inst \<le> 6 \<and> m \<le> 5"
  define same where "same \<longleftrightarrow> rtype p = XD3_ADD \<and> rsize p \<le> 4 \<and> rsize inst = 4 \<and> 6 \<le> m"
  have le: "(of_nat m :: u8) \<le> 5 \<longleftrightarrow> m \<le> 5" "(6 :: u8) \<le> of_nat m \<longleftrightarrow> 6 \<le> m"
    using m(1) by (simp_all add: word_le_nat_alt)
  have p': "p' = (if near then p\<lparr>code2 := 163 + of_nat m * 12 + 3 * (of_nat (rsize p) - 1) + (of_nat (rsize inst) - 4)\<rparr>
      else if same then p\<lparr>code2 := 235 + (of_nat m - 6) * 4 + (of_nat (rsize p) - 1)\<rparr> else p)"
    using assms(5) copy_type_neq [OF m(1)] m(2) le
    by (auto simp: xd3_choose_instruction_def Let_def near_def same_def split: if_splits)
  consider near | "\<not> near" same | "\<not> near" "\<not> same" by blast
  then show ?thesis
  proof cases
    case 1
    have r: "rsize p \<in> set [1..<5]" "rsize inst \<in> set [4..<7]" "m \<in> set [0..<6]"
      using 1 p0(2) by (auto simp: near_def)
    have w: "(of_nat (rsize p) - 1 :: u8) = of_nat (rsize p - 1)" "(of_nat (rsize inst) - 4 :: u8) = of_nat (rsize inst - 4)"
    proof -
      have "1 \<le> rsize p" "4 \<le> rsize inst" using r(1,2) by auto
      then show "(of_nat (rsize p) - 1 :: u8) = of_nat (rsize p - 1)"
          "(of_nat (rsize inst) - 4 :: u8) = of_nat (rsize inst - 4)"
        by (simp_all add: of_nat_diff)
    qed
    have "unat (163 + of_nat m * 12 + 3 * (of_nat (rsize p) - 1) + (of_nat (rsize inst) - 4) :: u8) =
        163 + m * 12 + 3 * (rsize p - 1) + (rsize inst - 4)"
      unfolding w using r by (intro code_byte) auto
    moreover have "code_entry (163 + m * 12 + 3 * (rsize p - 1) + (rsize inst - 4)) = pair_code p inst"
      using bspec [OF bspec [OF bspec [OF entry_addcopy_near r(3)] r(1)] r(2)] 1 m(2)
      by (simp add: pair_code_def near_def)
    ultimately show ?thesis using p' 1 by simp
  next
    case 2
    have r: "rsize p \<in> set [1..<5]" "m \<in> set [6..<9]" "rsize inst = 4"
      using 2 p0(2) m(1) by (auto simp: same_def)
    have w: "(of_nat (rsize p) - 1 :: u8) = of_nat (rsize p - 1)" "(of_nat m - 6 :: u8) = of_nat (m - 6)"
    proof -
      have "1 \<le> rsize p" "6 \<le> m" using r(1,2) by auto
      then show "(of_nat (rsize p) - 1 :: u8) = of_nat (rsize p - 1)" "(of_nat m - 6 :: u8) = of_nat (m - 6)"
        by (simp_all add: of_nat_diff)
    qed
    have "unat (235 + (of_nat m - 6) * 4 + (of_nat (rsize p) - 1) :: u8) = 235 + (m - 6) * 4 + (rsize p - 1)"
      unfolding w using r by (intro code_byte) auto
    moreover have "code_entry (235 + (m - 6) * 4 + (rsize p - 1)) = pair_code p inst"
      using bspec [OF bspec [OF entry_addcopy_same r(2)] r(1)] 2 m(2) r(3)
      by (simp add: pair_code_def same_def)
    ultimately show ?thesis using p' 2 by simp
  next
    case 3
    then show ?thesis using p' p0(1) by simp
  qed
qed

lemma choose_prev:
  "xd3_choose_instruction prev inst = (prev', inst') \<Longrightarrow> prev' = None \<longleftrightarrow> prev = None"
  by (auto simp: xd3_choose_instruction_def Let_def split: if_splits option.splits)

lemma choose_code2:
  assumes "inst_type (rtype inst)" "inst_type (rtype p)" "code2 p = 0" "0 < rsize p"
    and "xd3_choose_instruction (Some p) inst = (prev', inst')"
  shows "\<exists>p'. prev' = Some p' \<and> p' = p\<lparr>code2 := code2 p'\<rparr> \<and>
    (code2 p' \<noteq> 0 \<longrightarrow> code_entry (unat (code2 p')) = pair_code p inst)"
proof -
  obtain p' where p': "prev' = Some p'" using choose_prev [OF assms(5)] by (cases prev') auto
  have "p' = p\<lparr>code2 := code2 p'\<rparr> \<and> (code2 p' \<noteq> 0 \<longrightarrow> code_entry (unat (code2 p')) = pair_code p inst)"
    using assms(1)
  proof (cases rule: inst_type_cases)
    case add
    then show ?thesis using choose_code2_add assms p' by simp
  next
    case run
    then have "p' = p" using assms(5) p' by (simp add: xd3_choose_instruction_def)
    then show ?thesis using assms(3) by simp
  next
    case (copy m)
    then show ?thesis using choose_code2_copy assms p' by simp
  qed
  then show ?thesis using p' by blast
qed

text \<open>C37: The code chosen for a single instruction is an entry of the default table with that type
  alone and the instruction's size or size 0 (the size follows); a code chosen for two adjacent
  instructions is the entry with both types and both sizes. The choice changes nothing else.\<close>

theorem choose_instruction_correct:
  assumes "inst_type (rtype inst)" "inst_type (rtype p)" "code2 p = 0" "0 < rsize p"
    and "xd3_choose_instruction (Some p) inst = (prev', inst')"
  shows "\<exists>p'. prev' = Some p' \<and> p' = p\<lparr>code2 := code2 p'\<rparr> \<and> inst' = inst\<lparr>code1 := code1 inst'\<rparr> \<and>
    (code_entry (unat (code1 inst')) = single_code (rtype inst) 0 \<or>
     code_entry (unat (code1 inst')) = single_code (rtype inst) (rsize inst)) \<and>
    (code2 p' \<noteq> 0 \<longrightarrow> code_entry (unat (code2 p')) = pair_code p inst)"
  using choose_code2 [OF assms] choose_code1 [OF assms(1,5)] by blast

lemma choose_instruction_correct_witness:
  "\<exists>p'. fst (xd3_choose_instruction
      (Some \<lparr>rtype = 1, xtra = 0, code1 = 3, code2 = 0, rpos = 0, rsize = 2, raddr = 0\<rparr>)
      \<lparr>rtype = 4, xtra = 0, code1 = 0, code2 = 0, rpos = 2, rsize = 5, raddr = 7\<rparr>) = Some p' \<and>
    code2 p' \<noteq> 0 \<and> code_entry (unat (code2 p')) = \<lparr>type1 = 1, size1 = 2, type2 = 4, size2 = 5\<rparr>"
proof -
  let ?p = "\<lparr>rtype = 1, xtra = 0, code1 = 3, code2 = 0, rpos = 0, rsize = 2, raddr = 0\<rparr> :: xd3_rinst"
  let ?i = "\<lparr>rtype = 4, xtra = 0, code1 = 0, code2 = 0, rpos = 2, rsize = 5, raddr = 7\<rparr> :: xd3_rinst"
  obtain prev' inst' where c: "xd3_choose_instruction (Some ?p) ?i = (prev', inst')" by fastforce
  have "inst_type (rtype ?i)" "inst_type (rtype ?p)" "code2 ?p = 0" "0 < rsize ?p"
    by (simp_all add: inst_type_def)
  from choose_instruction_correct [OF this c] obtain p' where
    p': "prev' = Some p'" "code2 p' \<noteq> 0 \<longrightarrow> code_entry (unat (code2 p')) = pair_code ?p ?i" by blast
  have "code2 p' = 179"
    using c p'(1) by (auto simp: xd3_choose_instruction_def XD3_RUN_def XD3_ADD_def XD3_CPY_def)
  then show ?thesis using c p' by (simp add: pair_code_def)
qed

end
