(* ===== verification/Adler32.thy ===== *)
theory Adler32
  imports Xd3Ints
begin

text \<open>
  The checksum of a target window (\<open>adler32\<close> in \<open>xdelta3.c\<close>, from zlib): 32-bit sums, reduced
  modulo 65521 only once per 5552 bytes, with the inner loop unrolled sixteen times. The theorem is
  that this gives the checksum of RFC 1950, which reduces after every byte: no sum overflows.
\<close>

unbundle bit_operations_syntax

definition A32_BASE :: nat where "A32_BASE = 65521"
definition A32_NMAX :: nat where "A32_NMAX = 5552"

section \<open>The code\<close>

text \<open>\<open>A32_DO1\<close>, and the loops over sixteen bytes and over the rest of a block of \<open>k\<close>.\<close>

definition a32_do1 :: "u32 \<times> u32 \<Rightarrow> u8 \<Rightarrow> u32 \<times> u32" where
  "a32_do1 = (\<lambda>(s1, s2) b. (s1 + ucast b, s2 + (s1 + ucast b)))"

fun a32_do16_loop :: "nat \<Rightarrow> bytes \<Rightarrow> u32 \<times> u32 \<Rightarrow> nat \<times> bytes \<times> (u32 \<times> u32)" where
  "a32_do16_loop k buf s =
    (if 16 \<le> k then a32_do16_loop (k - 16) (drop 16 buf) (foldl a32_do1 s (take 16 buf)) else (k, buf, s))"

fun a32_do1_loop :: "nat \<Rightarrow> bytes \<Rightarrow> u32 \<times> u32 \<Rightarrow> bytes \<times> (u32 \<times> u32)" where
  "a32_do1_loop 0 buf s = (buf, s)"
| "a32_do1_loop (Suc k) buf s = a32_do1_loop k (drop 1 buf) (foldl a32_do1 s (take 1 buf))"

function adler32_loop :: "nat \<Rightarrow> bytes \<Rightarrow> u32 \<times> u32 \<Rightarrow> u32 \<times> u32" where
  "adler32_loop len buf s =
    (if 0 < len then
       let k = (if len < A32_NMAX then len else A32_NMAX);
           len' = len - k;
           (k', buf', s') = a32_do16_loop k buf s;
           (buf'', s1, s2) = a32_do1_loop k' buf' s' in
       adler32_loop len' buf'' (s1 mod of_nat A32_BASE, s2 mod of_nat A32_BASE)
     else s)"
  by pat_completeness auto
termination
  by (relation "measure fst") (auto simp: A32_NMAX_def split: if_splits)

declare a32_do16_loop.simps [simp del] adler32_loop.simps [simp del]

definition adler32 :: "u32 \<Rightarrow> bytes \<Rightarrow> u32" where
  "adler32 adler buf =
    (let (s1, s2) = adler32_loop (length buf) buf (adler AND 0xffff, drop_bit 16 adler AND 0xffff) in
     push_bit 16 s2 OR s1)"

section \<open>The checksum of RFC 1950\<close>

definition rfc1950_step :: "nat \<times> nat \<Rightarrow> u8 \<Rightarrow> nat \<times> nat" where
  "rfc1950_step = (\<lambda>(s1, s2) b. ((s1 + unat b) mod A32_BASE, (s2 + (s1 + unat b)) mod A32_BASE))"

definition rfc1950_checksum :: "bytes \<Rightarrow> nat" where
  "rfc1950_checksum bs = (let (s1, s2) = foldl rfc1950_step (1, 0) bs in s2 * 65536 + s1)"

section \<open>The sums of a block\<close>

text \<open>The sums without wrap-around and without reduction.\<close>

definition sum_step :: "nat \<times> nat \<Rightarrow> u8 \<Rightarrow> nat \<times> nat" where
  "sum_step = (\<lambda>(a, c) b. (a + unat b, c + (a + unat b)))"

lemma sums_bound:
  "foldl sum_step (a, c) bs = (a', c') \<Longrightarrow>
    a' \<le> a + 255 * length bs \<and> 2 * c' \<le> 2 * c + 2 * (length bs * a) + 255 * (length bs * (length bs + 1))"
proof (induction bs arbitrary: a c)
  case (Cons b bs)
  have u: "unat b \<le> 255" using unat_u8_less [of b] by linarith
  have "sum_step (a, c) b = (a + unat b, c + (a + unat b))" by (simp add: sum_step_def)
  then have "foldl sum_step (a + unat b, c + (a + unat b)) bs = (a', c')" using Cons.prems by simp
  then have ih: "a' \<le> (a + unat b) + 255 * length bs \<and>
      2 * c' \<le> 2 * (c + (a + unat b)) + 2 * (length bs * (a + unat b)) + 255 * (length bs * (length bs + 1))"
    by (rule Cons.IH)
  define na nb nn where "na = length bs * a" and "nb = length bs * unat b" and "nn = length bs * (length bs + 1)"
  have p: "length bs * (a + unat b) = na + nb" "nb \<le> length bs * 255"
    using u by (simp_all add: na_def nb_def distrib_left)
  have q: "length (b # bs) * a = a + na"
      "length (b # bs) * (length (b # bs) + 1) = nn + 2 * length bs + 2"
    by (simp_all add: na_def nn_def algebra_simps)
  have "2 * c' \<le> 2 * (c + (a + unat b)) + 2 * (na + nb) + 255 * nn"
    using conjunct2 [OF ih] by (simp only: p nn_def)
  then have "2 * c' \<le> 2 * c + 2 * (a + na) + 255 * (nn + 2 * length bs + 2)" using p(2) u by simp
  moreover have "a' \<le> a + 255 * length (b # bs)" using conjunct1 [OF ih] u by simp
  ultimately show ?case by (simp only: q simp_thms)
qed (simp add: sum_step_def)

lemma words_sums:
  "foldl sum_step (a, c) bs = (a', c') \<Longrightarrow>
    foldl a32_do1 (of_nat a, of_nat c) bs = (of_nat a', of_nat c')"
proof (induction bs arbitrary: a c)
  case (Cons b bs)
  have "(ucast b :: u32) = of_nat (unat b)" by simp
  then have "a32_do1 (of_nat a, of_nat c) b = (of_nat (a + unat b), of_nat (c + (a + unat b)))"
    by (simp only: a32_do1_def prod.case of_nat_add)
  then show ?case using Cons by (simp add: sum_step_def del: of_nat_add)
qed simp

lemma rfc1950_sums:
  "foldl sum_step (a, c) bs = (a', c') \<Longrightarrow>
    foldl rfc1950_step (a mod A32_BASE, c mod A32_BASE) bs = (a' mod A32_BASE, c' mod A32_BASE)"
proof (induction bs arbitrary: a c)
  case (Cons b bs)
  have "rfc1950_step (a mod A32_BASE, c mod A32_BASE) b =
      ((a + unat b) mod A32_BASE, (c + (a + unat b)) mod A32_BASE)"
  proof -
    have "(c + (a mod A32_BASE + unat b)) mod A32_BASE = (c + (a + unat b)) mod A32_BASE"
      by (metis mod_add_left_eq mod_add_right_eq)
    then show ?thesis by (simp add: rfc1950_step_def mod_simps)
  qed
  then show ?case using Cons by (simp add: sum_step_def)
qed simp

text \<open>A block of \<open>A32_NMAX\<close> bytes keeps both sums below \<open>2 ^ 32\<close>.\<close>

lemma block_no_overflow:
  assumes "foldl sum_step (a, c) bs = (a', c')" "length bs \<le> A32_NMAX" "a < 65536" "c < 65536"
  shows "a' < 2 ^ 32 \<and> c' < 2 ^ 32"
proof -
  have n: "length bs \<le> 5552" using assms(2) by (simp add: A32_NMAX_def)
  have "length bs * a \<le> 5552 * 65535" using n assms(3) by (intro mult_le_mono) auto
  moreover have "length bs * (length bs + 1) \<le> 5552 * 5553" using n by (intro mult_le_mono) auto
  ultimately show ?thesis using sums_bound [OF assms(1)] assms(3,4) n by simp
qed

section \<open>The loops\<close>

lemma a32_do16_loop_eq:
  "a32_do16_loop k buf s = (k', buf', s') \<Longrightarrow> k \<le> length buf \<Longrightarrow>
    k' \<le> k \<and> buf' = drop (k - k') buf \<and> s' = foldl a32_do1 s (take (k - k') buf)"
proof (induction k buf s rule: a32_do16_loop.induct)
  case (1 k buf s)
  show ?case
  proof (cases "16 \<le> k")
    case True
    then have r: "a32_do16_loop (k - 16) (drop 16 buf) (foldl a32_do1 s (take 16 buf)) = (k', buf', s')"
      using 1(2) by (simp add: a32_do16_loop.simps [of k])
    have "k - 16 \<le> length (drop 16 buf)" using 1(3) by simp
    from 1(1) [OF True r this] have ih: "k' \<le> k - 16" "buf' = drop (k - 16 - k') (drop 16 buf)"
        "s' = foldl a32_do1 (foldl a32_do1 s (take 16 buf)) (take (k - 16 - k') (drop 16 buf))" by auto
    have e: "take (k - k') buf = take 16 buf @ take (k - 16 - k') (drop 16 buf)"
      using ih(1) True take_add [of 16 "k - 16 - k'" buf] by simp
    show ?thesis using ih True by (simp add: e foldl_append [symmetric] del: foldl_append)
  next
    case False
    then show ?thesis using 1(2) by (simp add: a32_do16_loop.simps [of k])
  qed
qed

lemma a32_do1_loop_eq:
  "k \<le> length buf \<Longrightarrow> a32_do1_loop k buf s = (drop k buf, foldl a32_do1 s (take k buf))"
proof (induction k arbitrary: buf s)
  case (Suc k)
  then obtain b buf' where "buf = b # buf'" by (cases buf) auto
  then show ?case using Suc by simp
qed simp

lemma a32_block:
  assumes "k \<le> length buf" "a32_do16_loop k buf s = (k', buf', s')" "a32_do1_loop k' buf' s' = (buf'', s'')"
  shows "buf'' = drop k buf \<and> s'' = foldl a32_do1 s (take k buf)"
proof -
  have d: "k' \<le> k" "buf' = drop (k - k') buf" "s' = foldl a32_do1 s (take (k - k') buf)"
    using a32_do16_loop_eq [OF assms(2,1)] by auto
  have "k' \<le> length buf'" using d(1,2) assms(1) by simp
  then have "buf'' = drop k' buf'" "s'' = foldl a32_do1 s' (take k' buf')"
    using assms(3) a32_do1_loop_eq by auto
  moreover have "take k buf = take (k - k') buf @ take k' (drop (k - k') buf)"
    using d(1) take_add [of "k - k'" k' buf] by simp
  ultimately show ?thesis using d by simp
qed

lemma word_mod_base:
  "unat ((w :: u32) mod of_nat A32_BASE) = unat w mod A32_BASE"
  by (simp add: A32_BASE_def unat_mod_distrib)

lemma adler32_loop_sums:
  "len = length buf \<Longrightarrow> unat s1 < 65536 \<Longrightarrow> unat s2 < 65536 \<Longrightarrow> 0 < len \<Longrightarrow>
    adler32_loop len buf (s1, s2) = (of_nat (fst r), of_nat (snd r)) \<and> fst r < A32_BASE \<and> snd r < A32_BASE"
  if "r = foldl rfc1950_step (unat s1 mod A32_BASE, unat s2 mod A32_BASE) buf"
  for r :: "nat \<times> nat"
  using that
proof (induction len arbitrary: buf s1 s2 r rule: less_induct)
  case (less len)
  define k where "k = (if len < A32_NMAX then len else A32_NMAX)"
  have k: "k \<le> length buf" "0 < k" "k \<le> A32_NMAX"
    using less.prems by (auto simp: k_def A32_NMAX_def split: if_splits)
  obtain k' buf' s' where l1: "a32_do16_loop k buf (s1, s2) = (k', buf', s')"
    by (cases "a32_do16_loop k buf (s1, s2)") auto
  obtain buf'' t1 t2 where l2: "a32_do1_loop k' buf' s' = (buf'', t1, t2)"
    by (cases "a32_do1_loop k' buf' s'") auto
  have b: "buf'' = drop k buf" "(t1, t2) = foldl a32_do1 (s1, s2) (take k buf)"
    using a32_block [OF k(1) l1 l2] by simp_all
  obtain a c where sums: "foldl sum_step (unat s1, unat s2) (take k buf) = (a, c)" by fastforce
  have bound: "a < 2 ^ 32" "c < 2 ^ 32"
    using block_no_overflow [OF sums] k less.prems by auto
  have "t1 = of_nat a" "t2 = of_nat c" using words_sums [OF sums] b(2) by auto
  then have u: "unat (t1 mod of_nat A32_BASE) = a mod A32_BASE" "unat (t2 mod of_nat A32_BASE) = c mod A32_BASE"
    using bound by (simp_all only: word_mod_base unat_of_nat) (simp_all add: take_bit_nat_eq_self)
  have r: "r = foldl rfc1950_step (a mod A32_BASE, c mod A32_BASE) (drop k buf)"
  proof -
    have "r = foldl rfc1950_step (unat s1 mod A32_BASE, unat s2 mod A32_BASE) (take k buf @ drop k buf)"
      using less.prems by simp
    then show ?thesis using rfc1950_sums [OF sums] by (simp only: foldl_append)
  qed
  have e: "adler32_loop len buf (s1, s2) =
      adler32_loop (len - k) (drop k buf) (t1 mod of_nat A32_BASE, t2 mod of_nat A32_BASE)"
    using less.prems(4)
    by (simp only: adler32_loop.simps [of len] if_True Let_def k_def [symmetric] l1 l2 prod.case b(1))
  have m: "x mod A32_BASE < A32_BASE" "x mod A32_BASE < 65536" for x
    by (simp_all add: A32_BASE_def order_less_trans [of _ 65521])
  show ?case
  proof (cases "len - k = 0")
    case True
    then have "drop k buf = []" using less.prems by simp
    moreover have "t1 mod of_nat A32_BASE = of_nat (a mod A32_BASE)" "t2 mod of_nat A32_BASE = of_nat (c mod A32_BASE)"
      by (simp_all only: u [symmetric]) simp_all
    ultimately show ?thesis using r m True by (simp add: e adler32_loop.simps [of 0])
  next
    case False
    have "r = foldl rfc1950_step (unat (t1 mod of_nat A32_BASE) mod A32_BASE, unat (t2 mod of_nat A32_BASE) mod A32_BASE) (drop k buf)"
      using r by (simp only: u mod_mod_trivial)
    then show ?thesis
      unfolding e by (intro less.IH) (use False k less.prems m in \<open>auto simp: u\<close>)
  qed
qed

lemma push_or_sum: "s1 < 65536 \<Longrightarrow> s2 < 65536 \<Longrightarrow>
    push_bit 16 (of_nat s2 :: u32) OR of_nat s1 = of_nat (s2 * 65536 + s1)"
proof -
  assume s: "s1 < 65536" "s2 < 65536"
  have z: "\<not> bit (of_nat s1 :: u32) i" if "16 \<le> i" for i
  proof -
    have "take_bit 16 s1 = s1" using s(1) by (simp add: take_bit_nat_eq_self)
    then have "\<not> bit s1 i" using that by (metis bit_take_bit_iff leD)
    then show ?thesis by (simp add: bit_simps)
  qed
  have "push_bit 16 (of_nat s2 :: u32) OR of_nat s1 = push_bit 16 (of_nat s2) + of_nat s1"
    by (rule disjunctive_add [symmetric]) (use z in \<open>auto simp: bit_simps\<close>)
  then show ?thesis by (simp add: push_bit_eq_mult)
qed

text \<open>C38: The checksum function with start value 1 returns the Adler-32 checksum of RFC 1950 on every
  input: its 32-bit sums, reduced once per 5552 bytes, never wrap.\<close>

theorem adler32_rfc1950: "adler32 1 buf = of_nat (rfc1950_checksum buf) \<and> rfc1950_checksum buf < 2 ^ 32"
proof (cases "buf = []")
  case True
  then show ?thesis by (simp add: adler32_def rfc1950_checksum_def adler32_loop.simps)
next
  case False
  obtain s1 s2 where r: "foldl rfc1950_step (1, 0) buf = (s1, s2)" by fastforce
  have st: "(1 :: u32) AND 0xffff = 1" "drop_bit 16 (1 :: u32) AND 0xffff = 0" by simp_all
  have r': "(s1, s2) = foldl rfc1950_step (unat (1::u32) mod A32_BASE, unat (0::u32) mod A32_BASE) buf"
    using r by (simp add: A32_BASE_def)
  have "adler32_loop (length buf) buf (1, 0) =
      (of_nat (fst (s1, s2)), of_nat (snd (s1, s2))) \<and> fst (s1, s2) < A32_BASE \<and> snd (s1, s2) < A32_BASE"
    by (rule adler32_loop_sums [OF r' refl]) (use False in simp_all)
  then have l: "adler32_loop (length buf) buf (1, 0) = (of_nat s1, of_nat s2)" and b: "s1 < 65521" "s2 < 65521"
    by (simp_all add: A32_BASE_def)
  have "s2 * 65536 + s1 < 2 ^ 32" using b by simp
  moreover have "rfc1950_checksum buf = s2 * 65536 + s1"
    unfolding rfc1950_checksum_def r by simp
  moreover have "adler32 1 buf = of_nat (s2 * 65536 + s1)"
    using b by (simp only: adler32_def st l Let_def prod.case push_or_sum)
  ultimately show ?thesis by simp
qed

end
