(* ===== verification/Xd3Stream.thy ===== *)
theory Xd3Stream
  imports Xd3Table Adler32
begin

text \<open>
  The state of the xdelta3 library: the source file (\<open>xd3_source\<close>) with its blocks, the secondary
  compressor as the table of functions the stream points to, and the stream (\<open>xd3_stream\<close>), with
  the operations on them that decoder and encoder share: block arithmetic, \<open>xd3_getblk\<close>,
  \<open>xd3_set_source\<close>, \<open>xd3_decode_allocate\<close> and the configuration. A buffer with a read pointer is
  the list of the bytes from the pointer to the end of the buffer; an output buffer is the list of
  the bytes written. Error messages, statistics and the release of memory are left out.
\<close>

unbundle bit_operations_syntax

section \<open>Constants\<close>

definition VCD_SECONDARY :: nat where "VCD_SECONDARY = 1"
definition VCD_CODETABLE :: nat where "VCD_CODETABLE = 2"
definition VCD_APPHEADER :: nat where "VCD_APPHEADER = 4"
definition VCD_INVHDR :: nat where "VCD_INVHDR = 0xFFFFFFF8"
definition VCD_SOURCE :: nat where "VCD_SOURCE = 1"
definition VCD_TARGET :: nat where "VCD_TARGET = 2"
definition VCD_ADLER32 :: nat where "VCD_ADLER32 = 4"
definition VCD_INVWIN :: nat where "VCD_INVWIN = 0xFFFFFFF8"
definition VCD_DATACOMP :: nat where "VCD_DATACOMP = 1"
definition VCD_INSTCOMP :: nat where "VCD_INSTCOMP = 2"
definition VCD_ADDRCOMP :: nat where "VCD_ADDRCOMP = 4"
definition VCD_INVDEL :: nat where "VCD_INVDEL = 0xFFFFFFF8"
definition VCD_DJW_ID :: nat where "VCD_DJW_ID = 1"
definition VCD_LZMA_ID :: nat where "VCD_LZMA_ID = 2"
definition VCD_FGK_ID :: nat where "VCD_FGK_ID = 16"
definition VCDIFF_MAGIC :: bytes where "VCDIFF_MAGIC = [0xd6, 0xc3, 0xc4]"
definition VCDIFF_VERSION :: u8 where "VCDIFF_VERSION = 0"

definition XD3_JUST_HDR :: nat where "XD3_JUST_HDR = 2 ^ 1"
definition XD3_SKIP_WINDOW :: nat where "XD3_SKIP_WINDOW = 2 ^ 2"
definition XD3_SKIP_EMIT :: nat where "XD3_SKIP_EMIT = 2 ^ 3"
definition XD3_FLUSH :: nat where "XD3_FLUSH = 2 ^ 4"
definition XD3_SEC_DJW :: nat where "XD3_SEC_DJW = 2 ^ 5"
definition XD3_SEC_FGK :: nat where "XD3_SEC_FGK = 2 ^ 6"
definition XD3_SEC_LZMA :: nat where "XD3_SEC_LZMA = 2 ^ 24"
definition XD3_SEC_NODATA :: nat where "XD3_SEC_NODATA = 2 ^ 7"
definition XD3_SEC_NOINST :: nat where "XD3_SEC_NOINST = 2 ^ 8"
definition XD3_SEC_NOADDR :: nat where "XD3_SEC_NOADDR = 2 ^ 9"
definition XD3_ADLER32 :: nat where "XD3_ADLER32 = 2 ^ 10"
definition XD3_ADLER32_NOVER :: nat where "XD3_ADLER32_NOVER = 2 ^ 11"
definition XD3_ADLER32_RECODE :: nat where "XD3_ADLER32_RECODE = 2 ^ 15"

definition XD3_HARDMAXWINSIZE :: nat where "XD3_HARDMAXWINSIZE = 2 ^ 26"
definition XD3_DEFAULT_WINSIZE :: nat where "XD3_DEFAULT_WINSIZE = 2 ^ 23"
definition XD3_DEFAULT_SPREVSZ :: nat where "XD3_DEFAULT_SPREVSZ = 2 ^ 18"

definition flag :: "nat \<Rightarrow> nat \<Rightarrow> bool" where
  "flag flags f \<longleftrightarrow> flags AND f \<noteq> 0"

section \<open>The source\<close>

record xd3_source =
  blksize :: nat
  max_winsize :: nat
  curblkno :: nat
  onblk :: nat
  curblk :: "bytes option"
  srclen :: nat
  srcbase :: nat
  shiftby :: nat
  maskby :: nat
  cpyoff_blocks :: nat
  cpyoff_blkoff :: nat
  getblkno :: nat
  max_blkno :: nat
  onlastblk :: nat
  eof_known :: bool

definition xd3_blksize_div :: "nat \<Rightarrow> xd3_source \<Rightarrow> nat \<times> nat" where
  "xd3_blksize_div off src = (drop_bit (shiftby src) off, off AND maskby src)"

definition xd3_blksize_add :: "nat \<Rightarrow> nat \<Rightarrow> xd3_source \<Rightarrow> nat \<Rightarrow> nat \<times> nat" where
  "xd3_blksize_add blkno blkoff src add =
    (let blkoff' = add64 blkoff add;
         blkdiff = drop_bit (shiftby src) blkoff' in
     if blkdiff \<noteq> 0 then (add64 blkno blkdiff, blkoff' AND maskby src) else (blkno, blkoff'))"

definition xd3_source_eof :: "xd3_source \<Rightarrow> nat" where
  "xd3_source_eof src = add64 (take_bit 64 (push_bit (shiftby src) (max_blkno src))) (onlastblk src)"

definition xd3_bytes_on_srcblk :: "xd3_source \<Rightarrow> nat \<Rightarrow> nat" where
  "xd3_bytes_on_srcblk src blkno = (if blkno = max_blkno src then onlastblk src else blksize src)"

text \<open>The client's block reader, \<open>None\<close> for a null pointer: it returns a code and the source with
  the block it has read.\<close>

type_synonym xd3_getblk_func = "(xd3_source \<Rightarrow> nat \<Rightarrow> xd3_rvalue option \<times> xd3_source) option"

definition xd3_getblk :: "xd3_getblk_func \<Rightarrow> xd3_source \<Rightarrow> nat \<Rightarrow> xd3_rvalue option \<times> xd3_source" where
  "xd3_getblk getblk src blkno =
    (let (ret, src1) =
       (if curblk src = None \<or> blkno \<noteq> curblkno src then
          (let src0 = src\<lparr>getblkno := blkno\<rparr> in
           case getblk of
             None \<Rightarrow> (Some XD3_GETSRCBLK, src0)
           | Some f \<Rightarrow> f src0 blkno)
        else (None, src)) in
     case ret of
       Some e \<Rightarrow> (Some e, src1)
     | None \<Rightarrow>
         let src2 = (if max_blkno src1 < blkno then
                       (let s = src1\<lparr>max_blkno := blkno\<rparr> in
                        if onblk s \<noteq> blksize s \<and> \<not> eof_known s then s\<lparr>eof_known := True\<rparr> else s)
                     else src1) in
         (None, if blkno = max_blkno src2 then src2\<lparr>onlastblk := onblk src2\<rparr> else src2))"

text \<open>\<open>None\<close> when a size above \<open>2 ^ 63\<close> has no power of two to be rounded up to.\<close>

definition xd3_set_source :: "xd3_source \<Rightarrow> xd3_source option" where
  "xd3_set_source src =
    do {
      let src0 = src\<lparr>srclen := 0, srcbase := 0\<rparr>;
      (bsize, shift) \<leftarrow>
        (case xd3_check_pow2 (blksize src0) of
           Some l \<Rightarrow> Some (blksize src0, l)
         | None \<Rightarrow> do { b \<leftarrow> xd3_pow2_roundup (blksize src0); l \<leftarrow> xd3_check_pow2 b; Some (b, l) });
      wsize \<leftarrow>
        (case xd3_check_pow2 (max_winsize src0) of
           Some l \<Rightarrow> Some (max_winsize src0)
         | None \<Rightarrow> xd3_xoff_roundup (max_winsize src0));
      Some (src0\<lparr>blksize := bsize, shiftby := shift, maskby := 2 ^ shift - 1,
                 max_winsize := max wsize XD3_ALLOCSIZE\<rparr>)
    }"

definition xd3_set_source_and_size :: "xd3_source \<Rightarrow> nat \<Rightarrow> xd3_source option" where
  "xd3_set_source_and_size user_source len =
    do {
      src \<leftarrow> xd3_set_source user_source;
      let (blkno, off) = xd3_blksize_div len src;
      Some (src\<lparr>eof_known := True, max_blkno := blkno, onlastblk := off\<rparr>)
    }"

section \<open>Secondary compressors\<close>

text \<open>The functions of an \<open>xd3_sec_type\<close>, on the compressor's own state \<open>'sec\<close>. \<open>sec_decode\<close> gets
  the input up to its end and the size of the output, and returns the input it has left and the
  bytes it wrote; \<open>sec_encode\<close> appends to a section, taking pages from the free ones, also when it
  fails.\<close>

record xd3_sec_cfg =
  ngroups :: nat
  sector_size :: nat
  inefficient :: bool

record 'sec xd3_sec_type =
  sec_id :: nat
  sec_alloc :: "'sec option"
  sec_init :: "'sec \<Rightarrow> bool \<Rightarrow> xd3_rvalue + 'sec"
  sec_decode :: "'sec \<Rightarrow> bytes \<Rightarrow> nat \<Rightarrow> xd3_rvalue + 'sec \<times> bytes \<times> bytes"
  sec_encode :: "'sec \<Rightarrow> xd3_output \<Rightarrow> nat \<times> xd3_output \<Rightarrow> xd3_sec_cfg \<Rightarrow>
    xd3_rvalue option \<times> 'sec \<times> (nat \<times> xd3_output)"

text \<open>\<open>xd3_get_secondary\<close>: the state is made at the first use.\<close>

definition xd3_get_secondary ::
    "'sec xd3_sec_type \<Rightarrow> 'sec option \<Rightarrow> bool \<Rightarrow> xd3_rvalue + 'sec" where
  "xd3_get_secondary ty sec is_encode =
    (case sec of
       Some s \<Rightarrow> Inr s
     | None \<Rightarrow>
         (case sec_alloc ty of
            None \<Rightarrow> Inl XD3_INVALID
          | Some s \<Rightarrow> sec_init ty s is_encode))"

section \<open>The string matcher's settings\<close>

record xd3_smatcher =
  large_look :: nat
  large_step :: nat
  small_look :: nat
  small_chain :: nat
  small_lchain :: nat
  max_lazy :: nat
  long_enough :: nat

definition smatcher_fastest :: xd3_smatcher where
  "smatcher_fastest = \<lparr>large_look = 9, large_step = 26, small_look = 4, small_chain = 1, small_lchain = 1,
    max_lazy = 6, long_enough = 6\<rparr>"

definition smatcher_faster :: xd3_smatcher where
  "smatcher_faster = \<lparr>large_look = 9, large_step = 15, small_look = 4, small_chain = 1, small_lchain = 1,
    max_lazy = 18, long_enough = 18\<rparr>"

definition smatcher_fast :: xd3_smatcher where
  "smatcher_fast = \<lparr>large_look = 9, large_step = 8, small_look = 4, small_chain = 4, small_lchain = 1,
    max_lazy = 18, long_enough = 35\<rparr>"

definition smatcher_slow :: xd3_smatcher where
  "smatcher_slow = \<lparr>large_look = 9, large_step = 2, small_look = 4, small_chain = 44, small_lchain = 13,
    max_lazy = 90, long_enough = 70\<rparr>"

definition smatcher_default :: xd3_smatcher where
  "smatcher_default = \<lparr>large_look = 9, large_step = 3, small_look = 4, small_chain = 8, small_lchain = 2,
    max_lazy = 36, long_enough = 70\<rparr>"

datatype xd3_smatch_cfg =
    XD3_SMATCH_DEFAULT | XD3_SMATCH_SLOW | XD3_SMATCH_FAST | XD3_SMATCH_FASTER | XD3_SMATCH_FASTEST
  | XD3_SMATCH_SOFT xd3_smatcher

text \<open>The smatcher of a configuration: the soft one is checked, and a compression level in the flags
  replaces the default one.\<close>

definition choose_smatcher :: "xd3_smatch_cfg \<Rightarrow> nat \<Rightarrow> xd3_rvalue + xd3_smatcher" where
  "choose_smatcher cfg flags =
    (let level = (flags AND (15 * 2 ^ 20)) div 2 ^ 20 in
     case cfg of
       XD3_SMATCH_SOFT sm \<Rightarrow>
         if large_look sm < MIN_MATCH \<or> large_step sm < 1 \<or> small_look sm < MIN_MATCH then Inl XD3_INVALID
         else Inr sm
     | XD3_SMATCH_SLOW \<Rightarrow> Inr smatcher_slow
     | XD3_SMATCH_FASTEST \<Rightarrow> Inr smatcher_fastest
     | XD3_SMATCH_FASTER \<Rightarrow> Inr smatcher_faster
     | XD3_SMATCH_FAST \<Rightarrow> Inr smatcher_fast
     | XD3_SMATCH_DEFAULT \<Rightarrow>
         Inr (if level = 0 then smatcher_default
              else if level = 1 then smatcher_fastest
              else if level = 2 then smatcher_faster
              else if level = 3 \<or> level = 4 \<or> level = 5 then smatcher_fast
              else if level = 6 then smatcher_default
              else smatcher_slow))"

section \<open>The stream\<close>

datatype xd3_decode_state =
    DEC_VCHEAD | DEC_HDRIND | DEC_SECONDID | DEC_TABLEN | DEC_NEAR | DEC_SAME | DEC_TABDAT
  | DEC_APPLEN | DEC_APPDAT | DEC_WININD | DEC_CPYLEN | DEC_CPYOFF | DEC_ENCLEN | DEC_TGTLEN
  | DEC_DELIND | DEC_DATALEN | DEC_INSTLEN | DEC_ADDRLEN | DEC_CKSUM | DEC_DATA | DEC_INST
  | DEC_ADDR | DEC_EMIT | DEC_FINISH | DEC_ABORTED

datatype xd3_encode_state =
    ENC_INIT | ENC_INPUT | ENC_SEARCH | ENC_INSTR | ENC_FLUSH | ENC_POSTOUT | ENC_POSTWIN | ENC_ABORTED

record xd3_hinst =
  htype :: u8
  hsize :: nat
  haddr :: nat

text \<open>A section of the window being decoded: the bytes from \<open>buf\<close> to \<open>buf_max\<close>, the size and the
  part received, and the two buffers it may be copied to, as the bytes written to them.\<close>

record xd3_desect =
  sect_buf :: bytes
  sect_size :: nat
  sect_pos :: nat
  copied1 :: "bytes option"
  alloc1 :: nat
  copied2 :: "bytes option"
  alloc2 :: nat

definition new_desect :: xd3_desect where
  "new_desect = \<lparr>sect_buf = [], sect_size = 0, sect_pos = 0, copied1 = None, alloc1 = 0,
    copied2 = None, alloc2 = 0\<rparr>"

text \<open>\<open>xd3_decode_allocate\<close> on a buffer and its allocated size: a fresh one when there is none or it is
  too small.\<close>

definition xd3_decode_allocate ::
    "allocator \<Rightarrow> nat \<Rightarrow> bytes option \<times> nat \<Rightarrow> xd3_rvalue + bytes option \<times> nat" where
  "xd3_decode_allocate al sz = (\<lambda>(buf, alloc).
    let buf1 = (if buf \<noteq> None \<and> alloc < sz then None else buf) in
    if buf1 = None then
      (let alloc' = xd3_round_blksize sz XD3_ALLOCSIZE in
       case al alloc' 1 of None \<Rightarrow> Inl ENOMEM | Some _ \<Rightarrow> Inr (Some [], alloc'))
    else Inr (buf1, alloc))"

text \<open>The fields the decoder uses. \<open>next_in\<close> is the input from \<open>next_in\<close> on (\<open>avail_in\<close> its length),
  \<open>next_out\<close> the bytes written at \<open>next_out\<close> (\<open>avail_out\<close> their number).\<close>

record 'sec xd3_stream =
  st_alloc :: allocator
  st_getblk :: xd3_getblk_func
  next_in :: bytes
  total_in :: nat
  next_out :: bytes
  space_out :: nat
  current_window :: nat
  total_out :: nat
  src :: "xd3_source option"
  winsize :: nat
  sprevsz :: nat
  sprevmask :: nat
  iopt_size :: nat
  iopt_unlimited :: bool
  st_flags :: nat
  smatcher :: xd3_smatcher
  acache :: addr_cache
  enc_state :: xd3_encode_state
  dec_state :: xd3_decode_state
  dec_hdr_ind :: nat
  dec_win_ind :: nat
  dec_del_ind :: nat
  dec_magic :: bytes
  dec_magicbytes :: nat
  dec_secondid :: nat
  dec_codetblsz :: nat
  dec_appheadsz :: nat
  dec_appheader :: "bytes option"
  dec_appheadbytes :: nat
  dec_cksumbytes :: nat
  dec_cksum :: bytes
  dec_adler32 :: u32
  dec_cpylen :: nat
  dec_cpyoff :: nat
  dec_enclen :: nat
  dec_tgtlen :: nat
  dec_64part :: nat
  dec_winstart :: nat
  dec_window_count :: nat
  dec_winbytes :: nat
  dec_hdrsize :: nat
  dec_position :: nat
  dec_maxpos :: nat
  dec_current1 :: xd3_hinst
  dec_current2 :: xd3_hinst
  dec_lastlen :: nat
  dec_laststart :: nat
  inst_sect :: xd3_desect
  addr_sect :: xd3_desect
  data_sect :: xd3_desect
  code_table :: "xd3_dinst list"
  sec_type :: "'sec xd3_sec_type option"
  sec_stream_d :: "'sec option"
  sec_stream_i :: "'sec option"
  sec_stream_a :: "'sec option"

section \<open>Configuration\<close>

record xd3_config =
  config_winsize :: nat
  config_sprevsz :: nat
  config_iopt_size :: nat
  config_getblk :: xd3_getblk_func
  config_flags :: nat
  config_smatch :: xd3_smatch_cfg

text \<open>The compressor the flags name: \<open>FGK_CASE\<close>, \<open>DJW_CASE\<close>, and \<open>LZMA_CASE\<close>, which is not in this
  build.\<close>

definition flags_sec_type ::
    "'sec xd3_sec_type \<Rightarrow> 'sec xd3_sec_type \<Rightarrow> nat \<Rightarrow> xd3_rvalue + 'sec xd3_sec_type option" where
  "flags_sec_type fgk djw flags =
    (let ty = flags AND (XD3_SEC_DJW + XD3_SEC_FGK + XD3_SEC_LZMA) in
     if ty = 0 then
       (if flag flags (XD3_SEC_NODATA + XD3_SEC_NOINST + XD3_SEC_NOADDR) then Inl XD3_INTERNAL else Inr None)
     else if ty = XD3_SEC_FGK then Inr (Some fgk)
     else if ty = XD3_SEC_DJW then Inr (Some djw)
     else Inl XD3_INTERNAL)"

text \<open>\<open>memset (stream, 0, sizeof (*stream))\<close>.\<close>

definition zero_hinst :: xd3_hinst where
  "zero_hinst = \<lparr>htype = 0, hsize = 0, haddr = 0\<rparr>"

definition zero_stream :: "allocator \<Rightarrow> 'sec xd3_stream" where
  "zero_stream al =
    \<lparr>st_alloc = al, st_getblk = None, next_in = [], total_in = 0, next_out = [], space_out = 0,
     current_window = 0, total_out = 0, src = None, winsize = 0, sprevsz = 0, sprevmask = 0,
     iopt_size = 0, iopt_unlimited = False, st_flags = 0, smatcher = smatcher_default,
     acache = \<lparr>s_near = 0, s_same = 0, next_slot = 0, near_array = [], same_array = []\<rparr>,
     enc_state = ENC_INIT, dec_state = DEC_VCHEAD, dec_hdr_ind = 0, dec_win_ind = 0, dec_del_ind = 0,
     dec_magic = replicate 4 0, dec_magicbytes = 0, dec_secondid = 0, dec_codetblsz = 0,
     dec_appheadsz = 0, dec_appheader = None, dec_appheadbytes = 0, dec_cksumbytes = 0,
     dec_cksum = replicate 4 0, dec_adler32 = 0, dec_cpylen = 0, dec_cpyoff = 0, dec_enclen = 0,
     dec_tgtlen = 0, dec_64part = 0, dec_winstart = 0, dec_window_count = 0, dec_winbytes = 0,
     dec_hdrsize = 0, dec_position = 0, dec_maxpos = 0, dec_current1 = zero_hinst,
     dec_current2 = zero_hinst, dec_lastlen = 0, dec_laststart = 0, inst_sect = new_desect,
     addr_sect = new_desect, data_sect = new_desect, code_table = [], sec_type = None,
     sec_stream_d = None, sec_stream_i = None, sec_stream_a = None\<rparr>"

text \<open>\<open>xd3_config_stream\<close>; \<open>sizeof (xd3_rinst)\<close> is 48. The check of \<open>sprevsz\<close> comes before the smatcher
  is set, so it is always made.\<close>

definition xd3_config_stream ::
    "allocator \<Rightarrow> 'sec xd3_sec_type \<Rightarrow> 'sec xd3_sec_type \<Rightarrow> xd3_config \<Rightarrow> xd3_rvalue + 'sec xd3_stream" where
  "xd3_config_stream al fgk djw config =
    (let spsz = (if config_sprevsz config \<noteq> 0 then config_sprevsz config else XD3_DEFAULT_SPREVSZ) in
     sum_bind (flags_sec_type fgk djw (config_flags config)) (\<lambda>ty.
     if xd3_check_pow2 spsz = None then Inl XD3_INTERNAL
     else
       sum_bind (choose_smatcher (config_smatch config) (config_flags config)) (\<lambda>sm.
       Inr ((zero_stream al)
         \<lparr>winsize := (if config_winsize config \<noteq> 0 then config_winsize config else XD3_DEFAULT_WINSIZE),
          sprevsz := spsz, sprevmask := spsz - 1,
          iopt_size := (if config_iopt_size config = 0 then XD3_ALLOCSIZE div 48 else config_iopt_size config),
          iopt_unlimited := (config_iopt_size config = 0),
          st_getblk := config_getblk config, st_flags := config_flags config, sec_type := ty,
          smatcher := sm\<rparr>))))"

end
