(* ===== verification/Xd3Decode.thy ===== *)
theory Xd3Decode
  imports Xd3Stream
begin

text \<open>
  The VCDIFF decoder (\<open>xdelta3-decode.h\<close>): \<open>xd3_decode_input\<close> as the state machine of the code. An
  operation returns a code (\<open>None\<close> for 0) and the stream, so that a call that runs out of input
  leaves the state from which the next call goes on. One definition holds each label of the switch;
  falling through to the next label is \<open>andthen\<close>.
\<close>

unbundle bit_operations_syntax

section \<open>Sequencing\<close>

type_synonym 's result = "xd3_rvalue option \<times> 's"

definition andthen :: "'s result \<Rightarrow> ('s \<Rightarrow> 's result) \<Rightarrow> 's result" where
  "andthen r f = (case r of (None, s) \<Rightarrow> f s | (Some e, s) \<Rightarrow> (Some e, s))"

lemma andthen_simps [simp]: "andthen (None, s) f = f s" "andthen (Some e, s) f = (Some e, s)"
  by (simp_all add: andthen_def)

text \<open>An operation on parts of the stream that fails with a code alone.\<close>

definition stepwise :: "xd3_rvalue + 'a \<Rightarrow> 's \<Rightarrow> ('a \<Rightarrow> 's result) \<Rightarrow> 's result" where
  "stepwise r s f = (case r of Inl e \<Rightarrow> (Some e, s) | Inr x \<Rightarrow> f x)"

lemma stepwise_simps [simp]: "stepwise (Inl e) s f = (Some e, s)" "stepwise (Inr x) s f = f x"
  by (simp_all add: stepwise_def)

text \<open>Labels of a switch that fall through from one to the next.\<close>

fun falling :: "('s \<Rightarrow> 's result) list \<Rightarrow> 's \<Rightarrow> 's result" where
  "falling [] s = (None, s)"
| "falling (f # fs) s = andthen (f s) (falling fs)"

section \<open>Input\<close>

abbreviation "avail_in s \<equiv> length (next_in s)"
abbreviation "avail_out s \<equiv> length (next_out s)"

definition DECODE_INPUT :: "nat \<Rightarrow> 'sec xd3_stream \<Rightarrow> 'sec xd3_stream" where
  "DECODE_INPUT n s = s\<lparr>total_in := add64 (total_in s) n, next_in := drop n (next_in s)\<rparr>"

definition xd3_decode_byte ::
    "(nat \<Rightarrow> 'sec xd3_stream \<Rightarrow> 'sec xd3_stream) \<Rightarrow> 'sec xd3_stream \<Rightarrow> 'sec xd3_stream result" where
  "xd3_decode_byte put s =
    (case next_in s of
       [] \<Rightarrow> (Some XD3_INPUT, s)
     | b # _ \<Rightarrow> (None, DECODE_INPUT 1 (put (unat b) s)))"

text \<open>The loop fills \<open>buf\<close> from \<open>pos\<close> to \<open>sz\<close>; the result has the buffer and the position. The list is the
  whole object \<open>buf\<close> points to: a \<open>memcpy\<close> past its end is a fault.\<close>

function xd3_decode_bytes ::
    "'sec xd3_stream \<Rightarrow> bytes \<Rightarrow> nat \<Rightarrow> nat \<Rightarrow> xd3_rvalue option \<times> 'sec xd3_stream \<times> bytes \<times> nat" where
  "xd3_decode_bytes s buf pos sz =
    (if pos < sz then
       (if avail_in s = 0 then (Some XD3_INPUT, s, buf, pos)
        else
          let want = sz - pos;
              n = min want (avail_in s) in
          if length buf < pos + n then (Some Fault, s, buf, pos)
          else
            let buf' = take pos buf @ take n (next_in s) @ drop (pos + n) buf in
            xd3_decode_bytes (DECODE_INPUT n s) buf' (pos + n) sz)
     else (None, s, buf, pos))"
  by pat_completeness auto
termination
  by (relation "measure (\<lambda>(s, buf, pos, sz). sz - pos)") (auto simp: min_def neq_Nil_conv)

declare xd3_decode_bytes.simps [simp del]

text \<open>\<open>xd3_decode_size\<close> and \<open>xd3_decode_offset\<close> (both are \<open>xd3_decode_uint64_t\<close>).\<close>

definition xd3_decode_size ::
    "(nat \<Rightarrow> 'sec xd3_stream \<Rightarrow> 'sec xd3_stream) \<Rightarrow> 'sec xd3_stream \<Rightarrow> 'sec xd3_stream result" where
  "xd3_decode_size put s =
    (let (ret, part, rest, val) = decode_integer (dec_64part s) (next_in s);
         s' = (DECODE_INPUT (length (next_in s) - length rest) s)\<lparr>dec_64part := part\<rparr> in
     case ret of Some e \<Rightarrow> (Some e, s') | None \<Rightarrow> (None, put val s'))"

section \<open>Window setup\<close>

definition xd3_decode_init_window :: "'sec xd3_stream \<Rightarrow> 'sec xd3_stream result" where
  "xd3_decode_init_window s =
    (None, s\<lparr>dec_cpylen := 0, dec_cpyoff := 0, dec_cksumbytes := 0, acache := xd3_init_cache (acache s)\<rparr>)"

text \<open>The code after the return of \<open>XD3_UNIMPLEMENTED\<close> for a target window is never reached. A new
  output buffer has the contents the allocator leaves; its bytes are written before they are read
  when the caller has consumed the output (\<open>avail_out\<close> 0).\<close>

definition xd3_decode_setup_buffers :: "'sec xd3_stream \<Rightarrow> 'sec xd3_stream result" where
  "xd3_decode_setup_buffers s =
    (if flag (dec_win_ind s) VCD_TARGET then (Some XD3_UNIMPLEMENTED, s)
     else if space_out s < dec_tgtlen s then
       (let space = xd3_round_blksize (dec_tgtlen s) XD3_ALLOCSIZE;
            s1 = s\<lparr>space_out := space\<rparr> in
        case st_alloc s space 1 of
          None \<Rightarrow> (Some ENOMEM, s1)
        | Some f \<Rightarrow> (None, s1\<lparr>next_out := map (\<lambda>i. of_nat (f i)) [0..<avail_out s]\<rparr>))
     else (None, s))"

section \<open>Sections\<close>

text \<open>The three sections of a stream, by name.\<close>

datatype section_name = DATA_SECTION | INST_SECTION | ADDR_SECTION

fun get_sect :: "section_name \<Rightarrow> 'sec xd3_stream \<Rightarrow> xd3_desect" where
  "get_sect DATA_SECTION s = data_sect s"
| "get_sect INST_SECTION s = inst_sect s"
| "get_sect ADDR_SECTION s = addr_sect s"

fun put_sect :: "section_name \<Rightarrow> xd3_desect \<Rightarrow> 'sec xd3_stream \<Rightarrow> 'sec xd3_stream" where
  "put_sect DATA_SECTION x s = s\<lparr>data_sect := x\<rparr>"
| "put_sect INST_SECTION x s = s\<lparr>inst_sect := x\<rparr>"
| "put_sect ADDR_SECTION x s = s\<lparr>addr_sect := x\<rparr>"

text \<open>The part of \<open>xd3_decode_section\<close> under \<open>section->pos < section->size\<close>. Without a copy the section
  is the input itself.\<close>

definition take_section ::
    "section_name \<Rightarrow> bool \<Rightarrow> 'sec xd3_stream \<Rightarrow> 'sec xd3_stream result" where
  "take_section nm copy s =
    (let sect = get_sect nm s in
     if avail_in s = 0 then (Some XD3_INPUT, s)
     else if \<not> copy \<and> sect_pos sect = 0 then
       (let n = sect_size sect in
        if avail_in s < n then (Some Fault, s)
        else
          (None, DECODE_INPUT n
            ((put_sect nm (sect\<lparr>sect_buf := take n (next_in s), sect_pos := n\<rparr>) s)
              \<lparr>dec_winbytes := add64 (dec_winbytes s) n\<rparr>)))
     else
       let n = min (sect_size sect - sect_pos sect) (avail_in s) in
       stepwise
         (if sect_pos sect = 0 then xd3_decode_allocate (st_alloc s) (sect_size sect) (copied1 sect, alloc1 sect)
          else Inr (copied1 sect, alloc1 sect)) s
         (\<lambda>(buf, alloc).
            case buf of
              None \<Rightarrow> (Some Fault, s)
            | Some c \<Rightarrow>
                if alloc < sect_pos sect + n then (Some Fault, s)
                else
                  let c' = take (sect_pos sect) c @ take n (next_in s);
                      sect' = sect\<lparr>sect_buf := c', sect_pos := sect_pos sect + n, copied1 := Some c', alloc1 := alloc\<rparr> in
                  (None, DECODE_INPUT n ((put_sect nm sect' s)\<lparr>dec_winbytes := add64 (dec_winbytes s) n\<rparr>))))"

definition xd3_decode_section ::
    "section_name \<Rightarrow> xd3_decode_state \<Rightarrow> bool \<Rightarrow> 'sec xd3_stream \<Rightarrow> 'sec xd3_stream result" where
  "xd3_decode_section nm nstate copy s =
    andthen (if sect_pos (get_sect nm s) < sect_size (get_sect nm s) then take_section nm copy s else (None, s))
      (\<lambda>s1. let sect = get_sect nm s1 in
        if sect_pos sect < sect_size sect then (Some XD3_INPUT, s1)
        else
          (None, (put_sect nm (sect\<lparr>sect_buf := (if sect_size sect = 0 then [] else sect_buf sect), sect_pos := 0\<rparr>) s1)
            \<lparr>dec_state := nstate\<rparr>))"

section \<open>Half-instructions\<close>

text \<open>The copy from the target window goes byte by byte, so that it may read what it has written; a byte
  that no instruction wrote is a fault.\<close>

fun target_copy :: "nat \<Rightarrow> nat \<Rightarrow> bytes \<Rightarrow> bytes option" where
  "target_copy 0 i out = Some out"
| "target_copy (Suc n) i out =
    (case fetch out i of None \<Rightarrow> None | Some b \<Rightarrow> target_copy n (Suc i) (out @ [b]))"

definition xd3_decode_parse_halfinst ::
    "'sec xd3_stream \<Rightarrow> xd3_hinst \<Rightarrow> xd3_rvalue + 'sec xd3_stream \<times> xd3_hinst" where
  "xd3_decode_parse_halfinst s0 inst0 =
    sum_bind
      (if hsize inst0 = 0 then
         (case xd3_read_uint64 (sect_buf (inst_sect s0)) of
            Inl e \<Rightarrow> Inl XD3_INVALID_INPUT
          | Inr (val, rest) \<Rightarrow>
              Inr (s0\<lparr>inst_sect := (inst_sect s0)\<lparr>sect_buf := rest\<rparr>\<rparr>, inst0\<lparr>hsize := val\<rparr>))
       else Inr (s0, inst0))
      (\<lambda>(s1, inst1).
    sum_bind
      (if XD3_CPY \<le> htype inst1 then
         sum_bind (xd3_decode_address (acache s1) (dec_position s1) (unat (htype inst1 - XD3_CPY))
                     (sect_buf (addr_sect s1)))
           (\<lambda>(ac, rest, addr).
              let s2 = s1\<lparr>acache := ac, addr_sect := (addr_sect s1)\<lparr>sect_buf := rest\<rparr>\<rparr>;
                  inst2 = inst1\<lparr>haddr := addr\<rparr> in
              if dec_position s2 \<le> addr then Inl XD3_INVALID_INPUT
              else if addr < dec_cpylen s2 \<and> dec_cpylen s2 < add64 addr (hsize inst2) then Inl XD3_INVALID_INPUT
              else Inr (s2, inst2))
       else Inr (s1, inst1))
      (\<lambda>(s2, inst2).
    if dec_maxpos s2 < add64 (dec_position s2) (hsize inst2) then Inl XD3_INVALID_INPUT
    else Inr (s2\<lparr>dec_position := add64 (dec_position s2) (hsize inst2)\<rparr>, inst2)))"

text \<open>\<open>xd3_decode_instruction\<close> parses the first half into \<open>dec_current1\<close> and then the second one.\<close>

definition xd3_decode_instruction :: "'sec xd3_stream \<Rightarrow> 'sec xd3_stream result" where
  "xd3_decode_instruction s =
    (case sect_buf (inst_sect s) of
       [] \<Rightarrow> (Some XD3_INVALID_INPUT, s)
     | op # rest \<Rightarrow>
         (case fetch (code_table s) (unat op) of
            None \<Rightarrow> (Some Fault, s)
          | Some inst \<Rightarrow>
              let s1 = s\<lparr>inst_sect := (inst_sect s)\<lparr>sect_buf := rest\<rparr>,
                         dec_current1 := (dec_current1 s)\<lparr>htype := type1 inst, hsize := size1 inst\<rparr>,
                         dec_current2 := (dec_current2 s)\<lparr>htype := type2 inst, hsize := size2 inst\<rparr>\<rparr> in
              stepwise (if type1 inst \<noteq> XD3_NOOP then xd3_decode_parse_halfinst s1 (dec_current1 s1)
                        else Inr (s1, dec_current1 s1)) s1 (\<lambda>(s2, c1).
              let s3 = s2\<lparr>dec_current1 := c1\<rparr> in
              stepwise (if type2 inst \<noteq> XD3_NOOP then xd3_decode_parse_halfinst s3 (dec_current2 s3)
                        else Inr (s3, dec_current2 s3)) s3 (\<lambda>(s4, c2).
              (None, s4\<lparr>dec_current2 := c2\<rparr>)))))"

text \<open>Writing at \<open>next_out + avail_out\<close>: \<open>next_out\<close> points to \<open>space_out\<close> bytes.\<close>

definition write_out :: "bytes \<Rightarrow> xd3_hinst \<Rightarrow> 'sec xd3_stream \<Rightarrow> xd3_rvalue option \<times> 'sec xd3_stream \<times> xd3_hinst" where
  "write_out bs inst s =
    (if space_out s < avail_out s + length bs then (Some Fault, s, inst)
     else (None, s\<lparr>next_out := next_out s @ bs\<rparr>, inst))"

lemma write_out_fits [simp]:
  "avail_out s + length bs \<le> space_out s \<Longrightarrow> write_out bs inst s = (None, s\<lparr>next_out := next_out s @ bs\<rparr>, inst)"
  by (simp add: write_out_def)

text \<open>The branch of \<open>xd3_decode_output_halfinst\<close> that copies from the source window: at most to the end
  of a block.\<close>

definition copy_from_source ::
    "'sec xd3_stream \<Rightarrow> xd3_hinst \<Rightarrow> xd3_rvalue option \<times> 'sec xd3_stream \<times> xd3_hinst" where
  "copy_from_source s inst =
    (if flag (dec_win_ind s) VCD_TARGET then
       (Some XD3_UNIMPLEMENTED, s, inst\<lparr>hsize := 0, htype := XD3_NOOP\<rparr>)
     else
       case src s of
         None \<Rightarrow> (Some Fault, s, inst)
       | Some source \<Rightarrow>
           let tk = hsize inst;
               bsize = blksize source;
               (block, blkoff) = xd3_blksize_add (cpyoff_blocks source) (cpyoff_blkoff source) source (haddr inst);
               (ret, source') = xd3_getblk (st_getblk s) source block;
               s' = s\<lparr>src := Some source'\<rparr> in
           case ret of
             Some e \<Rightarrow> (Some (if e = XD3_TOOFARBACK then XD3_INTERNAL else e), s', inst)
           | None \<Rightarrow>
               if onblk source' \<noteq> bsize \<and> onblk source' < add64 blkoff tk then (Some XD3_INVALID_INPUT, s', inst)
               else
                 let (n, inst') = (if add64 blkoff tk \<le> bsize then (tk, inst\<lparr>htype := XD3_NOOP, hsize := 0\<rparr>)
                                   else (sub64 bsize blkoff,
                                         inst\<lparr>hsize := sub64 tk (sub64 bsize blkoff),
                                              haddr := add64 (haddr inst) (sub64 bsize blkoff)\<rparr>)) in
                 case curblk source' of
                   None \<Rightarrow> (Some Fault, s', inst)
                 | Some block_bytes \<Rightarrow>
                     if length block_bytes < blkoff + n then (Some Fault, s', inst)
                     else write_out (take n (drop blkoff block_bytes)) inst' s')"

definition xd3_decode_output_halfinst ::
    "'sec xd3_stream \<Rightarrow> xd3_hinst \<Rightarrow> xd3_rvalue option \<times> 'sec xd3_stream \<times> xd3_hinst" where
  "xd3_decode_output_halfinst s inst =
    (let tk = hsize inst; data = sect_buf (data_sect s) in
     if USIZE_T_OVERFLOW (avail_out s) tk \<or> space_out s < add64 (avail_out s) tk then
       (Some XD3_INVALID_INPUT, s, inst)
     else if htype inst = XD3_RUN then
       (case data of
          [] \<Rightarrow> (Some XD3_INVALID_INPUT, s, inst)
        | b # rest \<Rightarrow>
            write_out (replicate tk b) (inst\<lparr>htype := XD3_NOOP\<rparr>) (s\<lparr>data_sect := (data_sect s)\<lparr>sect_buf := rest\<rparr>\<rparr>))
     else if htype inst = XD3_ADD then
       (if length data < tk then (Some XD3_INVALID_INPUT, s, inst)
        else write_out (take tk data) (inst\<lparr>htype := XD3_NOOP\<rparr>) (s\<lparr>data_sect := (data_sect s)\<lparr>sect_buf := drop tk data\<rparr>\<rparr>))
     else if haddr inst < dec_cpylen s then copy_from_source s inst
     else
       (case target_copy tk (haddr inst - dec_cpylen s) (next_out s) of
          None \<Rightarrow> (Some Fault, s, inst)
        | Some out \<Rightarrow> write_out (drop (avail_out s) out) (inst\<lparr>htype := XD3_NOOP, hsize := 0\<rparr>) s))"

section \<open>Sections of a window\<close>

definition xd3_decode_finish_window :: "'sec xd3_stream \<Rightarrow> 'sec xd3_stream result" where
  "xd3_decode_finish_window s =
    (Some XD3_OUTPUT,
     s\<lparr>dec_winbytes := 0, dec_state := DEC_FINISH, data_sect := (data_sect s)\<lparr>sect_pos := 0\<rparr>,
       inst_sect := (inst_sect s)\<lparr>sect_pos := 0\<rparr>, addr_sect := (addr_sect s)\<lparr>sect_pos := 0\<rparr>\<rparr>)"

text \<open>\<open>xd3_decode_secondary\<close> (\<open>xdelta3-second.h\<close>) on a section and its compressor's state. The compressor
  is a parameter; it writes its output from the start of the second buffer, and more than this holds is a
  fault.\<close>

definition xd3_decode_secondary ::
    "allocator \<Rightarrow> 'sec xd3_sec_type option \<Rightarrow> xd3_desect \<Rightarrow> 'sec option \<Rightarrow>
      xd3_rvalue + xd3_desect \<times> 'sec option" where
  "xd3_decode_secondary al ty sect sec =
    (case ty of
       None \<Rightarrow> Inl Fault
     | Some t \<Rightarrow>
         sum_bind (xd3_get_secondary t sec False) (\<lambda>sec1.
         sum_bind (xd3_read_uint64 (sect_buf sect)) (\<lambda>(dec_size, rest).
         sum_bind (xd3_decode_allocate al dec_size (copied2 sect, alloc2 sect)) (\<lambda>(buf, alloc).
         if dec_size = 0 then Inl XD3_INVALID_INPUT
         else
           sum_bind (sec_decode t sec1 rest dec_size) (\<lambda>(sec2, unused, out).
           if alloc < length out then Inl Fault
          else if unused \<noteq> [] then Inl XD3_INTERNAL
           else if length out \<noteq> dec_size then Inl XD3_INTERNAL
           else Inr (sect\<lparr>sect_buf := out, sect_size := dec_size, copied2 := Some out, alloc2 := alloc\<rparr>,
                     Some sec2))))))"

definition xd3_decode_secondary_sections :: "'sec xd3_stream \<Rightarrow> 'sec xd3_stream result" where
  "xd3_decode_secondary_sections = falling
    [\<lambda>s. if flag (dec_del_ind s) VCD_DATACOMP then
       stepwise (xd3_decode_secondary (st_alloc s) (sec_type s) (data_sect s) (sec_stream_d s)) s
         (\<lambda>(sect, sec). (None, s\<lparr>data_sect := sect, sec_stream_d := sec\<rparr>))
     else (None, s),
     \<lambda>s. if flag (dec_del_ind s) VCD_INSTCOMP then
       stepwise (xd3_decode_secondary (st_alloc s) (sec_type s) (inst_sect s) (sec_stream_i s)) s
         (\<lambda>(sect, sec). (None, s\<lparr>inst_sect := sect, sec_stream_i := sec\<rparr>))
     else (None, s),
     \<lambda>s. if flag (dec_del_ind s) VCD_ADDRCOMP then
       stepwise (xd3_decode_secondary (st_alloc s) (sec_type s) (addr_sect s) (sec_stream_a s)) s
         (\<lambda>(sect, sec). (None, s\<lparr>addr_sect := sect, sec_stream_a := sec\<rparr>))
     else (None, s)]"

text \<open>The sections of the state the decoder stopped in and of the following ones. The sum of the sizes
  is checked for overflow before it is used.\<close>

definition xd3_decode_sections :: "'sec xd3_stream \<Rightarrow> 'sec xd3_stream result" where
  "xd3_decode_sections s =
    (if flag (st_flags s) XD3_JUST_HDR then xd3_decode_finish_window s
     else if USIZE_T_OVERFLOW (sect_size (inst_sect s)) (sect_size (addr_sect s)) then (Some XD3_INTERNAL, s)
     else if USIZE_T_OVERFLOW (add64 (sect_size (inst_sect s)) (sect_size (addr_sect s)))
               (sect_size (data_sect s)) then (Some XD3_INTERNAL, s)
     else
       let need = add64 (add64 (sect_size (inst_sect s)) (sect_size (addr_sect s))) (sect_size (data_sect s));
           more = sub64 need (dec_winbytes s);
           tk = min more (avail_in s);
           copy = (tk \<noteq> more) in
       if flag (st_flags s) XD3_SKIP_WINDOW then
         (let s1 = (DECODE_INPUT tk s)\<lparr>dec_winbytes := add64 (dec_winbytes s) tk\<rparr> in
          if copy then (Some XD3_INPUT, s1) else xd3_decode_finish_window s1)
       else
         falling
           ((if dec_state s = DEC_DATA then
               [xd3_decode_section DATA_SECTION DEC_INST copy, xd3_decode_section INST_SECTION DEC_ADDR copy,
                xd3_decode_section ADDR_SECTION DEC_EMIT copy]
             else if dec_state s = DEC_INST then
               [xd3_decode_section INST_SECTION DEC_ADDR copy, xd3_decode_section ADDR_SECTION DEC_EMIT copy]
             else if dec_state s = DEC_ADDR then
               [xd3_decode_section ADDR_SECTION DEC_EMIT copy]
             else [\<lambda>s. (Some XD3_INVALID_INPUT, s)])
            @ [xd3_decode_secondary_sections,
               \<lambda>s. if flag (st_flags s) XD3_SKIP_EMIT then xd3_decode_finish_window s else (None, s),
               xd3_decode_setup_buffers]) s)"

section \<open>Emitting a window\<close>

text \<open>The loops of \<open>xd3_decode_emit\<close>, \<open>None\<close> when they do not end. The first outputs \<open>dec_current1\<close> or
  \<open>dec_current2\<close>, which a source copy may do in several rounds.\<close>

definition cur_inst :: "bool \<Rightarrow> 'sec xd3_stream \<Rightarrow> xd3_hinst" where
  "cur_inst second s = (if second then dec_current2 s else dec_current1 s)"

definition put_inst :: "bool \<Rightarrow> xd3_hinst \<Rightarrow> 'sec xd3_stream \<Rightarrow> 'sec xd3_stream" where
  "put_inst second inst s = (if second then s\<lparr>dec_current2 := inst\<rparr> else s\<lparr>dec_current1 := inst\<rparr>)"

partial_function (option) output_current :: "bool \<Rightarrow> 'sec xd3_stream \<Rightarrow> 'sec xd3_stream result option" where
  "output_current second s =
    (if htype (cur_inst second s) = XD3_NOOP then Some (None, s)
     else
       case xd3_decode_output_halfinst s (cur_inst second s) of
         (ret, s1, inst) \<Rightarrow>
           if ret \<noteq> None then Some (ret, put_inst second inst s1)
           else output_current second (put_inst second inst s1))"

definition fetch_instruction :: "'sec xd3_stream \<Rightarrow> 'sec xd3_stream result" where
  "fetch_instruction s =
    (if htype (dec_current1 s) = XD3_NOOP \<and> htype (dec_current2 s) = XD3_NOOP then xd3_decode_instruction s
     else (None, s))"

text \<open>One round of the outer loop, and the loop.\<close>

definition emit_round :: "'sec xd3_stream \<Rightarrow> 'sec xd3_stream result option" where
  "emit_round s =
    (case fetch_instruction s of
       (Some e, s1) \<Rightarrow> Some (Some e, s1)
     | (None, s1) \<Rightarrow>
         (case output_current False s1 of
            None \<Rightarrow> None
          | Some (Some e, s2) \<Rightarrow> Some (Some e, s2)
          | Some (None, s2) \<Rightarrow> output_current True s2))"

partial_function (option) emit_loop :: "'sec xd3_stream \<Rightarrow> 'sec xd3_stream result option" where
  "emit_loop s =
    (if sect_buf (inst_sect s) = [] \<and> htype (dec_current1 s) = XD3_NOOP \<and> htype (dec_current2 s) = XD3_NOOP
     then Some (None, s)
     else
       case emit_round s of
         None \<Rightarrow> None
       | Some (ret, s1) \<Rightarrow> if ret \<noteq> None then Some (ret, s1) else emit_loop s1)"

declare output_current.simps [code] emit_loop.simps [code]

definition emit_checks :: "'sec xd3_stream \<Rightarrow> 'sec xd3_stream result" where
  "emit_checks s =
    (if avail_out s \<noteq> dec_tgtlen s then (Some XD3_INVALID_INPUT, s)
     else if sect_buf (data_sect s) \<noteq> [] then (Some XD3_INVALID_INPUT, s)
     else if sect_buf (addr_sect s) \<noteq> [] then (Some XD3_INVALID_INPUT, s)
     else if flag (dec_win_ind s) VCD_ADLER32 \<and> \<not> flag (st_flags s) XD3_ADLER32_NOVER
             \<and> adler32 1 (next_out s) \<noteq> dec_adler32 s then (Some XD3_INVALID_INPUT, s)
     else xd3_decode_finish_window s)"

definition xd3_decode_emit :: "'sec xd3_stream \<Rightarrow> 'sec xd3_stream result option" where
  "xd3_decode_emit s =
    (case emit_loop s of
       None \<Rightarrow> None
     | Some (ret, s1) \<Rightarrow> Some (andthen (ret, s1) emit_checks))"

end
