(* ===== verification/Xd3DecodeInput.thy ===== *)
theory Xd3DecodeInput
  imports Xd3Decode
begin

text \<open>
  \<open>xd3_decode_input\<close>, one definition for each label of its switch, and the client functions around
  it: \<open>xd3_close_stream\<close>, \<open>xd3_process_stream\<close> and \<open>xd3_decode_memory\<close>. The two secondary compressors
  linked into the library are a parameter, as functions of the stream's \<open>xd3_sec_type\<close>. The exchange
  of output buffers after a skipped window that copies from the target is not modelled: it answers
  \<open>Fault\<close>, and only a caller that sets a skip flag reaches it. After an error code other than a
  request for input or a source block the stream may only be closed.
\<close>

unbundle bit_operations_syntax

section \<open>The three cases\<close>

definition BYTE_CASE ::
    "bool \<Rightarrow> (nat \<Rightarrow> 'sec xd3_stream \<Rightarrow> 'sec xd3_stream) \<Rightarrow> xd3_decode_state \<Rightarrow> 'sec xd3_stream \<Rightarrow>
      'sec xd3_stream result" where
  "BYTE_CASE expr put nstate s =
    andthen (if expr then xd3_decode_byte put s else (None, s)) (\<lambda>s. (None, s\<lparr>dec_state := nstate\<rparr>))"

definition SIZE_CASE ::
    "bool \<Rightarrow> (nat \<Rightarrow> 'sec xd3_stream \<Rightarrow> 'sec xd3_stream) \<Rightarrow> xd3_decode_state \<Rightarrow> 'sec xd3_stream \<Rightarrow>
      'sec xd3_stream result" where
  "SIZE_CASE expr put nstate s =
    andthen (if expr then xd3_decode_size put s else (None, s)) (\<lambda>s. (None, s\<lparr>dec_state := nstate\<rparr>))"

definition SRCORTGT :: "nat \<Rightarrow> bool" where
  "SRCORTGT x \<longleftrightarrow> x AND (VCD_SOURCE OR VCD_TARGET) = VCD_SOURCE \<or> x AND (VCD_SOURCE OR VCD_TARGET) = VCD_TARGET"

section \<open>The header\<close>

definition label_vchead :: "'sec xd3_stream \<Rightarrow> 'sec xd3_stream result" where
  "label_vchead s =
    (case xd3_decode_bytes s (dec_magic s) (dec_magicbytes s) 4 of
       (ret, s1, magic, pos) \<Rightarrow>
         andthen (ret, s1\<lparr>dec_magic := magic, dec_magicbytes := pos\<rparr>) (\<lambda>s2.
           if take 3 (dec_magic s2) \<noteq> VCDIFF_MAGIC then (Some XD3_INVALID_INPUT, s2)
           else if dec_magic s2 ! 3 \<noteq> 0 then (Some XD3_INVALID_INPUT, s2)
           else (None, s2\<lparr>dec_state := DEC_HDRIND\<rparr>)))"

definition label_hdrind :: "'sec xd3_stream \<Rightarrow> 'sec xd3_stream result" where
  "label_hdrind s =
    andthen (xd3_decode_byte (\<lambda>v. dec_hdr_ind_update (\<lambda>_. v)) s) (\<lambda>s1.
      if flag (dec_hdr_ind s1) VCD_INVHDR then (Some XD3_INVALID_INPUT, s1)
      else (None, s1\<lparr>dec_state := DEC_SECONDID\<rparr>))"

definition label_secondid ::
    "'sec xd3_sec_type \<Rightarrow> 'sec xd3_sec_type \<Rightarrow> 'sec xd3_stream \<Rightarrow> 'sec xd3_stream result" where
  "label_secondid fgk djw s =
    (if flag (dec_hdr_ind s) VCD_SECONDARY then
       andthen (BYTE_CASE True (\<lambda>v. dec_secondid_update (\<lambda>_. v)) DEC_TABLEN s) (\<lambda>s1.
         if dec_secondid s1 = VCD_FGK_ID then (None, s1\<lparr>sec_type := Some fgk\<rparr>)
         else if dec_secondid s1 = VCD_DJW_ID then (None, s1\<lparr>sec_type := Some djw\<rparr>)
         else if dec_secondid s1 = VCD_LZMA_ID then (Some XD3_INTERNAL, s1)
         else (Some XD3_INVALID_INPUT, s1))
     else (None, s))"

definition label_tablen :: "'sec xd3_stream \<Rightarrow> 'sec xd3_stream result" where
  "label_tablen s =
    andthen (SIZE_CASE (flag (dec_hdr_ind s) VCD_CODETABLE) (\<lambda>v. dec_codetblsz_update (\<lambda>_. v)) DEC_NEAR s) (\<lambda>s1.
      if flag (dec_hdr_ind s1) VCD_CODETABLE then
        (if dec_codetblsz s1 \<le> 2 then (Some ENOMEM, s1)
         else (None, s1\<lparr>dec_codetblsz := dec_codetblsz s1 - 2\<rparr>))
      else (None, s1))"

definition label_near :: "'sec xd3_stream \<Rightarrow> 'sec xd3_stream result" where
  "label_near s =
    BYTE_CASE (flag (dec_hdr_ind s) VCD_CODETABLE)
      (\<lambda>v s. s\<lparr>acache := (acache s)\<lparr>s_near := v\<rparr>\<rparr>) DEC_SAME s"

definition label_same :: "'sec xd3_stream \<Rightarrow> 'sec xd3_stream result" where
  "label_same s =
    BYTE_CASE (flag (dec_hdr_ind s) VCD_CODETABLE)
      (\<lambda>v s. s\<lparr>acache := (acache s)\<lparr>s_same := v\<rparr>\<rparr>) DEC_TABDAT s"

definition label_tabdat :: "'sec xd3_stream \<Rightarrow> 'sec xd3_stream result" where
  "label_tabdat s =
    (if flag (dec_hdr_ind s) VCD_CODETABLE then (Some XD3_UNIMPLEMENTED, s)
     else
       let s1 = s\<lparr>acache := (acache s)\<lparr>s_near := near_modes rfc3284_code_table_desc,
                                      s_same := same_modes rfc3284_code_table_desc\<rparr>,
                  code_table := xd3_rfc3284_code_table\<rparr> in
       stepwise (xd3_alloc_cache (st_alloc s1) (acache s1)) s1
         (\<lambda>ac. (None, s1\<lparr>acache := ac, dec_state := DEC_APPLEN\<rparr>)))"

definition label_applen :: "'sec xd3_stream \<Rightarrow> 'sec xd3_stream result" where
  "label_applen s =
    SIZE_CASE (flag (dec_hdr_ind s) VCD_APPHEADER) (\<lambda>v. dec_appheadsz_update (\<lambda>_. v)) DEC_APPDAT s"

text \<open>The application data, in a buffer of one more byte: the size asked of the allocator is a machine
  integer, and writing the final zero outside what it gave is a fault.\<close>

definition read_appheader :: "'sec xd3_stream \<Rightarrow> 'sec xd3_stream result" where
  "read_appheader s =
    (if USIZE_T_OVERFLOW (dec_appheadsz s) 1 then (Some XD3_INVALID_INPUT, s)
     else
       let buf = (case dec_appheader s of
                    Some b \<Rightarrow> Some b
                  | None \<Rightarrow> map_option (\<lambda>f. map (\<lambda>i. of_nat (f i)) [0..<add64 (dec_appheadsz s) 1])
                             (st_alloc s (add64 (dec_appheadsz s) 1) 1)) in
       case buf of
         None \<Rightarrow> (Some ENOMEM, s)
       | Some b \<Rightarrow>
           if length b \<le> dec_appheadsz s then (Some Fault, s\<lparr>dec_appheader := Some b\<rparr>)
           else
           (case xd3_decode_bytes s (b[dec_appheadsz s := 0]) (dec_appheadbytes s) (dec_appheadsz s) of
              (ret, s1, b1, pos) \<Rightarrow> (ret, s1\<lparr>dec_appheader := Some b1, dec_appheadbytes := pos\<rparr>)))"

definition label_appdat :: "'sec xd3_stream \<Rightarrow> 'sec xd3_stream result" where
  "label_appdat s =
    andthen (if flag (dec_hdr_ind s) VCD_APPHEADER then read_appheader s else (None, s))
      (\<lambda>s1. (None, s1\<lparr>dec_hdrsize := total_in s1, dec_state := DEC_WININD\<rparr>))"

section \<open>The window header\<close>

definition label_winind :: "'sec xd3_stream \<Rightarrow> 'sec xd3_stream result" where
  "label_winind s =
    andthen (xd3_decode_byte (\<lambda>v. dec_win_ind_update (\<lambda>_. v)) s) (\<lambda>s1.
      let s2 = s1\<lparr>current_window := dec_window_count s1\<rparr> in
      if USIZE_T_OVERFLOW (dec_winstart s2) (dec_tgtlen s2) then (Some XD3_INVALID_INPUT, s2)
      else
        let s3 = s2\<lparr>dec_winstart := add64 (dec_winstart s2) (dec_tgtlen s2)\<rparr> in
        if flag (dec_win_ind s3) VCD_INVWIN then (Some XD3_INVALID_INPUT, s3)
        else andthen (xd3_decode_init_window s3) (\<lambda>s4. (None, s4\<lparr>dec_state := DEC_CPYLEN\<rparr>)))"

definition label_cpylen :: "'sec xd3_stream \<Rightarrow> 'sec xd3_stream result" where
  "label_cpylen s =
    andthen (SIZE_CASE (SRCORTGT (dec_win_ind s)) (\<lambda>v. dec_cpylen_update (\<lambda>_. v)) DEC_CPYOFF s)
      (\<lambda>s1. (None, s1\<lparr>dec_position := dec_cpylen s1\<rparr>))"

definition label_cpyoff :: "'sec xd3_stream \<Rightarrow> 'sec xd3_stream result" where
  "label_cpyoff s =
    andthen (SIZE_CASE (SRCORTGT (dec_win_ind s)) (\<lambda>v. dec_cpyoff_update (\<lambda>_. v)) DEC_ENCLEN s) (\<lambda>s1.
      if USIZE_T_OVERFLOW (dec_cpyoff s1) (dec_cpylen s1) then (Some XD3_INVALID_INPUT, s1)
      else if flag (dec_win_ind s1) VCD_TARGET \<and> dec_winstart s1 < add64 (dec_cpyoff s1) (dec_cpylen s1)
      then (Some XD3_INVALID_INPUT, s1)
      else (None, s1))"

definition label_enclen :: "'sec xd3_stream \<Rightarrow> 'sec xd3_stream result" where
  "label_enclen s = SIZE_CASE True (\<lambda>v. dec_enclen_update (\<lambda>_. v)) DEC_TGTLEN s"

definition label_tgtlen :: "'sec xd3_stream \<Rightarrow> 'sec xd3_stream result" where
  "label_tgtlen s =
    andthen (SIZE_CASE True (\<lambda>v. dec_tgtlen_update (\<lambda>_. v)) DEC_DELIND s) (\<lambda>s1.
      if USIZE_T_OVERFLOW (dec_cpylen s1) (dec_tgtlen s1) then (Some XD3_INVALID_INPUT, s1)
      else if XD3_HARDMAXWINSIZE < dec_tgtlen s1 then (Some XD3_INVALID_INPUT, s1)
      else (None, s1\<lparr>dec_maxpos := add64 (dec_cpylen s1) (dec_tgtlen s1)\<rparr>))"

definition label_delind :: "'sec xd3_stream \<Rightarrow> 'sec xd3_stream result" where
  "label_delind s =
    andthen (BYTE_CASE True (\<lambda>v. dec_del_ind_update (\<lambda>_. v)) DEC_DATALEN s) (\<lambda>s1.
      if flag (dec_del_ind s1) VCD_INVDEL then (Some XD3_INVALID_INPUT, s1)
      else if dec_del_ind s1 \<noteq> 0 \<and> sec_type s1 = None then (Some XD3_INVALID_INPUT, s1)
      else (None, s1))"

definition put_size :: "section_name \<Rightarrow> nat \<Rightarrow> 'sec xd3_stream \<Rightarrow> 'sec xd3_stream" where
  "put_size nm v s = put_sect nm ((get_sect nm s)\<lparr>sect_size := v\<rparr>) s"

definition label_datalen :: "'sec xd3_stream \<Rightarrow> 'sec xd3_stream result" where
  "label_datalen s = SIZE_CASE True (put_size DATA_SECTION) DEC_INSTLEN s"

definition label_instlen :: "'sec xd3_stream \<Rightarrow> 'sec xd3_stream result" where
  "label_instlen s = SIZE_CASE True (put_size INST_SECTION) DEC_ADDRLEN s"

definition label_addrlen :: "'sec xd3_stream \<Rightarrow> 'sec xd3_stream result" where
  "label_addrlen s = SIZE_CASE True (put_size ADDR_SECTION) DEC_CKSUM s"

text \<open>The length of the delta encoding, as the header's fields determine it.\<close>

definition enclen_check :: "'sec xd3_stream \<Rightarrow> nat" where
  "enclen_check s =
    (1 + (xd3_sizeof_uint64 (dec_tgtlen s) + xd3_sizeof_uint64 (sect_size (data_sect s))
          + xd3_sizeof_uint64 (sect_size (inst_sect s)) + xd3_sizeof_uint64 (sect_size (addr_sect s)))
     + sect_size (data_sect s) + sect_size (inst_sect s) + sect_size (addr_sect s)
     + (if flag (dec_win_ind s) VCD_ADLER32 then 4 else 0)) mod 2 ^ 64"

definition read_cksum :: "'sec xd3_stream \<Rightarrow> 'sec xd3_stream result" where
  "read_cksum s =
    (case xd3_decode_bytes s (dec_cksum s) (dec_cksumbytes s) 4 of
       (ret, s1, cksum, pos) \<Rightarrow>
         andthen (ret, s1\<lparr>dec_cksum := cksum, dec_cksumbytes := pos\<rparr>)
           (\<lambda>s2. (None, s2\<lparr>dec_adler32 := foldl (\<lambda>a b. push_bit 8 a OR ucast b) (dec_adler32 s2) (take 4 (dec_cksum s2))\<rparr>)))"

definition label_cksum :: "'sec xd3_stream \<Rightarrow> 'sec xd3_stream result" where
  "label_cksum s =
    andthen (if flag (dec_win_ind s) VCD_ADLER32 then read_cksum s else (None, s)) (\<lambda>s1.
      let s2 = s1\<lparr>dec_state := DEC_DATA\<rparr> in
      if dec_enclen s2 \<noteq> enclen_check s2 then (Some XD3_INVALID_INPUT, s2)
      else if current_window s2 = 0 then (Some XD3_GOTHEADER, s2)
      else (Some XD3_WINSTART, s2))"

section \<open>The rest of the switch\<close>

definition label_emit :: "'sec xd3_stream \<Rightarrow> 'sec xd3_stream result option" where
  "label_emit s =
    (let start = (if flag (dec_win_ind s) VCD_SOURCE then
                    (case src s of
                       None \<Rightarrow> (Some XD3_INVALID_INPUT, s)
                     | Some source \<Rightarrow>
                         let (blocks, blkoff) = xd3_blksize_div (dec_cpyoff s) source in
                         (None, s\<lparr>src := Some (source\<lparr>cpyoff_blocks := blocks, cpyoff_blkoff := blkoff\<rparr>)\<rparr>))
                  else (None, s)) in
     case start of
       (Some e, s1) \<Rightarrow> Some (Some e, s1)
     | (None, s1) \<Rightarrow>
         (case xd3_decode_emit s1 of
            None \<Rightarrow> None
          | Some (ret, s2) \<Rightarrow>
              Some (ret, if ret = Some XD3_OUTPUT then s2\<lparr>total_out := add64 (total_out s2) (avail_out s2)\<rparr>
                         else s2)))"

definition label_finish :: "'sec xd3_stream \<Rightarrow> 'sec xd3_stream result" where
  "label_finish s =
    (if flag (dec_win_ind s) VCD_TARGET then (Some Fault, s)
     else
       (Some XD3_WINFINISH,
        s\<lparr>dec_lastlen := dec_tgtlen s, dec_laststart := dec_winstart s,
          dec_window_count := add64 (dec_window_count s) 1, dec_state := DEC_WININD\<rparr>))"

text \<open>The labels of the header in the order of the switch.\<close>

definition header_labels ::
    "'sec xd3_sec_type \<Rightarrow> 'sec xd3_sec_type \<Rightarrow>
      (xd3_decode_state \<times> ('sec xd3_stream \<Rightarrow> 'sec xd3_stream result)) list" where
  "header_labels fgk djw =
    [(DEC_VCHEAD, label_vchead), (DEC_HDRIND, label_hdrind), (DEC_SECONDID, label_secondid fgk djw),
     (DEC_TABLEN, label_tablen), (DEC_NEAR, label_near), (DEC_SAME, label_same), (DEC_TABDAT, label_tabdat),
     (DEC_APPLEN, label_applen), (DEC_APPDAT, label_appdat), (DEC_WININD, label_winind),
     (DEC_CPYLEN, label_cpylen), (DEC_CPYOFF, label_cpyoff), (DEC_ENCLEN, label_enclen),
     (DEC_TGTLEN, label_tgtlen), (DEC_DELIND, label_delind), (DEC_DATALEN, label_datalen),
     (DEC_INSTLEN, label_instlen), (DEC_ADDRLEN, label_addrlen), (DEC_CKSUM, label_cksum)]"

definition header_from ::
    "'sec xd3_sec_type \<Rightarrow> 'sec xd3_sec_type \<Rightarrow> xd3_decode_state \<Rightarrow> 'sec xd3_stream \<Rightarrow> 'sec xd3_stream result" where
  "header_from fgk djw st = falling (map snd (dropWhile (\<lambda>(l, _). l \<noteq> st) (header_labels fgk djw)))"

definition xd3_decode_input ::
    "'sec xd3_sec_type \<Rightarrow> 'sec xd3_sec_type \<Rightarrow> 'sec xd3_stream \<Rightarrow> 'sec xd3_stream result option" where
  "xd3_decode_input fgk djw s =
    (if enc_state s \<noteq> ENC_INIT then Some (Some XD3_INVALID_INPUT, s)
     else if dec_state s \<in> {DEC_DATA, DEC_INST, DEC_ADDR} then
       (case xd3_decode_sections s of
          (Some e, s1) \<Rightarrow> Some (Some e, s1)
        | (None, s1) \<Rightarrow> label_emit s1)
     else if dec_state s = DEC_EMIT then label_emit s
     else if dec_state s = DEC_FINISH then Some (label_finish s)
     else if dec_state s = DEC_ABORTED then Some (Some XD3_INVALID_INPUT, s)
     else Some (header_from fgk djw (dec_state s) s))"

section \<open>The client functions\<close>

text \<open>\<open>xd3_close_stream\<close> for a stream that has not encoded.\<close>

definition close_decoder :: "'sec xd3_stream \<Rightarrow> xd3_rvalue option" where
  "close_decoder s =
    (if dec_state s \<in> {DEC_VCHEAD, DEC_WININD, DEC_ABORTED} then None else Some XD3_INVALID_INPUT)"

text \<open>The loop of \<open>xd3_process_stream\<close>: the input not yet given to the stream, and the output so far.\<close>

partial_function (option) process_loop ::
    "(('sec, 'z) xd3_stream_scheme \<Rightarrow> ('sec, 'z) xd3_stream_scheme result option) \<Rightarrow> nat \<Rightarrow>
      ('sec, 'z) xd3_stream_scheme \<Rightarrow> bytes \<Rightarrow> bytes \<Rightarrow>
      (xd3_rvalue option \<times> ('sec, 'z) xd3_stream_scheme \<times> bytes) option" where
  "process_loop func output_size_max s inp out =
    (case func s of
       None \<Rightarrow> None
     | Some (ret, s1) \<Rightarrow>
         if ret = Some XD3_OUTPUT then
           (if output_size_max < length out + avail_out s1 then Some (Some ENOSPC, s1, out)
            else process_loop func output_size_max (s1\<lparr>next_out := []\<rparr>) inp (out @ next_out s1))
         else if ret = Some XD3_INPUT then
           (let n = min (winsize s1) (length inp) in
            if n = 0 then Some (None, s1, out)
            else process_loop func output_size_max (s1\<lparr>next_in := take n inp\<rparr>) (drop n inp) out)
         else if ret \<in> {Some XD3_GOTHEADER, Some XD3_WINSTART, Some XD3_WINFINISH} then
           process_loop func output_size_max s1 inp out
         else if ret \<in> {Some XD3_GETSRCBLK, None} then Some (Some XD3_INTERNAL, s1, out)
         else Some (ret, s1, out))"

declare process_loop.simps [code]

definition xd3_decode_stream ::
    "'sec xd3_sec_type \<Rightarrow> 'sec xd3_sec_type \<Rightarrow> 'sec xd3_stream \<Rightarrow> bytes \<Rightarrow> nat \<Rightarrow>
      (xd3_rvalue option \<times> bytes) option" where
  "xd3_decode_stream fgk djw s inp output_size_max =
    (let n = min (winsize s) (length inp) in
     case process_loop (xd3_decode_input fgk djw) output_size_max
            (s\<lparr>st_flags := st_flags s OR XD3_FLUSH, next_in := take n inp\<rparr>) (drop n inp) [] of
       None \<Rightarrow> None
     | Some (ret, s1, out) \<Rightarrow> Some (if ret = None then close_decoder s1 else ret, out))"

text \<open>\<open>xd3_decode_memory\<close>: the whole source as one block.\<close>

definition memory_source :: "bytes \<Rightarrow> xd3_source" where
  "memory_source source =
    \<lparr>blksize = length source, max_winsize = length source, curblkno = 0, onblk = length source,
     curblk = Some source, srclen = 0, srcbase = 0, shiftby = 0, maskby = 0, cpyoff_blocks = 0,
     cpyoff_blkoff = 0, getblkno = 0, max_blkno = 0, onlastblk = 0, eof_known = False\<rparr>"

definition decode_config :: "nat \<Rightarrow> xd3_config" where
  "decode_config flags =
    \<lparr>config_winsize = 0, config_sprevsz = 0, config_iopt_size = 0, config_getblk = None,
     config_flags = flags, config_smatch = XD3_SMATCH_DEFAULT\<rparr>"

definition xd3_decode_memory ::
    "allocator \<Rightarrow> 'sec xd3_sec_type \<Rightarrow> 'sec xd3_sec_type \<Rightarrow> bytes \<Rightarrow> bytes option \<Rightarrow> nat \<Rightarrow> nat \<Rightarrow>
      (xd3_rvalue option \<times> bytes) option" where
  "xd3_decode_memory al fgk djw inp source output_size_max flags =
    (case xd3_config_stream al fgk djw (decode_config flags) of
       Inl e \<Rightarrow> Some (Some e, [])
     | Inr s \<Rightarrow>
         (case source of
            None \<Rightarrow> xd3_decode_stream fgk djw s inp output_size_max
          | Some bs \<Rightarrow>
              do {
                sr \<leftarrow> xd3_set_source_and_size (memory_source bs) (length bs);
                xd3_decode_stream fgk djw (s\<lparr>src := Some sr\<rparr>) inp output_size_max
              }))"

end
