(* ===== verification/Xd3DecodeSafe.thy ===== *)
theory Xd3DecodeSafe
  imports Xd3DecodeInput
begin

text \<open>
  The decoder on arbitrary input, part one: what it relies on its client for (the allocator, the block
  reader, the secondary compressors), and the emission of a window. Whatever bytes the sections hold,
  the loops of \<open>xd3_decode_emit\<close> return, write inside the output buffer and read only source bytes of
  the current block and target bytes already written. The invariant \<open>emit_inv\<close> bounds
  \<open>dec_position\<close> by what the pending half-instructions will have written.
\<close>

unbundle bit_operations_syntax

section \<open>What the client provides\<close>

text \<open>The codes after which a stream can only be closed.\<close>

definition hard :: "xd3_rvalue \<Rightarrow> bool" where
  "hard e \<longleftrightarrow> e \<notin> {Fault, XD3_INPUT, XD3_OUTPUT, XD3_GETSRCBLK, XD3_GOTHEADER, XD3_WINSTART, XD3_WINFINISH}"

lemma hard_codes [simp]:
  "hard XD3_INVALID_INPUT" "hard XD3_INTERNAL" "hard XD3_UNIMPLEMENTED" "hard ENOMEM" "hard XD3_INVALID"
  "\<not> hard Fault" "\<not> hard XD3_INPUT" "\<not> hard XD3_OUTPUT" "\<not> hard XD3_GETSRCBLK" "\<not> hard XD3_GOTHEADER"
  "\<not> hard XD3_WINSTART" "\<not> hard XD3_WINFINISH"
  by (simp_all add: hard_def)

text \<open>An object has less than \<open>2 ^ 63\<close> bytes (\<open>PTRDIFF_MAX\<close>).\<close>

definition alloc_ok :: "allocator \<Rightarrow> bool" where
  "alloc_ok al \<longleftrightarrow> (\<forall>n f. al n 1 = Some f \<longrightarrow> n < 2 ^ 63)"

definition source_ok :: "xd3_source \<Rightarrow> bool" where
  "source_ok x \<longleftrightarrow> shiftby x < 64 \<and> blksize x = 2 ^ shiftby x \<and> maskby x = 2 ^ shiftby x - 1 \<and>
    (case curblk x of None \<Rightarrow> True | Some b \<Rightarrow> onblk x \<le> length b)"

text \<open>A block reader keeps the source well formed, has read a block when it returns 0, and otherwise
  returns \<open>XD3_GETSRCBLK\<close> or an error.\<close>

definition reader_ok :: "xd3_getblk_func \<Rightarrow> bool" where
  "reader_ok getblk \<longleftrightarrow>
    (case getblk of
       None \<Rightarrow> True
     | Some f \<Rightarrow> (\<forall>x blkno. source_ok x \<longrightarrow>
         source_ok (snd (f x blkno)) \<and>
         (case fst (f x blkno) of None \<Rightarrow> curblk (snd (f x blkno)) \<noteq> None | Some e \<Rightarrow> hard e \<or> e = XD3_GETSRCBLK)))"

text \<open>A secondary compressor returns a result or an error, and writes no more than it is asked for.\<close>

definition sec_ok :: "'sec xd3_sec_type \<Rightarrow> bool" where
  "sec_ok ty \<longleftrightarrow> (\<forall>s b e. sec_init ty s b = Inl e \<longrightarrow> hard e) \<and>
    (\<forall>s inp n e. sec_decode ty s inp n = Inl e \<longrightarrow> hard e) \<and>
    (\<forall>s inp n sec unused out. sec_decode ty s inp n = Inr (sec, unused, out) \<longrightarrow> length out \<le> n)"

section \<open>The source\<close>

lemma nat_and_mask: "(n::nat) AND (2 ^ k - 1) = n mod 2 ^ k"
  by (simp only: take_bit_eq_mask [symmetric] mask_eq_exp_minus_1 [symmetric] take_bit_eq_mod)

lemma blksize_div_less: "source_ok x \<Longrightarrow> xd3_blksize_div off x = (b, o') \<Longrightarrow> o' < blksize x"
  unfolding source_ok_def xd3_blksize_div_def by (auto simp only: nat_and_mask prod.inject) simp

lemma blksize_add_less:
  assumes "source_ok x" "xd3_blksize_add b o1 x a = (b', o')"
  shows "o' < blksize x"
proof -
  let ?s = "add64 o1 a"
  have k: "blksize x = 2 ^ shiftby x" "maskby x = 2 ^ shiftby x - 1" using assms(1) by (auto simp: source_ok_def)
  have 1: "drop_bit (shiftby x) ?s = ?s div 2 ^ shiftby x" by (simp add: drop_bit_eq_div)
  have 2: "?s div 2 ^ shiftby x = 0 \<Longrightarrow> ?s < 2 ^ shiftby x" by (simp add: div_eq_0_iff)
  have 3: "?s AND maskby x < 2 ^ shiftby x" unfolding k nat_and_mask by simp
  show ?thesis
    using assms(2) 1 2 3 unfolding xd3_blksize_add_def Let_def k(1) by (auto split: if_splits)
qed

lemma getblk_ok:
  assumes "source_ok x" "reader_ok g" "xd3_getblk g x blkno = (ret, x')"
  shows "source_ok x'" and "ret = None \<Longrightarrow> curblk x' \<noteq> None"
    and "ret = Some e \<Longrightarrow> hard e \<or> e = XD3_GETSRCBLK"
proof -
  have src: "source_ok (x\<lparr>getblkno := blkno\<rparr>)" using assms(1) by (simp add: source_ok_def split: option.splits)
  obtain r1 x1 where 1: "(if curblk x = None \<or> blkno \<noteq> curblkno x then
      (case g of None \<Rightarrow> (Some XD3_GETSRCBLK, x\<lparr>getblkno := blkno\<rparr>) | Some f \<Rightarrow> f (x\<lparr>getblkno := blkno\<rparr>) blkno)
      else (None, x)) = (r1, x1)" by (cases "(if curblk x = None \<or> blkno \<noteq> curblkno x then
      (case g of None \<Rightarrow> (Some XD3_GETSRCBLK, x\<lparr>getblkno := blkno\<rparr>) | Some f \<Rightarrow> f (x\<lparr>getblkno := blkno\<rparr>) blkno)
      else (None, x))")
  have ok1: "source_ok x1 \<and> (case r1 of None \<Rightarrow> curblk x1 \<noteq> None | Some e \<Rightarrow> hard e \<or> e = XD3_GETSRCBLK)"
  proof (cases g)
    case None
    then show ?thesis using 1 assms(1) src by (auto split: if_splits)
  next
    case (Some f)
    show ?thesis
    proof (cases "curblk x = None \<or> blkno \<noteq> curblkno x")
      case True
      then have f: "f (x\<lparr>getblkno := blkno\<rparr>) blkno = (r1, x1)" using 1 Some by simp
      have "source_ok (snd (f (x\<lparr>getblkno := blkno\<rparr>) blkno)) \<and>
          (case fst (f (x\<lparr>getblkno := blkno\<rparr>) blkno) of None \<Rightarrow> curblk (snd (f (x\<lparr>getblkno := blkno\<rparr>) blkno)) \<noteq> None
           | Some e \<Rightarrow> hard e \<or> e = XD3_GETSRCBLK)"
        using assms(2) src Some by (simp add: reader_ok_def)
      then show ?thesis unfolding f fst_conv snd_conv .
    next
      case False
      then show ?thesis using 1 assms(1) by auto
    qed
  qed
  have 2: "(case r1 of Some e \<Rightarrow> (Some e, x1) | None \<Rightarrow>
      (None, let s2 = (if max_blkno x1 < blkno then
                       (let s = x1\<lparr>max_blkno := blkno\<rparr> in
                        if onblk s \<noteq> blksize s \<and> \<not> eof_known s then s\<lparr>eof_known := True\<rparr> else s)
                     else x1) in if blkno = max_blkno s2 then s2\<lparr>onlastblk := onblk s2\<rparr> else s2)) = (ret, x')"
    using assms(3) unfolding xd3_getblk_def Let_def 1 prod.case .
  show "source_ok x'" using 2 ok1 by (auto simp: source_ok_def Let_def split: option.splits if_splits)
  show "ret = None \<Longrightarrow> curblk x' \<noteq> None" using 2 ok1 by (auto simp: Let_def split: option.splits if_splits)
  show "ret = Some e \<Longrightarrow> hard e \<or> e = XD3_GETSRCBLK"
    using 2 ok1 by (auto simp: Let_def split: option.splits if_splits)
qed

section \<open>Half-instructions\<close>

text \<open>The fields that emitting a window changes, cleared.\<close>

definition window_part :: "'sec xd3_stream \<Rightarrow> 'sec xd3_stream" where
  "window_part s = s\<lparr>acache := undefined, inst_sect := (inst_sect s)\<lparr>sect_buf := []\<rparr>,
    addr_sect := (addr_sect s)\<lparr>sect_buf := []\<rparr>, data_sect := (data_sect s)\<lparr>sect_buf := []\<rparr>,
    src := None, next_out := [], dec_position := 0, dec_current1 := zero_hinst, dec_current2 := zero_hinst\<rparr>"

lemma window_part_fields:
  assumes "window_part s' = window_part s"
  shows "next_in s' = next_in s" "dec_state s' = dec_state s" "enc_state s' = enc_state s"
    "st_flags s' = st_flags s" "st_alloc s' = st_alloc s" "st_getblk s' = st_getblk s"
    "sec_type s' = sec_type s" "dec_del_ind s' = dec_del_ind s" "dec_tgtlen s' = dec_tgtlen s"
    "dec_win_ind s' = dec_win_ind s" "dec_cpylen s' = dec_cpylen s" "space_out s' = space_out s"
    "dec_magic s' = dec_magic s" "dec_cksum s' = dec_cksum s" "dec_appheader s' = dec_appheader s"
    "dec_appheadsz s' = dec_appheadsz s"
    "code_table s' = code_table s" "sect_size (inst_sect s') = sect_size (inst_sect s)"
    "sect_size (addr_sect s') = sect_size (addr_sect s)" "sect_size (data_sect s') = sect_size (data_sect s)"
  using arg_cong [OF assms, of next_in] arg_cong [OF assms, of dec_state] arg_cong [OF assms, of enc_state]
    arg_cong [OF assms, of st_flags] arg_cong [OF assms, of st_alloc] arg_cong [OF assms, of st_getblk]
    arg_cong [OF assms, of sec_type] arg_cong [OF assms, of dec_del_ind] arg_cong [OF assms, of dec_tgtlen]
    arg_cong [OF assms, of dec_win_ind] arg_cong [OF assms, of dec_cpylen] arg_cong [OF assms, of space_out]
    arg_cong [OF assms, of dec_magic] arg_cong [OF assms, of dec_cksum] arg_cong [OF assms, of dec_appheader]
    arg_cong [OF assms, of dec_appheadsz] arg_cong [OF assms, of code_table] arg_cong [OF assms, of "\<lambda>s. sect_size (inst_sect s)"]
    arg_cong [OF assms, of "\<lambda>s. sect_size (addr_sect s)"] arg_cong [OF assms, of "\<lambda>s. sect_size (data_sect s)"]
  by (simp_all add: window_part_def)

text \<open>What holds throughout the emission of a window.\<close>

definition emit_env :: "'sec xd3_stream \<Rightarrow> bool" where
  "emit_env s \<longleftrightarrow> code_table s = xd3_rfc3284_code_table \<and> s_near (acache s) = 4 \<and> s_same (acache s) = 3 \<and>
    cache_ok (acache s) \<and> \<not> flag (dec_win_ind s) VCD_TARGET \<and>
    (dec_cpylen s \<noteq> 0 \<longrightarrow> src s \<noteq> None) \<and> (\<forall>x. src s = Some x \<longrightarrow> source_ok x) \<and>
    reader_ok (st_getblk s) \<and> avail_out s \<le> space_out s \<and> space_out s \<le> 2 ^ 26"

text \<open>A copy starts in what is written once the first \<open>n\<close> bytes to come are.\<close>

definition copies_written :: "'sec xd3_stream \<Rightarrow> nat \<Rightarrow> xd3_hinst \<Rightarrow> bool" where
  "copies_written s n inst \<longleftrightarrow> (XD3_CPY \<le> htype inst \<longrightarrow> haddr inst < dec_cpylen s + avail_out s + n)"

definition pend :: "xd3_hinst \<Rightarrow> nat" where
  "pend inst = (if htype inst = XD3_NOOP then 0 else hsize inst)"

lemma target_copy_ok:
  "i < length out \<Longrightarrow> \<exists>ys. target_copy n i out = Some (out @ ys) \<and> length ys = n"
proof (induction n arbitrary: i out)
  case (Suc n)
  obtain ys where "target_copy n (Suc i) (out @ [out ! i]) = Some ((out @ [out ! i]) @ ys)" "length ys = n"
    using Suc.IH [of "Suc i" "out @ [out ! i]"] Suc.prems by auto
  then show ?case using Suc.prems by simp
qed simp

lemma room:
  assumes "\<not> (USIZE_T_OVERFLOW a b \<or> sp < add64 a b)" "a \<le> sp" "sp \<le> 2 ^ 26"
  shows "a + b \<le> sp"
proof -
  have "a + b < 2 ^ 64" using assms USIZE_T_OVERFLOW_iff [of a b] by simp
  then show ?thesis using assms(1) by simp
qed

text \<open>One round of \<open>xd3_decode_output_halfinst\<close>: it fails before it writes, or writes what it takes off
  the size.\<close>

definition round_ok ::
    "'sec xd3_stream \<Rightarrow> xd3_hinst \<Rightarrow> xd3_rvalue option \<times> 'sec xd3_stream \<times> xd3_hinst \<Rightarrow> bool" where
  "round_ok s inst = (\<lambda>(ret, s', inst').
    emit_env s' \<and> window_part s' = window_part s \<and> dec_position s' = dec_position s \<and>
    dec_current1 s' = dec_current1 s \<and> dec_current2 s' = dec_current2 s \<and> inst_sect s' = inst_sect s \<and>
    (case ret of
       Some e \<Rightarrow> (hard e \<or> e = XD3_GETSRCBLK) \<and> next_out s' = next_out s \<and> inst' = inst
     | None \<Rightarrow> avail_out s' + pend inst' = avail_out s + hsize inst \<and>
         (htype inst' = XD3_NOOP \<or> htype inst' = htype inst \<and> hsize inst' < hsize inst \<and> copies_written s' 0 inst')))"

lemma source_round:
  assumes env: "emit_env s" and less: "haddr inst < dec_cpylen s" and room: "avail_out s + hsize inst \<le> space_out s"
    and type: "htype inst \<noteq> XD3_NOOP"
  shows "round_ok s inst (copy_from_source s inst)"
proof -
  have nt: "\<not> flag (dec_win_ind s) VCD_TARGET" and sp: "space_out s \<le> 2 ^ 26" and reader: "reader_ok (st_getblk s)"
    using env by (auto simp: emit_env_def)
  obtain x where x: "src s = Some x" "source_ok x" using env less by (fastforce simp: emit_env_def)
  obtain b o1 where add: "xd3_blksize_add (cpyoff_blocks x) (cpyoff_blkoff x) x (haddr inst) = (b, o1)" by fastforce
  obtain ret x' where get: "xd3_getblk (st_getblk s) x b = (ret, x')" by fastforce
  have o1: "o1 < blksize x" using blksize_add_less [OF x(2) add] .
  have size: "blksize x \<le> 2 ^ 63" using x(2) power_increasing [of "shiftby x" 63 "2::nat"] by (auto simp: source_ok_def)
  have "o1 + hsize inst < 2 ^ 64" using o1 size room sp by simp
  then have sum: "add64 o1 (hsize inst) = o1 + hsize inst" by simp
  have env': "emit_env (s\<lparr>src := Some x'\<rparr>)"
    using env getblk_ok(1) [OF x(2) reader get] by (auto simp: emit_env_def)
  show ?thesis
  proof (cases ret)
    case (Some e)
    then have "hard e \<or> e = XD3_GETSRCBLK" using getblk_ok(3) [OF x(2) reader get] by simp
    then show ?thesis
      using env' Some by (auto simp: round_ok_def copy_from_source_def nt x add get window_part_def Let_def)
  next
    case None
    then obtain c where c: "curblk x' = Some c" using getblk_ok(2) [OF x(2) reader get] by auto
    then have len: "onblk x' \<le> length c" using getblk_ok(1) [OF x(2) reader get] by (simp add: source_ok_def)
    show ?thesis
    proof (cases "onblk x' \<noteq> blksize x \<and> onblk x' < o1 + hsize inst")
      case True
      then show ?thesis
        using env' None by (auto simp: round_ok_def copy_from_source_def nt x add get window_part_def Let_def sum)
    next
      case False
      define n where "n = min (hsize inst) (blksize x - o1)"
      have n: "0 < hsize inst \<longrightarrow> 0 < n" "n \<le> hsize inst" "o1 + n \<le> length c"
        using False len o1 by (auto simp: n_def)
      define inst' where "inst' = (if o1 + hsize inst \<le> blksize x then inst\<lparr>htype := XD3_NOOP, hsize := 0\<rparr>
        else inst\<lparr>hsize := hsize inst - n, haddr := add64 (haddr inst) n\<rparr>)"
      have sub: "\<not> o1 + hsize inst \<le> blksize x \<Longrightarrow> sub64 (blksize x) o1 = n \<and> sub64 (hsize inst) n = hsize inst - n"
        using o1 size room sp by (auto simp: n_def)
      have run: "copy_from_source s inst =
          (None, s\<lparr>src := Some x', next_out := next_out s @ take n (drop o1 c)\<rparr>, inst')"
      proof (cases "o1 + hsize inst \<le> blksize x")
        case True
        then show ?thesis
          using False n None room by (auto simp: copy_from_source_def nt x add get Let_def sum c inst'_def n_def)
      next
        case notall: False
        then show ?thesis
          using False n None sub room by (auto simp: copy_from_source_def nt x add get Let_def sum c inst'_def)
      qed
      have addr: "add64 (haddr inst) n \<le> haddr inst + n" by (simp add: add64_def)
      show ?thesis
        unfolding run round_ok_def
        using env' n addr less room o1 type
        by (auto simp: window_part_def emit_env_def inst'_def pend_def copies_written_def n_def)
    qed
  qed
qed

lemma copy_types: "XD3_CPY \<le> t \<Longrightarrow> t \<noteq> XD3_NOOP \<and> t \<noteq> XD3_ADD \<and> t \<noteq> XD3_RUN"
  by (auto simp: XD3_CPY_def XD3_NOOP_def XD3_ADD_def XD3_RUN_def word_le_nat_alt)

lemma inst_type_or: "inst_type t \<Longrightarrow> XD3_CPY \<le> t \<or> t = XD3_ADD \<or> t = XD3_RUN"
  by (auto simp: inst_type_def XD3_CPY_def XD3_ADD_def XD3_RUN_def word_le_nat_alt word_unat_eq_iff)

lemma copy_mode: "inst_type t \<Longrightarrow> XD3_CPY \<le> t \<Longrightarrow> unat (t - XD3_CPY) < 9"
  by (auto simp: inst_type_def XD3_CPY_def word_le_nat_alt unat_sub)

text \<open>The types the code table has.\<close>

definition known_type :: "xd3_hinst \<Rightarrow> bool" where
  "known_type inst \<longleftrightarrow> htype inst = XD3_NOOP \<or> inst_type (htype inst)"

lemma output_round:
  assumes env: "emit_env s" and written: "copies_written s 0 inst" and type: "htype inst \<noteq> XD3_NOOP"
    and known: "known_type inst"
  shows "round_ok s inst (xd3_decode_output_halfinst s inst)"
proof (cases "USIZE_T_OVERFLOW (avail_out s) (hsize inst) \<or> space_out s < add64 (avail_out s) (hsize inst)")
  case True
  then show ?thesis using env by (auto simp: round_ok_def xd3_decode_output_halfinst_def Let_def)
next
  case fits: False
  have room: "avail_out s + hsize inst \<le> space_out s"
    using room [OF fits] env by (simp add: emit_env_def)
  show ?thesis
  proof (cases "XD3_CPY \<le> htype inst")
    case True
    then have copy: "htype inst \<noteq> XD3_RUN" "htype inst \<noteq> XD3_ADD" by (simp_all add: copy_types)
    have addr: "haddr inst < dec_cpylen s + avail_out s" using written True by (simp add: copies_written_def)
    show ?thesis
    proof (cases "haddr inst < dec_cpylen s")
      case True
      then show ?thesis
        using source_round [OF env True room type] fits copy by (simp add: xd3_decode_output_halfinst_def Let_def)
    next
      case False
      then have "haddr inst - dec_cpylen s < avail_out s" using addr by linarith
      then obtain ys where "target_copy (hsize inst) (haddr inst - dec_cpylen s) (next_out s) = Some (next_out s @ ys)"
          "length ys = hsize inst"
        using target_copy_ok by blast
      then show ?thesis
        using env fits copy False room
        by (auto simp: xd3_decode_output_halfinst_def Let_def round_ok_def window_part_def emit_env_def pend_def)
    qed
  next
    case False
    then show ?thesis
      using known type inst_type_or [of "htype inst"] env fits room
      by (auto simp: xd3_decode_output_halfinst_def Let_def round_ok_def window_part_def emit_env_def pend_def known_type_def
          XD3_RUN_def XD3_ADD_def XD3_NOOP_def split: list.splits)
  qed
qed

section \<open>Emitting one instruction\<close>

definition emit_inv :: "'sec xd3_stream \<Rightarrow> bool" where
  "emit_inv s \<longleftrightarrow> emit_env s \<and> known_type (dec_current1 s) \<and> known_type (dec_current2 s) \<and>
    copies_written s 0 (dec_current1 s) \<and> copies_written s (pend (dec_current1 s)) (dec_current2 s) \<and>
    dec_position s \<le> dec_cpylen s + avail_out s + pend (dec_current1 s) + pend (dec_current2 s)"

text \<open>What the loops of \<open>xd3_decode_emit\<close> answer: an error, a request for a source block, or success.\<close>

definition emitted :: "'sec xd3_stream \<Rightarrow> 'sec xd3_stream result \<Rightarrow> bool" where
  "emitted s = (\<lambda>(ret, s'). window_part s' = window_part s \<and>
    (case ret of Some e \<Rightarrow> hard e \<or> e = XD3_GETSRCBLK \<and> emit_inv s' | None \<Rightarrow> emit_inv s'))"

lemma emitted_trans: "window_part s' = window_part s \<Longrightarrow> emitted s' r \<Longrightarrow> emitted s r"
  by (auto simp: emitted_def split: prod.splits)

lemma put_inst_fields [simp]:
  "emit_env (put_inst b i s) = emit_env s" "window_part (put_inst b i s) = window_part s"
  "copies_written (put_inst b i s) = copies_written s" "cur_inst b (put_inst b i s) = i"
  "next_out (put_inst b i s) = next_out s" "dec_position (put_inst b i s) = dec_position s"
  "dec_cpylen (put_inst b i s) = dec_cpylen s" "inst_sect (put_inst b i s) = inst_sect s"
  "cur_inst True (put_inst False i s) = cur_inst True s" "cur_inst False (put_inst True i s) = cur_inst False s"
  by (auto simp: put_inst_def cur_inst_def emit_env_def window_part_def copies_written_def fun_eq_iff)

text \<open>The second half-instruction is output when the first one is done.\<close>

definition turn :: "bool \<Rightarrow> 'sec xd3_stream \<Rightarrow> bool" where
  "turn second s \<longleftrightarrow> (second \<longrightarrow> htype (dec_current1 s) = XD3_NOOP)"

lemma emit_inv_cur:
  "emit_inv s \<longleftrightarrow> emit_env s \<and> known_type (cur_inst False s) \<and> known_type (cur_inst True s) \<and>
    copies_written s 0 (cur_inst False s) \<and> copies_written s (pend (cur_inst False s)) (cur_inst True s) \<and>
    dec_position s \<le> dec_cpylen s + avail_out s + pend (cur_inst False s) + pend (cur_inst True s)"
  by (simp add: emit_inv_def cur_inst_def)

lemma noop_written [simp]: "htype i = XD3_NOOP \<Longrightarrow> copies_written s n i"
  by (auto simp: copies_written_def dest: copy_types)

lemma round_inv:
  assumes inv: "emit_inv s" and turn: "turn b s" and type: "htype (cur_inst b s) \<noteq> XD3_NOOP"
    and round: "xd3_decode_output_halfinst s (cur_inst b s) = (ret, s', inst)"
  shows "window_part (put_inst b inst s') = window_part s" "turn b (put_inst b inst s')"
    "inst_sect s' = inst_sect s"
    "ret = None \<Longrightarrow> emit_inv (put_inst b inst s') \<and> (htype inst = XD3_NOOP \<or> hsize inst < hsize (cur_inst b s))
      \<and> cur_inst (\<not> b) s' = cur_inst (\<not> b) s"
    "ret = Some e \<Longrightarrow> hard e \<or> e = XD3_GETSRCBLK \<and> emit_inv (put_inst b inst s')"
proof -
  have "copies_written s 0 (cur_inst b s)"
    using inv turn by (cases b) (auto simp: emit_inv_def cur_inst_def turn_def pend_def)
  then have "round_ok s (cur_inst b s) (ret, s', inst)"
    unfolding round [symmetric]
    using inv type by (intro output_round) (auto simp: emit_inv_cur, (cases b; simp)?)
  then have ok: "emit_env s'" "window_part s' = window_part s" "dec_position s' = dec_position s"
      "dec_current1 s' = dec_current1 s" "dec_current2 s' = dec_current2 s" "inst_sect s' = inst_sect s"
    and err: "\<And>e. ret = Some e \<Longrightarrow> (hard e \<or> e = XD3_GETSRCBLK) \<and> next_out s' = next_out s \<and> inst = cur_inst b s"
    and fin: "ret = None \<Longrightarrow> avail_out s' + pend inst = avail_out s + hsize (cur_inst b s) \<and>
         (htype inst = XD3_NOOP \<or> htype inst = htype (cur_inst b s) \<and> hsize inst < hsize (cur_inst b s) \<and>
          copies_written s' 0 inst)"
    by (auto simp: round_ok_def split: option.splits)
  note eq = window_part_fields [OF ok(2)]
  show "window_part (put_inst b inst s') = window_part s" "inst_sect s' = inst_sect s" using ok by simp_all
  show "turn b (put_inst b inst s')" using turn ok by (auto simp: turn_def put_inst_def)
  have cur: "cur_inst c s' = cur_inst c s" for c using ok by (simp add: cur_inst_def)
  have len: "dec_cpylen s' = dec_cpylen s" using eq by simp
  show "ret = Some e \<Longrightarrow> hard e \<or> e = XD3_GETSRCBLK \<and> emit_inv (put_inst b inst s')"
  proof -
    assume "ret = Some e"
    then have e: "hard e \<or> e = XD3_GETSRCBLK" "next_out s' = next_out s" "inst = cur_inst b s" using err by auto
    then have "copies_written s' = copies_written s" by (simp add: copies_written_def fun_eq_iff len)
    then have "emit_inv (put_inst b inst s')"
      using inv ok(1,3) len cur e by (cases b) (simp_all add: emit_inv_cur)
    then show ?thesis using e by simp
  qed
  have "emit_inv (put_inst b inst s')" if r: "ret = None"
  proof -
    have f: "avail_out s' + pend inst = avail_out s + pend (cur_inst b s)" "copies_written s' 0 inst" "known_type inst"
      using fin [OF r] type inv by (cases b; auto simp: emit_inv_cur known_type_def pend_def)+
    show ?thesis
    proof (cases b)
      case True
      then have "pend (cur_inst False s) = 0" "htype (cur_inst False s) = XD3_NOOP"
        using turn by (auto simp: turn_def cur_inst_def pend_def)
      then show ?thesis using True f inv ok(1,3) len cur by (simp add: emit_inv_cur)
    next
      case False
      have "avail_out s' + pend inst = avail_out s + pend (cur_inst False s)" using f(1) False by simp
      then have "copies_written s' (pend inst) (cur_inst True s)"
        using inv len unfolding emit_inv_cur copies_written_def by linarith
      then show ?thesis using False f inv ok(1,3) len cur by (simp add: emit_inv_cur)
    qed
  qed
  then show "ret = None \<Longrightarrow> emit_inv (put_inst b inst s') \<and>
      (htype inst = XD3_NOOP \<or> hsize inst < hsize (cur_inst b s)) \<and> cur_inst (\<not> b) s' = cur_inst (\<not> b) s"
    using fin cur by auto
qed

text \<open>The loop over one half-instruction returns: every round takes something off its size.\<close>

lemma output_current_ok:
  assumes "emit_inv s" "turn b s"
  shows "\<exists>r. output_current b s = Some r \<and> emitted s r \<and>
    (fst r = None \<longrightarrow> htype (cur_inst b (snd r)) = XD3_NOOP \<and> turn b (snd r) \<and> inst_sect (snd r) = inst_sect s)"
  using assms
proof (induction "hsize (cur_inst b s)" arbitrary: s rule: less_induct)
  case less
  show ?case
  proof (cases "htype (cur_inst b s) = XD3_NOOP")
    case True
    then show ?thesis using less.prems by (subst output_current.simps) (simp add: emitted_def)
  next
    case False
    obtain ret s' inst where r: "xd3_decode_output_halfinst s (cur_inst b s) = (ret, s', inst)"
      by (metis prod_cases3)
    note ok = round_inv [OF less.prems False r]
    show ?thesis
    proof (cases ret)
      case (Some e)
      then show ?thesis
        using ok False r by (subst output_current.simps) (auto simp: emitted_def)
    next
      case None
      let ?s = "put_inst b inst s'"
      have step: "output_current b s = output_current b ?s"
        using False r None by (subst output_current.simps) simp
      show ?thesis
      proof (cases "htype inst = XD3_NOOP")
        case True
        then have "output_current b ?s = Some (None, ?s)" by (subst output_current.simps) simp
        then show ?thesis using step ok(1,2,3) ok(4) [OF None] True by (simp add: emitted_def)
      next
        case big: False
        then have "hsize (cur_inst b ?s) < hsize (cur_inst b s)" using ok(4) [OF None] by simp
        then obtain r where "output_current b ?s = Some r" "emitted ?s r" "fst r = None \<longrightarrow>
            htype (cur_inst b (snd r)) = XD3_NOOP \<and> turn b (snd r) \<and> inst_sect (snd r) = inst_sect ?s"
          using less.hyps [of ?s] ok(2) ok(4) [OF None] by auto
        then show ?thesis using step ok(1,3) emitted_trans [OF ok(1)] by auto
      qed
    qed
  qed
qed

section \<open>Parsing one instruction\<close>

lemma read_uint64_error: "xd3_read_uint64 inp = Inl e \<Longrightarrow> e = XD3_INVALID_INPUT"
proof -
  have "read_integer_loop v inp = Inl e \<Longrightarrow> e = XD3_INVALID_INPUT" for v
    by (induction v inp rule: read_integer_loop.induct) (auto simp: Let_def split: if_splits)
  then show "xd3_read_uint64 inp = Inl e \<Longrightarrow> e = XD3_INVALID_INPUT" by (simp add: xd3_read_uint64_def)
qed

lemma read_uint64_length: "xd3_read_uint64 inp = Inr (v, rest) \<Longrightarrow> length rest < length inp"
  using read_integer_suffix [of 0 inp v rest] by (auto simp: xd3_read_uint64_def)

lemma decode_address_total:
  assumes ok: "cache_ok ac" "s_near ac = 4" "s_same ac = 3" and mode: "mode < 9"
  shows "(\<exists>e. xd3_decode_address ac here mode inp = Inl e \<and> hard e) \<or>
    (\<exists>ac' rest addr. xd3_decode_address ac here mode inp = Inr (ac', rest, addr) \<and>
       cache_ok ac' \<and> s_near ac' = 4 \<and> s_same ac' = 3)"
proof -
  have upd: "cache_ok (xd3_update_cache ac a) \<and> s_near (xd3_update_cache ac a) = 4 \<and> s_same (xd3_update_cache ac a) = 3"
    if "a < 2 ^ 64" for a
    using cache_ok_update [OF ok(1) that] ok by simp
  show ?thesis
  proof (cases "mode < 2 + s_near ac")
    case True
    show ?thesis
    proof (cases "xd3_read_uint64 inp")
      case (Inl e)
      then show ?thesis using True read_uint64_error [OF Inl] by (simp add: xd3_decode_address_def Let_def)
    next
      case (Inr p)
      obtain v rest where p: "p = (v, rest)" by fastforce
      have v: "v < 2 ^ 64" using xd3_read_uint64_less Inr p by blast
      have near: "mode - 2 < length (near_array ac)" if "mode \<noteq> 0" "mode \<noteq> 1"
        using that True ok by (auto simp: cache_ok_def)
      show ?thesis
        using True Inr p upd [OF v] upd [OF sub64_less [of here v]] near
          upd [OF add64_less [of v "near_array ac ! (mode - 2)"]]
        by (auto simp: xd3_decode_address_def Let_def VCD_SELF_def VCD_HERE_def)
    qed
  next
    case False
    have idx: "(mode - 6) * 256 + unat b < length (same_array ac)" for b :: u8
    proof -
      have "(mode - 6) * 256 \<le> 2 * 256" using mode by (intro mult_right_mono) auto
      moreover have "unat b < 256" by (rule unat_u8_less)
      ultimately have "(mode - 6) * 256 + unat b < 768" by linarith
      then show ?thesis using ok by (simp add: cache_ok_def)
    qed
    have "same_array ac ! ((mode - 6) * 256 + unat b) < 2 ^ 64" for b :: u8
      using ok(1) nth_mem [OF idx [of b]] by (auto simp: cache_ok_def)
    then show ?thesis
      using False idx upd ok by (cases inp) (auto simp: xd3_decode_address_def Let_def)
  qed
qed

text \<open>A half-instruction that parses has its address in what is decoded so far.\<close>

definition parsed_ok :: "'sec xd3_stream \<Rightarrow> xd3_hinst \<Rightarrow> 'sec xd3_stream \<times> xd3_hinst \<Rightarrow> bool" where
  "parsed_ok s0 inst0 = (\<lambda>(s, inst). emit_env s \<and> window_part s = window_part s0 \<and> next_out s = next_out s0 \<and>
    dec_current1 s = dec_current1 s0 \<and> dec_current2 s = dec_current2 s0 \<and> htype inst = htype inst0 \<and>
    length (sect_buf (inst_sect s)) \<le> length (sect_buf (inst_sect s0)) \<and>
    (XD3_CPY \<le> htype inst \<longrightarrow> haddr inst < dec_position s0) \<and>
    dec_position s \<le> dec_position s0 + hsize inst)"

lemma parse_ok:
  assumes env: "emit_env s0" and type: "inst_type (htype inst0)"
  shows "(\<exists>e. xd3_decode_parse_halfinst s0 inst0 = Inl e \<and> hard e) \<or>
    (\<exists>r. xd3_decode_parse_halfinst s0 inst0 = Inr r \<and> parsed_ok s0 inst0 r)"
proof -
  define size where "size = (if hsize inst0 = 0 then
         (case xd3_read_uint64 (sect_buf (inst_sect s0)) of
            Inl e \<Rightarrow> Inl XD3_INVALID_INPUT
          | Inr (val, rest) \<Rightarrow>
              Inr (s0\<lparr>inst_sect := (inst_sect s0)\<lparr>sect_buf := rest\<rparr>\<rparr>, inst0\<lparr>hsize := val\<rparr>))
       else Inr (s0, inst0))"
  have "size = Inl XD3_INVALID_INPUT \<or>
    (\<exists>b n. size = Inr (s0\<lparr>inst_sect := (inst_sect s0)\<lparr>sect_buf := b\<rparr>\<rparr>, inst0\<lparr>hsize := n\<rparr>) \<and>
      length b \<le> length (sect_buf (inst_sect s0)))"
    (is "_ \<or> ?read")
  proof (cases "hsize inst0 = 0")
    case True
    then show ?thesis
      using read_uint64_length [of "sect_buf (inst_sect s0)"]
      by (cases "xd3_read_uint64 (sect_buf (inst_sect s0))") (fastforce simp: size_def)+
  next
    case False
    then have "size = Inr (s0\<lparr>inst_sect := (inst_sect s0)\<lparr>sect_buf := sect_buf (inst_sect s0)\<rparr>\<rparr>,
        inst0\<lparr>hsize := hsize inst0\<rparr>)"
      by (simp add: size_def)
    then show ?thesis by blast
  qed
  then show ?thesis
  proof
    assume "size = Inl XD3_INVALID_INPUT"
    then show ?thesis by (simp add: xd3_decode_parse_halfinst_def size_def [symmetric])
  next
    assume ?read
    then obtain b n where size: "size = Inr (s0\<lparr>inst_sect := (inst_sect s0)\<lparr>sect_buf := b\<rparr>\<rparr>, inst0\<lparr>hsize := n\<rparr>)"
      and b: "length b \<le> length (sect_buf (inst_sect s0))" by blast
    have sum: "add64 (dec_position s0) n \<le> dec_position s0 + n" by (simp add: add64_def)
    show ?thesis
    proof (cases "XD3_CPY \<le> htype inst0")
      case True
      have "cache_ok (acache s0)" "s_near (acache s0) = 4" "s_same (acache s0) = 3" using env by (auto simp: emit_env_def)
      from decode_address_total [OF this copy_mode [OF type True], of "dec_position s0" "sect_buf (addr_sect s0)"]
      show ?thesis
      proof (elim disjE exE conjE)
        fix e assume "xd3_decode_address (acache s0) (dec_position s0) (unat (htype inst0 - XD3_CPY))
            (sect_buf (addr_sect s0)) = Inl e" "hard e"
        then show ?thesis using True by (simp add: xd3_decode_parse_halfinst_def size_def [symmetric] size)
      next
        fix ac' rest addr
        assume "xd3_decode_address (acache s0) (dec_position s0) (unat (htype inst0 - XD3_CPY))
            (sect_buf (addr_sect s0)) = Inr (ac', rest, addr)"
          and "cache_ok ac'" "s_near ac' = 4" "s_same ac' = 3"
        then show ?thesis
          using True env b sum
          by (simp add: xd3_decode_parse_halfinst_def size_def [symmetric] size Let_def parsed_ok_def
              emit_env_def window_part_def)
      qed
    next
      case False
      then show ?thesis
        using env b sum
        by (simp add: xd3_decode_parse_halfinst_def size_def [symmetric] size parsed_ok_def emit_env_def window_part_def)
    qed
  qed
qed

lemma code_table_types: "op < 256 \<Longrightarrow>
  type1 (xd3_rfc3284_code_table ! op) = XD3_NOOP \<or> inst_type (type1 (xd3_rfc3284_code_table ! op))"
  "op < 256 \<Longrightarrow>
  type2 (xd3_rfc3284_code_table ! op) = XD3_NOOP \<or> inst_type (type2 (xd3_rfc3284_code_table ! op))"
proof -
  have "\<forall>i\<in>set xd3_rfc3284_code_table. (type1 i = XD3_NOOP \<or> inst_type (type1 i)) \<and>
      (type2 i = XD3_NOOP \<or> inst_type (type2 i))"
    by code_simp
  moreover have "op < 256 \<Longrightarrow> xd3_rfc3284_code_table ! op \<in> set xd3_rfc3284_code_table" by simp
  ultimately show "op < 256 \<Longrightarrow>
    type1 (xd3_rfc3284_code_table ! op) = XD3_NOOP \<or> inst_type (type1 (xd3_rfc3284_code_table ! op))"
    "op < 256 \<Longrightarrow>
    type2 (xd3_rfc3284_code_table ! op) = XD3_NOOP \<or> inst_type (type2 (xd3_rfc3284_code_table ! op))"
    by blast+
qed

lemma inst_type_noop: "inst_type t \<Longrightarrow> t \<noteq> XD3_NOOP"
  by (auto simp: inst_type_def XD3_NOOP_def)

text \<open>Either half, which may be no operation.\<close>

lemma half_ok:
  assumes "emit_env s0" "known_type inst0"
  shows "(\<exists>e. (if htype inst0 \<noteq> XD3_NOOP then xd3_decode_parse_halfinst s0 inst0 else Inr (s0, inst0)) = Inl e \<and> hard e) \<or>
    (\<exists>s inst. (if htype inst0 \<noteq> XD3_NOOP then xd3_decode_parse_halfinst s0 inst0 else Inr (s0, inst0)) = Inr (s, inst) \<and>
      parsed_ok s0 inst0 (s, inst) \<and> dec_position s \<le> dec_position s0 + pend inst)"
proof (cases "htype inst0 = XD3_NOOP")
  case True
  then show ?thesis using assms(1) by (auto simp: parsed_ok_def pend_def dest: copy_types)
next
  case False
  then have "inst_type (htype inst0)" using assms(2) by (simp add: known_type_def)
  from parse_ok [OF assms(1) this] show ?thesis
  proof (elim disjE exE conjE)
    fix r assume r: "xd3_decode_parse_halfinst s0 inst0 = Inr r" "parsed_ok s0 inst0 r"
    obtain s inst where "r = (s, inst)" by fastforce
    moreover from this have "dec_position s \<le> dec_position s0 + pend inst"
      using r(2) False by (simp add: parsed_ok_def pend_def)
    ultimately show ?thesis using r False by auto
  qed (use False in simp)
qed

lemma instruction_ok:
  assumes inv: "emit_inv s" and idle: "htype (dec_current1 s) = XD3_NOOP" "htype (dec_current2 s) = XD3_NOOP"
  shows "emitted s (xd3_decode_instruction s) \<and>
    (\<forall>s'. xd3_decode_instruction s = (None, s') \<longrightarrow> length (sect_buf (inst_sect s')) < length (sect_buf (inst_sect s)))"
proof (cases "sect_buf (inst_sect s)")
  case Nil
  then show ?thesis by (simp add: xd3_decode_instruction_def emitted_def)
next
  case (Cons op rest)
  have env: "emit_env s" and pos: "dec_position s \<le> dec_cpylen s + avail_out s"
    using inv idle by (auto simp: emit_inv_def pend_def)
  define i where "i = xd3_rfc3284_code_table ! unat op"
  have fetch: "fetch (code_table s) (unat op) = Some i"
    using env unat_u8_less [of op] by (simp add: emit_env_def i_def)
  define s1 where "s1 = s\<lparr>inst_sect := (inst_sect s)\<lparr>sect_buf := rest\<rparr>,
      dec_current1 := (dec_current1 s)\<lparr>htype := type1 i, hsize := size1 i\<rparr>,
      dec_current2 := (dec_current2 s)\<lparr>htype := type2 i, hsize := size2 i\<rparr>\<rparr>"
  have types: "htype (dec_current1 s1) = type1 i" "htype (dec_current2 s1) = type2 i" by (simp_all add: s1_def)
  have known: "known_type (dec_current1 s1)" "known_type (dec_current2 s1)"
    using code_table_types [of "unat op"] by (simp_all add: s1_def known_type_def i_def)
  have env1: "emit_env s1" using env by (simp add: s1_def emit_env_def)
  have wp1: "window_part s1 = window_part s" by (simp add: s1_def window_part_def)
  have run: "xd3_decode_instruction s =
      stepwise (if type1 i \<noteq> XD3_NOOP then xd3_decode_parse_halfinst s1 (dec_current1 s1) else Inr (s1, dec_current1 s1))
        s1 (\<lambda>(s2, c1).
          let s3 = s2\<lparr>dec_current1 := c1\<rparr> in
          stepwise (if type2 i \<noteq> XD3_NOOP then xd3_decode_parse_halfinst s3 (dec_current2 s3) else Inr (s3, dec_current2 s3))
            s3 (\<lambda>(s4, c2). (None, s4\<lparr>dec_current2 := c2\<rparr>)))"
    by (simp only: xd3_decode_instruction_def Cons list.case fetch option.case Let_def s1_def [symmetric])
  from half_ok [OF env1 known(1)] show ?thesis
    unfolding types
  proof (elim disjE exE conjE)
    fix e assume "(if type1 i \<noteq> XD3_NOOP then xd3_decode_parse_halfinst s1 (dec_current1 s1)
        else Inr (s1, dec_current1 s1)) = Inl e" "hard e"
    then show ?thesis by (simp add: run emitted_def wp1)
  next
    fix s2 c1
    assume p1: "(if type1 i \<noteq> XD3_NOOP then xd3_decode_parse_halfinst s1 (dec_current1 s1)
        else Inr (s1, dec_current1 s1)) = Inr (s2, c1)"
      and ok1: "parsed_ok s1 (dec_current1 s1) (s2, c1)" "dec_position s2 \<le> dec_position s1 + pend c1"
    define s3 where "s3 = s2\<lparr>dec_current1 := c1\<rparr>"
    have env3: "emit_env s3" and wp3: "window_part s3 = window_part s"
      using ok1(1) wp1 by (auto simp: s3_def parsed_ok_def emit_env_def window_part_def)
    have cur3: "dec_current2 s3 = dec_current2 s1" using ok1(1) by (simp add: s3_def parsed_ok_def)
    have run2: "xd3_decode_instruction s =
        stepwise (if type2 i \<noteq> XD3_NOOP then xd3_decode_parse_halfinst s3 (dec_current2 s1)
                  else Inr (s3, dec_current2 s1)) s3 (\<lambda>(s4, c2). (None, s4\<lparr>dec_current2 := c2\<rparr>))"
      by (simp only: run p1 stepwise_simps prod.case Let_def s3_def [symmetric] cur3)
    from half_ok [OF env3 known(2)] show ?thesis
      unfolding types
    proof (elim disjE exE conjE)
      fix e assume "(if type2 i \<noteq> XD3_NOOP then xd3_decode_parse_halfinst s3 (dec_current2 s1)
          else Inr (s3, dec_current2 s1)) = Inl e" "hard e"
      then show ?thesis unfolding run2 by (simp only: stepwise_simps) (simp add: emitted_def wp3)
    next
      fix s4 c2
      assume p2: "(if type2 i \<noteq> XD3_NOOP then xd3_decode_parse_halfinst s3 (dec_current2 s1)
          else Inr (s3, dec_current2 s1)) = Inr (s4, c2)"
        and ok2: "parsed_ok s3 (dec_current2 s1) (s4, c2)" "dec_position s4 \<le> dec_position s3 + pend c2"
      let ?s = "s4\<lparr>dec_current2 := c2\<rparr>"
      have res: "xd3_decode_instruction s = (None, ?s)" by (simp only: run2 p2 stepwise_simps prod.case)
      have wp: "window_part ?s = window_part s" using ok2(1) wp3 by (simp add: parsed_ok_def window_part_def)
      have len: "dec_cpylen ?s = dec_cpylen s" using window_part_fields(11) [OF wp] .
      have out: "next_out ?s = next_out s" using ok1(1) ok2(1) by (simp add: parsed_ok_def s3_def s1_def)
      have pos3: "dec_position s3 \<le> dec_cpylen s + avail_out s + pend c1"
        using ok1(2) pos by (simp add: s3_def s1_def)
      have c1: "dec_current1 ?s = c1" using ok2(1) by (simp add: parsed_ok_def s3_def)
      have "known_type c1" "known_type c2" using ok1(1) ok2(1) known by (auto simp: parsed_ok_def known_type_def)
      moreover have "copies_written ?s 0 c1"
        using ok1(1) pos len out by (auto simp: parsed_ok_def copies_written_def s1_def)
      moreover have "copies_written ?s (pend c1) c2"
        using ok2(1) pos3 len out by (auto simp: parsed_ok_def copies_written_def)
      moreover have "emit_env ?s"
      proof -
        have "emit_env s4" using ok2(1) by (simp add: parsed_ok_def)
        then show ?thesis by (simp add: emit_env_def)
      qed
      moreover have "dec_position ?s \<le> dec_cpylen ?s + avail_out ?s + pend c1 + pend c2"
        unfolding len out using ok2(2) pos3 by simp
      ultimately have "emit_inv ?s" using c1 by (simp add: emit_inv_def)
      moreover have "length (sect_buf (inst_sect ?s)) < length (sect_buf (inst_sect s))"
        using ok1(1) ok2(1) Cons by (simp add: parsed_ok_def s3_def s1_def)
      ultimately show ?thesis using res wp by (simp add: emitted_def)
    qed
  qed
qed

section \<open>Emitting a window\<close>

lemma emit_round_ok:
  assumes inv: "emit_inv s"
    and busy: "sect_buf (inst_sect s) \<noteq> [] \<or> htype (dec_current1 s) \<noteq> XD3_NOOP \<or> htype (dec_current2 s) \<noteq> XD3_NOOP"
  shows "\<exists>r. emit_round s = Some r \<and> emitted s r \<and>
    (fst r = None \<longrightarrow> htype (dec_current1 (snd r)) = XD3_NOOP \<and> htype (dec_current2 (snd r)) = XD3_NOOP \<and>
      (htype (dec_current1 s) = XD3_NOOP \<and> htype (dec_current2 s) = XD3_NOOP \<longrightarrow>
        length (sect_buf (inst_sect (snd r))) < length (sect_buf (inst_sect s))))"
proof -
  let ?idle = "htype (dec_current1 s) = XD3_NOOP \<and> htype (dec_current2 s) = XD3_NOOP"
  obtain ret s1 where f: "fetch_instruction s = (ret, s1)" by fastforce
  have ok: "emitted s (ret, s1)" and less: "ret = None \<and> ?idle \<longrightarrow> length (sect_buf (inst_sect s1)) < length (sect_buf (inst_sect s))"
    using f instruction_ok [OF inv] inv by (auto simp: fetch_instruction_def emitted_def split: if_splits)
  show ?thesis
  proof (cases ret)
    case (Some e)
    then show ?thesis using ok f by (simp add: emit_round_def)
  next
    case None
    then have inv1: "emit_inv s1" and wp1: "window_part s1 = window_part s" using ok by (simp_all add: emitted_def)
    obtain r2 where r2: "output_current False s1 = Some r2" "emitted s1 r2"
        "fst r2 = None \<longrightarrow> htype (cur_inst False (snd r2)) = XD3_NOOP \<and> inst_sect (snd r2) = inst_sect s1"
      using output_current_ok [OF inv1, of False] by (auto simp: turn_def)
    obtain ret2 s2 where r2': "r2 = (ret2, s2)" by fastforce
    show ?thesis
    proof (cases ret2)
      case (Some e)
      then show ?thesis using None f r2 r2' emitted_trans [OF wp1 r2(2)] by (simp add: emit_round_def)
    next
      case n2: None
      then have inv2: "emit_inv s2" and wp2: "window_part s2 = window_part s" and turn2: "turn True s2"
          and is2: "inst_sect s2 = inst_sect s1" and idle1: "htype (dec_current1 s2) = XD3_NOOP"
        using r2 r2' wp1 by (simp_all add: emitted_def turn_def cur_inst_def)
      obtain r3 where r3: "output_current True s2 = Some r3" "emitted s2 r3"
          "fst r3 = None \<longrightarrow> htype (cur_inst True (snd r3)) = XD3_NOOP \<and> turn True (snd r3) \<and> inst_sect (snd r3) = inst_sect s2"
        using output_current_ok [OF inv2 turn2] by auto
      show ?thesis
        using None n2 f r2 r2' r3 emitted_trans [OF wp2 r3(2)] less is2
        by (auto simp: emit_round_def turn_def cur_inst_def)
    qed
  qed
qed

lemma emit_loop_idle:
  assumes "emit_inv s" "htype (dec_current1 s) = XD3_NOOP" "htype (dec_current2 s) = XD3_NOOP"
  shows "\<exists>r. emit_loop s = Some r \<and> emitted s r \<and>
    (fst r = None \<longrightarrow> sect_buf (inst_sect (snd r)) = [] \<and> htype (dec_current1 (snd r)) = XD3_NOOP \<and>
      htype (dec_current2 (snd r)) = XD3_NOOP)"
  using assms
proof (induction "length (sect_buf (inst_sect s))" arbitrary: s rule: less_induct)
  case less
  show ?case
  proof (cases "sect_buf (inst_sect s) = []")
    case True
    then show ?thesis using less.prems by (subst emit_loop.simps) (simp add: emitted_def)
  next
    case False
    obtain r where r0: "emit_round s = Some r \<and> emitted s r \<and>
        (fst r = None \<longrightarrow> htype (dec_current1 (snd r)) = XD3_NOOP \<and> htype (dec_current2 (snd r)) = XD3_NOOP \<and>
          (htype (dec_current1 s) = XD3_NOOP \<and> htype (dec_current2 s) = XD3_NOOP \<longrightarrow>
            length (sect_buf (inst_sect (snd r))) < length (sect_buf (inst_sect s))))"
      by (rule exE [OF emit_round_ok [OF less.prems(1) disjI1 [OF False]]])
    then have r: "emit_round s = Some r" "emitted s r"
      "fst r = None \<longrightarrow> htype (dec_current1 (snd r)) = XD3_NOOP \<and> htype (dec_current2 (snd r)) = XD3_NOOP \<and>
        length (sect_buf (inst_sect (snd r))) < length (sect_buf (inst_sect s))"
      using less.prems by simp_all
    obtain ret s1 where r': "r = (ret, s1)" by fastforce
    have loop: "emit_loop s = (if ret \<noteq> None then Some (ret, s1) else emit_loop s1)"
      by (subst emit_loop.simps) (simp only: r(1) r' False option.case prod.case if_False simp_thms)
    show ?thesis
    proof (cases ret)
      case (Some e)
      then show ?thesis using loop r r' by simp
    next
      case None
      then have wp: "window_part s1 = window_part s" "emit_inv s1" using r(2) r' by (simp_all add: emitted_def)
      show ?thesis
        using less.hyps [of s1] None r r' wp loop emitted_trans [OF wp(1)] by auto
    qed
  qed
qed

lemma emit_loop_ok:
  assumes "emit_inv s"
  shows "\<exists>r. emit_loop s = Some r \<and> emitted s r \<and>
    (fst r = None \<longrightarrow> sect_buf (inst_sect (snd r)) = [] \<and> htype (dec_current1 (snd r)) = XD3_NOOP \<and>
      htype (dec_current2 (snd r)) = XD3_NOOP)"
proof (cases "sect_buf (inst_sect s) \<noteq> [] \<or> htype (dec_current1 s) \<noteq> XD3_NOOP \<or> htype (dec_current2 s) \<noteq> XD3_NOOP")
  case True
  obtain r where r0: "emit_round s = Some r \<and> emitted s r \<and>
      (fst r = None \<longrightarrow> htype (dec_current1 (snd r)) = XD3_NOOP \<and> htype (dec_current2 (snd r)) = XD3_NOOP \<and>
        (htype (dec_current1 s) = XD3_NOOP \<and> htype (dec_current2 s) = XD3_NOOP \<longrightarrow>
          length (sect_buf (inst_sect (snd r))) < length (sect_buf (inst_sect s))))"
    by (rule exE [OF emit_round_ok [OF assms True]])
  then have r: "emit_round s = Some r" "emitted s r"
      "fst r = None \<longrightarrow> htype (dec_current1 (snd r)) = XD3_NOOP \<and> htype (dec_current2 (snd r)) = XD3_NOOP"
    by simp_all
  obtain ret s1 where r': "r = (ret, s1)" by fastforce
  have loop: "emit_loop s = (if ret \<noteq> None then Some (ret, s1) else emit_loop s1)"
    by (subst emit_loop.simps) (use True in \<open>simp only: r(1) r' option.case prod.case if_False simp_thms\<close>, auto)
  show ?thesis
  proof (cases ret)
    case (Some e)
    then show ?thesis using loop r r' by simp
  next
    case None
    then have wp: "window_part s1 = window_part s" "emit_inv s1" using r(2) r' by (simp_all add: emitted_def)
    show ?thesis
      using emit_loop_idle [of s1] None r r' wp loop emitted_trans [OF wp(1)] by auto
  qed
next
  case False
  then show ?thesis using emit_loop_idle [OF assms] by simp
qed

end
