(* ===== verification/Xd3DecodeInv.thy ===== *)
theory Xd3DecodeInv
  imports Xd3DecodeSafe
begin

text \<open>
  The decoder on arbitrary input, part two: the invariant \<open>dec_inv\<close> of the state machine says, for each
  state, what the code relies on there without testing it. Every label keeps it, and so does every call
  of \<open>xd3_decode_input\<close>, which returns and never reads or writes outside an object. The locale
  \<open>stream_coder\<close> is what \<open>xd3_process_stream\<close> needs of the function it drives.
\<close>

unbundle bit_operations_syntax

section \<open>The invariant\<close>

text \<open>The states with the same obligations.\<close>

fun stage :: "xd3_decode_state \<Rightarrow> nat" where
  "stage DEC_VCHEAD = 0" | "stage DEC_HDRIND = 0" | "stage DEC_SECONDID = 0" | "stage DEC_TABLEN = 0"
| "stage DEC_NEAR = 0" | "stage DEC_SAME = 0" | "stage DEC_TABDAT = 0"
| "stage DEC_APPLEN = 1" | "stage DEC_APPDAT = 2" | "stage DEC_WININD = 2"
| "stage DEC_CPYLEN = 3" | "stage DEC_CPYOFF = 4" | "stage DEC_ENCLEN = 4" | "stage DEC_TGTLEN = 4"
| "stage DEC_DELIND = 5" | "stage DEC_DATALEN = 6" | "stage DEC_INSTLEN = 6" | "stage DEC_ADDRLEN = 6"
| "stage DEC_CKSUM = 6" | "stage DEC_DATA = 7" | "stage DEC_INST = 8" | "stage DEC_ADDR = 9"
| "stage DEC_EMIT = 10" | "stage DEC_FINISH = 11" | "stage DEC_ABORTED = 12"

definition env_inv :: "'sec xd3_sec_type \<Rightarrow> 'sec xd3_sec_type \<Rightarrow> 'sec xd3_stream \<Rightarrow> bool" where
  "env_inv fgk djw s \<longleftrightarrow> sec_ok fgk \<and> sec_ok djw \<and> (sec_type s = None \<or> sec_type s = Some fgk \<or> sec_type s = Some djw) \<and>
    enc_state s = ENC_INIT \<and> \<not> flag (st_flags s) XD3_JUST_HDR \<and> \<not> flag (st_flags s) XD3_SKIP_WINDOW \<and>
    \<not> flag (st_flags s) XD3_SKIP_EMIT \<and> alloc_ok (st_alloc s) \<and> reader_ok (st_getblk s) \<and>
    (\<forall>x. src s = Some x \<longrightarrow> source_ok x) \<and> avail_out s \<le> space_out s \<and> space_out s \<le> 2 ^ 26 \<and>
    length (dec_magic s) = 4 \<and> length (dec_cksum s) = 4 \<and> dec_appheadsz s < 2 ^ 64 \<and>
    (\<forall>b. dec_appheader s = Some b \<longrightarrow> length b = dec_appheadsz s + 1)"

definition table_ok :: "'sec xd3_stream \<Rightarrow> bool" where
  "table_ok s \<longleftrightarrow> code_table s = xd3_rfc3284_code_table \<and> s_near (acache s) = 4 \<and> s_same (acache s) = 3 \<and>
    length (near_array (acache s)) = 4 \<and> length (same_array (acache s)) = 768"

text \<open>A section being received in several pieces has its buffer, filled to its position.\<close>

definition filling :: "xd3_desect \<Rightarrow> bool" where
  "filling x \<longleftrightarrow> (sect_pos x < sect_size x \<or> sect_size x = 0 \<and> sect_pos x = 0) \<and>
    (0 < sect_pos x \<longrightarrow> (\<exists>c. copied1 x = Some c \<and> length c = sect_pos x \<and> sect_size x \<le> alloc1 x))"

definition sections_inv :: "nat \<Rightarrow> 'sec xd3_stream \<Rightarrow> bool" where
  "sections_inv st s \<longleftrightarrow>
    sect_size (data_sect s) < 2 ^ 64 \<and> sect_size (inst_sect s) < 2 ^ 64 \<and> sect_size (addr_sect s) < 2 ^ 64 \<and>
    (st \<noteq> 7 \<and> st \<noteq> 10 \<longrightarrow> sect_pos (data_sect s) = 0) \<and> (st \<noteq> 8 \<and> st \<noteq> 10 \<longrightarrow> sect_pos (inst_sect s) = 0) \<and>
    (st \<noteq> 9 \<and> st \<noteq> 10 \<longrightarrow> sect_pos (addr_sect s) = 0) \<and>
    (st < 7 \<or> st = 11 \<longrightarrow> dec_winbytes s = 0) \<and>
    (st = 7 \<longrightarrow> filling (data_sect s) \<and> dec_winbytes s = sect_pos (data_sect s)) \<and>
    (st = 8 \<longrightarrow> filling (inst_sect s) \<and> dec_winbytes s = sect_size (data_sect s) + sect_pos (inst_sect s)) \<and>
    (st = 9 \<longrightarrow> filling (addr_sect s) \<and>
      dec_winbytes s = sect_size (data_sect s) + sect_size (inst_sect s) + sect_pos (addr_sect s))"

definition window_inv :: "nat \<Rightarrow> 'sec xd3_stream \<Rightarrow> bool" where
  "window_inv st s \<longleftrightarrow>
    (st \<le> 1 \<longrightarrow> dec_appheader s = None) \<and>
    (1 \<le> st \<longrightarrow> table_ok s) \<and>
    (3 \<le> st \<longrightarrow> cache_ok (acache s) \<and> (\<not> SRCORTGT (dec_win_ind s) \<longrightarrow> dec_cpylen s = 0)) \<and>
    (4 \<le> st \<and> st \<le> 9 \<longrightarrow> dec_position s = dec_cpylen s) \<and>
    (5 \<le> st \<longrightarrow> dec_tgtlen s \<le> XD3_HARDMAXWINSIZE) \<and>
    (6 \<le> st \<longrightarrow> dec_del_ind s \<noteq> 0 \<longrightarrow> sec_type s \<noteq> None) \<and>
    (st \<noteq> 10 \<longrightarrow> htype (dec_current1 s) = XD3_NOOP \<and> htype (dec_current2 s) = XD3_NOOP) \<and>
    (10 \<le> st \<longrightarrow> \<not> flag (dec_win_ind s) VCD_TARGET) \<and>
    (st = 10 \<longrightarrow> emit_inv s)"

definition dec_inv :: "'sec xd3_sec_type \<Rightarrow> 'sec xd3_sec_type \<Rightarrow> 'sec xd3_stream \<Rightarrow> bool" where
  "dec_inv fgk djw s \<longleftrightarrow> env_inv fgk djw s \<and> sections_inv (stage (dec_state s)) s \<and>
    window_inv (stage (dec_state s)) s"

text \<open>Where a code that lets the decoder go on leaves it.\<close>

fun reached :: "xd3_rvalue \<Rightarrow> xd3_decode_state \<Rightarrow> bool" where
  "reached XD3_INPUT st = True"
| "reached XD3_GOTHEADER st = (st = DEC_DATA)"
| "reached XD3_WINSTART st = (st = DEC_DATA)"
| "reached XD3_GETSRCBLK st = (st = DEC_EMIT)"
| "reached XD3_OUTPUT st = (st = DEC_FINISH)"
| "reached XD3_WINFINISH st = (st = DEC_WININD)"
| "reached _ st = False"

text \<open>A result that leaves the invariant, at a given stage when it has no code, and has not used more
  than \<open>n\<close> bytes of input.\<close>

definition good ::
    "'sec xd3_sec_type \<Rightarrow> 'sec xd3_sec_type \<Rightarrow> nat \<Rightarrow> nat \<Rightarrow> 'sec xd3_stream result \<Rightarrow> bool" where
  "good fgk djw n st = (\<lambda>(ret, s').
    case ret of
      None \<Rightarrow> dec_inv fgk djw s' \<and> stage (dec_state s') = st \<and> avail_in s' \<le> n
    | Some e \<Rightarrow> hard e \<or> dec_inv fgk djw s' \<and> reached e (dec_state s') \<and> avail_in s' \<le> n)"

lemma good_simps [simp]:
  "good fgk djw n st (None, s') \<longleftrightarrow> dec_inv fgk djw s' \<and> stage (dec_state s') = st \<and> avail_in s' \<le> n"
  "good fgk djw n st (Some e, s') \<longleftrightarrow> hard e \<or> dec_inv fgk djw s' \<and> reached e (dec_state s') \<and> avail_in s' \<le> n"
  "good fgk djw n st (if b then r else r') \<longleftrightarrow> (if b then good fgk djw n st r else good fgk djw n st r')"
  by (simp_all add: good_def)

definition label_ok ::
    "'sec xd3_sec_type \<Rightarrow> 'sec xd3_sec_type \<Rightarrow> nat \<Rightarrow> ('sec xd3_stream \<Rightarrow> 'sec xd3_stream result) \<Rightarrow> nat \<Rightarrow> bool" where
  "label_ok fgk djw st f st' \<longleftrightarrow>
    (\<forall>s. dec_inv fgk djw s \<and> stage (dec_state s) = st \<longrightarrow> good fgk djw (avail_in s) st' (f s))"

lemma good_weaken: "good fgk djw m st r \<Longrightarrow> m \<le> n \<Longrightarrow> good fgk djw n st r"
  by (auto simp: good_def split: option.splits)

lemma label_ok_falling:
  assumes "label_ok fgk djw st f st'" "label_ok fgk djw st' (falling fs) st''"
  shows "label_ok fgk djw st (falling (f # fs)) st''"
  unfolding label_ok_def
proof (intro allI impI)
  fix s assume s: "dec_inv fgk djw s \<and> stage (dec_state s) = st"
  obtain ret s1 where r: "f s = (ret, s1)" by fastforce
  have ok: "good fgk djw (avail_in s) st' (ret, s1)" using assms(1) s r by (metis label_ok_def)
  show "good fgk djw (avail_in s) st'' (falling (f # fs) s)"
  proof (cases ret)
    case (Some e)
    then show ?thesis using ok r by (simp add: good_def)
  next
    case None
    then have "good fgk djw (avail_in s1) st'' (falling fs s1)" "avail_in s1 \<le> avail_in s"
      using ok assms(2) by (simp_all add: good_def label_ok_def)
    then show ?thesis using None r good_weaken by simp
  qed
qed

section \<open>Input\<close>

definition input_part :: "'sec xd3_stream \<Rightarrow> nat \<Rightarrow> bytes \<Rightarrow> nat \<Rightarrow> 'sec xd3_stream" where
  "input_part s t n p = s\<lparr>total_in := t, next_in := n, dec_64part := p\<rparr>"

lemma dec_inv_input [simp]: "dec_inv fgk djw (input_part s t n p) = dec_inv fgk djw s"
  "dec_state (input_part s t n p) = dec_state s" "next_in (input_part s t n p) = n"
  by (simp_all add: input_part_def dec_inv_def env_inv_def sections_inv_def window_inv_def table_ok_def
      emit_inv_def emit_env_def copies_written_def)

lemma decode_byte_cases:
  obtains (more) "xd3_decode_byte put s = (Some XD3_INPUT, s)"
  | (byte) b rest where "next_in s = b # rest" "xd3_decode_byte put s = (None, DECODE_INPUT 1 (put (unat b) s))"
  by (cases "next_in s") (auto simp: xd3_decode_byte_def)

lemma decode_integer_less: "decode_integer part inp = (None, p, rest, v) \<Longrightarrow> v < 2 ^ 64"
proof (induction part inp rule: decode_integer.induct)
  case (2 part b inp)
  have "take_bit 64 (unat b mod 128) = unat b mod 128"
    by (rule take_bit_nat_eq_self) (simp add: less_le_trans [of _ 128])
  then have "take_bit 64 (take_bit 64 (push_bit 7 part) OR (unat b AND 127)) =
      take_bit 64 (push_bit 7 part) OR (unat b AND 127)"
    unfolding take_bit_or unat_and_127 by simp
  then have "take_bit 64 (push_bit 7 part) OR (unat b AND 127) < 2 ^ 64"
    by (simp only: take_bit_nat_eq_self_iff)
  then show ?case using 2 by (auto simp: Let_def split: if_splits)
qed simp

lemma decode_integer_code:
  "decode_integer part inp = (Some e, p, rest, v) \<Longrightarrow> e = XD3_INPUT \<or> e = XD3_INVALID_INPUT"
  by (induction part inp rule: decode_integer.induct) (auto simp: Let_def split: if_splits)

lemma decode_integer_length:
  "decode_integer part inp = (ret, p, rest, v) \<Longrightarrow> length rest \<le> length inp"
  by (induction part inp rule: decode_integer.induct) (auto simp: Let_def split: if_splits)

lemma decode_size_cases:
  obtains (more) t n p where "xd3_decode_size put s = (Some XD3_INPUT, input_part s t n p)" "length n \<le> avail_in s"
  | (bad) s' where "xd3_decode_size put s = (Some XD3_INVALID_INPUT, s')"
  | (size) t n p v where "xd3_decode_size put s = (None, put v (input_part s t n p))" "v < 2 ^ 64" "length n \<le> avail_in s"
proof -
  obtain ret part rest v where d: "decode_integer (dec_64part s) (next_in s) = (ret, part, rest, v)"
    by (metis prod_cases4)
  let ?s = "(DECODE_INPUT (length (next_in s) - length rest) s)\<lparr>dec_64part := part\<rparr>"
  have s: "?s = input_part s (add64 (total_in s) (length (next_in s) - length rest))
      (drop (length (next_in s) - length rest) (next_in s)) part"
    by (simp add: DECODE_INPUT_def input_part_def)
  show ?thesis
  proof (cases ret)
    case None
    then have "xd3_decode_size put s = (None, put v (input_part s (add64 (total_in s) (length (next_in s) - length rest))
        (drop (length (next_in s) - length rest) (next_in s)) part))" "v < 2 ^ 64"
      using d decode_integer_less [of "dec_64part s" "next_in s" part rest v] by (simp_all add: xd3_decode_size_def s)
    then show ?thesis by (rule size) simp
  next
    case (Some e)
    then show ?thesis
      using d decode_integer_code [of "dec_64part s" "next_in s" e part rest v] more bad
      by (auto simp: xd3_decode_size_def s)
  qed
qed

lemma decode_bytes_result:
  "xd3_decode_bytes s buf pos sz = (ret, s', buf', pos') \<Longrightarrow> sz \<le> length buf \<Longrightarrow>
    (\<exists>t n. s' = input_part s t n (dec_64part s) \<and> length n \<le> avail_in s) \<and> (ret = None \<or> ret = Some XD3_INPUT) \<and>
    length buf' = length buf"
proof (induction s buf pos sz rule: xd3_decode_bytes.induct)
  case (1 s buf pos sz)
  show ?case
  proof (cases "pos < sz \<and> avail_in s \<noteq> 0")
    case True
    let ?n = "min (sz - pos) (avail_in s)"
    let ?buf = "take pos buf @ take ?n (next_in s) @ drop (pos + ?n) buf"
    have fits: "\<not> length buf < pos + ?n" "length ?buf = length buf" using True "1.prems"(2) by auto
    have "xd3_decode_bytes (DECODE_INPUT ?n s) ?buf (pos + ?n) sz = (ret, s', buf', pos')"
      using "1.prems"(1) True fits(1) by (subst (asm) xd3_decode_bytes.simps) (simp add: Let_def)
    from "1.IH" [OF _ _ refl refl fits(1) refl this] True fits(2) "1.prems"(2)
    obtain t n where "s' = input_part (DECODE_INPUT ?n s) t n (dec_64part (DECODE_INPUT ?n s))"
      "length n \<le> avail_in (DECODE_INPUT ?n s)" and ret: "ret = None \<or> ret = Some XD3_INPUT"
      and len: "length buf' = length buf" by auto
    then have "s' = input_part s t n (dec_64part s)" "length n \<le> avail_in s"
      by (simp_all add: DECODE_INPUT_def input_part_def)
    then show ?thesis using ret len by blast
  next
    case False
    then have "s' = s \<and> (ret = None \<or> ret = Some XD3_INPUT) \<and> buf' = buf"
      using "1.prems"(1) by (subst (asm) xd3_decode_bytes.simps) (auto split: if_splits)
    then show ?thesis by (auto simp: input_part_def intro!: exI [of _ "total_in s"] exI [of _ "next_in s"])
  qed
qed

section \<open>The labels of the header\<close>

text \<open>A case reads a value, which it puts into the stream, and goes to the next state; it keeps the
  invariant when putting any value does.\<close>

lemma BYTE_CASE_ok:
  assumes inv: "dec_inv fgk djw s"
    and put: "\<And>v t n p. expr \<Longrightarrow> v < 256 \<Longrightarrow> length n \<le> avail_in s \<Longrightarrow>
      good fgk djw (avail_in s) st (f ((input_part (put v s) t n p)\<lparr>dec_state := nstate\<rparr>))"
    and none: "\<not> expr \<Longrightarrow> good fgk djw (avail_in s) st (f (s\<lparr>dec_state := nstate\<rparr>))"
    and frame: "\<And>v. next_in (put v s) = next_in s"
  shows "good fgk djw (avail_in s) st (andthen (BYTE_CASE expr put nstate s) f)"
proof (cases expr)
  case False
  then show ?thesis using none by (simp add: BYTE_CASE_def)
next
  case True
  show ?thesis
  proof (cases rule: decode_byte_cases [of put s])
    case more
    then show ?thesis using True inv by (simp add: BYTE_CASE_def)
  next
    case (byte b rest)
    have "DECODE_INPUT 1 (put (unat b) s) =
        input_part (put (unat b) s) (add64 (total_in (put (unat b) s)) 1) rest (dec_64part (put (unat b) s))"
      using byte(1) frame by (simp add: DECODE_INPUT_def input_part_def)
    then show ?thesis using byte True put by (simp add: BYTE_CASE_def)
  qed
qed

lemma SIZE_CASE_ok:
  assumes inv: "dec_inv fgk djw s"
    and put: "\<And>v t n p. expr \<Longrightarrow> v < 2 ^ 64 \<Longrightarrow> length n \<le> avail_in s \<Longrightarrow>
      good fgk djw (avail_in s) st (f ((put v (input_part s t n p))\<lparr>dec_state := nstate\<rparr>))"
    and none: "\<not> expr \<Longrightarrow> good fgk djw (avail_in s) st (f (s\<lparr>dec_state := nstate\<rparr>))"
  shows "good fgk djw (avail_in s) st (andthen (SIZE_CASE expr put nstate s) f)"
proof (cases expr)
  case False
  then show ?thesis using none by (simp add: SIZE_CASE_def)
next
  case True
  show ?thesis
  proof (cases rule: decode_size_cases [of put s])
    case more
    then show ?thesis using True inv by (simp add: SIZE_CASE_def)
  next
    case bad
    then show ?thesis using True by (simp add: SIZE_CASE_def)
  next
    case size
    then show ?thesis using True put by (simp add: SIZE_CASE_def)
  qed
qed

lemma andthen_id: "andthen r (Pair None) = r"
  by (auto simp: andthen_def split: option.splits prod.splits)

lemma falling_none: "falling [] = Pair None"
  by (rule ext) simp

lemmas BYTE_CASE_ok' = BYTE_CASE_ok [where f = "Pair None", unfolded andthen_id]
lemmas SIZE_CASE_ok' = SIZE_CASE_ok [where f = "Pair None", unfolded andthen_id]

text \<open>The first states have no obligation but the environment's.\<close>

lemma early:
  "stage (dec_state s) = 0 \<Longrightarrow>
    dec_inv fgk djw s \<longleftrightarrow> env_inv fgk djw s \<and> sections_inv 0 s \<and> dec_appheader s = None \<and>
      htype (dec_current1 s) = XD3_NOOP \<and> htype (dec_current2 s) = XD3_NOOP"
  by (auto simp: dec_inv_def window_inv_def)

lemma vchead_ok: "label_ok fgk djw 0 label_vchead 0"
  unfolding label_ok_def
proof (intro allI impI)
  fix s assume s: "dec_inv fgk djw s \<and> stage (dec_state s) = 0"
  obtain ret s1 buf pos where r: "xd3_decode_bytes s (dec_magic s) (dec_magicbytes s) 4 = (ret, s1, buf, pos)"
    by (metis prod_cases4)
  have "length (dec_magic s) = 4" using s by (simp add: dec_inv_def env_inv_def)
  then obtain t n where s1: "s1 = input_part s t n (dec_64part s)" "length n \<le> avail_in s"
    and ret: "ret = None \<or> ret = Some XD3_INPUT" and len: "length buf = 4"
    using decode_bytes_result [OF r] by auto
  have "dec_inv fgk djw (s1\<lparr>dec_magic := buf, dec_magicbytes := pos\<rparr>)"
    "dec_inv fgk djw (s1\<lparr>dec_magic := buf, dec_magicbytes := pos, dec_state := DEC_HDRIND\<rparr>)"
    using conjunct1 [OF s] conjunct2 [OF s] s1 len by (auto simp: early env_inv_def sections_inv_def input_part_def)
  then show "good fgk djw (avail_in s) 0 (label_vchead s)"
    using r ret s1 s by (elim disjE) (simp_all add: label_vchead_def input_part_def)
qed

lemma hdrind_ok: "label_ok fgk djw 0 label_hdrind 0"
  unfolding label_ok_def
proof (intro allI impI)
  fix s assume s: "dec_inv fgk djw s \<and> stage (dec_state s) = 0"
  show "good fgk djw (avail_in s) 0 (label_hdrind s)"
    using s by (cases "next_in s")
      (auto simp: label_hdrind_def xd3_decode_byte_def early env_inv_def sections_inv_def DECODE_INPUT_def)
qed

lemma secondid_ok: "label_ok fgk djw 0 (label_secondid fgk djw) 0"
  unfolding label_ok_def
proof (intro allI impI)
  fix s assume s: "dec_inv fgk djw s \<and> stage (dec_state s) = 0"
  show "good fgk djw (avail_in s) 0 (label_secondid fgk djw s)"
  proof (cases "flag (dec_hdr_ind s) VCD_SECONDARY")
    case True
    show ?thesis
      unfolding label_secondid_def if_P [OF True] using s
      by (intro BYTE_CASE_ok) (auto simp: early env_inv_def sections_inv_def input_part_def)
  next
    case False
    then show ?thesis using s by (simp add: label_secondid_def)
  qed
qed

lemma tablen_ok: "label_ok fgk djw 0 label_tablen 0"
  unfolding label_ok_def label_tablen_def
  by (intro allI impI SIZE_CASE_ok) (auto simp: early env_inv_def sections_inv_def input_part_def)

lemma near_ok: "label_ok fgk djw 0 label_near 0"
  unfolding label_ok_def label_near_def
  by (intro allI impI BYTE_CASE_ok') (auto simp: early env_inv_def sections_inv_def input_part_def)

lemma same_ok: "label_ok fgk djw 0 label_same 0"
  unfolding label_ok_def label_same_def
  by (intro allI impI BYTE_CASE_ok') (auto simp: early env_inv_def sections_inv_def input_part_def)

lemma tabdat_ok: "label_ok fgk djw 0 label_tabdat 1"
  unfolding label_ok_def
proof (intro allI impI)
  fix s assume s: "dec_inv fgk djw s \<and> stage (dec_state s) = 0"
  define s1 where "s1 = s\<lparr>acache := (acache s)\<lparr>s_near := 4, s_same := 3\<rparr>, code_table := xd3_rfc3284_code_table\<rparr>"
  show "good fgk djw (avail_in s) 1 (label_tabdat s)"
  proof (cases "flag (dec_hdr_ind s) VCD_CODETABLE")
    case True
    then show ?thesis by (simp add: label_tabdat_def)
  next
    case False
    have run: "label_tabdat s = stepwise (xd3_alloc_cache (st_alloc s1) (acache s1)) s1
         (\<lambda>ac. (None, s1\<lparr>acache := ac, dec_state := DEC_APPLEN\<rparr>))"
      using False by (simp add: label_tabdat_def s1_def rfc3284_code_table_desc_def Let_def)
    show ?thesis
    proof (cases "xd3_alloc_cache (st_alloc s1) (acache s1)")
      case (Inl e)
      then have "e = ENOMEM" by (auto simp: xd3_alloc_cache_def Let_def split: option.splits if_splits)
      then show ?thesis by (simp add: run Inl)
    next
      case (Inr ac)
      then have "s_near ac = 4" "s_same ac = 3" "length (near_array ac) = 4" "length (same_array ac) = 768"
        using xd3_alloc_cache_frame [OF Inr] by (simp_all add: s1_def)
      moreover have "env_inv fgk djw s" "sections_inv 0 s" "htype (dec_current1 s) = XD3_NOOP"
          "htype (dec_current2 s) = XD3_NOOP" "dec_appheader s = None"
        using s early [of s fgk djw] by auto
      ultimately have "dec_inv fgk djw (s1\<lparr>acache := ac, dec_state := DEC_APPLEN\<rparr>)"
        by (simp add: dec_inv_def env_inv_def sections_inv_def window_inv_def table_ok_def s1_def)
      then show ?thesis unfolding run Inr by (simp add: s1_def)
    qed
  qed
qed

lemma stage_1_2:
  "stage (dec_state s) = 1 \<or> stage (dec_state s) = 2 \<Longrightarrow>
    dec_inv fgk djw s \<longleftrightarrow> env_inv fgk djw s \<and> sections_inv 0 s \<and> table_ok s \<and>
      (stage (dec_state s) = 1 \<longrightarrow> dec_appheader s = None) \<and>
      htype (dec_current1 s) = XD3_NOOP \<and> htype (dec_current2 s) = XD3_NOOP"
proof (elim disjE)
qed (simp_all add: dec_inv_def window_inv_def sections_inv_def; blast)+

lemma applen_ok: "label_ok fgk djw 1 label_applen 2"
  unfolding label_ok_def label_applen_def
  by (intro allI impI SIZE_CASE_ok')
    (auto simp: stage_1_2 env_inv_def sections_inv_def table_ok_def input_part_def)

text \<open>The buffer of the application data has a byte more than their size, once the size is read.\<close>

lemma appdat_ok: "label_ok fgk djw 2 label_appdat 2"
  unfolding label_ok_def
proof (intro allI impI)
  fix s assume s: "dec_inv fgk djw s \<and> stage (dec_state s) = 2"
  have keep: "dec_inv fgk djw (input_part s t n p\<lparr>dec_appheader := Some b, dec_appheadbytes := k\<rparr>)"
    "dec_inv fgk djw (input_part s t n p\<lparr>dec_appheader := Some b, dec_appheadbytes := k, dec_hdrsize := h, dec_state := DEC_WININD\<rparr>)"
    if "length b = dec_appheadsz s + 1" for t n p b k h
    using conjunct1 [OF s] conjunct2 [OF s] that
    by (auto simp: stage_1_2 env_inv_def sections_inv_def table_ok_def input_part_def)
  have skip: "dec_inv fgk djw (s\<lparr>dec_hdrsize := h, dec_state := DEC_WININD\<rparr>)" for h
    using conjunct1 [OF s] conjunct2 [OF s] by (auto simp: stage_1_2 env_inv_def sections_inv_def table_ok_def)
  show "good fgk djw (avail_in s) 2 (label_appdat s)"
  proof (cases "flag (dec_hdr_ind s) VCD_APPHEADER \<and> \<not> USIZE_T_OVERFLOW (dec_appheadsz s) 1")
    case True
    have "dec_appheadsz s < 2 ^ 64" using s by (simp add: dec_inv_def env_inv_def)
    then have size: "add64 (dec_appheadsz s) 1 = dec_appheadsz s + 1"
      using True USIZE_T_OVERFLOW_iff [of "dec_appheadsz s" 1] by simp
    define buf where "buf = (case dec_appheader s of Some b \<Rightarrow> Some b
        | None \<Rightarrow> map_option (\<lambda>f. map (\<lambda>i. of_nat (f i)) [0..<add64 (dec_appheadsz s) 1])
                             (st_alloc s (add64 (dec_appheadsz s) 1) 1))"
    show ?thesis
    proof (cases buf)
      case None
      then show ?thesis using True by (simp add: label_appdat_def read_appheader_def Let_def buf_def [symmetric])
    next
      case (Some b)
      have len: "length b = dec_appheadsz s + 1"
        using Some s unfolding buf_def size by (auto simp: dec_inv_def env_inv_def split: option.splits)
      obtain ret s1 b1 pos where
        r: "xd3_decode_bytes s (b[dec_appheadsz s := 0]) (dec_appheadbytes s) (dec_appheadsz s) = (ret, s1, b1, pos)"
        by (metis prod_cases4)
      then obtain t n where s1: "s1 = input_part s t n (dec_64part s)" "length n \<le> avail_in s"
        and ret: "ret = None \<or> ret = Some XD3_INPUT" and len1: "length b1 = dec_appheadsz s + 1"
        using decode_bytes_result [OF r] len by auto
      show ?thesis
        using ret True Some r s1 keep [OF len1] len
        by (auto simp: label_appdat_def read_appheader_def Let_def buf_def [symmetric])
    qed
  next
    case False
    then show ?thesis using s skip by (auto simp: label_appdat_def read_appheader_def)
  qed
qed

lemma winind_ok: "label_ok fgk djw 2 label_winind 3"
  unfolding label_ok_def
proof (intro allI impI)
  fix s assume s: "dec_inv fgk djw s \<and> stage (dec_state s) = 2"
  show "good fgk djw (avail_in s) 3 (label_winind s)"
  proof (cases "next_in s")
    case Nil
    then show ?thesis using s by (simp add: label_winind_def xd3_decode_byte_def)
  next
    case (Cons b rest)
    have "cache_ok (xd3_init_cache (acache s))"
      using s by (intro cache_ok_init) (auto simp: stage_1_2 table_ok_def)
    moreover have "length (near_array (xd3_init_cache (acache s))) = 4" "length (same_array (xd3_init_cache (acache s))) = 768"
      using s by (auto simp: stage_1_2 table_ok_def xd3_init_cache_def Let_def)
    ultimately show ?thesis
      using Cons conjunct1 [OF s] conjunct2 [OF s]
      by (auto simp: label_winind_def xd3_decode_byte_def DECODE_INPUT_def xd3_decode_init_window_def Let_def
          stage_1_2 dec_inv_def env_inv_def sections_inv_def window_inv_def table_ok_def)
  qed
qed

text \<open>The window header.\<close>

lemma stage_3_6:
  assumes "3 \<le> stage (dec_state s)" "stage (dec_state s) \<le> 6"
  shows "dec_inv fgk djw s \<longleftrightarrow> env_inv fgk djw s \<and> sections_inv 0 s \<and> table_ok s \<and> cache_ok (acache s) \<and>
      (\<not> SRCORTGT (dec_win_ind s) \<longrightarrow> dec_cpylen s = 0) \<and>
      (4 \<le> stage (dec_state s) \<longrightarrow> dec_position s = dec_cpylen s) \<and>
      (5 \<le> stage (dec_state s) \<longrightarrow> dec_tgtlen s \<le> XD3_HARDMAXWINSIZE) \<and>
      (6 \<le> stage (dec_state s) \<longrightarrow> dec_del_ind s \<noteq> 0 \<longrightarrow> sec_type s \<noteq> None) \<and>
      htype (dec_current1 s) = XD3_NOOP \<and> htype (dec_current2 s) = XD3_NOOP"
  using assms by (auto simp: dec_inv_def window_inv_def sections_inv_def)

lemmas header_defs = stage_3_6 env_inv_def sections_inv_def table_ok_def input_part_def

lemma cpylen_ok: "label_ok fgk djw 3 label_cpylen 4"
  unfolding label_ok_def label_cpylen_def
  by (intro allI impI SIZE_CASE_ok) (auto simp: header_defs)

lemma cpyoff_ok: "label_ok fgk djw 4 label_cpyoff 4"
  unfolding label_ok_def label_cpyoff_def
  by (intro allI impI SIZE_CASE_ok) (auto simp: header_defs)

lemma enclen_ok: "label_ok fgk djw 4 label_enclen 4"
  unfolding label_ok_def label_enclen_def
  by (intro allI impI SIZE_CASE_ok') (auto simp: header_defs)

lemma tgtlen_ok: "label_ok fgk djw 4 label_tgtlen 5"
  unfolding label_ok_def label_tgtlen_def
  by (intro allI impI SIZE_CASE_ok) (auto simp: header_defs)

lemma delind_ok: "label_ok fgk djw 5 label_delind 6"
  unfolding label_ok_def label_delind_def
  by (intro allI impI BYTE_CASE_ok) (auto simp: header_defs)

lemma datalen_ok: "label_ok fgk djw 6 label_datalen 6"
  unfolding label_ok_def label_datalen_def
  by (intro allI impI SIZE_CASE_ok') (auto simp: header_defs put_size_def)

lemma instlen_ok: "label_ok fgk djw 6 label_instlen 6"
  unfolding label_ok_def label_instlen_def
  by (intro allI impI SIZE_CASE_ok') (auto simp: header_defs put_size_def)

lemma addrlen_ok: "label_ok fgk djw 6 label_addrlen 6"
  unfolding label_ok_def label_addrlen_def
  by (intro allI impI SIZE_CASE_ok') (auto simp: header_defs put_size_def)

lemma cksum_ok: "label_ok fgk djw 6 label_cksum st"
  unfolding label_ok_def
proof (intro allI impI)
  fix s assume s: "dec_inv fgk djw s \<and> stage (dec_state s) = 6"
  have enter: "dec_inv fgk djw (s'\<lparr>dec_state := DEC_DATA\<rparr>)" if "dec_inv fgk djw s'" "stage (dec_state s') = 6" for s'
    using that by (auto simp: dec_inv_def env_inv_def sections_inv_def window_inv_def table_ok_def filling_def)
  show "good fgk djw (avail_in s) st (label_cksum s)"
  proof (cases "flag (dec_win_ind s) VCD_ADLER32")
    case True
    obtain ret s1 buf pos where r: "xd3_decode_bytes s (dec_cksum s) (dec_cksumbytes s) 4 = (ret, s1, buf, pos)"
      by (metis prod_cases4)
    have "length (dec_cksum s) = 4" using s by (simp add: dec_inv_def env_inv_def)
    then obtain t n where s1: "s1 = input_part s t n (dec_64part s)" "length n \<le> avail_in s"
      and ret: "ret = None \<or> ret = Some XD3_INPUT" and len: "length buf = 4"
      using decode_bytes_result [OF r] by auto
    have keep: "dec_inv fgk djw (s1\<lparr>dec_cksum := buf, dec_cksumbytes := pos\<rparr>)"
      "dec_inv fgk djw (s1\<lparr>dec_cksum := buf, dec_cksumbytes := pos, dec_adler32 := a\<rparr>)" for a
      using conjunct1 [OF s] conjunct2 [OF s] s1 len by (auto simp: header_defs)
    show ?thesis
      using ret keep enter [OF keep(2)] r s1 s True
      by (elim disjE) (simp_all add: label_cksum_def read_cksum_def Let_def)
  next
    case False
    then show ?thesis using s enter [of s] by (simp add: label_cksum_def Let_def)
  qed
qed

text \<open>The switch enters the labels where the decoder is, and always leaves them with a code.\<close>

lemma header_from_ok:
  assumes "dec_inv fgk djw s" "stage (dec_state s) \<le> 6"
  shows "good fgk djw (avail_in s) 13 (header_from fgk djw (dec_state s) s)"
proof -
  note labels = vchead_ok hdrind_ok secondid_ok tablen_ok near_ok same_ok tabdat_ok applen_ok appdat_ok winind_ok
    cpylen_ok cpyoff_ok enclen_ok tgtlen_ok delind_ok datalen_ok instlen_ok addrlen_ok
  have last: "label_ok fgk djw 6 (falling [label_cksum]) 13"
    using cksum_ok [of fgk djw 13] by (simp add: label_ok_def andthen_id falling_none)
  have "label_ok fgk djw (stage (dec_state s)) (header_from fgk djw (dec_state s)) 13"
    using assms(2) unfolding header_from_def header_labels_def
    by (cases "dec_state s"; simp del: falling.simps One_nat_def) ((rule last | (rule label_ok_falling, rule labels))+)
  then show ?thesis using assms(1) by (simp add: label_ok_def)
qed

section \<open>The sections\<close>

lemma allocate_ok:
  assumes "alloc_ok al"
  shows "xd3_decode_allocate al sz (buf, alloc) = Inl ENOMEM \<or>
    (\<exists>c alloc'. xd3_decode_allocate al sz (buf, alloc) = Inr (Some c, alloc') \<and> sz \<le> alloc')"
proof -
  have "sz \<le> n" if "n = xd3_round_blksize sz XD3_ALLOCSIZE" "al n 1 = Some f" for n f
  proof -
    have "n < 2 ^ 63" using assms that(2) by (simp add: alloc_ok_def)
    then have "sz \<le> 2 ^ 63" using that(1) by (auto simp: xd3_round_blksize_def Let_def split: if_splits)
    then show ?thesis using xd3_round_blksize_ge that(1) by (simp add: XD3_ALLOCSIZE_def)
  qed
  then show ?thesis
    by (auto simp: xd3_decode_allocate_def Let_def split: option.splits)
qed

text \<open>What the sections have in common: a section, the bytes of the window before it, and what is
  still to come.\<close>

definition put_fields ::
    "section_name \<Rightarrow> xd3_desect \<Rightarrow> nat \<Rightarrow> nat \<Rightarrow> bytes \<Rightarrow> xd3_decode_state \<Rightarrow> 'sec xd3_stream \<Rightarrow> 'sec xd3_stream" where
  "put_fields nm x w t n st s =
    (put_sect nm x s)\<lparr>dec_winbytes := w, total_in := t, next_in := n, dec_state := st\<rparr>"

lemma get_put_sect [simp]: "get_sect nm (put_sect nm x s) = x"
  by (cases nm) simp_all

lemma take_section_ok:
  assumes fill: "filling (get_sect nm s)" and pos: "sect_pos (get_sect nm s) < sect_size (get_sect nm s)"
    and al: "alloc_ok (st_alloc s)"
    and before: "dec_winbytes s = before + sect_pos (get_sect nm s)"
    and total: "before + sect_size (get_sect nm s) < 2 ^ 64"
    and whole: "\<not> copy \<longrightarrow> sect_size (get_sect nm s) - sect_pos (get_sect nm s) \<le> avail_in s"
  shows "avail_in s = 0 \<and> take_section nm copy s = (Some XD3_INPUT, s) \<or> (\<exists>s'. take_section nm copy s = (Some ENOMEM, s')) \<or>
    (\<exists>x t. take_section nm copy s =
       (None, put_fields nm x (before + sect_pos x) t (drop (sect_pos x - sect_pos (get_sect nm s)) (next_in s))
          (dec_state s) s) \<and>
       (sect_pos x < sect_size x \<longrightarrow> filling x) \<and> sect_pos x \<le> sect_size x \<and>
       sect_size x = sect_size (get_sect nm s) \<and> sect_pos (get_sect nm s) \<le> sect_pos x \<and>
       sect_pos x - sect_pos (get_sect nm s) \<le> avail_in s \<and>
       (sect_size x - sect_pos (get_sect nm s) \<le> avail_in s \<longrightarrow> sect_pos x = sect_size x) \<and>
       (sect_pos x = sect_size x \<longrightarrow> length (sect_buf x) = sect_size x))"
proof (cases "avail_in s = 0")
  case True
  then show ?thesis by (simp add: take_section_def Let_def)
next
  case some: False
  let ?x = "get_sect nm s"
  show ?thesis
  proof (cases "\<not> copy \<and> sect_pos ?x = 0")
    case True
    let ?x' = "?x\<lparr>sect_buf := take (sect_size ?x) (next_in s), sect_pos := sect_size ?x\<rparr>"
    have len: "sect_size ?x \<le> avail_in s" and before0: "dec_winbytes s = before"
      using True whole before by simp_all
    have "take_section nm copy s = (None, DECODE_INPUT (sect_size ?x) ((put_sect nm ?x' s)
        \<lparr>dec_winbytes := add64 (dec_winbytes s) (sect_size ?x)\<rparr>))"
      using some True len by (simp add: take_section_def Let_def)
    also have "\<dots> = (None, put_fields nm ?x' (before + sect_size ?x) (add64 (total_in s) (sect_size ?x))
        (drop (sect_size ?x) (next_in s)) (dec_state s) s)"
      using total before0 by (cases nm) (simp_all add: DECODE_INPUT_def put_fields_def)
    finally have "take_section nm copy s = (None, put_fields nm ?x' (before + sect_pos ?x') (add64 (total_in s) (sect_size ?x))
        (drop (sect_pos ?x' - sect_pos ?x) (next_in s)) (dec_state s) s)" using True by simp
    then show ?thesis
      by (intro disjI2 exI [of _ ?x'] exI [of _ "add64 (total_in s) (sect_size ?x)"]) (use len True in simp)
  next
    case False
    define n where "n = min (sect_size ?x - sect_pos ?x) (avail_in s)"
    define buf where "buf = (if sect_pos ?x = 0 then xd3_decode_allocate (st_alloc s) (sect_size ?x) (copied1 ?x, alloc1 ?x)
        else Inr (copied1 ?x, alloc1 ?x))"
    have "buf = Inl ENOMEM \<or> (\<exists>c a. buf = Inr (Some c, a) \<and> sect_size ?x \<le> a \<and> (0 < sect_pos ?x \<longrightarrow> length c = sect_pos ?x))"
      using fill pos allocate_ok [OF al, of "sect_size ?x" "copied1 ?x" "alloc1 ?x"]
      by (auto simp: buf_def filling_def)
    then show ?thesis
    proof (elim disjE exE conjE)
      assume "buf = Inl ENOMEM"
      then have "take_section nm copy s = (Some ENOMEM, s)"
        using some False by (auto simp: take_section_def Let_def buf_def [symmetric])
      then show ?thesis by simp
    next
      fix c a assume buf: "buf = Inr (Some c, a)" and a: "sect_size ?x \<le> a"
        and c: "0 < sect_pos ?x \<longrightarrow> length c = sect_pos ?x"
      let ?c = "take (sect_pos ?x) c @ take n (next_in s)"
      let ?x' = "?x\<lparr>sect_buf := ?c, sect_pos := sect_pos ?x + n, copied1 := Some ?c, alloc1 := a\<rparr>"
      have n: "sect_pos ?x + n \<le> sect_size ?x" "n \<le> avail_in s" using pos by (simp_all add: n_def)
      have "take_section nm copy s = (None, DECODE_INPUT n ((put_sect nm ?x' s)
          \<lparr>dec_winbytes := add64 (dec_winbytes s) n\<rparr>))"
        using some False n a
        by (auto simp: take_section_def Let_def buf_def [symmetric] buf n_def [symmetric])
      also have "\<dots> = (None, put_fields nm ?x' (before + sect_pos ?x') (add64 (total_in s) n)
          (drop (sect_pos ?x' - sect_pos ?x) (next_in s)) (dec_state s) s)"
        using total before n by (cases nm) (simp_all add: DECODE_INPUT_def put_fields_def)
      finally have run: "take_section nm copy s = (None, put_fields nm ?x' (before + sect_pos ?x') (add64 (total_in s) n)
          (drop (sect_pos ?x' - sect_pos ?x) (next_in s)) (dec_state s) s)" .
      have len: "length ?c = sect_pos ?x + n" using c n(2) by auto
      have "sect_pos ?x' < sect_size ?x' \<longrightarrow> filling ?x'" using len n a by (auto simp: filling_def)
      then show ?thesis
        using run len n by (intro disjI2 exI [of _ ?x'] exI [of _ "add64 (total_in s) n"]) (auto simp: n_def)
    qed
  qed
qed

lemma put_fields_same: "put_fields nm (get_sect nm s) (dec_winbytes s) (total_in s) (next_in s) (dec_state s) s = s"
  by (cases nm) (simp_all add: put_fields_def)

lemma get_put_fields [simp]: "get_sect nm (put_fields nm x w t n st s) = x"
  by (cases nm) (simp_all add: put_fields_def)

lemma finish_put_fields:
  "(put_sect nm y (put_fields nm x w t n st s))\<lparr>dec_state := nstate\<rparr> = put_fields nm y w t n nstate s"
  by (cases nm) (simp_all add: put_fields_def)

text \<open>A section is complete, and the decoder in the next state; or more input is needed.\<close>

lemma decode_section_ok:
  assumes fill: "filling (get_sect nm s)" and al: "alloc_ok (st_alloc s)"
    and before: "dec_winbytes s = before + sect_pos (get_sect nm s)"
    and total: "before + sect_size (get_sect nm s) < 2 ^ 64"
    and whole: "\<not> copy \<longrightarrow> sect_size (get_sect nm s) - sect_pos (get_sect nm s) \<le> avail_in s"
  shows "(\<exists>x t n. xd3_decode_section nm nstate copy s =
        (Some XD3_INPUT, put_fields nm x (before + sect_pos x) t n (dec_state s) s) \<and>
        filling x \<and> sect_size x = sect_size (get_sect nm s) \<and> length n \<le> avail_in s \<and> copy) \<or>
    (\<exists>s'. xd3_decode_section nm nstate copy s = (Some ENOMEM, s')) \<or>
    (\<exists>x t n. xd3_decode_section nm nstate copy s =
        (None, put_fields nm x (before + sect_size x) t n nstate s) \<and>
        sect_pos x = 0 \<and> sect_size x = sect_size (get_sect nm s) \<and> length (sect_buf x) = sect_size x \<and>
        length n + (sect_size x - sect_pos (get_sect nm s)) = avail_in s)"
proof (cases "sect_pos (get_sect nm s) < sect_size (get_sect nm s)")
  case True
  from take_section_ok [OF fill True al before total whole] show ?thesis
  proof (elim disjE exE conjE)
    assume empty: "avail_in s = 0" and run: "take_section nm copy s = (Some XD3_INPUT, s)"
    then have copy using whole True by auto
    moreover have "xd3_decode_section nm nstate copy s =
        (Some XD3_INPUT, put_fields nm (get_sect nm s) (before + sect_pos (get_sect nm s)) (total_in s) (next_in s) (dec_state s) s)"
      using run True put_fields_same [of nm s] before by (simp add: xd3_decode_section_def)
    ultimately show ?thesis using fill by blast
  next
    fix s' assume "take_section nm copy s = (Some ENOMEM, s')"
    then show ?thesis using True by (simp add: xd3_decode_section_def)
  next
    fix x :: xd3_desect and t
    let ?n = "drop (sect_pos x - sect_pos (get_sect nm s)) (next_in s)"
    assume run: "take_section nm copy s = (None, put_fields nm x (before + sect_pos x) t ?n (dec_state s) s)"
      and x: "sect_pos x < sect_size x \<longrightarrow> filling x" "sect_size x = sect_size (get_sect nm s)" "sect_pos (get_sect nm s) \<le> sect_pos x"
        "sect_pos x - sect_pos (get_sect nm s) \<le> avail_in s"
      and rest: "sect_size x - sect_pos (get_sect nm s) \<le> avail_in s \<longrightarrow> sect_pos x = sect_size x"
      and le: "sect_pos x \<le> sect_size x"
      and buf: "sect_pos x = sect_size x \<longrightarrow> length (sect_buf x) = sect_size x"
    show ?thesis
    proof (cases "sect_pos x < sect_size x")
      case less: True
      then have "xd3_decode_section nm nstate copy s =
          (Some XD3_INPUT, put_fields nm x (before + sect_pos x) t ?n (dec_state s) s)"
        using run True by (simp add: xd3_decode_section_def Let_def)
      moreover have copy using less rest whole x(2) by (cases copy) auto
      ultimately show ?thesis using x less by (intro disjI1) (auto intro!: exI [of _ x] exI [of _ t] exI [of _ ?n])
    next
      case False
      then have full: "sect_pos x = sect_size x" using le by simp
      let ?x = "x\<lparr>sect_buf := (if sect_size x = 0 then [] else sect_buf x), sect_pos := 0\<rparr>"
      have "xd3_decode_section nm nstate copy s = (None, put_fields nm ?x (before + sect_size ?x) t ?n nstate s)"
        using run True False full
        by (simp add: xd3_decode_section_def Let_def finish_put_fields del: if_split)
      moreover have "length ?n + (sect_size ?x - sect_pos (get_sect nm s)) = avail_in s" using x full by simp
      ultimately show ?thesis using buf full x(2)
        by (intro disjI2) (auto intro!: exI [of _ ?x] exI [of _ t] exI [of _ ?n])
    qed
  qed
next
  case False
  then have empty: "sect_pos (get_sect nm s) = 0" "sect_size (get_sect nm s) = 0" using fill by (auto simp: filling_def)
  let ?x = "get_sect nm s\<lparr>sect_buf := [], sect_pos := 0\<rparr>"
  have "xd3_decode_section nm nstate copy s = (None, (put_sect nm ?x s)\<lparr>dec_state := nstate\<rparr>)"
    using empty by (simp add: xd3_decode_section_def Let_def)
  also have "\<dots> = (None, put_fields nm ?x (before + sect_size ?x) (total_in s) (next_in s) nstate s)"
    using before empty by (cases nm) (simp_all add: put_fields_def)
  finally show ?thesis using empty
    by (intro disjI2) (auto intro!: exI [of _ ?x] exI [of _ "total_in s"] exI [of _ "next_in s"])
qed

text \<open>What does not change while the sections come in.\<close>

definition base_inv :: "'sec xd3_sec_type \<Rightarrow> 'sec xd3_sec_type \<Rightarrow> 'sec xd3_stream \<Rightarrow> bool" where
  "base_inv fgk djw s \<longleftrightarrow> env_inv fgk djw s \<and> table_ok s \<and> cache_ok (acache s) \<and>
    (\<not> SRCORTGT (dec_win_ind s) \<longrightarrow> dec_cpylen s = 0) \<and> dec_position s = dec_cpylen s \<and>
    dec_tgtlen s \<le> XD3_HARDMAXWINSIZE \<and> (dec_del_ind s \<noteq> 0 \<longrightarrow> sec_type s \<noteq> None) \<and>
    htype (dec_current1 s) = XD3_NOOP \<and> htype (dec_current2 s) = XD3_NOOP"

lemma stage_7_9:
  assumes "7 \<le> stage (dec_state s)" "stage (dec_state s) \<le> 9"
  shows "dec_inv fgk djw s \<longleftrightarrow> base_inv fgk djw s \<and> sections_inv (stage (dec_state s)) s"
  using assms by (auto simp: dec_inv_def window_inv_def base_inv_def)

lemma base_inv_put [simp]: "base_inv fgk djw (put_fields nm x w t n st s) = base_inv fgk djw s"
  by (cases nm) (simp_all add: put_fields_def base_inv_def env_inv_def table_ok_def)

lemma put_fields_simps [simp]:
  "dec_state (put_fields nm x w t n st s) = st" "next_in (put_fields nm x w t n st s) = n"
  by (cases nm; simp add: put_fields_def)+

definition need :: "'sec xd3_stream \<Rightarrow> nat" where
  "need s = sect_size (inst_sect s) + sect_size (addr_sect s) + sect_size (data_sect s)"

fun sect_state :: "section_name \<Rightarrow> xd3_decode_state" where
  "sect_state DATA_SECTION = DEC_DATA" | "sect_state INST_SECTION = DEC_INST" | "sect_state ADDR_SECTION = DEC_ADDR"

fun sect_next :: "section_name \<Rightarrow> xd3_decode_state" where
  "sect_next DATA_SECTION = DEC_INST" | "sect_next INST_SECTION = DEC_ADDR" | "sect_next ADDR_SECTION = DEC_EMIT"

fun bytes_before :: "section_name \<Rightarrow> 'sec xd3_stream \<Rightarrow> nat" where
  "bytes_before DATA_SECTION s = 0"
| "bytes_before INST_SECTION s = sect_size (data_sect s)"
| "bytes_before ADDR_SECTION s = sect_size (data_sect s) + sect_size (inst_sect s)"

text \<open>All of the window's input is at hand when nothing needs to be copied.\<close>

definition at_hand :: "bool \<Rightarrow> 'sec xd3_stream \<Rightarrow> bool" where
  "at_hand copy s \<longleftrightarrow> need s < 2 ^ 64 \<and> (\<not> copy \<longrightarrow> need s - dec_winbytes s \<le> avail_in s)"

lemma section_step:
  assumes base: "base_inv fgk djw s" and sects: "sections_inv (stage (sect_state nm)) s" and hand: "at_hand copy s"
    and state: "dec_state s = sect_state nm"
  shows "(\<exists>s'. xd3_decode_section nm (sect_next nm) copy s = (Some XD3_INPUT, s') \<and> base_inv fgk djw s' \<and>
        sections_inv (stage (sect_state nm)) s' \<and> dec_state s' = sect_state nm \<and> avail_in s' \<le> avail_in s) \<or>
    (\<exists>s'. xd3_decode_section nm (sect_next nm) copy s = (Some ENOMEM, s')) \<or>
    (\<exists>s'. xd3_decode_section nm (sect_next nm) copy s = (None, s') \<and> base_inv fgk djw s' \<and>
        sections_inv (stage (sect_next nm)) s' \<and> dec_state s' = sect_next nm \<and> avail_in s' \<le> avail_in s \<and>
        at_hand copy s')"
proof -
  have fill: "filling (get_sect nm s)" and before: "dec_winbytes s = bytes_before nm s + sect_pos (get_sect nm s)"
    using sects by (cases nm; simp add: sections_inv_def)+
  have al: "alloc_ok (st_alloc s)" using base by (simp add: base_inv_def env_inv_def)
  have total: "bytes_before nm s + sect_size (get_sect nm s) \<le> need s"
    by (cases nm) (simp_all add: need_def)
  have whole: "\<not> copy \<longrightarrow> sect_size (get_sect nm s) - sect_pos (get_sect nm s) \<le> avail_in s"
    using hand total before by (auto simp: at_hand_def)
  have total': "bytes_before nm s + sect_size (get_sect nm s) < 2 ^ 64"
    using hand total by (simp add: at_hand_def)
  from decode_section_ok [OF fill al before total' whole, of "sect_next nm"] show ?thesis
  proof (elim disjE exE conjE)
    fix x :: xd3_desect and t n
    assume run: "xd3_decode_section nm (sect_next nm) copy s =
        (Some XD3_INPUT, put_fields nm x (bytes_before nm s + sect_pos x) t n (dec_state s) s)"
      and x: "filling x" "sect_size x = sect_size (get_sect nm s)" "length n \<le> avail_in s"
    have "sections_inv (stage (sect_state nm)) (put_fields nm x (bytes_before nm s + sect_pos x) t n (dec_state s) s)"
      using sects x by (cases nm) (simp_all add: sections_inv_def put_fields_def)
    then show ?thesis using run base x(3) state by simp
  next
    fix s' assume "xd3_decode_section nm (sect_next nm) copy s = (Some ENOMEM, s')"
    then show ?thesis by blast
  next
    fix x :: xd3_desect and t n
    let ?s = "put_fields nm x (bytes_before nm s + sect_size x) t n (sect_next nm) s"
    assume run: "xd3_decode_section nm (sect_next nm) copy s = (None, ?s)"
      and x: "sect_pos x = 0" "sect_size x = sect_size (get_sect nm s)"
      and n: "length n + (sect_size x - sect_pos (get_sect nm s)) = avail_in s"
    have "sections_inv (stage (sect_next nm)) ?s"
      using sects x by (cases nm) (auto simp: sections_inv_def put_fields_def filling_def)
    moreover have nd: "need ?s = need s" using x by (cases nm) (simp_all add: need_def put_fields_def)
    moreover have "dec_winbytes ?s = bytes_before nm s + sect_size x" by (cases nm) (simp_all add: put_fields_def)
    moreover have "sect_pos (get_sect nm s) \<le> sect_size (get_sect nm s)" using fill by (auto simp: filling_def)
    ultimately have "at_hand copy ?s" "sections_inv (stage (sect_next nm)) ?s"
      using hand before n x(2) total by (auto simp: at_hand_def)
    then show ?thesis using run base n by auto
  qed
qed

text \<open>The secondary decoders and the buffers.\<close>

definition sound :: "('a \<Rightarrow> bool) \<Rightarrow> xd3_rvalue + 'a \<Rightarrow> bool" where
  "sound P r \<longleftrightarrow> (case r of Inl e \<Rightarrow> hard e | Inr x \<Rightarrow> P x)"

lemma sound_simps [simp]: "sound P (Inl e) \<longleftrightarrow> hard e" "sound P (Inr x) \<longleftrightarrow> P x"
  "sound P (if b then r else r') \<longleftrightarrow> (if b then sound P r else sound P r')"
  by (simp_all add: sound_def)

lemma sound_bind: "sound Q m \<Longrightarrow> (\<And>x. Q x \<Longrightarrow> sound P (f x)) \<Longrightarrow> sound P (sum_bind m f)"
  by (cases m) simp_all

lemma secondary_ok:
  assumes ty: "ty = Some t" "sec_ok t" and al: "alloc_ok al"
  shows "sound (\<lambda>(sect', sec'). sect_size sect' < 2 ^ 64) (xd3_decode_secondary al ty sect sec)"
proof -
  have get: "sound (\<lambda>_. True) (xd3_get_secondary t sec False)"
    using ty(2) by (auto simp: xd3_get_secondary_def sec_ok_def sound_def split: option.splits sum.splits)
  have read: "sound (\<lambda>(v, rest). v < 2 ^ 64) (xd3_read_uint64 (sect_buf sect))"
    using read_uint64_error [of "sect_buf sect"] xd3_read_uint64_less [of "sect_buf sect"]
    by (auto simp: sound_def split: sum.splits)
  have alloc: "sound (\<lambda>(_, a'). n \<le> a') (xd3_decode_allocate al n (b, a))" for n b a
    using allocate_ok [OF al, of n b a] by (auto simp: sound_def)
  have dec: "sound (\<lambda>(_, _, out). length out \<le> n) (sec_decode t s1 inp n)" for s1 inp n
    using ty(2) by (fastforce simp: sec_ok_def sound_def split: sum.splits)
  show ?thesis
    unfolding xd3_decode_secondary_def ty(1) option.case
    by (intro sound_bind [OF get] sound_bind [OF read]; clarsimp; intro sound_bind [OF alloc]; clarsimp;
        intro sound_bind [OF dec]; clarsimp)
qed

definition emit_ready :: "'sec xd3_sec_type \<Rightarrow> 'sec xd3_sec_type \<Rightarrow> 'sec xd3_stream \<Rightarrow> bool" where
  "emit_ready fgk djw s \<longleftrightarrow> base_inv fgk djw s \<and> sections_inv 10 s \<and> dec_state s = DEC_EMIT"

definition step_ok ::
    "'sec xd3_sec_type \<Rightarrow> 'sec xd3_sec_type \<Rightarrow> ('sec xd3_stream \<Rightarrow> 'sec xd3_stream result) \<Rightarrow> bool" where
  "step_ok fgk djw f \<longleftrightarrow> (\<forall>s. emit_ready fgk djw s \<longrightarrow>
    (case f s of (None, s') \<Rightarrow> emit_ready fgk djw s' \<and> next_in s' = next_in s | (Some e, s') \<Rightarrow> hard e))"

lemma step_ok_falling: "step_ok fgk djw f \<Longrightarrow> step_ok fgk djw (falling fs) \<Longrightarrow> step_ok fgk djw (falling (f # fs))"
  unfolding step_ok_def
proof (intro allI impI)
  fix s
  assume f: "\<forall>s. emit_ready fgk djw s \<longrightarrow>
      (case f s of (None, s') \<Rightarrow> emit_ready fgk djw s' \<and> next_in s' = next_in s | (Some e, s') \<Rightarrow> hard e)"
    and fs: "\<forall>s. emit_ready fgk djw s \<longrightarrow>
      (case falling fs s of (None, s') \<Rightarrow> emit_ready fgk djw s' \<and> next_in s' = next_in s | (Some e, s') \<Rightarrow> hard e)"
    and s: "emit_ready fgk djw s"
  obtain ret s1 where r: "f s = (ret, s1)" by fastforce
  have 0: "case (ret, s1) of (None, s') \<Rightarrow> emit_ready fgk djw s' \<and> next_in s' = next_in s | (Some e, s') \<Rightarrow> hard e"
    unfolding r [symmetric] by (rule f [THEN spec, THEN mp, OF s])
  show "case falling (f # fs) s of
      (None, s') \<Rightarrow> emit_ready fgk djw s' \<and> next_in s' = next_in s | (Some e, s') \<Rightarrow> hard e"
  proof (cases ret)
    case None
    then have 1: "emit_ready fgk djw s1" "next_in s1 = next_in s" using 0 by simp_all
    have "case falling fs s1 of
        (None, s') \<Rightarrow> emit_ready fgk djw s' \<and> next_in s' = next_in s | (Some e, s') \<Rightarrow> hard e"
      unfolding 1(2) [symmetric] by (rule fs [THEN spec, THEN mp, OF 1(1)])
    then show ?thesis using None r by simp
  next
    case (Some e)
    then show ?thesis using 0 r by simp
  qed
qed

lemma step_ok_none: "step_ok fgk djw (falling [])"
  by (simp add: step_ok_def)

lemma secondary_step:
  assumes "sound (\<lambda>(sect', sec'). sect_size sect' < 2 ^ 64) r"
    and "\<And>sect sec. sect_size sect < 2 ^ 64 \<Longrightarrow> emit_ready fgk djw (g sect sec) \<and> next_in (g sect sec) = next_in s"
  shows "(case stepwise r s (\<lambda>(sect, sec). (None, g sect sec)) of
    (None, s') \<Rightarrow> emit_ready fgk djw s' \<and> next_in s' = next_in s | (Some e, s') \<Rightarrow> hard e)"
  using assms by (cases r) auto

lemma emit_ready_sec:
  assumes "emit_ready fgk djw s" "dec_del_ind s \<noteq> 0"
  shows "\<exists>t. sec_type s = Some t \<and> sec_ok t \<and> alloc_ok (st_alloc s)"
  using assms by (auto simp: emit_ready_def base_inv_def env_inv_def)

lemma flag_nonzero: "flag x f \<Longrightarrow> x \<noteq> 0"
  by (cases "x = 0") (simp_all add: flag_def)

lemma secondary_sections_ok: "step_ok fgk djw xd3_decode_secondary_sections"
  unfolding xd3_decode_secondary_sections_def
proof (intro step_ok_falling step_ok_none)
  have step: "step_ok fgk djw (\<lambda>s. if flag (dec_del_ind s) f
      then stepwise (xd3_decode_secondary (st_alloc s) (sec_type s) (sect s) (sec s)) s
        (\<lambda>(sect, sec). (None, put sect sec s)) else (None, s))"
    if "\<And>x y s. emit_ready fgk djw s \<Longrightarrow> sect_size x < 2 ^ 64 \<Longrightarrow>
      emit_ready fgk djw (put x y s) \<and> next_in (put x y s) = next_in s" for f sect sec put
    unfolding step_ok_def
  proof (intro allI impI)
    fix s assume s: "emit_ready fgk djw s"
    show "case if flag (dec_del_ind s) f
      then stepwise (xd3_decode_secondary (st_alloc s) (sec_type s) (sect s) (sec s)) s
        (\<lambda>(sect, sec). (None, put sect sec s)) else (None, s) of
      (None, s') \<Rightarrow> emit_ready fgk djw s' \<and> next_in s' = next_in s | (Some e, s') \<Rightarrow> hard e"
    proof (cases "flag (dec_del_ind s) f")
      case True
      then obtain t where "sec_type s = Some t" "sec_ok t" "alloc_ok (st_alloc s)"
        using emit_ready_sec [OF s] flag_nonzero by blast
      then have sd: "sound (\<lambda>(sect', sec'). sect_size sect' < 2 ^ 64)
          (xd3_decode_secondary (st_alloc s) (sec_type s) (sect s) (sec s))"
        by (rule secondary_ok)
      show ?thesis unfolding if_P [OF True] by (rule secondary_step [OF sd that [OF s]])
    next
      case False
      then show ?thesis using s by simp
    qed
  qed
  show "step_ok fgk djw (\<lambda>s. if flag (dec_del_ind s) VCD_DATACOMP
      then stepwise (xd3_decode_secondary (st_alloc s) (sec_type s) (data_sect s) (sec_stream_d s)) s
        (\<lambda>(sect, sec). (None, s\<lparr>data_sect := sect, sec_stream_d := sec\<rparr>)) else (None, s))"
    by (rule step) (simp add: emit_ready_def base_inv_def env_inv_def sections_inv_def table_ok_def)
  show "step_ok fgk djw (\<lambda>s. if flag (dec_del_ind s) VCD_INSTCOMP
      then stepwise (xd3_decode_secondary (st_alloc s) (sec_type s) (inst_sect s) (sec_stream_i s)) s
        (\<lambda>(sect, sec). (None, s\<lparr>inst_sect := sect, sec_stream_i := sec\<rparr>)) else (None, s))"
    by (rule step) (simp add: emit_ready_def base_inv_def env_inv_def sections_inv_def table_ok_def)
  show "step_ok fgk djw (\<lambda>s. if flag (dec_del_ind s) VCD_ADDRCOMP
      then stepwise (xd3_decode_secondary (st_alloc s) (sec_type s) (addr_sect s) (sec_stream_a s)) s
        (\<lambda>(sect, sec). (None, s\<lparr>addr_sect := sect, sec_stream_a := sec\<rparr>)) else (None, s))"
    by (rule step) (simp add: emit_ready_def base_inv_def env_inv_def sections_inv_def table_ok_def)
qed

lemma round_blksize_bounds:
  assumes "sz \<le> 2 ^ 26"
  shows "sz \<le> xd3_round_blksize sz XD3_ALLOCSIZE" "xd3_round_blksize sz XD3_ALLOCSIZE \<le> 2 ^ 26"
proof -
  show "sz \<le> xd3_round_blksize sz XD3_ALLOCSIZE"
    using assms xd3_round_blksize_ge [of sz] by (simp add: XD3_ALLOCSIZE_def)
  have md: "sz AND (2 ^ 14 - 1) = sz mod 2 ^ 14" by (rule nat_and_mask)
  have "sz + (2 ^ 14 - sz mod 2 ^ 14) \<le> 2 ^ 26" if "sz mod 2 ^ 14 \<noteq> 0"
  proof -
    define q where "q = sz div 16384"
    define r where "r = sz mod 16384"
    have "sz = 16384 * q + r" "r < 16384" "0 < r" using that by (simp_all add: q_def r_def)
    moreover from this have "q < 4096" using assms by simp
    ultimately have "sz + (16384 - r) \<le> 67108864" by linarith
    then show ?thesis by (simp add: r_def)
  qed
  then show "xd3_round_blksize sz XD3_ALLOCSIZE \<le> 2 ^ 26"
    using assms unfolding xd3_round_blksize_def Let_def XD3_ALLOCSIZE_def md by (auto simp: add64_def)
qed

text \<open>With buffers set up, the window is not a target window and the output has room.\<close>

lemma setup_buffers_ok:
  assumes s: "emit_ready fgk djw s"
  shows "(\<exists>e s'. xd3_decode_setup_buffers s = (Some e, s') \<and> hard e) \<or>
    (\<exists>s'. xd3_decode_setup_buffers s = (None, s') \<and> emit_ready fgk djw s' \<and> next_in s' = next_in s \<and>
      \<not> flag (dec_win_ind s') VCD_TARGET)"
proof -
  have len: "dec_tgtlen s \<le> 2 ^ 26" and out: "avail_out s \<le> space_out s"
    using s by (simp_all add: emit_ready_def base_inv_def env_inv_def XD3_HARDMAXWINSIZE_def)
  note bounds = round_blksize_bounds [OF len]
  consider "flag (dec_win_ind s) VCD_TARGET" | "\<not> flag (dec_win_ind s) VCD_TARGET" "\<not> space_out s < dec_tgtlen s"
    | "\<not> flag (dec_win_ind s) VCD_TARGET" "space_out s < dec_tgtlen s" by blast
  then show ?thesis
  proof cases
    case 3
    let ?n = "xd3_round_blksize (dec_tgtlen s) XD3_ALLOCSIZE"
    have "avail_out s \<le> ?n" using 3 out bounds by linarith
    then have "emit_ready fgk djw (s\<lparr>space_out := ?n, next_out := map (\<lambda>i. of_nat (f i)) [0..<avail_out s]\<rparr>)" for f :: "nat \<Rightarrow> nat"
      using s bounds by (auto simp: emit_ready_def base_inv_def env_inv_def sections_inv_def table_ok_def)
    then show ?thesis
      using 3 by (cases "st_alloc s ?n 1") (simp_all add: xd3_decode_setup_buffers_def Let_def)
  qed (use s in \<open>simp_all add: xd3_decode_setup_buffers_def\<close>)
qed

text \<open>What \<open>xd3_decode_sections\<close> answers: the window can be emitted, or more input is needed.\<close>

definition sections_result ::
    "'sec xd3_sec_type \<Rightarrow> 'sec xd3_sec_type \<Rightarrow> 'sec xd3_stream \<Rightarrow> 'sec xd3_stream result \<Rightarrow> bool" where
  "sections_result fgk djw s = (\<lambda>(ret, s').
    (case ret of
       None \<Rightarrow> emit_ready fgk djw s' \<and> avail_in s' \<le> avail_in s \<and> \<not> flag (dec_win_ind s') VCD_TARGET
     | Some e \<Rightarrow> hard e \<or> e = XD3_INPUT \<and> dec_inv fgk djw s' \<and> avail_in s' \<le> avail_in s))"

lemma after_sections:
  assumes s: "emit_ready fgk djw s1" and n: "avail_in s1 \<le> avail_in s"
  shows "sections_result fgk djw s (falling [xd3_decode_secondary_sections,
      \<lambda>s. if flag (st_flags s) XD3_SKIP_EMIT then xd3_decode_finish_window s else (None, s),
      xd3_decode_setup_buffers] s1)"
proof -
  obtain ret s2 where r: "xd3_decode_secondary_sections s1 = (ret, s2)" by fastforce
  have ok: "case (ret, s2) of (None, s') \<Rightarrow> emit_ready fgk djw s' \<and> next_in s' = next_in s1 | (Some e, s') \<Rightarrow> hard e"
    unfolding r [symmetric]
    by (rule secondary_sections_ok [unfolded step_ok_def, THEN spec, THEN mp, OF s])
  show ?thesis
  proof (cases ret)
    case (Some e)
    then show ?thesis using ok r by (simp add: sections_result_def)
  next
    case None
    then have s2: "emit_ready fgk djw s2" "next_in s2 = next_in s1" using ok by simp_all
    then have "\<not> flag (st_flags s2) XD3_SKIP_EMIT" by (simp add: emit_ready_def base_inv_def env_inv_def)
    with setup_buffers_ok [OF s2(1)] show ?thesis
      using None r s2(2) n by (auto simp: sections_result_def andthen_def split: option.splits prod.splits)
  qed
qed

lemma section_chain:
  assumes base: "base_inv fgk djw s1" and sects: "sections_inv (stage (sect_state nm)) s1" and hand: "at_hand copy s1"
    and state: "dec_state s1 = sect_state nm" and n: "avail_in s1 \<le> avail_in s"
    and rest: "\<And>s2. base_inv fgk djw s2 \<Longrightarrow> sections_inv (stage (sect_next nm)) s2 \<Longrightarrow> at_hand copy s2 \<Longrightarrow>
      dec_state s2 = sect_next nm \<Longrightarrow> avail_in s2 \<le> avail_in s \<Longrightarrow> sections_result fgk djw s (falling fs s2)"
  shows "sections_result fgk djw s (falling (xd3_decode_section nm (sect_next nm) copy # fs) s1)"
  using section_step [OF base sects hand state]
proof (elim disjE exE conjE)
  fix s' assume "xd3_decode_section nm (sect_next nm) copy s1 = (Some XD3_INPUT, s')" "base_inv fgk djw s'"
    "sections_inv (stage (sect_state nm)) s'" "dec_state s' = sect_state nm" "avail_in s' \<le> avail_in s1"
  moreover from this have "dec_inv fgk djw s'" by (cases nm) (simp_all add: stage_7_9)
  ultimately show ?thesis using n by (simp add: sections_result_def)
next
  fix s' assume "xd3_decode_section nm (sect_next nm) copy s1 = (Some ENOMEM, s')"
  then show ?thesis by (simp add: sections_result_def)
next
  fix s' assume "xd3_decode_section nm (sect_next nm) copy s1 = (None, s')" "base_inv fgk djw s'"
    "sections_inv (stage (sect_next nm)) s'" "dec_state s' = sect_next nm" "avail_in s' \<le> avail_in s1" "at_hand copy s'"
  then show ?thesis using rest [of s'] n by simp
qed

lemma sections_ok:
  fixes s :: "'sec xd3_stream"
  assumes inv: "dec_inv fgk djw s" and state: "dec_state s \<in> {DEC_DATA, DEC_INST, DEC_ADDR}"
  shows "sections_result fgk djw s (xd3_decode_sections s)"
proof -
  have stage: "7 \<le> stage (dec_state s)" "stage (dec_state s) \<le> 9" using state by auto
  have base: "base_inv fgk djw s" and sects: "sections_inv (stage (dec_state s)) s"
    using inv stage_7_9 [OF stage] by auto
  have flags: "\<not> flag (st_flags s) XD3_JUST_HDR" "\<not> flag (st_flags s) XD3_SKIP_WINDOW"
    using base by (simp_all add: base_inv_def env_inv_def)
  have sizes: "sect_size (inst_sect s) < 2 ^ 64" using sects by (simp add: sections_inv_def)
  define tail :: "('sec xd3_stream \<Rightarrow> 'sec xd3_stream result) list" where "tail = [xd3_decode_secondary_sections,
      \<lambda>s. if flag (st_flags s) XD3_SKIP_EMIT then xd3_decode_finish_window s else (None, s),
      xd3_decode_setup_buffers]"
  have after: "sections_result fgk djw s (falling tail s2)"
    if "base_inv fgk djw s2" "sections_inv (stage (sect_next ADDR_SECTION)) s2"
      "dec_state s2 = sect_next ADDR_SECTION" "avail_in s2 \<le> avail_in s" for s2
    unfolding tail_def using that by (intro after_sections) (auto simp: emit_ready_def)
  show ?thesis
  proof (cases "USIZE_T_OVERFLOW (sect_size (inst_sect s)) (sect_size (addr_sect s)) \<or>
      USIZE_T_OVERFLOW (add64 (sect_size (inst_sect s)) (sect_size (addr_sect s))) (sect_size (data_sect s))")
    case True
    then show ?thesis using flags by (auto simp: xd3_decode_sections_def sections_result_def)
  next
    case False
    have "sect_size (inst_sect s) + sect_size (addr_sect s) < 2 ^ 64"
      using False USIZE_T_OVERFLOW_iff [OF sizes, of "sect_size (addr_sect s)"] by simp
    then have sum: "add64 (sect_size (inst_sect s)) (sect_size (addr_sect s)) = sect_size (inst_sect s) + sect_size (addr_sect s)"
        and lt: "sect_size (inst_sect s) + sect_size (addr_sect s) < 2 ^ 64" by simp_all
    have all: "need s < 2 ^ 64"
      using False USIZE_T_OVERFLOW_iff [OF lt, of "sect_size (data_sect s)"] by (simp add: sum need_def)
    then have need_eq: "add64 (add64 (sect_size (inst_sect s)) (sect_size (addr_sect s))) (sect_size (data_sect s)) = need s"
      unfolding sum by (simp add: need_def)
    have "dec_winbytes s \<le> need s"
    proof -
      have le: "filling x \<Longrightarrow> sect_pos x \<le> sect_size x" for x by (auto simp: filling_def)
      consider "dec_state s = DEC_DATA" | "dec_state s = DEC_INST" | "dec_state s = DEC_ADDR" using state by auto
      then show ?thesis
        using sects le [of "data_sect s"] le [of "inst_sect s"] le [of "addr_sect s"]
        by cases (simp_all add: sections_inv_def need_def)
    qed
    then have more: "sub64 (need s) (dec_winbytes s) = need s - dec_winbytes s" using all by simp
    define copy where "copy = (min (need s - dec_winbytes s) (avail_in s) \<noteq> need s - dec_winbytes s)"
    have hand: "at_hand copy s" using all by (auto simp: at_hand_def copy_def)
    note chain = section_chain [where fgk = fgk and djw = djw and copy = copy and s = s]
    have addr: "sections_result fgk djw s (falling (xd3_decode_section ADDR_SECTION DEC_EMIT copy # tail) s2)"
      if "base_inv fgk djw s2" "sections_inv (stage DEC_ADDR) s2" "at_hand copy s2" "dec_state s2 = DEC_ADDR"
        "avail_in s2 \<le> avail_in s" for s2
      using chain [of s2 ADDR_SECTION tail] that after by simp
    have inst: "sections_result fgk djw s (falling (xd3_decode_section INST_SECTION DEC_ADDR copy #
        xd3_decode_section ADDR_SECTION DEC_EMIT copy # tail) s2)"
      if "base_inv fgk djw s2" "sections_inv (stage DEC_INST) s2" "at_hand copy s2" "dec_state s2 = DEC_INST"
        "avail_in s2 \<le> avail_in s" for s2
      using chain [of s2 INST_SECTION "xd3_decode_section ADDR_SECTION DEC_EMIT copy # tail"] that addr by simp
    have data: "sections_result fgk djw s (falling (xd3_decode_section DATA_SECTION DEC_INST copy #
        xd3_decode_section INST_SECTION DEC_ADDR copy # xd3_decode_section ADDR_SECTION DEC_EMIT copy # tail) s2)"
      if "base_inv fgk djw s2" "sections_inv (stage DEC_DATA) s2" "at_hand copy s2" "dec_state s2 = DEC_DATA"
        "avail_in s2 \<le> avail_in s" for s2
      using chain [of s2 DATA_SECTION "xd3_decode_section INST_SECTION DEC_ADDR copy #
        xd3_decode_section ADDR_SECTION DEC_EMIT copy # tail"] that inst by simp
    have "xd3_decode_sections s = falling
           ((if dec_state s = DEC_DATA then
               [xd3_decode_section DATA_SECTION DEC_INST copy, xd3_decode_section INST_SECTION DEC_ADDR copy,
                xd3_decode_section ADDR_SECTION DEC_EMIT copy]
             else if dec_state s = DEC_INST then
               [xd3_decode_section INST_SECTION DEC_ADDR copy, xd3_decode_section ADDR_SECTION DEC_EMIT copy]
             else if dec_state s = DEC_ADDR then
               [xd3_decode_section ADDR_SECTION DEC_EMIT copy]
             else [\<lambda>s. (Some XD3_INVALID_INPUT, s)]) @ tail) s"
      using False flags
      by (simp add: xd3_decode_sections_def Let_def need_eq more copy_def tail_def del: falling.simps)
    then show ?thesis
      using state base sects hand addr [of s] inst [of s] data [of s] by (auto simp del: falling.simps)
  qed
qed

section \<open>Emitting and finishing\<close>

text \<open>Before the source's block is looked up.\<close>

definition can_emit :: "'sec xd3_sec_type \<Rightarrow> 'sec xd3_sec_type \<Rightarrow> 'sec xd3_stream \<Rightarrow> bool" where
  "can_emit fgk djw s \<longleftrightarrow> dec_state s = DEC_EMIT \<and> env_inv fgk djw s \<and> sections_inv 10 s \<and> table_ok s \<and>
    cache_ok (acache s) \<and> (\<not> SRCORTGT (dec_win_ind s) \<longrightarrow> dec_cpylen s = 0) \<and>
    dec_tgtlen s \<le> XD3_HARDMAXWINSIZE \<and> (dec_del_ind s \<noteq> 0 \<longrightarrow> sec_type s \<noteq> None) \<and>
    \<not> flag (dec_win_ind s) VCD_TARGET \<and> known_type (dec_current1 s) \<and> known_type (dec_current2 s) \<and>
    copies_written s 0 (dec_current1 s) \<and> copies_written s (pend (dec_current1 s)) (dec_current2 s) \<and>
    dec_position s \<le> dec_cpylen s + avail_out s + pend (dec_current1 s) + pend (dec_current2 s)"

lemma can_emit_ready: "emit_ready fgk djw s \<Longrightarrow> \<not> flag (dec_win_ind s) VCD_TARGET \<Longrightarrow> can_emit fgk djw s"
  by (simp add: can_emit_def emit_ready_def base_inv_def known_type_def)

lemma can_emit_inv: "dec_inv fgk djw s \<Longrightarrow> dec_state s = DEC_EMIT \<Longrightarrow> can_emit fgk djw s"
  by (simp add: can_emit_def dec_inv_def window_inv_def emit_inv_def)

lemma SRCORTGT_source: "SRCORTGT x \<Longrightarrow> \<not> flag x VCD_TARGET \<Longrightarrow> flag x VCD_SOURCE"
proof -
  assume "SRCORTGT x" and "\<not> flag x VCD_TARGET"
  moreover have "x AND (VCD_SOURCE OR VCD_TARGET) = (x AND VCD_SOURCE) OR (x AND VCD_TARGET)"
    by (rule bit_eqI) (auto simp: bit_simps)
  ultimately have "x AND VCD_SOURCE = VCD_SOURCE \<or> x AND VCD_SOURCE = VCD_TARGET"
    by (simp add: SRCORTGT_def flag_def)
  then show "flag x VCD_SOURCE" by (auto simp: flag_def VCD_SOURCE_def VCD_TARGET_def)
qed

definition emit_result ::
    "'sec xd3_sec_type \<Rightarrow> 'sec xd3_sec_type \<Rightarrow> nat \<Rightarrow> 'sec xd3_stream result option \<Rightarrow> bool" where
  "emit_result fgk djw n res \<longleftrightarrow>
    (\<exists>e s'. res = Some (Some e, s') \<and>
      (hard e \<or> dec_inv fgk djw s' \<and> avail_in s' \<le> n \<and>
        (e = XD3_GETSRCBLK \<and> dec_state s' = DEC_EMIT \<or> e = XD3_OUTPUT \<and> dec_state s' = DEC_FINISH)))"

lemma decode_emit_ok:
  assumes can: "can_emit fgk djw s" and inv: "emit_inv s"
  shows "emit_result fgk djw (avail_in s) (xd3_decode_emit s)"
proof -
  obtain ret s' where loop: "emit_loop s = Some (ret, s')" and em: "emitted s (ret, s')"
    and fin: "ret = None \<longrightarrow> htype (dec_current1 s') = XD3_NOOP \<and> htype (dec_current2 s') = XD3_NOOP"
    using emit_loop_ok [OF inv] by fastforce
  have wp: "window_part s' = window_part s" using em by (simp add: emitted_def)
  note eq = window_part_fields [OF wp]
  have keep: "dec_inv fgk djw s'" if inv': "emit_inv s'"
  proof -
    have env: "emit_env s'" using inv' by (simp add: emit_inv_def)
    have "env_inv fgk djw s'" using env can eq by (simp add: emit_env_def can_emit_def env_inv_def)
    moreover have "table_ok s'" using env by (simp add: emit_env_def table_ok_def cache_ok_def)
    moreover have "sections_inv 10 s'" using can eq by (simp add: can_emit_def sections_inv_def)
    moreover have "cache_ok (acache s')" using env by (simp add: emit_env_def)
    ultimately show ?thesis using inv' can eq by (simp add: dec_inv_def window_inv_def can_emit_def)
  qed
  have st: "dec_state s' = DEC_EMIT" "next_in s' = next_in s" using can eq by (simp_all add: can_emit_def)
  show ?thesis
  proof (cases ret)
    case (Some e)
    then show ?thesis using em loop keep st by (auto simp: emit_result_def xd3_decode_emit_def emitted_def)
  next
    case None
    let ?f = "snd (xd3_decode_finish_window s')"
    have "emit_inv s'" using em None by (simp add: emitted_def)
    then have "dec_inv fgk djw ?f" "dec_state ?f = DEC_FINISH" "next_in ?f = next_in s"
      using keep st fin None
      by (simp_all add: dec_inv_def xd3_decode_finish_window_def env_inv_def sections_inv_def window_inv_def table_ok_def
          emit_inv_def emit_env_def)
    then show ?thesis
      using loop None by (auto simp: emit_result_def xd3_decode_emit_def emit_checks_def xd3_decode_finish_window_def)
  qed
qed

lemma label_emit_ok:
  assumes can: "can_emit fgk djw s"
  shows "emit_result fgk djw (avail_in s) (label_emit s)"
proof -
  have keep: "dec_inv fgk djw (s1\<lparr>total_out := k\<rparr>) = dec_inv fgk djw s1" for s1 k
    by (simp add: dec_inv_def env_inv_def sections_inv_def window_inv_def table_ok_def emit_inv_def emit_env_def
        copies_written_def)
  have total: "emit_result fgk djw n (case xd3_decode_emit s1 of None \<Rightarrow> None
      | Some (ret, s2) \<Rightarrow> Some (ret, if ret = Some XD3_OUTPUT then s2\<lparr>total_out := add64 (total_out s2) (avail_out s2)\<rparr> else s2))"
    if "emit_result fgk djw n (xd3_decode_emit s1)" for n s1
    using that unfolding emit_result_def by (elim exE conjE) (simp add: keep, auto)
  show ?thesis
  proof (cases "flag (dec_win_ind s) VCD_SOURCE")
    case True
    show ?thesis
    proof (cases "src s")
      case None
      then show ?thesis using True by (simp add: label_emit_def emit_result_def)
    next
      case (Some x)
      obtain b o1 where div: "xd3_blksize_div (dec_cpyoff s) x = (b, o1)" by fastforce
      let ?s = "s\<lparr>src := Some (x\<lparr>cpyoff_blocks := b, cpyoff_blkoff := o1\<rparr>)\<rparr>"
      have "source_ok (x\<lparr>cpyoff_blocks := b, cpyoff_blkoff := o1\<rparr>)"
        using can Some by (simp add: can_emit_def env_inv_def source_ok_def split: option.splits)
      then have can': "can_emit fgk djw ?s" and "emit_inv ?s"
        using can by (simp_all add: can_emit_def env_inv_def sections_inv_def table_ok_def copies_written_def
            emit_inv_def emit_env_def)
      then show ?thesis
        using total [OF decode_emit_ok [OF can']] True Some div by (simp add: label_emit_def Let_def)
    qed
  next
    case False
    then have "dec_cpylen s = 0" using can SRCORTGT_source by (auto simp: can_emit_def)
    then have "emit_inv s" using can by (simp add: can_emit_def env_inv_def table_ok_def emit_inv_def emit_env_def)
    then show ?thesis using total [OF decode_emit_ok [OF can]] False by (simp add: label_emit_def)
  qed
qed

lemma label_finish_ok:
  assumes "dec_inv fgk djw s" "dec_state s = DEC_FINISH"
  shows "good fgk djw (avail_in s) 13 (label_finish s) \<and> fst (label_finish s) = Some XD3_WINFINISH"
  using assms by (simp add: label_finish_def dec_inv_def env_inv_def sections_inv_def window_inv_def table_ok_def)

section \<open>Every call\<close>

text \<open>A call that neither asks for input nor for a source block uses input, or takes the decoder on
  towards the next window.\<close>

fun rank :: "xd3_decode_state \<Rightarrow> nat" where
  "rank DEC_WININD = 0" | "rank DEC_FINISH = 1" | "rank DEC_EMIT = 2" | "rank DEC_ADDR = 3" | "rank DEC_INST = 3"
| "rank DEC_DATA = 3" | "rank DEC_ABORTED = 0" | "rank _ = 4"

definition step_result ::
    "'sec xd3_sec_type \<Rightarrow> 'sec xd3_sec_type \<Rightarrow> 'sec xd3_stream \<Rightarrow> xd3_rvalue \<Rightarrow> 'sec xd3_stream \<Rightarrow> bool" where
  "step_result fgk djw s e s' \<longleftrightarrow> hard e \<or> dec_inv fgk djw s' \<and> reached e (dec_state s') \<and> avail_in s' \<le> avail_in s \<and>
    (e = XD3_INPUT \<or> e = XD3_GETSRCBLK \<or> avail_in s' < avail_in s \<or> rank (dec_state s') < rank (dec_state s))"

lemma reached_rank: "reached e st \<Longrightarrow> e = XD3_INPUT \<or> e = XD3_GETSRCBLK \<or> rank st \<le> 3"
  by (cases e) auto

lemma winind_result:
  assumes inv: "dec_inv fgk djw s" and state: "dec_state s = DEC_WININD"
    and r: "header_from fgk djw DEC_WININD s = (Some e, s')"
  shows "e = XD3_INPUT \<or> hard e \<or> avail_in s' < avail_in s"
proof (cases "next_in s")
  case Nil
  then show ?thesis using r by (simp add: header_from_def header_labels_def label_winind_def xd3_decode_byte_def)
next
  case (Cons b rest)
  obtain ret s1 where 1: "label_winind s = (ret, s1)" by fastforce
  have next1: "next_in s1 = rest" and st: "ret = None \<Longrightarrow> dec_state s1 = DEC_CPYLEN" and err: "\<And>e. ret = Some e \<Longrightarrow> hard e"
    using 1 Cons
    by (auto simp: label_winind_def xd3_decode_byte_def DECODE_INPUT_def xd3_decode_init_window_def Let_def split: if_splits)
  have good: "good fgk djw (avail_in s) 3 (ret, s1)"
    unfolding 1 [symmetric]
    by (rule winind_ok [unfolded label_ok_def, THEN spec, THEN mp]) (use inv state in simp)
  have run: "header_from fgk djw DEC_WININD s = andthen (ret, s1) (header_from fgk djw DEC_CPYLEN)"
    by (simp add: header_from_def header_labels_def 1 del: falling.simps(2)) (simp only: falling.simps 1)
  show ?thesis
  proof (cases ret)
    case (Some e)
    then show ?thesis using r run err by simp
  next
    case None
    then have "dec_inv fgk djw s1" using good by simp
    then have "good fgk djw (avail_in s1) 13 (header_from fgk djw DEC_CPYLEN s1)"
      using header_from_ok [of fgk djw s1] st [OF None] by simp
    then show ?thesis using r run None next1 Cons by auto
  qed
qed

lemma emit_step:
  assumes "emit_result fgk djw n res" "n \<le> avail_in s" "rank (dec_state s) = 2 \<or> rank (dec_state s) = 3"
  shows "\<exists>e s'. res = Some (Some e, s') \<and> step_result fgk djw s e s'"
  using assms by (auto simp: emit_result_def step_result_def)

text \<open>One call of the decoder: it returns, with an error, or with a request and the invariant.\<close>

lemma decode_input_ok:
  assumes inv: "dec_inv fgk djw s"
  shows "\<exists>e s'. xd3_decode_input fgk djw s = Some (Some e, s') \<and> step_result fgk djw s e s'"
proof -
  have enc: "enc_state s = ENC_INIT" using inv by (simp add: dec_inv_def env_inv_def)
  consider (sections) "dec_state s \<in> {DEC_DATA, DEC_INST, DEC_ADDR}" | (emit) "dec_state s = DEC_EMIT"
    | (finish) "dec_state s = DEC_FINISH" | (aborted) "dec_state s = DEC_ABORTED"
    | (header) "stage (dec_state s) \<le> 6" by (cases "dec_state s") auto
  then show ?thesis
  proof cases
    case sections
    obtain ret s1 where r: "xd3_decode_sections s = (ret, s1)" by fastforce
    have ok: "sections_result fgk djw s (ret, s1)" using sections_ok [OF inv sections] r by simp
    show ?thesis
    proof (cases ret)
      case (Some e)
      then show ?thesis using ok r enc sections by (auto simp: xd3_decode_input_def sections_result_def step_result_def)
    next
      case None
      then have can: "can_emit fgk djw s1" and le: "avail_in s1 \<le> avail_in s"
        using ok can_emit_ready by (auto simp: sections_result_def)
      have "xd3_decode_input fgk djw s = label_emit s1"
        using enc sections r None by (simp add: xd3_decode_input_def)
      then show ?thesis using emit_step [OF label_emit_ok [OF can] le] sections by auto
    qed
  next
    case emit
    then have "xd3_decode_input fgk djw s = label_emit s" using enc by (simp add: xd3_decode_input_def)
    then show ?thesis using emit_step [OF label_emit_ok [OF can_emit_inv [OF inv emit]] order_refl] emit by simp
  next
    case finish
    obtain ret s1 where r: "label_finish s = (ret, s1)" by fastforce
    show ?thesis
      using label_finish_ok [OF inv finish] enc finish r by (auto simp: xd3_decode_input_def step_result_def)
  next
    case aborted
    then show ?thesis using enc by (simp add: xd3_decode_input_def step_result_def)
  next
    case header
    then have run: "xd3_decode_input fgk djw s = Some (header_from fgk djw (dec_state s) s)"
      using enc by (cases "dec_state s") (simp_all add: xd3_decode_input_def)
    obtain ret s1 where r: "header_from fgk djw (dec_state s) s = (ret, s1)" by fastforce
    have good: "good fgk djw (avail_in s) 13 (ret, s1)" using header_from_ok [OF inv header] r by simp
    have "stage st \<noteq> 13" for st by (cases st) simp_all
    then obtain e where e: "ret = Some e" using good by (cases ret) auto
    show ?thesis
    proof (cases "dec_state s = DEC_WININD")
      case True
      then show ?thesis
        using run r e good winind_result [OF inv True, of e s1] by (auto simp: step_result_def)
    next
      case False
      then have "rank (dec_state s) = 4" using header by (cases "dec_state s") simp_all
      then show ?thesis
        using run r e good reached_rank [of e "dec_state s1"] by (auto simp: step_result_def)
    qed
  qed
qed

section \<open>Driving the decoder\<close>

text \<open>What \<open>xd3_process_stream\<close> needs of the function it calls: it returns; after a request it can be
  called again; and it cannot go on for ever without input.\<close>

locale stream_coder =
  fixes func :: "'sec xd3_stream \<Rightarrow> 'sec xd3_stream result option"
    and inv :: "'sec xd3_stream \<Rightarrow> bool"
    and togo :: "'sec xd3_stream \<Rightarrow> nat"
  assumes returns: "inv s \<Longrightarrow> \<exists>e s'. func s = Some (Some e, s') \<and> (hard e \<or>
      e \<in> {XD3_INPUT, XD3_GETSRCBLK} \<and> inv s' \<or>
      e \<in> {XD3_OUTPUT, XD3_GOTHEADER, XD3_WINSTART, XD3_WINFINISH} \<and> inv s' \<and>
        (avail_in s' < avail_in s \<or> avail_in s' = avail_in s \<and> togo s' < togo s) \<and>
        (e = XD3_OUTPUT \<longrightarrow> inv (s'\<lparr>next_out := []\<rparr>)))"
    and refill: "inv s \<Longrightarrow> inv (s\<lparr>next_in := xs\<rparr>)"
    and togo_output: "togo (s\<lparr>next_out := []\<rparr>) = togo s"
begin

lemma loop_returns:
  assumes "inv s"
  shows "\<exists>ret s' out'. process_loop func mx s inp out = Some (ret, s', out') \<and>
    (ret = None \<or> (\<exists>e. ret = Some e \<and> (hard e \<or> e = ENOSPC))) \<and> (length out \<le> mx \<longrightarrow> length out' \<le> mx)"
  using assms
proof (induction "(2 * length inp + avail_in s, togo s)" arbitrary: s inp out rule: wf_induct_rule [OF wf_lex_prod [OF wf_less wf_less]])
  case less: 1
  obtain e s1 where f: "func s = Some (Some e, s1)" and res: "hard e \<or>
      e \<in> {XD3_INPUT, XD3_GETSRCBLK} \<and> inv s1 \<or>
      e \<in> {XD3_OUTPUT, XD3_GOTHEADER, XD3_WINSTART, XD3_WINFINISH} \<and> inv s1 \<and>
        (avail_in s1 < avail_in s \<or> avail_in s1 = avail_in s \<and> togo s1 < togo s) \<and>
        (e = XD3_OUTPUT \<longrightarrow> inv (s1\<lparr>next_out := []\<rparr>))"
    using returns [OF less.prems] by blast
  note loop = process_loop.simps [of func mx s inp out, unfolded f option.case prod.case]
  have IH: "\<exists>ret s' out'. process_loop func mx s2 inp2 out2 = Some (ret, s', out') \<and>
      (ret = None \<or> (\<exists>e. ret = Some e \<and> (hard e \<or> e = ENOSPC))) \<and> (length out2 \<le> mx \<longrightarrow> length out' \<le> mx)"
    if "2 * length inp2 + avail_in s2 < 2 * length inp + avail_in s \<or>
        2 * length inp2 + avail_in s2 = 2 * length inp + avail_in s \<and> togo s2 < togo s" "inv s2" for s2 inp2 out2
    by (rule less.hyps) (use that in auto)
  from res show ?case
  proof (elim disjE)
    assume hard: "hard e"
    then have "e \<noteq> XD3_OUTPUT" "e \<noteq> XD3_INPUT" "e \<notin> {XD3_GOTHEADER, XD3_WINSTART, XD3_WINFINISH}" "e \<noteq> XD3_GETSRCBLK"
      by (auto simp: hard_def)
    then have "process_loop func mx s inp out = Some (Some e, s1, out)" using loop by simp
    then show ?thesis using hard by blast
  next
    assume e: "e \<in> {XD3_INPUT, XD3_GETSRCBLK} \<and> inv s1"
    show ?thesis
    proof (cases "e = XD3_INPUT \<and> min (winsize s1) (length inp) \<noteq> 0")
      case True
      define n where "n = min (winsize s1) (length inp)"
      have n: "n \<noteq> 0" "n \<le> length inp" using True by (auto simp: n_def)
      have "process_loop func mx s inp out = process_loop func mx (s1\<lparr>next_in := take n inp\<rparr>) (drop n inp) out"
        using True n loop by (simp add: Let_def n_def [symmetric])
      moreover have "2 * length (drop n inp) + avail_in (s1\<lparr>next_in := take n inp\<rparr>) < 2 * length inp + avail_in s"
        using n by auto
      ultimately show ?thesis using IH [of "drop n inp" "s1\<lparr>next_in := take n inp\<rparr>" out] refill e by simp
    next
      case False
      then have "process_loop func mx s inp out = Some (if e = XD3_INPUT then None else Some XD3_INTERNAL, s1, out)"
        using e loop by (auto simp: Let_def)
      then show ?thesis by simp
    qed
  next
    assume e: "e \<in> {XD3_OUTPUT, XD3_GOTHEADER, XD3_WINSTART, XD3_WINFINISH} \<and> inv s1 \<and>
        (avail_in s1 < avail_in s \<or> avail_in s1 = avail_in s \<and> togo s1 < togo s) \<and>
        (e = XD3_OUTPUT \<longrightarrow> inv (s1\<lparr>next_out := []\<rparr>))"
    show ?thesis
    proof (cases "e = XD3_OUTPUT")
      case True
      show ?thesis
      proof (cases "mx < length out + avail_out s1")
        case full: True
        then have "process_loop func mx s inp out = Some (Some ENOSPC, s1, out)" using True loop by simp
        then show ?thesis by simp
      next
        case False
        then have "process_loop func mx s inp out = process_loop func mx (s1\<lparr>next_out := []\<rparr>) inp (out @ next_out s1)"
          using True loop by simp
        then show ?thesis
          using IH [of inp "s1\<lparr>next_out := []\<rparr>" "out @ next_out s1"] e True False togo_output [of s1] by simp
      qed
    next
      case False
      then have "process_loop func mx s inp out = process_loop func mx s1 inp out" using e loop by auto
      then show ?thesis using IH [of inp s1 out] e by simp
    qed
  qed
qed

end

lemma dec_inv_refill: "dec_inv fgk djw (s\<lparr>next_in := xs\<rparr>) = dec_inv fgk djw s"
  by (simp add: dec_inv_def env_inv_def sections_inv_def window_inv_def table_ok_def emit_inv_def emit_env_def
      copies_written_def)

lemma dec_inv_consume: "dec_inv fgk djw s \<Longrightarrow> dec_state s \<noteq> DEC_EMIT \<Longrightarrow> dec_inv fgk djw (s\<lparr>next_out := []\<rparr>)"
proof -
  have "stage st = 10 \<longleftrightarrow> st = DEC_EMIT" for st by (cases st) simp_all
  then show "dec_inv fgk djw s \<Longrightarrow> dec_state s \<noteq> DEC_EMIT \<Longrightarrow> dec_inv fgk djw (s\<lparr>next_out := []\<rparr>)"
    by (simp add: dec_inv_def env_inv_def sections_inv_def window_inv_def table_ok_def)
qed

interpretation decoder: stream_coder "xd3_decode_input fgk djw" "dec_inv fgk djw" "\<lambda>s. rank (dec_state s)" for fgk djw
proof
  fix s :: "'a xd3_stream" assume "dec_inv fgk djw s"
  from decode_input_ok [OF this] obtain e s' where r: "xd3_decode_input fgk djw s = Some (Some e, s')"
    and res: "step_result fgk djw s e s'" by blast
  have "hard e \<or> e \<in> {XD3_INPUT, XD3_GETSRCBLK} \<and> dec_inv fgk djw s' \<or>
      e \<in> {XD3_OUTPUT, XD3_GOTHEADER, XD3_WINSTART, XD3_WINFINISH} \<and> dec_inv fgk djw s' \<and>
        (avail_in s' < avail_in s \<or> avail_in s' = avail_in s \<and> rank (dec_state s') < rank (dec_state s)) \<and>
        (e = XD3_OUTPUT \<longrightarrow> dec_inv fgk djw (s'\<lparr>next_out := []\<rparr>))"
    using res dec_inv_consume [of fgk djw s'] by (cases e) (auto simp: step_result_def)
  with r show "\<exists>e s'. xd3_decode_input fgk djw s = Some (Some e, s') \<and> (hard e \<or>
      e \<in> {XD3_INPUT, XD3_GETSRCBLK} \<and> dec_inv fgk djw s' \<or>
      e \<in> {XD3_OUTPUT, XD3_GOTHEADER, XD3_WINSTART, XD3_WINFINISH} \<and> dec_inv fgk djw s' \<and>
        (avail_in s' < avail_in s \<or> avail_in s' = avail_in s \<and> rank (dec_state s') < rank (dec_state s)) \<and>
        (e = XD3_OUTPUT \<longrightarrow> dec_inv fgk djw (s'\<lparr>next_out := []\<rparr>)))"
    by blast
qed (simp_all add: dec_inv_refill)

end
