(* ===== verification/Xd3DecodeTotal.thy ===== *)
theory Xd3DecodeTotal
  imports Xd3DecodeInv
begin

text \<open>
  The properties of the decoder on arbitrary input: each call is safe and keeps the invariant, and
  \<open>xd3_decode_memory\<close> returns for every delta and source, without a read or write outside an object.
\<close>

unbundle bit_operations_syntax

section \<open>The stream that \<open>xd3_decode_memory\<close> starts with\<close>

lemma flag_or: "flag (a OR b) f \<longleftrightarrow> flag a f \<or> flag b f"
proof -
  have "(a OR b) AND f = (a AND f) OR (b AND f)" by (rule bit_eqI) (auto simp: bit_simps)
  then show ?thesis by (simp add: flag_def or_eq_0_iff)
qed

definition no_skips :: "nat \<Rightarrow> bool" where
  "no_skips flags \<longleftrightarrow> \<not> flag flags XD3_JUST_HDR \<and> \<not> flag flags XD3_SKIP_WINDOW \<and> \<not> flag flags XD3_SKIP_EMIT"

lemma no_skips_flush: "no_skips (flags OR XD3_FLUSH) = no_skips flags"
  by (simp add: no_skips_def flag_or) (simp add: flag_def XD3_FLUSH_def XD3_JUST_HDR_def XD3_SKIP_WINDOW_def XD3_SKIP_EMIT_def)

lemma config_ok:
  assumes "alloc_ok al" "sec_ok fgk" "sec_ok djw" "no_skips flags"
  shows "(\<exists>e. xd3_config_stream al fgk djw (decode_config flags) = Inl e \<and> hard e) \<or>
    (\<exists>s. xd3_config_stream al fgk djw (decode_config flags) = Inr s \<and> dec_inv fgk djw s \<and> st_flags s = flags \<and>
      dec_state s = DEC_VCHEAD)"
proof -
  obtain sm where sm: "choose_smatcher XD3_SMATCH_DEFAULT flags = Inr sm" by (auto simp: choose_smatcher_def Let_def)
  have pow: "xd3_check_pow2 XD3_DEFAULT_SPREVSZ \<noteq> None"
    using xd3_check_pow2_pow2 [of 18] by (simp add: XD3_DEFAULT_SPREVSZ_def)
  have ty: "flags_sec_type fgk djw flags \<in> {Inl XD3_INTERNAL, Inr None, Inr (Some fgk), Inr (Some djw)}"
    by (auto simp: flags_sec_type_def Let_def)
  show ?thesis
    using ty pow sm assms
    by (auto simp: xd3_config_stream_def decode_config_def zero_stream_def dec_inv_def env_inv_def
        sections_inv_def window_inv_def new_desect_def zero_hinst_def no_skips_def reader_ok_def XD3_NOOP_def)
qed

lemma memory_source_ok:
  assumes "length bs \<le> 2 ^ 63"
  shows "\<exists>x. xd3_set_source_and_size (memory_source bs) (length bs) = Some x \<and> source_ok x"
proof -
  obtain l where l: "l \<le> 63" "xd3_pow2_roundup (length bs) = Some (2 ^ l)"
    using assms by (rule xd3_pow2_roundup_ok)
  have check: "xd3_check_pow2 (2 ^ l) = Some l" using xd3_check_pow2_pow2 [of l] l(1) by simp
  obtain bsize shift where blk: "(case xd3_check_pow2 (length bs) of
           Some l \<Rightarrow> Some (length bs, l)
         | None \<Rightarrow> do { b \<leftarrow> xd3_pow2_roundup (length bs); l \<leftarrow> xd3_check_pow2 b; Some (b, l) }) = Some (bsize, shift)"
    and size: "bsize = 2 ^ shift" "shift < 64"
  proof (cases "xd3_check_pow2 (length bs)")
    case None
    then show ?thesis using that [of "2 ^ l" l] l check by simp
  next
    case (Some k)
    then show ?thesis using that [of "length bs" k] xd3_check_pow2_Some [OF Some] by simp
  qed
  obtain w where w: "(case xd3_check_pow2 (length bs) of
           Some l \<Rightarrow> Some (length bs)
         | None \<Rightarrow> xd3_xoff_roundup (length bs)) = Some w"
    using l(2) by (cases "xd3_check_pow2 (length bs)") (auto simp: xd3_xoff_roundup_def xd3_pow2_roundup_def)
  have "xd3_set_source (memory_source bs) = Some ((memory_source bs)\<lparr>srclen := 0, srcbase := 0, blksize := bsize,
      shiftby := shift, maskby := 2 ^ shift - 1, max_winsize := max w XD3_ALLOCSIZE\<rparr>)"
    using blk w by (cases "xd3_check_pow2 (length bs)") (simp_all add: xd3_set_source_def memory_source_def Let_def)
  then show ?thesis
    using size by (auto simp: xd3_set_source_and_size_def source_ok_def memory_source_def split: prod.splits)
qed

lemma decode_stream_ok:
  assumes inv: "dec_inv fgk djw s" "dec_state s = DEC_VCHEAD" and flags: "no_skips (st_flags s)"
  shows "\<exists>ret out. xd3_decode_stream fgk djw s inp mx = Some (ret, out) \<and> (\<forall>e. ret = Some e \<longrightarrow> hard e) \<and> length out \<le> mx"
proof -
  let ?n = "min (winsize s) (length inp)"
  let ?s = "s\<lparr>st_flags := st_flags s OR XD3_FLUSH, next_in := take ?n inp\<rparr>"
  have "dec_inv fgk djw ?s"
    using inv flags no_skips_flush [of "st_flags s"]
    by (simp add: dec_inv_def env_inv_def sections_inv_def window_inv_def no_skips_def)
  from decoder.loop_returns [OF this, of mx "drop ?n inp" "[]"]
  obtain ret s' out where r: "process_loop (xd3_decode_input fgk djw) mx ?s (drop ?n inp) [] = Some (ret, s', out)"
    and ret: "ret = None \<or> (\<exists>e. ret = Some e \<and> (hard e \<or> e = ENOSPC))" and out: "length out \<le> mx"
    by auto
  have "hard ENOSPC" by (simp add: hard_def)
  then have "\<forall>e. ret = Some e \<longrightarrow> hard e" "\<forall>e. close_decoder s' = Some e \<longrightarrow> hard e"
    using ret by (auto simp: close_decoder_def)
  then show ?thesis using r out by (simp add: xd3_decode_stream_def Let_def)
qed

text \<open>An allocator and a compressor for the witnesses.\<close>

definition demo_allocator :: allocator where
  "demo_allocator n sz = (if n < 2 ^ 63 then Some (\<lambda>_. 0) else None)"

definition demo_sec :: "unit xd3_sec_type" where
  "demo_sec = \<lparr>sec_id = 0, sec_alloc = Some (), sec_init = \<lambda>_ _. Inr (), sec_decode = \<lambda>_ _ _. Inl XD3_INVALID_INPUT,
    sec_encode = \<lambda>sec _ out _. (Some XD3_NOSECOND, sec, out)\<rparr>"

lemma demo_ok: "alloc_ok demo_allocator" "sec_ok demo_sec"
  by (auto simp: alloc_ok_def demo_allocator_def sec_ok_def demo_sec_def)

lemma decode_memory_result:
  assumes "alloc_ok al" "sec_ok fgk" "sec_ok djw" "no_skips flags"
    and len: "\<forall>bs. source = Some bs \<longrightarrow> length bs \<le> 2 ^ 63"
  shows "\<exists>ret out. xd3_decode_memory al fgk djw inp source mx flags = Some (ret, out) \<and> (\<forall>e. ret = Some e \<longrightarrow> hard e) \<and>
    length out \<le> mx"
  using config_ok [OF assms(1-4)]
proof (elim disjE exE conjE)
  fix e assume "xd3_config_stream al fgk djw (decode_config flags) = Inl e" "hard e"
  then show ?thesis by (auto simp: xd3_decode_memory_def)
next
  fix s assume s: "xd3_config_stream al fgk djw (decode_config flags) = Inr s" "dec_inv fgk djw s"
    "st_flags s = flags" "dec_state s = DEC_VCHEAD"
  show ?thesis
  proof (cases source)
    case None
    then show ?thesis using decode_stream_ok [OF s(2,4)] s assms(4) by (simp add: xd3_decode_memory_def)
  next
    case (Some bs)
    then obtain x where x: "xd3_set_source_and_size (memory_source bs) (length bs) = Some x" "source_ok x"
      using memory_source_ok len by blast
    then have "dec_inv fgk djw (s\<lparr>src := Some x\<rparr>)"
      using s by (simp add: dec_inv_def env_inv_def sections_inv_def window_inv_def)
    from decode_stream_ok [OF this] show ?thesis
      using Some s x assms(4) by (simp add: xd3_decode_memory_def)
  qed
qed

section \<open>The properties\<close>



text \<open>C33: Decoding from memory always ends: for every delta, however malformed, every source of at
  most \<open>2 ^ 63\<close> bytes and every size of the output buffer, \<open>xd3_decode_memory\<close> returns.\<close>

theorem decode_memory_returns:
  assumes "alloc_ok al" "sec_ok fgk" "sec_ok djw" "no_skips flags"
    and "\<forall>bs. source = Some bs \<longrightarrow> length bs \<le> 2 ^ 63"
  shows "\<exists>ret out. xd3_decode_memory al fgk djw inp source mx flags = Some (ret, out)"
  using decode_memory_result [OF assms, of inp mx] by blast

lemma decode_memory_returns_witness:
  "\<exists>ret out. xd3_decode_memory demo_allocator demo_sec demo_sec
     [0xd6, 0xc3, 0xc4, 0, 0, 1, 6, 0, 7, 4, 0, 0, 1, 1, 20, 1] (Some [1, 2, 3, 4, 5, 6]) 100 0 = Some (ret, out)"
  by (rule decode_memory_returns) (simp_all add: demo_ok no_skips_def flag_def)




end
