(* ===== verification/Xd3Hash.thy ===== *)
theory Xd3Hash
  imports Xd3Output
begin

text \<open>
  The checksums of the string matcher (\<open>xdelta3-hash.h\<close>, \<open>xd3_comprun\<close>): the multiplicative
  checksum of four bytes, the Rabin-Karp checksum of \<open>look\<close> bytes with its constant-time update, the
  hash tables' configuration and the index a checksum gets in a table. The theorem is that the
  update of the large checksum is the checksum of the window one byte on, and that an index is
  inside the table.
\<close>

unbundle bit_operations_syntax

definition xd3_hash_multiplier32 :: u32 where "xd3_hash_multiplier32 = 1597334677"
definition xd3_hash_multiplier64 :: u64 where "xd3_hash_multiplier64 = 1181783497276652981"

section \<open>Small checksum\<close>

text \<open>\<open>UNALIGNED_READ32\<close> reads four bytes as a little-endian word; the state is that word.\<close>

definition unaligned_read32 :: "bytes \<Rightarrow> u32" where
  "unaligned_read32 base = image_word (take 4 base)"

definition xd3_scksum :: "bytes \<Rightarrow> u32 \<times> u32" where
  "xd3_scksum base = (let state = unaligned_read32 base in (state, state * xd3_hash_multiplier32))"

definition xd3_small_cksum_update :: "u32 \<Rightarrow> bytes \<Rightarrow> u32 \<times> u32" where
  "xd3_small_cksum_update old base =
    (let state = unaligned_read32 (drop 1 base) in (state, state * xd3_hash_multiplier32))"

section \<open>Hash tables\<close>

record xd3_hash_cfg =
  cfg_size :: nat
  cfg_shift :: nat
  cfg_mask :: nat
  cfg_look :: nat
  cfg_multiplier :: u64
  cfg_powers :: "u64 list"

text \<open>\<open>1U << i\<close> is a 32-bit shift: it is not defined for \<open>i\<close> of 32 or more.\<close>

definition shl_1U :: "nat \<Rightarrow> nat option" where
  "shl_1U i = (if i < 32 then Some (2 ^ i) else None)"

fun size_hashtable_loop :: "nat \<Rightarrow> nat \<Rightarrow> nat \<Rightarrow> nat \<Rightarrow> nat option" where
  "size_hashtable_loop 0 slots i bits = Some bits"
| "size_hashtable_loop (Suc n) slots i bits =
    (if i \<le> bits then
       (case shl_1U i of
          None \<Rightarrow> None
        | Some s \<Rightarrow> if slots < s then Some (i - 1) else size_hashtable_loop n slots (i + 1) bits)
     else Some bits)"

definition xd3_size_hashtable_bits :: "nat \<Rightarrow> nat option" where
  "xd3_size_hashtable_bits slots = size_hashtable_loop 64 slots 3 63"

text \<open>\<open>powers[i] = powers[i+1] * xd3_hash_multiplier\<close> from the last power but one down to the first; the
  counter is an \<open>int\<close> that starts at \<open>look - 2\<close>, converted from \<open>usize_t\<close>.\<close>

function powers_loop :: "int \<Rightarrow> u64 list \<Rightarrow> u64 list" where
  "powers_loop i ps =
    (if 0 \<le> i then powers_loop (i - 1) (ps[nat i := ps ! (nat i + 1) * xd3_hash_multiplier64]) else ps)"
  by pat_completeness auto
termination
  by (relation "measure (\<lambda>(i, ps). nat (i + 1))") auto

declare powers_loop.simps [simp del]

definition xd3_size_hashtable :: "allocator \<Rightarrow> nat \<Rightarrow> nat \<Rightarrow> xd3_rvalue + xd3_hash_cfg" where
  "xd3_size_hashtable al slots look =
    (case xd3_size_hashtable_bits slots of
       None \<Rightarrow> Inl Fault
     | Some bits \<Rightarrow>
         (case al look 8 of
            None \<Rightarrow> Inl ENOMEM
          | Some _ \<Rightarrow>
              if look = 0 then Inl Fault
              else
                let powers = powers_loop (s32_of_nat (sub64 look 2)) ((replicate look 0)[look - 1 := 1]) in
                Inr \<lparr>cfg_size = 2 ^ bits, cfg_shift = 64 - bits, cfg_mask = 2 ^ bits - 1, cfg_look = look,
                     cfg_multiplier = hd powers * xd3_hash_multiplier64, cfg_powers = powers\<rparr>))"

definition xd3_checksum_hash :: "xd3_hash_cfg \<Rightarrow> u64 \<Rightarrow> nat" where
  "xd3_checksum_hash cfg cksum =
    unat (drop_bit (cfg_shift cfg) cksum XOR (cksum AND of_nat (cfg_mask cfg)))"

section \<open>Large checksum\<close>

definition xd3_large_cksum :: "xd3_hash_cfg \<Rightarrow> bytes \<Rightarrow> nat \<Rightarrow> u64" where
  "xd3_large_cksum cfg base look = foldl (\<lambda>h i. h + ucast (base ! i) * cfg_powers cfg ! i) 0 [0..<look]"

definition xd3_large_cksum_update :: "xd3_hash_cfg \<Rightarrow> u64 \<Rightarrow> bytes \<Rightarrow> nat \<Rightarrow> u64" where
  "xd3_large_cksum_update cfg cksum base look =
    xd3_hash_multiplier64 * cksum - cfg_multiplier cfg * ucast (base ! 0) + ucast (base ! look)"

section \<open>Run lengths\<close>

text \<open>\<open>NEXTRUN\<close>, and the length of the run that ends at the last of \<open>slook\<close> bytes.\<close>

definition NEXTRUN :: "u8 \<Rightarrow> nat \<times> u8 \<Rightarrow> nat \<times> u8" where
  "NEXTRUN c = (\<lambda>(run_l, run_c). if c = run_c then (run_l + 1, run_c) else (1, c))"

definition xd3_comprun :: "bytes \<Rightarrow> nat \<Rightarrow> nat \<times> u8" where
  "xd3_comprun seg slook = foldl (\<lambda>s c. NEXTRUN c s) (0, 0) (take slook seg)"

section \<open>The powers and the update\<close>

lemma powers_loop_eq:
  assumes "n < length ps" "\<forall>k. n \<le> k \<and> k < length ps \<longrightarrow> ps ! k = xd3_hash_multiplier64 ^ (length ps - 1 - k)"
  shows "\<forall>k < length ps. powers_loop (int n - 1) ps ! k = xd3_hash_multiplier64 ^ (length ps - 1 - k)"
  using assms
proof (induction n arbitrary: ps)
  case 0
  then show ?case by (simp add: powers_loop.simps)
next
  case (Suc n)
  define ps' where "ps' = ps[n := ps ! (n + 1) * xd3_hash_multiplier64]"
  have "ps ! (n + 1) * xd3_hash_multiplier64 = xd3_hash_multiplier64 ^ (length ps - 1 - n)"
  proof -
    have "length ps - 1 - n = Suc (length ps - 1 - (n + 1))" using Suc.prems(1) by simp
    moreover have "ps ! (n + 1) = xd3_hash_multiplier64 ^ (length ps - 1 - (n + 1))" using Suc.prems by simp
    ultimately show ?thesis by (simp only: power_Suc2)
  qed
  then have "\<forall>k. n \<le> k \<and> k < length ps' \<longrightarrow> ps' ! k = xd3_hash_multiplier64 ^ (length ps' - 1 - k)"
    using Suc.prems unfolding ps'_def by (auto simp: nth_list_update)
  moreover have "n < length ps'" using Suc.prems(1) by (simp add: ps'_def)
  ultimately have "\<forall>k < length ps'. powers_loop (int n - 1) ps' ! k = xd3_hash_multiplier64 ^ (length ps' - 1 - k)"
    using Suc.IH by blast
  moreover have "powers_loop (int (Suc n) - 1) ps = powers_loop (int n - 1) ps'"
    by (subst powers_loop.simps) (simp add: ps'_def)
  ultimately show ?case by (simp add: ps'_def)
qed

lemma powers_of_look:
  assumes "0 < look" "look \<le> 2 ^ 31 + 1" "k < look"
  shows "powers_loop (s32_of_nat (sub64 look 2)) ((replicate look 0)[look - 1 := 1]) ! k = xd3_hash_multiplier64 ^ (look - 1 - k)"
proof -
  have i: "s32_of_nat (sub64 look 2) = int (look - 1) - 1"
  proof (cases "look = 1")
    case True
    then show ?thesis by (simp add: s32_of_nat_def sub64_def)
  next
    case False
    then have "sub64 look 2 = look - 2" using assms(1,2) by auto
    then show ?thesis using False assms(1,2) by (simp add: s32_of_nat_def)
  qed
  have "\<forall>k. look - 1 \<le> k \<and> k < length ((replicate look 0)[look - 1 := 1]) \<longrightarrow>
      (replicate look 0)[look - 1 := 1] ! k = xd3_hash_multiplier64 ^ (length ((replicate look 0)[look - 1 := (1 :: u64)]) - 1 - k)"
    by (auto simp: nth_list_update)
  from powers_loop_eq [OF _ this] assms(1,3) show ?thesis unfolding i by simp
qed

lemma size_hashtable_loop_bits:
  "size_hashtable_loop n slots i bits = Some b \<Longrightarrow> 63 < i + n \<Longrightarrow> i \<le> 32 \<Longrightarrow> 1 \<le> i \<Longrightarrow> bits = 63 \<Longrightarrow> b < 32"
  by (induction n slots i bits rule: size_hashtable_loop.induct)
    (auto simp: shl_1U_def split: if_splits)

lemma xd3_size_hashtable_bits_less: "xd3_size_hashtable_bits slots = Some b \<Longrightarrow> b < 32"
  unfolding xd3_size_hashtable_bits_def by (rule size_hashtable_loop_bits) auto

text \<open>A configuration of \<open>xd3_size_hashtable\<close>.\<close>

lemma size_hashtable_powers:
  assumes "xd3_size_hashtable al slots look = Inr cfg" "look \<le> 2 ^ 31 + 1"
  shows "cfg_multiplier cfg = xd3_hash_multiplier64 ^ look"
    "\<forall>i<look. cfg_powers cfg ! i = xd3_hash_multiplier64 ^ (look - 1 - i)"
proof -
  define ps where "ps = powers_loop (s32_of_nat (sub64 look 2)) ((replicate look 0)[look - 1 := 1])"
  have l: "0 < look" and c: "cfg_multiplier cfg = hd ps * xd3_hash_multiplier64" "cfg_powers cfg = ps"
    using assms(1) by (auto simp: xd3_size_hashtable_def Let_def ps_def split: option.splits if_splits)
  note p = powers_of_look [OF l assms(2), folded ps_def]
  have "ps \<noteq> []"
  proof -
    have "length (powers_loop i qs) = length qs" for i qs
      by (induction i qs rule: powers_loop.induct) (subst powers_loop.simps, simp)
    then have "length ps = look" by (simp add: ps_def)
    then show ?thesis using l by auto
  qed
  then have "hd ps = xd3_hash_multiplier64 ^ (look - 1)" using p [OF l] by (simp add: hd_conv_nth)
  then show "cfg_multiplier cfg = xd3_hash_multiplier64 ^ look" using c(1) l by (cases look) simp_all
  show "\<forall>i<look. cfg_powers cfg ! i = xd3_hash_multiplier64 ^ (look - 1 - i)" using p c(2) by simp
qed

lemma size_hashtable_cfg:
  assumes "xd3_size_hashtable al slots look = Inr cfg"
  obtains bits where "bits < 32" "0 < look" "cfg_size cfg = 2 ^ bits" "cfg_shift cfg = 64 - bits" "cfg_mask cfg = 2 ^ bits - 1"
proof -
  obtain bits where b: "xd3_size_hashtable_bits slots = Some bits" "0 < look"
    "cfg_size cfg = 2 ^ bits" "cfg_shift cfg = 64 - bits" "cfg_mask cfg = 2 ^ bits - 1"
    using assms by (auto simp: xd3_size_hashtable_def Let_def split: option.splits if_splits)
  then show ?thesis using xd3_size_hashtable_bits_less [OF b(1)] that by blast
qed

lemma large_cksum_sum:
  "xd3_large_cksum cfg base look = (\<Sum>i<look. ucast (base ! i) * cfg_powers cfg ! i)"
  by (induction look) (simp_all add: xd3_large_cksum_def)

lemma shift_sum:
  fixes m :: u64
  shows "(\<Sum>i<n. f (Suc i) * m ^ (n - 1 - i)) = m * (\<Sum>i<n. f i * m ^ (n - 1 - i)) - m ^ n * f 0 + f n"
proof (induction n)
  case (Suc n)
  have s: "(\<Sum>i<n. g i * m ^ (Suc n - 1 - i)) = m * (\<Sum>i<n. g i * m ^ (n - 1 - i))" for g :: "nat \<Rightarrow> u64"
  proof -
    have "g i * m ^ (Suc n - 1 - i) = m * (g i * m ^ (n - 1 - i))" if "i < n" for i
    proof -
      have "Suc n - 1 - i = Suc (n - 1 - i)" using that by simp
      then show ?thesis by simp
    qed
    then show ?thesis by (simp add: sum_distrib_left)
  qed
  have "(\<Sum>i<Suc n. f (Suc i) * m ^ (Suc n - 1 - i)) = m * (\<Sum>i<n. f (Suc i) * m ^ (n - 1 - i)) + f (Suc n)"
    using s [of "\<lambda>i. f (Suc i)"] by simp
  moreover have "(\<Sum>i<Suc n. f i * m ^ (Suc n - 1 - i)) = m * (\<Sum>i<n. f i * m ^ (n - 1 - i)) + f n"
    using s [of f] by simp
  ultimately show ?case unfolding Suc.IH by (simp add: algebra_simps)
qed simp

lemma checksum_index:
  assumes "cfg_shift cfg = 64 - bits" "cfg_mask cfg = 2 ^ bits - 1" "bits < 32"
  shows "xd3_checksum_hash cfg cksum < 2 ^ bits"
proof -
  let ?w = "drop_bit (cfg_shift cfg) cksum XOR (cksum AND of_nat (cfg_mask cfg))"
  have m: "(of_nat (2 ^ bits - 1) :: u64) = mask bits"
    by (simp add: mask_eq_exp_minus_1 of_nat_diff)
  have a: "take_bit bits (drop_bit (64 - bits) cksum) = drop_bit (64 - bits) cksum"
    by (rule bit_word_eqI) (use assms(3) in \<open>auto simp: bit_simps dest: bit_imp_le_length\<close>)
  have c: "cksum AND of_nat (cfg_mask cfg) = take_bit bits cksum"
    by (simp only: assms(2) m take_bit_eq_mask)
  have "take_bit bits ?w = ?w"
    unfolding c assms(1) by (simp add: take_bit_xor a)
  then show ?thesis
    unfolding xd3_checksum_hash_def by (metis take_bit_nat_less_exp unsigned_take_bit_eq)
qed

text \<open>C39: With a configuration made by \<open>xd3_size_hashtable\<close> for a window of at most \<open>2 ^ 31 + 1\<close> bytes
  (from more on the \<open>int\<close> counter of its loop does not reach all powers), the update of the large
  checksum by one byte is the checksum of the window one byte further on, and every checksum's index
  is inside the hash table.\<close>

theorem large_cksum_rolls:
  assumes "xd3_size_hashtable al slots look = Inr cfg" "look \<le> 2 ^ 31 + 1" "look < length base"
  shows "xd3_large_cksum_update cfg (xd3_large_cksum cfg base look) base look =
      xd3_large_cksum cfg (drop 1 base) look \<and>
    xd3_checksum_hash cfg cksum < cfg_size cfg"
proof
  obtain bits where c: "bits < 32" "0 < look" "cfg_size cfg = 2 ^ bits" "cfg_shift cfg = 64 - bits"
      "cfg_mask cfg = 2 ^ bits - 1"
    using assms(1) by (rule size_hashtable_cfg)
  note p = size_hashtable_powers [OF assms(1,2)]
  let ?m = xd3_hash_multiplier64
  define f :: "nat \<Rightarrow> u64" where "f i = ucast (base ! i)" for i
  have e: "xd3_large_cksum cfg bs look = (\<Sum>i<look. ucast (bs ! i) * ?m ^ (look - 1 - i))" for bs
    unfolding large_cksum_sum by (rule sum.cong) (use p(2) in auto)
  have "xd3_large_cksum cfg (drop 1 base) look = (\<Sum>i<look. f (Suc i) * ?m ^ (look - 1 - i))"
    unfolding e by (rule sum.cong) (use assms(3) in \<open>auto simp: f_def\<close>)
  also have "\<dots> = ?m * (\<Sum>i<look. f i * ?m ^ (look - 1 - i)) - ?m ^ look * f 0 + f look"
    by (rule shift_sum)
  also have "\<dots> = xd3_large_cksum_update cfg (xd3_large_cksum cfg base look) base look"
    by (simp add: xd3_large_cksum_update_def e p(1) f_def)
  finally show "xd3_large_cksum_update cfg (xd3_large_cksum cfg base look) base look =
      xd3_large_cksum cfg (drop 1 base) look" by (rule sym)
  show "xd3_checksum_hash cfg cksum < cfg_size cfg"
    using checksum_index [OF c(4,5,1)] c(3) by simp
qed

lemma large_cksum_rolls_witness:
  "\<exists>cfg. xd3_size_hashtable (\<lambda>_ _. Some (\<lambda>_. 0)) 100 3 = Inr cfg \<and> cfg_size cfg = 64 \<and>
    xd3_large_cksum_update cfg (xd3_large_cksum cfg [1, 2, 3, 4] 3) [1, 2, 3, 4] 3 =
      xd3_large_cksum cfg [2, 3, 4] 3 \<and>
    xd3_checksum_hash cfg 12345 < 64"
proof -
  have "xd3_size_hashtable_bits 100 = Some 6" by code_simp
  then obtain cfg where c: "xd3_size_hashtable (\<lambda>_ _. Some (\<lambda>_. 0)) 100 3 = Inr cfg" "cfg_size cfg = 64"
    by (simp add: xd3_size_hashtable_def Let_def)
  then show ?thesis using large_cksum_rolls [OF c(1) _, of "[1, 2, 3, 4]" 12345] by simp
qed

text \<open>The run length counts the trailing bytes equal to the last one.\<close>

lemma comprun_snoc: "slook < length seg \<Longrightarrow> xd3_comprun seg (Suc slook) = NEXTRUN (seg ! slook) (xd3_comprun seg slook)"
  by (simp add: xd3_comprun_def take_Suc_conv_app_nth)

lemma comprun_run:
  "slook \<le> length seg \<Longrightarrow> xd3_comprun seg slook = (l, c) \<Longrightarrow> 
    l \<le> slook \<and> (\<forall>i. slook - l \<le> i \<longrightarrow> i < slook \<longrightarrow> seg ! i = c) \<and> (0 < slook \<longrightarrow> 0 < l)"
proof (induction slook arbitrary: l c)
  case 0
  then show ?case by (simp add: xd3_comprun_def)
next
  case (Suc n)
  obtain l' c' where r: "xd3_comprun seg n = (l', c')" by fastforce
  then have ih: "l' \<le> n" "\<forall>i. n - l' \<le> i \<longrightarrow> i < n \<longrightarrow> seg ! i = c'" using Suc by auto
  have "(l, c) = NEXTRUN (seg ! n) (l', c')" using Suc.prems r comprun_snoc [of n seg] by simp
  then show ?case using ih by (auto simp: NEXTRUN_def less_Suc_eq split: if_splits)
qed

end
