(* ===== verification/Xd3Encode.thy ===== *)
theory Xd3Encode
  imports Xd3Decode Xd3Hash
begin

text \<open>
  The encoder's instruction buffer and the emission of a window (\<open>xdelta3.c\<close>, from
  \<open>xd3_iopt_finish_encoding\<close> to \<open>xd3_encode_reset\<close>). The encoder's part of \<open>xd3_stream\<close> extends the
  record of the shared part. The list of the used instructions holds their values, and the list of
  the free ones is its length; the instructions of an addition live on the stack of
  \<open>xd3_iopt_add_encoding\<close>, so they are not freed. The checks of \<open>XD3_ASSERT\<close> are not compiled in.
\<close>

unbundle bit_operations_syntax

section \<open>The encoder's state\<close>

definition MAX_MATCH_SPLIT :: nat where "MAX_MATCH_SPLIT = 18"
definition SECONDARY_MIN_SAVINGS :: nat where "SECONDARY_MIN_SAVINGS = 2"
definition SECONDARY_MIN_INPUT :: nat where "SECONDARY_MIN_INPUT = 10"

datatype xd3_match_state = MATCH_TARGET | MATCH_BACKWARD | MATCH_FORWARD | MATCH_SEARCHING

text \<open>\<open>next_in\<close> is the window being encoded; \<open>no_input\<close> says that it is the null pointer. A section is
  the chain of its pages, which the output splices to one in \<open>enc_hdr\<close>. The input buffer holds the
  bytes saved in it (\<open>buf_avail\<close> of them).\<close>

record 'sec xd3_encoder = "'sec xd3_stream" +
  enc_free :: nat
  enc_hdr :: xd3_output
  enc_data :: xd3_output
  enc_inst :: xd3_output
  enc_addr :: xd3_output
  iopt_used :: "xd3_rinst list"
  iopt_free :: nat
  iout :: "xd3_rinst option"
  unencoded_offset :: nat
  taroff :: nat
  srcwin_decided :: bool
  srcwin_decided_early :: bool
  srcwin_cksum_pos :: nat
  match_minaddr :: nat
  match_maxaddr :: nat
  small_reset :: bool
  enc_appheader :: "bytes option"
  recode_adler32 :: u32
  sec_data :: xd3_sec_cfg
  sec_inst :: xd3_sec_cfg
  sec_addr :: xd3_sec_cfg
  no_input :: bool
  enc_current :: xd3_output
  buf_in :: "bytes option"
  buf_leftover :: "bytes option"
  input_position :: nat
  min_match :: nat
  match_state :: xd3_match_state
  match_srcpos :: nat
  match_last_srcpos :: nat
  match_back :: nat
  match_maxback :: nat
  match_fwd :: nat
  match_maxfwd :: nat
  maxsrcaddr :: nat
  large_table :: "nat list option"
  large_hash :: xd3_hash_cfg
  small_table :: "nat list option"
  small_prev :: "nat list option"
  small_hash :: xd3_hash_cfg

datatype enc_section = HDR | DATA | INST | ADDR

fun enc_heads :: "enc_section \<Rightarrow> 'sec xd3_encoder \<Rightarrow> xd3_output" where
  "enc_heads HDR e = enc_hdr e"
| "enc_heads DATA e = enc_data e"
| "enc_heads INST e = enc_inst e"
| "enc_heads ADDR e = enc_addr e"

fun put_output :: "enc_section \<Rightarrow> xd3_output \<Rightarrow> 'sec xd3_encoder \<Rightarrow> 'sec xd3_encoder" where
  "put_output HDR out e = e\<lparr>enc_hdr := out\<rparr>"
| "put_output DATA out e = e\<lparr>enc_data := out\<rparr>"
| "put_output INST out e = e\<lparr>enc_inst := out\<rparr>"
| "put_output ADDR out e = e\<lparr>enc_addr := out\<rparr>"

text \<open>An emitter at the tail of a section.\<close>

definition emit_to ::
    "enc_section \<Rightarrow> (nat \<times> xd3_output \<Rightarrow> xd3_rvalue + nat \<times> xd3_output) \<Rightarrow> 'sec xd3_encoder \<Rightarrow>
      xd3_rvalue + 'sec xd3_encoder" where
  "emit_to k emit e =
    sum_bind (emit (enc_free e, enc_heads k e)) (\<lambda>(free, out). Inr (put_output k out (e\<lparr>enc_free := free\<rparr>)))"

definition put_byte :: "enc_section \<Rightarrow> u8 \<Rightarrow> 'sec xd3_encoder \<Rightarrow> xd3_rvalue + 'sec xd3_encoder" where
  "put_byte k b e = emit_to k (\<lambda>st. xd3_emit_byte (st_alloc e) st b) e"

definition put_bytes :: "enc_section \<Rightarrow> bytes \<Rightarrow> 'sec xd3_encoder \<Rightarrow> xd3_rvalue + 'sec xd3_encoder" where
  "put_bytes k bs e = emit_to k (\<lambda>st. xd3_emit_bytes (st_alloc e) st bs) e"

definition put_number :: "enc_section \<Rightarrow> nat \<Rightarrow> 'sec xd3_encoder \<Rightarrow> xd3_rvalue + 'sec xd3_encoder" where
  "put_number k n e = emit_to k (\<lambda>st. xd3_emit_size (st_alloc e) st n) e"

section \<open>Emit routines\<close>

definition xd3_emit_single :: "'sec xd3_encoder \<Rightarrow> xd3_rinst \<Rightarrow> u8 \<Rightarrow> xd3_rvalue + 'sec xd3_encoder" where
  "xd3_emit_single e single code =
    (case fetch (code_table e) (unat code) of
       None \<Rightarrow> Inl Fault
     | Some entry \<Rightarrow>
         sum_bind (put_byte INST code e)
           (\<lambda>e1. if size1 entry = 0 then put_number INST (rsize single) e1 else Inr e1))"

definition xd3_emit_double :: "'sec xd3_encoder \<Rightarrow> u8 \<Rightarrow> xd3_rvalue + 'sec xd3_encoder" where
  "xd3_emit_double e code = put_byte INST code e"

section \<open>The source window\<close>

text \<open>The length fits in 64 bits, so its check never fails in this build.\<close>

definition srcwin_size :: "'sec xd3_encoder \<Rightarrow> xd3_source \<Rightarrow> nat" where
  "srcwin_size e sr =
    (let len = max (sub64 (match_maxaddr e) (match_minaddr e))
                   (add64 (length (next_in e)) (length (next_in e) div 4)) in
     if eof_known sr then min len (sub64 (xd3_source_eof sr) (match_minaddr e)) else len)"

definition xd3_srcwin_setup :: "'sec xd3_encoder \<Rightarrow> xd3_rvalue + 'sec xd3_encoder" where
  "xd3_srcwin_setup e =
    (case src e of
       None \<Rightarrow> Inl Fault
     | Some sr \<Rightarrow>
         let sr' =
           (if enc_state e = ENC_INSTR \<and> match_maxaddr e = 0 then sr
            else if enc_state e = ENC_INSTR
            then sr\<lparr>srcbase := match_minaddr e, srclen := sub64 (match_maxaddr e) (match_minaddr e)\<rparr>
            else sr\<lparr>srcbase := match_minaddr e, srclen := srcwin_size e sr\<rparr>) in
         Inr (e\<lparr>srcwin_decided := True, src := Some sr', taroff := srclen sr'\<rparr>))"

section \<open>Finishing an instruction\<close>

text \<open>The part before the switch's address: the source window must be decided before a copy. The
  result has the address in the combined window.\<close>

definition copy_address :: "'sec xd3_encoder \<Rightarrow> xd3_rinst \<Rightarrow> xd3_rvalue + 'sec xd3_encoder \<times> nat" where
  "copy_address e inst =
    (case src e of
       None \<Rightarrow> Inr (e, raddr inst)
     | Some sr \<Rightarrow>
         sum_bind
           (if \<not> srcwin_decided e then xd3_srcwin_setup e
            else Inr (e\<lparr>srcwin_decided_early := (\<not> eof_known sr \<or> srcwin_cksum_pos e < xd3_source_eof sr)\<rparr>))
           (\<lambda>e1. if xtra inst \<noteq> 0 then
                (case src e1 of None \<Rightarrow> Inl Fault | Some sr1 \<Rightarrow> Inr (e1, sub64 (raddr inst) (srcbase sr1)))
              else Inr (e1, add64 (taroff e1) (raddr inst))))"

definition encode_operands :: "'sec xd3_encoder \<Rightarrow> xd3_rinst \<Rightarrow> xd3_rvalue + 'sec xd3_encoder \<times> xd3_rinst" where
  "encode_operands e inst =
    (if rtype inst = XD3_CPY then
       sum_bind (copy_address e inst) (\<lambda>(e1, addr).
       sum_bind (xd3_encode_address (st_alloc e1) (acache e1) (enc_free e1, enc_addr e1) addr
                   (add64 (rpos inst) (taroff e1)) (rtype inst)) (\<lambda>(ac, (free, out), mode).
       Inr (e1\<lparr>acache := ac, enc_free := free, enc_addr := out\<rparr>, inst\<lparr>rtype := mode\<rparr>)))
     else if rtype inst = XD3_RUN then
       sum_bind (put_byte DATA (xtra inst) e) (\<lambda>e1. Inr (e1, inst))
     else if rtype inst = XD3_ADD then
       (if length (next_in e) < rpos inst + rsize inst then Inl Fault
        else sum_bind (put_bytes DATA (take (rsize inst) (drop (rpos inst) (next_in e))) e) (\<lambda>e1. Inr (e1, inst)))
     else Inr (e, inst))"

definition xd3_iopt_free_nonadd :: "xd3_rinst \<Rightarrow> 'sec xd3_encoder \<Rightarrow> 'sec xd3_encoder" where
  "xd3_iopt_free_nonadd i e = (if rtype i \<noteq> XD3_ADD then e\<lparr>iopt_free := Suc (iopt_free e)\<rparr> else e)"

definition xd3_iopt_finish_encoding :: "'sec xd3_encoder \<Rightarrow> xd3_rinst \<Rightarrow> xd3_rvalue + 'sec xd3_encoder" where
  "xd3_iopt_finish_encoding e inst =
    sum_bind (encode_operands e inst) (\<lambda>(e1, inst1).
      let e2 = e1\<lparr>unencoded_offset := add64 (unencoded_offset e1) (rsize inst1)\<rparr>;
          (prev, inst2) = xd3_choose_instruction (iout e2) (inst1\<lparr>code2 := 0\<rparr>) in
      case prev of
        None \<Rightarrow> Inr (e2\<lparr>iout := Some inst2\<rparr>)
      | Some p \<Rightarrow>
          if code2 p \<noteq> 0 then
            sum_bind (xd3_emit_double e2 (code2 p)) (\<lambda>e3.
            Inr ((xd3_iopt_free_nonadd inst2 (xd3_iopt_free_nonadd p e3))\<lparr>iout := None\<rparr>))
          else
            sum_bind (xd3_emit_single e2 p (code1 p)) (\<lambda>e3.
            Inr ((xd3_iopt_free_nonadd p e3)\<lparr>iout := Some inst2\<rparr>)))"

text \<open>\<open>iadd\<close> is not initialised in its other fields, which an addition does not read.\<close>

definition add_inst :: "nat \<Rightarrow> nat \<Rightarrow> xd3_rinst" where
  "add_inst pos sz = \<lparr>rtype = XD3_ADD, xtra = 0, code1 = 0, code2 = 0, rpos = pos, rsize = sz, raddr = 0\<rparr>"

definition xd3_iopt_add :: "'sec xd3_encoder \<Rightarrow> nat \<Rightarrow> xd3_rvalue + 'sec xd3_encoder" where
  "xd3_iopt_add e pos =
    (let off = unencoded_offset e in
     if off < pos then xd3_iopt_finish_encoding e (add_inst off (pos - off)) else Inr e)"

definition xd3_iopt_add_encoding :: "'sec xd3_encoder \<Rightarrow> xd3_rinst \<Rightarrow> xd3_rvalue + 'sec xd3_encoder" where
  "xd3_iopt_add_encoding e inst =
    sum_bind (xd3_iopt_add e (rpos inst)) (\<lambda>e1. xd3_iopt_finish_encoding e1 inst)"

definition xd3_iopt_add_finalize :: "'sec xd3_encoder \<Rightarrow> xd3_rvalue + 'sec xd3_encoder" where
  "xd3_iopt_add_finalize e =
    sum_bind (xd3_iopt_add e (length (next_in e))) (\<lambda>e1.
      case iout e1 of
        None \<Rightarrow> Inr e1
      | Some i \<Rightarrow>
          sum_bind (xd3_emit_single e1 i (code1 i)) (\<lambda>e2. Inr ((xd3_iopt_free_nonadd i e2)\<lparr>iout := None\<rparr>)))"

section \<open>Compaction\<close>

definition inst_end :: "xd3_rinst \<Rightarrow> nat" where
  "inst_end r = add64 (rpos r) (rsize r)"

text \<open>Two instructions that overlap are shortened to meet; \<open>adjust1\<close> is what the second one loses.\<close>

definition shorten_pair :: "xd3_rinst \<Rightarrow> xd3_rinst \<Rightarrow> xd3_rinst \<times> xd3_rinst" where
  "shorten_pair r1 r2 =
    (let r1end = inst_end r1;
         gap = sub64 (inst_end r2) (rpos r1);
         average = gap div 2;
         newsize = min MAX_MATCH_SPLIT (sub64 gap average);
         (r1', adjust1) =
           (if rsize r1 < newsize then (r1, sub64 r1end (rpos r2))
            else if rsize r2 < newsize then (r1\<lparr>rsize := sub64 (rsize r1) (sub64 r1end (rpos r2))\<rparr>, 0)
            else
              let a = sub64 (rsize r1) newsize;
                  a' = (if sub64 r1end a < rpos r2 then sub64 a (sub64 (rpos r2) (sub64 r1end a)) else a);
                  r = r1\<lparr>rsize := sub64 (rsize r1) a'\<rparr> in
              (r, sub64 (inst_end r) (rpos r2))) in
     (r1', r2\<lparr>rsize := sub64 (rsize r2) adjust1, rpos := add64 (rpos r2) adjust1,
             raddr := add64 (raddr r2) adjust1\<rparr>))"

text \<open>The loop of \<open>xd3_iopt_flush_instructions\<close> over the used list: \<open>r1\<close>, \<open>r2\<close> and \<open>r3\<close> are its first
  three elements.\<close>

fun compact_loop :: "bool \<Rightarrow> xd3_rinst list \<Rightarrow> xd3_rinst list" where
  "compact_loop force (r1 # r2 # rest) =
    (if inst_end r1 \<le> rpos r2 then r1 # compact_loop force (r2 # rest)
     else if rest \<noteq> [] \<and> rpos (hd rest) \<le> add64 (inst_end r1) 1 then compact_loop force (r1 # rest)
     else if rest = [] \<and> \<not> force then r1 # r2 # rest
     else
       let r2off = sub64 (rpos r2) (rpos r1);
           r2moff = sub64 (inst_end r2) (inst_end r1);
           gap = sub64 (inst_end r2) (rpos r1) in
       if gap < 2 * MIN_MATCH \<or> r2moff \<le> 2 \<or> r2off \<le> 2 then
         (if rsize r1 < rsize r2 then compact_loop force (r2 # rest) else r1 # compact_loop force rest)
       else
         fst (shorten_pair r1 r2) # compact_loop force (snd (shorten_pair r1 r2) # rest))"
| "compact_loop force rs = rs"

text \<open>The second loop takes instructions from the front of the list.\<close>

fun drain_loop :: "bool \<Rightarrow> nat \<Rightarrow> xd3_rinst list \<Rightarrow> 'sec xd3_encoder \<Rightarrow> xd3_rvalue + 'sec xd3_encoder" where
  "drain_loop force flushed [] e = Inr e"
| "drain_loop force flushed (renc # used) e =
    sum_bind (xd3_iopt_add_encoding (e\<lparr>iopt_used := used\<rparr>) renc) (\<lambda>e1.
      if \<not> force \<and> (iopt_size e1 div 2 < flushed + 1 \<or> length used < 3) then Inr e1
      else drain_loop force (flushed + 1) used e1)"

definition xd3_iopt_flush_instructions :: "'sec xd3_encoder \<Rightarrow> bool \<Rightarrow> xd3_rvalue + 'sec xd3_encoder" where
  "xd3_iopt_flush_instructions e force =
    (let used = compact_loop force (iopt_used e) in
     drain_loop force 0 used
       (e\<lparr>iopt_used := used, iopt_free := iopt_free e + (length (iopt_used e) - length used)\<rparr>))"

section \<open>The instruction buffer\<close>

text \<open>A block of \<open>elts\<close> instructions; \<open>xd3_iopt_buflist\<close> has 16 bytes.\<close>

definition xd3_alloc_iopt :: "'sec xd3_encoder \<Rightarrow> nat \<Rightarrow> xd3_rvalue + 'sec xd3_encoder" where
  "xd3_alloc_iopt e elts =
    (case st_alloc e 16 1 of
       None \<Rightarrow> Inl ENOMEM
     | Some _ \<Rightarrow>
         (case st_alloc e 48 elts of
            None \<Rightarrow> Inl ENOMEM
          | Some _ \<Rightarrow> Inr (e\<lparr>iopt_free := iopt_free e + elts\<rparr>)))"

text \<open>A slot that no instruction has left is a read outside the list.\<close>

definition xd3_iopt_get_slot :: "'sec xd3_encoder \<Rightarrow> xd3_rvalue + 'sec xd3_encoder" where
  "xd3_iopt_get_slot e =
    sum_bind
      (if iopt_free e = 0 then
         (if iopt_unlimited e then
            sum_bind (xd3_alloc_iopt e (XD3_ALLOCSIZE div 48)) (\<lambda>e1.
            Inr (e1\<lparr>iopt_size := add64 (iopt_size e1) (XD3_ALLOCSIZE div 48)\<rparr>))
          else xd3_iopt_flush_instructions e False)
       else Inr e)
      (\<lambda>e1. if iopt_free e1 = 0 then Inl Fault else Inr (e1\<lparr>iopt_free := iopt_free e1 - 1\<rparr>))"

text \<open>The slot is filled in and stands at the end of the used list.\<close>

definition use_slot :: "'sec xd3_encoder \<Rightarrow> xd3_rinst \<Rightarrow> xd3_rvalue + 'sec xd3_encoder" where
  "use_slot e inst =
    sum_bind (xd3_iopt_get_slot e) (\<lambda>e1. Inr (e1\<lparr>iopt_used := iopt_used e1 @ [inst]\<rparr>))"

definition xd3_emit_run :: "'sec xd3_encoder \<Rightarrow> nat \<Rightarrow> nat \<Rightarrow> u8 \<Rightarrow> xd3_rvalue + 'sec xd3_encoder" where
  "xd3_emit_run e pos sz run_c =
    use_slot e \<lparr>rtype = XD3_RUN, xtra = run_c, code1 = 0, code2 = 0, rpos = pos, rsize = sz, raddr = 0\<rparr>"

definition xd3_found_match ::
    "'sec xd3_encoder \<Rightarrow> nat \<Rightarrow> nat \<Rightarrow> nat \<Rightarrow> bool \<Rightarrow> xd3_rvalue + 'sec xd3_encoder" where
  "xd3_found_match e pos sz addr is_source =
    use_slot e \<lparr>rtype = XD3_CPY, xtra = of_bool is_source, code1 = 0, code2 = 0, rpos = pos, rsize = sz,
      raddr = addr\<rparr>"

definition xd3_iopt_erase :: "'sec xd3_encoder \<Rightarrow> nat \<Rightarrow> 'sec xd3_encoder" where
  "xd3_iopt_erase e pos =
    (let kept = rev (dropWhile (\<lambda>r. pos \<le> rpos r) (rev (iopt_used e))) in
     e\<lparr>iopt_used := kept, iopt_free := iopt_free e + (length (iopt_used e) - length kept)\<rparr>)"

definition xd3_iopt_last_matched :: "'sec xd3_encoder \<Rightarrow> nat" where
  "xd3_iopt_last_matched e =
    (if iopt_used e = [] then 0 else inst_end (last (iopt_used e)))"

end
