(* ===== verification/Xd3EncodeWindow.thy ===== *)
theory Xd3EncodeWindow
  imports Xd3Encode
begin

text \<open>
  The end of a window in the encoder: the secondary compression of the sections, the header
  (\<open>xd3_emit_hdr\<close>), the reset for the next window, the allocation of the encoder's buffers and the
  input buffer of \<open>xd3_encode_buffer_leftover\<close>.
\<close>

unbundle bit_operations_syntax

section \<open>Secondary compression\<close>

text \<open>The new section's page is not checked for a null pointer. A compressor that answers
  \<open>XD3_NOSECOND\<close> leaves the section as it is.\<close>

definition xd3_encode_secondary ::
    "enc_section \<Rightarrow> xd3_sec_cfg \<Rightarrow> 'sec option \<Rightarrow> 'sec xd3_encoder \<Rightarrow>
      xd3_rvalue + 'sec xd3_encoder \<times> 'sec option \<times> bool" where
  "xd3_encode_secondary k cfg sec e =
    (case sec_type e of
       None \<Rightarrow> Inl Fault
     | Some ty \<Rightarrow>
         let orig_size = xd3_sizeof_output (enc_heads k e) in
         if orig_size < SECONDARY_MIN_INPUT then Inr (e, sec, False)
         else
           sum_bind (xd3_get_secondary ty sec True) (\<lambda>sec1.
           case xd3_alloc_output (st_alloc e) (enc_free e) of
             None \<Rightarrow> Inl Fault
           | Some (free, page) \<Rightarrow>
               sum_bind (xd3_emit_size (st_alloc e) (free, [page]) orig_size) (\<lambda>tmp.
               case sec_encode ty sec1 (enc_heads k e) tmp cfg of
                 (ret, sec2, (free2, tmp2)) \<Rightarrow>
                   let e2 = e\<lparr>enc_free := free2\<rparr> in
                   if ret = Some XD3_NOSECOND then Inr (e2, Some sec2, False)
                   else case ret of
                     Some err \<Rightarrow> Inl err
                   | None \<Rightarrow>
                       if xd3_sizeof_output tmp2 < orig_size - SECONDARY_MIN_SAVINGS \<or> inefficient cfg
                       then Inr (put_output k tmp2 e2, Some sec2, True)
                       else Inr (e2, Some sec2, False))))"

text \<open>\<open>ENCODE_SECONDARY_SECTION\<close> for the three sections; the result has the delta indicator.\<close>

definition encode_sections :: "'sec xd3_encoder \<Rightarrow> xd3_rvalue + 'sec xd3_encoder \<times> nat" where
  "encode_sections e =
    (if sec_type e = None then Inr (e, 0)
     else
       sum_bind (if flag (st_flags e) XD3_SEC_NODATA then Inr (e, False)
                 else sum_bind (xd3_encode_secondary DATA (sec_data e) (sec_stream_d e) e)
                        (\<lambda>(e, s, did). Inr (e\<lparr>sec_stream_d := s\<rparr>, did))) (\<lambda>(e1, data_sec).
       sum_bind (if flag (st_flags e1) XD3_SEC_NOINST then Inr (e1, False)
                 else sum_bind (xd3_encode_secondary INST (sec_inst e1) (sec_stream_i e1) e1)
                        (\<lambda>(e, s, did). Inr (e\<lparr>sec_stream_i := s\<rparr>, did))) (\<lambda>(e2, inst_sec).
       sum_bind (if flag (st_flags e2) XD3_SEC_NOADDR then Inr (e2, False)
                 else sum_bind (xd3_encode_secondary ADDR (sec_addr e2) (sec_stream_a e2) e2)
                        (\<lambda>(e, s, did). Inr (e\<lparr>sec_stream_a := s\<rparr>, did))) (\<lambda>(e3, addr_sec).
       Inr (e3, (if data_sec then VCD_DATACOMP else 0) OR (if inst_sec then VCD_INSTCOMP else 0)
                OR (if addr_sec then VCD_ADDRCOMP else 0))))))"

section \<open>The header\<close>

primrec run_all :: "('s \<Rightarrow> 'e + 's) list \<Rightarrow> 's \<Rightarrow> 'e + 's" where
  "run_all [] s = Inr s"
| "run_all (f # fs) s = sum_bind (f s) (run_all fs)"

definition emit_file_header :: "'sec xd3_encoder \<Rightarrow> xd3_rvalue + 'sec xd3_encoder" where
  "emit_file_header e =
    (let hdr_ind = (if sec_type e \<noteq> None then VCD_SECONDARY else 0)
                   OR (if enc_appheader e \<noteq> None then VCD_APPHEADER else 0) in
     run_all
       (map (put_byte HDR) VCDIFF_MAGIC @ [put_byte HDR VCDIFF_VERSION, put_byte HDR (of_nat hdr_ind)] @
        (case sec_type e of None \<Rightarrow> [] | Some ty \<Rightarrow> [put_byte HDR (of_nat (sec_id ty))]) @
        (case enc_appheader e of None \<Rightarrow> [] | Some app \<Rightarrow> [put_number HDR (length app), put_bytes HDR app])) e)"

definition xd3_encoder_used_source :: "'sec xd3_encoder \<Rightarrow> bool" where
  "xd3_encoder_used_source e = (case src e of None \<Rightarrow> False | Some sr \<Rightarrow> 0 < srclen sr)"

definition use_adler32 :: "'sec xd3_encoder \<Rightarrow> bool" where
  "use_adler32 e = flag (st_flags e) (XD3_ADLER32 OR XD3_ADLER32_RECODE)"

definition window_indicator :: "'sec xd3_encoder \<Rightarrow> nat" where
  "window_indicator e =
    (if xd3_encoder_used_source e then VCD_SOURCE else 0) OR (if use_adler32 e then VCD_ADLER32 else 0)"

text \<open>The four bytes of a checksum, the highest first.\<close>

definition cksum_bytes :: "u32 \<Rightarrow> bytes" where
  "cksum_bytes a32 = [ucast (drop_bit 24 a32), ucast (drop_bit 16 a32), ucast (drop_bit 8 a32), ucast (a32 AND 0xFF)]"

definition emit_window_header :: "nat \<Rightarrow> 'sec xd3_encoder \<Rightarrow> xd3_rvalue + 'sec xd3_encoder" where
  "emit_window_header del_ind e =
    (let tgt_len = length (next_in e);
         data_len = xd3_sizeof_output (enc_data e);
         inst_len = xd3_sizeof_output (enc_inst e);
         addr_len = xd3_sizeof_output (enc_addr e);
         enc_len = (1 + (xd3_sizeof_uint64 tgt_len + xd3_sizeof_uint64 data_len + xd3_sizeof_uint64 inst_len
                         + xd3_sizeof_uint64 addr_len)
                    + data_len + inst_len + addr_len + (if use_adler32 e then 4 else 0)) mod 2 ^ 64;
         a32 = (if flag (st_flags e) XD3_ADLER32 then adler32 1 (next_in e) else recode_adler32 e) in
     run_all
       ([put_byte HDR (of_nat (window_indicator e))] @
        (case src e of
           None \<Rightarrow> []
         | Some sr \<Rightarrow>
             if 0 < srclen sr then [put_number HDR (srclen sr), put_number HDR (srcbase sr)] else []) @
        [put_number HDR enc_len, put_number HDR tgt_len, put_byte HDR (of_nat del_ind), put_number HDR data_len,
         put_number HDR inst_len, put_number HDR addr_len] @
        (if use_adler32 e then [put_bytes HDR (cksum_bytes a32)] else [])) e)"

definition xd3_emit_hdr :: "'sec xd3_encoder \<Rightarrow> xd3_rvalue + 'sec xd3_encoder" where
  "xd3_emit_hdr e =
    sum_bind (if current_window e = 0 then emit_file_header e else Inr e) (\<lambda>e1.
    sum_bind (encode_sections e1) (\<lambda>(e2, del_ind).
    emit_window_header del_ind e2))"

section \<open>Setup and reset\<close>

text \<open>\<open>xd3_encode_init_partial\<close>: the buffers without the hash tables. The memory for the instructions
  is the same error for every reason.\<close>

definition xd3_encode_init_partial :: "'sec xd3_encoder \<Rightarrow> xd3_rvalue + 'sec xd3_encoder" where
  "xd3_encode_init_partial e =
    sum_bind
      (run_all
        (map (\<lambda>k e. case xd3_alloc_output (st_alloc e) (enc_free e) of
                       None \<Rightarrow> Inl ENOMEM
                     | Some (free, page) \<Rightarrow> Inr (put_output k [page] (e\<lparr>enc_free := free\<rparr>)))
           [HDR, DATA, INST, ADDR]) e) (\<lambda>e1.
    sum_bind (xd3_alloc_iopt (e1\<lparr>iopt_used := [], iopt_free := 0\<rparr>) (iopt_size e1)) (\<lambda>e2.
    let e3 = e2\<lparr>acache := (acache e2)\<lparr>s_near := near_modes rfc3284_code_table_desc,
                                     s_same := same_modes rfc3284_code_table_desc\<rparr>,
                code_table := xd3_rfc3284_code_table\<rparr> in
    sum_bind (xd3_alloc_cache (st_alloc e3) (acache e3)) (\<lambda>ac. Inr (e3\<lparr>acache := ac\<rparr>))))"

text \<open>The output pages, spliced together for the output: the first four become the sections again, the
  rest is freed.\<close>

definition xd3_encode_reset :: "'sec xd3_encoder \<Rightarrow> 'sec xd3_encoder" where
  "xd3_encode_reset e =
    (let e1 = e\<lparr>next_in := [], small_reset := True\<rparr>;
         e2 = (case src e1 of
                 None \<Rightarrow> e1
               | Some sr \<Rightarrow>
                   e1\<lparr>src := Some (sr\<lparr>srcbase := 0, srclen := 0\<rparr>), srcwin_decided := False,
                      srcwin_decided_early := False, match_minaddr := 0, match_maxaddr := 0, taroff := 0\<rparr>) in
     e2\<lparr>enc_hdr := [[]], enc_data := [[]], enc_inst := [[]], enc_addr := [[]],
        enc_free := xd3_freelist_output (enc_free e2) (drop 4 (enc_hdr e))\<rparr>)"

end
