(* ===== verification/Xd3Match.thy ===== *)
theory Xd3Match
  imports Xd3EncodeWindow
begin

text \<open>
  The string matcher of the encoder (\<open>xdelta3.c\<close>, from \<open>xd3_string_match_init\<close> to the template of
  \<open>xd3_string_match\<close>): the search for a match in the source, in the window and for a run at each
  position of the window, with the hash tables it keeps. An operation that may wait for a block of the
  source returns a code and the stream, as the decoder's. \<open>Fault\<close> stands for a read outside an object.
\<close>

unbundle bit_operations_syntax

definition XD3_NOCOMPRESS :: nat where "XD3_NOCOMPRESS = 2 ^ 13"
definition XD3_BEGREEDY :: nat where "XD3_BEGREEDY = 2 ^ 14"
definition HASH_CKOFFSET :: nat where "HASH_CKOFFSET = 1"
definition MIN_RUN :: nat where "MIN_RUN = 8"
definition USIZE_T_MAX :: nat where "USIZE_T_MAX = 2 ^ 64 - 1"

definition DO_SMALL :: "'sec xd3_encoder \<Rightarrow> bool" where
  "DO_SMALL e \<longleftrightarrow> \<not> flag (st_flags e) XD3_NOCOMPRESS"

definition DO_LARGE :: "'sec xd3_encoder \<Rightarrow> bool" where
  "DO_LARGE e \<longleftrightarrow> src e \<noteq> None"

section \<open>Tables\<close>

text \<open>\<open>xd3_alloc0\<close> of a table of words.\<close>

definition zero_table :: "'sec xd3_encoder \<Rightarrow> nat \<Rightarrow> xd3_rvalue + nat list" where
  "zero_table e n = (case st_alloc e n 8 of None \<Rightarrow> Inl ENOMEM | Some _ \<Rightarrow> Inr (replicate n 0))"

definition xd3_string_match_init :: "'sec xd3_encoder \<Rightarrow> xd3_rvalue + 'sec xd3_encoder" where
  "xd3_string_match_init e =
    sum_bind
      (if DO_LARGE e \<and> large_table e = None
       then sum_bind (zero_table e (cfg_size (large_hash e))) (\<lambda>t. Inr (e\<lparr>large_table := Some t\<rparr>))
       else Inr e) (\<lambda>e1.
    if DO_SMALL e1 then
      (case small_table e1 of
         Some t \<Rightarrow>
           Inr (if small_reset e1
                then e1\<lparr>small_reset := False, small_table := Some (replicate (cfg_size (small_hash e1)) 0)\<rparr>
                else e1)
       | None \<Rightarrow>
           sum_bind (zero_table e1 (cfg_size (small_hash e1))) (\<lambda>t.
           let e2 = e1\<lparr>small_table := Some t\<rparr> in
           if 1 < small_lchain (smatcher e2) \<or> 1 < small_chain (smatcher e2) then
             (case st_alloc e2 (sprevsz e2) 8 of
                None \<Rightarrow> Inl ENOMEM
              | Some f \<Rightarrow> Inr (e2\<lparr>small_prev := Some (map f [0..<sprevsz e2])\<rparr>))
           else Inr e2))
    else Inr e1)"

text \<open>\<open>xd3_scksum_insert\<close>: an index outside a table is a fault.\<close>

definition xd3_scksum_insert :: "'sec xd3_encoder \<Rightarrow> nat \<Rightarrow> nat \<Rightarrow> xd3_rvalue + 'sec xd3_encoder" where
  "xd3_scksum_insert e inx pos =
    (case small_table e of
       None \<Rightarrow> Inl Fault
     | Some tbl \<Rightarrow>
         (case fetch tbl inx of
            None \<Rightarrow> Inl Fault
          | Some last_pos \<Rightarrow>
              let k = pos AND sprevmask e;
                  e1 = e\<lparr>small_table := Some (tbl[inx := add64 pos HASH_CKOFFSET])\<rparr> in
              case small_prev e of
                None \<Rightarrow> Inr e1
              | Some prev \<Rightarrow> if length prev \<le> k then Inl Fault else Inr (e1\<lparr>small_prev := Some (prev[k := last_pos])\<rparr>)))"

section \<open>Comparing\<close>

text \<open>\<open>xd3_forward_match\<close> on unaligned words of four bytes: eight comparisons in a round, and then the
  bytes from the last word compared on.\<close>

definition int_at :: "bytes \<Rightarrow> nat \<Rightarrow> bytes" where
  "int_at s i = take 4 (drop (4 * i) s)"

fun ints_equal :: "nat \<Rightarrow> bytes \<Rightarrow> bytes \<Rightarrow> nat \<Rightarrow> bool \<times> nat" where
  "ints_equal 0 s1 s2 i = (True, i)"
| "ints_equal (Suc k) s1 s2 i = (if int_at s1 i = int_at s2 i then ints_equal k s1 s2 (i + 1) else (False, i + 1))"

lemma ints_equal_index: "ints_equal k s1 s2 i = (b, i') \<Longrightarrow> i' \<le> i + k \<and> (b \<longrightarrow> i' = i + k)"
  by (induction k s1 s2 i rule: ints_equal.induct) (auto split: if_splits)

function ints_loop :: "bytes \<Rightarrow> bytes \<Rightarrow> nat \<Rightarrow> nat \<Rightarrow> nat" where
  "ints_loop s1 s2 nint_8 i =
    (if i \<le> nint_8 then
       (case ints_equal 8 s1 s2 i of
          (True, i') \<Rightarrow> ints_loop s1 s2 nint_8 i'
        | (False, i') \<Rightarrow> i')
     else i)"
  by pat_completeness auto
termination
  by (relation "measure (\<lambda>(s1, s2, nint_8, i). nint_8 + 1 - i)") (auto dest!: ints_equal_index [OF sym])

declare ints_loop.simps [simp del]

text \<open>The loops on bytes: the number of equal ones at the start of two strings.\<close>

fun equal_bytes :: "bytes \<Rightarrow> bytes \<Rightarrow> nat" where
  "equal_bytes (x # xs) (y # ys) = (if x = y then Suc (equal_bytes xs ys) else 0)"
| "equal_bytes xs ys = 0"

definition xd3_forward_match :: "bytes \<Rightarrow> bytes \<Rightarrow> nat \<Rightarrow> nat" where
  "xd3_forward_match s1c s2c n =
    (let nint = n div 4;
         i = (if nint div 8 \<noteq> 0 then (ints_loop s1c s2c (nint - 8) 0 - 1) * 4 else 0) in
     i + equal_bytes (take (n - i) (drop i s1c)) (take (n - i) (drop i s2c)))"

section \<open>Source matches\<close>

text \<open>\<open>xd3_source_match_setup\<close> for the stream's source: \<open>True\<close> for the return of 0.\<close>

definition match_found :: "nat \<Rightarrow> 'sec xd3_encoder \<Rightarrow> bool \<times> 'sec xd3_encoder" where
  "match_found srcpos e =
    (True, e\<lparr>match_state := MATCH_BACKWARD, match_srcpos := srcpos, match_last_srcpos := srcpos\<rparr>)"

definition match_refused :: "nat \<Rightarrow> 'sec xd3_encoder \<Rightarrow> bool \<times> 'sec xd3_encoder" where
  "match_refused srcpos e = (False, e\<lparr>match_state := MATCH_SEARCHING, match_last_srcpos := srcpos\<rparr>)"

definition xd3_source_match_setup :: "'sec xd3_encoder \<Rightarrow> xd3_source \<Rightarrow> nat \<Rightarrow> bool \<times> 'sec xd3_encoder" where
  "xd3_source_match_setup e0 sr srcpos =
    (let e = e0\<lparr>match_maxback := 0, match_maxfwd := 0, match_back := 0, match_fwd := 0\<rparr> in
     if srcpos \<noteq> 0 \<and> srcpos = match_last_srcpos e then match_refused srcpos e
     else if srcpos < srcwin_cksum_pos e \<and> max_winsize sr < sub64 (srcwin_cksum_pos e) srcpos
     then match_refused srcpos e
     else
       let greedy_or_not =
             (if flag (st_flags e) XD3_BEGREEDY then xd3_iopt_last_matched e else unencoded_offset e);
           maxback = sub64 (input_position e) greedy_or_not;
           maxfwd = sub64 (length (next_in e)) (input_position e) in
       if \<not> srcwin_decided e then
         match_found srcpos (e\<lparr>match_maxback := min srcpos maxback,
           match_maxfwd := (if eof_known sr then min (sub64 (xd3_source_eof sr) srcpos) maxfwd else maxfwd)\<rparr>)
       else if srcpos < srcbase sr \<or> add64 (srcbase sr) (srclen sr) < srcpos then
         match_refused srcpos (e\<lparr>match_maxback := maxback, match_maxfwd := maxfwd\<rparr>)
       else
         match_found srcpos (e\<lparr>match_maxback := min (sub64 srcpos (srcbase sr)) maxback,
           match_maxfwd := min (sub64 (add64 (srcbase sr) (srclen sr)) srcpos) maxfwd\<rparr>))"

text \<open>The loops of \<open>xd3_source_extend_match\<close> are left by a return or for one of the labels \<open>doneback\<close>
  and \<open>donefwd\<close>.\<close>

datatype extend_exit = Doneback | Donefwd | Return xd3_rvalue

text \<open>The bytes before \<open>tryoff\<close> in the block and before \<open>streamoff\<close> in the input: the number of equal ones
  among at most \<open>tryrem\<close>, \<open>None\<close> for a read before the start.\<close>

fun back_run :: "nat \<Rightarrow> bytes \<Rightarrow> nat \<Rightarrow> bytes \<Rightarrow> nat \<Rightarrow> nat option" where
  "back_run 0 blk tryoff inp streamoff = Some 0"
| "back_run (Suc tryrem) blk tryoff inp streamoff =
    (if tryoff = 0 \<or> streamoff = 0 \<or> length blk < tryoff \<or> length inp < streamoff then None
     else if blk ! (tryoff - 1) \<noteq> inp ! (streamoff - 1) then Some 0
     else map_option Suc (back_run tryrem blk (tryoff - 1) inp (streamoff - 1)))"

partial_function (option) back_loop ::
    "nat \<Rightarrow> nat \<Rightarrow> 'sec xd3_encoder \<Rightarrow> (extend_exit \<times> 'sec xd3_encoder) option" where
  "back_loop tryblk tryoff e =
    (if match_maxback e \<le> match_back e then Some (Doneback, e)
     else
       case src e of
         None \<Rightarrow> Some (Return Fault, e)
       | Some sr \<Rightarrow>
           let (blk, off) = (if tryoff = 0 then (sub64 tryblk 1, blksize sr) else (tryblk, tryoff));
               (ret, sr1) = xd3_getblk (st_getblk e) sr blk;
               e1 = e\<lparr>src := Some sr1\<rparr> in
           case ret of
             Some err \<Rightarrow>
               if err = XD3_TOOFARBACK then Some (if match_back e = 0 then Donefwd else Doneback, e1)
               else Some (Return err, e1)
           | None \<Rightarrow>
               let tryrem = min off (match_maxback e1 - match_back e1) in
               case curblk sr1 of
                 None \<Rightarrow> Some (Return Fault, e1)
               | Some b \<Rightarrow>
                   (case back_run tryrem b off (next_in e1) (sub64 (input_position e1) (match_back e1)) of
                      None \<Rightarrow> Some (Return Fault, e1)
                    | Some n \<Rightarrow>
                        let e2 = e1\<lparr>match_back := match_back e1 + n\<rparr> in
                        if n < tryrem then Some (Doneback, e2) else back_loop blk (off - n) e2))"

partial_function (option) fwd_loop ::
    "nat \<Rightarrow> nat \<Rightarrow> 'sec xd3_encoder \<Rightarrow> (extend_exit \<times> 'sec xd3_encoder) option" where
  "fwd_loop tryblk tryoff e =
    (if match_maxfwd e \<le> match_fwd e then Some (Donefwd, e)
     else
       case src e of
         None \<Rightarrow> Some (Return Fault, e)
       | Some sr \<Rightarrow>
           let (blk, off) = (if tryoff = blksize sr then (add64 tryblk 1, 0) else (tryblk, tryoff));
               (ret, sr1) = xd3_getblk (st_getblk e) sr blk;
               e1 = e\<lparr>src := Some sr1\<rparr> in
           case ret of
             Some err \<Rightarrow> if err = XD3_TOOFARBACK then Some (Donefwd, e1) else Some (Return err, e1)
           | None \<Rightarrow>
               let tryrem = min (match_maxfwd e1 - match_fwd e1) (sub64 (onblk sr1) off);
                   streamoff = add64 (input_position e1) (match_fwd e1) in
               if tryrem = 0 then Some (Donefwd, e1)
               else
                 case curblk sr1 of
                   None \<Rightarrow> Some (Return Fault, e1)
                 | Some b \<Rightarrow>
                     if length b < off + tryrem \<or> length (next_in e1) < streamoff + tryrem then Some (Return Fault, e1)
                     else
                       let matched = xd3_forward_match (drop off b) (drop streamoff (next_in e1)) tryrem;
                           e2 = e1\<lparr>match_fwd := match_fwd e1 + matched\<rparr> in
                       if tryrem \<noteq> matched then Some (Donefwd, e2) else fwd_loop blk (off + matched) e2)"

declare back_loop.simps [code] fwd_loop.simps [code]

text \<open>The part from the label \<open>donefwd\<close> on.\<close>

definition take_match :: "'sec xd3_encoder \<Rightarrow> 'sec xd3_encoder result" where
  "take_match e0 =
    (let e = e0\<lparr>match_state := MATCH_SEARCHING\<rparr> in
     if match_fwd e < min_match e then (None, e\<lparr>match_fwd := 0\<rparr>)
     else
       let target_position = sub64 (input_position e) (match_back e);
           match_len = add64 (match_back e) (match_fwd e);
           match_position = sub64 (match_srcpos e) (match_back e);
           match_end = add64 (match_srcpos e) (match_fwd e);
           e1 = (if 0 < match_back e then xd3_iopt_erase e target_position else e);
           e2 = e1\<lparr>match_back := 0,
                   match_minaddr := (if match_maxaddr e1 = 0 \<or> match_position < match_minaddr e1 then match_position
                                     else match_minaddr e1),
                   match_maxaddr := max match_end (match_maxaddr e1),
                   maxsrcaddr := max match_end (maxsrcaddr e1)\<rparr> in
       stepwise (xd3_found_match e2 target_position match_len match_position True) e2 (\<lambda>e3.
         (None, if add64 target_position match_len = length (next_in e3)
                then e3\<lparr>match_state := MATCH_TARGET, match_srcpos := match_end\<rparr> else e3)))"

definition xd3_source_extend_match :: "'sec xd3_encoder \<Rightarrow> 'sec xd3_encoder result option" where
  "xd3_source_extend_match e =
    (case src e of
       None \<Rightarrow> Some (Some Fault, e)
     | Some sr \<Rightarrow>
         do {
           (exit, e1) \<leftarrow>
             (if match_state e = MATCH_BACKWARD then
                (let (blk, off) = xd3_blksize_div (sub64 (match_srcpos e) (match_back e)) sr in back_loop blk off e)
              else Some (Doneback, e));
           case exit of
             Return err \<Rightarrow> Some (Some err, e1)
           | Donefwd \<Rightarrow> Some (take_match e1)
           | Doneback \<Rightarrow>
               let e2 = e1\<lparr>match_state := MATCH_FORWARD\<rparr>;
                   (blk, off) = xd3_blksize_div (add64 (match_srcpos e2) (match_fwd e2)) sr in
               do {
                 (exit2, e3) \<leftarrow> fwd_loop blk off e2;
                 case exit2 of
                   Return err \<Rightarrow> Some (Some err, e3)
                 | _ \<Rightarrow> Some (take_match e3)
               }
         })"

section \<open>Target matches\<close>

text \<open>The loop over the chain: \<open>best\<close> is the longest match so far and its position. \<open>chain\<close> is decremented
  before it is tested, so a chain of 0 goes round.\<close>

lemma chain_less: "0 < sub64 chain (Suc 0) \<Longrightarrow> chain \<noteq> 0 \<Longrightarrow> sub64 chain (Suc 0) < chain"
proof -
  assume "chain \<noteq> 0"
  then have "(int chain - 1) mod 2 ^ 64 \<le> int chain - 1" by (intro zmod_le_nonneg_dividend) simp
  then show "sub64 chain (Suc 0) < chain" using \<open>chain \<noteq> 0\<close> by (simp add: sub64_def nat_less_iff)
qed

lemma sub64_less' [simp]: "sub64 a b < 18446744073709551616"
  using sub64_less [of a b] by simp

function smatch_loop ::
    "'sec xd3_encoder \<Rightarrow> nat \<Rightarrow> nat \<Rightarrow> nat \<times> nat \<Rightarrow> (nat \<times> nat) option" where
  "smatch_loop e base chain best =
    (if length (next_in e) < base \<or> input_position e < base then None
     else
       let cmp_len = equal_bytes (drop (input_position e) (next_in e)) (drop base (next_in e));
           best' = (if fst best < cmp_len then (cmp_len, base) else best);
           stop = (fst best < cmp_len \<and>
             (input_position e + cmp_len = length (next_in e) \<or> long_enough (smatcher e) \<le> cmp_len)) in
       if stop then Some best'
       else if sub64 chain 1 = 0 then Some best'
       else
         case small_prev e of
           None \<Rightarrow> None
         | Some prev \<Rightarrow>
             (case fetch prev (base AND sprevmask e) of
                None \<Rightarrow> None
              | Some prev_pos \<Rightarrow>
                  if prev_pos = 0 then Some best'
                  else if base < prev_pos - HASH_CKOFFSET then Some best'
                  else if sub64 (input_position e) (prev_pos - HASH_CKOFFSET) AND sub64 (2 ^ 64 - 1) (sprevmask e) \<noteq> 0
                  then Some best'
                  else smatch_loop e (prev_pos - HASH_CKOFFSET) (sub64 chain 1) best'))"
  by pat_completeness auto
termination
  by (relation "measure (\<lambda>(e, base, chain, best). if chain = 0 then 2 ^ 64 else chain)") (auto simp: chain_less)

declare smatch_loop.simps [simp del]

definition xd3_smatch :: "'sec xd3_encoder \<Rightarrow> nat \<Rightarrow> (nat \<times> nat) option" where
  "xd3_smatch e base =
    do {
      let chain = (if min_match e = MIN_MATCH then small_chain (smatcher e) else small_lchain (smatcher e));
      (len, offset) \<leftarrow> smatch_loop e (sub64 base HASH_CKOFFSET) chain (0, 0);
      let dist = sub64 (input_position e) offset;
      Some (if len = 4 \<and> 2 ^ 14 \<le> dist then 0 else if len = 5 \<and> 2 ^ 21 \<le> dist then 0 else len, offset)
    }"


section \<open>Indexing the source\<close>

text \<open>The checksums of a block, from its end: a step of 0, which the configuration refuses, is a fault.\<close>

function index_block ::
    "'sec xd3_encoder \<Rightarrow> bytes \<Rightarrow> nat \<Rightarrow> nat \<Rightarrow> nat \<Rightarrow> nat list \<Rightarrow> nat list option" where
  "index_block e blk base oldpos blkpos tbl =
    (let look = large_look (smatcher e);
         step = large_step (smatcher e);
         hval = xd3_checksum_hash (large_hash e) (xd3_large_cksum (large_hash e) (drop blkpos blk) look) in
     if length blk < blkpos + look \<or> length tbl \<le> hval \<or> step = 0 then None
     else
       let tbl' = tbl[hval := add64 base (add64 blkpos HASH_CKOFFSET)] in
       if oldpos + step \<le> blkpos then index_block e blk base oldpos (blkpos - step) tbl' else Some tbl')"
  by pat_completeness auto
termination
  by (relation "measure (\<lambda>(e, blk, base, oldpos, blkpos, tbl). blkpos)") auto

declare index_block.simps [simp del]

text \<open>The loop of \<open>xd3_srcwin_move_point\<close> over the blocks; \<open>None\<close> when it does not end.\<close>

partial_function (option) move_loop ::
    "nat \<Rightarrow> 'sec xd3_encoder \<Rightarrow> 'sec xd3_encoder result option" where
  "move_loop target_cksum_pos e =
    (case src e of
       None \<Rightarrow> Some (Some Fault, e)
     | Some sr \<Rightarrow>
         if srcwin_cksum_pos e < target_cksum_pos \<and> (\<not> eof_known sr \<or> srcwin_cksum_pos e < xd3_source_eof sr) then
           (let (blkno, oldpos) = xd3_blksize_div (srcwin_cksum_pos e) sr;
                (ret, sr1) = xd3_getblk (st_getblk e) sr blkno;
                e1 = e\<lparr>src := Some sr1\<rparr>;
                blkpos = xd3_bytes_on_srcblk sr1 blkno;
                e2 = e1\<lparr>srcwin_cksum_pos := (blkno + 1) * blksize sr1 mod 2 ^ 64\<rparr> in
            case ret of
              Some err \<Rightarrow> Some (Some (if err = XD3_TOOFARBACK then XD3_INTERNAL else err), e1)
            | None \<Rightarrow>
                if blkpos < large_look (smatcher e) then move_loop target_cksum_pos e2
                else
                  case (curblk sr1, large_table e1) of
                    (Some b, Some tbl) \<Rightarrow>
                      (case index_block e1 b (blksize sr1 * blkno mod 2 ^ 64) oldpos (blkpos - large_look (smatcher e)) tbl of
                         None \<Rightarrow> Some (Some Fault, e1)
                       | Some tbl' \<Rightarrow> move_loop target_cksum_pos (e2\<lparr>large_table := Some tbl'\<rparr>))
                  | _ \<Rightarrow> Some (Some Fault, e1))
         else Some (None, e))"

declare move_loop.simps [code]

text \<open>How far the source is to be indexed.\<close>

definition cksum_target :: "'sec xd3_encoder \<Rightarrow> xd3_source \<Rightarrow> nat" where
  "cksum_target e sr =
    (let absolute_input_pos = add64 (total_in e) (input_position e) in
     if absolute_input_pos < max_winsize sr div 2 then max_winsize sr
     else (absolute_input_pos + max_winsize sr div 2 + blksize sr * 2) mod 2 ^ 64 AND sub64 (2 ^ 64 - 1) (maskby sr))"

text \<open>\<open>xd3_srcwin_move_point\<close>; the result has the next move point, which an error leaves as it was.\<close>

definition xd3_srcwin_move_point ::
    "nat \<Rightarrow> 'sec xd3_encoder \<Rightarrow> (xd3_rvalue option \<times> 'sec xd3_encoder \<times> nat) option" where
  "xd3_srcwin_move_point next_move_point e =
    (case src e of
       None \<Rightarrow> Some (Some Fault, e, next_move_point)
     | Some sr \<Rightarrow>
         if eof_known sr \<and> srcwin_cksum_pos e = xd3_source_eof sr then Some (None, e, USIZE_T_MAX)
         else
           let e1 = e\<lparr>srcwin_cksum_pos := max (maxsrcaddr e) (srcwin_cksum_pos e)\<rparr>;
               target = max (cksum_target e sr) (srcwin_cksum_pos e1) in
           do {
             (ret, e2) \<leftarrow> move_loop target e1;
             case (ret, src e2) of
               (Some err, _) \<Rightarrow> Some (Some err, e2, next_move_point)
             | (None, None) \<Rightarrow> Some (Some Fault, e2, next_move_point)
             | (None, Some sr2) \<Rightarrow>
                 if eof_known sr2 \<and> xd3_source_eof sr2 \<le> srcwin_cksum_pos e2
                 then Some (None, e2\<lparr>srcwin_cksum_pos := xd3_source_eof sr2\<rparr>, USIZE_T_MAX)
                 else Some (None, e2, sub64 (add64 (input_position e2) (blksize sr2))
                                        (sub64 (srcwin_cksum_pos e2) target AND maskby sr2))
           })"

section \<open>The loop over the input\<close>

text \<open>The local variables of \<open>xd3_string_match\<close>; its \<open>inp\<close> is always the input from \<open>input_position\<close> on.\<close>

record match_vars =
  scksum :: u32
  scksum_state :: u32
  lcksum :: u64
  run_v :: "nat \<times> u8"
  next_move_point :: nat

text \<open>Where the code stands: before the loop, at the label \<open>restartloop\<close>, at the top of the loop, or
  out of it.\<close>

datatype 'e string_step = Stop "xd3_rvalue option" 'e | Restart nat 'e | Body match_vars 'e

definition input_rest :: "'sec xd3_encoder \<Rightarrow> bytes" where
  "input_rest e = drop (input_position e) (next_in e)"

definition SLOOK :: "'sec xd3_encoder \<Rightarrow> nat" where "SLOOK e = small_look (smatcher e)"
definition LLOOK :: "'sec xd3_encoder \<Rightarrow> nat" where "LLOOK e = large_look (smatcher e)"

definition restart_step :: "nat \<Rightarrow> 'sec xd3_encoder \<Rightarrow> 'sec xd3_encoder string_step option" where
  "restart_step move_point e0 =
    (if length (next_in e0) < input_position e0 + SLOOK e0 then Some (Stop None e0)
     else
       let last = xd3_iopt_last_matched e0;
           e = e0\<lparr>min_match := (if input_position e0 < last then max MIN_MATCH (1 + last - input_position e0)
                               else MIN_MATCH)\<rparr>;
           (state, sck) = (if DO_SMALL e then xd3_scksum (input_rest e) else (0, 0));
           vars = \<lparr>scksum = sck, scksum_state = state, lcksum = 0, run_v = xd3_comprun (input_rest e) (SLOOK e),
                   next_move_point = move_point\<rparr> in
       if DO_LARGE e \<and> input_position e + LLOOK e \<le> length (next_in e) then
         do {
           (ret, e1, mp) \<leftarrow> xd3_srcwin_move_point move_point e;
           Some (case ret of
                   Some err \<Rightarrow> Stop (Some err) e1
                 | None \<Rightarrow> Body (vars\<lparr>lcksum := xd3_large_cksum (large_hash e1) (input_rest e1) (LLOOK e1),
                                     next_move_point := mp\<rparr>) e1)
         }
       else Some (Body vars e))"

text \<open>The label \<open>updateone\<close> up to the next round of the loop.\<close>

definition updateone :: "match_vars \<Rightarrow> 'sec xd3_encoder \<Rightarrow> 'sec xd3_encoder string_step" where
  "updateone v e =
    (if input_position e + SLOOK e = length (next_in e) then Stop None e
     else if length (input_rest e) \<le> SLOOK e then Stop (Some Fault) e
     else
       let v1 = v\<lparr>run_v := NEXTRUN (input_rest e ! SLOOK e) (run_v v)\<rparr>;
           v2 = (if DO_SMALL e then
                   (let (state, sck) = xd3_small_cksum_update (scksum_state v1) (input_rest e) in
                    v1\<lparr>scksum := sck, scksum_state := state\<rparr>) else v1);
           v3 = (if DO_LARGE e \<and> input_position e + LLOOK e < length (next_in e)
                 then v2\<lparr>lcksum := xd3_large_cksum_update (large_hash e) (lcksum v2) (input_rest e) (LLOOK e)\<rparr> else v2) in
       Body v3 (e\<lparr>input_position := input_position e + 1\<rparr>))"

definition HANDLELAZY :: "nat \<Rightarrow> match_vars \<Rightarrow> 'sec xd3_encoder \<Rightarrow> 'sec xd3_encoder string_step" where
  "HANDLELAZY mlen v e =
    (let maxlazy = max_lazy (smatcher e) in
     if 0 < maxlazy \<and> mlen < maxlazy \<and> add64 (input_position e) mlen \<le> sub64 (length (next_in e)) 2
     then updateone v (e\<lparr>min_match := mlen\<rparr>)
     else Restart (next_move_point v) (e\<lparr>input_position := add64 (input_position e) mlen\<rparr>))"

text \<open>The three kinds of match, each with the rest of the loop body.\<close>

definition run_part ::
    "match_vars \<Rightarrow> 'sec xd3_encoder \<Rightarrow>
      (match_vars \<Rightarrow> 'sec xd3_encoder \<Rightarrow> 'sec xd3_encoder string_step option) \<Rightarrow> 'sec xd3_encoder string_step option" where
  "run_part v e rest =
    (if fst (run_v v) = SLOOK e then
       (let run_c = snd (run_v v);
            run_l = fst (run_v v) + length (takeWhile (\<lambda>c. c = run_c) (drop (fst (run_v v)) (input_rest e)));
            v1 = v\<lparr>run_v := (run_l, run_c)\<rparr> in
        if min_match e \<le> run_l \<and> MIN_RUN \<le> run_l then
          Some (case xd3_emit_run e (input_position e) run_l run_c of
                  Inl err \<Rightarrow> Stop (Some err) e
                | Inr e1 \<Rightarrow> HANDLELAZY run_l v1 e1)
        else rest v1 e)
     else rest v e)"

definition large_part ::
    "match_vars \<Rightarrow> 'sec xd3_encoder \<Rightarrow>
      (match_vars \<Rightarrow> 'sec xd3_encoder \<Rightarrow> 'sec xd3_encoder string_step option) \<Rightarrow> 'sec xd3_encoder string_step option" where
  "large_part v e rest =
    (if DO_LARGE e \<and> input_position e + LLOOK e \<le> length (next_in e) then
       do {
         (ret, e1, mp) \<leftarrow> (if next_move_point v \<le> input_position e then xd3_srcwin_move_point (next_move_point v) e
                          else Some (None, e, next_move_point v));
         let v1 = v\<lparr>next_move_point := mp\<rparr>;
         case ret of
           Some err \<Rightarrow> Some (Stop (Some err) e1)
         | None \<Rightarrow>
             (case (large_table e1, src e1) of
                (Some tbl, Some sr) \<Rightarrow>
                  (case fetch tbl (xd3_checksum_hash (large_hash e1) (lcksum v1)) of
                     None \<Rightarrow> Some (Stop (Some Fault) e1)
                   | Some entry \<Rightarrow>
                       if entry = 0 then rest v1 e1
                       else
                         case xd3_source_match_setup e1 sr (entry - HASH_CKOFFSET) of
                           (False, e2) \<Rightarrow> rest v1 e2
                         | (True, e2) \<Rightarrow>
                             do {
                               (ret2, e3) \<leftarrow> xd3_source_extend_match e2;
                               case ret2 of
                                 Some err \<Rightarrow> Some (Stop (Some err) e3)
                               | None \<Rightarrow> if 0 < match_fwd e3 then Some (HANDLELAZY (match_fwd e3) v1 e3) else rest v1 e3
                             })
              | _ \<Rightarrow> Some (Stop (Some Fault) e1))
       }
     else rest v e)"

definition small_part ::
    "match_vars \<Rightarrow> 'sec xd3_encoder \<Rightarrow>
      (match_vars \<Rightarrow> 'sec xd3_encoder \<Rightarrow> 'sec xd3_encoder string_step option) \<Rightarrow> 'sec xd3_encoder string_step option" where
  "small_part v e rest =
    (if DO_SMALL e then
       (let sinx = xd3_checksum_hash (small_hash e) (ucast (scksum v)) in
        case (case small_table e of None \<Rightarrow> None | Some tbl \<Rightarrow> fetch tbl sinx) of
          None \<Rightarrow> Some (Stop (Some Fault) e)
        | Some entry \<Rightarrow>
            (case (if entry \<noteq> 0 then xd3_smatch e entry else Some (0, 0)) of
               None \<Rightarrow> Some (Stop (Some Fault) e)
             | Some (mlen, match_offset) \<Rightarrow>
                 (case xd3_scksum_insert e sinx (input_position e) of
                    Inl err \<Rightarrow> Some (Stop (Some err) e)
                  | Inr e1 \<Rightarrow>
                      if min_match e1 \<le> mlen then
                        Some (case xd3_found_match e1 (input_position e1) mlen match_offset False of
                                Inl err \<Rightarrow> Stop (Some err) e1
                              | Inr e2 \<Rightarrow> HANDLELAZY mlen v e2)
                      else rest v e1)))
     else rest v e)"

definition body_step :: "match_vars \<Rightarrow> 'sec xd3_encoder \<Rightarrow> 'sec xd3_encoder string_step option" where
  "body_step v e =
    run_part v e (\<lambda>v e. large_part v e (\<lambda>v e. small_part v e (\<lambda>v e.
      Some (updateone v (if MIN_MATCH < min_match e then e\<lparr>min_match := min_match e - 1\<rparr> else e)))))"

partial_function (option) match_loop :: "'sec xd3_encoder string_step \<Rightarrow> 'sec xd3_encoder result option" where
  "match_loop st =
    (case st of
       Stop ret e \<Rightarrow> Some (ret, e)
     | Restart mp e \<Rightarrow> (case restart_step mp e of None \<Rightarrow> None | Some st' \<Rightarrow> match_loop st')
     | Body v e \<Rightarrow> (case body_step v e of None \<Rightarrow> None | Some st' \<Rightarrow> match_loop st'))"

declare match_loop.simps [code]

definition xd3_string_match :: "'sec xd3_encoder \<Rightarrow> 'sec xd3_encoder result option" where
  "xd3_string_match e =
    (if length (next_in e) < input_position e + SLOOK e then Some (None, e)
     else
       case xd3_string_match_init e of
         Inl err \<Rightarrow> Some (Some err, e)
       | Inr e1 \<Rightarrow> match_loop (Restart 0 e1))"

end
