(* ===== verification/Xd3DecodeRun.thy ===== *)
theory Xd3DecodeRun
  imports Xd3DecodeSafe
begin

text \<open>
  What the decoder does on the sections of a window that stand for the window: a half-instruction is
  described by its bytes in the three sections and by the part of the window it stands for, and
  \<open>xd3_decode_emit\<close> runs through a section of such instructions, whatever follows them, as the
  machine code of a compiled program is run.
\<close>

unbundle bit_operations_syntax

section \<open>A window\<close>

text \<open>The bytes of the window, the source, and the part of the source that copies may use.\<close>

record vcd_window =
  w_target :: bytes
  w_source :: bytes
  w_base :: nat
  w_len :: nat

definition window_ok :: "vcd_window \<Rightarrow> bool" where
  "window_ok w \<longleftrightarrow> w_len w + length (w_target w) < 2 ^ 63 \<and> length (w_source w) < 2 ^ 63 \<and>
    (0 < w_len w \<longrightarrow> w_base w + w_len w \<le> length (w_source w))"

text \<open>The bytes of the window a copy from \<open>addr\<close> of the combined window gives.\<close>

definition copies :: "vcd_window \<Rightarrow> nat \<Rightarrow> nat \<Rightarrow> nat \<Rightarrow> bool" where
  "copies w p sz addr \<longleftrightarrow> addr < w_len w + p \<and>
    (addr < w_len w \<longrightarrow> addr + sz \<le> w_len w \<and>
       take sz (drop p (w_target w)) = take sz (drop (w_base w + addr) (w_source w))) \<and>
    (w_len w \<le> addr \<longrightarrow> (\<forall>k < sz. w_target w ! (p + k) = w_target w ! (addr - w_len w + k)))"

text \<open>A half-instruction of type \<open>t\<close> and size \<open>sz\<close> for the bytes from \<open>p\<close> on: \<open>a\<close> are its bytes in
  the address section, \<open>d\<close> those in the data section, and the cache goes from \<open>c\<close> to \<open>c'\<close>.\<close>

definition half_for ::
    "vcd_window \<Rightarrow> nat \<Rightarrow> u8 \<Rightarrow> nat \<Rightarrow> addr_cache \<Rightarrow> bytes \<Rightarrow> bytes \<Rightarrow> nat \<Rightarrow> addr_cache \<Rightarrow> bool" where
  "half_for w p t sz c a d addr c' \<longleftrightarrow> 0 < sz \<and> p + sz \<le> length (w_target w) \<and>
    (if t = XD3_ADD then a = [] \<and> c' = c \<and> d = take sz (drop p (w_target w))
     else if t = XD3_RUN then a = [] \<and> c' = c \<and> (\<exists>b. d = [b] \<and> take sz (drop p (w_target w)) = replicate sz b)
     else XD3_CPY \<le> t \<and> d = [] \<and> copies w p sz addr \<and>
       (\<forall>rest. xd3_decode_address c (w_len w + p) (unat (t - XD3_CPY)) (a @ rest) = Inr (c', rest, addr)))"

lemma half_for_bounds: "half_for w p t sz c a d addr c' \<Longrightarrow> 0 < sz \<and> p + sz \<le> length (w_target w)"
  by (simp add: half_for_def)

lemma half_for_cases:
  assumes "half_for w p t sz c a d addr c'"
  obtains (add) "t = XD3_ADD" "a = []" "c' = c" "d = take sz (drop p (w_target w))"
  | (run) b where "t = XD3_RUN" "a = []" "c' = c" "d = [b]" "take sz (drop p (w_target w)) = replicate sz b"
  | (copy) "t \<noteq> XD3_ADD" "t \<noteq> XD3_RUN" "XD3_CPY \<le> t" "d = []" "copies w p sz addr"
      "\<And>rest. xd3_decode_address c (w_len w + p) (unat (t - XD3_CPY)) (a @ rest) = Inr (c', rest, addr)"
  using assms unfolding half_for_def by (auto split: if_splits)

lemma half_for_type: "half_for w p t sz c a d addr c' \<Longrightarrow> t \<noteq> XD3_NOOP"
  by (auto simp: half_for_def XD3_ADD_def XD3_RUN_def XD3_CPY_def XD3_NOOP_def split: if_splits)

section \<open>The decoder's state in the window\<close>

text \<open>The whole source is the source's only block.\<close>

definition memory_block :: "bytes \<Rightarrow> xd3_source \<Rightarrow> bool" where
  "memory_block bs sr \<longleftrightarrow> curblk sr = Some bs \<and> curblkno sr = 0 \<and> onblk sr = length bs \<and>
    shiftby sr < 64 \<and> blksize sr = 2 ^ shiftby sr \<and> maskby sr = 2 ^ shiftby sr - 1 \<and> length bs \<le> blksize sr \<and>
    (max_blkno sr = 0 \<longrightarrow> onlastblk sr = length bs)"

lemma getblk_memory:
  "memory_block bs sr \<Longrightarrow> xd3_getblk f sr 0 = (None, sr)"
  by (simp add: memory_block_def xd3_getblk_def)

text \<open>What holds of the stream while the window is decoded.\<close>

definition ready :: "vcd_window \<Rightarrow> 'sec xd3_stream \<Rightarrow> bool" where
  "ready w s \<longleftrightarrow> code_table s = xd3_rfc3284_code_table \<and> \<not> flag (dec_win_ind s) VCD_TARGET \<and>
    dec_cpylen s = w_len w \<and> dec_maxpos s = w_len w + length (w_target w) \<and>
    length (w_target w) \<le> space_out s \<and>
    (0 < w_len w \<longrightarrow> (\<exists>sr. src s = Some sr \<and> memory_block (w_source w) sr \<and> cpyoff_blocks sr = 0 \<and>
      cpyoff_blkoff sr = w_base w))"

definition run_state ::
    "'sec xd3_stream \<Rightarrow> bytes \<Rightarrow> addr_cache \<Rightarrow> nat \<Rightarrow> bytes \<Rightarrow> bytes \<Rightarrow> bytes \<Rightarrow> xd3_hinst \<Rightarrow> xd3_hinst \<Rightarrow>
      'sec xd3_stream" where
  "run_state s0 out c pos I A D h1 h2 =
    s0\<lparr>next_out := out, acache := c, dec_position := pos, dec_current1 := h1, dec_current2 := h2,
       inst_sect := (inst_sect s0)\<lparr>sect_buf := I\<rparr>, addr_sect := (addr_sect s0)\<lparr>sect_buf := A\<rparr>,
       data_sect := (data_sect s0)\<lparr>sect_buf := D\<rparr>\<rparr>"

lemma run_state_fields [simp]:
  "next_out (run_state s0 out c pos I A D h1 h2) = out"
  "acache (run_state s0 out c pos I A D h1 h2) = c"
  "dec_position (run_state s0 out c pos I A D h1 h2) = pos"
  "dec_current1 (run_state s0 out c pos I A D h1 h2) = h1"
  "dec_current2 (run_state s0 out c pos I A D h1 h2) = h2"
  "sect_buf (inst_sect (run_state s0 out c pos I A D h1 h2)) = I"
  "sect_buf (addr_sect (run_state s0 out c pos I A D h1 h2)) = A"
  "sect_buf (data_sect (run_state s0 out c pos I A D h1 h2)) = D"
  "code_table (run_state s0 out c pos I A D h1 h2) = code_table s0"
  "dec_win_ind (run_state s0 out c pos I A D h1 h2) = dec_win_ind s0"
  "dec_cpylen (run_state s0 out c pos I A D h1 h2) = dec_cpylen s0"
  "dec_maxpos (run_state s0 out c pos I A D h1 h2) = dec_maxpos s0"
  "space_out (run_state s0 out c pos I A D h1 h2) = space_out s0"
  "src (run_state s0 out c pos I A D h1 h2) = src s0"
  "st_getblk (run_state s0 out c pos I A D h1 h2) = st_getblk s0"
  "dec_tgtlen (run_state s0 out c pos I A D h1 h2) = dec_tgtlen s0"
  "st_flags (run_state s0 out c pos I A D h1 h2) = st_flags s0"
  "dec_adler32 (run_state s0 out c pos I A D h1 h2) = dec_adler32 s0"
  by (simp_all add: run_state_def)

lemma run_state_updates:
  "(run_state s0 out c pos I A D h1 h2)\<lparr>next_out := out'\<rparr> = run_state s0 out' c pos I A D h1 h2"
  "(run_state s0 out c pos I A D h1 h2)\<lparr>acache := c'\<rparr> = run_state s0 out c' pos I A D h1 h2"
  "(run_state s0 out c pos I A D h1 h2)\<lparr>dec_position := pos'\<rparr> = run_state s0 out c pos' I A D h1 h2"
  "(run_state s0 out c pos I A D h1 h2)\<lparr>dec_current1 := h1'\<rparr> = run_state s0 out c pos I A D h1' h2"
  "(run_state s0 out c pos I A D h1 h2)\<lparr>dec_current2 := h2'\<rparr> = run_state s0 out c pos I A D h1 h2'"
  "(run_state s0 out c pos I A D h1 h2)\<lparr>inst_sect := (inst_sect s0)\<lparr>sect_buf := I'\<rparr>\<rparr>
    = run_state s0 out c pos I' A D h1 h2"
  "(run_state s0 out c pos I A D h1 h2)\<lparr>addr_sect := (addr_sect s0)\<lparr>sect_buf := A'\<rparr>\<rparr>
    = run_state s0 out c pos I A' D h1 h2"
  "(run_state s0 out c pos I A D h1 h2)\<lparr>data_sect := (data_sect s0)\<lparr>sect_buf := D'\<rparr>\<rparr>
    = run_state s0 out c pos I A D' h1 h2"
  by (simp_all add: run_state_def)

lemma run_state_sections [simp]:
  "(inst_sect (run_state s0 out c pos I A D h1 h2))\<lparr>sect_buf := b\<rparr> = (inst_sect s0)\<lparr>sect_buf := b\<rparr>"
  "(addr_sect (run_state s0 out c pos I A D h1 h2))\<lparr>sect_buf := b\<rparr> = (addr_sect s0)\<lparr>sect_buf := b\<rparr>"
  "(data_sect (run_state s0 out c pos I A D h1 h2))\<lparr>sect_buf := b\<rparr> = (data_sect s0)\<lparr>sect_buf := b\<rparr>"
  by (simp_all add: run_state_def)

lemma run_state_source: "src s0 = Some sr \<Longrightarrow> (run_state s0 out c pos I A D h1 h2)\<lparr>src := Some sr\<rparr> = run_state s0 out c pos I A D h1 h2"
  by (simp add: run_state_def)

section \<open>Half-instructions\<close>

lemma parse_half:
  assumes w: "window_ok w" "ready w s0" and half: "half_for w p t sz c a d addr c'"
    and h: "htype h = t" "hsize h = sz \<and> zb = [] \<or> hsize h = 0 \<and> zb = xd3_emit_uint64 sz"
  shows "\<exists>h'. htype h' = t \<and> hsize h' = sz \<and> (XD3_CPY \<le> t \<longrightarrow> haddr h' = addr) \<and>
    xd3_decode_parse_halfinst (run_state s0 out c (w_len w + p) (zb @ I) (a @ A) D h1 h2) h =
      Inr (run_state s0 out c' (w_len w + (p + sz)) I A D h1 h2, h')"
proof -
  note b = half_for_bounds [OF half]
  have lens: "w_len w + (p + sz) < 2 ^ 64" "sz < 2 ^ 64" using w(1) b by (auto simp: window_ok_def)
  have maxpos: "dec_maxpos s0 = w_len w + length (w_target w)" "dec_cpylen s0 = w_len w"
    using w(2) by (auto simp: ready_def)
  define h2' where "h2' = h\<lparr>hsize := sz\<rparr>"
  have size: "(if hsize h = 0 then
         (case xd3_read_uint64 (sect_buf (inst_sect (run_state s0 out c (w_len w + p) (zb @ I) (a @ A) D h1 h2))) of
            Inl e \<Rightarrow> Inl XD3_INVALID_INPUT
          | Inr (val, rest) \<Rightarrow>
              Inr ((run_state s0 out c (w_len w + p) (zb @ I) (a @ A) D h1 h2)\<lparr>inst_sect :=
                (inst_sect (run_state s0 out c (w_len w + p) (zb @ I) (a @ A) D h1 h2))\<lparr>sect_buf := rest\<rparr>\<rparr>, h\<lparr>hsize := val\<rparr>))
       else Inr (run_state s0 out c (w_len w + p) (zb @ I) (a @ A) D h1 h2, h)) =
      (Inr (run_state s0 out c (w_len w + p) I (a @ A) D h1 h2, h2') :: xd3_rvalue + _)"
    using h(2) b lens by (auto simp: h2'_def run_state_updates simp del: xd3_hinst.unfold_congs)
  have fin: "\<not> w_len w + length (w_target w) < add64 (w_len w + p) sz" "add64 (w_len w + p) sz = w_len w + (p + sz)"
    using b lens by (simp_all add: add.assoc)
  from half show ?thesis
  proof (cases rule: half_for_cases)
    case add
    then have "\<not> XD3_CPY \<le> htype h" using h(1) by (simp add: XD3_CPY_def XD3_ADD_def word_le_nat_alt)
    then show ?thesis using add h(1) fin maxpos
      by (intro exI [of _ h2']) (unfold xd3_decode_parse_halfinst_def size sum_bind.simps prod.case,
          simp add: run_state_updates h2'_def)
  next
    case run
    then have "\<not> XD3_CPY \<le> htype h" using h(1) by (simp add: XD3_CPY_def XD3_RUN_def word_le_nat_alt)
    then show ?thesis using run h(1) fin maxpos
      by (intro exI [of _ h2']) (unfold xd3_decode_parse_halfinst_def size sum_bind.simps prod.case,
          simp add: run_state_updates h2'_def)
  next
    case copy
    have "addr < w_len w + p" "\<not> (addr < w_len w \<and> w_len w < add64 addr sz)"
      using copy(5) lens b by (auto simp: copies_def)
    then show ?thesis using copy h(1) fin maxpos
      by (intro exI [of _ "h2'\<lparr>haddr := addr\<rparr>"])
        (unfold xd3_decode_parse_halfinst_def size sum_bind.simps prod.case,
          simp add: run_state_updates h2'_def)
  qed
qed

lemma take_chunk:
  "p + sz \<le> length xs \<Longrightarrow> take p xs @ take sz (drop p xs) = take (p + sz) xs"
  by (simp add: take_add)

lemma target_copy_run:
  assumes "\<forall>k<n. xs ! (p + k) = xs ! (i + k)" "i < p" "p + n \<le> length xs"
  shows "target_copy n i (take p xs) = Some (take (p + n) xs)"
  using assms
proof (induction n arbitrary: i p)
  case (Suc n)
  have "xs ! i = xs ! p" using Suc.prems(1) [rule_format, of 0] by simp
  then have e: "take p xs @ [xs ! i] = take (Suc p) xs"
    using Suc.prems(3) by (simp add: take_Suc_conv_app_nth)
  have "\<forall>k<n. xs ! (Suc p + k) = xs ! (Suc i + k)"
  proof (intro allI impI)
    fix k assume "k < n"
    then show "xs ! (Suc p + k) = xs ! (Suc i + k)" using Suc.prems(1)[rule_format, of "Suc k"] by simp
  qed
  from Suc.IH [OF this] Suc.prems(2,3) show ?case by (simp add: e)
qed simp

lemma source_copy:
  assumes w: "window_ok w" "ready w s0" and addr: "addr + sz \<le> w_len w" "0 < sz"
    and h: "hsize h = sz" "haddr h = addr" and room: "length out + sz \<le> space_out s0"
  shows "copy_from_source (run_state s0 out c pos I A D h1 h2) h =
    (None, run_state s0 (out @ take sz (drop (w_base w + addr) (w_source w))) c pos I A D h1 h2,
     h\<lparr>htype := XD3_NOOP, hsize := 0\<rparr>)"
proof -
  have "0 < w_len w" using addr by simp
  then obtain sr where sr: "src s0 = Some sr" "memory_block (w_source w) sr" "cpyoff_blocks sr = 0"
      "cpyoff_blkoff sr = w_base w"
    using w(2) by (auto simp: ready_def)
  have b: "w_base w + addr + sz \<le> length (w_source w)" "w_base w + w_len w \<le> length (w_source w)"
    "length (w_source w) < 2 ^ 63"
    using w(1) addr by (auto simp: window_ok_def)
  have m: "curblk sr = Some (w_source w)" "onblk sr = length (w_source w)" "length (w_source w) \<le> blksize sr"
      "blksize sr = 2 ^ shiftby sr"
    using sr(2) by (auto simp: memory_block_def)
  have s1: "add64 (w_base w) addr = w_base w + addr" "add64 (w_base w + addr) sz = w_base w + addr + sz"
    using b by simp_all
  have "w_base w + addr < 2 ^ shiftby sr" using b m addr by linarith
  then have z: "xd3_blksize_add (cpyoff_blocks sr) (cpyoff_blkoff sr) sr addr = (0, w_base w + addr)"
    by (simp add: xd3_blksize_add_def sr s1 drop_bit_eq_div)
  have le: "w_base w + addr + sz \<le> blksize sr" using b m by linarith
  have "\<not> flag (dec_win_ind s0) VCD_TARGET" using w(2) by (simp add: ready_def)
  then show ?thesis
    using b m le addr(2) room
    by (simp add: copy_from_source_def sr(1) z h s1 getblk_memory [OF sr(2)] run_state_source [OF sr(1)]
        run_state_updates Let_def)
qed

lemma output_half:
  assumes w: "window_ok w" "ready w s0" and half: "half_for w p t sz c0 a d addr c0'"
    and h: "htype h = t" "hsize h = sz" "XD3_CPY \<le> t \<longrightarrow> haddr h = addr"
  shows "\<exists>h'. htype h' = XD3_NOOP \<and>
    xd3_decode_output_halfinst (run_state s0 (take p (w_target w)) c pos I A (d @ D) h1 h2) h =
      (None, run_state s0 (take (p + sz) (w_target w)) c pos I A D h1 h2, h')"
proof -
  note b = half_for_bounds [OF half]
  have sp: "p + sz \<le> space_out s0" "p + sz < 2 ^ 64" "dec_cpylen s0 = w_len w" "min (length (w_target w)) p = p"
    using w b by (auto simp: ready_def window_ok_def)
  then have room: "\<not> (USIZE_T_OVERFLOW p sz \<or> space_out s0 < add64 p sz)" by (simp add: USIZE_T_OVERFLOW_iff)
  note tc = take_chunk [of p sz "w_target w"]
  from half show ?thesis
  proof (cases rule: half_for_cases)
    case add
    have "XD3_ADD \<noteq> XD3_RUN" by (simp add: XD3_ADD_def XD3_RUN_def)
    moreover have "length (take sz (drop p (w_target w))) = sz" using b by auto
    ultimately show ?thesis using add h room tc b sp
      by (intro exI [of _ "h\<lparr>htype := XD3_NOOP\<rparr>"])
        (simp add: xd3_decode_output_halfinst_def Let_def run_state_updates)
  next
    case (run bt)
    then show ?thesis using h room tc b sp
      by (intro exI [of _ "h\<lparr>htype := XD3_NOOP\<rparr>"])
        (simp add: xd3_decode_output_halfinst_def Let_def run_state_updates)
  next
    case copy
    have ha: "haddr h = addr" using copy(3) h(3) by simp
    show ?thesis
    proof (cases "addr < w_len w")
      case True
      then have "addr + sz \<le> w_len w" "take sz (drop p (w_target w)) = take sz (drop (w_base w + addr) (w_source w))"
        using copy(5) by (auto simp: copies_def)
      then show ?thesis using copy h room b tc sp ha True source_copy [OF w, of addr sz h "take p (w_target w)"]
        by (intro exI [of _ "h\<lparr>htype := XD3_NOOP, hsize := 0\<rparr>"])
          (simp add: xd3_decode_output_halfinst_def Let_def run_state_updates)
    next
      case False
      then have "target_copy sz (addr - w_len w) (take p (w_target w)) = Some (take (p + sz) (w_target w))"
        using copy(5) b by (intro target_copy_run) (auto simp: copies_def)
      then show ?thesis using copy h room b tc sp ha False
        by (intro exI [of _ "h\<lparr>htype := XD3_NOOP, hsize := 0\<rparr>"])
          (simp add: xd3_decode_output_halfinst_def Let_def run_state_updates drop_take)
    qed
  qed
qed

section \<open>Instructions\<close>

lemma output_first:
  assumes "window_ok w" "ready w s0" "half_for w p t sz c0 a d addr c0'"
    and h: "htype h = t" "hsize h = sz" "XD3_CPY \<le> t \<longrightarrow> haddr h = addr"
  shows "\<exists>h'. htype h' = XD3_NOOP \<and>
    output_current False (run_state s0 (take p (w_target w)) c pos I A (d @ D) h h2) =
      Some (None, run_state s0 (take (p + sz) (w_target w)) c pos I A D h' h2)"
proof -
  obtain h' where h': "htype h' = XD3_NOOP"
      "xd3_decode_output_halfinst (run_state s0 (take p (w_target w)) c pos I A (d @ D) h h2) h =
      (None, run_state s0 (take (p + sz) (w_target w)) c pos I A D h h2, h')"
    using output_half [OF assms] by blast
  then show ?thesis using half_for_type [OF assms(3)] h(1)
    by (intro exI [of _ h'])
      (simp add: output_current.simps [of False "run_state s0 p c pos I A d h h2" for p d] cur_inst_def put_inst_def
        run_state_updates output_current.simps [of False "run_state s0 p c pos I A d h' h2" for p d])
qed

lemma output_second:
  assumes "window_ok w" "ready w s0" "half_for w p t sz c0 a d addr c0'"
    and h: "htype h = t" "hsize h = sz" "XD3_CPY \<le> t \<longrightarrow> haddr h = addr"
  shows "\<exists>h'. htype h' = XD3_NOOP \<and>
    output_current True (run_state s0 (take p (w_target w)) c pos I A (d @ D) h1 h) =
      Some (None, run_state s0 (take (p + sz) (w_target w)) c pos I A D h1 h')"
proof -
  obtain h' where h': "htype h' = XD3_NOOP"
      "xd3_decode_output_halfinst (run_state s0 (take p (w_target w)) c pos I A (d @ D) h1 h) h =
      (None, run_state s0 (take (p + sz) (w_target w)) c pos I A D h1 h, h')"
    using output_half [OF assms] by blast
  then show ?thesis using half_for_type [OF assms(3)] h(1)
    by (intro exI [of _ h'])
      (simp add: output_current.simps [of True "run_state s0 p c pos I A d h1 h" for p d] cur_inst_def put_inst_def
        run_state_updates output_current.simps [of True "run_state s0 p c pos I A d h1 h'" for p d])
qed

lemma output_idle: "htype h2 = XD3_NOOP \<Longrightarrow>
    output_current True (run_state s0 out c pos I A D h1 h2) = Some (None, run_state s0 out c pos I A D h1 h2)"
  by (simp add: output_current.simps cur_inst_def)

text \<open>The decoder between two instructions: \<open>p\<close> bytes are written, \<open>c\<close> is the cache, and the sections
  have \<open>I\<close>, \<open>A\<close> and \<open>D\<close> left.\<close>

definition run_at ::
    "vcd_window \<Rightarrow> 'sec xd3_stream \<Rightarrow> nat \<Rightarrow> addr_cache \<Rightarrow> bytes \<Rightarrow> bytes \<Rightarrow> bytes \<Rightarrow> 'sec xd3_stream \<Rightarrow> bool" where
  "run_at w s0 p c I A D s \<longleftrightarrow> (\<exists>h1 h2. htype h1 = XD3_NOOP \<and> htype h2 = XD3_NOOP \<and>
    s = run_state s0 (take p (w_target w)) c (w_len w + p) I A D h1 h2)"

text \<open>A size that the code gives, or that follows it.\<close>

definition size_follows :: "nat \<Rightarrow> nat \<Rightarrow> bytes \<Rightarrow> bool" where
  "size_follows k sz zb \<longleftrightarrow> k = sz \<and> zb = [] \<or> k = 0 \<and> zb = xd3_emit_uint64 sz"

lemma emit_loop_round:
  assumes "sect_buf (inst_sect s) \<noteq> []" "emit_round s = Some (None, s')"
  shows "emit_loop s = emit_loop s'"
  using assms by (simp add: emit_loop.simps [of s])

lemma run_single:
  assumes w: "window_ok w" "ready w s0" and half: "half_for w p t sz c a d addr c'"
    and code: "code_entry (unat op) = single_code t k" "size_follows k sz zb"
    and s: "run_at w s0 p c (op # zb @ I) (a @ A) (d @ D) s"
  shows "\<exists>s'. run_at w s0 (p + sz) c' I A D s' \<and> emit_loop s = emit_loop s'"
proof -
  obtain h1 h2 where h: "htype h1 = XD3_NOOP" "htype h2 = XD3_NOOP"
      "s = run_state s0 (take p (w_target w)) c (w_len w + p) (op # zb @ I) (a @ A) (d @ D) h1 h2"
    using s by (auto simp: run_at_def)
  let ?run = "run_state s0 (take p (w_target w))"
  define g1 where "g1 = h1\<lparr>htype := t, hsize := k\<rparr>"
  define g2 where "g2 = h2\<lparr>htype := XD3_NOOP, hsize := 0\<rparr>"
  have t: "t \<noteq> XD3_NOOP" by (rule half_for_type [OF half])
  have "hsize g1 = sz \<and> zb = [] \<or> hsize g1 = 0 \<and> zb = xd3_emit_uint64 sz" "htype g1 = t"
    using code(2) by (auto simp: size_follows_def g1_def)
  from parse_half [OF w half this(2,1)]
  obtain f1 where f1: "htype f1 = t" "hsize f1 = sz" "XD3_CPY \<le> t \<longrightarrow> haddr f1 = addr"
      "xd3_decode_parse_halfinst (?run c (w_len w + p) (zb @ I) (a @ A) (d @ D) g1 g2) g1 =
        Inr (?run c' (w_len w + (p + sz)) I A (d @ D) g1 g2, f1)" by blast
  have ct: "code_table s0 = xd3_rfc3284_code_table" using w(2) by (simp add: ready_def)
  have g2: "htype g2 = XD3_NOOP" by (simp add: g2_def)
  have "fetch (code_table s0) (unat op) = Some (single_code t k)" 
    using code(1) unsigned_less [of op] by (simp add: ct fetch_def)
  then have i: "xd3_decode_instruction s = (None, ?run c' (w_len w + (p + sz)) I A (d @ D) f1 g2)"
    using t f1(4) g2 unfolding h(3)
    by (simp add: xd3_decode_instruction_def single_code_def Let_def run_state_updates g1_def [symmetric]
        g2_def [symmetric] XD3_NOOP_def [symmetric])
  have b: "p + sz \<le> length (w_target w)" using half_for_bounds [OF half] by simp
  obtain e1 where e1: "htype e1 = XD3_NOOP"
      "output_current False (?run c' (w_len w + (p + sz)) I A (d @ D) f1 g2) =
        Some (None, run_state s0 (take (p + sz) (w_target w)) c' (w_len w + (p + sz)) I A D e1 g2)"
    using output_first [OF w half f1(1-3)] by blast
  have "emit_round s = Some (None, run_state s0 (take (p + sz) (w_target w)) c' (w_len w + (p + sz)) I A D e1 g2)"
    using h(1,2) e1(2) output_idle [OF g2] i
    by (simp add: emit_round_def fetch_instruction_def h(3))
  then have "emit_loop s = emit_loop (run_state s0 (take (p + sz) (w_target w)) c' (w_len w + (p + sz)) I A D e1 g2)"
    by (intro emit_loop_round) (simp_all add: h(3))
  then show ?thesis using e1(1) g2 by (auto simp: run_at_def)
qed

lemma run_pair:
  assumes w: "window_ok w" "ready w s0"
    and half1: "half_for w p t1 sz1 c a1 d1 addr1 c1" and half2: "half_for w (p + sz1) t2 sz2 c1 a2 d2 addr2 c2"
    and code: "code_entry (unat op) = \<lparr>type1 = t1, size1 = sz1, type2 = t2, size2 = sz2\<rparr>"
    and s: "run_at w s0 p c (op # I) (a1 @ a2 @ A) (d1 @ d2 @ D) s"
  shows "\<exists>s'. run_at w s0 (p + sz1 + sz2) c2 I A D s' \<and> emit_loop s = emit_loop s'"
proof -
  obtain h1 h2 where h: "htype h1 = XD3_NOOP" "htype h2 = XD3_NOOP"
      "s = run_state s0 (take p (w_target w)) c (w_len w + p) (op # I) (a1 @ a2 @ A) (d1 @ d2 @ D) h1 h2"
    using s by (auto simp: run_at_def)
  let ?run = "run_state s0 (take p (w_target w))"
  define g1 where "g1 = h1\<lparr>htype := t1, hsize := sz1\<rparr>"
  define g2 where "g2 = h2\<lparr>htype := t2, hsize := sz2\<rparr>"
  have t: "t1 \<noteq> XD3_NOOP" "t2 \<noteq> XD3_NOOP" using half1 half2 by (auto dest: half_for_type)
  have g: "htype g1 = t1" "hsize g1 = sz1 \<and> [] = ([] :: bytes) \<or> hsize g1 = 0 \<and> [] = xd3_emit_uint64 sz1"
      "htype g2 = t2" "hsize g2 = sz2 \<and> [] = ([] :: bytes) \<or> hsize g2 = 0 \<and> [] = xd3_emit_uint64 sz2"
    by (simp_all add: g1_def g2_def)
  obtain f1 where f1: "htype f1 = t1" "hsize f1 = sz1" "XD3_CPY \<le> t1 \<longrightarrow> haddr f1 = addr1"
      "xd3_decode_parse_halfinst (?run c (w_len w + p) I (a1 @ a2 @ A) (d1 @ d2 @ D) g1 g2) g1 =
        Inr (?run c1 (w_len w + (p + sz1)) I (a2 @ A) (d1 @ d2 @ D) g1 g2, f1)"
    using parse_half [OF w half1 g(1,2), of "take p (w_target w)" I "a2 @ A" "d1 @ d2 @ D" g1 g2] by auto
  obtain f2 where f2: "htype f2 = t2" "hsize f2 = sz2" "XD3_CPY \<le> t2 \<longrightarrow> haddr f2 = addr2"
      "xd3_decode_parse_halfinst (?run c1 (w_len w + (p + sz1)) I (a2 @ A) (d1 @ d2 @ D) f1 g2) g2 =
        Inr (?run c2 (w_len w + (p + sz1 + sz2)) I A (d1 @ d2 @ D) f1 g2, f2)"
    using parse_half [OF w half2 g(3,4), of "take p (w_target w)" I A "d1 @ d2 @ D" f1 g2]
    by (auto simp: add.assoc)
  have ct: "code_table s0 = xd3_rfc3284_code_table" using w(2) by (simp add: ready_def)
  have "fetch (code_table s0) (unat op) = Some \<lparr>type1 = t1, size1 = sz1, type2 = t2, size2 = sz2\<rparr>"
    using code(1) unsigned_less [of op] by (simp add: ct fetch_def)
  then have i: "xd3_decode_instruction s = (None, ?run c2 (w_len w + (p + sz1 + sz2)) I A (d1 @ d2 @ D) f1 f2)"
    using t f1(4) f2(4) unfolding h(3)
    by (simp add: xd3_decode_instruction_def Let_def run_state_updates g1_def [symmetric] g2_def [symmetric])
  define q where "q = w_len w + (p + sz1 + sz2)"
  have b: "p + sz1 + sz2 \<le> length (w_target w)" using half_for_bounds [OF half2] by simp
  obtain e1 where e1: "htype e1 = XD3_NOOP"
      "output_current False (?run c2 q I A (d1 @ d2 @ D) f1 f2) =
        Some (None, run_state s0 (take (p + sz1) (w_target w)) c2 q I A (d2 @ D) e1 f2)"
    using output_first [OF w half1 f1(1-3)] by blast
  obtain e2 where e2: "htype e2 = XD3_NOOP"
      "output_current True (run_state s0 (take (p + sz1) (w_target w)) c2 q I A (d2 @ D) e1 f2) =
        Some (None, run_state s0 (take (p + sz1 + sz2) (w_target w)) c2 q I A D e1 e2)"
    using output_second [OF w half2 f2(1-3)] by blast
  have "emit_round s = Some (None, run_state s0 (take (p + sz1 + sz2) (w_target w)) c2 q I A D e1 e2)"
    using h(1,2) e1(2) e2(2) i
    by (simp add: emit_round_def fetch_instruction_def h(3) q_def)
  then have "emit_loop s = emit_loop (run_state s0 (take (p + sz1 + sz2) (w_target w)) c2 q I A D e1 e2)"
    by (intro emit_loop_round) (simp_all add: h(3))
  then show ?thesis using e1(1) e2(1) by (auto simp: run_at_def q_def)
qed

end
