(* ===== verification/Xd3EncodeRun.thy ===== *)
theory Xd3EncodeRun
  imports Xd3DecodeRun Xd3EncodeWindow
begin

text \<open>
  The instructions of a window, from the encoder's buffer to the sections: instructions that are right
  for the window, one after the other, are written to three sections that the decoder runs through to
  the same window. The invariant says what the sections stand for at every moment, with the one
  instruction whose code is not written yet.
\<close>

unbundle bit_operations_syntax

section \<open>Emissions\<close>

definition pages_ok :: "allocator \<Rightarrow> xd3_output \<Rightarrow> bool" where
  "pages_ok al out \<longleftrightarrow> output_ok al (0, out)"

lemma output_ok_pages: "output_ok al (free, out) \<longleftrightarrow> pages_ok al out"
  by (simp add: pages_ok_def output_ok_def)

lemma put_bytes_ok:
  assumes "pages_ok (st_alloc e) (enc_heads k e)"
  shows "\<exists>free out. put_bytes k bs e = Inr (put_output k out (e\<lparr>enc_free := free\<rparr>)) \<and>
    pages_ok (st_alloc e) out \<and> concat out = concat (enc_heads k e) @ bs"
  using xd3_emit_bytes_ok [of "st_alloc e" "(enc_free e, enc_heads k e)" bs] assms
  by (fastforce simp: put_bytes_def emit_to_def output_bytes_def output_ok_pages)

lemma put_byte_ok:
  assumes "pages_ok (st_alloc e) (enc_heads k e)"
  shows "\<exists>free out. put_byte k b e = Inr (put_output k out (e\<lparr>enc_free := free\<rparr>)) \<and>
    pages_ok (st_alloc e) out \<and> concat out = concat (enc_heads k e) @ [b]"
  using xd3_emit_byte_ok [of "st_alloc e" "(enc_free e, enc_heads k e)" b] assms
  by (fastforce simp: put_byte_def emit_to_def output_bytes_def output_ok_pages)

lemma put_number_bytes: "put_number k n e = put_bytes k (xd3_emit_uint64 n) e"
  by (simp add: put_number_def put_bytes_def xd3_emit_size_def)

section \<open>Right instructions\<close>

text \<open>An instruction of the buffer, with its address in the source or in the window. A copy of the
  source lies in the part of the source the window uses.\<close>

definition combined_addr :: "vcd_window \<Rightarrow> xd3_rinst \<Rightarrow> nat" where
  "combined_addr w i = (if xtra i \<noteq> 0 then raddr i - w_base w else w_len w + raddr i)"

definition inst_ok :: "vcd_window \<Rightarrow> xd3_rinst \<Rightarrow> bool" where
  "inst_ok w i \<longleftrightarrow> 0 < rsize i \<and> rpos i + rsize i \<le> length (w_target w) \<and>
    (if rtype i = XD3_RUN then take (rsize i) (drop (rpos i) (w_target w)) = replicate (rsize i) (xtra i)
     else rtype i = XD3_CPY \<and> copies w (rpos i) (rsize i) (combined_addr w i) \<and>
       (if xtra i \<noteq> 0 then w_base w \<le> raddr i \<and> raddr i < w_base w + w_len w else raddr i < rpos i))"

section \<open>The state\<close>

definition emit_ok :: "vcd_window \<Rightarrow> 'sec xd3_encoder \<Rightarrow> bool" where
  "emit_ok w e \<longleftrightarrow> next_in e = w_target w \<and> code_table e = xd3_rfc3284_code_table \<and>
    s_near (acache e) = 4 \<and> s_same (acache e) = 3 \<and> cache_ok (acache e) \<and>
    (\<forall>k. pages_ok (st_alloc e) (enc_heads k e))"

text \<open>The source window is the one of \<open>w\<close> once it is decided; \<open>rs\<close> are the instructions still to be
  written, whose first copy decides it.\<close>

definition agreed :: "vcd_window \<Rightarrow> xd3_rinst list \<Rightarrow> 'sec xd3_encoder \<Rightarrow> bool" where
  "agreed w rs e \<longleftrightarrow>
    (case src e of
       None \<Rightarrow> w_len w = 0 \<and> taroff e = 0 \<and> (\<forall>r\<in>set rs. rtype r = XD3_CPY \<longrightarrow> xtra r = 0)
     | Some sr \<Rightarrow>
         if srcwin_decided e then srclen sr = w_len w \<and> srcbase sr = w_base w \<and> taroff e = w_len w
         else enc_state e = ENC_INSTR \<and> srclen sr = 0 \<and> srcbase sr = 0 \<and> taroff e = 0 \<and>
           (if \<exists>r\<in>set rs. rtype r = XD3_CPY then
              (if match_maxaddr e = 0 then w_base w = 0 \<and> w_len w = 0
               else w_base w = match_minaddr e \<and> w_base w + w_len w = match_maxaddr e \<and> match_maxaddr e < 2 ^ 63)
            else w_len w = 0 \<and> w_base w = 0))"

text \<open>The fields the emission of instructions changes, cleared.\<close>

definition enc_frame :: "'sec xd3_encoder \<Rightarrow> 'sec xd3_encoder" where
  "enc_frame e = e\<lparr>acache := undefined, enc_free := 0, enc_data := [], enc_inst := [], enc_addr := [],
    iout := None, unencoded_offset := 0, iopt_free := 0, iopt_used := [], srcwin_decided := False,
    srcwin_decided_early := False, taroff := 0,
    src := map_option (\<lambda>sr. sr\<lparr>srcbase := 0, srclen := 0\<rparr>) (src e)\<rparr>"

text \<open>What an operation on the sections adds to the address and the data section.\<close>

definition sections_grow :: "'sec xd3_encoder \<Rightarrow> bytes \<Rightarrow> bytes \<Rightarrow> 'sec xd3_encoder \<Rightarrow> bool" where
  "sections_grow e a d e' \<longleftrightarrow> concat (enc_inst e') = concat (enc_inst e) \<and>
    concat (enc_addr e') = concat (enc_addr e) @ a \<and> concat (enc_data e') = concat (enc_data e) @ d \<and>
    iout e' = iout e \<and> unencoded_offset e' = unencoded_offset e \<and> iopt_free e' = iopt_free e \<and>
    iopt_used e' = iopt_used e \<and> enc_frame e' = enc_frame e"

lemma pages_put:
  assumes "\<forall>k. pages_ok (st_alloc e) (enc_heads k e)" "pages_ok (st_alloc e) out"
  shows "\<forall>k'. pages_ok (st_alloc e) (enc_heads k' (put_output k out (e\<lparr>enc_free := free\<rparr>)))"
proof
  fix k'
  show "pages_ok (st_alloc e) (enc_heads k' (put_output k out (e\<lparr>enc_free := free\<rparr>)))"
    using assms assms(1) [THEN spec, of k'] by (cases k; cases k') simp_all
qed

lemma put_output_fields [simp]:
  "next_in (put_output k out e) = next_in e" "code_table (put_output k out e) = code_table e"
  "acache (put_output k out e) = acache e" "st_alloc (put_output k out e) = st_alloc e"
  "src (put_output k out e) = src e" "srcwin_decided (put_output k out e) = srcwin_decided e"
  "taroff (put_output k out e) = taroff e" "enc_state (put_output k out e) = enc_state e"
  "match_maxaddr (put_output k out e) = match_maxaddr e" "match_minaddr (put_output k out e) = match_minaddr e"
  "iout (put_output k out e) = iout e" "unencoded_offset (put_output k out e) = unencoded_offset e"
  "iopt_free (put_output k out e) = iopt_free e" "iopt_used (put_output k out e) = iopt_used e"
  by (cases k; simp)+

lemma agreed_cong:
  assumes "src e' = src e" "srcwin_decided e' = srcwin_decided e" "taroff e' = taroff e" "enc_state e' = enc_state e"
    "match_maxaddr e' = match_maxaddr e" "match_minaddr e' = match_minaddr e"
  shows "agreed w rs e' \<longleftrightarrow> agreed w rs e"
  unfolding agreed_def assms ..

lemma agreed_no_copy:
  assumes i: "rtype i \<noteq> XD3_CPY"
  shows "agreed w (i # rs) e \<longleftrightarrow> agreed w rs e"
proof (cases "src e")
  case None
  then show ?thesis using i by (simp add: agreed_def)
next
  case (Some sr)
  have ex: "(\<exists>r\<in>set (i # rs). rtype r = XD3_CPY) \<longleftrightarrow> (\<exists>r\<in>set rs. rtype r = XD3_CPY)" using i by simp
  show ?thesis unfolding agreed_def Some option.case ex ..
qed

lemma grow_data:
  assumes e: "emit_ok w e" "agreed w (i # rs) e" and i: "rtype i \<noteq> XD3_CPY"
    and out: "pages_ok (st_alloc e) out" "concat out = concat (enc_data e) @ d"
  shows "emit_ok w (e\<lparr>enc_free := free, enc_data := out\<rparr>)"
    and "agreed w rs (e\<lparr>enc_free := free, enc_data := out\<rparr>)" and "sections_grow e [] d (e\<lparr>enc_free := free, enc_data := out\<rparr>)"
proof -
  have "\<forall>k. pages_ok (st_alloc e) (enc_heads k e)" using e(1) unfolding emit_ok_def by blast
  note pp = pages_put [OF this out(1), of DATA free]
  then show "emit_ok w (e\<lparr>enc_free := free, enc_data := out\<rparr>)" using e(1) by (simp add: emit_ok_def)
  have "agreed w rs e" using e(2) agreed_no_copy [OF i] by blast
  then show "agreed w rs (e\<lparr>enc_free := free, enc_data := out\<rparr>)" by (subst agreed_cong [of _ e]) simp_all
  show "sections_grow e [] d (e\<lparr>enc_free := free, enc_data := out\<rparr>)" using out(2) by (simp add: sections_grow_def enc_frame_def)
qed

lemma copy_address_ok:
  assumes w: "window_ok w" and e: "emit_ok w e" "agreed w (i # rs) e" and i: "inst_ok w i" "rtype i = XD3_CPY"
  shows "\<exists>e0. copy_address e i = Inr (e0, combined_addr w i) \<and> emit_ok w e0 \<and> agreed w rs e0 \<and>
    taroff e0 = w_len w \<and> acache e0 = acache e \<and> st_alloc e0 = st_alloc e \<and> sections_grow e [] [] e0"
proof -
  have ne: "XD3_CPY \<noteq> XD3_RUN" by (simp add: XD3_CPY_def XD3_RUN_def)
  have x: "if xtra i \<noteq> 0 then w_base w \<le> raddr i \<and> raddr i < w_base w + w_len w else raddr i < rpos i"
      "rpos i + rsize i \<le> length (w_target w)"
    using i ne by (auto simp: inst_ok_def split: if_splits)
  have lt: "w_len w + length (w_target w) < 2 ^ 63" "0 < w_len w \<Longrightarrow> w_base w + w_len w < 2 ^ 63"
    using w by (auto simp: window_ok_def)
  have addr: "xtra i \<noteq> 0 \<Longrightarrow> sub64 (raddr i) (w_base w) = combined_addr w i"
      "xtra i = 0 \<Longrightarrow> add64 (w_len w) (raddr i) = combined_addr w i"
    using x lt by (auto simp: combined_addr_def)
  show ?thesis
  proof (cases "src e")
    case None
    then have "w_len w = 0" "xtra i = 0" "taroff e = 0" using e(2) i(2) by (auto simp: agreed_def)
    then show ?thesis using None e x lt
      by (intro exI [of _ e]) (auto simp: copy_address_def combined_addr_def agreed_def sections_grow_def)
  next
    case (Some sr)
    show ?thesis
    proof (cases "srcwin_decided e")
      case True
      then have ag: "srclen sr = w_len w" "srcbase sr = w_base w" "taroff e = w_len w"
        using e(2) Some by (auto simp: agreed_def)
      define e0 where "e0 = e\<lparr>srcwin_decided_early := (\<not> eof_known sr \<or> srcwin_cksum_pos e < xd3_source_eof sr)\<rparr>"
      have "copy_address e i = Inr (e0, combined_addr w i)"
        using True Some addr ag by (simp add: copy_address_def e0_def)
      moreover have "emit_ok w e0"
      proof -
        have "enc_heads k e0 = enc_heads k e" for k by (cases k) (simp_all add: e0_def)
        then show ?thesis using e(1) by (simp add: emit_ok_def e0_def)
      qed
      moreover have "agreed w rs e0" using Some True ag by (simp add: agreed_def e0_def)
      ultimately show ?thesis using ag by (intro exI [of _ e0]) (simp add: sections_grow_def enc_frame_def e0_def)
    next
      case False
      then have ag: "enc_state e = ENC_INSTR" "srclen sr = 0" "srcbase sr = 0"
          "if match_maxaddr e = 0 then w_base w = 0 \<and> w_len w = 0
           else w_base w = match_minaddr e \<and> w_base w + w_len w = match_maxaddr e \<and> match_maxaddr e < 2 ^ 63"
        using e(2) Some i(2) by (auto simp: agreed_def)
      define sr' where "sr' = sr\<lparr>srcbase := w_base w, srclen := w_len w\<rparr>"
      define e0 where "e0 = e\<lparr>srcwin_decided := True, src := Some sr', taroff := w_len w\<rparr>"
      have "xd3_srcwin_setup e = Inr e0"
      proof (cases "match_maxaddr e = 0")
        case True
        then have "sr = sr'" using ag by (simp add: sr'_def)
        then show ?thesis using True ag Some by (simp add: xd3_srcwin_setup_def e0_def)
      next
        case False
        then have "sub64 (match_maxaddr e) (match_minaddr e) = w_len w" using ag by auto
        then show ?thesis using False ag Some by (simp add: xd3_srcwin_setup_def e0_def sr'_def)
      qed
      then have "copy_address e i = Inr (e0, combined_addr w i)"
        using False Some addr by (simp add: copy_address_def) (simp add: e0_def sr'_def)
      moreover have "emit_ok w e0"
      proof -
        have "enc_heads k e0 = enc_heads k e" for k by (cases k) (simp_all add: e0_def)
        then show ?thesis using e(1) by (simp add: emit_ok_def e0_def)
      qed
      moreover have "agreed w rs e0" by (simp add: agreed_def e0_def sr'_def)
      ultimately show ?thesis
        by (intro exI [of _ e0]) (simp add: sections_grow_def enc_frame_def e0_def Some sr'_def)
    qed
  qed
qed

lemma copy_operands_ok:
  assumes w: "window_ok w" and e: "emit_ok w e" "agreed w (i # rs) e" and i: "inst_ok w i" "rtype i = XD3_CPY"
  shows "\<exists>e1 t a addr. encode_operands e i = Inr (e1, i\<lparr>rtype := t\<rparr>) \<and> inst_type t \<and>
    half_for w (rpos i) t (rsize i) (acache e) a [] addr (acache e1) \<and> emit_ok w e1 \<and> agreed w rs e1 \<and>
    sections_grow e a [] e1"
proof -
  obtain e0 where e0: "copy_address e i = Inr (e0, combined_addr w i)" "emit_ok w e0" "agreed w rs e0"
      "taroff e0 = w_len w" "acache e0 = acache e" "st_alloc e0 = st_alloc e" "sections_grow e [] [] e0"
    using copy_address_ok [OF w e i] by blast
  define addr where "addr = combined_addr w i"
  define here where "here = w_len w + rpos i"
  have ne: "XD3_CPY \<noteq> XD3_RUN" by (simp add: XD3_CPY_def XD3_RUN_def)
  have c: "copies w (rpos i) (rsize i) addr" "0 < rsize i" "rpos i + rsize i \<le> length (w_target w)"
    using i ne by (auto simp: inst_ok_def addr_def split: if_splits)
  then have b: "addr < here" "here < 2 ^ 64" "add64 (rpos i) (taroff e0) = here"
    using w e0(4) by (auto simp: copies_def here_def window_ok_def)
  have ac: "cache_ok (acache e)" "s_near (acache e) = 4" "s_same (acache e) = 3"
    using e(1) by (auto simp: emit_ok_def)
  obtain a m where am: "address_bytes (address_choice (acache e) addr here) = (a, m)" by fastforce
  have pg: "pages_ok (st_alloc e) (enc_heads ADDR e0)" using e0(2) unfolding emit_ok_def e0(6) by blast
  then have "output_ok (st_alloc e) (enc_free e0, enc_addr e0)" by (simp add: output_ok_pages)
  from xd3_encode_address_ok [OF this am, of 3] obtain out' where
      out': "xd3_encode_address (st_alloc e) (acache e) (enc_free e0, enc_addr e0) addr here 3 =
        Inr (xd3_update_cache (acache e) addr, out', 3 + of_nat m)" "output_ok (st_alloc e) out'"
        "output_bytes out' = concat (enc_addr e0) @ a" by (auto simp: output_bytes_def)
  obtain free out where o: "out' = (free, out)" by (cases out')
  define e1 where "e1 = e0\<lparr>acache := xd3_update_cache (acache e) addr, enc_free := free, enc_addr := out\<rparr>"
  define t :: u8 where "t = 3 + of_nat m"
  have dec: "xd3_decode_address (acache e) here m (a @ rest) = Inr (xd3_update_cache (acache e) addr, rest, addr)"
      "m < 9" for rest
    using decode_address_bytes [OF ac(1) b(1,2) am, of rest] ac by auto
  have t: "unat t = 3 + m" unfolding t_def using dec(2) by (intro code_byte) auto
  have "t - XD3_CPY = of_nat m" by (simp add: t_def XD3_CPY_def)
  then have tm: "unat (t - XD3_CPY) = m" using dec(2) by (simp add: unat_of_nat)
  have tt: "t \<noteq> XD3_ADD" "t \<noteq> XD3_RUN" "XD3_CPY \<le> t" "inst_type t"
    using t dec(2) by (auto simp: XD3_ADD_def XD3_RUN_def XD3_CPY_def word_le_nat_alt inst_type_def)
  have "encode_operands e i = Inr (e1, i\<lparr>rtype := t\<rparr>)"
    using e0(1,5,6) b(3) out'(1) i(2) by (simp add: encode_operands_def addr_def o e1_def t_def XD3_CPY_def)
  moreover have "half_for w (rpos i) t (rsize i) (acache e) a [] addr (acache e1)"
    using c tt dec(1) tm by (simp add: half_for_def here_def e1_def)
  moreover have "emit_ok w e1"
  proof -
    have "pages_ok (st_alloc e) out" using out'(2) by (simp add: o output_ok_pages)
    moreover have "\<forall>k. pages_ok (st_alloc e) (enc_heads k e0)" using e0(2) unfolding emit_ok_def e0(6) by blast
    ultimately have "pages_ok (st_alloc e) (enc_heads k e1)" for k
      by (cases k) (auto simp: e1_def dest: spec [of _ HDR] spec [of _ DATA] spec [of _ INST])
    moreover have "addr < 2 ^ 64" using b(1,2) by simp
    ultimately show ?thesis using e0 ac by (simp add: emit_ok_def e1_def cache_ok_update)
  qed
  moreover have "agreed w rs e1" using e0(3) by (subst agreed_cong [of _ e0]) (simp_all add: e1_def)
  moreover have "sections_grow e a [] e1"
    using e0(7) out'(3) o by (simp add: sections_grow_def e1_def enc_frame_def output_bytes_def)
  ultimately show ?thesis using tt(4) by blast
qed

text \<open>An instruction for the bytes from \<open>rpos\<close> on, one of the buffer or an addition.\<close>

definition any_inst_ok :: "vcd_window \<Rightarrow> xd3_rinst \<Rightarrow> bool" where
  "any_inst_ok w i \<longleftrightarrow> inst_ok w i \<or>
    rtype i = XD3_ADD \<and> 0 < rsize i \<and> rpos i + rsize i \<le> length (w_target w)"

lemma operands_ok:
  assumes w: "window_ok w" and e: "emit_ok w e" "agreed w (i # rs) e" and i: "any_inst_ok w i"
  shows "\<exists>e1 t a d addr. encode_operands e i = Inr (e1, i\<lparr>rtype := t\<rparr>) \<and> inst_type t \<and>
    half_for w (rpos i) t (rsize i) (acache e) a d addr (acache e1) \<and> emit_ok w e1 \<and> agreed w rs e1 \<and>
    sections_grow e a d e1"
proof -
  have ne: "XD3_CPY \<noteq> XD3_RUN" "XD3_ADD \<noteq> XD3_RUN" "XD3_ADD \<noteq> XD3_CPY" "inst_type XD3_ADD" "inst_type XD3_RUN"
    by (simp_all add: XD3_CPY_def XD3_RUN_def XD3_ADD_def inst_type_def)
  have pd: "pages_ok (st_alloc e) (enc_heads DATA e)" using e(1) unfolding emit_ok_def by blast
  consider (copy) "inst_ok w i" "rtype i = XD3_CPY" | (run) "inst_ok w i" "rtype i = XD3_RUN"
    | (add) "rtype i = XD3_ADD" "0 < rsize i" "rpos i + rsize i \<le> length (w_target w)"
    using i by (auto simp: any_inst_ok_def inst_ok_def split: if_splits)
  then show ?thesis
  proof cases
    case copy
    then show ?thesis using copy_operands_ok [OF w e] by blast
  next
    case run
    obtain free out where o: "put_byte DATA (xtra i) e = Inr (e\<lparr>enc_free := free, enc_data := out\<rparr>)"
        "pages_ok (st_alloc e) out" "concat out = concat (enc_data e) @ [xtra i]"
      using put_byte_ok [OF pd, of "xtra i"] by auto
    have "rtype i \<noteq> XD3_CPY" using run ne by simp
    note g = grow_data [OF e this o(2,3), of free]
    show ?thesis using run ne o(1) g
      by (intro exI [of _ "e\<lparr>enc_free := free, enc_data := out\<rparr>"] exI [of _ XD3_RUN] exI [of _ "[]"]
          exI [of _ "[xtra i]"])
        (auto simp: encode_operands_def half_for_def inst_ok_def)
  next
    case add
    define d where "d = take (rsize i) (drop (rpos i) (w_target w))"
    obtain free out where o: "put_bytes DATA d e = Inr (e\<lparr>enc_free := free, enc_data := out\<rparr>)"
        "pages_ok (st_alloc e) out" "concat out = concat (enc_data e) @ d"
      using put_bytes_ok [OF pd, of d] by auto
    have "rtype i \<noteq> XD3_CPY" using add ne by simp
    note g = grow_data [OF e this o(2,3), of free]
    have "next_in e = w_target w" using e(1) by (simp add: emit_ok_def)
    then show ?thesis using add ne o(1) g
      by (intro exI [of _ "e\<lparr>enc_free := free, enc_data := out\<rparr>"] exI [of _ XD3_ADD] exI [of _ "[]"] exI [of _ d])
        (auto simp: encode_operands_def half_for_def d_def)
  qed
qed

section \<open>What the sections stand for\<close>

text \<open>From any continuation of the sections, the decoder that starts at the beginning of the window with
  the cache \<open>c0\<close> gets to \<open>p\<close> with the cache \<open>c\<close>.\<close>

definition runs ::
    "vcd_window \<Rightarrow> 'sec xd3_stream \<Rightarrow> addr_cache \<Rightarrow> nat \<Rightarrow> addr_cache \<Rightarrow> bytes \<Rightarrow> bytes \<Rightarrow> bytes \<Rightarrow> bool" where
  "runs w s0 c0 p c I A D \<longleftrightarrow> (\<forall>I' A' D' s. run_at w s0 0 c0 (I @ I') (A @ A') (D @ D') s \<longrightarrow>
    (\<exists>s'. run_at w s0 p c I' A' D' s' \<and> emit_loop s = emit_loop s'))"

lemma runs_start: "runs w s0 c0 0 c0 [] [] []"
  by (auto simp: runs_def)

lemma runs_single:
  assumes "window_ok w" "ready w s0" "runs w s0 c0 p c I A D" "half_for w p t sz c a d addr c'"
    and "code_entry (unat op) = single_code t k" "size_follows k sz zb"
  shows "runs w s0 c0 (p + sz) c' (I @ op # zb) (A @ a) (D @ d)"
  unfolding runs_def
proof (intro allI impI)
  fix I' A' D' s
  assume "run_at w s0 0 c0 ((I @ op # zb) @ I') ((A @ a) @ A') ((D @ d) @ D') s"
  then obtain s1 where "run_at w s0 p c (op # zb @ I') (a @ A') (d @ D') s1" "emit_loop s = emit_loop s1"
    using assms(3) [unfolded runs_def, THEN spec, THEN spec, THEN spec, THEN spec,
        of "op # zb @ I'" "a @ A'" "d @ D'" s] by auto
  then show "\<exists>s'. run_at w s0 (p + sz) c' I' A' D' s' \<and> emit_loop s = emit_loop s'"
    using run_single [OF assms(1,2,4-6), of I' A' D' s1] by auto
qed

lemma runs_pair:
  assumes "window_ok w" "ready w s0" "runs w s0 c0 p c I A D"
    and "half_for w p t1 sz1 c a1 d1 addr1 c1" "half_for w (p + sz1) t2 sz2 c1 a2 d2 addr2 c2"
    and "code_entry (unat op) = \<lparr>type1 = t1, size1 = sz1, type2 = t2, size2 = sz2\<rparr>"
  shows "runs w s0 c0 (p + sz1 + sz2) c2 (I @ [op]) (A @ a1 @ a2) (D @ d1 @ d2)"
  unfolding runs_def
proof (intro allI impI)
  fix I' A' D' s
  assume "run_at w s0 0 c0 ((I @ [op]) @ I') ((A @ a1 @ a2) @ A') ((D @ d1 @ d2) @ D') s"
  then obtain s1 where "run_at w s0 p c (op # I') (a1 @ a2 @ A') (d1 @ d2 @ D') s1" "emit_loop s = emit_loop s1"
    using assms(3) [unfolded runs_def, THEN spec, THEN spec, THEN spec, THEN spec,
        of "op # I'" "a1 @ a2 @ A'" "d1 @ d2 @ D'" s] by auto
  then show "\<exists>s'. run_at w s0 (p + sz1 + sz2) c2 I' A' D' s' \<and> emit_loop s = emit_loop s'"
    using run_pair [OF assms(1,2,4-6), of I' A' D' s1] by auto
qed

text \<open>The pending instruction \<open>iout\<close>: its address and data are written, its code is not.\<close>

definition pending ::
    "vcd_window \<Rightarrow> 'sec xd3_stream \<Rightarrow> addr_cache \<Rightarrow> nat \<Rightarrow> addr_cache \<Rightarrow> bytes \<Rightarrow> bytes \<Rightarrow> bytes \<Rightarrow>
      xd3_rinst option \<Rightarrow> bool" where
  "pending w s0 c0 off ac I A D out \<longleftrightarrow>
    (case out of
       None \<Rightarrow> runs w s0 c0 off ac I A D
     | Some i \<Rightarrow> \<exists>A0 a D0 d p c addr. A = A0 @ a \<and> D = D0 @ d \<and> runs w s0 c0 p c I A0 D0 \<and>
         half_for w p (rtype i) (rsize i) c a d addr ac \<and> off = p + rsize i \<and> code2 i = 0 \<and> inst_type (rtype i) \<and>
         (code_entry (unat (code1 i)) = single_code (rtype i) 0 \<or>
          code_entry (unat (code1 i)) = single_code (rtype i) (rsize i)))"

definition enc_inv :: "vcd_window \<Rightarrow> 'dec xd3_stream \<Rightarrow> addr_cache \<Rightarrow> xd3_rinst list \<Rightarrow> 'sec xd3_encoder \<Rightarrow> bool" where
  "enc_inv w s0 c0 rs e \<longleftrightarrow> emit_ok w e \<and> agreed w rs e \<and> unencoded_offset e \<le> length (w_target w) \<and>
    pending w s0 c0 (unencoded_offset e) (acache e) (concat (enc_inst e)) (concat (enc_addr e))
      (concat (enc_data e)) (iout e)"

lemma grow_inst:
  assumes e: "emit_ok w e" "agreed w rs e" and out: "pages_ok (st_alloc e) out"
  shows "emit_ok w (e\<lparr>enc_free := free, enc_inst := out\<rparr>)"
    and "agreed w rs (e\<lparr>enc_free := free, enc_inst := out\<rparr>)"
proof -
  have "\<forall>k. pages_ok (st_alloc e) (enc_heads k e)" using e(1) unfolding emit_ok_def by blast
  note pp = pages_put [OF this out(1), of INST free]
  then show "emit_ok w (e\<lparr>enc_free := free, enc_inst := out\<rparr>)" using e(1) by (simp add: emit_ok_def)
  show "agreed w rs (e\<lparr>enc_free := free, enc_inst := out\<rparr>)" using e(2) by (subst agreed_cong [of _ e]) simp_all
qed

lemma emit_single_ok:
  assumes e: "emit_ok w e" and i: "code_entry (unat code) = single_code t 0 \<or> code_entry (unat code) = single_code t (rsize i)"
  shows "\<exists>free out k zb. xd3_emit_single e i code = Inr (e\<lparr>enc_free := free, enc_inst := out\<rparr>) \<and>
    pages_ok (st_alloc e) out \<and> concat out = concat (enc_inst e) @ code # zb \<and>
    code_entry (unat code) = single_code t k \<and> size_follows k (rsize i) zb"
proof -
  have pi: "pages_ok (st_alloc e) (enc_heads INST e)" using e unfolding emit_ok_def by blast
  obtain f1 o1 where b: "put_byte INST code e = Inr (e\<lparr>enc_free := f1, enc_inst := o1\<rparr>)"
      "pages_ok (st_alloc e) o1" "concat o1 = concat (enc_inst e) @ [code]"
    using put_byte_ok [OF pi, of code] by auto
  have ct: "code_table e = xd3_rfc3284_code_table" using e by (simp add: emit_ok_def)
  have f: "fetch (code_table e) (unat code) = Some (code_entry (unat code))"
    using unsigned_less [of code] by (simp add: ct fetch_def)
  define e1 where "e1 = e\<lparr>enc_free := f1, enc_inst := o1\<rparr>"
  show ?thesis
  proof (cases "code_entry (unat code) = single_code t 0")
    case True
    have "pages_ok (st_alloc e1) (enc_heads INST e1)" using b(2) by (simp add: e1_def)
    then obtain f2 o2 where n: "put_bytes INST (xd3_emit_uint64 (rsize i)) e1 = Inr (e1\<lparr>enc_free := f2, enc_inst := o2\<rparr>)"
        "pages_ok (st_alloc e) o2" "concat o2 = concat o1 @ xd3_emit_uint64 (rsize i)"
      using put_bytes_ok [of e1 INST "xd3_emit_uint64 (rsize i)"] by (auto simp: e1_def)
    then show ?thesis using True b f
      by (intro exI [of _ f2] exI [of _ o2] exI [of _ 0] exI [of _ "xd3_emit_uint64 (rsize i)"])
        (simp add: xd3_emit_single_def e1_def put_number_bytes single_code_def size_follows_def)
  next
    case False
    then have s: "code_entry (unat code) = single_code t (rsize i)" "rsize i \<noteq> 0" using i False by (cases "rsize i"; auto)+
    then show ?thesis using b f
      by (intro exI [of _ f1] exI [of _ o1] exI [of _ "rsize i"] exI [of _ "[]"])
        (simp add: xd3_emit_single_def single_code_def size_follows_def)
  qed
qed

lemma emit_double_ok:
  assumes e: "emit_ok w e"
  shows "\<exists>free out. xd3_emit_double e code = Inr (e\<lparr>enc_free := free, enc_inst := out\<rparr>) \<and>
    pages_ok (st_alloc e) out \<and> concat out = concat (enc_inst e) @ [code]"
proof -
  have "pages_ok (st_alloc e) (enc_heads INST e)" using e unfolding emit_ok_def by blast
  from put_byte_ok [OF this, of code] show ?thesis by (auto simp: xd3_emit_double_def)
qed

section \<open>Finishing an instruction\<close>

lemma unencoded_offset_frame: "enc_frame e' = enc_frame e \<Longrightarrow> next_in e' = next_in e \<and> st_alloc e' = st_alloc e \<and>
    iopt_size e' = iopt_size e \<and> enc_hdr e' = enc_hdr e \<and> enc_state e' = enc_state e \<and>
    match_maxaddr e' = match_maxaddr e \<and> match_minaddr e' = match_minaddr e"
  by (drule arg_cong [of _ _ "\<lambda>e. (next_in e, st_alloc e, iopt_size e, enc_hdr e, enc_state e, match_maxaddr e, match_minaddr e)"])
    (simp add: enc_frame_def)

lemma same_but_code1:
  assumes "i' = i\<lparr>code1 := x\<rparr>"
  shows "rtype i' = rtype i" "rsize i' = rsize i" "code2 i' = code2 i"
  by (simp_all add: assms)

lemma same_but_code2:
  assumes "i' = i\<lparr>code2 := x\<rparr>"
  shows "rtype i' = rtype i" "rsize i' = rsize i" "code1 i' = code1 i"
  by (simp_all add: assms)

text \<open>The choice of the code, when the operands of \<open>i\<close> are written.\<close>

definition coding ::
    "xd3_rinst option \<Rightarrow> xd3_rinst \<Rightarrow> 'sec xd3_encoder \<Rightarrow> xd3_rvalue + 'sec xd3_encoder" where
  "coding prev i2 e2 =
    (case prev of
       None \<Rightarrow> Inr (e2\<lparr>iout := Some i2\<rparr>)
     | Some p \<Rightarrow>
         if code2 p \<noteq> 0 then
           sum_bind (xd3_emit_double e2 (code2 p)) (\<lambda>e3.
           Inr ((xd3_iopt_free_nonadd i2 (xd3_iopt_free_nonadd p e3))\<lparr>iout := None\<rparr>))
         else
           sum_bind (xd3_emit_single e2 p (code1 p)) (\<lambda>e3.
           Inr ((xd3_iopt_free_nonadd p e3)\<lparr>iout := Some i2\<rparr>)))"

definition same_rest :: "'sec xd3_encoder \<Rightarrow> 'sec xd3_encoder \<Rightarrow> bool" where
  "same_rest e e' \<longleftrightarrow> unencoded_offset e' = unencoded_offset e \<and> iopt_used e' = iopt_used e \<and>
    enc_frame e' = enc_frame e"

lemma free_nonadd_fields [simp]:
  "enc_heads k (xd3_iopt_free_nonadd p e) = enc_heads k e" "acache (xd3_iopt_free_nonadd p e) = acache e"
  "unencoded_offset (xd3_iopt_free_nonadd p e) = unencoded_offset e" "iout (xd3_iopt_free_nonadd p e) = iout e"
  "iopt_used (xd3_iopt_free_nonadd p e) = iopt_used e" "enc_frame (xd3_iopt_free_nonadd p e) = enc_frame e"
  "next_in (xd3_iopt_free_nonadd p e) = next_in e" "code_table (xd3_iopt_free_nonadd p e) = code_table e"
  "st_alloc (xd3_iopt_free_nonadd p e) = st_alloc e" "src (xd3_iopt_free_nonadd p e) = src e"
  "srcwin_decided (xd3_iopt_free_nonadd p e) = srcwin_decided e" "taroff (xd3_iopt_free_nonadd p e) = taroff e"
  "enc_state (xd3_iopt_free_nonadd p e) = enc_state e" "match_maxaddr (xd3_iopt_free_nonadd p e) = match_maxaddr e"
  "match_minaddr (xd3_iopt_free_nonadd p e) = match_minaddr e"
  by (cases k; simp add: xd3_iopt_free_nonadd_def enc_frame_def)+

lemma emit_ok_free [simp]: "emit_ok w (xd3_iopt_free_nonadd p e) \<longleftrightarrow> emit_ok w e"
  by (simp add: emit_ok_def)

lemma agreed_free [simp]: "agreed w rs (xd3_iopt_free_nonadd p e) \<longleftrightarrow> agreed w rs e"
  by (rule agreed_cong) simp_all

lemma iout_update [simp]:
  "enc_heads k (e\<lparr>iout := x\<rparr>) = enc_heads k e" "enc_frame (e\<lparr>iout := x\<rparr>) = enc_frame e"
  "emit_ok w (e\<lparr>iout := x\<rparr>) \<longleftrightarrow> emit_ok w e" "agreed w rs (e\<lparr>iout := x\<rparr>) \<longleftrightarrow> agreed w rs e"
proof -
  show h: "enc_heads k (e\<lparr>iout := x\<rparr>) = enc_heads k e" for k by (cases k) simp_all
  show "enc_frame (e\<lparr>iout := x\<rparr>) = enc_frame e" by (simp add: enc_frame_def)
  show "emit_ok w (e\<lparr>iout := x\<rparr>) \<longleftrightarrow> emit_ok w e" by (simp add: emit_ok_def h)
  show "agreed w rs (e\<lparr>iout := x\<rparr>) \<longleftrightarrow> agreed w rs e" by (rule agreed_cong) simp_all
qed

lemma sections_free [simp]:
  "enc_inst (xd3_iopt_free_nonadd p e) = enc_inst e" "enc_addr (xd3_iopt_free_nonadd p e) = enc_addr e"
  "enc_data (xd3_iopt_free_nonadd p e) = enc_data e"
  by (simp_all add: xd3_iopt_free_nonadd_def)

lemma enc_frame_inst [simp]: "enc_frame (e\<lparr>enc_free := f, enc_inst := out\<rparr>) = enc_frame e"
  by (simp add: enc_frame_def)

lemma coding_ok:
  assumes w: "window_ok w" "ready w s0" and e: "emit_ok w e" "agreed w rs e" "unencoded_offset e \<le> length (w_target w)"
    and pend: "pending w s0 c0 off0 c (concat (enc_inst e)) A D (iout e)"
    and half: "half_for w off0 (rtype i) (rsize i) c a d addr (acache e)"
    and g: "concat (enc_addr e) = A @ a" "concat (enc_data e) = D @ d" "unencoded_offset e = off0 + rsize i"
    and i: "inst_type (rtype i)" "code2 i = 0" and ch: "xd3_choose_instruction (iout e) i = (prev, i2)"
  shows "\<exists>e'. coding prev i2 e = Inr e' \<and> enc_inv w s0 c0 rs e' \<and> same_rest e e'"
proof -
  note c = choose_code1 [OF i(1) ch]
  note c1 = conjunct2 [OF c]
  have i2: "rtype i2 = rtype i" "rsize i2 = rsize i" "code2 i2 = 0"
    using same_but_code1 [OF conjunct1 [OF c]] i(2) by simp_all
  show ?thesis
  proof (cases "iout e")
    case None
    then have "prev = None" using choose_prev [OF ch] by simp
    moreover have "runs w s0 c0 off0 c (concat (enc_inst e)) A D" using pend None by (simp add: pending_def)
    then have "pending w s0 c0 (unencoded_offset e) (acache e) (concat (enc_inst e)) (A @ a) (D @ d) (Some i2)"
      using half c1 i i2 g(3) by (fastforce simp: pending_def)
    ultimately show ?thesis using e g by (simp add: coding_def enc_inv_def same_rest_def)
  next
    case (Some p)
    then obtain A0 a0 D0 d0 q cq addr0 where p: "A = A0 @ a0" "D = D0 @ d0"
        "runs w s0 c0 q cq (concat (enc_inst e)) A0 D0" "half_for w q (rtype p) (rsize p) cq a0 d0 addr0 c"
        "off0 = q + rsize p" "code2 p = 0" "inst_type (rtype p)"
        "code_entry (unat (code1 p)) = single_code (rtype p) 0 \<or>
         code_entry (unat (code1 p)) = single_code (rtype p) (rsize p)"
      using pend by (auto simp: pending_def)
    have pos: "0 < rsize p" using half_for_bounds [OF p(4)] by simp
    obtain p' where p': "prev = Some p'" "p' = p\<lparr>code2 := code2 p'\<rparr>"
        "code2 p' \<noteq> 0 \<longrightarrow> code_entry (unat (code2 p')) = pair_code p i"
      using choose_code2 [OF i(1) p(7,6) pos ch [unfolded Some]] by blast
    have pf: "rtype p' = rtype p" "rsize p' = rsize p" "code1 p' = code1 p"
      by (rule same_but_code2 [OF p'(2)])+
    show ?thesis
    proof (cases "code2 p' = 0")
      case True
      obtain free out k zb where em: "xd3_emit_single e p' (code1 p') = Inr (e\<lparr>enc_free := free, enc_inst := out\<rparr>)"
          "pages_ok (st_alloc e) out" "concat out = concat (enc_inst e) @ code1 p' # zb"
          "code_entry (unat (code1 p')) = single_code (rtype p) k" "size_follows k (rsize p) zb"
        using emit_single_ok [OF e(1), of "code1 p'" "rtype p" p'] p(8) pf by auto
      have "runs w s0 c0 off0 c (concat out) A D"
        using runs_single [OF w p(3,4) em(4,5)] by (simp add: em(3) p)
      then have "pending w s0 c0 (unencoded_offset e) (acache e) (concat out) (A @ a) (D @ d) (Some i2)"
        using half c1 i i2 g(3) by (fastforce simp: pending_def)
      then show ?thesis using True p'(1) em(1) grow_inst [OF e(1,2) em(2), of free] e(3) g
        by (simp add: coding_def enc_inv_def same_rest_def)
    next
      case False
      obtain free out where em: "xd3_emit_double e (code2 p') = Inr (e\<lparr>enc_free := free, enc_inst := out\<rparr>)"
          "pages_ok (st_alloc e) out" "concat out = concat (enc_inst e) @ [code2 p']"
        using emit_double_ok [OF e(1)] by blast
      have pc: "code_entry (unat (code2 p')) = \<lparr>type1 = rtype p, size1 = rsize p, type2 = rtype i, size2 = rsize i\<rparr>"
        using p'(3) False by (simp add: pair_code_def)
      have "runs w s0 c0 (unencoded_offset e) (acache e) (concat out) (A @ a) (D @ d)"
        using runs_pair [OF w p(3,4) half [unfolded p(5)] pc] by (simp add: em(3) p g(3))
      then show ?thesis using False p'(1) em(1) grow_inst [OF e(1,2) em(2), of free] e(3) g
        by (simp add: coding_def enc_inv_def same_rest_def pending_def)
    qed
  qed
qed

text \<open>The state between the operands and the code: \<open>e\<close> is before, \<open>e2\<close> after the operands of \<open>i\<close>.\<close>

lemma finish_ok:
  assumes w: "window_ok w" "ready w s0" and e: "enc_inv w s0 c0 (i # rs) e"
    and i: "any_inst_ok w i" "rpos i = unencoded_offset e"
  shows "\<exists>e'. xd3_iopt_finish_encoding e i = Inr e' \<and> enc_inv w s0 c0 rs e' \<and>
    unencoded_offset e' = rpos i + rsize i \<and> iopt_used e' = iopt_used e \<and> enc_frame e' = enc_frame e"
proof -
  have ev: "emit_ok w e" "agreed w (i # rs) e" using e by (auto simp: enc_inv_def)
  obtain e1 t a d addr where o: "encode_operands e i = Inr (e1, i\<lparr>rtype := t\<rparr>)" "inst_type t"
      "half_for w (rpos i) t (rsize i) (acache e) a d addr (acache e1)" "emit_ok w e1" "agreed w rs e1"
      "sections_grow e a d e1"
    using operands_ok [OF w(1) ev i(1)] by blast
  define off where "off = unencoded_offset e + rsize i"
  have b: "0 < rsize i" "off \<le> length (w_target w)" using half_for_bounds [OF o(3)] i(2) by (auto simp: off_def)
  then have off64: "add64 (unencoded_offset e1) (rsize i) = off"
    using w(1) o(6) by (simp add: window_ok_def off_def sections_grow_def)
  define e2 where "e2 = e1\<lparr>unencoded_offset := off\<rparr>"
  define i1 where "i1 = i\<lparr>rtype := t, code2 := 0\<rparr>"
  have i1: "inst_type (rtype i1)" "rsize i1 = rsize i" "rtype i1 = t" "code2 i1 = 0" using o(2) by (simp_all add: i1_def)
  have e2: "emit_ok w e2" "agreed w rs e2"
  proof -
    have "enc_heads k e2 = enc_heads k e1" for k by (cases k) (simp_all add: e2_def)
    then show "emit_ok w e2" using o(4) by (simp add: emit_ok_def e2_def)
    show "agreed w rs e2" using o(5) by (subst agreed_cong [of _ e1]) (simp_all add: e2_def)
  qed
  have g: "concat (enc_inst e2) = concat (enc_inst e)" "concat (enc_addr e2) = concat (enc_addr e) @ a"
      "concat (enc_data e2) = concat (enc_data e) @ d" "iout e2 = iout e" "iopt_used e2 = iopt_used e"
      "enc_frame e2 = enc_frame e" "unencoded_offset e2 = off" "acache e2 = acache e1"
    using o(6) by (auto simp: sections_grow_def e2_def enc_frame_def)
  have half: "half_for w (unencoded_offset e) t (rsize i) (acache e) a d addr (acache e2)"
    using o(3) i(2) g(8) by simp
  obtain prev i2 where ch: "xd3_choose_instruction (iout e2) i1 = (prev, i2)" by fastforce
  have fin: "xd3_iopt_finish_encoding e i = coding prev i2 e2"
    using off64 ch [unfolded e2_def, simplified] by (simp add: xd3_iopt_finish_encoding_def o(1) e2_def [symmetric] i1_def [symmetric] coding_def)
  have pend: "pending w s0 c0 (unencoded_offset e) (acache e) (concat (enc_inst e2)) (concat (enc_addr e))
      (concat (enc_data e)) (iout e2)"
    using e g by (simp add: enc_inv_def)
  have "off = unencoded_offset e + rsize i1" by (simp add: off_def i1(2))
  then show ?thesis
    using coding_ok [OF w e2 _ pend _ g(2,3) _ i1(1,4) ch] half i1 g b(2) i(2)
    by (auto simp: fin same_rest_def)
qed

section \<open>The whole window\<close>

lemma iopt_used_update [simp]:
  "enc_frame (e\<lparr>iopt_used := x\<rparr>) = enc_frame e" "enc_frame (e\<lparr>iopt_used := x, iopt_free := n\<rparr>) = enc_frame e"
  "enc_inv w s0 c0 rs (e\<lparr>iopt_used := x\<rparr>) \<longleftrightarrow> enc_inv w s0 c0 rs e"
  "enc_inv w s0 c0 rs (e\<lparr>iopt_used := x, iopt_free := n\<rparr>) \<longleftrightarrow> enc_inv w s0 c0 rs e"
proof -
  have h: "enc_heads k (e\<lparr>iopt_used := x\<rparr>) = enc_heads k e" "enc_heads k (e\<lparr>iopt_used := x, iopt_free := n\<rparr>) = enc_heads k e"
    for k by (cases k; simp)+
  have a: "agreed w rs (e\<lparr>iopt_used := x\<rparr>) \<longleftrightarrow> agreed w rs e"
      "agreed w rs (e\<lparr>iopt_used := x, iopt_free := n\<rparr>) \<longleftrightarrow> agreed w rs e" by (rule agreed_cong; simp)+
  show "enc_inv w s0 c0 rs (e\<lparr>iopt_used := x\<rparr>) \<longleftrightarrow> enc_inv w s0 c0 rs e"
    "enc_inv w s0 c0 rs (e\<lparr>iopt_used := x, iopt_free := n\<rparr>) \<longleftrightarrow> enc_inv w s0 c0 rs e"
    by (simp_all add: enc_inv_def emit_ok_def h a)
qed (simp_all add: enc_frame_def)

lemma iopt_add_ok:
  assumes w: "window_ok w" "ready w s0" and e: "enc_inv w s0 c0 rs e" "pos \<le> length (w_target w)"
  shows "\<exists>e'. xd3_iopt_add e pos = Inr e' \<and> enc_inv w s0 c0 rs e' \<and>
    unencoded_offset e' = max (unencoded_offset e) pos \<and> iopt_used e' = iopt_used e \<and> enc_frame e' = enc_frame e"
proof (cases "unencoded_offset e < pos")
  case True
  define i where "i = add_inst (unencoded_offset e) (pos - unencoded_offset e)"
  have i: "any_inst_ok w i" "rpos i = unencoded_offset e" "rpos i + rsize i = pos" "rtype i \<noteq> XD3_CPY"
    using True e(2) by (auto simp: i_def add_inst_def any_inst_ok_def XD3_ADD_def XD3_CPY_def)
  have "enc_inv w s0 c0 (i # rs) e" using e(1) by (simp add: enc_inv_def agreed_no_copy [OF i(4)])
  from finish_ok [OF w this i(1,2)] show ?thesis using True i(3)
    by (auto simp: xd3_iopt_add_def i_def [symmetric])
next
  case False
  then show ?thesis using e(1) by (simp add: xd3_iopt_add_def max_def)
qed

text \<open>Instructions one after the other, from \<open>off\<close> on.\<close>

fun chained :: "nat \<Rightarrow> xd3_rinst list \<Rightarrow> bool" where
  "chained off [] = True"
| "chained off (r # rs) = (off \<le> rpos r \<and> chained (rpos r + rsize r) rs)"

lemma add_encoding_ok:
  assumes w: "window_ok w" "ready w s0" and e: "enc_inv w s0 c0 (i # rs) e"
    and i: "inst_ok w i" "unencoded_offset e \<le> rpos i"
  shows "\<exists>e'. xd3_iopt_add_encoding e i = Inr e' \<and> enc_inv w s0 c0 rs e' \<and>
    unencoded_offset e' = rpos i + rsize i \<and> iopt_used e' = iopt_used e \<and> enc_frame e' = enc_frame e"
proof -
  have "rpos i \<le> length (w_target w)" using i(1) by (simp add: inst_ok_def)
  from iopt_add_ok [OF w e this] obtain e1 where e1: "xd3_iopt_add e (rpos i) = Inr e1"
      "enc_inv w s0 c0 (i # rs) e1" "unencoded_offset e1 = rpos i" "iopt_used e1 = iopt_used e"
      "enc_frame e1 = enc_frame e" using i(2) by (auto simp: max_def)
  have "any_inst_ok w i" using i(1) by (simp add: any_inst_ok_def)
  from finish_ok [OF w e1(2) this e1(3) [symmetric]] show ?thesis
    using e1 by (auto simp: xd3_iopt_add_encoding_def)
qed

lemma drain_ok:
  assumes w: "window_ok w" "ready w s0"
  shows "enc_inv w s0 c0 rs e \<Longrightarrow> \<forall>r\<in>set rs. inst_ok w r \<Longrightarrow> chained (unencoded_offset e) rs \<Longrightarrow>
    iopt_used e = rs \<Longrightarrow>
    \<exists>e'. drain_loop True n rs e = Inr e' \<and> enc_inv w s0 c0 [] e' \<and> iopt_used e' = [] \<and> enc_frame e' = enc_frame e"
proof (induction rs arbitrary: n e)
  case (Cons r rs)
  have "enc_inv w s0 c0 (r # rs) (e\<lparr>iopt_used := rs\<rparr>)" using Cons.prems(1) by simp
  moreover have "inst_ok w r" "unencoded_offset (e\<lparr>iopt_used := rs\<rparr>) \<le> rpos r" using Cons.prems by auto
  ultimately obtain e1 where e1: "xd3_iopt_add_encoding (e\<lparr>iopt_used := rs\<rparr>) r = Inr e1" "enc_inv w s0 c0 rs e1"
      "unencoded_offset e1 = rpos r + rsize r" "iopt_used e1 = rs" "enc_frame e1 = enc_frame e"
    using add_encoding_ok [OF w] by fastforce
  from Cons.IH [OF e1(2), of "n + 1"] Cons.prems(2,3) e1 show ?case by auto
qed simp

lemma finalize_ok:
  assumes w: "window_ok w" "ready w s0" and e: "enc_inv w s0 c0 [] e"
  shows "\<exists>e'. xd3_iopt_add_finalize e = Inr e' \<and> emit_ok w e' \<and> agreed w [] e' \<and> iout e' = None \<and>
    runs w s0 c0 (length (w_target w)) (acache e') (concat (enc_inst e')) (concat (enc_addr e')) (concat (enc_data e')) \<and>
    iopt_used e' = iopt_used e \<and> enc_frame e' = enc_frame e"
proof -
  have ni: "next_in e = w_target w" "unencoded_offset e \<le> length (w_target w)"
    using e by (auto simp: enc_inv_def emit_ok_def)
  obtain e1 where e1: "xd3_iopt_add e (length (w_target w)) = Inr e1" "enc_inv w s0 c0 [] e1"
      "unencoded_offset e1 = length (w_target w)" "iopt_used e1 = iopt_used e" "enc_frame e1 = enc_frame e"
    using iopt_add_ok [OF w e, of "length (w_target w)"] ni(2) by (auto simp: max_def)
  have ev: "emit_ok w e1" "agreed w [] e1" and pend: "pending w s0 c0 (length (w_target w)) (acache e1)
      (concat (enc_inst e1)) (concat (enc_addr e1)) (concat (enc_data e1)) (iout e1)"
    using e1(2,3) by (auto simp: enc_inv_def)
  show ?thesis
  proof (cases "iout e1")
    case None
    then show ?thesis using e1 ev pend ni(1) by (simp add: xd3_iopt_add_finalize_def pending_def)
  next
    case (Some i)
    then obtain A0 a D0 d p c addr where i: "concat (enc_addr e1) = A0 @ a" "concat (enc_data e1) = D0 @ d"
        "runs w s0 c0 p c (concat (enc_inst e1)) A0 D0"
        "half_for w p (rtype i) (rsize i) c a d addr (acache e1)" "length (w_target w) = p + rsize i"
        "code_entry (unat (code1 i)) = single_code (rtype i) 0 \<or>
         code_entry (unat (code1 i)) = single_code (rtype i) (rsize i)"
      using pend by (auto simp: pending_def)
    obtain free out k zb where em: "xd3_emit_single e1 i (code1 i) = Inr (e1\<lparr>enc_free := free, enc_inst := out\<rparr>)"
        "pages_ok (st_alloc e1) out" "concat out = concat (enc_inst e1) @ code1 i # zb"
        "code_entry (unat (code1 i)) = single_code (rtype i) k" "size_follows k (rsize i) zb"
      using emit_single_ok [OF ev(1) i(6)] by blast
    show ?thesis
      using runs_single [OF w i(3,4) em(4,5)] em(1,3) i(1,2,5) Some e1 ni(1) grow_inst [OF ev em(2), of free]
      by (simp add: xd3_iopt_add_finalize_def)
  qed
qed

end
