(* ===== verification/Xd3Compact.thy ===== *)
theory Xd3Compact
  imports Xd3EncodeRun
begin

text \<open>
  The first loop of \<open>xd3_iopt_flush_instructions\<close>: from instructions that are right for the window,
  in the order of their starts and of their ends but possibly overlapping, it picks and shortens
  instructions until they are one after the other, and they are still right for the window.
\<close>

unbundle bit_operations_syntax

section \<open>Shortened instructions\<close>

lemma copies_prefix: "copies w p sz addr \<Longrightarrow> n \<le> sz \<Longrightarrow> copies w p n addr"
proof -
  assume c: "copies w p sz addr" "n \<le> sz"
  have "take n (drop p (w_target w)) = take n (drop (w_base w + addr) (w_source w))"
    if "take sz (drop p (w_target w)) = take sz (drop (w_base w + addr) (w_source w))"
    using arg_cong [OF that, of "take n"] c(2) by (simp add: min_def split: if_splits)
  then show "copies w p n addr" using c by (auto simp: copies_def)
qed

lemma copies_suffix: "copies w p sz addr \<Longrightarrow> k < sz \<Longrightarrow> copies w (p + k) (sz - k) (addr + k)"
proof -
  assume c: "copies w p sz addr" "k < sz"
  have "take (sz - k) (drop (p + k) (w_target w)) = take (sz - k) (drop (w_base w + (addr + k)) (w_source w))"
    if "take sz (drop p (w_target w)) = take sz (drop (w_base w + addr) (w_source w))"
    using arg_cong [OF that, of "drop k"] c(2) by (simp add: drop_take add.commute add.left_commute)
  moreover have "w_target w ! (p + k + j) = w_target w ! (addr + k - w_len w + j)"
    if "\<forall>k < sz. w_target w ! (p + k) = w_target w ! (addr - w_len w + k)" "w_len w \<le> addr" "j < sz - k" for j
  proof -
    have "k + j < sz" using that(3) by simp
    then show ?thesis using that(1) [rule_format, of "k + j"] that(2) by (simp add: add.assoc)
  qed
  ultimately show "copies w (p + k) (sz - k) (addr + k)" using c unfolding copies_def by auto
qed

lemma replicate_prefix: "take sz xs = replicate sz b \<Longrightarrow> n \<le> sz \<Longrightarrow> take n xs = replicate n b"
  by (metis min.absorb1 take_replicate take_take)

lemma replicate_suffix: "take sz (drop p xs) = replicate sz b \<Longrightarrow> take (sz - k) (drop (p + k) xs) = replicate (sz - k) b"
  by (metis add.commute drop_drop drop_replicate drop_take)

lemma CPY_RUN: "XD3_CPY \<noteq> XD3_RUN"
  by (simp add: XD3_CPY_def XD3_RUN_def)

lemma inst_ok_prefix:
  "inst_ok w r \<Longrightarrow> 0 < n \<Longrightarrow> n \<le> rsize r \<Longrightarrow> inst_ok w (r\<lparr>rsize := n\<rparr>)"
  using replicate_prefix [of "rsize r" "drop (rpos r) (w_target w)" "xtra r" n]
    copies_prefix [of w "rpos r" "rsize r" "combined_addr w r" n]
  by (auto simp: inst_ok_def combined_addr_def split: if_splits)

lemma inst_ok_suffix:
  assumes "inst_ok w r" "k < rsize r" "rtype r = XD3_CPY \<longrightarrow> a = raddr r + k"
  shows "inst_ok w (r\<lparr>rsize := rsize r - k, rpos := rpos r + k, raddr := a\<rparr>)"
proof (cases "rtype r = XD3_RUN")
  case True
  then show ?thesis using assms replicate_suffix [of "rsize r" "rpos r" "w_target w" "xtra r" k]
    by (simp add: inst_ok_def)
next
  case False
  then have c: "rtype r = XD3_CPY" "copies w (rpos r) (rsize r) (combined_addr w r)" "a = raddr r + k"
      "if xtra r \<noteq> 0 then w_base w \<le> raddr r \<and> raddr r < w_base w + w_len w else raddr r < rpos r"
    using assms by (auto simp: inst_ok_def split: if_splits)
  define r' where "r' = r\<lparr>rsize := rsize r - k, rpos := rpos r + k, raddr := a\<rparr>"
  have "combined_addr w r' = combined_addr w r + k" using c by (auto simp: combined_addr_def r'_def split: if_splits)
  then have "copies w (rpos r') (rsize r') (combined_addr w r')"
    using copies_suffix [OF c(2) assms(2)] by (simp add: r'_def)
  moreover have "if xtra r \<noteq> 0 then w_base w \<le> a \<and> a < w_base w + w_len w else a < rpos r + k"
    using c assms(2) by (auto simp: copies_def combined_addr_def split: if_splits)
  ultimately show ?thesis using assms(1,2) c(1) CPY_RUN
    by (auto simp: inst_ok_def r'_def)
qed

section \<open>Order\<close>

definition ends_later :: "xd3_rinst \<Rightarrow> xd3_rinst \<Rightarrow> bool" where
  "ends_later r1 r2 \<longleftrightarrow> rpos r1 < rpos r2 \<and> rpos r1 + rsize r1 < rpos r2 + rsize r2"

lemma inst_end_ok: "window_ok w \<Longrightarrow> inst_ok w r \<Longrightarrow> inst_end r = rpos r + rsize r \<and> inst_end r \<le> length (w_target w)"
  by (auto simp: inst_end_def window_ok_def inst_ok_def)

lemma raddr_ok: "window_ok w \<Longrightarrow> inst_ok w r \<Longrightarrow> rtype r = XD3_CPY \<Longrightarrow> raddr r + rsize r < 2 ^ 64"
  using CPY_RUN by (auto simp: inst_ok_def window_ok_def split: if_splits)

lemma shorten_ok:
  assumes w: "window_ok w" and r: "inst_ok w r1" "inst_ok w r2" "ends_later r1 r2"
    and over: "rpos r2 < inst_end r1" "2 < sub64 (rpos r2) (rpos r1)"
    and s: "shorten_pair r1 r2 = (r1', r2')"
  shows "inst_ok w r1' \<and> inst_ok w r2' \<and> rpos r1' = rpos r1 \<and> rpos r1' + rsize r1' \<le> rpos r2' \<and>
    rpos r2 \<le> rpos r2' \<and> rpos r2' \<le> inst_end r1 \<and> rpos r2' + rsize r2' = rpos r2 + rsize r2 \<and>
    rtype r1' = rtype r1 \<and> rtype r2' = rtype r2 \<and> xtra r2' = xtra r2 \<and> xtra r1' = xtra r1"
proof -
  define p1 z1 p2 z2 where "p1 = rpos r1" and "z1 = rsize r1" and "p2 = rpos r2" and "z2 = rsize r2"
  have e: "inst_end r1 = p1 + z1" "inst_end r2 = p2 + z2" "p2 + z2 \<le> length (w_target w)"
    using inst_end_ok [OF w r(1)] inst_end_ok [OF w r(2)] by (auto simp: p1_def z1_def p2_def z2_def)
  have W: "length (w_target w) < 2 ^ 63" using w by (simp add: window_ok_def)
  have o: "p1 + 2 < p2" "p2 < p1 + z1" "p1 + z1 < p2 + z2"
    using r(3) over e W by (auto simp: ends_later_def p1_def p2_def z1_def z2_def)
  define newsize where "newsize = min MAX_MATCH_SPLIT (p2 + z2 - p1 - (p2 + z2 - p1) div 2)"
  have nz: "0 < newsize" using o by (auto simp: newsize_def MAX_MATCH_SPLIT_def)
  define adj where "adj = (if z1 < newsize then p1 + z1 - p2 else if z2 < newsize then 0
      else if p1 + newsize < p2 then 0 else p1 + newsize - p2)"
  define n1 where "n1 = (if z1 < newsize then z1 else if z2 < newsize then p2 - p1 else max newsize (p2 - p1))"
  have gap: "sub64 (inst_end r2) p1 = p2 + z2 - p1" using o e W by simp
  have ns: "min MAX_MATCH_SPLIT (sub64 (p2 + z2 - p1) ((p2 + z2 - p1) div 2)) = newsize"
    using o e W by (simp add: newsize_def)
  note folds = p1_def [symmetric] p2_def [symmetric] z1_def [symmetric] z2_def [symmetric]
  have s': "(case (if z1 < newsize then (r1, sub64 (p1 + z1) p2)
            else if z2 < newsize then (r1\<lparr>rsize := sub64 z1 (sub64 (p1 + z1) p2)\<rparr>, 0)
            else (r1\<lparr>rsize := sub64 z1 (if sub64 (p1 + z1) (sub64 z1 newsize) < p2
                    then sub64 (sub64 z1 newsize) (sub64 p2 (sub64 (p1 + z1) (sub64 z1 newsize)))
                    else sub64 z1 newsize)\<rparr>,
                  sub64 (inst_end (r1\<lparr>rsize := sub64 z1 (if sub64 (p1 + z1) (sub64 z1 newsize) < p2
                    then sub64 (sub64 z1 newsize) (sub64 p2 (sub64 (p1 + z1) (sub64 z1 newsize)))
                    else sub64 z1 newsize)\<rparr>)) p2)) of
       (r, adjust1) \<Rightarrow> (r, r2\<lparr>rsize := sub64 z2 adjust1, rpos := add64 p2 adjust1,
             raddr := add64 (raddr r2) adjust1\<rparr>)) = (r1', r2')"
    using s by (simp only: shorten_pair_def Let_def folds gap ns e(1))
  have res: "r1' = r1\<lparr>rsize := n1\<rparr> \<and>
      r2' = r2\<lparr>rsize := sub64 z2 adj, rpos := add64 p2 adj, raddr := add64 (raddr r2) adj\<rparr>"
  proof -
    consider "z1 < newsize" | "\<not> z1 < newsize" "z2 < newsize" | "newsize \<le> z1" "newsize \<le> z2" "p1 + newsize < p2"
      | "newsize \<le> z1" "newsize \<le> z2" "p2 \<le> p1 + newsize" by linarith
    then show ?thesis
    proof cases
      case 1
      have "sub64 (p1 + z1) p2 = p1 + z1 - p2" "r1\<lparr>rsize := z1\<rparr> = r1" using o e W by (simp_all add: z1_def)
      then show ?thesis using s' 1 by (auto simp: adj_def n1_def)
    next
      case 2
      have "sub64 (p1 + z1) p2 = p1 + z1 - p2" "sub64 z1 (p1 + z1 - p2) = p2 - p1" using o e W by simp_all
      then show ?thesis using s' 2 by (auto simp: adj_def n1_def)
    next
      case 3
      have a: "sub64 z1 newsize = z1 - newsize" "sub64 (p1 + z1) (z1 - newsize) = p1 + newsize"
          "sub64 p2 (p1 + newsize) = p2 - (p1 + newsize)"
          "sub64 (z1 - newsize) (p2 - (p1 + newsize)) = z1 + p1 - p2" "sub64 z1 (z1 + p1 - p2) = p2 - p1"
          "sub64 (inst_end (r1\<lparr>rsize := p2 - p1\<rparr>)) p2 = 0"
        using 3 o e W by (simp_all add: inst_end_def folds)
      then show ?thesis using s' 3 by (auto simp: adj_def n1_def max_def)
    next
      case 4
      have a: "sub64 z1 newsize = z1 - newsize" "sub64 (p1 + z1) (z1 - newsize) = p1 + newsize"
          "sub64 z1 (z1 - newsize) = newsize" "sub64 (inst_end (r1\<lparr>rsize := newsize\<rparr>)) p2 = p1 + newsize - p2"
        using 4 o e W by (simp_all add: inst_end_def folds)
      then show ?thesis using s' 4 by (auto simp: adj_def n1_def max_def)
    qed
  qed
  have b: "0 < n1" "n1 \<le> z1" "p1 + n1 \<le> p2 + adj" "p2 + adj \<le> p1 + z1" "adj < z2"
    using o nz by (auto simp: n1_def adj_def)
  have w64: "sub64 z2 adj = z2 - adj" "add64 p2 adj = p2 + adj" using b e W by auto
  have "inst_ok w (r2\<lparr>rsize := rsize r2 - adj, rpos := rpos r2 + adj, raddr := add64 (raddr r2) adj\<rparr>)"
    using raddr_ok [OF w r(2)] b(5) by (intro inst_ok_suffix [OF r(2)]) (auto simp: z2_def)
  moreover have "inst_ok w (r1\<lparr>rsize := n1\<rparr>)" using inst_ok_prefix [OF r(1)] b(1,2) by (simp add: z1_def)
  ultimately show ?thesis using res b e(1) w64 by (simp add: folds)
qed

section \<open>The loop\<close>

definition ordered :: "xd3_rinst list \<Rightarrow> bool" where
  "ordered rs \<longleftrightarrow> sorted_wrt ends_later rs"

lemma ordered_simps [simp]:
  "ordered []" "ordered (r # rs) \<longleftrightarrow> (\<forall>x\<in>set rs. ends_later r x) \<and> ordered rs"
  by (simp_all add: ordered_def)

lemma ordered_shortened:
  assumes "ordered (r2 # rest)" "rpos r2' + rsize r2' = rpos r2 + rsize r2"
    and "rest \<noteq> [] \<Longrightarrow> rpos r2' < rpos (hd rest)"
  shows "ordered (r2' # rest)"
proof -
  have "rpos r2' < rpos x" if "x \<in> set rest" for x
  proof (cases rest)
    case (Cons y ys)
    then show ?thesis using that assms(1,3) by (auto simp: ends_later_def)
  qed (use that in simp)
  then show ?thesis using assms(1,2) by (auto simp: ends_later_def)
qed

definition compacted :: "vcd_window \<Rightarrow> xd3_rinst list \<Rightarrow> xd3_rinst list \<Rightarrow> bool" where
  "compacted w rs rs' \<longleftrightarrow> (\<forall>r\<in>set rs'. inst_ok w r) \<and> (rs \<noteq> [] \<longrightarrow> chained (rpos (hd rs)) rs') \<and>
    (rs = [] \<longrightarrow> rs' = []) \<and>
    (\<forall>r'\<in>set rs'. \<exists>r\<in>set rs. rtype r' = rtype r \<and> xtra r' = xtra r)"

lemma chained_mono: "chained off rs \<Longrightarrow> off' \<le> off \<Longrightarrow> chained off' rs"
  by (cases rs) auto

lemma compacted_cons:
  assumes "compacted w rs rs'" "inst_ok w r'" "rpos r' = rpos r" "rtype r' = rtype r" "xtra r' = xtra r"
    and "rs \<noteq> [] \<Longrightarrow> rpos r' + rsize r' \<le> rpos (hd rs)"
  shows "compacted w (r # rs) (r' # rs')"
proof -
  have "chained (rpos r' + rsize r') rs'"
    using assms(1,6) by (cases "rs = []") (auto simp: compacted_def intro: chained_mono)
  then show ?thesis using assms(1-5) by (auto simp: compacted_def)
qed

lemma compacted_drop:
  assumes "compacted w (r # rest) rs'" "rpos r0 \<le> rpos r" "r \<in> set all" "set rest \<subseteq> set all"
  shows "compacted w (r0 # all) rs'"
proof -
  have "\<exists>x\<in>set (r0 # all). rtype r' = rtype x \<and> xtra r' = xtra x" if r': "r' \<in> set rs'" for r'
  proof -
    obtain x where "x \<in> set (r # rest)" "rtype r' = rtype x \<and> xtra r' = xtra x"
      using assms(1) r' unfolding compacted_def by blast
    then show ?thesis using assms(3,4) by (intro bexI [of _ x]) auto
  qed
  then show ?thesis using assms(1,2) by (auto simp: compacted_def intro: chained_mono)
qed

lemma compact_ok:
  assumes w: "window_ok w"
  shows "ordered rs \<Longrightarrow> \<forall>r\<in>set rs. inst_ok w r \<Longrightarrow> compacted w rs (compact_loop True rs)"
proof (induction rs rule: length_induct)
  case (1 rs)
  show ?case
  proof (cases rs)
    case Nil
    then show ?thesis by (simp add: compacted_def)
  next
    case (Cons r1 rs1)
    note c1 = this
    show ?thesis
    proof (cases rs1)
      case Nil
      then show ?thesis using c1 1(3) by (auto simp: compacted_def)
    next
      case (Cons r2 rest)
      have rs: "rs = r1 # r2 # rest" using c1 Cons by simp
      have IH: "compacted w xs (compact_loop True xs)" if "ordered xs" "\<forall>r\<in>set xs. inst_ok w r" "length xs < length rs" for xs
        using 1(1) that by blast
      have r: "inst_ok w r1" "inst_ok w r2" "\<forall>r\<in>set rest. inst_ok w r" "ends_later r1 r2" "ordered (r2 # rest)"
          "ordered (r1 # rest)" "ordered rest" using 1(2,3) rs by auto
      have e1: "inst_end r1 = rpos r1 + rsize r1" "add64 (inst_end r1) 1 = inst_end r1 + 1"
        using inst_end_ok [OF w r(1)] w by (auto simp: window_ok_def)
      consider (apart) "inst_end r1 \<le> rpos r2"
        | (irrelevant) "rpos r2 < inst_end r1" "rest \<noteq> []" "rpos (hd rest) \<le> inst_end r1 + 1"
        | (overlap) "rpos r2 < inst_end r1" "rest = [] \<or> inst_end r1 + 1 < rpos (hd rest)" by fastforce
      then show ?thesis
      proof cases
        case apart
        have "compacted w (r2 # rest) (compact_loop True (r2 # rest))" using IH r rs by simp
        from compacted_cons [OF this r(1)] apart e1(1) show ?thesis by (simp add: rs)
      next
        case irrelevant
        have "compacted w (r1 # rest) (compact_loop True (r1 # rest))" using IH r rs by simp
        then show ?thesis using irrelevant e1(2) by (auto simp: rs compacted_def)
      next
        case overlap
        define short where "short \<longleftrightarrow> sub64 (inst_end r2) (rpos r1) < 2 * MIN_MATCH \<or>
          sub64 (inst_end r2) (inst_end r1) \<le> 2 \<or> sub64 (rpos r2) (rpos r1) \<le> 2"
        have not: "\<not> (rest \<noteq> [] \<and> rpos (hd rest) \<le> add64 (inst_end r1) 1)" using overlap(2) e1(2) by auto
        then have eq: "compact_loop True rs =
            (if short then (if rsize r1 < rsize r2 then compact_loop True (r2 # rest) else r1 # compact_loop True rest)
             else fst (shorten_pair r1 r2) # compact_loop True (snd (shorten_pair r1 r2) # rest))"
        proof -
          have "\<not> inst_end r1 \<le> rpos r2" "\<not> (rest = [] \<and> \<not> True)" using overlap(1) by simp_all
          then show ?thesis
            unfolding rs compact_loop.simps(1) Let_def short_def by (simp only: not if_False)
        qed
        show ?thesis
        proof (cases short)
          case True
          show ?thesis
          proof (cases "rsize r1 < rsize r2")
            case True
            have "compacted w (r2 # rest) (compact_loop True (r2 # rest))" using IH r rs by simp
            then have "compacted w (r1 # r2 # rest) (compact_loop True (r2 # rest))"
              by (rule compacted_drop) (use r(4) in \<open>auto simp: ends_later_def\<close>)
            then show ?thesis using True \<open>short\<close> by (simp add: eq) (simp add: rs)
          next
            case False
            have "compacted w rest (compact_loop True rest)" using IH r rs by simp
            then have "compacted w (r1 # rest) (r1 # compact_loop True rest)"
              by (rule compacted_cons [OF _ r(1)]) (use overlap(2) e1(1) in auto)
            then show ?thesis using False \<open>short\<close> by (simp add: eq) (auto simp: rs compacted_def)
          qed
        next
          case False
          obtain r1' r2' where s: "shorten_pair r1 r2 = (r1', r2')" by fastforce
          have "2 < sub64 (rpos r2) (rpos r1)" using False by (simp add: short_def)
          note so = shorten_ok [OF w r(1,2,4) overlap(1) this s]
          have "ordered (r2' # rest)" using so overlap(2) by (intro ordered_shortened [OF r(5)]) auto
          then have "compacted w (r2' # rest) (compact_loop True (r2' # rest))" using IH r(3) so rs by simp
          then have "compacted w (r1 # r2' # rest) (r1' # compact_loop True (r2' # rest))"
            by (rule compacted_cons) (use so in auto)
          then show ?thesis using False so by (simp add: eq s) (auto simp: rs compacted_def)
        qed
      qed
    qed
  qed
qed

section \<open>Flushing\<close>

text \<open>The sections that the flush of a fresh window leaves.\<close>

definition fresh_window :: "vcd_window \<Rightarrow> 'sec xd3_encoder \<Rightarrow> bool" where
  "fresh_window w e \<longleftrightarrow> emit_ok w e \<and> agreed w (compact_loop True (iopt_used e)) e \<and> unencoded_offset e = 0 \<and>
    iout e = None \<and> concat (enc_inst e) = [] \<and> concat (enc_addr e) = [] \<and> concat (enc_data e) = []"

lemma flush_ok:
  assumes w: "window_ok w" "ready w s0" and e: "fresh_window w e"
    and i: "chained 0 (compact_loop True (iopt_used e))" "\<forall>r\<in>set (compact_loop True (iopt_used e)). inst_ok w r"
  shows "\<exists>e1 e2. xd3_iopt_flush_instructions e True = Inr e1 \<and> xd3_iopt_add_finalize e1 = Inr e2 \<and>
    emit_ok w e2 \<and> agreed w [] e2 \<and> iopt_used e2 = [] \<and> enc_frame e2 = enc_frame e \<and>
    runs w s0 (acache e) (length (w_target w)) (acache e2) (concat (enc_inst e2)) (concat (enc_addr e2))
      (concat (enc_data e2))"
proof -
  define used where "used = compact_loop True (iopt_used e)"
  define e0 where "e0 = e\<lparr>iopt_used := used, iopt_free := iopt_free e + (length (iopt_used e) - length used)\<rparr>"
  have "enc_inv w s0 (acache e) used e"
    using e unfolding fresh_window_def enc_inv_def used_def pending_def by (simp only: runs_start option.case) simp
  then have "enc_inv w s0 (acache e) used e0" by (simp add: e0_def)
  moreover have "\<forall>r\<in>set used. inst_ok w r" using i(2) by (simp add: used_def)
  moreover have "chained (unencoded_offset e0) used" using i(1) e by (simp add: e0_def fresh_window_def used_def)
  moreover have "iopt_used e0 = used" by (simp add: e0_def)
  ultimately obtain e1 where e1: "drain_loop True 0 used e0 = Inr e1" "enc_inv w s0 (acache e) [] e1"
      "iopt_used e1 = []" "enc_frame e1 = enc_frame e0" using drain_ok [OF w] by blast
  from finalize_ok [OF w e1(2)] e1 show ?thesis
    by (fastforce simp: xd3_iopt_flush_instructions_def used_def e0_def Let_def)
qed

text \<open>The decoder's loop on these sections.\<close>

lemma emit_loop_end:
  assumes "run_at w s0 p c [] A D s"
  shows "emit_loop s = Some (None, s)"
  using assms by (auto simp: run_at_def emit_loop.simps)

lemma runs_loop:
  assumes r: "runs w s0 c0 (length (w_target w)) c I A D" and s: "run_at w s0 0 c0 I A D s"
  shows "\<exists>h1 h2. emit_loop s =
    Some (None, run_state s0 (w_target w) c (w_len w + length (w_target w)) [] [] [] h1 h2)"
proof -
  obtain s' where s': "run_at w s0 (length (w_target w)) c [] [] [] s'" "emit_loop s = emit_loop s'"
    using r [unfolded runs_def, THEN spec, THEN spec, THEN spec, THEN spec, of "[]" "[]" "[]" s] s by auto
  then show ?thesis using emit_loop_end [OF s'(1)] by (auto simp: run_at_def)
qed

end
