(* ===== verification/Xd3MatchOk.thy ===== *)
theory Xd3MatchOk
  imports Xd3Match Xd3Compact "HOL-Library.Sublist"
begin

text \<open>
  The string matcher finds matches only. \<open>xd3_forward_match\<close> is the length of the longest common prefix;
  a match found in the source, in the window or as a run is an instruction that gives the bytes of the
  window at its position (\<open>right\<close>); and what the steps of \<open>xd3_string_match\<close> put into the buffer of
  instructions stays in the order of starts and of ends. The source is in memory as one block, so that
  no operation waits for a block.
\<close>

unbundle bit_operations_syntax

section \<open>Comparing\<close>

lemma equal_bytes_lcp: "equal_bytes xs ys = length (longest_common_prefix xs ys)"
  by (induction xs ys rule: equal_bytes.induct) auto

lemma equal_bytes_take: "take (equal_bytes xs ys) xs = take (equal_bytes xs ys) ys"
  by (induction xs ys rule: equal_bytes.induct) auto

lemma equal_bytes_le: "equal_bytes xs ys \<le> length xs" "equal_bytes xs ys \<le> length ys"
  by (induction xs ys rule: equal_bytes.induct) auto

lemma equal_bytes_nth: "k < equal_bytes xs ys \<Longrightarrow> xs ! k = ys ! k"
  by (metis equal_bytes_take nth_take)

lemma equal_bytes_drop:
  "take i xs = take i ys \<Longrightarrow> i \<le> length xs \<Longrightarrow> i \<le> length ys \<Longrightarrow>
    i + equal_bytes (drop i xs) (drop i ys) = equal_bytes xs ys"
proof (induction i arbitrary: xs ys)
  case (Suc i)
  then show ?case by (cases xs; cases ys) auto
qed simp

lemma take_int: "take (4 * i + 4) s = take (4 * i) s @ int_at s i"
  by (simp add: int_at_def take_add)

lemma ints_equal_prefix:
  "ints_equal k s1 s2 i = (b, i') \<Longrightarrow> take (4 * i) s1 = take (4 * i) s2 \<Longrightarrow> i' \<le> i + k \<and>
    (if b then i' = i + k \<and> take (4 * i') s1 = take (4 * i') s2
     else 0 < i' \<and> take (4 * (i' - 1)) s1 = take (4 * (i' - 1)) s2)"
proof (induction k s1 s2 i rule: ints_equal.induct)
  case (2 k s1 s2 i)
  then show ?case
    using take_int [of i s1] take_int [of i s2] by (auto split: if_splits simp: add.commute)
qed simp

lemma ints_loop_prefix:
  "take (4 * i) s1 = take (4 * i) s2 \<Longrightarrow> 0 < i \<or> i \<le> n \<Longrightarrow> i \<le> n + 8 \<Longrightarrow>
    0 < ints_loop s1 s2 n i \<and> ints_loop s1 s2 n i \<le> n + 8 \<and>
    take (4 * (ints_loop s1 s2 n i - 1)) s1 = take (4 * (ints_loop s1 s2 n i - 1)) s2"
proof (induction s1 s2 n i rule: ints_loop.induct)
  case (1 s1 s2 n i)
  show ?case
  proof (cases "i \<le> n")
    case True
    obtain b i' where e: "ints_equal 8 s1 s2 i = (b, i')" by fastforce
    note p = ints_equal_prefix [OF e 1(2)]
    show ?thesis
    proof (cases b)
      case b: True
      then have q: "i' = i + 8" "take (4 * (i + 8)) s1 = take (4 * (i + 8)) s2" using p by auto
      have "ints_loop s1 s2 n i = ints_loop s1 s2 n (i + 8)"
        using True b q(1) by (simp add: ints_loop.simps [of s1 s2 n i] e)
      moreover have "0 < ints_loop s1 s2 n i' \<and> ints_loop s1 s2 n i' \<le> n + 8 \<and>
          take (4 * (ints_loop s1 s2 n i' - 1)) s1 = take (4 * (ints_loop s1 s2 n i' - 1)) s2"
        using 1(1) [OF True e [symmetric]] b True q(2) by (simp add: q(1))
      ultimately show ?thesis unfolding q(1) by simp
    next
      case False
      then show ?thesis using p True by (simp add: ints_loop.simps [of s1 s2 n i] e)
    qed
  next
    case False
    have "take (4 * (i - 1)) s1 = take (4 * (i - 1)) s2"
      using arg_cong [OF 1(2), of "take (4 * (i - 1))"] by (simp add: min_def)
    then show ?thesis using 1 False by (simp add: ints_loop.simps [of s1 s2 n i])
  qed
qed

lemma forward_match_equal_bytes:
  assumes "n \<le> length s1" "n \<le> length s2"
  shows "xd3_forward_match s1 s2 n = equal_bytes (take n s1) (take n s2)"
proof -
  define i where "i = (if n div 4 div 8 \<noteq> 0 then (ints_loop s1 s2 (n div 4 - 8) 0 - 1) * 4 else 0)"
  have i: "take i s1 = take i s2 \<and> i \<le> n"
  proof (cases "n div 4 div 8 \<noteq> 0")
    case True
    define r where "r = ints_loop s1 s2 (n div 4 - 8) 0"
    have "8 \<le> n div 4" using True by simp
    moreover have "0 < r" "r \<le> n div 4 - 8 + 8" "take (4 * (r - 1)) s1 = take (4 * (r - 1)) s2"
      using ints_loop_prefix [of 0 s1 s2 "n div 4 - 8"] by (simp_all add: r_def)
    moreover have "i = 4 * (r - 1)" using True by (simp add: i_def r_def)
    ultimately show ?thesis by auto
  qed (simp add: i_def)
  have d: "take (n - i) (drop i s) = drop i (take n s)" for s :: bytes by (simp add: drop_take)
  have "xd3_forward_match s1 s2 n = i + equal_bytes (take (n - i) (drop i s1)) (take (n - i) (drop i s2))"
    unfolding xd3_forward_match_def Let_def i_def ..
  also have "\<dots> = i + equal_bytes (drop i (take n s1)) (drop i (take n s2))" unfolding d ..
  also have "take i (take n s1) = take i (take n s2)" using i by (simp add: min_absorb1)
  then have "i + equal_bytes (drop i (take n s1)) (drop i (take n s2)) = equal_bytes (take n s1) (take n s2)"
    using i assms by (intro equal_bytes_drop) auto
  finally show ?thesis .
qed

section \<open>Matches\<close>

text \<open>An instruction that gives its bytes of the window \<open>W\<close>, from the window or from the part of the source
  \<open>S\<close> between \<open>lo\<close> and \<open>hi\<close>.\<close>

definition right :: "bytes \<Rightarrow> bytes \<Rightarrow> nat \<Rightarrow> nat \<Rightarrow> xd3_rinst \<Rightarrow> bool" where
  "right W S lo hi r \<longleftrightarrow> 0 < rsize r \<and> rpos r + rsize r \<le> length W \<and>
    (if rtype r = XD3_RUN then take (rsize r) (drop (rpos r) W) = replicate (rsize r) (xtra r)
     else rtype r = XD3_CPY \<and>
       (if xtra r \<noteq> 0 then lo \<le> raddr r \<and> raddr r + rsize r \<le> hi \<and>
          take (rsize r) (drop (rpos r) W) = take (rsize r) (drop (raddr r) S)
        else raddr r < rpos r \<and> (\<forall>k < rsize r. W ! (rpos r + k) = W ! (raddr r + k))))"

lemma right_wider: "right W S lo hi r \<Longrightarrow> lo' \<le> lo \<Longrightarrow> hi \<le> hi' \<Longrightarrow> right W S lo' hi' r"
  by (auto simp: right_def split: if_splits)

lemma right_inst_ok:
  assumes "right W S lo hi r" "lo \<le> hi"
  shows "inst_ok \<lparr>w_target = W, w_source = S, w_base = lo, w_len = hi - lo\<rparr> r"
  using assms by (auto simp: right_def inst_ok_def copies_def combined_addr_def)

text \<open>What the matcher does not change, and what it relies on.\<close>

definition match_frame :: "'sec xd3_encoder \<Rightarrow> 'sec xd3_encoder" where
  "match_frame e = e\<lparr>iopt_used := [], iopt_free := 0, iopt_size := 0, input_position := 0, min_match := 0,
    match_state := MATCH_SEARCHING, match_srcpos := 0, match_last_srcpos := 0, match_back := 0, match_maxback := 0,
    match_fwd := 0, match_maxfwd := 0, maxsrcaddr := 0, match_minaddr := 0, match_maxaddr := 0,
    srcwin_cksum_pos := 0, large_table := None, small_table := None, small_prev := None, small_reset := False\<rparr>"

definition hash_ok :: "xd3_hash_cfg \<Rightarrow> bool" where
  "hash_ok cfg \<longleftrightarrow> (\<forall>c. xd3_checksum_hash cfg c < cfg_size cfg)"

definition whole_source :: "bytes \<Rightarrow> xd3_source \<Rightarrow> bool" where
  "whole_source S sr \<longleftrightarrow> memory_block S sr \<and> eof_known sr \<and> xd3_source_eof sr = length S \<and>
    xd3_bytes_on_srcblk sr 0 = length S"

definition match_env :: "bytes \<Rightarrow> bytes \<Rightarrow> 'sec xd3_encoder \<Rightarrow> bool" where
  "match_env W S e \<longleftrightarrow> next_in e = W \<and> length W < 2 ^ 62 \<and> length S < 2 ^ 62 \<and> memory_lasts (st_alloc e) \<and>
    iopt_unlimited e \<and> unencoded_offset e = 0 \<and> \<not> flag (st_flags e) XD3_BEGREEDY \<and> \<not> srcwin_decided e \<and>
    0 < SLOOK e \<and> 0 < LLOOK e \<and> 0 < large_step (smatcher e) \<and> (DO_SMALL e \<longrightarrow> hash_ok (small_hash e)) \<and>
    (\<exists>k<64. sprevsz e = 2 ^ k) \<and> sprevmask e = sprevsz e - 1 \<and>
    0 < small_chain (smatcher e) \<and> 0 < small_lchain (smatcher e) \<and>
    (case src e of None \<Rightarrow> S = [] | Some sr \<Rightarrow> whole_source S sr \<and> hash_ok (large_hash e))"

lemma match_frame_fields:
  assumes "match_frame e' = match_frame e"
  shows "next_in e' = next_in e" "st_alloc e' = st_alloc e" "iopt_unlimited e' = iopt_unlimited e"
    "unencoded_offset e' = unencoded_offset e" "st_flags e' = st_flags e" "srcwin_decided e' = srcwin_decided e"
    "smatcher e' = smatcher e" "small_hash e' = small_hash e" "sprevsz e' = sprevsz e" "sprevmask e' = sprevmask e"
    "src e' = src e" "large_hash e' = large_hash e"
proof -
  note f = arg_cong [OF assms, unfolded match_frame_def]
  show "next_in e' = next_in e" using f [of next_in] by simp
  show "st_alloc e' = st_alloc e" using f [of st_alloc] by simp
  show "iopt_unlimited e' = iopt_unlimited e" using f [of iopt_unlimited] by simp
  show "unencoded_offset e' = unencoded_offset e" using f [of unencoded_offset] by simp
  show "st_flags e' = st_flags e" using f [of st_flags] by simp
  show "srcwin_decided e' = srcwin_decided e" using f [of srcwin_decided] by simp
  show "smatcher e' = smatcher e" using f [of smatcher] by simp
  show "small_hash e' = small_hash e" using f [of small_hash] by simp
  show "sprevsz e' = sprevsz e" using f [of sprevsz] by simp
  show "sprevmask e' = sprevmask e" using f [of sprevmask] by simp
  show "src e' = src e" using f [of src] by simp
  show "large_hash e' = large_hash e" using f [of large_hash] by simp
qed

lemma match_env_frame:
  assumes "match_env W S e" "match_frame e' = match_frame e"
  shows "match_env W S e'"
  using assms(1) unfolding match_env_def SLOOK_def LLOOK_def DO_SMALL_def match_frame_fields [OF assms(2)] by blast

text \<open>The instructions found, and the tables: an entry of the small table is a position before \<open>b\<close>, an
  entry of the large table one of the source with \<open>LLOOK\<close> bytes after it.\<close>

definition used_ok :: "bytes \<Rightarrow> bytes \<Rightarrow> 'sec xd3_encoder \<Rightarrow> bool" where
  "used_ok W S e \<longleftrightarrow> ordered (iopt_used e) \<and>
    (\<forall>r\<in>set (iopt_used e). right W S (match_minaddr e) (match_maxaddr e) r) \<and>
    (match_maxaddr e = 0 \<or> match_minaddr e < match_maxaddr e \<and> match_maxaddr e \<le> length S)"

definition small_ok :: "nat \<Rightarrow> 'sec xd3_encoder \<Rightarrow> bool" where
  "small_ok b e \<longleftrightarrow> (DO_SMALL e \<longrightarrow>
    (\<exists>t. small_table e = Some t \<and> length t = cfg_size (small_hash e) \<and> (\<forall>x\<in>set t. x \<le> b)) \<and>
    (case small_prev e of None \<Rightarrow> small_chain (smatcher e) = 1 \<and> small_lchain (smatcher e) = 1
     | Some p \<Rightarrow> length p = sprevsz e))"

definition large_ok :: "bytes \<Rightarrow> 'sec xd3_encoder \<Rightarrow> bool" where
  "large_ok S e \<longleftrightarrow> (DO_LARGE e \<longrightarrow>
    (\<exists>t. large_table e = Some t \<and> length t = cfg_size (large_hash e) \<and>
      (\<forall>x\<in>set t. x \<noteq> 0 \<longrightarrow> x - 1 + LLOOK e \<le> length S)))"

text \<open>A place for one more instruction is always there.\<close>

lemma use_slot_ok:
  assumes "iopt_unlimited e" "memory_lasts (st_alloc e)"
  shows "\<exists>f n. use_slot e i = Inr (e\<lparr>iopt_size := n, iopt_free := f, iopt_used := iopt_used e @ [i]\<rparr>)"
proof (cases "iopt_free e = 0")
  case True
  obtain a b where "st_alloc e 16 1 = Some a" "st_alloc e 48 (XD3_ALLOCSIZE div 48) = Some b"
    using assms(2) by (metis memory_lasts_def option.exhaust)
  then have "xd3_iopt_get_slot e = Inr (e\<lparr>iopt_size := add64 (iopt_size e) (XD3_ALLOCSIZE div 48),
      iopt_free := XD3_ALLOCSIZE div 48 - 1\<rparr>)"
    using True assms(1) by (simp add: xd3_iopt_get_slot_def xd3_alloc_iopt_def XD3_ALLOCSIZE_def)
  then show ?thesis by (auto simp: use_slot_def)
next
  case False
  then have "use_slot e i = Inr (e\<lparr>iopt_size := iopt_size e, iopt_free := iopt_free e - 1, iopt_used := iopt_used e @ [i]\<rparr>)"
    by (simp add: use_slot_def xd3_iopt_get_slot_def)
  then show ?thesis by blast
qed

lemma ordered_snoc: "ordered (rs @ [i]) \<longleftrightarrow> ordered rs \<and> (\<forall>r\<in>set rs. ends_later r i)"
  by (auto simp: ordered_def sorted_wrt_append)

lemma ordered_last: "ordered rs \<Longrightarrow> r \<in> set rs \<Longrightarrow> rpos r + rsize r \<le> rpos (last rs) + rsize (last rs)"
proof (induction rs)
  case (Cons a rs)
  then show ?case by (cases "rs = []") (auto simp: ends_later_def intro: less_imp_le)
qed simp

lemma used_ok_snoc:
  assumes "used_ok W S e" "right W S (match_minaddr e) (match_maxaddr e) i" "\<forall>r\<in>set (iopt_used e). ends_later r i"
  shows "used_ok W S (e\<lparr>iopt_size := n, iopt_free := f, iopt_used := iopt_used e @ [i]\<rparr>)"
  using assms by (simp add: used_ok_def ordered_snoc)

section \<open>Source matches\<close>

lemma same_back: "match_back e = n \<Longrightarrow> e\<lparr>match_back := n\<rparr> = e"
  by (erule subst) simp

lemma same_fwd: "match_fwd e = n \<Longrightarrow> e\<lparr>match_fwd := n\<rparr> = e"
  by (erule subst) simp

lemma same_source [simp]: "src e = Some sr \<Longrightarrow> e\<lparr>src := Some sr\<rparr> = e"
  by (rule xd3_stream.equality) simp_all

lemma whole_source_div:
  assumes "whole_source S sr"
  shows "p < blksize sr \<Longrightarrow> xd3_blksize_div p sr = (0, p)" "length S \<le> blksize sr" "p \<le> length S \<Longrightarrow> \<not> p < blksize sr \<Longrightarrow> xd3_blksize_div p sr = (1, 0)"
    "curblk sr = Some S" "onblk sr = length S" "xd3_getblk f sr 0 = (None, sr)" "blksize sr < 2 ^ 64" "eof_known sr"
    "xd3_source_eof sr = length S" "xd3_bytes_on_srcblk sr 0 = length S"
proof -
  have m: "memory_block S sr" "curblk sr = Some S" "onblk sr = length S" "shiftby sr < 64" "blksize sr = 2 ^ shiftby sr"
      "maskby sr = 2 ^ shiftby sr - 1" "length S \<le> blksize sr"
    using assms by (auto simp: whole_source_def memory_block_def)
  have d: "xd3_blksize_div p sr = (p div 2 ^ shiftby sr, p mod 2 ^ shiftby sr)"
    unfolding xd3_blksize_div_def m(6) nat_and_mask by (simp add: drop_bit_eq_div)
  show "p < blksize sr \<Longrightarrow> xd3_blksize_div p sr = (0, p)" by (simp add: d m(5))
  show "xd3_blksize_div p sr = (1, 0)" if "p \<le> length S" "\<not> p < blksize sr"
  proof -
    have "p = 2 ^ shiftby sr" using that m(5,7) by simp
    then show ?thesis unfolding d by simp
  qed
  show "blksize sr < 2 ^ 64" using m(4) power_strict_increasing [OF m(4), of "2::nat"] by (simp add: m(5))
  show "eof_known sr" "xd3_source_eof sr = length S" "xd3_bytes_on_srcblk sr 0 = length S"
    using assms by (auto simp: whole_source_def)
  show "length S \<le> blksize sr" "curblk sr = Some S" "onblk sr = length S" "xd3_getblk f sr 0 = (None, sr)"
    using m getblk_memory [OF m(1)] by auto
qed

lemma back_run_ok:
  "off \<le> length blk \<Longrightarrow> so \<le> length inp \<Longrightarrow> n \<le> off \<Longrightarrow> n \<le> so \<Longrightarrow>
    \<exists>m\<le>n. back_run n blk off inp so = Some m \<and> take m (drop (off - m) blk) = take m (drop (so - m) inp)"
proof (induction n blk off inp so rule: back_run.induct)
  case (2 n blk off inp so)
  show ?case
  proof (cases "blk ! (off - 1) = inp ! (so - 1)")
    case True
    obtain m where m: "m \<le> n" "back_run n blk (off - 1) inp (so - 1) = Some m"
        "take m (drop (off - 1 - m) blk) = take m (drop (so - 1 - m) inp)"
      using 2 True by force
    have t: "take (Suc m) (drop (k - Suc m) xs) = take m (drop (k - 1 - m) xs) @ [xs ! (k - 1)]"
      if "k \<le> length xs" "Suc n \<le> k" for k and xs :: bytes
    proof -
      have "m < length (drop (k - Suc m) xs)" "k - Suc m + m = k - 1" using that m(1) by auto
      then show ?thesis by (simp add: take_Suc_conv_app_nth nth_drop)
    qed
    have "take (Suc m) (drop (off - Suc m) blk) = take (Suc m) (drop (so - Suc m) inp)"
      unfolding t [OF 2(2,4)] t [OF 2(3,5)] m(3) True ..
    moreover have "back_run (Suc n) blk off inp so = Some (Suc m)" using 2 True m(2) by simp
    ultimately show ?thesis using m(1) by (intro exI [of _ "Suc m"]) simp
  next
    case False
    then show ?thesis using 2(2-5) by (intro exI [of _ 0]) auto
  qed
qed simp

lemma back_loop_ok:
  assumes e: "match_env W S e" "src e = Some sr" "input_position e \<le> length W"
    and m: "match_back e = 0" "match_maxback e \<le> input_position e" "match_maxback e \<le> match_srcpos e" "match_srcpos e \<le> length S"
    and d: "xd3_blksize_div (match_srcpos e) sr = (blk, off)"
  shows "\<exists>n \<le> match_maxback e. back_loop blk off e = Some (Doneback, e\<lparr>match_back := n\<rparr>) \<and>
    take n (drop (match_srcpos e - n) S) = take n (drop (input_position e - n) W)"
proof (cases "match_maxback e = 0")
  case True
  have "back_loop blk off e = Some (Doneback, e)" using True m(1) by (subst back_loop.simps) simp
  then show ?thesis using True same_back [OF m(1)] by simp
next
  case False
  have ws: "whole_source S sr" "length S < 2 ^ 62" "next_in e = W" using e by (auto simp: match_env_def)
  note s = whole_source_div [OF ws(1)]
  have o: "(if off = 0 then (sub64 blk 1, blksize sr) else (blk, off)) = (0, match_srcpos e)"
  proof (cases "match_srcpos e < blksize sr")
    case True
    then show ?thesis using d s(1) [of "match_srcpos e"] m False by auto
  next
    case b: False
    then have "match_srcpos e = blksize sr" using m(4) s(2) by simp
    moreover have "xd3_blksize_div (match_srcpos e) sr = (1, 0)" using b s(3) [of "match_srcpos e"] m(4) by simp
    ultimately show ?thesis using d by simp
  qed
  have "min (match_srcpos e) (match_maxback e) = match_maxback e" using m(3) by simp
  moreover have "length W < 2 ^ 64" using e(1) by (simp add: match_env_def)
  then have so: "sub64 (input_position e) 0 = input_position e" using e(3) by simp
  obtain n where n: "n \<le> match_maxback e" "back_run (match_maxback e) S (match_srcpos e) W (input_position e) = Some n"
      "take n (drop (match_srcpos e - n) S) = take n (drop (input_position e - n) W)"
    using back_run_ok [of "match_srcpos e" S "input_position e" W "match_maxback e"] m e(3) by auto
  moreover have stop: "back_loop b k (e\<lparr>match_back := match_maxback e\<rparr>) = Some (Doneback, e\<lparr>match_back := match_maxback e\<rparr>)" for b k
    by (simp add: back_loop.simps [of _ _ "e\<lparr>match_back := match_maxback e\<rparr>"])
  ultimately have "back_loop blk off e = Some (Doneback, e\<lparr>match_back := n\<rparr>)"
    unfolding back_loop.simps [of blk off e] e(2) option.case o
    using False m(1) n(1,2) so stop
    by (cases "n = match_maxback e") (simp_all add: e(2) ws(3) s Let_def)
  then show ?thesis using n by blast
qed

lemma fwd_loop_ok:
  assumes e: "match_env W S e" "src e = Some sr" "input_position e \<le> length W"
    and m: "match_fwd e = 0" "match_maxfwd e \<le> length W - input_position e" "match_maxfwd e \<le> length S - match_srcpos e"
    and d: "xd3_blksize_div (match_srcpos e) sr = (blk, off)"
  shows "\<exists>n \<le> match_maxfwd e. fwd_loop blk off e = Some (Donefwd, e\<lparr>match_fwd := n\<rparr>) \<and>
    take n (drop (match_srcpos e) S) = take n (drop (input_position e) W)"
proof (cases "match_maxfwd e = 0")
  case True
  have "fwd_loop blk off e = Some (Donefwd, e)" using True m(1) by (subst fwd_loop.simps) simp
  then show ?thesis using True same_fwd [OF m(1)] by simp
next
  case False
  define p where "p = match_srcpos e"
  define q where "q = input_position e"
  define k where "k = match_maxfwd e"
  have ws: "whole_source S sr" "length S < 2 ^ 62" "next_in e = W" "length W < 2 ^ 62" using e by (auto simp: match_env_def)
  note s = whole_source_div [OF ws(1)]
  have b: "p < length S" "k \<le> length S - p" "k \<le> length W - q" "0 < k" using m(2,3) False by (auto simp: p_def q_def k_def)
  then have p: "p < blksize sr" using s(2) by simp
  then have bo: "(blk, off) = (0, p)" using d s(1) [of p] by (simp add: p_def)
  then have o: "(if off = blksize sr then (add64 blk 1, 0) else (blk, off)) = (0, p)" using p by auto
  define n where "n = xd3_forward_match (drop p S) (drop q W) k"
  have "n = equal_bytes (take k (drop p S)) (take k (drop q W))"
    unfolding n_def using b by (intro forward_match_equal_bytes) auto
  then have n: "n \<le> k" "take n (drop p S) = take n (drop q W)"
    using equal_bytes_le(1) [of "take k (drop p S)" "take k (drop q W)"]
      equal_bytes_take [of "take k (drop p S)" "take k (drop q W)"] by (auto simp: min_def split: if_splits)
  have stop: "fwd_loop x y (e\<lparr>match_fwd := k\<rparr>) = Some (Donefwd, e\<lparr>match_fwd := k\<rparr>)" for x y
    unfolding fwd_loop.simps [of x y "e\<lparr>match_fwd := k\<rparr>"] by (simp add: k_def)
  have w: "sub64 (length S) p = length S - p" "min k (length S - p) = k" "add64 q 0 = q" "length S < p + k \<longleftrightarrow> False" "length W < q + k \<longleftrightarrow> False"
    using b ws(2,4) e(3) by (auto simp: q_def)
  have "fwd_loop blk off e = Some (Donefwd, e\<lparr>match_fwd := n\<rparr>)"
    unfolding fwd_loop.simps [of blk off e] e(2) option.case o
    using b(4) m(1) n(1) stop
    by (cases "n = k") (simp_all add: e(2) ws(3) s(3-10) Let_def w p_def [symmetric] q_def [symmetric] k_def [symmetric] n_def [symmetric])
  then show ?thesis using n by (auto simp: p_def q_def k_def)
qed

text \<open>The setup of a match at \<open>srcpos\<close> and what its extension gives: \<open>n\<close> bytes before and \<open>m\<close> after.\<close>

lemma setup_ok:
  assumes e: "match_env W S e" "src e = Some sr" "input_position e \<le> length W" "srcpos \<le> length S"
  shows "\<exists>b mb mf ms ls ss. xd3_source_match_setup e sr srcpos =
      (b, e\<lparr>match_maxback := mb, match_maxfwd := mf, match_back := 0, match_fwd := 0, match_state := ms,
            match_srcpos := ss, match_last_srcpos := ls\<rparr>) \<and>
    (srcpos = 0 \<and> srcwin_cksum_pos e = 0 \<longrightarrow> b) \<and>
    (b \<longrightarrow> ms = MATCH_BACKWARD \<and> ss = srcpos \<and> mb = min srcpos (input_position e) \<and>
      mf = min (length S - srcpos) (length W - input_position e))"
proof -
  have en: "whole_source S sr" "length S < 2 ^ 62" "next_in e = W" "length W < 2 ^ 62" "unencoded_offset e = 0"
      "\<not> flag (st_flags e) XD3_BEGREEDY" "\<not> srcwin_decided e"
    using e(1,2) by (auto simp: match_env_def)
  note s = whole_source_div [OF en(1)]
  have w: "sub64 (input_position e) 0 = input_position e" "sub64 (length W) (input_position e) = length W - input_position e"
      "sub64 (length S) srcpos = length S - srcpos"
    using e(3,4) en by auto
  define e1 where "e1 = e\<lparr>match_maxback := 0, match_maxfwd := 0, match_back := 0, match_fwd := 0\<rparr>"
  define refuse where "refuse \<longleftrightarrow> srcpos \<noteq> 0 \<and> srcpos = match_last_srcpos e \<or>
    srcpos < srcwin_cksum_pos e \<and> max_winsize sr < sub64 (srcwin_cksum_pos e) srcpos"
  show ?thesis
  proof (cases refuse)
    case True
    then consider "srcpos \<noteq> 0 \<and> srcpos = match_last_srcpos e1"
      | "srcpos < srcwin_cksum_pos e1 \<and> max_winsize sr < sub64 (srcwin_cksum_pos e1) srcpos"
      by (auto simp: refuse_def e1_def)
    then have "xd3_source_match_setup e sr srcpos = match_refused srcpos e1"
    proof cases
      case 1
      then show ?thesis unfolding xd3_source_match_setup_def e1_def [symmetric] Let_def by (rule if_P)
    next
      case 2
      then show ?thesis unfolding xd3_source_match_setup_def e1_def [symmetric] Let_def if_P [OF 2] by (simp only: if_cancel)
    qed
    also have "\<dots> = (False, e\<lparr>match_maxback := 0, match_maxfwd := 0, match_back := 0, match_fwd := 0,
        match_state := MATCH_SEARCHING, match_srcpos := match_srcpos e, match_last_srcpos := srcpos\<rparr>)"
      by (simp add: match_refused_def e1_def)
    finally have r: "xd3_source_match_setup e sr srcpos = \<dots>" .
    have "\<not> (srcpos = 0 \<and> srcwin_cksum_pos e = 0)" using True by (auto simp: refuse_def)
    then show ?thesis unfolding r by (intro exI conjI) (rule refl, auto)
  next
    case False
    then have n: "\<not> (srcpos \<noteq> 0 \<and> srcpos = match_last_srcpos e1)"
        "\<not> (srcpos < srcwin_cksum_pos e1 \<and> max_winsize sr < sub64 (srcwin_cksum_pos e1) srcpos)"
      by (auto simp: refuse_def e1_def)
    have "xd3_source_match_setup e sr srcpos = match_found srcpos (e1\<lparr>match_maxback := min srcpos (input_position e),
        match_maxfwd := min (length S - srcpos) (length W - input_position e)\<rparr>)"
      unfolding xd3_source_match_setup_def e1_def [symmetric] Let_def if_not_P [OF n(1)] if_not_P [OF n(2)]
      by (simp add: e1_def en(3,5,6,7) s(8,9) w)
    also have "\<dots> = (True, e\<lparr>match_maxback := min srcpos (input_position e),
        match_maxfwd := min (length S - srcpos) (length W - input_position e), match_back := 0, match_fwd := 0,
        match_state := MATCH_BACKWARD, match_srcpos := srcpos, match_last_srcpos := srcpos\<rparr>)"
      by (simp add: match_found_def e1_def)
    finally have r: "xd3_source_match_setup e sr srcpos = \<dots>" .
    show ?thesis unfolding r by (intro exI conjI) (rule refl, auto)
  qed
qed

definition tables :: "'sec xd3_encoder \<Rightarrow> nat list option \<times> nat list option \<times> nat list option" where
  "tables e = (small_table e, small_prev e, large_table e)"

text \<open>What a step leaves alone, and the place of the instructions found so far: they start at \<open>p\<close> or
  before and end at \<open>q\<close> or before.\<close>

definition kept :: "'sec xd3_encoder \<Rightarrow> 'sec xd3_encoder \<Rightarrow> bool" where
  "kept e e' \<longleftrightarrow> match_frame e' = match_frame e \<and> tables e' = tables e \<and> input_position e' = input_position e \<and>
    min_match e' = min_match e"

definition found_to :: "nat \<Rightarrow> nat \<Rightarrow> 'sec xd3_encoder \<Rightarrow> bool" where
  "found_to p q e \<longleftrightarrow> (\<forall>r\<in>set (iopt_used e). rpos r \<le> p \<and> rpos r + rsize r \<le> q)"

lemma kept_trans: "kept e e1 \<Longrightarrow> kept e1 e2 \<Longrightarrow> kept e e2"
  by (simp add: kept_def)

lemma found_match_ok:
  assumes e: "match_env W S e" "used_ok W S e"
    and i: "right W S (match_minaddr e) (match_maxaddr e)
      \<lparr>rtype = XD3_CPY, xtra = of_bool b, code1 = 0, code2 = 0, rpos = pos, rsize = sz, raddr = addr\<rparr>"
    and r: "\<forall>r\<in>set (iopt_used e). rpos r < pos \<and> rpos r + rsize r < pos + sz"
  shows "\<exists>e'. xd3_found_match e pos sz addr b = Inr e' \<and> used_ok W S e' \<and> found_to pos (pos + sz) e' \<and> kept e e' \<and>
    match_fwd e' = match_fwd e \<and> match_frame e' = match_frame e"
proof -
  define inst where "inst = \<lparr>rtype = XD3_CPY, xtra = of_bool b, code1 = 0, code2 = 0, rpos = pos, rsize = sz, raddr = addr\<rparr>"
  obtain f n where u: "use_slot e inst = Inr (e\<lparr>iopt_size := n, iopt_free := f, iopt_used := iopt_used e @ [inst]\<rparr>)"
    using use_slot_ok [of e inst] e(1) by (auto simp: match_env_def)
  have "used_ok W S (e\<lparr>iopt_size := n, iopt_free := f, iopt_used := iopt_used e @ [inst]\<rparr>)"
    using e(2) i r by (intro used_ok_snoc) (auto simp: inst_def ends_later_def)
  moreover have "found_to pos (pos + sz) (e\<lparr>iopt_size := n, iopt_free := f, iopt_used := iopt_used e @ [inst]\<rparr>)"
    using r by (auto simp: found_to_def inst_def)
  ultimately show ?thesis
    using u by (simp add: xd3_found_match_def inst_def [symmetric] kept_def match_frame_def tables_def)
qed

lemma kept_before: "rev (dropWhile P (rev xs)) = take (length (rev (dropWhile P (rev xs)))) xs"
  by (metis append_eq_conv_conj length_rev rev_append rev_rev_ident takeWhile_dropWhile_id)

lemma erase_ok:
  assumes "used_ok W S e"
  shows "\<exists>f rs. xd3_iopt_erase e pos = e\<lparr>iopt_used := rs, iopt_free := f\<rparr> \<and> used_ok W S (e\<lparr>iopt_used := rs, iopt_free := f\<rparr>) \<and>
    set rs \<subseteq> set (iopt_used e) \<and> (\<forall>r\<in>set rs. rpos r < pos)"
proof -
  define rs where "rs = rev (dropWhile (\<lambda>r. pos \<le> rpos r) (rev (iopt_used e)))"
  have rs: "iopt_used e = rs @ drop (length rs) (iopt_used e)"
    using kept_before [of "\<lambda>r. pos \<le> rpos r" "iopt_used e"] unfolding rs_def [symmetric]
    by (metis append_take_drop_id)
  have o: "ordered (rs @ drop (length rs) (iopt_used e))" using assms rs by (simp add: used_ok_def)
  then have o1: "ordered rs" by (simp add: ordered_def sorted_wrt_append)
  have sub: "set rs \<subseteq> set (iopt_used e)" unfolding rs_def by (auto dest: set_dropWhileD)
  have "rpos r < pos" if "r \<in> set rs" for r
  proof -
    have "rs \<noteq> []" using that by auto
    then have "\<not> pos \<le> rpos (last rs)"
      using hd_dropWhile [of "\<lambda>r. pos \<le> rpos r" "rev (iopt_used e)"] by (simp add: rs_def last_rev)
    moreover have "rpos r \<le> rpos (last rs)"
      using o1 that by (induction rs) (auto simp: ends_later_def intro: less_imp_le)
    ultimately show ?thesis by simp
  qed
  moreover have "used_ok W S (e\<lparr>iopt_used := rs, iopt_free := f\<rparr>)" for f
    using assms o1 sub by (auto simp: used_ok_def)
  ultimately show ?thesis using sub by (auto simp: xd3_iopt_erase_def rs_def [symmetric] Let_def)
qed

lemma take_match_ok:
  assumes e: "match_env W S e" "used_ok W S e"
    and b: "match_back e \<le> input_position e" "input_position e + match_fwd e \<le> length W"
      "match_back e \<le> match_srcpos e" "match_srcpos e + match_fwd e \<le> length S"
    and eq: "take (match_back e) (drop (match_srcpos e - match_back e) S) = take (match_back e) (drop (input_position e - match_back e) W)"
      "take (match_fwd e) (drop (match_srcpos e) S) = take (match_fwd e) (drop (input_position e) W)"
    and r: "0 < min_match e" "\<forall>r\<in>set (iopt_used e). rpos r < input_position e \<and> rpos r + rsize r < input_position e + min_match e"
  shows "match_fwd e < min_match e \<and> take_match e = (None, e\<lparr>match_state := MATCH_SEARCHING, match_fwd := 0\<rparr>) \<or>
    (\<exists>e'. take_match e = (None, e') \<and> min_match e \<le> match_fwd e' \<and> match_fwd e' = match_fwd e \<and> used_ok W S e' \<and>
      found_to (input_position e) (input_position e + match_fwd e') e' \<and> kept e e')"
proof (cases "match_fwd e < min_match e")
  case True
  then show ?thesis by (simp add: take_match_def Let_def)
next
  case False
  define n where "n = match_back e"
  define m where "m = match_fwd e"
  define p where "p = match_srcpos e"
  define q where "q = input_position e"
  have bounds: "n \<le> q" "q + m \<le> length W" "n \<le> p" "p + m \<le> length S" "min_match e \<le> m" "0 < m" "length W < 2 ^ 62" "length S < 2 ^ 62"
    using b False r(1) e(1) by (auto simp: n_def m_def p_def q_def match_env_def)
  have ends: "rpos x + rsize x < q + m" if "x \<in> set (iopt_used e)" for x
    using bspec [OF r(2) that] bounds(5) by (simp add: q_def)
  define e0 where "e0 = e\<lparr>match_state := MATCH_SEARCHING\<rparr>"
  have e0: "used_ok W S e0" using e(2) by (simp add: used_ok_def e0_def)
  define e1 where "e1 = (if 0 < n then xd3_iopt_erase e0 (q - n) else e0)"
  have e1: "used_ok W S e1" "\<forall>r\<in>set (iopt_used e1). rpos r < q - n \<and> rpos r + rsize r < q + m" "kept e e1"
    "match_srcpos e1 = p" "match_back e1 = n" "match_fwd e1 = m" "next_in e1 = next_in e"
    "match_minaddr e1 = match_minaddr e" "match_maxaddr e1 = match_maxaddr e"
  proof -
    have c: "used_ok W S e1 \<and> (\<forall>r\<in>set (iopt_used e1). rpos r < q - n \<and> rpos r + rsize r < q + m) \<and> (\<exists>rs f. e1 = e0\<lparr>iopt_used := rs, iopt_free := f\<rparr>)"
    proof (cases "0 < n")
      case True
      obtain f rs where rs: "xd3_iopt_erase e0 (q - n) = e0\<lparr>iopt_used := rs, iopt_free := f\<rparr>"
          "used_ok W S (e0\<lparr>iopt_used := rs, iopt_free := f\<rparr>)" "set rs \<subseteq> set (iopt_used e0)" "\<forall>r\<in>set rs. rpos r < q - n"
        using erase_ok [OF e0] by blast
      have "iopt_used e0 = iopt_used e" by (simp add: e0_def)
      then show ?thesis using True rs ends by (auto simp: e1_def)
    next
      case False
      then have e10: "e1 = e0" by (simp add: e1_def)
      have "e0 = e0\<lparr>iopt_used := iopt_used e0, iopt_free := iopt_free e0\<rparr>" by simp
      then have "\<exists>rs f. e0 = e0\<lparr>iopt_used := rs, iopt_free := f\<rparr>" by blast
      moreover have "iopt_used e0 = iopt_used e" by (simp add: e0_def)
      ultimately show ?thesis using False e0 ends r(2) unfolding e10 by (simp add: q_def)
    qed
    then show "used_ok W S e1" "\<forall>r\<in>set (iopt_used e1). rpos r < q - n \<and> rpos r + rsize r < q + m" by blast+
    obtain rs f where "e1 = e0\<lparr>iopt_used := rs, iopt_free := f\<rparr>" using c by blast
    then show "kept e e1" "match_srcpos e1 = p" "match_back e1 = n" "match_fwd e1 = m" "next_in e1 = next_in e"
      "match_minaddr e1 = match_minaddr e" "match_maxaddr e1 = match_maxaddr e"
      by (simp_all add: e0_def kept_def match_frame_def tables_def n_def m_def p_def)
  qed
  define lo where "lo = (if match_maxaddr e1 = 0 \<or> p - n < match_minaddr e1 then p - n else match_minaddr e1)"
  define hi where "hi = max (p + m) (match_maxaddr e1)"
  define e2 where "e2 = e1\<lparr>match_back := 0, match_minaddr := lo, match_maxaddr := hi, maxsrcaddr := max (p + m) (maxsrcaddr e1)\<rparr>"
  have u2: "used_ok W S e2"
  proof -
    have "right W S lo hi r" if "r \<in> set (iopt_used e1)" for r
    proof (cases "match_maxaddr e1 = 0")
      case True
      then have "right W S (match_minaddr e1) 0 r" using e1(1) that by (simp add: used_ok_def)
      then show ?thesis by (auto simp: right_def split: if_splits)
    next
      case False
      then show ?thesis using e1(1) that by (auto simp: used_ok_def lo_def hi_def intro: right_wider)
    qed
    then show ?thesis using e1(1) bounds by (auto simp: used_ok_def e2_def lo_def hi_def)
  qed
  have k2: "kept e e2" using e1(3) by (simp add: kept_def e2_def match_frame_def tables_def)
  then have env2: "match_env W S e2" using match_env_frame [OF e(1)] by (simp add: kept_def)
  have bytes: "take (n + m) (drop (q - n) W) = take (n + m) (drop (p - n) S)"
    using eq bounds(1,3) by (simp add: take_add drop_drop n_def m_def p_def q_def)
  have "right W S (match_minaddr e2) (match_maxaddr e2)
      \<lparr>rtype = XD3_CPY, xtra = of_bool True, code1 = 0, code2 = 0, rpos = q - n, rsize = n + m, raddr = p - n\<rparr>"
    using bounds bytes CPY_RUN by (simp add: right_def e2_def lo_def hi_def)
  moreover have "\<forall>r\<in>set (iopt_used e2). rpos r < q - n \<and> rpos r + rsize r < q - n + (n + m)"
    using e1(2) bounds(1) by (simp add: e2_def)
  ultimately obtain e3 where e3: "xd3_found_match e2 (q - n) (n + m) (p - n) True = Inr e3" "used_ok W S e3"
      "found_to (q - n) (q - n + (n + m)) e3" "kept e2 e3" "match_fwd e3 = match_fwd e2"
    using found_match_ok [OF env2 u2] by blast
  define e4 where "e4 = (if q + m = length (next_in e3) then e3\<lparr>match_state := MATCH_TARGET, match_srcpos := p + m\<rparr> else e3)"
  have w: "sub64 q n = q - n" "add64 n m = n + m" "sub64 p n = p - n" "add64 p m = p + m" "add64 (q - n) (n + m) = q + m"
    using bounds by auto
  have e0f: "match_back e0 = n" "match_fwd e0 = m" "match_srcpos e0 = p" "input_position e0 = q" "min_match e0 = min_match e"
    by (simp_all add: e0_def n_def m_def p_def q_def)
  have nl: "\<not> m < min_match e" using False by (simp add: m_def)
  have t: "take_match e = (None, e4)"
    unfolding take_match_def Let_def e0_def [symmetric] e0f if_not_P [OF nl] w e1_def [symmetric]
    unfolding lo_def [symmetric] hi_def [symmetric] e2_def [symmetric] e3(1) stepwise_simps e4_def ..
  have "used_ok W S e4" "kept e3 e4" "match_fwd e4 = m" "iopt_used e4 = iopt_used e3"
    using e3(2,5) by (auto simp: e4_def used_ok_def kept_def match_frame_def tables_def e2_def e1(6))
  then show ?thesis using t kept_trans [OF kept_trans [OF k2 e3(4)], of e4] e3(3) bounds
    by (intro disjI2 exI [of _ e4]) (auto simp: found_to_def q_def [symmetric] m_def [symmetric])
qed

text \<open>A match that has been set up, extended and taken: \<open>match_fwd\<close> is 0 when it is too short.\<close>

lemma extend_match_ok:
  assumes e: "match_env W S e" "used_ok W S e" "src e = Some sr" "input_position e \<le> length W"
    and m: "match_back e = 0" "match_fwd e = 0" "match_srcpos e \<le> length S"
      "match_maxback e \<le> input_position e" "match_maxback e \<le> match_srcpos e"
      "match_maxfwd e \<le> length W - input_position e" "match_maxfwd e \<le> length S - match_srcpos e"
      "match_state e = MATCH_BACKWARD \<or> match_state e = MATCH_FORWARD"
    and r: "0 < min_match e" "\<forall>r\<in>set (iopt_used e). rpos r < input_position e \<and> rpos r + rsize r < input_position e + min_match e"
  shows "\<exists>e'. xd3_source_extend_match e = Some (None, e') \<and> used_ok W S e' \<and> kept e e' \<and>
    (match_fwd e' = 0 \<and> iopt_used e' = iopt_used e \<or>
     min_match e \<le> match_fwd e' \<and> input_position e + match_fwd e' \<le> length W \<and>
     found_to (input_position e) (input_position e + match_fwd e') e')"
proof -
  obtain n where n: "n \<le> match_maxback e" "take n (drop (match_srcpos e - n) S) = take n (drop (input_position e - n) W)"
      "(if match_state e = MATCH_BACKWARD
        then let (blk, off) = xd3_blksize_div (sub64 (match_srcpos e) (match_back e)) sr in back_loop blk off e
        else Some (Doneback, e)) = Some (Doneback, e\<lparr>match_back := n\<rparr>)"
  proof (cases "match_state e = MATCH_BACKWARD")
    case True
    have w: "sub64 (match_srcpos e) 0 = match_srcpos e" using m(3) e(1) by (simp add: match_env_def)
    obtain blk off where d: "xd3_blksize_div (match_srcpos e) sr = (blk, off)" by fastforce
    from back_loop_ok [OF e(1,3,4) m(1,4,5,3) this] obtain n where "n \<le> match_maxback e"
        "back_loop blk off e = Some (Doneback, e\<lparr>match_back := n\<rparr>)"
        "take n (drop (match_srcpos e - n) S) = take n (drop (input_position e - n) W)" by blast
    then show ?thesis using that [of n] True d w m(1) by simp
  next
    case False
    then show ?thesis using that [of 0] same_back [OF m(1)] by simp
  qed
  define e2 where "e2 = e\<lparr>match_back := n, match_state := MATCH_FORWARD\<rparr>"
  have k2: "kept e e2" by (simp add: kept_def e2_def match_frame_def tables_def)
  have f2: "match_srcpos e2 = match_srcpos e" "match_fwd e2 = 0" "match_maxfwd e2 = match_maxfwd e" "src e2 = Some sr"
      "input_position e2 = input_position e" "iopt_used e2 = iopt_used e" "match_back e2 = n" "min_match e2 = min_match e"
    using m(2) e(3) by (simp_all add: e2_def)
  have env2: "match_env W S e2" using match_env_frame [OF e(1)] k2 by (simp add: kept_def)
  obtain blk off where d: "xd3_blksize_div (match_srcpos e) sr = (blk, off)" by fastforce
  obtain k where k: "k \<le> match_maxfwd e" "fwd_loop blk off e2 = Some (Donefwd, e2\<lparr>match_fwd := k\<rparr>)"
      "take k (drop (match_srcpos e) S) = take k (drop (input_position e) W)"
    using fwd_loop_ok [OF env2 f2(4)] e(4) m(6,7) d unfolding f2 by blast
  define e3 where "e3 = e2\<lparr>match_fwd := k\<rparr>"
  have k3: "kept e e3" using k2 by (simp add: kept_def e3_def match_frame_def tables_def)
  have f3: "match_srcpos e3 = match_srcpos e" "match_fwd e3 = k" "input_position e3 = input_position e"
      "iopt_used e3 = iopt_used e" "match_back e3 = n" "min_match e3 = min_match e"
    by (simp_all add: f2 e3_def)
  have u3: "used_ok W S e3" using e(2) by (simp add: used_ok_def e3_def e2_def)
  have env3: "match_env W S e3" using match_env_frame [OF e(1)] k3 by (simp add: kept_def)
  have w: "add64 (match_srcpos e) 0 = match_srcpos e" using m(3) e(1) by (simp add: match_env_def)
  have x: "xd3_source_extend_match e = Some (take_match e3)"
    unfolding xd3_source_extend_match_def e(3) option.case n(3)
    using d k(2) w by (simp add: e2_def [symmetric] f2(1,2) m(2) e3_def [symmetric] Let_def)
  have t: "match_fwd e3 < min_match e3 \<and> take_match e3 = (None, e3\<lparr>match_state := MATCH_SEARCHING, match_fwd := 0\<rparr>) \<or>
    (\<exists>e'. take_match e3 = (None, e') \<and> min_match e3 \<le> match_fwd e' \<and> match_fwd e' = match_fwd e3 \<and> used_ok W S e' \<and>
      found_to (input_position e3) (input_position e3 + match_fwd e') e' \<and> kept e3 e')"
    by (rule take_match_ok [OF env3 u3]) (use m n k e(4) r in \<open>auto simp: f3\<close>)
  then show ?thesis
  proof
    assume a: "match_fwd e3 < min_match e3 \<and> take_match e3 = (None, e3\<lparr>match_state := MATCH_SEARCHING, match_fwd := 0\<rparr>)"
    define e4 where "e4 = e3\<lparr>match_state := MATCH_SEARCHING, match_fwd := 0\<rparr>"
    have "used_ok W S e4" "kept e e4" "match_fwd e4 = 0" "iopt_used e4 = iopt_used e"
      using u3 k3 by (simp_all add: e4_def used_ok_def kept_def match_frame_def tables_def f3)
    then show ?thesis using a x by (auto simp: e4_def)
  next
    assume "\<exists>e'. take_match e3 = (None, e') \<and> min_match e3 \<le> match_fwd e' \<and> match_fwd e' = match_fwd e3 \<and> used_ok W S e' \<and>
      found_to (input_position e3) (input_position e3 + match_fwd e') e' \<and> kept e3 e'"
    then obtain e' where "take_match e3 = (None, e')" "min_match e \<le> match_fwd e'" "match_fwd e' = k" "used_ok W S e'"
      "found_to (input_position e) (input_position e + match_fwd e') e'" "kept e e'"
      using kept_trans [OF k3] unfolding f3 by blast
    then show ?thesis using x k(1) m(6) e(4) by (intro exI [of _ e']) auto
  qed
qed

end
