(* ===== verification/Xd3MatchSteps.thy ===== *)
theory Xd3MatchSteps
  imports Xd3MatchOk
begin

text \<open>
  The loop of \<open>xd3_string_match\<close>: target matches, the insertion into the small table, the indexing of the
  source and runs keep the invariant of the tables; every step between two labels goes forward in the
  window, so the loop ends, without an error, and all it leaves in the buffer of instructions is right.
\<close>

unbundle bit_operations_syntax

section \<open>Target matches\<close>

text \<open>A match of \<open>len\<close> bytes at \<open>off\<close> of the window for the bytes at \<open>ip\<close>.\<close>

definition target_match :: "bytes \<Rightarrow> nat \<Rightarrow> nat \<times> nat \<Rightarrow> bool" where
  "target_match W ip = (\<lambda>(len, off). len \<noteq> 0 \<longrightarrow> off < ip \<and> ip + len \<le> length W \<and> (\<forall>k<len. W ! (ip + k) = W ! (off + k)))"

lemma target_match_run:
  assumes "base < ip" "ip \<le> length W"
  shows "target_match W ip (equal_bytes (drop ip W) (drop base W), base)"
proof -
  define n where "n = equal_bytes (drop ip W) (drop base W)"
  have n: "n \<le> length (drop ip W)" "n \<le> length (drop base W)" unfolding n_def by (rule equal_bytes_le)+
  have "W ! (ip + k) = W ! (base + k)" if "k < n" for k
    using equal_bytes_nth [OF that [unfolded n_def]] that n assms by simp
  then show ?thesis using assms n by (auto simp: target_match_def n_def [symmetric])
qed

lemma smatch_loop_ok:
  assumes e: "next_in e = W" "input_position e \<le> length W" "length W < 2 ^ 62"
    and p: "\<exists>k. sprevsz e = 2 ^ k" "sprevmask e = sprevsz e - 1" "\<forall>t. small_prev e = Some t \<longrightarrow> length t = sprevsz e"
  shows "base < input_position e \<Longrightarrow> chain = 1 \<or> small_prev e \<noteq> None \<Longrightarrow> target_match W (input_position e) best \<Longrightarrow>
    \<exists>r. smatch_loop e base chain best = Some r \<and> target_match W (input_position e) r"
  using e p
proof (induction e base chain best rule: smatch_loop.induct)
  case (1 e base chain best)
  define n where "n = equal_bytes (drop (input_position e) (next_in e)) (drop base (next_in e))"
  define best' where "best' = (if fst best < n then (n, base) else best)"
  define stop where "stop \<longleftrightarrow> fst best < n \<and> (input_position e + n = length (next_in e) \<or> long_enough (smatcher e) \<le> n)"
  have b: "target_match W (input_position e) best'"
    using target_match_run [OF 1(2) 1(6)] 1(4,5) by (simp add: best'_def n_def)
  have g: "\<not> (length (next_in e) < base \<or> input_position e < base)" using 1(2,5,6) by simp
  have u: "smatch_loop e base chain best =
      (if stop then Some best' else if sub64 chain 1 = 0 then Some best'
       else case small_prev e of None \<Rightarrow> None
       | Some prev \<Rightarrow>
           (case fetch prev (base AND sprevmask e) of None \<Rightarrow> None
            | Some prev_pos \<Rightarrow>
                if prev_pos = 0 then Some best'
                else if base < prev_pos - HASH_CKOFFSET then Some best'
                else if sub64 (input_position e) (prev_pos - HASH_CKOFFSET) AND sub64 (2 ^ 64 - 1) (sprevmask e) \<noteq> 0
                then Some best'
                else smatch_loop e (prev_pos - HASH_CKOFFSET) (sub64 chain 1) best'))"
    unfolding smatch_loop.simps [of e base chain best] if_not_P [OF g] Let_def n_def best'_def stop_def ..
  show ?case
  proof (cases "stop \<or> sub64 chain 1 = 0")
    case True
    then have "smatch_loop e base chain best = Some best'" unfolding u by (cases stop) simp_all
    then show ?thesis using b by (intro exI conjI)
  next
    case False
    then have "small_prev e \<noteq> None" using 1(3) by auto
    then obtain prev where prev: "small_prev e = Some prev" "length prev = sprevsz e" using 1(10) by blast
    obtain k where k: "sprevsz e = 2 ^ k" using 1(8) by blast
    have "base AND sprevmask e < length prev" unfolding prev(2) 1(9) k nat_and_mask by simp
    then have f: "fetch prev (base AND sprevmask e) = Some (prev ! (base AND sprevmask e))" by (simp add: fetch_def)
    define q where "q = prev ! (base AND sprevmask e)"
    show ?thesis
    proof (cases "q = 0 \<or> base < q - HASH_CKOFFSET \<or>
        sub64 (input_position e) (q - HASH_CKOFFSET) AND sub64 (2 ^ 64 - 1) (sprevmask e) \<noteq> 0")
      case True
      then have "smatch_loop e base chain best = Some best'" using False prev(1) f unfolding u q_def by auto
      then show ?thesis using b by (intro exI conjI)
    next
      case c: False
      have lt: "q - HASH_CKOFFSET < input_position e" using c 1(2) by simp
      have "smatch_loop e base chain best = smatch_loop e (q - HASH_CKOFFSET) (sub64 chain 1) best'"
        using c False prev(1) f unfolding u q_def by simp
      moreover have "\<exists>r. smatch_loop e (q - HASH_CKOFFSET) (sub64 chain 1) best' = Some r \<and> target_match W (input_position e) r"
        by (rule 1(1) [OF g n_def best'_def stop_def _ _ prev(1) f [folded q_def] _ _ _ lt _ b 1(5-10)])
          (use c False prev(1) in auto)
      ultimately show ?thesis by simp
    qed
  qed
qed

lemma smatch_ok:
  assumes e: "match_env W S e" "small_ok b e" "DO_SMALL e" "input_position e \<le> length W"
    and base: "0 < base" "base \<le> input_position e"
  shows "\<exists>r. xd3_smatch e base = Some r \<and> target_match W (input_position e) r"
proof -
  have en: "next_in e = W" "length W < 2 ^ 62" "\<exists>k. sprevsz e = 2 ^ k" "sprevmask e = sprevsz e - 1"
    using e(1) by (auto simp: match_env_def)
  have sp: "\<forall>t. small_prev e = Some t \<longrightarrow> length t = sprevsz e"
      "small_prev e \<noteq> None \<or> small_chain (smatcher e) = 1 \<and> small_lchain (smatcher e) = 1"
    using e(2,3) by (auto simp: small_ok_def split: option.splits)
  define chain where "chain = (if min_match e = MIN_MATCH then small_chain (smatcher e) else small_lchain (smatcher e))"
  have "base - 1 < input_position e" "sub64 base HASH_CKOFFSET = base - 1"
    using base e(4) en(2) by (auto simp: HASH_CKOFFSET_def)
  moreover have "chain = 1 \<or> small_prev e \<noteq> None" using sp(2) by (auto simp: chain_def)
  moreover have "target_match W (input_position e) (0, 0)" by (simp add: target_match_def)
  ultimately obtain r where r: "smatch_loop e (sub64 base HASH_CKOFFSET) chain (0, 0) = Some r" "target_match W (input_position e) r"
    using smatch_loop_ok [OF en(1) e(4) en(2-4) sp(1)] by metis
  obtain len off where lo: "r = (len, off)" by fastforce
  have "target_match W (input_position e) (if P then 0 else if Q then 0 else len, off)" for P Q
    using r(2) lo by (simp add: target_match_def)
  then show ?thesis using r(1) lo by (simp add: xd3_smatch_def chain_def [symmetric] Let_def)
qed

lemma same_prev: "small_prev e = x \<Longrightarrow> e\<lparr>small_table := t, small_prev := x\<rparr> = e\<lparr>small_table := t\<rparr>"
  by (erule subst) simp

lemma scksum_insert_ok:
  assumes e: "match_env W S e" "small_ok b e" "DO_SMALL e" "b \<le> input_position e + 1" "input_position e \<le> length W"
    and i: "inx < cfg_size (small_hash e)"
  shows "\<exists>t p. xd3_scksum_insert e inx (input_position e) = Inr (e\<lparr>small_table := t, small_prev := p\<rparr>) \<and>
    small_ok (input_position e + 1) (e\<lparr>small_table := t, small_prev := p\<rparr>)"
proof -
  obtain t where t: "small_table e = Some t" "length t = cfg_size (small_hash e)" "\<forall>x\<in>set t. x \<le> b"
    using e(2,3) by (auto simp: small_ok_def)
  obtain k where k: "sprevsz e = 2 ^ k" "sprevmask e = 2 ^ k - 1" "length W < 2 ^ 62" using e(1) by (auto simp: match_env_def)
  have f: "fetch t inx = Some (t ! inx)" using i t(2) by (simp add: fetch_def)
  have a: "add64 (input_position e) HASH_CKOFFSET = input_position e + 1" using e(5) k(3) by (simp add: HASH_CKOFFSET_def)
  define t' where "t' = t[inx := input_position e + 1]"
  have t': "\<forall>x\<in>set t'. x \<le> input_position e + 1" "length t' = cfg_size (small_hash e)"
    using t e(4) by (auto simp: t'_def dest!: set_update_subset_insert [THEN subsetD])
  show ?thesis
  proof (cases "small_prev e")
    case None
    have "small_ok (input_position e + 1) (e\<lparr>small_table := Some t', small_prev := None\<rparr>)"
      using e(2,3) None t' by (auto simp: small_ok_def DO_SMALL_def)
    moreover have "xd3_scksum_insert e inx (input_position e) = Inr (e\<lparr>small_table := Some t', small_prev := None\<rparr>)"
      using t(1) f a unfolding same_prev [OF None] by (simp add: xd3_scksum_insert_def t'_def Let_def None)
    ultimately show ?thesis by blast
  next
    case (Some prev)
    have l: "length prev = 2 ^ k" using e(2,3) Some k by (simp add: small_ok_def)
    have "input_position e AND sprevmask e < length prev" unfolding l k(2) nat_and_mask by simp
    moreover have "small_ok (input_position e + 1)
        (e\<lparr>small_table := Some t', small_prev := Some (prev[input_position e AND sprevmask e := t ! inx])\<rparr>)"
      using e(2,3) Some t' l k by (auto simp: small_ok_def DO_SMALL_def)
    moreover have "xd3_scksum_insert e inx (input_position e) =
        Inr (e\<lparr>small_table := Some t', small_prev := Some (prev[input_position e AND sprevmask e := t ! inx])\<rparr>)"
      if "input_position e AND sprevmask e < length prev"
      using t(1) f a that by (simp add: xd3_scksum_insert_def t'_def Let_def Some)
    ultimately show ?thesis by blast
  qed
qed

section \<open>Indexing the source\<close>

lemma index_block_ok:
  assumes e: "hash_ok (large_hash e)" "0 < large_step (smatcher e)" "length blk < 2 ^ 62"
  shows "blkpos + LLOOK e \<le> length blk \<Longrightarrow> length tbl = cfg_size (large_hash e) \<Longrightarrow>
    \<forall>x\<in>set tbl. x \<noteq> 0 \<longrightarrow> x - 1 + LLOOK e \<le> length blk \<Longrightarrow>
    \<exists>t. index_block e blk 0 oldpos blkpos tbl = Some t \<and> length t = cfg_size (large_hash e) \<and>
      (\<forall>x\<in>set t. x \<noteq> 0 \<longrightarrow> x - 1 + LLOOK e \<le> length blk)"
  using e
proof (induction e blk "0::nat" oldpos blkpos tbl rule: index_block.induct)
  case (1 e blk oldpos blkpos tbl)
  define hval where "hval = xd3_checksum_hash (large_hash e) (xd3_large_cksum (large_hash e) (drop blkpos blk) (large_look (smatcher e)))"
  have h: "hval < length tbl" using 1(3,5) by (simp add: hval_def hash_ok_def)
  have g: "\<not> (length blk < blkpos + large_look (smatcher e) \<or> length tbl \<le> hval \<or> large_step (smatcher e) = 0)"
    using 1(2,6) h by (simp add: LLOOK_def)
  have a: "add64 0 (add64 blkpos HASH_CKOFFSET) = blkpos + 1" using 1(2,7) by (simp add: HASH_CKOFFSET_def)
  define t where "t = tbl[hval := add64 0 (add64 blkpos HASH_CKOFFSET)]"
  have t: "length t = cfg_size (large_hash e)" "\<forall>x\<in>set t. x \<noteq> 0 \<longrightarrow> x - 1 + LLOOK e \<le> length blk"
    using 1(2,3,4) unfolding t_def a by (auto dest!: set_update_subset_insert [THEN subsetD])
  have u: "index_block e blk 0 oldpos blkpos tbl =
      (if oldpos + large_step (smatcher e) \<le> blkpos
       then index_block e blk 0 oldpos (blkpos - large_step (smatcher e)) t else Some t)"
    unfolding index_block.simps [of e blk 0 oldpos blkpos tbl] Let_def hval_def [symmetric] if_not_P [OF g] t_def ..
  show ?case
  proof (cases "oldpos + large_step (smatcher e) \<le> blkpos")
    case True
    have "\<exists>t'. index_block e blk 0 oldpos (blkpos - large_step (smatcher e)) t = Some t' \<and> length t' = cfg_size (large_hash e) \<and>
      (\<forall>x\<in>set t'. x \<noteq> 0 \<longrightarrow> x - 1 + LLOOK e \<le> length blk)"
      by (rule 1(1) [OF refl refl hval_def g t_def True _ t 1(5-7)]) (use 1(2) in auto)
    then show ?thesis using True u by simp
  next
    case False
    then show ?thesis using t u by simp
  qed
qed

lemma same_indexed: "srcwin_cksum_pos e = c \<Longrightarrow> large_table e = t \<Longrightarrow> e\<lparr>srcwin_cksum_pos := c, large_table := t\<rparr> = e"
  by (elim subst) simp

lemma large_ok_update:
  "large_ok S (e\<lparr>srcwin_cksum_pos := c\<rparr>) \<longleftrightarrow> large_ok S e"
  by (simp add: large_ok_def DO_LARGE_def LLOOK_def)

lemma move_loop_stop:
  assumes "src e = Some sr" "whole_source S sr" "target \<le> srcwin_cksum_pos e \<or> length S \<le> srcwin_cksum_pos e"
  shows "move_loop target e = Some (None, e)"
  using assms(1,3) whole_source_div(8,9) [OF assms(2)] by (subst move_loop.simps) auto

lemma move_loop_ok:
  assumes e: "match_env W S e" "src e = Some sr" "large_ok S e"
  shows "\<exists>c t. move_loop target e = Some (None, e\<lparr>srcwin_cksum_pos := c, large_table := t\<rparr>) \<and>
    large_ok S (e\<lparr>srcwin_cksum_pos := c, large_table := t\<rparr>)"
proof -
  have en: "whole_source S sr" "hash_ok (large_hash e)" "0 < large_step (smatcher e)" "length S < 2 ^ 62"
    using e(1,2) by (auto simp: match_env_def)
  note s = whole_source_div [OF en(1)]
  obtain t where t: "large_table e = Some t" "length t = cfg_size (large_hash e)"
      "\<forall>x\<in>set t. x \<noteq> 0 \<longrightarrow> x - 1 + LLOOK e \<le> length S"
    using e(2,3) by (auto simp: large_ok_def DO_LARGE_def)
  show ?thesis
  proof (cases "srcwin_cksum_pos e < target \<and> srcwin_cksum_pos e < length S")
    case False
    then have "move_loop target e = Some (None, e)" using e(2) en(1) by (intro move_loop_stop) auto
    then show ?thesis using e(3) same_indexed [OF refl refl, of e]
      by (intro exI [of _ "srcwin_cksum_pos e"] exI [of _ "large_table e"]) simp
  next
    case True
    define e2 where "e2 = e\<lparr>srcwin_cksum_pos := blksize sr\<rparr>"
    have c: "srcwin_cksum_pos e < target \<and> (\<not> eof_known sr \<or> srcwin_cksum_pos e < xd3_source_eof sr)"
      using True s(8,9) by simp
    have d: "xd3_blksize_div (srcwin_cksum_pos e) sr = (0, srcwin_cksum_pos e)" using True s(2) by (intro s(1)) simp
    have b: "(0 + 1) * blksize sr mod 2 ^ 64 = blksize sr" "blksize sr * 0 mod 2 ^ 64 = 0" using s(7) by simp_all
    have u: "move_loop target e =
        (if length S < large_look (smatcher e) then move_loop target e2
         else case index_block e S 0 (srcwin_cksum_pos e) (length S - large_look (smatcher e)) t of
            None \<Rightarrow> Some (Some Fault, e)
          | Some tbl' \<Rightarrow> move_loop target (e2\<lparr>large_table := Some tbl'\<rparr>))"
      unfolding move_loop.simps [of target e] e(2) option.case if_P [OF c] d s(6) Let_def prod.case b s(10) same_source [OF e(2)]
        e2_def [symmetric] s(4) t(1) ..
    have stop: "move_loop target (e2\<lparr>large_table := x\<rparr>) = Some (None, e2\<lparr>large_table := x\<rparr>)" for x
      using e(2) s(2) by (intro move_loop_stop [OF _ en(1)]) (auto simp: e2_def)
    have stop0: "move_loop target e2 = Some (None, e2)"
      using e(2) s(2) by (intro move_loop_stop [OF _ en(1)]) (auto simp: e2_def)
    show ?thesis
    proof (cases "length S < large_look (smatcher e)")
      case True
      have "e\<lparr>srcwin_cksum_pos := blksize sr, large_table := large_table e\<rparr> = e2" by (simp add: e2_def)
      moreover have "large_ok S e2" using e(3) by (simp add: e2_def large_ok_update)
      moreover have "move_loop target e = Some (None, e2)" using u True stop0 by simp
      ultimately show ?thesis by metis
    next
      case False
      have "length S - large_look (smatcher e) + LLOOK e \<le> length S" using False by (simp add: LLOOK_def)
      from index_block_ok [OF en(2,3,4) this t(2,3)] obtain t' where
        t': "index_block e S 0 (srcwin_cksum_pos e) (length S - large_look (smatcher e)) t = Some t'"
          "length t' = cfg_size (large_hash e)" "\<forall>x\<in>set t'. x \<noteq> 0 \<longrightarrow> x - 1 + LLOOK e \<le> length S" by blast
      have "large_ok S (e\<lparr>srcwin_cksum_pos := blksize sr, large_table := Some t'\<rparr>)"
        using t'(2,3) by (simp add: large_ok_def LLOOK_def)
      moreover have "move_loop target e = Some (None, e\<lparr>srcwin_cksum_pos := blksize sr, large_table := Some t'\<rparr>)"
        using u False t'(1) stop by (simp add: e2_def)
      ultimately show ?thesis by blast
    qed
  qed
qed

lemma move_point_ok:
  assumes e: "match_env W S e" "src e = Some sr" "large_ok S e"
  shows "\<exists>c t mp'. xd3_srcwin_move_point mp e = Some (None, e\<lparr>srcwin_cksum_pos := c, large_table := t\<rparr>, mp') \<and>
    large_ok S (e\<lparr>srcwin_cksum_pos := c, large_table := t\<rparr>)"
proof (cases "eof_known sr \<and> srcwin_cksum_pos e = xd3_source_eof sr")
  case True
  define e1 where "e1 = e\<lparr>srcwin_cksum_pos := srcwin_cksum_pos e, large_table := large_table e\<rparr>"
  have "e1 = e" unfolding e1_def by (rule same_indexed) simp_all
  then have "xd3_srcwin_move_point mp e = Some (None, e1, USIZE_T_MAX)" "large_ok S e1"
    using True e(2,3) by (simp_all add: xd3_srcwin_move_point_def)
  then show ?thesis unfolding e1_def by blast
next
  case False
  define e1 where "e1 = e\<lparr>srcwin_cksum_pos := max (maxsrcaddr e) (srcwin_cksum_pos e)\<rparr>"
  define target where "target = max (cksum_target e sr) (srcwin_cksum_pos e1)"
  have "match_frame e1 = match_frame e" by (simp add: e1_def match_frame_def)
  then have "match_env W S e1" by (rule match_env_frame [OF e(1)])
  moreover have "src e1 = Some sr" "large_ok S e1" using e(2,3) by (simp_all add: e1_def large_ok_update)
  ultimately obtain c t where m: "move_loop target e1 = Some (None, e1\<lparr>srcwin_cksum_pos := c, large_table := t\<rparr>)"
      "large_ok S (e1\<lparr>srcwin_cksum_pos := c, large_table := t\<rparr>)" using move_loop_ok by blast
  have eq: "e1\<lparr>srcwin_cksum_pos := c, large_table := t\<rparr> = e\<lparr>srcwin_cksum_pos := c, large_table := t\<rparr>" by (simp add: e1_def)
  define e2 where "e2 = e\<lparr>srcwin_cksum_pos := c, large_table := t\<rparr>"
  have l2: "large_ok S e2" using m(2) unfolding eq e2_def .
  have s2: "src e2 = Some sr" using e(2) by (simp add: e2_def)
  have u: "xd3_srcwin_move_point mp e =
     (if eof_known sr \<and> xd3_source_eof sr \<le> srcwin_cksum_pos e2
      then Some (None, e2\<lparr>srcwin_cksum_pos := xd3_source_eof sr\<rparr>, USIZE_T_MAX)
      else Some (None, e2, sub64 (add64 (input_position e2) (blksize sr)) (sub64 (srcwin_cksum_pos e2) target AND maskby sr)))"
    unfolding xd3_srcwin_move_point_def e(2) option.case if_not_P [OF False] Let_def e1_def [symmetric] target_def [symmetric] m(1) eq
    by (simp add: e2_def [symmetric] s2)
  show ?thesis
  proof (cases "eof_known sr \<and> xd3_source_eof sr \<le> srcwin_cksum_pos e2")
    case True
    have "e2\<lparr>srcwin_cksum_pos := xd3_source_eof sr\<rparr> = e\<lparr>srcwin_cksum_pos := xd3_source_eof sr, large_table := t\<rparr>"
      by (simp add: e2_def)
    moreover have "large_ok S (e2\<lparr>srcwin_cksum_pos := xd3_source_eof sr\<rparr>)" using l2 by (simp add: large_ok_update)
    ultimately show ?thesis using u [unfolded if_P [OF True]] by metis
  next
    case False
    then show ?thesis using u [unfolded if_not_P [OF False]] l2 unfolding e2_def by blast
  qed
qed

section \<open>The steps\<close>

text \<open>The window at the top of the loop: the entries of the small table are before \<open>b\<close>, and the next match
  ends after every one found so far.\<close>

definition run_ok :: "match_vars \<Rightarrow> 'sec xd3_encoder \<Rightarrow> bool" where
  "run_ok v e \<longleftrightarrow> (\<forall>i. SLOOK e - fst (run_v v) \<le> i \<longrightarrow> i < SLOOK e \<longrightarrow> input_rest e ! i = snd (run_v v))"

definition in_body :: "bytes \<Rightarrow> bytes \<Rightarrow> nat \<Rightarrow> 'sec xd3_encoder \<Rightarrow> bool" where
  "in_body W S b e \<longleftrightarrow> match_env W S e \<and> used_ok W S e \<and> small_ok b e \<and> large_ok S e \<and> b \<le> input_position e + 1 \<and>
    input_position e + SLOOK e \<le> length W \<and> MIN_MATCH \<le> min_match e \<and>
    (\<forall>r\<in>set (iopt_used e). rpos r < input_position e \<and> rpos r + rsize r < input_position e + min_match e)"

definition at_restart :: "bytes \<Rightarrow> bytes \<Rightarrow> 'sec xd3_encoder \<Rightarrow> bool" where
  "at_restart W S e \<longleftrightarrow> match_env W S e \<and> used_ok W S e \<and> small_ok (input_position e) e \<and> large_ok S e \<and>
    input_position e \<le> length W \<and> (\<forall>r\<in>set (iopt_used e). rpos r < input_position e)"

text \<open>A step from the position \<open>p\<close> of the window of \<open>e\<close>: it goes forward, or the loop ends.\<close>

definition good_step :: "bytes \<Rightarrow> bytes \<Rightarrow> 'sec xd3_encoder \<Rightarrow> nat \<Rightarrow> 'sec xd3_encoder string_step \<Rightarrow> bool" where
  "good_step W S e p st \<longleftrightarrow>
    (case st of
       Stop ret e' \<Rightarrow> ret = None \<and> used_ok W S e' \<and> match_frame e' = match_frame e
     | Restart mp e' \<Rightarrow> at_restart W S e' \<and> match_frame e' = match_frame e \<and> p < input_position e'
     | Body v e' \<Rightarrow> in_body W S (input_position e') e' \<and> run_ok v e' \<and> match_frame e' = match_frame e \<and> p < input_position e')"

lemma small_ok_cong:
  assumes "match_frame e' = match_frame e" "small_table e' = small_table e" "small_prev e' = small_prev e"
  shows "small_ok b e' = small_ok b e"
  unfolding small_ok_def DO_SMALL_def assms(2,3) match_frame_fields [OF assms(1)] ..

lemma large_ok_cong:
  assumes "match_frame e' = match_frame e" "large_table e' = large_table e"
  shows "large_ok S e' = large_ok S e"
  unfolding large_ok_def DO_LARGE_def LLOOK_def assms(2) match_frame_fields [OF assms(1)] ..

lemma small_ok_mono: "small_ok b e \<Longrightarrow> b \<le> b' \<Longrightarrow> small_ok b' e"
  by (fastforce simp: small_ok_def)

text \<open>The state after a change of the position and of the least match.\<close>

lemma moved:
  assumes "match_env W S e" "used_ok W S e" "small_ok b e" "large_ok S e"
    and e'_def: "e' = e\<lparr>min_match := m, input_position := p\<rparr>"
  shows "match_env W S e'" "used_ok W S e'" "small_ok b e'" "large_ok S e'" "match_frame e' = match_frame e"
proof -
  show f: "match_frame e' = match_frame e" by (simp add: e'_def match_frame_def)
  show "match_env W S e'" by (rule match_env_frame [OF assms(1) f])
  show "small_ok b e'" using assms(3) small_ok_cong [OF f] by (simp add: e'_def)
  show "large_ok S e'" using assms(4) large_ok_cong [OF f] by (simp add: e'_def)
  show "used_ok W S e'" using assms(2) by (simp add: used_ok_def e'_def)
qed

lemma NEXTRUN_ok:
  assumes "\<forall>i. n - fst r \<le> i \<longrightarrow> i < n \<longrightarrow> f i = snd r" "\<And>i. i < n \<Longrightarrow> g i = f (i + 1)" "n - fst (NEXTRUN (f n) r) \<le> i" "i < n"
  shows "g i = snd (NEXTRUN (f n) r)"
proof (cases "i + 1 = n")
  case True
  then show ?thesis using assms(2,4) by (cases r) (auto simp: NEXTRUN_def)
next
  case False
  then have "f n = snd r" "n - fst r \<le> i + 1" "i + 1 < n" using assms(3,4) by (cases r; auto simp: NEXTRUN_def split: if_splits)+
  then show ?thesis using assms(1,2,4) by (cases r) (simp add: NEXTRUN_def)
qed

text \<open>From the end of a round to the next one: the state has the position \<open>p\<close> and the instructions end
  before \<open>p + 1 + min_match\<close>.\<close>

lemma updateone_ok:
  assumes e: "match_env W S e" "used_ok W S e" "small_ok (input_position e + 1) e" "large_ok S e"
    and p: "input_position e + SLOOK e \<le> length W" "MIN_MATCH \<le> min_match e"
    and r: "\<forall>r\<in>set (iopt_used e). rpos r \<le> input_position e \<and> rpos r + rsize r < input_position e + 1 + min_match e"
    and v: "run_ok v e"
  shows "good_step W S e (input_position e) (updateone v e)"
proof (cases "input_position e + SLOOK e = length (next_in e)")
  case True
  then show ?thesis using e(2) by (simp add: updateone_def good_step_def)
next
  case False
  have en: "next_in e = W" "0 < SLOOK e" using e(1) by (auto simp: match_env_def)
  define q where "q = input_position e"
  define e' where "e' = e\<lparr>input_position := q + 1\<rparr>"
  have e'2: "e\<lparr>min_match := min_match e, input_position := q + 1\<rparr> = e'" by (simp add: e'_def)
  note mv = moved [OF e e'2 [symmetric]]
  have l: "\<not> length (input_rest e) \<le> SLOOK e" using False p(1) en by (simp add: input_rest_def)
  obtain v' where u: "updateone v e = Body v' e'" and v': "run_v v' = NEXTRUN (input_rest e ! SLOOK e) (run_v v)"
    using False l unfolding updateone_def Let_def q_def e'_def
    by (auto simp: if_not_P split: prod.splits)
  have "input_rest e' ! i = input_rest e ! (i + 1)" if "i < SLOOK e" for i
    using False p(1) that by (simp add: input_rest_def en e'_def q_def)
  then have "run_ok v' e'"
    using NEXTRUN_ok [OF v [unfolded run_ok_def], of "\<lambda>i. input_rest e' ! i"] unfolding run_ok_def v'
    by (simp add: SLOOK_def e'_def)
  moreover have "in_body W S (input_position e') e'"
    using mv p r False en(1) by (auto simp: in_body_def e'_def q_def SLOOK_def less_Suc_eq_le)
  ultimately show ?thesis using u mv(5) by (simp add: good_step_def e'_def q_def)
qed

lemma good_step_frame: "match_frame e1 = match_frame e \<Longrightarrow> good_step W S e1 p st \<longleftrightarrow> good_step W S e p st"
  by (cases st) (simp_all add: good_step_def)

lemma run_ok_cong:
  assumes "match_frame e' = match_frame e" "input_position e' = input_position e"
  shows "run_ok v e' \<longleftrightarrow> run_ok v e"
  unfolding run_ok_def SLOOK_def input_rest_def match_frame_fields [OF assms(1)] assms(2) ..

lemma in_body_cong:
  assumes b: "in_body W S b e" and f: "match_frame e' = match_frame e" "small_table e' = small_table e" "small_prev e' = small_prev e"
    and e': "large_ok S e'" "used_ok W S e'" "iopt_used e' = iopt_used e" "input_position e' = input_position e" "min_match e' = min_match e"
  shows "in_body W S b e'"
  using b match_env_frame [OF _ f(1)] small_ok_cong [OF f] e'
  unfolding in_body_def SLOOK_def match_frame_fields [OF f(1)] by simp

text \<open>A match has been found: the loop goes on one byte later, or behind the match.\<close>

lemma HANDLELAZY_ok:
  assumes e: "match_env W S e" "used_ok W S e" "small_ok (input_position e + 1) e" "large_ok S e"
    and p: "input_position e + SLOOK e \<le> length W" "MIN_MATCH \<le> mlen" "input_position e + mlen \<le> length W"
    and r: "found_to (input_position e) (input_position e + mlen) e" and v: "run_ok v e"
  shows "good_step W S e (input_position e) (HANDLELAZY mlen v e)"
proof (cases "0 < max_lazy (smatcher e) \<and> mlen < max_lazy (smatcher e) \<and>
    add64 (input_position e) mlen \<le> sub64 (length (next_in e)) 2")
  case True
  define e1 where "e1 = e\<lparr>min_match := mlen\<rparr>"
  have "e1 = e\<lparr>min_match := mlen, input_position := input_position e\<rparr>" by (simp add: e1_def)
  note mv = moved [OF e this]
  have "good_step W S e1 (input_position e1) (updateone v e1)"
  proof (rule updateone_ok [OF mv(1,2) _ mv(4)])
    show "run_ok v e1" using v run_ok_cong [OF mv(5)] by (simp add: e1_def)
  qed (use mv(3) p r in \<open>auto simp: e1_def SLOOK_def found_to_def\<close>)
  then show ?thesis using True good_step_frame [OF mv(5)] by (simp add: HANDLELAZY_def e1_def)
next
  case False
  define e1 where "e1 = e\<lparr>input_position := input_position e + mlen\<rparr>"
  have "e1 = e\<lparr>min_match := min_match e, input_position := input_position e + mlen\<rparr>" by (simp add: e1_def)
  note mv = moved [OF e this]
  have m: "0 < mlen" using p(2) by (simp add: MIN_MATCH_def)
  have "small_ok (input_position e1) e1" using small_ok_mono [OF mv(3), of "input_position e1"] m by (simp add: e1_def)
  then have "at_restart W S e1" using mv r p(3) m by (auto simp: at_restart_def e1_def found_to_def)
  moreover have "add64 (input_position e) mlen = input_position e + mlen" using p(3) e(1) by (simp add: match_env_def)
  then have "HANDLELAZY mlen v e = Restart (next_move_point v) e1" 
    unfolding HANDLELAZY_def Let_def if_not_P [OF False] by (simp add: e1_def)
  ultimately show ?thesis using mv(5) m by (simp add: good_step_def e1_def)
qed

lemma run_of_bytes:
  assumes "\<forall>i<n. xs ! i = c" "n \<le> length xs"
  defines "m \<equiv> n + length (takeWhile (\<lambda>x. x = c) (drop n xs))"
  shows "take m xs = replicate m c" "m \<le> length xs"
proof -
  have "length (takeWhile (\<lambda>x. x = c) (drop n xs)) \<le> length (drop n xs)" by (rule length_takeWhile_le)
  then show m: "m \<le> length xs" using assms(2) by (simp add: m_def)
  show "take m xs = replicate m c"
  proof (rule nth_equalityI)
    fix i assume "i < length (take m xs)"
    then have i: "i < m" using m by simp
    show "take m xs ! i = replicate m c ! i"
    proof (cases "i < n")
      case False
      then have "i - n < length (takeWhile (\<lambda>x. x = c) (drop n xs))" using i by (simp add: m_def)
      from nth_mem [OF this] have "takeWhile (\<lambda>x. x = c) (drop n xs) ! (i - n) = c" by (auto dest: set_takeWhileD)
      then show ?thesis using takeWhile_nth [OF \<open>i - n < _\<close>] i False m by simp
    qed (use i assms(1) in simp)
  qed (use m in simp)
qed

lemma emit_run_ok:
  assumes e: "match_env W S e" "used_ok W S e"
    and i: "take sz (drop (input_position e) W) = replicate sz c" "input_position e + sz \<le> length W" "0 < sz"
    and r: "\<forall>r\<in>set (iopt_used e). rpos r < input_position e \<and> rpos r + rsize r < input_position e + sz"
  shows "\<exists>e'. xd3_emit_run e (input_position e) sz c = Inr e' \<and> used_ok W S e' \<and> kept e e' \<and>
    found_to (input_position e) (input_position e + sz) e'"
proof -
  define inst where "inst = \<lparr>rtype = XD3_RUN, xtra = c, code1 = 0, code2 = 0, rpos = input_position e, rsize = sz, raddr = 0\<rparr>"
  obtain f n where u: "use_slot e inst = Inr (e\<lparr>iopt_size := n, iopt_free := f, iopt_used := iopt_used e @ [inst]\<rparr>)"
    using use_slot_ok [of e inst] e(1) by (auto simp: match_env_def)
  define e' where "e' = e\<lparr>iopt_size := n, iopt_free := f, iopt_used := iopt_used e @ [inst]\<rparr>"
  have "used_ok W S e'"
    unfolding e'_def using i r by (intro used_ok_snoc [OF e(2)]) (auto simp: inst_def right_def ends_later_def)
  moreover have "found_to (input_position e) (input_position e + sz) e'"
    using r by (auto simp: found_to_def inst_def e'_def)
  moreover have "kept e e'" by (simp add: kept_def match_frame_def tables_def e'_def)
  ultimately show ?thesis using u by (simp add: xd3_emit_run_def inst_def e'_def)
qed

lemma kept_tables:
  assumes "kept e e'"
  shows "match_frame e' = match_frame e" "small_table e' = small_table e" "small_prev e' = small_prev e"
    "large_table e' = large_table e" "input_position e' = input_position e" "min_match e' = min_match e"
  using assms by (auto simp: kept_def tables_def)

text \<open>After a match of at least \<open>min_match\<close> bytes.\<close>

lemma lazy_found:
  assumes b: "in_body W S b e" "run_ok v e" and k: "kept e e'" "used_ok W S e'"
    and m: "min_match e \<le> mlen" "input_position e + mlen \<le> length W"
      "found_to (input_position e) (input_position e + mlen) e'"
  shows "good_step W S e (input_position e) (HANDLELAZY mlen v e')"
proof -
  note kt = kept_tables [OF k(1)]
  have e: "match_env W S e" "small_ok b e" "large_ok S e" "b \<le> input_position e + 1"
      "input_position e + SLOOK e \<le> length W" "MIN_MATCH \<le> min_match e"
    using b(1) by (auto simp: in_body_def)
  have "good_step W S e' (input_position e') (HANDLELAZY mlen v e')"
  proof (rule HANDLELAZY_ok)
    show "match_env W S e'" by (rule match_env_frame [OF e(1) kt(1)])
    show "small_ok (input_position e' + 1) e'" using small_ok_mono [OF e(2)] e(4) small_ok_cong [OF kt(1-3)] kt(5) by simp
    show "large_ok S e'" using e(3) large_ok_cong [OF kt(1,4)] by simp
    show "input_position e' + SLOOK e' \<le> length W" using e(5) kt(5) match_frame_fields [OF kt(1)] by (simp add: SLOOK_def)
    show "run_ok v e'" using b(2) run_ok_cong [OF kt(1,5)] by simp
  qed (use k(2) m e(6) kt(5) in auto)
  then show ?thesis using good_step_frame [OF kt(1)] kt(5) by simp
qed

lemma run_part_ok:
  assumes b: "in_body W S b e" "run_ok v e"
    and rest: "\<And>v'. run_ok v' e \<Longrightarrow> \<exists>st. rest v' e = Some st \<and> good_step W S e (input_position e) st"
  shows "\<exists>st. run_part v e rest = Some st \<and> good_step W S e (input_position e) st"
proof (cases "fst (run_v v) = SLOOK e")
  case True
  have e: "match_env W S e" "used_ok W S e" "next_in e = W" "input_position e + SLOOK e \<le> length W" "MIN_MATCH \<le> min_match e"
      "\<forall>r\<in>set (iopt_used e). rpos r < input_position e \<and> rpos r + rsize r < input_position e + min_match e"
    using b(1) by (auto simp: in_body_def match_env_def)
  define c where "c = snd (run_v v)"
  define n where "n = fst (run_v v) + length (takeWhile (\<lambda>x. x = c) (drop (fst (run_v v)) (input_rest e)))"
  have all: "\<forall>i<fst (run_v v). input_rest e ! i = c" using b(2) True by (simp add: run_ok_def c_def)
  have "fst (run_v v) \<le> length (input_rest e)" using True e(3,4) by (simp add: input_rest_def)
  note rb = run_of_bytes [OF all this, folded n_def]
  have v1: "run_ok (v\<lparr>run_v := (n, c)\<rparr>) e" using all True by (simp add: run_ok_def)
  have u: "run_part v e rest =
      (if min_match e \<le> n \<and> MIN_RUN \<le> n then
         Some (case xd3_emit_run e (input_position e) n c of
                 Inl err \<Rightarrow> Stop (Some err) e
               | Inr e1 \<Rightarrow> HANDLELAZY n (v\<lparr>run_v := (n, c)\<rparr>) e1)
       else rest (v\<lparr>run_v := (n, c)\<rparr>) e)"
    unfolding run_part_def if_P [OF True] Let_def c_def [symmetric] n_def [symmetric] ..
  show ?thesis
  proof (cases "min_match e \<le> n \<and> MIN_RUN \<le> n")
    case m: True
    have bounds: "input_position e + n \<le> length W" "take n (drop (input_position e) W) = replicate n c" "0 < n"
      using rb e(3,4) m by (auto simp: input_rest_def MIN_RUN_def)
    have "\<forall>r\<in>set (iopt_used e). rpos r < input_position e \<and> rpos r + rsize r < input_position e + n"
      using e(6) m by fastforce
    from emit_run_ok [OF e(1,2) bounds(2,1,3) this] obtain e' where e': "xd3_emit_run e (input_position e) n c = Inr e'"
        "used_ok W S e'" "kept e e'" "found_to (input_position e) (input_position e + n) e'" by blast
    have "good_step W S e (input_position e) (HANDLELAZY n (v\<lparr>run_v := (n, c)\<rparr>) e')"
      using lazy_found [OF b(1) v1 e'(3,2) _ bounds(1) e'(4)] m by blast
    then show ?thesis unfolding u if_P [OF m] by (simp add: e'(1))
  next
    case False
    show ?thesis unfolding u if_not_P [OF False] by (rule rest [OF v1])
  qed
next
  case False
  then show ?thesis using rest [OF b(2)] by (simp add: run_part_def)
qed

lemma same_position: "in_body W S b e \<Longrightarrow> match_env W S e \<and> used_ok W S e \<and> large_ok S e \<and> input_position e \<le> length W"
  by (simp add: in_body_def)

text \<open>What the rest of the body may rely on: the state is one of the same position.\<close>

definition body_rest ::
    "bytes \<Rightarrow> bytes \<Rightarrow> (nat \<Rightarrow> nat) \<Rightarrow> 'sec xd3_encoder \<Rightarrow>
      (match_vars \<Rightarrow> 'sec xd3_encoder \<Rightarrow> 'sec xd3_encoder string_step option) \<Rightarrow> bool" where
  "body_rest W S b e rest \<longleftrightarrow> (\<forall>v' e'. in_body W S (b (input_position e')) e' \<longrightarrow> run_ok v' e' \<longrightarrow> match_frame e' = match_frame e \<longrightarrow>
    input_position e' = input_position e \<longrightarrow> (\<exists>st. rest v' e' = Some st \<and> good_step W S e (input_position e) st))"

lemma body_restD:
  assumes "body_rest W S b e rest" "in_body W S (b (input_position e)) e'" "run_ok v' e'" "match_frame e' = match_frame e"
    "input_position e' = input_position e"
  shows "\<exists>st. rest v' e' = Some st \<and> good_step W S e (input_position e) st"
  using assms unfolding body_rest_def by metis

lemma large_part_ok:
  assumes b: "in_body W S (input_position e) e" "run_ok v e" and rest: "body_rest W S (\<lambda>p. p) e rest"
  shows "\<exists>st. large_part v e rest = Some st \<and> good_step W S e (input_position e) st"
proof (cases "DO_LARGE e \<and> input_position e + LLOOK e \<le> length (next_in e)")
  case False
  show ?thesis unfolding large_part_def if_not_P [OF False] by (rule body_restD [OF rest b]) simp_all
next
  case True
  then obtain sr where sr: "src e = Some sr" by (auto simp: DO_LARGE_def)
  have e: "match_env W S e" "used_ok W S e" "large_ok S e" "input_position e \<le> length W" using same_position [OF b(1)] by auto
  obtain c t mp where mp: "(if next_move_point v \<le> input_position e then xd3_srcwin_move_point (next_move_point v) e
        else Some (None, e, next_move_point v)) = Some (None, e\<lparr>srcwin_cksum_pos := c, large_table := t\<rparr>, mp)"
      "large_ok S (e\<lparr>srcwin_cksum_pos := c, large_table := t\<rparr>)"
  proof (cases "next_move_point v \<le> input_position e")
    case True
    then show ?thesis using move_point_ok [OF e(1) sr e(3), of "next_move_point v"] that by auto
  next
    case False
    have "e\<lparr>srcwin_cksum_pos := srcwin_cksum_pos e, large_table := large_table e\<rparr> = e" by (rule same_indexed) simp_all
    then show ?thesis using False that [of "large_table e" "srcwin_cksum_pos e" "next_move_point v"] e(3) by simp
  qed
  define e1 where "e1 = e\<lparr>srcwin_cksum_pos := c, large_table := t\<rparr>"
  define v1 where "v1 = v\<lparr>next_move_point := mp\<rparr>"
  have f1: "match_frame e1 = match_frame e" "input_position e1 = input_position e" "small_table e1 = small_table e"
      "small_prev e1 = small_prev e" "iopt_used e1 = iopt_used e" "min_match e1 = min_match e" "src e1 = Some sr"
    using sr by (simp_all add: e1_def match_frame_def)
  have l1: "large_ok S e1" using mp(2) by (simp only: e1_def)
  have u1: "used_ok W S e1" using e(2) by (simp add: used_ok_def e1_def)
  have b1: "in_body W S (input_position e) e1" by (rule in_body_cong [OF b(1) f1(1,3,4) l1 u1 f1(5,2,6)])
  have env1: "match_env W S e1" by (rule match_env_frame [OF e(1) f1(1)])
  have v1: "run_ok v1 e1" using b(2) run_ok_cong [OF f1(1,2)] by (simp add: run_ok_def v1_def)
  obtain tbl where tbl: "large_table e1 = Some tbl" "length tbl = cfg_size (large_hash e1)"
      "\<forall>x\<in>set tbl. x \<noteq> 0 \<longrightarrow> x - 1 + LLOOK e1 \<le> length S"
    using l1 f1(7) by (auto simp: large_ok_def DO_LARGE_def)
  define idx where "idx = xd3_checksum_hash (large_hash e1) (lcksum v1)"
  have "idx < length tbl" using env1 f1(7) tbl(2) by (simp add: match_env_def hash_ok_def idx_def)
  then have fe: "fetch tbl idx = Some (tbl ! idx)" "tbl ! idx \<in> set tbl" by (auto simp: fetch_def)
  have u: "large_part v e rest =
      (if tbl ! idx = 0 then rest v1 e1
       else case xd3_source_match_setup e1 sr (tbl ! idx - HASH_CKOFFSET) of
         (False, e2) \<Rightarrow> rest v1 e2
       | (True, e2) \<Rightarrow>
           do {
             (ret2, e3) \<leftarrow> xd3_source_extend_match e2;
             case ret2 of
               Some err \<Rightarrow> Some (Stop (Some err) e3)
             | None \<Rightarrow> if 0 < match_fwd e3 then Some (HANDLELAZY (match_fwd e3) v1 e3) else rest v1 e3
           })"
    unfolding large_part_def if_P [OF True] mp(1) e1_def [symmetric]
    by (simp only: Option.bind.simps prod.case Let_def v1_def [symmetric] option.case tbl(1) f1(7) idx_def [symmetric] fe(1))
  show ?thesis
  proof (cases "tbl ! idx = 0")
    case True
    show ?thesis unfolding u if_P [OF True] by (rule body_restD [OF rest b1 v1 f1(1,2)])
  next
    case False
    define p where "p = tbl ! idx - HASH_CKOFFSET"
    have p: "p \<le> length S" using tbl(3) fe(2) False by (auto simp: p_def HASH_CKOFFSET_def)
    obtain g mb mf ms ls ss where st: "xd3_source_match_setup e1 sr p = (g, e1\<lparr>match_maxback := mb, match_maxfwd := mf, match_back := 0,
          match_fwd := 0, match_state := ms, match_srcpos := ss, match_last_srcpos := ls\<rparr>)"
        "g \<longrightarrow> ms = MATCH_BACKWARD \<and> ss = p \<and> mb = min p (input_position e1) \<and> mf = min (length S - p) (length W - input_position e1)"
      using setup_ok [OF env1 f1(7) e(4) [folded f1(2)] p] by blast
    define e2 where "e2 = e1\<lparr>match_maxback := mb, match_maxfwd := mf, match_back := 0,
          match_fwd := 0, match_state := ms, match_srcpos := ss, match_last_srcpos := ls\<rparr>"
    have f2: "match_frame e2 = match_frame e1" "input_position e2 = input_position e1" "small_table e2 = small_table e1"
        "small_prev e2 = small_prev e1" "large_table e2 = large_table e1" "iopt_used e2 = iopt_used e1" "min_match e2 = min_match e1"
        "src e2 = Some sr"
      using f1(7) by (simp_all add: e2_def match_frame_def)
    have l2: "large_ok S e2" using l1 large_ok_cong [OF f2(1,5)] by simp
    have u2: "used_ok W S e2" using u1 by (simp add: used_ok_def e2_def)
    have b2: "in_body W S (input_position e) e2" by (rule in_body_cong [OF b1 f2(1,3,4) l2 u2 f2(6,2,7)])
    have v2: "run_ok v1 e2" using v1 run_ok_cong [OF f2(1,2)] by simp
    have f02: "match_frame e2 = match_frame e" "input_position e2 = input_position e" using f1 f2 by simp_all
    show ?thesis
    proof (cases g)
      case False
      then have "large_part v e rest = rest v1 e2" unfolding u if_not_P [OF \<open>tbl ! idx \<noteq> 0\<close>] p_def [symmetric] st(1) e2_def by simp
      then show ?thesis using body_restD [OF rest b2 v2 f02] by simp
    next
      case True
      have env2: "match_env W S e2" using same_position [OF b2] by simp
      have r2: "0 < min_match e2" "\<forall>r\<in>set (iopt_used e2). rpos r < input_position e2 \<and> rpos r + rsize r < input_position e2 + min_match e2"
        using b2 by (auto simp: in_body_def MIN_MATCH_def)
      have "match_back e2 = 0" "match_fwd e2 = 0" "match_srcpos e2 = p" "match_maxback e2 = min p (input_position e2)"
          "match_maxfwd e2 = min (length S - p) (length W - input_position e2)" "match_state e2 = MATCH_BACKWARD"
        using st(2) True by (simp_all add: e2_def)
      then obtain e3 where e3: "xd3_source_extend_match e2 = Some (None, e3)" "used_ok W S e3" "kept e2 e3"
          "match_fwd e3 = 0 \<and> iopt_used e3 = iopt_used e2 \<or>
           min_match e2 \<le> match_fwd e3 \<and> input_position e2 + match_fwd e3 \<le> length W \<and>
           found_to (input_position e2) (input_position e2 + match_fwd e3) e3"
        using extend_match_ok [OF env2 u2 f2(8) _ _ _ _ _ _ _ _ _ r2] e(4) p f02(2) by auto
      note kt = kept_tables [OF e3(3)]
      have uu: "large_part v e rest = (if 0 < match_fwd e3 then Some (HANDLELAZY (match_fwd e3) v1 e3) else rest v1 e3)"
        using True e3(1) unfolding u if_not_P [OF \<open>tbl ! idx \<noteq> 0\<close>] p_def [symmetric] st(1) e2_def [symmetric] by simp
      show ?thesis
      proof (cases "0 < match_fwd e3")
        case m: True
        then have "good_step W S e2 (input_position e2) (HANDLELAZY (match_fwd e3) v1 e3)"
          using e3(4) by (intro lazy_found [OF b2 v2 e3(3,2)]) auto
        then show ?thesis unfolding uu if_P [OF m] using good_step_frame [OF f02(1)] f02(2) by auto
      next
        case m: False
        have l3: "large_ok S e3" using l2 large_ok_cong [OF kt(1,4)] by simp
        have b3: "in_body W S (input_position e) e3"
          by (rule in_body_cong [OF b2 kt(1-3) l3 e3(2) _ kt(5,6)]) (use m e3(4) b2 in \<open>auto simp: in_body_def MIN_MATCH_def\<close>)
        have "run_ok v1 e3" using v2 run_ok_cong [OF kt(1,5)] by simp
        then show ?thesis unfolding uu if_not_P [OF m] using body_restD [OF rest b3] kt(1,5) f02 by simp
      qed
    qed
  qed
qed

lemma in_body_mono: "in_body W S b e \<Longrightarrow> b \<le> b' \<Longrightarrow> b' \<le> input_position e + 1 \<Longrightarrow> in_body W S b' e"
  using small_ok_mono [of b e b'] by (simp add: in_body_def)

lemma small_part_ok:
  assumes b: "in_body W S (input_position e) e" "run_ok v e" and rest: "body_rest W S (\<lambda>p. p + 1) e rest"
  shows "\<exists>st. small_part v e rest = Some st \<and> good_step W S e (input_position e) st"
proof (cases "DO_SMALL e")
  case False
  show ?thesis unfolding small_part_def if_not_P [OF False]
    by (rule body_restD [OF rest in_body_mono [OF b(1)] b(2)]) simp_all
next
  case True
  have e: "match_env W S e" "used_ok W S e" "large_ok S e" "input_position e \<le> length W" "small_ok (input_position e) e"
      "MIN_MATCH \<le> min_match e" "next_in e = W"
      "\<forall>r\<in>set (iopt_used e). rpos r < input_position e \<and> rpos r + rsize r < input_position e + min_match e"
    using b(1) by (auto simp: in_body_def match_env_def)
  define sinx where "sinx = xd3_checksum_hash (small_hash e) (ucast (scksum v))"
  obtain tbl where tbl: "small_table e = Some tbl" "length tbl = cfg_size (small_hash e)" "\<forall>x\<in>set tbl. x \<le> input_position e"
    using e(5) True by (auto simp: small_ok_def)
  have i: "sinx < cfg_size (small_hash e)" using e(1) True by (simp add: match_env_def hash_ok_def sinx_def)
  then have fe: "fetch tbl sinx = Some (tbl ! sinx)" "tbl ! sinx \<le> input_position e" using tbl(2,3) by (auto simp: fetch_def)
  obtain mlen off where sm: "(if tbl ! sinx \<noteq> 0 then xd3_smatch e (tbl ! sinx) else Some (0, 0)) = Some (mlen, off)"
      "target_match W (input_position e) (mlen, off)"
  proof (cases "tbl ! sinx = 0")
    case True
    then show ?thesis using that [of 0 0] by (simp add: target_match_def)
  next
    case False
    then show ?thesis using smatch_ok [OF e(1,5) \<open>DO_SMALL e\<close> e(4) _ fe(2)] that by auto
  qed
  obtain t p where ins: "xd3_scksum_insert e sinx (input_position e) = Inr (e\<lparr>small_table := t, small_prev := p\<rparr>)"
      "small_ok (input_position e + 1) (e\<lparr>small_table := t, small_prev := p\<rparr>)"
    using scksum_insert_ok [OF e(1,5) True _ e(4) i] by auto
  define e1 where "e1 = e\<lparr>small_table := t, small_prev := p\<rparr>"
  have f1: "match_frame e1 = match_frame e" "input_position e1 = input_position e" "large_table e1 = large_table e"
      "iopt_used e1 = iopt_used e" "min_match e1 = min_match e"
    by (simp_all add: e1_def match_frame_def)
  have u1: "used_ok W S e1" using e(2) by (simp add: used_ok_def e1_def)
  have b1: "in_body W S (input_position e1 + 1) e1"
    using b(1) match_env_frame [OF e(1) f1(1)] u1 ins(2) [folded e1_def] large_ok_cong [OF f1(1,3)]
    unfolding in_body_def f1 SLOOK_def match_frame_fields [OF f1(1)] by simp
  have v1: "run_ok v e1" using b(2) run_ok_cong [OF f1(1,2)] by simp
  have u: "small_part v e rest =
      (if min_match e1 \<le> mlen then
         Some (case xd3_found_match e1 (input_position e1) mlen off False of
                 Inl err \<Rightarrow> Stop (Some err) e1
               | Inr e2 \<Rightarrow> HANDLELAZY mlen v e2)
       else rest v e1)"
    unfolding small_part_def if_P [OF True] Let_def sinx_def [symmetric] tbl(1)
    by (simp only: option.case fe(1) sm(1) prod.case ins(1) sum.case e1_def)
  show ?thesis
  proof (cases "min_match e1 \<le> mlen")
    case m: True
    have tm: "off < input_position e" "input_position e + mlen \<le> length W" "\<forall>k<mlen. W ! (input_position e + k) = W ! (off + k)" "0 < mlen"
      using sm(2) m e(6) f1(5) by (auto simp: target_match_def MIN_MATCH_def)
    have "right W S (match_minaddr e1) (match_maxaddr e1)
        \<lparr>rtype = XD3_CPY, xtra = of_bool False, code1 = 0, code2 = 0, rpos = input_position e1, rsize = mlen, raddr = off\<rparr>"
      using tm CPY_RUN by (simp add: right_def f1)
    moreover have "\<forall>r\<in>set (iopt_used e1). rpos r < input_position e1 \<and> rpos r + rsize r < input_position e1 + mlen"
      using e(8) m f1 by fastforce
    ultimately obtain e2 where e2: "xd3_found_match e1 (input_position e1) mlen off False = Inr e2" "used_ok W S e2"
        "found_to (input_position e1) (input_position e1 + mlen) e2" "kept e1 e2"
      using found_match_ok [OF match_env_frame [OF e(1) f1(1)] u1] by blast
    have "good_step W S e1 (input_position e1) (HANDLELAZY mlen v e2)"
      using lazy_found [OF b1 v1 e2(4,2) m _ e2(3)] tm(2) f1(2) by simp
    then show ?thesis unfolding u if_P [OF m] using good_step_frame [OF f1(1)] f1(2) e2(1) by simp
  next
    case m: False
    show ?thesis unfolding u if_not_P [OF m] by (rule body_restD [OF rest b1 [unfolded f1(2)] v1 f1(1,2)])
  qed
qed

lemma last_part_ok:
  "body_rest W S (\<lambda>p. p + 1) e
    (\<lambda>v e. Some (updateone v (if MIN_MATCH < min_match e then e\<lparr>min_match := min_match e - 1\<rparr> else e)))"
  unfolding body_rest_def
proof (intro allI impI)
  fix v' e'
  assume b: "in_body W S (input_position e' + 1) e'" "run_ok v' e'" and f: "match_frame e' = match_frame e" "input_position e' = input_position e"
  define m where "m = (if MIN_MATCH < min_match e' then min_match e' - 1 else min_match e')"
  define e2 where "e2 = e'\<lparr>min_match := m\<rparr>"
  have e2: "(if MIN_MATCH < min_match e' then e'\<lparr>min_match := min_match e' - 1\<rparr> else e') = e2" by (simp add: e2_def m_def)
  have e': "match_env W S e'" "used_ok W S e'" "small_ok (input_position e' + 1) e'" "large_ok S e'"
    using b(1) by (auto simp: in_body_def)
  have "e2 = e'\<lparr>min_match := m, input_position := input_position e'\<rparr>" by (simp add: e2_def)
  note mv = moved [OF e' this]
  have m: "MIN_MATCH \<le> m" "min_match e' \<le> m + 1" using b(1) by (auto simp: in_body_def m_def)
  have r: "\<forall>r\<in>set (iopt_used e'). rpos r < input_position e' \<and> rpos r + rsize r < input_position e' + min_match e'"
    using b(1) by (simp add: in_body_def)
  have "good_step W S e2 (input_position e2) (updateone v' e2)"
  proof (rule updateone_ok [OF mv(1,2) _ mv(4)])
    show "run_ok v' e2" using b(2) run_ok_cong [OF mv(5)] by (simp add: e2_def)
    show "\<forall>r\<in>set (iopt_used e2). rpos r \<le> input_position e2 \<and> rpos r + rsize r < input_position e2 + 1 + min_match e2"
      using r m(2) by (fastforce simp: e2_def)
  qed (use mv(3) b(1) m(1) in \<open>auto simp: e2_def SLOOK_def in_body_def\<close>)
  then have "good_step W S e (input_position e) (updateone v' e2)"
    using good_step_frame [OF mv(5)] good_step_frame [OF f(1)] f(2) by (simp add: e2_def)
  then show "\<exists>st. Some (updateone v' (if MIN_MATCH < min_match e' then e'\<lparr>min_match := min_match e' - 1\<rparr> else e')) = Some st \<and>
      good_step W S e (input_position e) st" unfolding e2 by blast
qed

lemma body_rest_cong:
  "match_frame e1 = match_frame e \<Longrightarrow> input_position e1 = input_position e \<Longrightarrow> body_rest W S b e1 rest \<longleftrightarrow> body_rest W S b e rest"
  using good_step_frame [of e1 e] by (simp add: body_rest_def)

lemma body_step_ok:
  assumes b: "in_body W S (input_position e) e" "run_ok v e"
  shows "\<exists>st. body_step v e = Some st \<and> good_step W S e (input_position e) st"
  unfolding body_step_def
proof (rule run_part_ok [OF b])
  fix v' assume v': "run_ok v' e"
  show "\<exists>st. large_part v' e (\<lambda>v e. small_part v e (\<lambda>v e.
      Some (updateone v (if MIN_MATCH < min_match e then e\<lparr>min_match := min_match e - 1\<rparr> else e)))) = Some st \<and>
      good_step W S e (input_position e) st"
  proof (rule large_part_ok [OF b(1) v'])
    show "body_rest W S (\<lambda>p. p) e (\<lambda>v e. small_part v e (\<lambda>v e.
      Some (updateone v (if MIN_MATCH < min_match e then e\<lparr>min_match := min_match e - 1\<rparr> else e))))"
      unfolding body_rest_def
    proof (intro allI impI)
      fix v1 e1
      assume e1: "in_body W S (input_position e1) e1" "run_ok v1 e1" "match_frame e1 = match_frame e" "input_position e1 = input_position e"
      from small_part_ok [OF e1(1,2) last_part_ok]
      show "\<exists>st. small_part v1 e1 (\<lambda>v e. Some (updateone v (if MIN_MATCH < min_match e then e\<lparr>min_match := min_match e - 1\<rparr> else e))) = Some st \<and>
          good_step W S e (input_position e) st"
        using good_step_frame [OF e1(3)] e1(4) by simp
    qed
  qed
qed

section \<open>The loop\<close>

text \<open>The least match from a restart on ends after the last instruction.\<close>

definition restart_min :: "'sec xd3_encoder \<Rightarrow> nat" where
  "restart_min e =
    (let last = xd3_iopt_last_matched e in
     if input_position e < last then max MIN_MATCH (1 + last - input_position e) else MIN_MATCH)"

lemma restart_min_ok:
  assumes "used_ok W S e" "length W < 2 ^ 62" "r \<in> set (iopt_used e)"
  shows "rpos r + rsize r < input_position e + restart_min e"
proof -
  have ne: "iopt_used e \<noteq> []" using assms(3) by auto
  then have "last (iopt_used e) \<in> set (iopt_used e)" by simp
  then have "right W S (match_minaddr e) (match_maxaddr e) (last (iopt_used e))" using assms(1) by (simp add: used_ok_def)
  then have "rpos (last (iopt_used e)) + rsize (last (iopt_used e)) \<le> length W" by (simp add: right_def)
  then have "xd3_iopt_last_matched e = rpos (last (iopt_used e)) + rsize (last (iopt_used e))"
    using ne assms(2) by (simp add: xd3_iopt_last_matched_def inst_end_def)
  moreover have "rpos r + rsize r \<le> rpos (last (iopt_used e)) + rsize (last (iopt_used e))"
    using ordered_last [OF _ assms(3)] assms(1) by (simp add: used_ok_def)
  ultimately show ?thesis by (auto simp: restart_min_def MIN_MATCH_def Let_def)
qed

lemma restart_step_ok:
  assumes "at_restart W S e"
  shows "restart_step mp e = Some (Stop None e) \<or>
    (\<exists>v e'. restart_step mp e = Some (Body v e') \<and> in_body W S (input_position e') e' \<and> run_ok v e' \<and>
      match_frame e' = match_frame e \<and> input_position e' = input_position e)"
proof (cases "length (next_in e) < input_position e + SLOOK e")
  case True
  then show ?thesis by (simp add: restart_step_def)
next
  case False
  have e: "match_env W S e" "used_ok W S e" "small_ok (input_position e) e" "large_ok S e" "next_in e = W" "length W < 2 ^ 62"
      "\<forall>r\<in>set (iopt_used e). rpos r < input_position e"
    using assms by (auto simp: at_restart_def match_env_def)
  define e1 where "e1 = e\<lparr>min_match := restart_min e\<rparr>"
  have "e1 = e\<lparr>min_match := restart_min e, input_position := input_position e\<rparr>" by (simp add: e1_def)
  note mv = moved [OF e(1-4) this]
  have p1: "input_position e1 = input_position e" by (simp add: e1_def)
  have m: "MIN_MATCH \<le> restart_min e" by (simp add: restart_min_def Let_def)
  have r1: "\<forall>r\<in>set (iopt_used e1). rpos r < input_position e1 \<and> rpos r + rsize r < input_position e1 + min_match e1"
    using e(7) restart_min_ok [OF e(2,6)] by (simp add: e1_def)
  have b1: "in_body W S (input_position e1) e1"
    using mv r1 m False e(5) by (simp add: in_body_def p1 SLOOK_def) (simp add: e1_def)
  obtain state sck where sck: "(if DO_SMALL e1 then xd3_scksum (input_rest e1) else (0, 0)) = (state, sck)" by fastforce
  define vars where "vars = \<lparr>scksum = sck, scksum_state = state, lcksum = 0, run_v = xd3_comprun (input_rest e1) (SLOOK e1),
                   next_move_point = mp\<rparr>"
  have "SLOOK e1 \<le> length (input_rest e1)" using False by (simp add: input_rest_def e1_def SLOOK_def)
  then have v1: "run_ok vars e1"
    using comprun_run [of "SLOOK e1" "input_rest e1"] by (cases "run_v vars") (auto simp: run_ok_def vars_def)
  have u: "restart_step mp e =
      (if DO_LARGE e1 \<and> input_position e1 + LLOOK e1 \<le> length (next_in e1) then
         do {
           (ret, e2, mp) \<leftarrow> xd3_srcwin_move_point mp e1;
           Some (case ret of
                   Some err \<Rightarrow> Stop (Some err) e2
                 | None \<Rightarrow> Body (vars\<lparr>lcksum := xd3_large_cksum (large_hash e2) (input_rest e2) (LLOOK e2),
                                     next_move_point := mp\<rparr>) e2)
         }
       else Some (Body vars e1))"
    unfolding restart_step_def if_not_P [OF False] Let_def restart_min_def [unfolded Let_def, symmetric]
    unfolding e1_def [symmetric] sck prod.case vars_def [symmetric] ..
  show ?thesis
  proof (cases "DO_LARGE e1 \<and> input_position e1 + LLOOK e1 \<le> length (next_in e1)")
    case True
    then obtain sr where sr: "src e1 = Some sr" by (auto simp: DO_LARGE_def)
    obtain c t mp' where m: "xd3_srcwin_move_point mp e1 = Some (None, e1\<lparr>srcwin_cksum_pos := c, large_table := t\<rparr>, mp')"
        "large_ok S (e1\<lparr>srcwin_cksum_pos := c, large_table := t\<rparr>)"
      using move_point_ok [OF mv(1) sr mv(4)] by blast
    define e2 where "e2 = e1\<lparr>srcwin_cksum_pos := c, large_table := t\<rparr>"
    have f2: "match_frame e2 = match_frame e1" "input_position e2 = input_position e1" "small_table e2 = small_table e1"
        "small_prev e2 = small_prev e1" "iopt_used e2 = iopt_used e1" "min_match e2 = min_match e1"
      by (simp_all add: e2_def match_frame_def)
    have u2: "used_ok W S e2" using mv(2) by (simp add: used_ok_def e2_def)
    have b2: "in_body W S (input_position e2) e2"
      unfolding f2(2) by (rule in_body_cong [OF b1 f2(1,3,4) m(2) [folded e2_def] u2 f2(5,2,6)])
    define v2 where "v2 = vars\<lparr>lcksum := xd3_large_cksum (large_hash e2) (input_rest e2) (LLOOK e2), next_move_point := mp'\<rparr>"
    have "run_ok v2 e2" using v1 run_ok_cong [OF f2(1,2)] by (simp add: run_ok_def v2_def)
    moreover have "restart_step mp e = Some (Body v2 e2)" unfolding u if_P [OF True] m(1) e2_def [symmetric] by (simp add: v2_def)
    ultimately show ?thesis using b2 f2(1,2) mv(5) p1 by auto
  next
    case False
    show ?thesis unfolding u if_not_P [OF False] using b1 v1 mv(5) p1 by auto
  qed
qed

lemma match_loop_Stop [simp]: "match_loop (Stop ret e) = Some (ret, e)"
  by (simp add: match_loop.simps [of "Stop ret e"])

text \<open>The loop ends and leaves right instructions.\<close>

lemma match_loop_ok:
  "case st of
     Stop ret e' \<Rightarrow> ret = None \<and> used_ok W S e' \<and> match_frame e' = match_frame e
   | Restart mp e' \<Rightarrow> at_restart W S e' \<and> match_frame e' = match_frame e
   | Body v e' \<Rightarrow> in_body W S (input_position e') e' \<and> run_ok v e' \<and> match_frame e' = match_frame e \<Longrightarrow>
   \<exists>e'. match_loop st = Some (None, e') \<and> used_ok W S e' \<and> match_frame e' = match_frame e"
proof (induction st rule: measure_induct_rule [where f = "\<lambda>st. case st of Stop _ _ \<Rightarrow> 0 | Restart _ e \<Rightarrow> 2 * (length W - input_position e) + 2
    | Body _ e \<Rightarrow> 2 * (length W - input_position e) + 1"])
  case (less st)
  show ?case
  proof (cases st)
    case (Stop ret e')
    then show ?thesis using less(2) by simp
  next
    case (Restart mp e')
    then have r: "at_restart W S e'" "match_frame e' = match_frame e" using less(2) by auto
    from restart_step_ok [OF r(1), of mp] show ?thesis
    proof (elim disjE exE conjE)
      assume s: "restart_step mp e' = Some (Stop None e')"
      have "match_loop (Restart mp e') = match_loop (Stop None e')" by (simp add: match_loop.simps [of "Restart mp e'"] s)
      then show ?thesis using r unfolding Restart by (auto simp: at_restart_def)
    next
      fix v e2
      assume s: "restart_step mp e' = Some (Body v e2)" "in_body W S (input_position e2) e2" "run_ok v e2"
        "match_frame e2 = match_frame e'" "input_position e2 = input_position e'"
      have "match_loop st = match_loop (Body v e2)" by (simp add: Restart match_loop.simps [of "Restart mp e'"] s(1))
      then show ?thesis using less(1) [of "Body v e2"] s(2-5) r(2) by (simp add: Restart)
    qed
  next
    case (Body v e')
    then have b: "in_body W S (input_position e') e'" "run_ok v e'" "match_frame e' = match_frame e" using less(2) by auto
    obtain st' where st': "body_step v e' = Some st'" "good_step W S e' (input_position e') st'"
      using body_step_ok [OF b(1,2)] by blast
    have "match_loop st = match_loop st'" by (simp add: Body match_loop.simps [of "Body v e'"] st'(1))
    moreover have "\<exists>e'. match_loop st' = Some (None, e') \<and> used_ok W S e' \<and> match_frame e' = match_frame e"
    proof (rule less(1))
      show "case st' of
         Stop ret e' \<Rightarrow> ret = None \<and> used_ok W S e' \<and> match_frame e' = match_frame e
       | Restart mp e' \<Rightarrow> at_restart W S e' \<and> match_frame e' = match_frame e
       | Body v e' \<Rightarrow> in_body W S (input_position e') e' \<and> run_ok v e' \<and> match_frame e' = match_frame e"
        using st'(2) b(3) by (auto simp: good_step_def split: string_step.splits)
      show "(case st' of Stop _ _ \<Rightarrow> 0 | Restart _ e \<Rightarrow> 2 * (length W - input_position e) + 2
          | Body _ e \<Rightarrow> 2 * (length W - input_position e) + 1)
        < (case st of Stop _ _ \<Rightarrow> 0 | Restart _ e \<Rightarrow> 2 * (length W - input_position e) + 2
          | Body _ e \<Rightarrow> 2 * (length W - input_position e) + 1)"
        using st'(2) by (auto simp: good_step_def Body in_body_def at_restart_def split: string_step.splits)
    qed
    ultimately show ?thesis by simp
  qed
qed

lemma string_match_init_ok:
  assumes e: "match_env W S e" "used_ok W S e" "large_table e = None" "small_table e = None" "small_prev e = None"
  shows "\<exists>e'. xd3_string_match_init e = Inr e' \<and> match_frame e' = match_frame e \<and> used_ok W S e' \<and> small_ok 0 e' \<and>
    large_ok S e' \<and> iopt_used e' = iopt_used e \<and> input_position e' = input_position e"
proof -
  have al: "\<exists>f. st_alloc e a b = Some f" for a b
    using e(1) unfolding match_env_def memory_lasts_def by blast
  have zt: "zero_table e' n = Inr (replicate n 0)" if "st_alloc e' = st_alloc e" for e' :: "'a xd3_encoder" and n
    using al [of n 8] that by (auto simp: zero_table_def)
  define e1 where "e1 = (if DO_LARGE e then e\<lparr>large_table := Some (replicate (cfg_size (large_hash e)) 0)\<rparr> else e)"
  have e1: "(if DO_LARGE e \<and> large_table e = None
       then sum_bind (zero_table e (cfg_size (large_hash e))) (\<lambda>t. Inr (e\<lparr>large_table := Some t\<rparr>)) else Inr e) = Inr e1"
    using e(3) zt [OF refl] by (simp add: e1_def)
  have f1: "match_frame e1 = match_frame e" "iopt_used e1 = iopt_used e" "input_position e1 = input_position e"
      "small_table e1 = None" "small_prev e1 = None" "match_minaddr e1 = match_minaddr e" "match_maxaddr e1 = match_maxaddr e"
    using e(4,5) by (simp_all add: e1_def match_frame_def)
  have l1: "large_ok S e1" using e(3) by (auto simp: e1_def large_ok_def DO_LARGE_def)
  have u1: "used_ok W S e1" using e(2) unfolding used_ok_def f1 .
  show ?thesis
  proof (cases "DO_SMALL e1")
    case False
    have "small_ok 0 e1" using False by (simp add: small_ok_def)
    then show ?thesis using False l1 u1 f1(1-3) by (intro exI [of _ e1]) (simp add: xd3_string_match_init_def e1)
  next
    case True
    define t where "t = replicate (cfg_size (small_hash e1)) (0::nat)"
    obtain f where f: "st_alloc e1 (sprevsz e1) 8 = Some f" using al match_frame_fields(2) [OF f1(1)] by metis
    define two where "two \<longleftrightarrow> 1 < small_lchain (smatcher e1) \<or> 1 < small_chain (smatcher e1)"
    define e2 where "e2 = e1\<lparr>small_table := Some t, small_prev := (if two then Some (map f [0..<sprevsz e1]) else None)\<rparr>"
    have "e1\<lparr>small_table := Some t, small_prev := None\<rparr> = e1\<lparr>small_table := Some t\<rparr>" by (rule same_prev [OF f1(5)])
    then have "xd3_string_match_init e = Inr e2"
      using True zt [OF match_frame_fields(2) [OF f1(1)]] f f1(4)
      by (simp add: xd3_string_match_init_def e1 t_def [symmetric] Let_def two_def e2_def)
    moreover have "small_ok 0 e2"
    proof -
      have "0 < small_chain (smatcher e1)" "0 < small_lchain (smatcher e1)"
        using e(1) match_frame_fields(7) [OF f1(1)] by (simp_all add: match_env_def)
      then show ?thesis by (auto simp: small_ok_def e2_def t_def two_def)
    qed
    moreover have "match_frame e2 = match_frame e1" "large_table e2 = large_table e1" by (simp_all add: e2_def match_frame_def)
    moreover have "used_ok W S e2" using u1 by (simp add: used_ok_def e2_def)
    ultimately show ?thesis using l1 large_ok_cong [of e2 e1] f1(1-3) by (intro exI [of _ e2]) (simp add: e2_def)
  qed
qed

lemma string_match_ok:
  assumes e: "match_env W S e" "used_ok W S e" "large_table e = None" "small_table e = None" "small_prev e = None"
    "input_position e \<le> length W" "\<forall>r\<in>set (iopt_used e). rpos r < input_position e"
  shows "\<exists>e'. xd3_string_match e = Some (None, e') \<and> used_ok W S e' \<and> match_frame e' = match_frame e"
proof (cases "length (next_in e) < input_position e + SLOOK e")
  case True
  then show ?thesis using e(2) by (simp add: xd3_string_match_def)
next
  case False
  obtain e1 where e1: "xd3_string_match_init e = Inr e1" "match_frame e1 = match_frame e" "used_ok W S e1" "small_ok 0 e1"
      "large_ok S e1" "iopt_used e1 = iopt_used e" "input_position e1 = input_position e"
    using string_match_init_ok [OF e(1-5)] by blast
  have "at_restart W S e1"
    using e1 e(6,7) match_env_frame [OF e(1) e1(2)] small_ok_mono [OF e1(4), of "input_position e1"] by (simp add: at_restart_def)
  then obtain e' where "match_loop (Restart 0 e1) = Some (None, e')" "used_ok W S e'" "match_frame e' = match_frame e1"
    using match_loop_ok [where st = "Restart 0 e1" and W = W and S = S and e = e1] by auto
  then show ?thesis using False e1(1,2) by (simp add: xd3_string_match_def)
qed

end
