(* ===== verification/Xd3DecodeDelta.thy ===== *)
theory Xd3DecodeDelta
  imports Xd3DecodeTotal Xd3MatchOk
begin

text \<open>
  The decoder on a whole delta: the bytes of the two headers are written out (\<open>file_head\<close>, \<open>window_head\<close>)
  as the encoder writes them, each label of \<open>xd3_decode_input\<close> is run on its part of them, and a window
  whose sections run to its bytes is decoded to these bytes by \<open>xd3_decode_memory\<close>.
\<close>

unbundle bit_operations_syntax

section \<open>The bytes of the headers\<close>

definition file_head :: bytes where
  "file_head = VCDIFF_MAGIC @ [VCDIFF_VERSION, 0]"

text \<open>\<open>sw\<close> is the part of the source the window uses, its length and base, and \<open>ck\<close> the checksum.\<close>

definition head_indicator :: "(nat \<times> nat) option \<Rightarrow> bytes \<Rightarrow> nat" where
  "head_indicator sw ck = (if sw = None then 0 else VCD_SOURCE) OR (if ck = [] then 0 else VCD_ADLER32)"

definition head_enclen :: "bytes \<Rightarrow> nat \<Rightarrow> nat \<Rightarrow> nat \<Rightarrow> nat \<Rightarrow> nat" where
  "head_enclen ck tn dl il al =
    1 + (xd3_sizeof_uint64 tn + xd3_sizeof_uint64 dl + xd3_sizeof_uint64 il + xd3_sizeof_uint64 al) + dl + il + al + length ck"

definition window_head :: "(nat \<times> nat) option \<Rightarrow> bytes \<Rightarrow> nat \<Rightarrow> nat \<Rightarrow> nat \<Rightarrow> nat \<Rightarrow> bytes" where
  "window_head sw ck tn dl il al =
    [of_nat (head_indicator sw ck)] @
    (case sw of None \<Rightarrow> [] | Some (len, base) \<Rightarrow> xd3_emit_uint64 len @ xd3_emit_uint64 base) @
    xd3_emit_uint64 (head_enclen ck tn dl il al) @ xd3_emit_uint64 tn @ [0] @ xd3_emit_uint64 dl @ xd3_emit_uint64 il @
    xd3_emit_uint64 al @ ck"

section \<open>Reading\<close>

lemma decode_byte_read:
  "next_in s = b # rest \<Longrightarrow>
    xd3_decode_byte put s = (None, DECODE_INPUT 1 (put (unat b) s))"
  by (simp add: xd3_decode_byte_def)

lemma decode_size_read:
  assumes "next_in s = xd3_emit_uint64 n @ rest" "n < 2 ^ 64" "dec_64part s = 0"
  shows "\<exists>t. xd3_decode_size put s = (None, put n (s\<lparr>total_in := t, next_in := rest\<rparr>))"
proof -
  have "xd3_read_uint64 (xd3_emit_uint64 n @ rest) = Inr (n, rest)" by (rule read_emit_uint64 [OF assms(2)])
  then have d: "decode_integer 0 (xd3_emit_uint64 n @ rest) = (None, 0, rest, n)"
    by (intro decode_integer_read) (simp add: xd3_read_uint64_def)
  have e: "s\<lparr>total_in := t, next_in := rest, dec_64part := 0\<rparr> = s\<lparr>total_in := t, next_in := rest\<rparr>" for t
    by (rule xd3_stream.equality) (simp_all add: assms(3))
  show ?thesis using d by (simp add: xd3_decode_size_def assms(1,3) DECODE_INPUT_def e) (rule exI, rule refl)
qed

lemma SIZE_CASE_read:
  assumes "expr \<Longrightarrow> next_in s = xd3_emit_uint64 n @ rest" "n < 2 ^ 64" "dec_64part s = 0" "\<not> expr \<Longrightarrow> put n (s\<lparr>total_in := total_in s, next_in := rest\<rparr>) = s"
  shows "\<exists>t. SIZE_CASE expr put st s = (None, (put n (s\<lparr>total_in := t, next_in := rest\<rparr>))\<lparr>dec_state := st\<rparr>)"
proof (cases expr)
  case True
  then show ?thesis using decode_size_read [OF assms(1) [OF True] assms(2,3), of put] by (auto simp: SIZE_CASE_def)
next
  case False
  then show ?thesis using assms(4) by (intro exI [of _ "total_in s"]) (simp add: SIZE_CASE_def del: xd3_stream.ext_inject)
qed

lemma decode_bytes_read:
  assumes "next_in s = bs @ rest" "length bs = n" "length buf = n" "0 < n"
  shows "xd3_decode_bytes s buf 0 n = (None, DECODE_INPUT n s, bs, n)"
proof -
  have "length (next_in s) = n + length rest" using assms(1,2) by simp
  then show ?thesis using assms by (subst xd3_decode_bytes.simps) (simp add: xd3_decode_bytes.simps [of _ _ n n])
qed

lemma falling_append: "falling (fs @ gs) s = andthen (falling fs s) (falling gs)"
  by (induction fs arbitrary: s) (auto simp: andthen_def split: prod.splits option.splits)

section \<open>The file header\<close>

definition fresh_decoder :: "'sec xd3_stream \<Rightarrow> bool" where
  "fresh_decoder s \<longleftrightarrow> dec_state s = DEC_VCHEAD \<and> dec_magic s = replicate 4 0 \<and> dec_magicbytes s = 0 \<and> memory_lasts (st_alloc s)"

lemma file_header_read:
  assumes s: "fresh_decoder s" "next_in s = file_head @ rest"
  shows "\<exists>t ac ct. falling [label_vchead, label_hdrind, label_secondid fgk djw, label_tablen, label_near, label_same,
      label_tabdat, label_applen, label_appdat] s =
    (None, s\<lparr>total_in := t, next_in := rest, dec_magic := [0xd6, 0xc3, 0xc4, 0], dec_magicbytes := 4, dec_hdr_ind := 0,
      acache := ac, code_table := xd3_rfc3284_code_table, dec_hdrsize := t, dec_state := DEC_WININD\<rparr>) \<and>
    s_near ac = 4 \<and> s_same ac = 3"
proof -
  define s1 where "s1 = (DECODE_INPUT 4 s)\<lparr>dec_magic := [0xd6, 0xc3, 0xc4, 0], dec_magicbytes := 4, dec_state := DEC_HDRIND\<rparr>"
  have n1: "next_in s = [0xd6, 0xc3, 0xc4, 0] @ 0 # rest"
    using s(2) by (simp add: file_head_def VCDIFF_MAGIC_def VCDIFF_VERSION_def)
  have "xd3_decode_bytes s (replicate 4 0) 0 4 = (None, DECODE_INPUT 4 s, [0xd6, 0xc3, 0xc4, 0], 4)"
    by (rule decode_bytes_read [OF n1]) simp_all
  then have 1: "label_vchead s = (None, s1)"
    using s(1) by (simp add: label_vchead_def fresh_decoder_def s1_def VCDIFF_MAGIC_def DECODE_INPUT_def)
  define s2 where "s2 = (DECODE_INPUT 1 (s1\<lparr>dec_hdr_ind := 0\<rparr>))\<lparr>dec_state := DEC_SECONDID\<rparr>"
  have "next_in s1 = 0 # rest" by (simp add: s1_def DECODE_INPUT_def n1)
  from decode_byte_read [OF this] have 2: "label_hdrind s1 = (None, s2)"
    by (simp add: label_hdrind_def s2_def DECODE_INPUT_def flag_def)
  have f2: "dec_hdr_ind s2 = 0" "next_in s2 = rest" "st_alloc s2 = st_alloc s"
    by (simp_all add: s2_def s1_def DECODE_INPUT_def n1)
  have no: "\<not> flag 0 x" for x by (simp add: flag_def)
  have 3: "label_secondid fgk djw s2 = (None, s2)" by (simp add: label_secondid_def f2 no)
  define s4 where "s4 = s2\<lparr>dec_state := DEC_NEAR\<rparr>"
  have 4: "label_tablen s2 = (None, s4)" by (simp add: label_tablen_def SIZE_CASE_def f2 no s4_def)
  define s5 where "s5 = s4\<lparr>dec_state := DEC_SAME\<rparr>"
  have 5: "label_near s4 = (None, s5)" by (simp add: label_near_def BYTE_CASE_def f2 no s4_def s5_def)
  define s6 where "s6 = s5\<lparr>dec_state := DEC_TABDAT\<rparr>"
  have 6: "label_same s5 = (None, s6)" by (simp add: label_same_def BYTE_CASE_def f2 no s4_def s5_def s6_def)
  have f6: "dec_hdr_ind s6 = 0" "st_alloc s6 = st_alloc s" by (simp_all add: f2 s4_def s5_def s6_def)
  define c0 where "c0 = (acache s6)\<lparr>s_near := near_modes rfc3284_code_table_desc, s_same := same_modes rfc3284_code_table_desc\<rparr>"
  obtain ac where ac: "xd3_alloc_cache (st_alloc s) c0 = Inr ac"
    using xd3_alloc_cache_ok [of "st_alloc s" c0] s(1) by (auto simp: fresh_decoder_def)
  have an: "s_near ac = 4" "s_same ac = 3"
    using xd3_alloc_cache_frame [OF ac] by (simp_all add: c0_def rfc3284_code_table_desc_def)
  define s7 where "s7 = s6\<lparr>acache := ac, code_table := xd3_rfc3284_code_table, dec_state := DEC_APPLEN\<rparr>"
  have 7: "label_tabdat s6 = (None, s7)"
    using ac by (simp add: label_tabdat_def f6 no c0_def Let_def s7_def)
  define s8 where "s8 = s7\<lparr>dec_state := DEC_APPDAT\<rparr>"
  have 8: "label_applen s7 = (None, s8)" by (simp add: label_applen_def SIZE_CASE_def f6 no s7_def s8_def)
  define s9 where "s9 = s8\<lparr>dec_hdrsize := total_in s8, dec_state := DEC_WININD\<rparr>"
  have 9: "label_appdat s8 = (None, s9)" by (simp add: label_appdat_def f6 no s7_def s8_def s9_def)
  have "falling [label_vchead, label_hdrind, label_secondid fgk djw, label_tablen, label_near, label_same,
      label_tabdat, label_applen, label_appdat] s = (None, s9)"
    by (simp add: 1 2 3 4 5 6 7 8 9)
  moreover have "s9 = s\<lparr>total_in := total_in s9, next_in := rest, dec_magic := [0xd6, 0xc3, 0xc4, 0], dec_magicbytes := 4,
      dec_hdr_ind := 0, acache := ac, code_table := xd3_rfc3284_code_table, dec_hdrsize := total_in s9, dec_state := DEC_WININD\<rparr>"
    by (simp add: s9_def s8_def s7_def s6_def s5_def s4_def s2_def s1_def DECODE_INPUT_def n1)
  ultimately show ?thesis using an by metis
qed

section \<open>The window header\<close>

definition window_ind :: "(nat \<times> nat) option \<Rightarrow> bytes \<Rightarrow> 'sec xd3_stream \<Rightarrow> bool" where
  "window_ind sw ck s \<longleftrightarrow> dec_win_ind s = head_indicator sw ck"

lemma indicator_flags:
  "flag (head_indicator sw ck) VCD_TARGET \<longleftrightarrow> False" "flag (head_indicator sw ck) VCD_SOURCE \<longleftrightarrow> sw \<noteq> None"
  "flag (head_indicator sw ck) VCD_ADLER32 \<longleftrightarrow> ck \<noteq> []" "flag (head_indicator sw ck) VCD_INVWIN \<longleftrightarrow> False"
  "SRCORTGT (head_indicator sw ck) \<longleftrightarrow> sw \<noteq> None" "head_indicator sw ck < 8"
  by (cases "sw = None"; cases "ck = []";
      simp add: head_indicator_def flag_def VCD_TARGET_def VCD_SOURCE_def VCD_ADLER32_def VCD_INVWIN_def SRCORTGT_def)+

definition sw_len :: "(nat \<times> nat) option \<Rightarrow> nat" where "sw_len sw = (case sw of None \<Rightarrow> 0 | Some (len, base) \<Rightarrow> len)"
definition sw_base :: "(nat \<times> nat) option \<Rightarrow> nat" where "sw_base sw = (case sw of None \<Rightarrow> 0 | Some (len, base) \<Rightarrow> base)"

definition cksum_value :: "bytes \<Rightarrow> u32 \<Rightarrow> u32" where
  "cksum_value ck a = foldl (\<lambda>a b. push_bit 8 a OR ucast b) a (take 4 ck)"

text \<open>The state behind the header of a window; \<open>t\<close> is the input read so far.\<close>

definition header_state ::
    "(nat \<times> nat) option \<Rightarrow> bytes \<Rightarrow> nat \<Rightarrow> nat \<Rightarrow> nat \<Rightarrow> nat \<Rightarrow> nat \<Rightarrow> bytes \<Rightarrow> 'sec xd3_stream \<Rightarrow> 'sec xd3_stream" where
  "header_state sw ck tn dl il al t rest s =
    s\<lparr>total_in := t, next_in := rest, dec_win_ind := head_indicator sw ck, current_window := dec_window_count s,
      dec_winstart := dec_winstart s + dec_tgtlen s, dec_cpylen := sw_len sw, dec_cpyoff := sw_base sw,
      dec_cksumbytes := (if ck = [] then 0 else 4), dec_cksum := (if ck = [] then dec_cksum s else ck),
      dec_adler32 := (if ck = [] then dec_adler32 s else cksum_value ck (dec_adler32 s)),
      acache := xd3_init_cache (acache s), dec_position := sw_len sw, dec_enclen := head_enclen ck tn dl il al,
      dec_tgtlen := tn, dec_maxpos := sw_len sw + tn, dec_del_ind := 0,
      data_sect := (data_sect s)\<lparr>sect_size := dl\<rparr>, inst_sect := (inst_sect s)\<lparr>sect_size := il\<rparr>,
      addr_sect := (addr_sect s)\<lparr>sect_size := al\<rparr>, dec_state := DEC_DATA\<rparr>"

lemma window_header_read:
  assumes s: "next_in s = window_head sw ck tn dl il al @ rest" "dec_64part s = 0" "length (dec_cksum s) = 4"
      "dec_winstart s + dec_tgtlen s < 2 ^ 64"
    and b: "sw_len sw + sw_base sw < 2 ^ 62" "tn \<le> 2 ^ 26" "dl < 2 ^ 60" "il < 2 ^ 60" "al < 2 ^ 60" "ck = [] \<or> length ck = 4"
  shows "\<exists>t. falling [label_winind, label_cpylen, label_cpyoff, label_enclen, label_tgtlen, label_delind, label_datalen,
      label_instlen, label_addrlen, label_cksum] s =
    (Some (if dec_window_count s = 0 then XD3_GOTHEADER else XD3_WINSTART), header_state sw ck tn dl il al t rest s)"
proof -
  define ind where "ind = head_indicator sw ck"
  have ind: "unat (of_nat ind :: u8) = ind" using indicator_flags(6) [of sw ck] by (simp add: ind_def unat_of_nat_u8)
  define r2 where "r2 = xd3_emit_uint64 (head_enclen ck tn dl il al) @ xd3_emit_uint64 tn @ [0] @ xd3_emit_uint64 dl @
    xd3_emit_uint64 il @ xd3_emit_uint64 al @ ck @ rest"
  define r1 where "r1 = (case sw of None \<Rightarrow> r2 | Some (len, base) \<Rightarrow> xd3_emit_uint64 len @ xd3_emit_uint64 base @ r2)"
  define r1b where "r1b = (case sw of None \<Rightarrow> r2 | Some (len, base) \<Rightarrow> xd3_emit_uint64 base @ r2)"
  have n: "next_in s = of_nat ind # r1"
    using s(1) by (auto simp: window_head_def ind_def r1_def r2_def split: option.splits)
  define s1 where "s1 = s\<lparr>total_in := add64 (total_in s) 1, next_in := r1, dec_win_ind := ind, current_window := dec_window_count s,
      dec_winstart := dec_winstart s + dec_tgtlen s, dec_cpylen := 0, dec_cpyoff := 0, dec_cksumbytes := 0,
      acache := xd3_init_cache (acache s), dec_state := DEC_CPYLEN\<rparr>"
  have 1: "label_winind s = (None, s1)"
    using decode_byte_read [OF n, of "\<lambda>v. dec_win_ind_update (\<lambda>_. v)"] s(4) ind indicator_flags(4) [of sw ck, folded ind_def]
    by (simp add: label_winind_def n DECODE_INPUT_def USIZE_T_OVERFLOW_iff xd3_decode_init_window_def Let_def s1_def)
  have w1: "dec_win_ind s1 = head_indicator sw ck" "dec_64part s1 = 0" by (simp_all add: s1_def ind_def s(2))
  obtain t2 where t2: "SIZE_CASE (SRCORTGT (dec_win_ind s1)) (\<lambda>v. dec_cpylen_update (\<lambda>_. v)) DEC_CPYOFF s1 =
      (None, (s1\<lparr>total_in := t2, next_in := r1b\<rparr>)\<lparr>dec_cpylen := sw_len sw, dec_state := DEC_CPYOFF\<rparr>)"
    using SIZE_CASE_read [of "SRCORTGT (dec_win_ind s1)" s1 "sw_len sw" r1b "\<lambda>v. dec_cpylen_update (\<lambda>_. v)" DEC_CPYOFF] b(1) w1(2)
    unfolding w1(1) indicator_flags(5)
    by (auto simp: s1_def r1_def r1b_def sw_len_def split: option.splits)
  define s2 where "s2 = s1\<lparr>total_in := t2, next_in := r1b, dec_cpylen := sw_len sw, dec_position := sw_len sw, dec_state := DEC_CPYOFF\<rparr>"
  have 2: "label_cpylen s1 = (None, s2)" using t2 by (simp add: label_cpylen_def s2_def)
  have w2: "dec_win_ind s2 = head_indicator sw ck" "dec_64part s2 = 0" "dec_cpylen s2 = sw_len sw" by (simp_all add: s2_def w1)
  obtain t3 where t3: "SIZE_CASE (SRCORTGT (dec_win_ind s2)) (\<lambda>v. dec_cpyoff_update (\<lambda>_. v)) DEC_ENCLEN s2 =
      (None, (s2\<lparr>total_in := t3, next_in := r2\<rparr>)\<lparr>dec_cpyoff := sw_base sw, dec_state := DEC_ENCLEN\<rparr>)"
    using SIZE_CASE_read [of "SRCORTGT (dec_win_ind s2)" s2 "sw_base sw" r2 "\<lambda>v. dec_cpyoff_update (\<lambda>_. v)" DEC_ENCLEN] b(1) w2(2)
    unfolding w2(1) indicator_flags(5)
    by (auto simp: s2_def s1_def r1b_def sw_base_def split: option.splits)
  define s3 where "s3 = s2\<lparr>total_in := t3, next_in := r2, dec_cpyoff := sw_base sw, dec_state := DEC_ENCLEN\<rparr>"
  have "\<not> USIZE_T_OVERFLOW (sw_base sw) (sw_len sw)" using b(1) by (simp add: USIZE_T_OVERFLOW_iff)
  then have 3: "label_cpyoff s2 = (None, s3)"
    using t3 by (simp add: label_cpyoff_def s3_def w2 indicator_flags)
  define el where "el = head_enclen ck tn dl il al"
  have el: "el < 2 ^ 64"
    using b xd3_sizeof_uint64_le [of tn] xd3_sizeof_uint64_le [of dl] xd3_sizeof_uint64_le [of il] xd3_sizeof_uint64_le [of al]
    by (auto simp: el_def head_enclen_def)
  define r4 where "r4 = xd3_emit_uint64 tn @ [0] @ xd3_emit_uint64 dl @ xd3_emit_uint64 il @ xd3_emit_uint64 al @ ck @ rest"
  have w3: "dec_64part s3 = 0" "next_in s3 = xd3_emit_uint64 el @ r4" by (simp_all add: s3_def w2 r2_def r4_def el_def)
  obtain t4 where t4: "label_enclen s3 = (None, (s3\<lparr>total_in := t4, next_in := r4\<rparr>)\<lparr>dec_enclen := el, dec_state := DEC_TGTLEN\<rparr>)"
    using SIZE_CASE_read [of True s3 el r4 "\<lambda>v. dec_enclen_update (\<lambda>_. v)" DEC_TGTLEN] w3 el by (auto simp: label_enclen_def)
  define s4 where "s4 = s3\<lparr>total_in := t4, next_in := r4, dec_enclen := el, dec_state := DEC_TGTLEN\<rparr>"
  have 4: "label_enclen s3 = (None, s4)" using t4 by (simp add: s4_def)
  define r5 where "r5 = 0 # xd3_emit_uint64 dl @ xd3_emit_uint64 il @ xd3_emit_uint64 al @ ck @ rest"
  have w4: "dec_64part s4 = 0" "next_in s4 = xd3_emit_uint64 tn @ r5" "dec_cpylen s4 = sw_len sw"
    by (simp_all add: s4_def w3 r4_def r5_def) (simp add: s3_def w2)
  obtain t5 where t5: "SIZE_CASE True (\<lambda>v. dec_tgtlen_update (\<lambda>_. v)) DEC_DELIND s4 =
      (None, (s4\<lparr>total_in := t5, next_in := r5\<rparr>)\<lparr>dec_tgtlen := tn, dec_state := DEC_DELIND\<rparr>)"
    using SIZE_CASE_read [of True s4 tn r5 "\<lambda>v. dec_tgtlen_update (\<lambda>_. v)" DEC_DELIND] w4 b(2) by auto
  define s5 where "s5 = s4\<lparr>total_in := t5, next_in := r5, dec_tgtlen := tn, dec_maxpos := sw_len sw + tn, dec_state := DEC_DELIND\<rparr>"
  have "\<not> USIZE_T_OVERFLOW (sw_len sw) tn" "add64 (sw_len sw) tn = sw_len sw + tn" "\<not> XD3_HARDMAXWINSIZE < tn"
    using b(1,2) by (auto simp: USIZE_T_OVERFLOW_iff XD3_HARDMAXWINSIZE_def)
  then have 5: "label_tgtlen s4 = (None, s5)" using t5 by (simp add: label_tgtlen_def s5_def w4(3))
  define r6 where "r6 = xd3_emit_uint64 dl @ xd3_emit_uint64 il @ xd3_emit_uint64 al @ ck @ rest"
  define s6 where "s6 = s5\<lparr>total_in := add64 t5 1, next_in := r6, dec_del_ind := 0, dec_state := DEC_DATALEN\<rparr>"
  have n5: "next_in s5 = 0 # r6" by (simp add: s5_def r5_def r6_def)
  have 6: "label_delind s5 = (None, s6)"
    using decode_byte_read [OF n5, of "\<lambda>v. dec_del_ind_update (\<lambda>_. v)"]
    by (simp add: label_delind_def BYTE_CASE_def DECODE_INPUT_def n5 flag_def) (simp add: s6_def s5_def)
  define r7 where "r7 = xd3_emit_uint64 il @ xd3_emit_uint64 al @ ck @ rest"
  have w6: "dec_64part s6 = 0" "next_in s6 = xd3_emit_uint64 dl @ r7" by (simp_all add: s6_def s5_def w4 r6_def r7_def)
  obtain t7 where t7: "label_datalen s6 = (None, (s6\<lparr>total_in := t7, next_in := r7\<rparr>)\<lparr>data_sect := (data_sect s6)\<lparr>sect_size := dl\<rparr>, dec_state := DEC_INSTLEN\<rparr>)"
    using SIZE_CASE_read [of True s6 dl r7 "put_size DATA_SECTION" DEC_INSTLEN] w6 b(3) by (auto simp: label_datalen_def put_size_def)
  define s7 where "s7 = s6\<lparr>total_in := t7, next_in := r7, data_sect := (data_sect s6)\<lparr>sect_size := dl\<rparr>, dec_state := DEC_INSTLEN\<rparr>"
  have 7: "label_datalen s6 = (None, s7)" using t7 by (simp add: s7_def)
  define r8 where "r8 = xd3_emit_uint64 al @ ck @ rest"
  have w7: "dec_64part s7 = 0" "next_in s7 = xd3_emit_uint64 il @ r8" by (simp_all add: s7_def w6 r7_def r8_def)
  obtain t8 where t8: "label_instlen s7 = (None, (s7\<lparr>total_in := t8, next_in := r8\<rparr>)\<lparr>inst_sect := (inst_sect s7)\<lparr>sect_size := il\<rparr>, dec_state := DEC_ADDRLEN\<rparr>)"
    using SIZE_CASE_read [of True s7 il r8 "put_size INST_SECTION" DEC_ADDRLEN] w7 b(4) by (auto simp: label_instlen_def put_size_def)
  define s8 where "s8 = s7\<lparr>total_in := t8, next_in := r8, inst_sect := (inst_sect s7)\<lparr>sect_size := il\<rparr>, dec_state := DEC_ADDRLEN\<rparr>"
  have 8: "label_instlen s7 = (None, s8)" using t8 by (simp add: s8_def)
  have w8: "dec_64part s8 = 0" "next_in s8 = xd3_emit_uint64 al @ ck @ rest" by (simp_all add: s8_def w7 r8_def)
  obtain t9 where t9: "label_addrlen s8 = (None, (s8\<lparr>total_in := t9, next_in := ck @ rest\<rparr>)\<lparr>addr_sect := (addr_sect s8)\<lparr>sect_size := al\<rparr>, dec_state := DEC_CKSUM\<rparr>)"
    using SIZE_CASE_read [of True s8 al "ck @ rest" "put_size ADDR_SECTION" DEC_CKSUM] w8 b(5) by (auto simp: label_addrlen_def put_size_def)
  define s9 where "s9 = s8\<lparr>total_in := t9, next_in := ck @ rest, addr_sect := (addr_sect s8)\<lparr>sect_size := al\<rparr>, dec_state := DEC_CKSUM\<rparr>"
  have 9: "label_addrlen s8 = (None, s9)" using t9 by (simp add: s9_def)
  define t10 where "t10 = (if ck = [] then t9 else add64 t9 4)"
  define s10 where "s10 = s9\<lparr>total_in := t10, next_in := rest, dec_cksumbytes := (if ck = [] then 0 else 4),
    dec_cksum := (if ck = [] then dec_cksum s else ck), dec_adler32 := (if ck = [] then dec_adler32 s else cksum_value ck (dec_adler32 s))\<rparr>"
  have f9: "dec_win_ind s9 = head_indicator sw ck" "dec_cksumbytes s9 = 0" "dec_cksum s9 = dec_cksum s" "dec_adler32 s9 = dec_adler32 s"
      "next_in s9 = ck @ rest" "total_in s9 = t9"
    by (simp_all add: s9_def s8_def s7_def s6_def s5_def s4_def s3_def s2_def s1_def ind_def)
  have 10: "(if flag (dec_win_ind s9) VCD_ADLER32 then read_cksum s9 else (None, s9)) = (None, s10)"
  proof (cases "ck = []")
    case True
    have "s10 = s9" unfolding s10_def by (rule xd3_stream.equality) (simp_all add: True f9 t10_def)
    then show ?thesis using True by (simp add: f9 indicator_flags)
  next
    case False
    then have "length ck = 4" using b(6) by simp
    from decode_bytes_read [OF f9(5) this, of "dec_cksum s9"] show ?thesis
      using False s(3) by (simp add: f9 indicator_flags read_cksum_def DECODE_INPUT_def s10_def t10_def cksum_value_def \<open>length ck = 4\<close>)
  qed
  have f10: "dec_enclen s10 = el" "dec_tgtlen s10 = tn" "sect_size (data_sect s10) = dl" "sect_size (inst_sect s10) = il"
      "sect_size (addr_sect s10) = al" "dec_win_ind s10 = head_indicator sw ck" "current_window s10 = dec_window_count s"
    by (simp_all add: s10_def s9_def s8_def s7_def s6_def s5_def s4_def s3_def s2_def s1_def ind_def)
  have "enclen_check (s10\<lparr>dec_state := DEC_DATA\<rparr>) = el"
    using el b(6) by (auto simp: enclen_check_def f10 indicator_flags el_def head_enclen_def)
  then have 11: "label_cksum s9 = (Some (if dec_window_count s = 0 then XD3_GOTHEADER else XD3_WINSTART), s10\<lparr>dec_state := DEC_DATA\<rparr>)"
    unfolding label_cksum_def 10 by (simp add: f10 Let_def)
  have "falling [label_winind, label_cpylen, label_cpyoff, label_enclen, label_tgtlen, label_delind, label_datalen,
      label_instlen, label_addrlen, label_cksum] s = 
    (Some (if dec_window_count s = 0 then XD3_GOTHEADER else XD3_WINSTART), s10\<lparr>dec_state := DEC_DATA\<rparr>)"
    by (simp only: falling.simps 1 2 3 4 5 6 7 8 9 11 andthen_simps)
  moreover have "s10\<lparr>dec_state := DEC_DATA\<rparr> = header_state sw ck tn dl il al t10 rest s"
    by (simp add: header_state_def s10_def s9_def s8_def s7_def s6_def s5_def s4_def s3_def s2_def s1_def ind_def el_def)
  ultimately show ?thesis by metis
qed

section \<open>The sections\<close>

lemma section_read:
  assumes x: "get_sect nm s = x" "sect_pos x = 0" "sect_size x = length bs" and n: "next_in s = bs @ rest"
  shows "\<exists>t wb. xd3_decode_section nm nst False s = (None,
    (put_sect nm (x\<lparr>sect_buf := bs, sect_pos := 0\<rparr>) s)\<lparr>total_in := t, next_in := rest, dec_winbytes := wb, dec_state := nst\<rparr>)"
proof (cases "bs = []")
  case True
  have "(put_sect nm (x\<lparr>sect_buf := [], sect_pos := 0\<rparr>) s)\<lparr>dec_state := nst\<rparr> =
      (put_sect nm (x\<lparr>sect_buf := bs, sect_pos := 0\<rparr>) s)\<lparr>total_in := total_in s, next_in := rest, dec_winbytes := dec_winbytes s, dec_state := nst\<rparr>"
    by (rule xd3_stream.equality; cases nm) (simp_all add: True n)
  then show ?thesis using x True by (auto simp: xd3_decode_section_def)
next
  case False
  then have "take_section nm False s = (None, DECODE_INPUT (length bs)
      ((put_sect nm (x\<lparr>sect_buf := bs, sect_pos := length bs\<rparr>) s)\<lparr>dec_winbytes := add64 (dec_winbytes s) (length bs)\<rparr>))"
    using x n by (simp add: take_section_def Let_def)
  then show ?thesis using x False
    by (intro exI [of _ "add64 (total_in s) (length bs)"] exI [of _ "add64 (dec_winbytes s) (length bs)"])
      (cases nm; simp add: xd3_decode_section_def DECODE_INPUT_def n)
qed

text \<open>A stream behind the header of a window, with the sections \<open>D\<close>, \<open>I\<close> and \<open>A\<close> as its input.\<close>

definition at_sections :: "bytes \<Rightarrow> bytes \<Rightarrow> bytes \<Rightarrow> 'sec xd3_stream \<Rightarrow> bool" where
  "at_sections I A D s \<longleftrightarrow> dec_state s = DEC_DATA \<and> next_in s = D @ I @ A \<and> dec_winbytes s = 0 \<and>
    sect_pos (data_sect s) = 0 \<and> sect_size (data_sect s) = length D \<and>
    sect_pos (inst_sect s) = 0 \<and> sect_size (inst_sect s) = length I \<and>
    sect_pos (addr_sect s) = 0 \<and> sect_size (addr_sect s) = length A \<and>
    length D + length I + length A < 2 ^ 62 \<and> no_skips (st_flags s) \<and> dec_del_ind s = 0 \<and>
    \<not> flag (dec_win_ind s) VCD_TARGET \<and> memory_lasts (st_alloc s) \<and> dec_tgtlen s \<le> 2 ^ 26 \<and> next_out s = []"

definition sections_state :: "bytes \<Rightarrow> bytes \<Rightarrow> bytes \<Rightarrow> nat \<Rightarrow> nat \<Rightarrow> nat \<Rightarrow> 'sec xd3_stream \<Rightarrow> 'sec xd3_stream" where
  "sections_state I A D t wb sp s =
    s\<lparr>total_in := t, next_in := [], next_out := [], space_out := sp, dec_winbytes := wb, 
      inst_sect := (inst_sect s)\<lparr>sect_buf := I, sect_pos := 0\<rparr>, addr_sect := (addr_sect s)\<lparr>sect_buf := A, sect_pos := 0\<rparr>,
      data_sect := (data_sect s)\<lparr>sect_buf := D, sect_pos := 0\<rparr>, dec_state := DEC_EMIT\<rparr>"

lemma sections_read:
  assumes s: "at_sections I A D s"
  shows "\<exists>t wb sp. xd3_decode_sections s = (None, sections_state I A D t wb sp s) \<and> dec_tgtlen s \<le> sp"
proof -
  have f: "dec_state s = DEC_DATA" "next_in s = D @ I @ A" "dec_winbytes s = 0" "no_skips (st_flags s)" "dec_del_ind s = 0"
      "\<not> flag (dec_win_ind s) VCD_TARGET" "memory_lasts (st_alloc s)" "dec_tgtlen s \<le> 2 ^ 26" "next_out s = []"
      "length D + length I + length A < 2 ^ 62"
    using s by (auto simp: at_sections_def)
  have z: "sect_pos (data_sect s) = 0" "sect_size (data_sect s) = length D" "sect_pos (inst_sect s) = 0" "sect_size (inst_sect s) = length I"
      "sect_pos (addr_sect s) = 0" "sect_size (addr_sect s) = length A" using s by (auto simp: at_sections_def)
  obtain t1 w1 where s1: "xd3_decode_section DATA_SECTION DEC_INST False s =
      (None, s\<lparr>data_sect := (data_sect s)\<lparr>sect_buf := D, sect_pos := 0\<rparr>, total_in := t1, next_in := I @ A, dec_winbytes := w1, dec_state := DEC_INST\<rparr>)"
    using section_read [of DATA_SECTION s "data_sect s" D "I @ A" DEC_INST] z f(2) by auto
  define s1' where "s1' = s\<lparr>data_sect := (data_sect s)\<lparr>sect_buf := D, sect_pos := 0\<rparr>, total_in := t1, next_in := I @ A, dec_winbytes := w1, dec_state := DEC_INST\<rparr>"
  obtain t2 w2 where s2: "xd3_decode_section INST_SECTION DEC_ADDR False s1' =
      (None, s1'\<lparr>inst_sect := (inst_sect s)\<lparr>sect_buf := I, sect_pos := 0\<rparr>, total_in := t2, next_in := A, dec_winbytes := w2, dec_state := DEC_ADDR\<rparr>)"
    using section_read [of INST_SECTION s1' "inst_sect s" I A DEC_ADDR] z by (auto simp: s1'_def)
  define s2' where "s2' = s1'\<lparr>inst_sect := (inst_sect s)\<lparr>sect_buf := I, sect_pos := 0\<rparr>, total_in := t2, next_in := A, dec_winbytes := w2, dec_state := DEC_ADDR\<rparr>"
  obtain t3 w3 where s3: "xd3_decode_section ADDR_SECTION DEC_EMIT False s2' =
      (None, s2'\<lparr>addr_sect := (addr_sect s)\<lparr>sect_buf := A, sect_pos := 0\<rparr>, total_in := t3, next_in := [], dec_winbytes := w3, dec_state := DEC_EMIT\<rparr>)"
    using section_read [of ADDR_SECTION s2' "addr_sect s" A "[]" DEC_EMIT] z by (auto simp: s1'_def s2'_def)
  define s3' where "s3' = s2'\<lparr>addr_sect := (addr_sect s)\<lparr>sect_buf := A, sect_pos := 0\<rparr>, total_in := t3, next_in := [], dec_winbytes := w3, dec_state := DEC_EMIT\<rparr>"
  have f3: "dec_del_ind s3' = 0" "st_flags s3' = st_flags s" "dec_win_ind s3' = dec_win_ind s" "space_out s3' = space_out s"
      "dec_tgtlen s3' = dec_tgtlen s" "st_alloc s3' = st_alloc s" "next_out s3' = []"
    by (simp_all add: s3'_def s2'_def s1'_def f)
  have no: "\<not> flag 0 x" for x by (simp add: flag_def)
  have sec: "xd3_decode_secondary_sections s3' = (None, s3')"
    by (simp add: xd3_decode_secondary_sections_def f3(1) no)
  have sk: "\<not> flag (st_flags s) XD3_SKIP_EMIT" "\<not> flag (st_flags s) XD3_JUST_HDR" "\<not> flag (st_flags s) XD3_SKIP_WINDOW"
    using f(4) by (auto simp: no_skips_def)
  obtain sp where sp: "xd3_decode_setup_buffers s3' = (None, s3'\<lparr>space_out := sp, next_out := []\<rparr>)" "dec_tgtlen s \<le> sp"
  proof (cases "space_out s < dec_tgtlen s")
    case True
    define sp where "sp = xd3_round_blksize (dec_tgtlen s) XD3_ALLOCSIZE"
    obtain g where "st_alloc s sp 1 = Some g" using f(7) by (meson memory_lasts_def not_None_eq)
    then have "xd3_decode_setup_buffers s3' = (None, s3'\<lparr>space_out := sp, next_out := []\<rparr>)"
      using True f(6) by (simp add: xd3_decode_setup_buffers_def f3 sp_def Let_def)
    moreover have "dec_tgtlen s \<le> sp" using xd3_round_blksize_ge [of "dec_tgtlen s"] f(8) by (simp add: sp_def XD3_ALLOCSIZE_def)
    ultimately show ?thesis using that by blast
  next
    case False
    have "s3'\<lparr>space_out := space_out s, next_out := []\<rparr> = s3'" by (rule xd3_stream.equality) (simp_all add: f3)
    then show ?thesis using that [of "space_out s"] False f(6) by (simp add: xd3_decode_setup_buffers_def f3)
  qed
  have b: "add64 (add64 (length I) (length A)) (length D) = length I + length A + length D" "sub64 (length I + length A + length D) 0 = length I + length A + length D"
      "\<not> USIZE_T_OVERFLOW (length I) (length A)" "\<not> USIZE_T_OVERFLOW (add64 (length I) (length A)) (length D)"
    using f(10) by (simp_all add: USIZE_T_OVERFLOW_iff)
  have c: "(min (length I + length A + length D) (length (D @ I @ A)) \<noteq> length I + length A + length D) = False" by simp
  have "xd3_decode_sections s = (None, s3'\<lparr>space_out := sp, next_out := []\<rparr>)"
    unfolding xd3_decode_sections_def if_not_P [OF sk(2)] if_not_P [OF sk(3)] z if_not_P [OF b(3)] if_not_P [OF b(4)] Let_def f(2,3) b(1,2) c
    using s1 s2 s3 sec sp(1) sk(1) f3(2) by (simp add: f(1) s1'_def [symmetric] s2'_def [symmetric] s3'_def [symmetric])
  moreover have "s3'\<lparr>space_out := sp, next_out := []\<rparr> = sections_state I A D t3 w3 sp s"
    by (simp add: sections_state_def s3'_def s2'_def s1'_def)
  ultimately show ?thesis using sp(2) by metis
qed

section \<open>The window\<close>

lemma init_cache_unique:
  "s_near a = 4 \<Longrightarrow> s_same a = 3 \<Longrightarrow> s_near b = 4 \<Longrightarrow> s_same b = 3 \<Longrightarrow> xd3_init_cache a = xd3_init_cache b"
  by (simp add: xd3_init_cache_def)

lemma emit_read:
  assumes w: "window_ok w" "w_len w = sw_len sw" "w_base w = sw_base sw" "sw \<noteq> None \<longrightarrow> 0 < sw_len sw"
    and s: "dec_win_ind s = head_indicator sw ck" "code_table s = xd3_rfc3284_code_table" "dec_cpylen s = sw_len sw"
      "dec_cpyoff s = sw_base sw" "dec_maxpos s = sw_len sw + length (w_target w)" "length (w_target w) \<le> space_out s"
      "dec_tgtlen s = length (w_target w)" "dec_position s = sw_len sw" "next_out s = []"
      "htype (dec_current1 s) = XD3_NOOP" "htype (dec_current2 s) = XD3_NOOP"
      "sw \<noteq> None \<longrightarrow> (\<exists>sr. src s = Some sr \<and> whole_source (w_source w) sr)"
      "ck \<noteq> [] \<longrightarrow> dec_adler32 s = adler32 1 (w_target w)"
    and r: "\<forall>s0 :: 'sec xd3_stream. ready w s0 \<longrightarrow> runs w s0 (acache s) (length (w_target w)) c (sect_buf (inst_sect s))
        (sect_buf (addr_sect s)) (sect_buf (data_sect s))"
  shows "\<exists>s'. label_emit (s :: 'sec xd3_stream) = Some (Some XD3_OUTPUT, s') \<and> next_out s' = w_target w \<and> dec_state s' = DEC_FINISH \<and>
    dec_win_ind s' = dec_win_ind s \<and> enc_state s' = enc_state s \<and> next_in s' = next_in s"
proof -
  define start where "start = (if flag (dec_win_ind s) VCD_SOURCE then
                    (case src s of
                       None \<Rightarrow> (Some XD3_INVALID_INPUT, s)
                     | Some source \<Rightarrow>
                         let (blocks, blkoff) = xd3_blksize_div (dec_cpyoff s) source in
                         (None, s\<lparr>src := Some (source\<lparr>cpyoff_blocks := blocks, cpyoff_blkoff := blkoff\<rparr>)\<rparr>))
                  else (None, s))"
  obtain x where x: "start = (None, s\<lparr>src := x\<rparr>)" "sw \<noteq> None \<longrightarrow> (\<exists>sr. x = Some sr \<and> memory_block (w_source w) sr \<and>
      cpyoff_blocks sr = 0 \<and> cpyoff_blkoff sr = w_base w)"
  proof (cases "sw = None")
    case True
    then have "start = (None, s)" by (simp add: start_def s(1) indicator_flags)
    then show ?thesis using that [of "src s"] True by simp
  next
    case False
    then obtain sr where sr: "src s = Some sr" "whole_source (w_source w) sr" using s(12) by blast
    have "0 < w_len w" using False w(2,4) by simp
    then have "w_base w < length (w_source w)" using w(1) by (auto simp: window_ok_def)
    then have "sw_base sw < blksize sr" using whole_source_div(2) [OF sr(2)] w(3) by simp
    then have d: "xd3_blksize_div (dec_cpyoff s) sr = (0, sw_base sw)" using whole_source_div(1) [OF sr(2)] s(4) by simp
    have "start = (None, s\<lparr>src := Some (sr\<lparr>cpyoff_blocks := 0, cpyoff_blkoff := sw_base sw\<rparr>)\<rparr>)"
      using False by (simp add: start_def s(1) indicator_flags sr(1) d)
    moreover have "memory_block (w_source w) (sr\<lparr>cpyoff_blocks := 0, cpyoff_blkoff := sw_base sw\<rparr>)"
      using sr(2) by (simp add: whole_source_def memory_block_def)
    ultimately show ?thesis using that [of "Some (sr\<lparr>cpyoff_blocks := 0, cpyoff_blkoff := sw_base sw\<rparr>)"] w(3) by simp
  qed
  define s1 where "s1 = s\<lparr>src := x\<rparr>"
  have rd: "ready w s1"
    using x(2) s w(2,4) by (cases "sw = None") (auto simp: ready_def s1_def indicator_flags sw_len_def)
  have "run_at w s1 0 (acache s) (sect_buf (inst_sect s)) (sect_buf (addr_sect s)) (sect_buf (data_sect s)) s1"
  proof -
    have "s1 = run_state s1 [] (acache s) (w_len w) (sect_buf (inst_sect s)) (sect_buf (addr_sect s)) (sect_buf (data_sect s))
        (dec_current1 s) (dec_current2 s)"
      unfolding run_state_def by (rule xd3_stream.equality) (simp_all add: s1_def s w(2))
    then show ?thesis using s(10,11) by (auto simp: run_at_def)
  qed
  then obtain h1 h2 where el: "emit_loop s1 =
      Some (None, run_state s1 (w_target w) c (w_len w + length (w_target w)) [] [] [] h1 h2)"
    using runs_loop [OF r [rule_format, OF rd]] by blast
  define s2 where "s2 = run_state s1 (w_target w) c (w_len w + length (w_target w)) [] [] [] h1 h2"
  have f1: "dec_win_ind s1 = dec_win_ind s" "dec_tgtlen s1 = dec_tgtlen s" "dec_adler32 s1 = dec_adler32 s"
    by (simp_all add: s1_def)
  have ec: "emit_checks s2 = xd3_decode_finish_window s2"
    using s(7,13) by (auto simp: emit_checks_def s2_def f1 s(1) indicator_flags)
  define s3 where "s3 = snd (xd3_decode_finish_window s2)"
  have s3: "xd3_decode_finish_window s2 = (Some XD3_OUTPUT, s3)" by (simp add: s3_def xd3_decode_finish_window_def)
  have "label_emit s = (case start of
       (Some e, s1) \<Rightarrow> Some (Some e, s1)
     | (None, s1) \<Rightarrow>
         (case xd3_decode_emit s1 of
            None \<Rightarrow> None
          | Some (ret, s2) \<Rightarrow>
              Some (ret, if ret = Some XD3_OUTPUT then s2\<lparr>total_out := add64 (total_out s2) (avail_out s2)\<rparr> else s2)))"
    unfolding label_emit_def start_def by (simp only: Let_def)
  also have "\<dots> = Some (Some XD3_OUTPUT, s3\<lparr>total_out := add64 (total_out s3) (avail_out s3)\<rparr>)"
    unfolding x(1) s1_def [symmetric] by (simp add: xd3_decode_emit_def el s2_def [symmetric] ec s3)
  finally have "label_emit s = Some (Some XD3_OUTPUT, s3\<lparr>total_out := add64 (total_out s3) (avail_out s3)\<rparr>)" .
  moreover have "next_out s3 = w_target w" "dec_state s3 = DEC_FINISH" "dec_win_ind s3 = dec_win_ind s" "enc_state s3 = enc_state s" "next_in s3 = next_in s"
    by (simp_all add: s3_def xd3_decode_finish_window_def s2_def run_state_def s1_def)
  ultimately show ?thesis by simp
qed

section \<open>The delta\<close>

definition fresh_cache :: addr_cache where
  "fresh_cache = xd3_init_cache \<lparr>s_near = 4, s_same = 3, next_slot = 0, near_array = [], same_array = []\<rparr>"

text \<open>The source of the client functions is in memory as one block.\<close>

lemma memory_whole_source:
  assumes "length S < 2 ^ 62"
  shows "\<exists>sr. xd3_set_source_and_size (memory_source S) (length S) = Some sr \<and> whole_source S sr \<and> srclen sr = 0 \<and> srcbase sr = 0"
proof -
  have "length S \<le> 2 ^ 63" using assms by simp
  then obtain l where l: "l \<le> 63" "xd3_pow2_roundup (length S) = Some (2 ^ l)" "length S \<le> 2 ^ l"
    by (rule xd3_pow2_roundup_ok)
  have check: "xd3_check_pow2 (2 ^ l) = Some l" using xd3_check_pow2_pow2 [of l] l(1) by simp
  obtain bsize shift where blk: "(case xd3_check_pow2 (length S) of
           Some l \<Rightarrow> Some (length S, l)
         | None \<Rightarrow> do { b \<leftarrow> xd3_pow2_roundup (length S); l \<leftarrow> xd3_check_pow2 b; Some (b, l) }) = Some (bsize, shift)"
    and size: "bsize = 2 ^ shift" "shift < 64" "length S \<le> 2 ^ shift"
  proof (cases "xd3_check_pow2 (length S)")
    case None
    then show ?thesis using that [of "2 ^ l" l] l check by simp
  next
    case (Some k)
    then show ?thesis using that [of "length S" k] xd3_check_pow2_Some [OF Some] by simp
  qed
  obtain ws where ws: "(case xd3_check_pow2 (length S) of Some l \<Rightarrow> Some (length S) | None \<Rightarrow> xd3_xoff_roundup (length S)) = Some ws"
    using l(2) by (cases "xd3_check_pow2 (length S)") (auto simp: xd3_xoff_roundup_def xd3_pow2_roundup_def)
  define sr where "sr = (memory_source S)\<lparr>srclen := 0, srcbase := 0, blksize := bsize, shiftby := shift, maskby := 2 ^ shift - 1,
    max_winsize := max ws XD3_ALLOCSIZE\<rparr>"
  have ms: "blksize ((memory_source S)\<lparr>srclen := 0, srcbase := 0\<rparr>) = length S"
      "max_winsize ((memory_source S)\<lparr>srclen := 0, srcbase := 0\<rparr>) = length S"
    by (simp_all add: memory_source_def)
  have set: "xd3_set_source (memory_source S) = Some sr"
    unfolding xd3_set_source_def Let_def ms blk ws by (simp add: sr_def)
  have d: "xd3_blksize_div (length S) sr = (length S div 2 ^ shift, length S mod 2 ^ shift)"
    by (simp add: xd3_blksize_div_def sr_def drop_bit_eq_div nat_and_mask [simplified])
  define sr' where "sr' = sr\<lparr>eof_known := True, max_blkno := length S div 2 ^ shift, onlastblk := length S mod 2 ^ shift\<rparr>"
  have r: "xd3_set_source_and_size (memory_source S) (length S) = Some sr'"
    by (simp add: xd3_set_source_and_size_def set d sr'_def)
  have f: "blksize sr' = 2 ^ shift" "shiftby sr' = shift" "maskby sr' = 2 ^ shift - 1" "curblk sr' = Some S" "curblkno sr' = 0"
      "onblk sr' = length S" "max_blkno sr' = length S div 2 ^ shift" "onlastblk sr' = length S mod 2 ^ shift" "eof_known sr'"
      "srclen sr' = 0" "srcbase sr' = 0"
    by (simp_all add: sr'_def sr_def size(1) memory_source_def)
  have "whole_source S sr'"
  proof (cases "length S = 2 ^ shift")
    case True
    have "(2 :: nat) ^ shift < 2 ^ 64" using size(2) by (intro power_strict_increasing) auto
    then show ?thesis
      using True size(2) by (simp add: whole_source_def memory_block_def f xd3_source_eof_def xd3_bytes_on_srcblk_def push_bit_eq_mult take_bit_eq_mod)
  next
    case False
    then have "length S < 2 ^ shift" using size(3) by simp
    then show ?thesis using assms size(2) by (simp add: whole_source_def memory_block_def f xd3_source_eof_def xd3_bytes_on_srcblk_def)
  qed
  then show ?thesis using r f by blast
qed

lemma cksum_value_bytes: "cksum_value (cksum_bytes a) x = a"
proof (rule bit_word_eqI)
  fix n assume n: "n < LENGTH(32)"
  have m: "a AND 0xFF = take_bit 8 a" by (simp add: take_bit_eq_mask mask_eq_exp_minus_1)
  consider "n < 8" | "8 \<le> n" "n < 16" | "16 \<le> n" "n < 24" | "24 \<le> n" "n < 32" using n by fastforce
  then show "bit (cksum_value (cksum_bytes a) x) n = bit a n"
    by cases (auto simp: cksum_value_def cksum_bytes_def m bit_simps)
qed

lemma header_from_start: "header_from fgk djw DEC_VCHEAD = falling ([label_vchead, label_hdrind, label_secondid fgk djw,
    label_tablen, label_near, label_same, label_tabdat, label_applen, label_appdat] @
    [label_winind, label_cpylen, label_cpyoff, label_enclen, label_tgtlen, label_delind, label_datalen,
      label_instlen, label_addrlen, label_cksum])"
  by (simp add: header_from_def header_labels_def)

lemma header_from_winind: "header_from fgk djw DEC_WININD = falling 
    [label_winind, label_cpylen, label_cpyoff, label_enclen, label_tgtlen, label_delind, label_datalen,
      label_instlen, label_addrlen, label_cksum]"
  by (simp add: header_from_def header_labels_def)

text \<open>A stream before its first input.\<close>

definition start_decoder :: "'sec xd3_stream \<Rightarrow> bool" where
  "start_decoder s \<longleftrightarrow> fresh_decoder s \<and> enc_state s = ENC_INIT \<and> dec_64part s = 0 \<and> length (dec_cksum s) = 4 \<and>
    dec_winstart s = 0 \<and> dec_tgtlen s = 0 \<and> dec_window_count s = 0 \<and> dec_winbytes s = 0 \<and> next_out s = [] \<and>
    sect_pos (data_sect s) = 0 \<and> sect_pos (inst_sect s) = 0 \<and> sect_pos (addr_sect s) = 0 \<and> no_skips (st_flags s) \<and>
    htype (dec_current1 s) = XD3_NOOP \<and> htype (dec_current2 s) = XD3_NOOP"

text \<open>The bytes of a delta of one window.\<close>

definition one_window :: "vcd_window \<Rightarrow> (nat \<times> nat) option \<Rightarrow> bytes \<Rightarrow> bytes \<Rightarrow> bytes \<Rightarrow> bytes \<Rightarrow> bytes" where
  "one_window w sw ck I A D =
    file_head @ window_head sw ck (length (w_target w)) (length D) (length I) (length A) @ D @ I @ A"

definition window_sw :: "vcd_window \<Rightarrow> (nat \<times> nat) option" where
  "window_sw w = (if w_len w = 0 then None else Some (w_len w, w_base w))"

lemma sw_of_window: "w_len w = sw_len (window_sw w)" "window_sw w \<noteq> None \<longrightarrow> 0 < sw_len (window_sw w)"
  by (auto simp: window_sw_def sw_len_def)

lemma process_loop_output:
  assumes "func s = Some (Some XD3_OUTPUT, s1)" "length out + length (next_out s1) \<le> max_out"
  shows "process_loop func max_out s inp out = process_loop func max_out (s1\<lparr>next_out := []\<rparr>) inp (out @ next_out s1)"
  using assms by (subst process_loop.simps) simp

lemma process_loop_on:
  assumes "func s = Some (Some c, s1)" "c \<in> {XD3_GOTHEADER, XD3_WINSTART, XD3_WINFINISH}"
  shows "process_loop func max_out s inp out = process_loop func max_out s1 inp out"
  using assms by (subst process_loop.simps) auto

lemma process_loop_end:
  assumes "func s = Some (Some XD3_INPUT, s1)"
  shows "process_loop func max_out s [] out = Some (None, s1, out)"
  using assms by (subst process_loop.simps) simp

lemma decode_window_loop:
  fixes s :: "'sec xd3_stream"
  assumes s: "start_decoder s" "next_in s = one_window w (window_sw w) ck I A D"
    and w: "window_ok w" "w_len w = 0 \<longrightarrow> w_base w = 0" "length (w_target w) \<le> 2 ^ 26"
      "length D + length I + length A < 2 ^ 60" "ck = [] \<or> ck = cksum_bytes (adler32 1 (w_target w))" "w_len w + w_base w < 2 ^ 62"
    and src: "0 < w_len w \<longrightarrow> (\<exists>sr. src s = Some sr \<and> whole_source (w_source w) sr)"
    and r: "\<forall>s0 :: 'sec xd3_stream. ready w s0 \<longrightarrow> runs w s0 fresh_cache (length (w_target w)) c I A D"
    and m: "length (w_target w) \<le> max_out"
  shows "\<exists>s'. process_loop (xd3_decode_input fgk djw) max_out s [] [] = Some (None, s', w_target w) \<and> dec_state s' = DEC_WININD"
proof -
  define sw where "sw = window_sw w"
  have swl: "sw_len sw = w_len w" "sw_base sw = w_base w" "sw \<noteq> None \<longrightarrow> 0 < sw_len sw"
    using w(2) by (auto simp: sw_def window_sw_def sw_len_def sw_base_def)
  define W where "W = w_target w"
  have ckl: "ck = [] \<or> length ck = 4" using w(5) by (auto simp: cksum_bytes_def)
  define hb where "hb = window_head sw ck (length W) (length D) (length I) (length A)"
  have st: "fresh_decoder s" "enc_state s = ENC_INIT" "dec_state s = DEC_VCHEAD" using s(1) by (auto simp: start_decoder_def fresh_decoder_def)
  obtain t ac where h1: "falling [label_vchead, label_hdrind, label_secondid fgk djw, label_tablen, label_near, label_same,
      label_tabdat, label_applen, label_appdat] s =
    (None, s\<lparr>total_in := t, next_in := hb @ D @ I @ A, dec_magic := [0xd6, 0xc3, 0xc4, 0], dec_magicbytes := 4, dec_hdr_ind := 0,
      acache := ac, code_table := xd3_rfc3284_code_table, dec_hdrsize := t, dec_state := DEC_WININD\<rparr>)" "s_near ac = 4" "s_same ac = 3"
    using file_header_read [OF st(1), of "hb @ D @ I @ A" fgk djw] s(2) by (auto simp: one_window_def hb_def sw_def W_def)
  define s1 where "s1 = s\<lparr>total_in := t, next_in := hb @ D @ I @ A, dec_magic := [0xd6, 0xc3, 0xc4, 0], dec_magicbytes := 4, dec_hdr_ind := 0,
      acache := ac, code_table := xd3_rfc3284_code_table, dec_hdrsize := t, dec_state := DEC_WININD\<rparr>"
  have f1: "dec_64part s1 = 0" "length (dec_cksum s1) = 4" "dec_winstart s1 + dec_tgtlen s1 < 2 ^ 64" "dec_window_count s1 = 0"
    using s(1) by (simp_all add: s1_def start_decoder_def)
  obtain t2 where h2: "falling [label_winind, label_cpylen, label_cpyoff, label_enclen, label_tgtlen, label_delind, label_datalen,
      label_instlen, label_addrlen, label_cksum] s1 =
    (Some XD3_GOTHEADER, header_state sw ck (length W) (length D) (length I) (length A) t2 (D @ I @ A) s1)"
    using window_header_read [of s1 sw ck "length W" "length D" "length I" "length A" "D @ I @ A"] f1 swl w(3,4,6) ckl
    by (auto simp: s1_def hb_def W_def)
  define s2 where "s2 = header_state sw ck (length W) (length D) (length I) (length A) t2 (D @ I @ A) s1"
  have "header_from fgk djw DEC_VCHEAD s = (Some XD3_GOTHEADER, s2)"
    unfolding header_from_start falling_append h1(1) s1_def [symmetric] andthen_simps h2 s2_def ..
  then have i1: "xd3_decode_input fgk djw s = Some (Some XD3_GOTHEADER, s2)"
    using st by (simp add: xd3_decode_input_def)
  have cache: "xd3_init_cache ac = fresh_cache"
    unfolding fresh_cache_def by (rule init_cache_unique) (simp_all add: h1)
  have f2: "dec_state s2 = DEC_DATA" "enc_state s2 = ENC_INIT" "at_sections I A D s2"
    using s(1) w(3,4) by (simp_all add: s2_def header_state_def s1_def at_sections_def start_decoder_def fresh_decoder_def indicator_flags W_def)
  obtain t3 wb sp where h3: "xd3_decode_sections s2 = (None, sections_state I A D t3 wb sp s2)" "dec_tgtlen s2 \<le> sp"
    using sections_read [OF f2(3)] by blast
  define s3 where "s3 = sections_state I A D t3 wb sp s2"
  have f3: "acache s3 = fresh_cache" "enc_state s3 = ENC_INIT" "next_in s3 = []" "sect_buf (inst_sect s3) = I"
      "sect_buf (addr_sect s3) = A" "sect_buf (data_sect s3) = D"
    using st(2) by (simp_all add: s3_def sections_state_def s2_def header_state_def s1_def cache)
  obtain s4 where h4: "label_emit s3 = Some (Some XD3_OUTPUT, s4)" "next_out s4 = W" "dec_state s4 = DEC_FINISH"
      "dec_win_ind s4 = dec_win_ind s3" "enc_state s4 = enc_state s3" "next_in s4 = next_in s3"
  proof -
    have "\<exists>s'. label_emit s3 = Some (Some XD3_OUTPUT, s') \<and> next_out s' = w_target w \<and> dec_state s' = DEC_FINISH \<and>
      dec_win_ind s' = dec_win_ind s3 \<and> enc_state s' = enc_state s3 \<and> next_in s' = next_in s3"
    proof (rule emit_read [where sw = sw and ck = ck and c = c])
      show "sw \<noteq> None \<longrightarrow> (\<exists>sr. src s3 = Some sr \<and> whole_source (w_source w) sr)"
        using src swl by (auto simp: s3_def sections_state_def s2_def header_state_def s1_def)
      show "ck \<noteq> [] \<longrightarrow> dec_adler32 s3 = adler32 1 (w_target w)"
        using w(5) by (auto simp: s3_def sections_state_def s2_def header_state_def cksum_value_bytes)
      show "length (w_target w) \<le> space_out s3" using h3(2) by (simp add: s3_def sections_state_def s2_def header_state_def W_def)
    qed (use w(1) swl r s(1) in \<open>simp_all add: f3 cache s3_def sections_state_def s2_def header_state_def s1_def W_def start_decoder_def\<close>)
    then show ?thesis using that by (auto simp: W_def)
  qed
  have i2: "xd3_decode_input fgk djw s2 = Some (Some XD3_OUTPUT, s4)"
    using f2(1,2) h3(1) h4(1) by (simp add: xd3_decode_input_def s3_def)
  define s5 where "s5 = s4\<lparr>next_out := []\<rparr>"
  define s6 where "s6 = snd (label_finish s5)"
  have ti: "dec_win_ind s5 = head_indicator sw ck"
    using h4(4) by (simp add: s5_def s3_def sections_state_def s2_def header_state_def)
  have h6: "label_finish s5 = (Some XD3_WINFINISH, s6)" using ti by (simp add: s6_def label_finish_def indicator_flags)
  have i3: "xd3_decode_input fgk djw s5 = Some (Some XD3_WINFINISH, s6)"
    using h4(3,5) f3(2) h6 by (simp add: xd3_decode_input_def s5_def)
  have f6: "dec_state s6 = DEC_WININD" "enc_state s6 = ENC_INIT" "next_in s6 = []"
    using h4(5,6) f3(2,3) ti by (simp_all add: s6_def label_finish_def indicator_flags) (simp_all add: s5_def)
  have "label_winind s6 = (Some XD3_INPUT, s6)" using f6(3) by (simp add: label_winind_def xd3_decode_byte_def)
  then have i4: "xd3_decode_input fgk djw s6 = Some (Some XD3_INPUT, s6)"
    using f6(1,2) by (simp add: xd3_decode_input_def header_from_winind)
  have "process_loop (xd3_decode_input fgk djw) max_out s [] [] = process_loop (xd3_decode_input fgk djw) max_out s2 [] []"
    by (rule process_loop_on [where c = XD3_GOTHEADER]) (simp_all add: i1)
  also have "\<dots> = process_loop (xd3_decode_input fgk djw) max_out s5 [] W"
    using process_loop_output [where func = "xd3_decode_input fgk djw" and s = s2 and out = "[]" and inp = "[]" and max_out = max_out,
        OF i2] m h4(2) by (simp add: s5_def W_def)
  also have "\<dots> = process_loop (xd3_decode_input fgk djw) max_out s6 [] W" by (rule process_loop_on [where c = XD3_WINFINISH]) (simp_all add: i3)
  also have "\<dots> = Some (None, s6, W)" by (rule process_loop_end) (rule i4)
  finally show ?thesis using f6(1) by (auto simp: W_def)
qed

text \<open>The flags under which the client functions decode everything and do not compress a second time.\<close>

definition plain_flags :: "nat \<Rightarrow> bool" where
  "plain_flags flags \<longleftrightarrow> no_skips flags \<and> flags AND (XD3_SEC_DJW + XD3_SEC_FGK + XD3_SEC_LZMA) = 0 \<and>
    \<not> flag flags (XD3_SEC_NODATA + XD3_SEC_NOINST + XD3_SEC_NOADDR)"

lemma plain_sec_type: "plain_flags flags \<Longrightarrow> flags_sec_type fgk djw flags = Inr None"
  by (simp add: plain_flags_def flags_sec_type_def)

lemma decode_config_start:
  assumes "plain_flags flags" "memory_lasts al"
  shows "\<exists>s. xd3_config_stream al fgk djw (decode_config flags) = Inr s \<and>
    start_decoder (s\<lparr>src := x, st_flags := st_flags s OR XD3_FLUSH, next_in := inp\<rparr>) \<and>
    start_decoder (s\<lparr>st_flags := st_flags s OR XD3_FLUSH, next_in := inp\<rparr>) \<and> winsize s = 2 ^ 23"
proof -
  obtain sm where sm: "choose_smatcher XD3_SMATCH_DEFAULT flags = Inr sm" by (auto simp: choose_smatcher_def Let_def)
  have pow: "xd3_check_pow2 XD3_DEFAULT_SPREVSZ \<noteq> None"
    using xd3_check_pow2_pow2 [of 18] by (simp add: XD3_DEFAULT_SPREVSZ_def)
  have ty: "flags_sec_type fgk djw flags = Inr None" by (rule plain_sec_type [OF assms(1)])
  have "no_skips flags" using assms(1) by (simp add: plain_flags_def)
  then show ?thesis
    using ty sm pow assms(2)
    by (simp add: xd3_config_stream_def decode_config_def zero_stream_def start_decoder_def fresh_decoder_def
        new_desect_def zero_hinst_def no_skips_flush XD3_NOOP_def XD3_DEFAULT_WINSIZE_def)
qed

lemma decode_delta_ok:
  fixes fgk :: "'sec xd3_sec_type"
  assumes al: "memory_lasts al" "plain_flags flags"
    and w: "window_ok w" "w_len w = 0 \<longrightarrow> w_base w = 0" "length (w_target w) \<le> 2 ^ 26" "w_len w + w_base w < 2 ^ 62"
      "ck = [] \<or> ck = cksum_bytes (adler32 1 (w_target w))"
    and source: "case source of None \<Rightarrow> w_len w = 0 | Some S \<Rightarrow> S = w_source w \<and> length S < 2 ^ 62"
    and r: "\<forall>s0 :: 'sec xd3_stream. ready w s0 \<longrightarrow> runs w s0 fresh_cache (length (w_target w)) c I A D"
    and len: "length (one_window w (window_sw w) ck I A D) \<le> 2 ^ 23" and m: "length (w_target w) \<le> max_out"
  shows "xd3_decode_memory al fgk djw (one_window w (window_sw w) ck I A D) source max_out flags = Some (None, w_target w)"
proof -
  define delta where "delta = one_window w (window_sw w) ck I A D"
  have dl: "length D + length I + length A < 2 ^ 60" using len by (simp add: one_window_def)
  have st: "xd3_decode_stream fgk djw s delta max_out = Some (None, w_target w)"
    if s: "start_decoder (s\<lparr>st_flags := st_flags s OR XD3_FLUSH, next_in := delta\<rparr>)" "winsize s = 2 ^ 23"
      "0 < w_len w \<longrightarrow> (\<exists>sr. src s = Some sr \<and> whole_source (w_source w) sr)" for s :: "'sec xd3_stream"
  proof -
    define s1 where "s1 = s\<lparr>st_flags := st_flags s OR XD3_FLUSH, next_in := delta\<rparr>"
    have "\<exists>s'. process_loop (xd3_decode_input fgk djw) max_out s1 [] [] = Some (None, s', w_target w) \<and> dec_state s' = DEC_WININD"
      by (rule decode_window_loop [OF _ _ w(1-3) dl w(5,4) _ r m]) (use s in \<open>simp_all add: s1_def delta_def\<close>)
    then obtain s' where s': "process_loop (xd3_decode_input fgk djw) max_out s1 [] [] = Some (None, s', w_target w)"
        "dec_state s' = DEC_WININD" by blast
    have "min (winsize s) (length delta) = length delta" using len s(2) by (simp add: delta_def)
    then show ?thesis
      using s' unfolding xd3_decode_stream_def Let_def by (simp add: s1_def [symmetric] close_decoder_def)
  qed
  show ?thesis
  proof (cases source)
    case None
    obtain s where s: "xd3_config_stream al fgk djw (decode_config flags) = Inr s"
        "start_decoder (s\<lparr>st_flags := st_flags s OR XD3_FLUSH, next_in := delta\<rparr>)" "winsize s = 2 ^ 23"
      using decode_config_start [OF al(2,1)] by blast
    then show ?thesis using st [OF s(2,3)] source None by (simp add: xd3_decode_memory_def delta_def)
  next
    case (Some S)
    then have S: "S = w_source w" "length S < 2 ^ 62" using source by auto
    obtain sr where sr: "xd3_set_source_and_size (memory_source S) (length S) = Some sr" "whole_source S sr"
      using memory_whole_source [OF S(2)] by blast
    obtain s where s: "xd3_config_stream al fgk djw (decode_config flags) = Inr s"
        "start_decoder (s\<lparr>src := Some sr, st_flags := st_flags s OR XD3_FLUSH, next_in := delta\<rparr>)" "winsize s = 2 ^ 23"
      using decode_config_start [OF al(2,1)] by blast
    have "xd3_decode_stream fgk djw (s\<lparr>src := Some sr\<rparr>) delta max_out = Some (None, w_target w)"
      by (rule st) (use s(2,3) sr(2) S(1) in simp_all)
    then show ?thesis using Some s(1) sr(1) by (simp add: xd3_decode_memory_def delta_def)
  qed
qed

end
