(* ===== verification/Xd3EncodeInput.thy ===== *)
theory Xd3EncodeInput
  imports Xd3Match Xd3DecodeInput
begin

text \<open>
  \<open>xd3_encode_input\<close>, one definition for each label of its switch, and the client functions around it:
  \<open>xd3_close_stream\<close> for an encoder, \<open>xd3_encode_stream\<close> and \<open>xd3_encode_memory\<close>. The search may not
  end (\<open>None\<close>). A buffer the client reads is the list \<open>next_out\<close>.
\<close>

unbundle bit_operations_syntax

section \<open>Setup\<close>

definition xd3_encode_init_full :: "'sec xd3_encoder \<Rightarrow> xd3_rvalue + 'sec xd3_encoder" where
  "xd3_encode_init_full e =
    sum_bind
      (case src e of
         None \<Rightarrow> Inr e
       | Some sr \<Rightarrow>
           if large_step (smatcher e) = 0 then Inl Fault
           else
             sum_bind (xd3_size_hashtable (st_alloc e) (max_winsize sr div large_step (smatcher e))
                         (large_look (smatcher e))) (\<lambda>cfg. Inr (e\<lparr>large_hash := cfg\<rparr>))) (\<lambda>e1.
    sum_bind
      (if DO_SMALL e1 then
         sum_bind (xd3_size_hashtable (st_alloc e1) (winsize e1) (small_look (smatcher e1)))
           (\<lambda>cfg. Inr (e1\<lparr>small_hash := cfg\<rparr>))
       else Inr e1)
      xd3_encode_init_partial)"

section \<open>Input\<close>

definition buf_avail :: "'sec xd3_encoder \<Rightarrow> nat" where
  "buf_avail e = (case buf_in e of None \<Rightarrow> 0 | Some b \<Rightarrow> length b)"

text \<open>The copy into the buffer, once it is allocated; it has \<open>winsize\<close> bytes.\<close>

definition fill_buffer :: "'sec xd3_encoder \<Rightarrow> bytes \<Rightarrow> 'sec xd3_encoder result" where
  "fill_buffer e buf =
    (let tk = min (winsize e - length buf) (length (next_in e));
         buf' = buf @ take tk (next_in e);
         e1 = (if tk < length (next_in e) then e\<lparr>buf_leftover := Some (drop tk (next_in e))\<rparr>
               else e\<lparr>buf_leftover := None\<rparr>) in
     if tk = length (next_in e) \<and> length buf' < winsize e \<and> \<not> flag (st_flags e) XD3_FLUSH
     then (Some XD3_INPUT, e1\<lparr>buf_in := Some buf'\<rparr>)
     else (None, e1\<lparr>next_in := buf', buf_in := Some []\<rparr>))"

definition xd3_encode_buffer_leftover :: "'sec xd3_encoder \<Rightarrow> 'sec xd3_encoder result" where
  "xd3_encode_buffer_leftover e =
    (if buf_in e = None \<and> st_alloc e (winsize e) 1 = None then (Some ENOMEM, e)
     else
       case buf_leftover e of
         Some left \<Rightarrow> if winsize e < length left then (Some Fault, e) else fill_buffer e left
       | None \<Rightarrow> fill_buffer e (case buf_in e of None \<Rightarrow> [] | Some b \<Rightarrow> b))"

text \<open>The label \<open>enc_flush\<close>.\<close>

definition enc_flush :: "'sec xd3_encoder \<Rightarrow> 'sec xd3_encoder result" where
  "enc_flush e =
    andthen
      (if buf_leftover e \<noteq> None \<or> buf_avail e \<noteq> 0 \<or> length (next_in e) < winsize e \<and> \<not> flag (st_flags e) XD3_FLUSH
       then xd3_encode_buffer_leftover e else (None, e))
      (\<lambda>e1. (Some XD3_WINSTART, e1\<lparr>acache := xd3_init_cache (acache e1), input_position := 0,
        min_match := MIN_MATCH, unencoded_offset := 0, enc_state := ENC_SEARCH\<rparr>))"

definition label_input :: "'sec xd3_encoder \<Rightarrow> 'sec xd3_encoder result" where
  "label_input e = (if no_input e then (Some XD3_INPUT, e) else enc_flush e)"

section \<open>Search\<close>

text \<open>The switch on \<open>match_state\<close>: the match that starts with the window, or goes on from the last one.\<close>

definition search_start :: "'sec xd3_encoder \<Rightarrow> xd3_source \<Rightarrow> 'sec xd3_encoder" where
  "search_start e sr =
    (if match_state e = MATCH_TARGET then
       (if next_in e \<noteq> [] then (snd (xd3_source_match_setup e sr (match_srcpos e)))\<lparr>match_state := MATCH_FORWARD\<rparr>
        else e\<lparr>match_state := MATCH_SEARCHING, match_fwd := 0\<rparr>)
     else e)"

definition search_source :: "'sec xd3_encoder \<Rightarrow> 'sec xd3_encoder result option" where
  "search_source e =
    (case src e of
       None \<Rightarrow> Some (None, e)
     | Some sr \<Rightarrow>
         if match_state e = MATCH_SEARCHING \<or> next_in e = [] then Some (None, search_start e sr)
         else
           do {
             (ret, e1) \<leftarrow> xd3_source_extend_match (search_start e sr);
             Some (andthen (ret, e1) (\<lambda>e1. (None, e1\<lparr>input_position := add64 (input_position e1) (match_fwd e1)\<rparr>)))
           })"

section \<open>Output\<close>

definition window_finished :: "'sec xd3_encoder \<Rightarrow> 'sec xd3_encoder result" where
  "window_finished e =
    (Some XD3_WINFINISH, e\<lparr>enc_current := [], total_in := add64 (total_in e) (length (next_in e)), enc_state := ENC_POSTWIN\<rparr>)"

text \<open>The label \<open>enc_output\<close> with the pages from \<open>enc_current\<close> on: empty pages are passed over.\<close>

fun enc_output :: "xd3_output \<Rightarrow> 'sec xd3_encoder \<Rightarrow> 'sec xd3_encoder result" where
  "enc_output [] e = (Some Fault, e)"
| "enc_output (page # rest) e =
    (let e1 = e\<lparr>enc_current := page # rest, enc_state := ENC_POSTOUT, next_out := page,
                total_out := add64 (total_out e) (length page)\<rparr> in
     if page \<noteq> [] then (Some XD3_OUTPUT, e1)
     else if rest = [] then window_finished e1
     else enc_output rest e1)"

definition label_postout :: "'sec xd3_encoder \<Rightarrow> 'sec xd3_encoder result" where
  "label_postout e =
    (if next_out e \<noteq> [] then (Some XD3_INTERNAL, e)
     else
       case enc_current e of
         [] \<Rightarrow> (Some Fault, e)
       | page # rest \<Rightarrow> if rest = [] then window_finished e else enc_output rest e)"

definition label_flush :: "'sec xd3_encoder \<Rightarrow> 'sec xd3_encoder result" where
  "label_flush e =
    stepwise (xd3_emit_hdr e) e (\<lambda>e1.
      let pages = enc_hdr e1 @ enc_data e1 @ enc_inst e1 @ enc_addr e1 in
      enc_output pages (e1\<lparr>enc_hdr := pages, enc_data := [], enc_inst := [], enc_addr := []\<rparr>))"

definition label_instr :: "'sec xd3_encoder \<Rightarrow> 'sec xd3_encoder result" where
  "label_instr e =
    stepwise (sum_bind (xd3_iopt_flush_instructions e True) xd3_iopt_add_finalize) e
      (\<lambda>e1. label_flush (e1\<lparr>enc_state := ENC_FLUSH\<rparr>))"

definition label_search :: "'sec xd3_encoder \<Rightarrow> 'sec xd3_encoder result option" where
  "label_search e =
    do {
      (ret1, e1) \<leftarrow> search_source e;
      (ret2, e2) \<leftarrow> (if ret1 = None \<and> next_in e1 \<noteq> [] then xd3_string_match e1 else Some (ret1, e1));
      Some (andthen (ret2, e2) (\<lambda>e2. label_instr (e2\<lparr>enc_state := ENC_INSTR\<rparr>)))
    }"

definition label_postwin :: "'sec xd3_encoder \<Rightarrow> 'sec xd3_encoder result" where
  "label_postwin e =
    (let e0 = xd3_encode_reset e;
         e1 = e0\<lparr>current_window := add64 (current_window e0) 1, enc_state := ENC_INPUT\<rparr> in
     if buf_leftover e1 \<noteq> None then enc_flush e1 else (Some XD3_INPUT, e1))"

section \<open>The switch\<close>

definition xd3_encode_input :: "'sec xd3_encoder \<Rightarrow> 'sec xd3_encoder result option" where
  "xd3_encode_input e =
    (if dec_state e \<noteq> DEC_VCHEAD then Some (Some XD3_INTERNAL, e)
     else
       case enc_state e of
         ENC_INIT \<Rightarrow>
           Some (stepwise (xd3_encode_init_full e) e (\<lambda>e1. label_input (e1\<lparr>enc_state := ENC_INPUT\<rparr>)))
       | ENC_INPUT \<Rightarrow> Some (label_input e)
       | ENC_SEARCH \<Rightarrow> label_search e
       | ENC_INSTR \<Rightarrow> Some (label_instr e)
       | ENC_FLUSH \<Rightarrow> Some (label_flush e)
       | ENC_POSTOUT \<Rightarrow> Some (label_postout e)
       | ENC_POSTWIN \<Rightarrow> Some (label_postwin e)
       | ENC_ABORTED \<Rightarrow> Some (Some XD3_INTERNAL, e))"

section \<open>The client functions\<close>

text \<open>\<open>xd3_close_stream\<close> for a stream that encodes.\<close>

definition close_encoder :: "'sec xd3_encoder \<Rightarrow> xd3_rvalue option" where
  "close_encoder e =
    (if enc_state e \<in> {ENC_INIT, ENC_ABORTED} then
       (if dec_state e \<in> {DEC_VCHEAD, DEC_WININD, DEC_ABORTED} then None else Some XD3_INVALID_INPUT)
     else if buf_leftover e \<noteq> None then Some XD3_INTERNAL
     else
       let e1 = (if enc_state e = ENC_POSTWIN then (xd3_encode_reset e)\<lparr>enc_state := ENC_INPUT\<rparr> else e) in
       if enc_state e1 \<noteq> ENC_INPUT \<or> next_in e1 \<noteq> [] then Some XD3_INTERNAL else None)"

text \<open>The encoder's fields of a stream that \<open>xd3_config_stream\<close> has set up, in the order of the record:
  all zero. The settings of the secondary compressors are those of a configuration that leaves them 0.\<close>

definition zero_sec_cfg :: xd3_sec_cfg where
  "zero_sec_cfg = \<lparr>ngroups = 0, sector_size = 0, inefficient = False\<rparr>"

definition zero_hash_cfg :: xd3_hash_cfg where
  "zero_hash_cfg = \<lparr>cfg_size = 0, cfg_shift = 0, cfg_mask = 0, cfg_look = 0, cfg_multiplier = 0, cfg_powers = []\<rparr>"

definition zero_encoder :: "'sec xd3_stream \<Rightarrow> 'sec xd3_encoder" where
  "zero_encoder s = xd3_stream.extend s
    (xd3_encoder.fields 0 [] [] [] [] [] 0 None 0 0 False False 0 0 0 False None 0
       zero_sec_cfg zero_sec_cfg zero_sec_cfg True [] None None 0 0 MATCH_TARGET 0 0 0 0 0 0 0
       None zero_hash_cfg None None zero_hash_cfg)"

definition xd3_encode_stream ::
    "'sec xd3_encoder \<Rightarrow> bytes \<Rightarrow> nat \<Rightarrow> (xd3_rvalue option \<times> bytes) option" where
  "xd3_encode_stream e inp output_size_max =
    (let n = min (winsize e) (length inp) in
     case process_loop xd3_encode_input output_size_max
            (e\<lparr>st_flags := st_flags e OR XD3_FLUSH, next_in := take n inp, no_input := False\<rparr>) (drop n inp) [] of
       None \<Rightarrow> None
     | Some (ret, e1, out) \<Rightarrow> Some (if ret = None then close_encoder e1 else ret, out))"

definition encode_config :: "nat \<Rightarrow> nat \<Rightarrow> xd3_config option" where
  "encode_config input_size flags =
    map_option (\<lambda>sp.
      \<lparr>config_winsize = min input_size XD3_DEFAULT_WINSIZE, config_sprevsz = sp, config_iopt_size = 0,
       config_getblk = None, config_flags = flags, config_smatch = XD3_SMATCH_DEFAULT\<rparr>)
      (xd3_pow2_roundup (min input_size XD3_DEFAULT_WINSIZE))"

text \<open>\<open>xd3_encode_memory\<close>: the whole source as one block.\<close>

definition xd3_encode_memory ::
    "allocator \<Rightarrow> 'sec xd3_sec_type \<Rightarrow> 'sec xd3_sec_type \<Rightarrow> bytes \<Rightarrow> bytes option \<Rightarrow> nat \<Rightarrow> nat \<Rightarrow>
      (xd3_rvalue option \<times> bytes) option" where
  "xd3_encode_memory al fgk djw inp source output_size_max flags =
    (case encode_config (length inp) flags of
       None \<Rightarrow> None
     | Some config \<Rightarrow>
         (case xd3_config_stream al fgk djw config of
            Inl e \<Rightarrow> Some (Some e, [])
          | Inr s \<Rightarrow>
              (case source of
                 None \<Rightarrow> xd3_encode_stream (zero_encoder s) inp output_size_max
               | Some bs \<Rightarrow>
                   do {
                     sr \<leftarrow> xd3_set_source_and_size (memory_source bs) (length bs);
                     xd3_encode_stream (zero_encoder (s\<lparr>src := Some sr\<rparr>)) inp output_size_max
                   })))"

end
