(* ===== verification/Spec2Isabelle.thy ===== *)
theory Spec2Isabelle
  imports Restore Pipeline Xd3Bits Xd3DecodeTotal Xd3MatchSteps Xd3DecodeDelta Xd3EncodeInput
begin

text \<open>
  A verification library for chunk-grouping, a delta compression system for backup data. The program
  (\<open>main.cpp\<close>) walks a directory; for each file a driver cuts the file into chunks, computes a similarity
  feature per chunk, looks the feature up in an index, writes the chunk to a store as a base block or as
  a delta of an earlier base, and regroups the store to measure how well the groups compress. The theories
  follow the directories under \<open>src/\<close>, bottom up.

  \<^bold>\<open>Foundations.\<close> \<open>Prelude\<close>: the C integer types as words, byte images, failures. \<open>MappedFile\<close>:
  \<open>utils/mapped_file.h\<close> over an explicit operating system state, so that reading through a pointer whose
  mapping is gone is a failure. \<open>Stdio\<close>: C streams with positions. \<open>Float32\<close>: IEEE single precision as
  rationals with an explicit rounding. \<open>UMap\<close>: \<open>std::unordered_map\<close> as a list in iteration order, where
  a new entry lands being a parameter.

  \<^bold>\<open>Chunking.\<close> \<open>Chunk\<close>: \<open>chunk/chunk.h\<close>, \<open>chunk/chunker.h\<close> and the interface locales \<open>chunk_source\<close> and
  \<open>complete_source\<close>. \<open>Gear\<close> and \<open>FastCDC\<close>: \<open>utils/gear.h\<close>, \<open>chunk/fast_cdc\<close>. \<open>RabinPoly\<close>, \<open>RabinRoll\<close>,
  \<open>RabinCDC\<close>: \<open>utils/rabin\<close> and \<open>chunk/rabin_cdc\<close>. The lemmas show that FastCDC partitions a file, where
  it cuts, that the rolling Rabin digest is the polynomial hash of its window, and that RabinCDC can lose
  the tail of a file. For both chunkers the cut is characterised exactly, as the first position of the rest
  that satisfies the code's condition, so that a missed or an additional cut is excluded.

  \<^bold>\<open>Deduplication and features.\<close> \<open>Sha1\<close> and \<open>Dedup\<close>: \<open>utils/sha1\<close>, equal to the standard, and
  \<open>dedup/dedup.h\<close>. \<open>ByteStats\<close>: \<open>our_feature.h\<close>, \<open>storage/our_feature.cpp\<close>. \<open>Features\<close>: the calculators of
  \<open>feature/features.cpp\<close>.

  \<^bold>\<open>Similarity indexes.\<close> \<open>Index\<close>: the interface \<open>index/index.h\<close> as the locale \<open>similarity_index\<close> and the
  drivers' lookup-then-add step. \<open>SuperFeatureIndex\<close>, \<open>PalantirIndex\<close>, \<open>BestFitIndex\<close>: the three
  implementations, each an interpretation of the locale. The best-fit index counts matches in 32 bits;
  \<open>RecoverFromFile\<close> counts the entries of a map with an \<open>int\<close>, whose overflow is the failure \<open>IntOverflow\<close>.

  \<^bold>\<open>Storage.\<close> \<open>Cache\<close>: \<open>storage/cache\<close> as a doubly linked list in a heap, refining an abstract
  least-recently-used list. \<open>Storage\<close>: the data and metadata files of \<open>storage/storage\<close>, refining a list
  of entries (\<open>store_rep\<close>). \<open>Grouping\<close>: \<open>dividByBase\<close> and \<open>groupByBase\<close>. \<open>FileMeta\<close>:
  \<open>storage/file_meta.h\<close>.

  \<^bold>\<open>Drivers.\<close> \<open>DeltaCompression\<close>: \<open>delta_compression\<close>, with the virtual functions of the three abstract
  classes as a record, and the constructor's choice of concrete classes from the configuration. \<open>Restore\<close>:
  the driver's invariant and the end-to-end properties, through the locales of the chunkers and the
  indexes. \<open>Pipeline\<close>: \<open>pipeline_delta_compression\<close> as a step relation of five threads with the locks
  and condition variables of its queues: testing a predicate and going to sleep, and setting a done flag and
  notifying, are separate steps, and the flag is set without the lock. Ended runs equal the sequential run;
  a run ends within a bound, or is stuck because a wakeup was lost, which would not happen with the flag set
  under the lock. A smaller model of one queue shows the lost wakeup itself.

  \<^bold>\<open>VCDIFF.\<close> The vendored \<open>3party/xdelta3\<close> computes the deltas of the \<open>xdelta\<close> option; the theories
  model its library. \<open>Xd3Ints\<close>: the base-128 integers and overflow tests of \<open>xdelta3-internal.h\<close>
  and \<open>xdelta3.c\<close>, with a round trip. \<open>Xd3Output\<close>: the chained output pages and the emitters, as the
  interface locale \<open>byte_sink\<close>. \<open>Xd3Addr\<close>: the near and same address caches, in which an encoder and a
  decoder that start alike stay alike. \<open>Xd3Table\<close>: the RFC 3284 code table and the choice of single and
  double instructions, which never names a code of another instruction. \<open>Adler32\<close>: the checksum, equal
  to RFC 1950. \<open>Xd3Hash\<close>: the rolling checksums and hash tables of the string matcher. \<open>Xd3Bits\<close>: the bit
  streams of the secondary compressors. \<open>Xd3Stream\<close>: the stream record, its sources and configuration.
  \<open>Xd3Decode\<close> and \<open>Xd3DecodeInput\<close>: \<open>xdelta3-decode.h\<close> as a state machine, one definition for each label of
  its switch, and \<open>xd3_decode_memory\<close>. \<open>Xd3DecodeSafe\<close>, \<open>Xd3DecodeInv\<close>, \<open>Xd3DecodeTotal\<close>: on arbitrary
  bytes the decoder returns, keeps its invariant (the lengths of its header, section and output buffers
  included) and stays inside its buffers, on the assumption (\<open>sec_ok\<close>) that the secondary compressors,
  which are parameters, stay inside theirs; \<open>stream_coder\<close> is the interface of \<open>xd3_process_stream\<close> to the
  function it drives.

  \<^bold>\<open>VCDIFF encoder.\<close> \<open>Xd3Encode\<close>: the encoder's record, the buffer of instructions, its compaction and the
  encoding of an instruction. \<open>Xd3EncodeWindow\<close>: the secondary sections, the header, the reset between
  windows. \<open>Xd3Match\<close>: the string matcher, its loop as steps between the labels of \<open>xd3_string_match\<close>.
  \<open>Xd3EncodeInput\<close>: the state machine of \<open>xd3_encode_input\<close> and \<open>xd3_encode_memory\<close>. \<open>Xd3DecodeRun\<close> gives the
  meaning of three sections (\<open>run_at\<close>, \<open>runs\<close>) as what the decoder's own operations do with them;
  \<open>Xd3EncodeRun\<close> shows that every emitted instruction keeps the invariant "the sections run to the bytes
  encoded so far", and \<open>Xd3Compact\<close> that compaction turns ordered, overlapping instructions into
  consecutive ones and that a flushed window decodes to its input. \<open>Xd3MatchOk\<close> and \<open>Xd3MatchSteps\<close> show that
  the instructions the matcher emits copy what the input holds, and \<open>Xd3DecodeDelta\<close> that the decoder
  answers the target of a well-formed delta of one window.

  \<^bold>\<open>Bounds, fuel and undefined behaviour.\<close> A loop the code may not leave is a partial function whose value
  is then \<open>None\<close>; loops with a bound are total, with their measures. The fuel of \<open>drain\<close> is the length
  of the file plus one, which is enough because every chunk is non-empty. \<open>None\<close> also stands for a read
  outside an object or through a dangling pointer. Indeterminate memory (fresh buffers, uninitialised
  fields, the padding byte of a record) is a parameter, named \<open>junk\<close> or \<open>pad\<close>. The end-to-end properties
  ask that the data fit in the block cache, since the cache's accounting breaks once it evicts blocks of
  different sizes (\<open>cache_add_evicts\<close>), and that blocks stay below 64 KiB.

  In the xdelta3 theories \<open>Fault\<close> is a code of its own for a read or write outside an object, the copying
  of the magic number, the application data, the checksum, the sections and the output of the decoder
  included; errors from allocation are codes like any other. Pointers into a buffer are the lists of the bytes from there on.

  \<^bold>\<open>Parameters.\<close> The allocator, the block reader and the secondary compressors of xdelta3; LZ4, LZ4F and
  Zstandard (the size of what they produce), \<open>log2\<close> and the GNU Scientific Library's skewness and kurtosis, the iteration order of hash maps, which paths can be created or mapped.

  \<^bold>\<open>Not modelled.\<close> Logging and the reports printed by destructors; wall-clock times; command line and
  configuration file parsing (\<open>cpptoml.h\<close>); the Huffman secondary compressors of xdelta3, its command line
  tool, tests and merge; \<open>utils/hamming_distance.h\<close>, which no code calls.
\<close>

end
